(* ===== verification/Vuma_Prelude.thy ===== *)
theory Vuma_Prelude
  imports Main "HOL-Library.Word" "HOL-Library.AList"
begin

text \<open>
  Shared ground of the development: the machine integer types of the Rust sources, the model of
  \<^verbatim>\<open>HashMap\<close>, and the generic lemmas the component theories rest on.

  Rust's unsigned integers are words; \<^verbatim>\<open>+\<close>, \<^verbatim>\<open>-\<close> and \<^verbatim>\<open>*\<close> on them wrap, which is what the
  release profile of \<^verbatim>\<open>src/Cargo.toml\<close> compiles them to (it does not switch overflow checks on;
  a debug build panics instead). \<^verbatim>\<open>usize\<close> is \<open>nat\<close> where it only indexes, counts or sorts.
  A Rust \<^verbatim>\<open>String\<close> is the list of its UTF-8 bytes (\<open>string\<close>).
\<close>

unbundle bit_operations_syntax

type_synonym u8 = "8 word"
type_synonym u32 = "32 word"
type_synonym u64 = "64 word"
type_synonym i64 = "64 word"
type_synonym bytes = "u8 list"

named_theorems layout_simps \<open>rewrites for sizes, alignments and offsets\<close>
named_theorems codec_simps \<open>round-trip laws of the binary readers and writers\<close>

section \<open>Saturating and checked arithmetic\<close>

text \<open>Rust's \<^verbatim>\<open>saturating_add\<close>, \<^verbatim>\<open>saturating_sub\<close>, \<^verbatim>\<open>saturating_mul\<close> and \<^verbatim>\<open>checked_add\<close> on \<^verbatim>\<open>u64\<close>.\<close>

definition sat_add :: "u64 \<Rightarrow> u64 \<Rightarrow> u64" where
  "sat_add a b = (if unat a + unat b < 2 ^ 64 then a + b else - 1)"

definition sat_sub :: "u64 \<Rightarrow> u64 \<Rightarrow> u64" where
  "sat_sub a b = (if b \<le> a then a - b else 0)"

definition sat_mul :: "u64 \<Rightarrow> u64 \<Rightarrow> u64" where
  "sat_mul a b = (if unat a * unat b < 2 ^ 64 then a * b else - 1)"

definition checked_add :: "u64 \<Rightarrow> u64 \<Rightarrow> u64 option" where
  "checked_add a b = (if unat a + unat b < 2 ^ 64 then Some (a + b) else None)"

lemma unat_minus_one_u64 [simp]: "unat (- 1 :: u64) = 2 ^ 64 - 1"
  by (simp add: unsigned_minus_1_eq_mask mask_eq_exp_minus_1)

lemma unat_less_u64: "unat (x :: u64) < 2 ^ 64"
  using unsigned_less [of x] by simp

lemma unat_sat_add: "unat (sat_add a b) = min (unat a + unat b) (2 ^ 64 - 1)"
  by (auto simp: sat_add_def unat_word_ariths)

lemma unat_sat_sub: "unat (sat_sub a b) = unat a - unat b"
  by (auto simp: sat_sub_def unat_sub_if_size word_le_nat_alt word_size)

lemma uint_sat_add: "uint (sat_add a b) = min (uint a + uint b) (2 ^ 64 - 1)"
proof -
  have "int (unat (sat_add a b)) = int (min (unat a + unat b) (2 ^ 64 - 1))" by (simp only: unat_sat_add)
  then show ?thesis by (simp add: of_nat_min)
qed

lemma uint_sat_sub: "uint (sat_sub a b) = max 0 (uint a - uint b)"
proof -
  have "int (unat (sat_sub a b)) = int (unat a - unat b)" by (simp only: unat_sat_sub)
  then show ?thesis by (simp add: int_ops(6))
qed

lemma unat_sat_mul: "unat (sat_mul a b) = min (unat a * unat b) (2 ^ 64 - 1)"
  by (auto simp: sat_mul_def unat_word_ariths)

lemma checked_add_Some: "checked_add a b = Some c \<longleftrightarrow> unat c = unat a + unat b"
proof
  assume "checked_add a b = Some c"
  then show "unat c = unat a + unat b"
    by (auto simp: checked_add_def unat_word_ariths split: if_splits)
next
  assume c: "unat c = unat a + unat b"
  then have lt: "unat a + unat b < 2 ^ 64"
    using unat_less_u64 [of c] by simp
  then have "unat (a + b) = unat c"
    using c by (simp add: unat_word_ariths)
  with lt show "checked_add a b = Some c"
    by (simp add: checked_add_def word_unat_eq_iff)
qed

lemma checked_add_None: "checked_add a b = None \<longleftrightarrow> 2 ^ 64 \<le> unat a + unat b"
  by (auto simp: checked_add_def)

section \<open>Results and comparisons\<close>

text \<open>\<^verbatim>\<open>std::cmp::Ordering\<close> with \<^verbatim>\<open>then_with\<close>, and \<^verbatim>\<open>cmp\<close> of a linearly ordered type.\<close>

datatype Ordering = Less | Equal | Greater

fun then_with :: "Ordering \<Rightarrow> Ordering \<Rightarrow> Ordering" where
  "then_with Equal o2 = o2"
| "then_with o1 o2 = o1"

definition cmp :: "'a::linorder \<Rightarrow> 'a \<Rightarrow> Ordering" where
  "cmp a b = (if a < b then Less else if a = b then Equal else Greater)"

text \<open>Rust's \<^verbatim>\<open>Result\<close> is a sum with the error on the left; this is \<^verbatim>\<open>Result::map\<close>.\<close>

fun map_ok :: "('a \<Rightarrow> 'b) \<Rightarrow> 'e + 'a \<Rightarrow> 'e + 'b" where
  "map_ok f (Inl e) = Inl e"
| "map_ok f (Inr x) = Inr (f x)"

lemma map_ok_Inr: "map_ok f r = Inr y \<longleftrightarrow> (\<exists>x. r = Inr x \<and> y = f x)"
  by (cases r) auto

lemma map_ok_Inl: "map_ok f r = Inl e \<longleftrightarrow> r = Inl e"
  by (cases r) auto

section \<open>Mixed-radix arithmetic\<close>

lemma div_mod_digit:
  fixes d n k :: nat
  assumes "d < n"
  shows "(n * k + d) div n = k" and "(n * k + d) mod n = d"
  using assms by simp_all

lemma digits_unique:
  fixes a b c c' d :: nat
  assumes "a * d + c = b * d + c'" and "c < d" and "c' < d"
  shows "a = b \<and> c = c'"
proof -
  have "(d * a + c) div d = (d * b + c') div d" and "(d * a + c) mod d = (d * b + c') mod d"
    using assms(1) by (simp_all add: mult.commute)
  then show ?thesis using assms(2,3) by simp
qed

section \<open>Hash maps\<close>

text \<open>
  A \<^verbatim>\<open>HashMap\<close> is an association list with distinct keys. Its order stands for the iteration order,
  which Rust leaves unspecified: the theorems about code that iterates over a map speak of
  membership, emptiness and counts only.
\<close>

type_synonym ('k, 'v) hmap = "('k \<times> 'v) list"

abbreviation hm_get :: "('k, 'v) hmap \<Rightarrow> 'k \<Rightarrow> 'v option" where
  "hm_get \<equiv> map_of"

abbreviation hm_insert :: "'k \<Rightarrow> 'v \<Rightarrow> ('k, 'v) hmap \<Rightarrow> ('k, 'v) hmap" where
  "hm_insert \<equiv> AList.update"

abbreviation hm_remove :: "'k \<Rightarrow> ('k, 'v) hmap \<Rightarrow> ('k, 'v) hmap" where
  "hm_remove \<equiv> AList.delete"

abbreviation hm_keys :: "('k, 'v) hmap \<Rightarrow> 'k list" where
  "hm_keys \<equiv> map fst"

abbreviation hm_ok :: "('k, 'v) hmap \<Rightarrow> bool" where
  "hm_ok m \<equiv> distinct (map fst m)"

lemma hm_get_insert: "hm_get (hm_insert k v m) = (hm_get m)(k \<mapsto> v)"
  by (rule update_conv')

lemma hm_get_remove: "hm_get (hm_remove k m) = (hm_get m)(k := None)"
  by (rule delete_conv')

lemma hm_ok_insert: "hm_ok m \<Longrightarrow> hm_ok (hm_insert k v m)"
  by (rule distinct_update)

lemma hm_ok_remove: "hm_ok m \<Longrightarrow> hm_ok (hm_remove k m)"
  by (rule distinct_delete)

lemma hm_insert_new: "hm_get m k = None \<Longrightarrow> hm_insert k v m = m @ [(k, v)]"
  by (induction m) (auto split: if_splits)

lemma hm_length_insert:
  "length (hm_insert k v m) = (if hm_get m k = None then Suc (length m) else length m)"
  by (induction m) auto

lemma hm_mem: "hm_ok m \<Longrightarrow> (k, v) \<in> set m \<longleftrightarrow> hm_get m k = Some v"
  by (auto intro: map_of_is_SomeI dest: map_of_SomeD)

section \<open>Lists\<close>

lemma length_filter_list_update:
  assumes "i < length xs"
  shows "length (filter P (xs[i := x])) + (if P (xs ! i) then 1 else 0)
         = length (filter P xs) + (if P x then 1 else 0)"
proof -
  have xs: "xs = take i xs @ xs ! i # drop (Suc i) xs"
    using assms by (rule id_take_nth_drop)
  have "xs[i := x] = take i xs @ x # drop (Suc i) xs"
    using assms by (rule upd_conv_take_nth_drop)
  moreover have "length (filter P xs)
      = length (filter P (take i xs)) + length (filter P (xs ! i # drop (Suc i) xs))"
    using arg_cong [OF xs, of "\<lambda>ys. length (filter P ys)"] by simp
  ultimately show ?thesis by simp
qed

lemma find_Some_mem: "List.find P xs = Some x \<Longrightarrow> x \<in> set xs \<and> P x"
  by (auto simp: find_Some_iff)

end
