(* ===== verification/Bd_Capd.thy ===== *)
theory Bd_Capd
  imports Vuma_Prelude
begin

text \<open>
  Capability descriptors: \<^verbatim>\<open>src/src/bd/src/capd.rs\<close> and the execution context they are resolved
  against, \<^verbatim>\<open>src/src/bd/src/context.rs\<close>. A \<open>CapD\<close> is a set of capabilities and a set of conditions
  (Rust \<^verbatim>\<open>HashSet\<close>s, compared as sets). The theory shows that the order is a partial order whose
  greatest lower bounds \<open>meet\<close> computes, what \<open>join\<close> is a least upper bound of, that resolution in a
  context is monotone, and that widening stabilises.
\<close>

section \<open>Data\<close>

type_synonym PhaseId = u64
type_synonym OpId = u64
type_synonym LockId = u64
type_synonym SecLevel = u8
type_synonym CapRegionId = u64

datatype Capability =
    Read | Write | Execute | Iterate | Send | Persist | Serialize | Deserialize | Hash | Compare
  | DerivePtr | Cast | Fork | Drop | Share | Move | Pin | StateRead | StateWrite
  | StateTransform | StateConsume

fun display_capability :: "Capability \<Rightarrow> string" where
  "display_capability Read = ''Read''"
| "display_capability Write = ''Write''"
| "display_capability Execute = ''Execute''"
| "display_capability Iterate = ''Iterate''"
| "display_capability Send = ''Send''"
| "display_capability Persist = ''Persist''"
| "display_capability Serialize = ''Serialize''"
| "display_capability Deserialize = ''Deserialize''"
| "display_capability Hash = ''Hash''"
| "display_capability Compare = ''Compare''"
| "display_capability DerivePtr = ''DerivePtr''"
| "display_capability Cast = ''Cast''"
| "display_capability Fork = ''Fork''"
| "display_capability Drop = ''Drop''"
| "display_capability Share = ''Share''"
| "display_capability Move = ''Move''"
| "display_capability Pin = ''Pin''"
| "display_capability StateRead = ''StateRead''"
| "display_capability StateWrite = ''StateWrite''"
| "display_capability StateTransform = ''StateTransform''"
| "display_capability StateConsume = ''StateConsume''"

datatype Condition =
    InPhase PhaseId
  | AfterOp OpId
  | BeforeOp OpId
  | NotConcurrentWith OpId
  | RequiresLock LockId
  | SecurityLevel SecLevel
  | ValidDuring CapRegionId

record CapD =
  caps :: "Capability set"
  conditions :: "Condition set"

record Context =
  active_phases :: "PhaseId set"
  completed_ops :: "OpId set"
  active_locks :: "LockId set"
  current_security_level :: SecLevel
  current_region :: "CapRegionId set"

section \<open>The execution context\<close>

definition context_empty :: Context where
  "context_empty = \<lparr>active_phases = {}, completed_ops = {}, active_locks = {},
     current_security_level = 0, current_region = {}\<rparr>"

fun is_condition_active :: "Context \<Rightarrow> Condition \<Rightarrow> bool" where
  "is_condition_active ctx (InPhase phase) \<longleftrightarrow> phase \<in> active_phases ctx"
| "is_condition_active ctx (AfterOp op) \<longleftrightarrow> op \<in> completed_ops ctx"
| "is_condition_active ctx (BeforeOp op) \<longleftrightarrow> op \<notin> completed_ops ctx"
| "is_condition_active ctx (NotConcurrentWith op) \<longleftrightarrow> op \<notin> completed_ops ctx"
| "is_condition_active ctx (RequiresLock lock) \<longleftrightarrow> lock \<in> active_locks ctx"
| "is_condition_active ctx (SecurityLevel required) \<longleftrightarrow> required \<le> current_security_level ctx"
| "is_condition_active ctx (ValidDuring region) \<longleftrightarrow> region \<in> current_region ctx"

definition with_phase :: "Context \<Rightarrow> PhaseId \<Rightarrow> Context" where
  "with_phase ctx phase = ctx\<lparr>active_phases := insert phase (active_phases ctx)\<rparr>"

definition with_completed_op :: "Context \<Rightarrow> OpId \<Rightarrow> Context" where
  "with_completed_op ctx op = ctx\<lparr>completed_ops := insert op (completed_ops ctx)\<rparr>"

definition with_lock :: "Context \<Rightarrow> LockId \<Rightarrow> Context" where
  "with_lock ctx lock = ctx\<lparr>active_locks := insert lock (active_locks ctx)\<rparr>"

definition with_security_level :: "Context \<Rightarrow> SecLevel \<Rightarrow> Context" where
  "with_security_level ctx level = ctx\<lparr>current_security_level := level\<rparr>"

definition with_region :: "Context \<Rightarrow> CapRegionId \<Rightarrow> Context" where
  "with_region ctx region = ctx\<lparr>current_region := insert region (current_region ctx)\<rparr>"

section \<open>Operations on capability descriptors\<close>

definition capd_empty :: CapD where
  "capd_empty = \<lparr>caps = {}, conditions = {}\<rparr>"

definition capd_all :: CapD where
  "capd_all = \<lparr>caps = {Read, Write, Execute, Iterate, Send, Persist, Serialize, Deserialize, Hash,
     Compare, DerivePtr, Cast, Fork, Drop, Share, Move, Pin, StateRead, StateWrite, StateTransform},
     conditions = {}\<rparr>"

definition is_subset :: "CapD \<Rightarrow> CapD \<Rightarrow> bool" where
  "is_subset a b \<longleftrightarrow> caps a \<subseteq> caps b \<and> conditions b \<subseteq> conditions a"

definition is_superset :: "CapD \<Rightarrow> CapD \<Rightarrow> bool" where
  "is_superset a b \<longleftrightarrow> is_subset b a"

definition meet :: "CapD \<Rightarrow> CapD \<Rightarrow> CapD" where
  "meet a b = \<lparr>caps = caps a \<inter> caps b, conditions = conditions a \<union> conditions b\<rparr>"

definition join :: "CapD \<Rightarrow> CapD \<Rightarrow> CapD" where
  "join a b =
     (let cnds = conditions a \<inter> conditions b;
          self_has_consume = (StateConsume \<in> caps a);
          other_has_consume = (StateConsume \<in> caps b)
      in if self_has_consume \<or> other_has_consume then \<lparr>caps = {StateConsume}, conditions = cnds\<rparr>
         else let cs = caps a \<union> caps b
              in \<lparr>caps = (if StateRead \<in> cs \<and> StateWrite \<in> cs then insert StateTransform cs else cs),
                  conditions = cnds\<rparr>)"

definition resolve :: "CapD \<Rightarrow> Context \<Rightarrow> Capability set" where
  "resolve c ctx =
     (if (\<forall>k \<in> conditions c. is_condition_active ctx k) then caps c else {})"

definition resolve_capabilities :: "Context \<Rightarrow> CapD \<Rightarrow> Capability set" where
  "resolve_capabilities ctx c = resolve c ctx"

definition weaken :: "CapD \<Rightarrow> Capability list \<Rightarrow> CapD" where
  "weaken c remove = \<lparr>caps = caps c - set remove, conditions = conditions c\<rparr>"

definition widen :: "CapD \<Rightarrow> CapD \<Rightarrow> CapD" where
  "widen a other = (if is_superset other a \<and> other \<noteq> a then capd_all else other)"

definition strengthen :: "CapD \<Rightarrow> Capability list \<Rightarrow> CapD" where
  "strengthen c add = \<lparr>caps = fold insert add (caps c), conditions = conditions c\<rparr>"

definition partial_cmp :: "CapD \<Rightarrow> CapD \<Rightarrow> Ordering option" where
  "partial_cmp a b =
     (if a = b then Some Equal
      else if is_subset a b then Some Less
      else if is_superset a b then Some Greater
      else None)"

section \<open>The order contract\<close>

text \<open>
  What clients of a descriptor order rely on: a partial order with greatest lower bounds. The
  derived laws are proved once, from the contract.
\<close>

locale meet_order =
  fixes le :: "'a \<Rightarrow> 'a \<Rightarrow> bool"
    and glb :: "'a \<Rightarrow> 'a \<Rightarrow> 'a"
  assumes le_refl: "le x x"
    and le_trans: "le x y \<Longrightarrow> le y z \<Longrightarrow> le x z"
    and le_antisym: "le x y \<Longrightarrow> le y x \<Longrightarrow> x = y"
    and glb_lower1: "le (glb x y) x"
    and glb_lower2: "le (glb x y) y"
    and glb_greatest: "le z x \<Longrightarrow> le z y \<Longrightarrow> le z (glb x y)"
begin

lemma glb_idem: "glb x x = x"
  by (blast intro: le_antisym glb_lower1 glb_greatest le_refl)

lemma glb_commute: "glb x y = glb y x"
  by (blast intro: le_antisym glb_greatest glb_lower1 glb_lower2)

lemma glb_assoc: "glb (glb x y) z = glb x (glb y z)"
  by (blast intro: le_antisym glb_greatest glb_lower1 glb_lower2 le_trans)

lemma le_iff_glb: "le x y \<longleftrightarrow> glb x y = x"
  by (metis glb_greatest glb_lower1 glb_lower2 le_antisym le_refl)

lemma glb_mono: "le x x' \<Longrightarrow> le y y' \<Longrightarrow> le (glb x y) (glb x' y')"
  by (blast intro: glb_greatest glb_lower1 glb_lower2 le_trans)

end

interpretation capd: meet_order is_subset meet
  by unfold_locales (auto simp: is_subset_def meet_def)

lemmas capd_defs = is_subset_def is_superset_def meet_def join_def resolve_def weaken_def
  strengthen_def widen_def capd_empty_def capd_all_def

section \<open>Lemmas\<close>

lemma fold_insert_set [simp]: "fold insert xs S = set xs \<union> S"
  by (induction xs arbitrary: S) auto

abbreviation consume_free :: "CapD \<Rightarrow> bool" where
  "consume_free c \<equiv> StateConsume \<notin> caps c"

text \<open>The closure rule \<open>join\<close> enforces: reading and writing a state entails transforming it.\<close>

abbreviation transform_closed :: "CapD \<Rightarrow> bool" where
  "transform_closed c \<equiv> (StateRead \<in> caps c \<and> StateWrite \<in> caps c \<longrightarrow> StateTransform \<in> caps c)"

lemma caps_capd_all: "caps capd_all = - {StateConsume}"
proof -
  have "x \<in> caps capd_all \<longleftrightarrow> x \<noteq> StateConsume" for x
    by (cases x) (simp_all add: capd_all_def)
  then show ?thesis by auto
qed

lemma le_capd_all: "is_subset c capd_all \<longleftrightarrow> consume_free c"
  by (auto simp: is_subset_def caps_capd_all) (simp_all add: capd_all_def)

lemma capd_all_le: "is_subset capd_all c \<Longrightarrow> consume_free c \<Longrightarrow> c = capd_all"
  by (rule capd.le_antisym) (simp_all add: le_capd_all)

lemma join_upper1: "consume_free a \<Longrightarrow> consume_free b \<Longrightarrow> is_subset a (join a b)"
  by (auto simp: is_subset_def join_def Let_def)

lemma join_commute: "join a b = join b a"
  by (auto simp: join_def Let_def)

lemma join_upper2: "consume_free a \<Longrightarrow> consume_free b \<Longrightarrow> is_subset b (join a b)"
  by (metis join_commute join_upper1)

lemma join_consume_free: "consume_free a \<Longrightarrow> consume_free b \<Longrightarrow> consume_free (join a b)"
  by (auto simp: join_def Let_def)

lemma join_assoc: "join (join a b) c = join a (join b c)"
  by (auto simp: join_def Let_def)

lemma widen_capd_all: "is_subset capd_all b \<Longrightarrow> consume_free b \<Longrightarrow> widen capd_all b = capd_all"
  using capd_all_le by (auto simp: widen_def)

section \<open>Properties\<close>

text \<open>
  \<open>meet\<close> computes greatest lower bounds of the capability order, and resolving a meet in any
  context grants exactly what both descriptors grant there.
\<close>

theorem meet_is_glb:
  "(is_subset z (meet a b) \<longleftrightarrow> is_subset z a \<and> is_subset z b)
   \<and> resolve (meet a b) ctx = resolve a ctx \<inter> resolve b ctx"
  by (auto simp: is_subset_def meet_def resolve_def)

text \<open>
  A descriptor that is lower in the order never grants more: resolution in a fixed context is
  monotone, and weakening a descriptor only removes capabilities in every context.
\<close>

theorem resolve_mono:
  assumes "is_subset a b"
  shows "resolve a ctx \<subseteq> resolve b ctx
         \<and> resolve (weaken a remove) ctx = resolve a ctx - set remove"
  using assms by (auto simp: is_subset_def resolve_def weaken_def split: if_splits)

theorem resolve_mono_witness:
  "resolve \<lparr>caps = {Read}, conditions = {InPhase 3}\<rparr> (with_phase context_empty 3)
     \<subseteq> resolve \<lparr>caps = {Read, Write}, conditions = {}\<rparr> (with_phase context_empty 3)"
proof -
  have "is_subset \<lparr>caps = {Read}, conditions = {InPhase 3}\<rparr> \<lparr>caps = {Read, Write}, conditions = {}\<rparr>"
    by (simp add: is_subset_def)
  from resolve_mono [OF this] show ?thesis by blast
qed

text \<open>
  On descriptors without \<open>StateConsume\<close>, \<open>join\<close> is the least upper bound among the descriptors
  closed under the rule that \<open>StateRead\<close> and \<open>StateWrite\<close> entail \<open>StateTransform\<close>.
\<close>

theorem join_least_closed_upper_bound:
  assumes "consume_free a" and "consume_free b"
  shows "is_subset a (join a b) \<and> is_subset b (join a b) \<and> transform_closed (join a b)
         \<and> (\<forall>u. is_subset a u \<and> is_subset b u \<and> transform_closed u \<longrightarrow> is_subset (join a b) u)"
proof (intro conjI allI impI)
  show "is_subset a (join a b)" using assms by (rule join_upper1)
  show "is_subset b (join a b)" using assms by (rule join_upper2)
next
  assume "StateRead \<in> caps (join a b) \<and> StateWrite \<in> caps (join a b)"
  then show "StateTransform \<in> caps (join a b)"
    by (auto simp: join_def Let_def split: if_splits)
next
  fix u
  assume "is_subset a u \<and> is_subset b u \<and> transform_closed u"
  then show "is_subset (join a b) u"
    using assms by (auto simp: is_subset_def join_def Let_def)
qed

theorem join_least_closed_upper_bound_witness:
  "is_subset \<lparr>caps = {StateRead}, conditions = {}\<rparr>
     (join \<lparr>caps = {StateRead}, conditions = {}\<rparr> \<lparr>caps = {StateWrite}, conditions = {}\<rparr>)
   \<and> StateTransform \<in> caps
     (join \<lparr>caps = {StateRead}, conditions = {}\<rparr> \<lparr>caps = {StateWrite}, conditions = {}\<rparr>)"
proof -
  let ?r = "\<lparr>caps = {StateRead}, conditions = {}\<rparr>" and ?w = "\<lparr>caps = {StateWrite}, conditions = {}\<rparr>"
  have "is_subset ?r (join ?r ?w)"
    using join_least_closed_upper_bound [of ?r ?w] by simp
  then show ?thesis by (simp add: join_def)
qed

text \<open>
  Where an operand holds \<open>StateConsume\<close>, \<open>join\<close> keeps nothing else, so it is not an upper bound
  of an operand that holds any other capability; \<open>capd_all\<close> is above exactly the descriptors
  without \<open>StateConsume\<close>, and \<open>capd_empty\<close> is below exactly those without conditions.
\<close>

theorem join_consume_drops:
  "(StateConsume \<in> caps a \<union> caps b \<longrightarrow> caps (join a b) = {StateConsume})
   \<and> (is_subset a (join a b) \<longrightarrow> StateConsume \<in> caps a \<union> caps b \<longrightarrow> caps a \<subseteq> {StateConsume})
   \<and> (is_subset a capd_all \<longleftrightarrow> StateConsume \<notin> caps a)
   \<and> (is_subset capd_empty a \<longleftrightarrow> conditions a = {})"
proof -
  have "StateConsume \<in> caps a \<union> caps b \<Longrightarrow> caps (join a b) = {StateConsume}"
    by (auto simp: join_def Let_def)
  moreover have "is_subset capd_empty a \<longleftrightarrow> conditions a = {}"
    by (auto simp: is_subset_def capd_empty_def)
  moreover have "is_subset a (join a b) \<Longrightarrow> caps (join a b) = {StateConsume} \<Longrightarrow> caps a \<subseteq> {StateConsume}"
    by (simp add: is_subset_def)
  ultimately show ?thesis
    by (simp add: le_capd_all)
qed

theorem join_consume_drops_witness:
  "caps (join \<lparr>caps = {StateConsume}, conditions = {}\<rparr> \<lparr>caps = {Read}, conditions = {}\<rparr>) = {StateConsume}
   \<and> \<not> is_subset \<lparr>caps = {Read}, conditions = {}\<rparr>
        (join \<lparr>caps = {Read}, conditions = {}\<rparr> \<lparr>caps = {StateConsume}, conditions = {}\<rparr>)"
  using join_consume_drops [of "\<lparr>caps = {StateConsume}, conditions = {}\<rparr>" "\<lparr>caps = {Read}, conditions = {}\<rparr>"]
    join_consume_drops [of "\<lparr>caps = {Read}, conditions = {}\<rparr>" "\<lparr>caps = {StateConsume}, conditions = {}\<rparr>"]
  by auto

text \<open>
  Widening stabilises. For a transfer function that only moves up and never introduces
  \<open>StateConsume\<close>, iterating \<open>widen x (f x)\<close> reaches a fixpoint after one step, which is either
  the starting descriptor or the top element.
\<close>

theorem widen_iteration_stabilises:
  assumes inflationary: "\<And>x. consume_free x \<Longrightarrow> is_subset x (f x) \<and> consume_free (f x)"
    and start: "consume_free x"
  shows "((\<lambda>y. widen y (f y)) ^^ Suc n) x = widen x (f x)
         \<and> (widen x (f x) = x \<or> widen x (f x) = capd_all)"
proof (cases "f x = x")
  case True
  then have "widen x (f x) = x" by (simp add: widen_def)
  moreover have iter: "((\<lambda>y. widen y (f y)) ^^ m) x = x" for m
    by (induction m) (use True in \<open>simp_all add: widen_def\<close>)
  ultimately show ?thesis using iter [of "Suc n"] by simp
next
  case False
  have top: "consume_free capd_all" by (simp add: caps_capd_all)
  from False have first: "widen x (f x) = capd_all"
    using inflationary [OF start] by (auto simp: widen_def is_superset_def)
  have stay: "widen capd_all (f capd_all) = capd_all"
    using inflationary [OF top] by (simp add: widen_capd_all)
  have "((\<lambda>y. widen y (f y)) ^^ Suc m) x = capd_all" for m
    by (induction m) (simp_all add: first stay)
  with first show ?thesis by simp
qed

theorem widen_iteration_stabilises_witness:
  "((\<lambda>y. widen y (join y \<lparr>caps = {Read}, conditions = {}\<rparr>)) ^^ Suc 4) capd_empty = capd_all"
proof -
  let ?f = "\<lambda>y. join y \<lparr>caps = {Read}, conditions = {}\<rparr>"
  have infl: "is_subset y (?f y) \<and> consume_free (?f y)" if "consume_free y" for y
    using that by (simp add: join_upper1 join_consume_free)
  have "((\<lambda>y. widen y (?f y)) ^^ Suc 4) capd_empty = widen capd_empty (?f capd_empty)"
    using widen_iteration_stabilises [of ?f capd_empty 4] infl by (simp add: capd_empty_def)
  also have "\<dots> = capd_all"
    by (simp add: widen_def is_superset_def is_subset_def join_def capd_empty_def)
  finally show ?thesis .
qed

end
