(* ===== verification/Bd_Reld.thy ===== *)
theory Bd_Reld
  imports Bd_Capd
begin

text \<open>
  Relational descriptors: \<^verbatim>\<open>src/src/bd/src/reld.rs\<close>. A \<open>RelD\<close> is the set of relations a value takes
  part in. Refinement is reversed inclusion; \<open>compose\<close> (union) and \<open>merge\<close> (intersection) are its
  meet and join, and consistency only gets lost by adding relations.
\<close>

section \<open>Data\<close>

datatype TemporalKind = Outlives | Coincides | Precedes | Succeeds | EpochBefore | EpochAfter

datatype DepKind = DataDep | ControlDep | AliasDep

datatype FlowPolicy = NoDowngrade | NoCrossBoundary | Sanitized

datatype Relation =
    Temporal TemporalKind
  | Containment
  | Dependency DepKind
  | Equivalence
  | Security FlowPolicy
  | Liveness

record RelD =
  relations :: "Relation set"

section \<open>Operations\<close>

definition is_state_available :: "u64 \<Rightarrow> u64 \<Rightarrow> bool" where
  "is_state_available producer_epoch consumer_epoch \<longleftrightarrow> producer_epoch \<le> consumer_epoch"

definition reld_empty :: RelD where
  "reld_empty = \<lparr>relations = {}\<rparr>"

definition refines :: "RelD \<Rightarrow> RelD \<Rightarrow> bool" where
  "refines a b \<longleftrightarrow> relations b \<subseteq> relations a"

definition compose :: "RelD \<Rightarrow> RelD \<Rightarrow> RelD" where
  "compose a b = \<lparr>relations = relations a \<union> relations b\<rparr>"

definition is_consistent :: "RelD \<Rightarrow> bool" where
  "is_consistent r =
     (let has_outlives = (Temporal Outlives \<in> relations r);
          has_succeeds = (Temporal Succeeds \<in> relations r)
      in if has_outlives \<and> has_succeeds then False
         else let has_precedes = (Temporal Precedes \<in> relations r)
         in if has_precedes \<and> has_succeeds then False
         else let has_epoch_before = (Temporal EpochBefore \<in> relations r);
                  has_epoch_after = (Temporal EpochAfter \<in> relations r)
         in if has_epoch_before \<and> has_epoch_after then False
         else True)"

definition merge :: "RelD \<Rightarrow> RelD \<Rightarrow> RelD" where
  "merge a b = \<lparr>relations = relations a \<inter> relations b\<rparr>"

section \<open>The order of refinement\<close>

interpretation reld: meet_order refines compose
  by unfold_locales (auto simp: refines_def compose_def)

lemmas reld_defs = refines_def compose_def merge_def

lemma is_consistent_iff:
  "is_consistent r \<longleftrightarrow>
     \<not> (Temporal Succeeds \<in> relations r \<and> (Temporal Outlives \<in> relations r \<or> Temporal Precedes \<in> relations r))
     \<and> \<not> (Temporal EpochBefore \<in> relations r \<and> Temporal EpochAfter \<in> relations r)"
  by (auto simp: is_consistent_def Let_def)

lemma is_consistent_antimono: "refines a b \<Longrightarrow> is_consistent a \<Longrightarrow> is_consistent b"
  by (auto simp: is_consistent_iff refines_def)

lemma merge_refined1: "refines a (merge a b)"
  by (simp add: reld_defs)

lemma merge_greatest: "refines a c \<Longrightarrow> refines b c \<Longrightarrow> refines (merge a b) c"
  by (auto simp: reld_defs)

section \<open>Properties\<close>

text \<open>
  Consistency of relational descriptors is inherited along refinement, so merging with a
  consistent descriptor always gives a consistent one, and a composition is consistent only if
  both parts are; the composition is the weakest descriptor refining both parts, the merge the
  strongest one both parts refine.
\<close>

theorem consistency_along_refinement:
  "(is_consistent a \<or> is_consistent b \<longrightarrow> is_consistent (merge a b))
   \<and> (is_consistent (compose a b) \<longrightarrow> is_consistent a \<and> is_consistent b)
   \<and> (refines c (compose a b) \<longleftrightarrow> refines c a \<and> refines c b)
   \<and> (refines (merge a b) c \<longleftrightarrow> refines a c \<and> refines b c)"
proof -
  have "is_consistent a \<or> is_consistent b \<longrightarrow> is_consistent (merge a b)"
    by (auto intro: is_consistent_antimono simp: reld_defs)
  moreover have "is_consistent (compose a b) \<longrightarrow> is_consistent a \<and> is_consistent b"
    using is_consistent_antimono reld.glb_lower1 reld.glb_lower2 by blast
  ultimately show ?thesis by (auto simp: reld_defs)
qed

theorem consistency_along_refinement_witness:
  "is_consistent (merge \<lparr>relations = {Temporal Outlives, Temporal Succeeds}\<rparr> \<lparr>relations = {Temporal Outlives}\<rparr>)
   \<and> \<not> is_consistent \<lparr>relations = {Temporal Outlives, Temporal Succeeds}\<rparr>"
proof -
  have "is_consistent \<lparr>relations = {Temporal Outlives}\<rparr>"
    by (simp add: is_consistent_iff)
  then show ?thesis
    using consistency_along_refinement [of "\<lparr>relations = {Temporal Outlives, Temporal Succeeds}\<rparr>"
        "\<lparr>relations = {Temporal Outlives}\<rparr>"]
    by (simp add: is_consistent_iff)
qed

end
