(* ===== verification/Bd_Manifold.thy ===== *)
theory Bd_Manifold
  imports Vuma_Prelude
begin

text \<open>
  Space-filling layouts: \<^verbatim>\<open>src/src/bd/src/manifold.rs\<close>. Every loop of the source is a \<open>fold\<close> over its
  index range on 64-bit words. The theory shows that the Z-order codes are bit interleavings with
  exact inverses, and that row-major indices are injective and in bounds.
\<close>

section \<open>Z-order curves\<close>

text \<open>The source's \<^verbatim>\<open>((x >> i) & 1) << m\<close>.\<close>

definition bit_at :: "nat \<Rightarrow> u64 \<Rightarrow> nat \<Rightarrow> u64" where
  "bit_at i x m = push_bit m (drop_bit i x AND 1)"

definition zorder_encode_2d :: "u64 \<Rightarrow> u64 \<Rightarrow> u64" where
  "zorder_encode_2d x y =
     fold (\<lambda>i result. (result OR bit_at i x (2 * i))
                        OR bit_at i y (2 * i + 1)) [0..<32] 0"

definition zorder_encode_3d :: "u64 \<Rightarrow> u64 \<Rightarrow> u64 \<Rightarrow> u64" where
  "zorder_encode_3d x y z =
     fold (\<lambda>i result. ((result OR bit_at i x (3 * i))
                        OR bit_at i y (3 * i + 1))
                        OR bit_at i z (3 * i + 2)) [0..<21] 0"

definition zorder_encode_nd :: "u64 list \<Rightarrow> u64" where
  "zorder_encode_nd coords =
     (let n = length coords
      in if n = 0 then 0
         else let bits_per_dim = 64 div n
              in fold (\<lambda>b result.
                         fold (\<lambda>(dim, coord) result'.
                                 result' OR bit_at b coord (n * b + dim))
                           (List.enumerate 0 coords) result)
                   [0..<bits_per_dim] 0)"

definition zorder_decode_2d :: "u64 \<Rightarrow> u64 \<times> u64" where
  "zorder_decode_2d index =
     fold (\<lambda>i (x, y). (x OR bit_at (2 * i) index i,
                        y OR bit_at (2 * i + 1) index i)) [0..<32] (0, 0)"

text \<open>\<^verbatim>\<open>decode_nd\<close> divides by the number of dimensions and panics (\<open>None\<close>) when it is zero.\<close>

definition zorder_decode_nd :: "u64 \<Rightarrow> nat \<Rightarrow> u64 list option" where
  "zorder_decode_nd index n =
     (if n = 0 then None
      else let bits_per_dim = 64 div n
           in Some (fold (\<lambda>b coords.
                     map (\<lambda>(dim, coord). coord OR bit_at (n * b + dim) index b)
                       (List.enumerate 0 coords))
                   [0..<bits_per_dim] (replicate n 0)))"

section \<open>Hilbert curve\<close>

text \<open>
  The while loops over the square size \<open>s\<close>; \<^verbatim>\<open>encode_2d\<close> halves it until it is zero,
  \<^verbatim>\<open>decode_2d\<close> doubles it until it reaches \<open>n\<close>, which takes \<open>order\<close> rounds from 1. A Rust shift by
  an \<^verbatim>\<open>order\<close> of 64 or more is masked to its low six bits in a release build.
\<close>

definition hilbert_n :: "u32 \<Rightarrow> u64" where
  "hilbert_n order = push_bit (unat (order AND 63)) 1"

function hilbert_encode_loop :: "u64 \<Rightarrow> u64 \<Rightarrow> u64 \<Rightarrow> u64 \<Rightarrow> u64 \<Rightarrow> u64" where
  "hilbert_encode_loop n s x y d =
     (if s > 0 then
        let rx = (if (x AND s) > 0 then 1 else 0);
            ry = (if (y AND s) > 0 then 1 else 0);
            d' = d + s * s * ((3 * rx) XOR ry);
            (x', y') = (if ry = 0 then (if rx = 1 then (n - 1 - y, n - 1 - x) else (y, x)) else (x, y))
        in hilbert_encode_loop n (s div 2) x' y' d'
      else d)"
  by pat_completeness auto
termination
proof (relation "measure (\<lambda>(n, s, x, y, d). unat s)", simp)
  fix n s x y d :: u64 and rx ry d' and p and x' y'
  assume "s > 0"
  then show "((n, s div 2, x', y', d'), n, s, x, y, d) \<in> measure (\<lambda>(n, s, x, y, d). unat s)"
    by (simp add: unat_div word_greater_zero_iff unat_gt_0)
qed

definition hilbert_encode_2d :: "u64 \<Rightarrow> u64 \<Rightarrow> u32 \<Rightarrow> u64" where
  "hilbert_encode_2d x y order =
     (let n = hilbert_n order in hilbert_encode_loop n (n div 2) x y 0)"

fun hilbert_decode_loop :: "nat \<Rightarrow> u64 \<Rightarrow> u64 \<Rightarrow> u64 \<Rightarrow> u64 \<Rightarrow> u64 \<Rightarrow> u64 \<times> u64" where
  "hilbert_decode_loop 0 n s x y t = (x, y)"
| "hilbert_decode_loop (Suc rounds) n s x y t =
     (if s < n then
        let rx = 1 AND (t div 2);
            ry = 1 AND (t XOR rx);
            (x', y') = (if ry = 0 then (if rx = 1 then (s - 1 - y, s - 1 - x) else (y, x)) else (x, y))
        in hilbert_decode_loop rounds n (s * 2) (x' + s * rx) (y' + s * ry) (t div 4)
      else (x, y))"

definition hilbert_decode_2d :: "u64 \<Rightarrow> u32 \<Rightarrow> u64 \<times> u64" where
  "hilbert_decode_2d d order = hilbert_decode_loop 64 (hilbert_n order) 1 0 0 d"

section \<open>Physical offsets\<close>

datatype SpaceFillingCurve = ZOrder | Hilbert | RowMajor

text \<open>The row-major loop indexes \<^verbatim>\<open>dim_sizes[i]\<close> for every coordinate; a missing size panics (\<open>None\<close>).\<close>

fun row_major :: "u64 list \<Rightarrow> u64 list \<Rightarrow> u64 \<Rightarrow> u64 option" where
  "row_major [] ds linear = Some linear"
| "row_major (c # cs) [] linear = None"
| "row_major (c # cs) (d # ds) linear = row_major cs ds (linear * d + c)"

definition physical_offset :: "SpaceFillingCurve \<Rightarrow> u64 list \<Rightarrow> u64 list \<Rightarrow> u64 \<Rightarrow> u32 \<Rightarrow> u64 option" where
  "physical_offset curve coords dim_sizes element_size order =
     map_option (\<lambda>index. index * element_size)
       (case curve of
          ZOrder \<Rightarrow>
            Some (if length coords = 2 then zorder_encode_2d (coords ! 0) (coords ! 1)
                  else if length coords = 3 then zorder_encode_3d (coords ! 0) (coords ! 1) (coords ! 2)
                  else zorder_encode_nd coords)
        | Hilbert \<Rightarrow>
            Some (if length coords = 2 then hilbert_encode_2d (coords ! 0) (coords ! 1) order
                  else zorder_encode_nd coords)
        | RowMajor \<Rightarrow> row_major coords dim_sizes 0)"

section \<open>Bits of the folds\<close>

lemma bit_fold:
  assumes "\<And>b r. bit (F b r) k \<longleftrightarrow> bit r k \<or> P b"
  shows "bit (fold F xs (r0 :: u64)) k \<longleftrightarrow> bit r0 k \<or> (\<exists>b \<in> set xs. P b)"
  by (induction xs arbitrary: r0) (auto simp: assms)

lemma bit_bit_at: "bit (bit_at i x m) k \<longleftrightarrow> k = m \<and> m < 64 \<and> bit x i"
proof -
  have "bit (bit_at i x m) k \<longleftrightarrow> m \<le> k \<and> k < 64 \<and> bit x (i + (k - m)) \<and> k - m = 0"
    by (simp only: bit_at_def bit_push_bit_iff possible_bit_word bit_and_iff bit_drop_bit_eq
        bit_1_iff o_apply) simp
  then show ?thesis by auto
qed

lemma split_even_odd:
  fixes k m :: nat
  shows "(\<exists>i<m. (k = 2 * i \<and> P i) \<or> (k = 2 * i + 1 \<and> Q i))
   \<longleftrightarrow> k < 2 * m \<and> (if even k then P (k div 2) else Q (k div 2))"
proof (cases "even k")
  case True
  then obtain j where "k = 2 * j" by (elim evenE)
  then show ?thesis by (auto simp: double_not_eq_Suc_double)
next
  case False
  then obtain j where "k = 2 * j + 1" by (elim oddE)
  then show ?thesis by (auto simp: Suc_double_not_eq_double)
qed

lemma bit_zorder_2d:
  "bit (zorder_encode_2d x y) k \<longleftrightarrow> k < 64 \<and> (if even k then bit x (k div 2) else bit y (k div 2))"
proof -
  have "bit (zorder_encode_2d x y) k \<longleftrightarrow>
      (\<exists>i \<in> set [0..<32]. (k = 2 * i \<and> bit x i) \<or> (k = 2 * i + 1 \<and> bit y i))"
    unfolding zorder_encode_2d_def
    by (subst bit_fold [where P = "\<lambda>i. i < 32 \<and> ((k = 2 * i \<and> bit x i) \<or> (k = 2 * i + 1 \<and> bit y i))"])
      (auto simp: bit_or_iff bit_bit_at dest: bit_imp_le_length)
  then show ?thesis using split_even_odd [of 32 k "bit x" "bit y"] by (simp add: Bex_def)
qed

lemma fold_prod: "fold (\<lambda>i (a, b). (f i a, g i b)) xs (a, b) = (fold f xs a, fold g xs b)"
  by (induction xs arbitrary: a b) auto

lemma bit_fold_at:
  "bit (fold (\<lambda>i x. x OR bit_at (g i) index i) [0..<m] 0) k \<longleftrightarrow> k < m \<and> k < 64 \<and> bit index (g k)"
  by (subst bit_fold [where P = "\<lambda>i. k = i \<and> i < 64 \<and> bit index (g i)"]) (auto simp: bit_or_iff bit_bit_at)

lemma bit_zorder_decode_2d:
  "bit (fst (zorder_decode_2d index)) k \<longleftrightarrow> k < 32 \<and> bit index (2 * k)"
  "bit (snd (zorder_decode_2d index)) k \<longleftrightarrow> k < 32 \<and> bit index (2 * k + 1)"
  unfolding zorder_decode_2d_def fold_prod fst_conv snd_conv bit_fold_at by auto

lemma word_bits_eqI:
  fixes a b :: u64
  assumes "\<And>k. k < 64 \<Longrightarrow> bit a k \<longleftrightarrow> bit b k"
  shows "a = b"
  using assms by (intro bit_word_eqI) simp

subsection \<open>Any number of dimensions\<close>

lemma ex_enumerate:
  "(\<exists>p \<in> set (List.enumerate 0 xs). Q (fst p) (snd p)) \<longleftrightarrow> (\<exists>d<length xs. Q d (xs ! d))"
proof
  assume "\<exists>d<length xs. Q d (xs ! d)"
  then obtain d where "d < length xs" and "Q d (xs ! d)" by blast
  then show "\<exists>p \<in> set (List.enumerate 0 xs). Q (fst p) (snd p)"
    by (intro bexI [of _ "(d, xs ! d)"]) (simp_all add: in_set_enumerate_eq)
qed (auto simp: in_set_enumerate_eq)

lemma bit_zorder_nd:
  assumes "coords \<noteq> []"
  shows "bit (zorder_encode_nd coords) k \<longleftrightarrow>
     k < length coords * (64 div length coords) \<and> bit (coords ! (k mod length coords)) (k div length coords)"
proof -
  let ?n = "length coords"
  have n: "0 < ?n" using assms by simp
  have small: "?n * b + dim < 64" if "b < 64 div ?n" and "dim < ?n" for b dim
  proof -
    have "?n * b + dim < ?n * Suc b" using that by simp
    also have "\<dots> \<le> ?n * (64 div ?n)" using that(1) by (intro mult_le_mono2) simp
    also have "\<dots> \<le> 64" by simp
    finally show ?thesis .
  qed
  have inner: "bit (fold (\<lambda>(dim, coord) r. r OR bit_at b coord (?n * b + dim)) (List.enumerate 0 coords) r) k
      \<longleftrightarrow> bit r k \<or> (\<exists>dim<?n. k = ?n * b + dim \<and> k < 64 \<and> bit (coords ! dim) b)" for b r
    using ex_enumerate [of coords "\<lambda>d c. k = ?n * b + d \<and> k < 64 \<and> bit c b"]
    by (subst bit_fold [where P = "\<lambda>p. k = ?n * b + fst p \<and> k < 64 \<and> bit (snd p) b"])
      (auto simp: bit_or_iff bit_bit_at split: prod.splits)
  have "bit (zorder_encode_nd coords) k \<longleftrightarrow>
      (\<exists>b \<in> set [0..<64 div ?n]. \<exists>dim<?n. k = ?n * b + dim \<and> k < 64 \<and> bit (coords ! dim) b)"
    using assms unfolding zorder_encode_nd_def Let_def
    by (simp only: length_0_conv if_False) (subst bit_fold [OF inner], simp)
  also have "\<dots> \<longleftrightarrow> k < ?n * (64 div ?n) \<and> bit (coords ! (k mod ?n)) (k div ?n)"
  proof
    assume "\<exists>b \<in> set [0..<64 div ?n]. \<exists>dim<?n. k = ?n * b + dim \<and> k < 64 \<and> bit (coords ! dim) b"
    then obtain b dim where b: "b < 64 div ?n" and dim: "dim < ?n" and k: "k = ?n * b + dim"
      and bit: "bit (coords ! dim) b" by auto
    have "k div ?n = b" and "k mod ?n = dim" using k div_mod_digit [OF dim] by blast+
    moreover have "k < ?n * (64 div ?n)" using b n \<open>k div ?n = b\<close>
      by (metis div_less_iff_less_mult mult.commute)
    ultimately show "k < ?n * (64 div ?n) \<and> bit (coords ! (k mod ?n)) (k div ?n)"
      using bit by simp
  next
    assume r: "k < ?n * (64 div ?n) \<and> bit (coords ! (k mod ?n)) (k div ?n)"
    then have "k div ?n < 64 div ?n" using n by (simp add: div_less_iff_less_mult mult.commute)
    moreover have "k mod ?n < ?n" using n by simp
    moreover have "k = ?n * (k div ?n) + k mod ?n" by simp
    ultimately show "\<exists>b \<in> set [0..<64 div ?n]. \<exists>dim<?n. k = ?n * b + dim \<and> k < 64 \<and> bit (coords ! dim) b"
      using r small by (metis atLeastLessThan_iff atLeast_upt le0 set_upt)
  qed
  finally show ?thesis .
qed

lemma enumerate_map_enumerate:
  "List.enumerate 0 (map (\<lambda>p. h (fst p) (snd p)) (List.enumerate 0 cs))
   = map (\<lambda>p. (fst p, h (fst p) (snd p))) (List.enumerate 0 cs)"
  by (intro nth_equalityI) (auto simp: nth_enumerate_eq)

lemma fold_map_enumerate:
  "fold (\<lambda>b cs. map (\<lambda>(d, c). g b d c) (List.enumerate 0 cs)) bs cs
   = map (\<lambda>(d, c). fold (\<lambda>b. g b d) bs c) (List.enumerate 0 cs)"
proof (induction bs arbitrary: cs)
  case Nil
  show ?case by (intro nth_equalityI) (auto simp: nth_enumerate_eq)
next
  case (Cons b bs)
  then show ?case by (simp add: enumerate_map_enumerate comp_def case_prod_unfold)
qed

lemma zorder_decode_nd_nth:
  assumes "0 < n"
  shows "zorder_decode_nd index n
    = Some (map (\<lambda>d. fold (\<lambda>b c. c OR bit_at (n * b + d) index b) [0..<64 div n] 0) [0..<n])"
  using assms unfolding zorder_decode_nd_def Let_def fold_map_enumerate
  by (auto intro!: nth_equalityI simp: nth_enumerate_eq)

section \<open>Row-major indices\<close>

lemma row_major_step:
  fixes lin c d :: u64
  assumes "unat lin < L" and "c < d" and "L * unat d \<le> 2 ^ 64"
  shows "unat (lin * d + c) = unat lin * unat d + unat c" and "unat (lin * d + c) < L * unat d"
proof -
  have "unat c < unat d" using assms(2) by (simp add: word_less_nat_alt)
  then have "unat lin * unat d + unat c < Suc (unat lin) * unat d" by simp
  also have "\<dots> \<le> L * unat d" using assms(1) by (intro mult_le_mono1) simp
  finally have lt: "unat lin * unat d + unat c < L * unat d" .
  with assms(3) have "unat lin * unat d + unat c < 2 ^ 64" by simp
  then show eq: "unat (lin * d + c) = unat lin * unat d + unat c"
    by (simp add: unat_word_ariths)
  show "unat (lin * d + c) < L * unat d" using eq lt by simp
qed

lemma dims_pos: "list_all2 (<) cs (ds :: u64 list) \<Longrightarrow> 0 < prod_list (map unat ds)"
  by (induction rule: list_all2_induct) (auto simp: word_less_nat_alt)

lemma row_major_bounded:
  assumes "list_all2 (<) cs ds" and "unat lin < L" and "L * prod_list (map unat ds) \<le> 2 ^ 64"
  shows "\<exists>r. row_major cs ds lin = Some r \<and> unat r < L * prod_list (map unat ds)"
  using assms
proof (induction cs ds lin arbitrary: L rule: row_major.induct)
  case (3 c cs d ds lin)
  have "0 < prod_list (map unat ds)" using "3.prems"(1) by (auto dest: dims_pos)
  then have "L * unat d * 1 \<le> L * unat d * prod_list (map unat ds)"
    by (intro mult_le_mono2) simp
  also have "\<dots> \<le> 2 ^ 64" using "3.prems"(3) by (simp add: mult.assoc)
  finally have le: "L * unat d \<le> 2 ^ 64" by simp
  show ?case
    using "3.IH" [of "L * unat d"] "3.prems" row_major_step(2) [OF "3.prems"(2) _ le, of c]
    by (simp add: mult.assoc)
qed simp_all

lemma row_major_inj:
  assumes "list_all2 (<) cs ds" and "list_all2 (<) cs' ds"
    and "unat lin < L" and "unat lin' < L" and "L * prod_list (map unat ds) \<le> 2 ^ 64"
    and "row_major cs ds lin = row_major cs' ds lin'"
  shows "cs = cs' \<and> lin = lin'"
  using assms
proof (induction cs ds lin arbitrary: L cs' lin' rule: row_major.induct)
  case (3 c cs d ds lin)
  from "3.prems"(2) obtain c' cs'' where cs': "cs' = c' # cs''" and c': "c' < d"
    and rest: "list_all2 (<) cs'' ds" by (cases cs') auto
  have c: "c < d" and rest0: "list_all2 (<) cs ds" using "3.prems"(1) by auto
  have "L * unat d * 1 \<le> L * unat d * prod_list (map unat ds)"
    using dims_pos [OF rest] by (intro mult_le_mono2) simp
  also have "\<dots> \<le> 2 ^ 64" using "3.prems"(5) by (simp add: mult.assoc)
  finally have le: "L * unat d \<le> 2 ^ 64" by simp
  note st = row_major_step [OF "3.prems"(3) c le] and st' = row_major_step [OF "3.prems"(4) c' le]
  have "cs = cs'' \<and> lin * d + c = lin' * d + c'"
    using "3.IH" [OF rest0 rest st(2) st'(2)] "3.prems"(5,6) cs' by (simp add: mult.assoc)
  moreover from this have eq: "unat lin * unat d + unat c = unat lin' * unat d + unat c'"
    using st(1) st'(1) by simp
  moreover have "unat c < unat d" and "unat c' < unat d" using c c' by (simp_all add: word_less_nat_alt)
  ultimately have "unat lin = unat lin'" and "unat c = unat c'"
    using digits_unique [OF eq] by blast+
  with \<open>cs = cs'' \<and> _\<close> cs' show ?case by (simp add: word_unat_eq_iff)
next
  case (1 ds lin)
  then show ?case by (cases cs') auto
qed simp_all

section \<open>Properties\<close>

text \<open>
  C35: Two-dimensional Z-order coding is a bijection between pairs of 32-bit coordinates and 64-bit
  indices: decoding an encoded pair returns the low 32 bits of both coordinates, and encoding a
  decoded index returns the index.
\<close>

theorem zorder_2d_roundtrip:
  "zorder_decode_2d (zorder_encode_2d x y) = (take_bit 32 x, take_bit 32 y)
   \<and> zorder_encode_2d (fst (zorder_decode_2d index)) (snd (zorder_decode_2d index)) = index"
proof
  show "zorder_decode_2d (zorder_encode_2d x y) = (take_bit 32 x, take_bit 32 y)"
    by (intro prod_eqI word_bits_eqI)
      (auto simp: bit_zorder_decode_2d bit_zorder_2d bit_take_bit_iff)
  show "zorder_encode_2d (fst (zorder_decode_2d index)) (snd (zorder_decode_2d index)) = index"
    by (intro word_bits_eqI) (auto simp: bit_zorder_decode_2d bit_zorder_2d elim!: evenE oddE)
qed

text \<open>
  Z-order coding in any positive number \<open>n\<close> of dimensions decodes to the low \<open>64 div n\<close> bits of
  every coordinate, so coordinates below \<open>2 ^ (64 div n)\<close> are recovered exactly.
\<close>

theorem zorder_nd_roundtrip:
  assumes "coords \<noteq> []"
  shows "zorder_decode_nd (zorder_encode_nd coords) (length coords)
         = Some (map (take_bit (64 div length coords)) coords)"
proof -
  let ?n = "length coords"
  have n: "0 < ?n" using assms by simp
  have "fold (\<lambda>b c. c OR bit_at (?n * b + d) (zorder_encode_nd coords) b) [0..<64 div ?n] 0
      = take_bit (64 div ?n) (coords ! d)" if d: "d < ?n" for d
  proof (intro word_bits_eqI)
    fix k :: nat
    assume "k < 64"
    have dm: "(?n * k + d) div ?n = k" "(?n * k + d) mod ?n = d" using div_mod_digit [OF d] by blast+
    then have "?n * k + d < ?n * (64 div ?n) \<longleftrightarrow> k < 64 div ?n"
      using n by (metis div_less_iff_less_mult mult.commute)
    then show "bit (fold (\<lambda>b c. c OR bit_at (?n * b + d) (zorder_encode_nd coords) b) [0..<64 div ?n] 0) k
        \<longleftrightarrow> bit (take_bit (64 div ?n) (coords ! d)) k"
      using \<open>k < 64\<close> dm by (auto simp: bit_fold_at bit_zorder_nd [OF assms] bit_take_bit_iff)
  qed
  then show ?thesis
    unfolding zorder_decode_nd_nth [OF n] by (auto intro!: nth_equalityI)
qed

theorem zorder_nd_roundtrip_witness:
  "zorder_decode_nd (zorder_encode_nd [5, 9, 2, 7]) 4 = Some [5, 9, 2, 7]"
proof -
  have len: "length [5, 9, 2, 7 :: u64] = 4" by simp
  have "zorder_decode_nd (zorder_encode_nd [5, 9, 2, 7]) 4 = Some (map (take_bit (64 div 4)) [5, 9, 2, 7])"
    using zorder_nd_roundtrip [of "[5, 9, 2, 7]"] unfolding len by blast
  then show ?thesis by simp
qed

text \<open>
  Row-major indices of in-range coordinates exist, lie below the number of cells, and are
  distinct for distinct coordinates, as long as the number of cells fits in 64 bits.
\<close>

theorem row_major_injective_in_bounds:
  assumes "list_all2 (<) cs ds" and "list_all2 (<) cs' ds" and "prod_list (map unat ds) < 2 ^ 64"
  shows "(\<exists>r. physical_offset RowMajor cs ds 1 order = Some r \<and> unat r < prod_list (map unat ds))
         \<and> (physical_offset RowMajor cs ds 1 order = physical_offset RowMajor cs' ds 1 order \<longrightarrow> cs = cs')"
  using row_major_bounded [OF assms(1), of 0 1] row_major_inj [OF assms(1,2), of 0 1 0] assms(3)
  by (auto simp: physical_offset_def option.map_ident)

theorem row_major_injective_in_bounds_witness:
  "physical_offset RowMajor [1, 2] [3, 4] 1 0 = Some 6
   \<and> (\<exists>r. physical_offset RowMajor [1, 2] [3, 4] 1 0 = Some r \<and> unat r < 12)"
proof -
  have "list_all2 (<) [1, 2] [3, 4 :: u64]" by simp
  from row_major_injective_in_bounds [OF this this, of 0] show ?thesis
    by (simp add: physical_offset_def)
qed

end
