(* ===== verification/Bd_Repd.thy ===== *)
theory Bd_Repd
  imports Bd_Capd Bd_Reld Bd_Manifold
begin

text \<open>
  Representation descriptors: the data, size, alignment, compatibility and subsumption part of
  \<^verbatim>\<open>src/src/bd/src/repd.rs\<close>. The payload structs of the Rust enum are the arguments of the
  constructors here (\<^verbatim>\<open>StructRep {fields, total_size, align}\<close> is \<open>Struct fs total_size align\<close>),
  and \<^verbatim>\<open>Box\<close> disappears. The theory shows where compatibility is reflexive and symmetric, that it
  fixes size and alignment, and what subsumption does not.
\<close>

section \<open>Data\<close>

type_synonym LayoutId = u32
type_synonym FieldId = u32

definition POINTER_SIZE :: u64 where
  "POINTER_SIZE = 8"

record ManifoldSpatialRep =
  ms_dimensions :: u32
  ms_dim_sizes :: "u64 list"
  ms_element_size :: u64
  ms_curve :: SpaceFillingCurve
  ms_order :: u32
  ms_total_bytes :: u64

record GestaltSuperpositionRep =
  gs_variants :: "string list"
  gs_max_size :: u64
  gs_max_align :: u64
  gs_degraded :: bool
  gs_tag_offset :: "u64 option"

record ConceptRelationalRep =
  cr_field_names :: "string list"
  cr_field_offsets :: "(string \<times> u64) list"
  cr_total_size :: u64
  cr_align :: u64
  cr_use_soa :: bool

datatype (discs_sels) RepD =
    Byte (byte_size: u64) (byte_align: u64)
  | Struct "(u64 \<times> RepD) list" u64 u64
  | Array RepD u64
  | Enum "(u64 \<times> RepD) list"
  | Ptr RepD
  | Union "RepD list" u64 u64
  | Func "RepD list" RepD
  | ManifoldSpatial ManifoldSpatialRep
  | GestaltSuperposition GestaltSuperpositionRep
  | ConceptRelational ConceptRelationalRep
  | Generic (generic_name: string) (generic_constraints: "BDConstraint list")
  | State LayoutId
  | Ref LayoutId FieldId
  | DependentArray RepD string
and BDConstraint =
    CapDAtLeast CapD
  | RepDCompatibleWith RepD
  | RelDContains RelD

section \<open>Size and alignment\<close>

text \<open>
  \<^verbatim>\<open>align_to\<close> panics on a zero alignment; its callers pass 8 or a field alignment of at least 1, so
  the model states the value for positive alignments. \<^verbatim>\<open>div_ceil\<close> is Rust's rounded-up division.
\<close>

definition div_ceil :: "u64 \<Rightarrow> u64 \<Rightarrow> u64" where
  "div_ceil a b = (let d = a div b; r = a mod b in if r > 0 then d + 1 else d)"

definition align_to :: "u64 \<Rightarrow> u64 \<Rightarrow> u64" where
  "align_to val align = div_ceil val align * align"

text \<open>\<^verbatim>\<open>iter().max().unwrap_or(0)\<close> is the maximum with 0, the least \<^verbatim>\<open>u64\<close>.\<close>

fun repd_size :: "RepD \<Rightarrow> u64" where
  "repd_size (Byte sz align) = sz"
| "repd_size (Struct fs total_size align) = total_size"
| "repd_size (Array element count) = repd_size element * count"
| "repd_size (Enum variants) =
     8 + align_to (fold max (map (\<lambda>v. repd_size (snd v)) variants) 0) 8"
| "repd_size (Ptr pointee) = POINTER_SIZE"
| "repd_size (Union alternatives max_size max_align) = max_size"
| "repd_size (Func params result) = POINTER_SIZE"
| "repd_size (Generic name constraints) = 0"
| "repd_size (ManifoldSpatial m) = ms_total_bytes m"
| "repd_size (GestaltSuperposition g) = gs_max_size g"
| "repd_size (ConceptRelational c) = cr_total_size c"
| "repd_size (State layout) = 0"
| "repd_size (Ref layout field) = POINTER_SIZE"
| "repd_size (DependentArray elem count_var) = 0"

definition size_of :: "RepD \<Rightarrow> u64" where
  "size_of r = repd_size r"

fun alignment :: "RepD \<Rightarrow> u64" where
  "alignment (Byte sz align) = align"
| "alignment (Struct fs total_size align) = align"
| "alignment (Array element count) = alignment element"
| "alignment (Enum variants) = 8"
| "alignment (Ptr pointee) = POINTER_SIZE"
| "alignment (Union alternatives max_size max_align) = max_align"
| "alignment (Func params result) = POINTER_SIZE"
| "alignment (Generic name constraints) = 1"
| "alignment (ManifoldSpatial m) = max (ms_element_size m) 8"
| "alignment (GestaltSuperposition g) = gs_max_align g"
| "alignment (ConceptRelational c) = max (cr_align c) 1"
| "alignment (State layout) = 1"
| "alignment (Ref layout field) = POINTER_SIZE"
| "alignment (DependentArray elem count_var) = alignment elem"

definition dependent_array_size :: "u64 \<Rightarrow> u64 \<Rightarrow> u64" where
  "dependent_array_size elem_size count = elem_size * count"

section \<open>Compatibility\<close>

text \<open>
  The zips of the source pair the elements up to the shorter list; each is reached only after the
  lengths were compared.
\<close>

function (sequential) compatible :: "RepD \<Rightarrow> RepD \<Rightarrow> bool"
  and compatible_fields :: "(u64 \<times> RepD) list \<Rightarrow> (u64 \<times> RepD) list \<Rightarrow> bool"
  and compatible_list :: "RepD list \<Rightarrow> RepD list \<Rightarrow> bool"
  and generic_satisfies_constraints :: "BDConstraint list \<Rightarrow> RepD \<Rightarrow> bool"
where
  "compatible a b =
     (if is_Generic a then generic_satisfies_constraints (generic_constraints a) b
      else if is_Generic b then generic_satisfies_constraints (generic_constraints b) a
      else if repd_size a \<noteq> repd_size b \<or> alignment a \<noteq> alignment b then False
      else if is_Byte a \<or> is_Byte b then True
      else (case a of
            Struct fa _ _ \<Rightarrow>
              (case b of Struct fb _ _ \<Rightarrow> length fa = length fb \<and> compatible_fields fa fb | _ \<Rightarrow> False)
          | Array ea ca \<Rightarrow>
              (case b of Array eb cb \<Rightarrow> ca = cb \<and> compatible ea eb | _ \<Rightarrow> False)
          | Enum va \<Rightarrow>
              (case b of Enum vb \<Rightarrow> length va = length vb \<and> compatible_fields va vb | _ \<Rightarrow> False)
          | Ptr pa \<Rightarrow>
              (case b of Ptr pb \<Rightarrow> compatible pa pb | _ \<Rightarrow> False)
          | Union aa _ _ \<Rightarrow>
              (case b of Union ab _ _ \<Rightarrow> length aa = length ab \<and> compatible_list aa ab | _ \<Rightarrow> False)
          | Func pa ra \<Rightarrow>
              (case b of Func pb rb \<Rightarrow> length pa = length pb \<and> compatible_list pa pb \<and> compatible ra rb
                | _ \<Rightarrow> False)
          | _ \<Rightarrow> False))"
| "compatible_fields ((off_a, rep_a) # fa) ((off_b, rep_b) # fb) =
     (off_a = off_b \<and> compatible rep_a rep_b \<and> compatible_fields fa fb)"
| "compatible_fields _ _ = True"
| "compatible_list (x # xs) (y # ys) = (compatible x y \<and> compatible_list xs ys)"
| "compatible_list _ _ = True"
| "generic_satisfies_constraints [] concrete = True"
| "generic_satisfies_constraints (CapDAtLeast _ # cs) concrete = generic_satisfies_constraints cs concrete"
| "generic_satisfies_constraints (RepDCompatibleWith required # cs) concrete =
     (if \<not> compatible concrete required then False else generic_satisfies_constraints cs concrete)"
| "generic_satisfies_constraints (RelDContains _ # cs) concrete = generic_satisfies_constraints cs concrete"
  by pat_completeness auto
termination
  by (relation "measure (\<lambda>x. case x of
       Inl (Inl (a, b)) \<Rightarrow> size a + size b
     | Inl (Inr (fa, fb)) \<Rightarrow> size_list (size_prod (\<lambda>_. 0) size) fa + size_list (size_prod (\<lambda>_. 0) size) fb
     | Inr (Inl (xs, ys)) \<Rightarrow> size_list size xs + size_list size ys
     | Inr (Inr (cs, r)) \<Rightarrow> size_list size cs + size r)")
    (auto simp: is_Generic_def)

declare compatible.simps [simp del]

section \<open>Subsumption\<close>

function (sequential) subsumes :: "RepD \<Rightarrow> RepD \<Rightarrow> bool"
  and subsumes_fields :: "(u64 \<times> RepD) list \<Rightarrow> (u64 \<times> RepD) list \<Rightarrow> bool"
  and subsumes_list :: "RepD list \<Rightarrow> RepD list \<Rightarrow> bool"
where
  "subsumes a b =
     (if is_Byte a \<and> byte_size a = repd_size b \<and> byte_align a = alignment b then True
      else if is_Generic a then generic_satisfies_constraints (generic_constraints a) b
      else (case a of
          Struct fa _ _ \<Rightarrow>
            (case b of Struct fb _ _ \<Rightarrow> length fa = length fb \<and> subsumes_fields fa fb | _ \<Rightarrow> False)
        | Array ea ca \<Rightarrow>
            (case b of Array eb cb \<Rightarrow> ca = cb \<and> subsumes ea eb | _ \<Rightarrow> False)
        | Enum va \<Rightarrow>
            (case b of Enum vb \<Rightarrow> length va = length vb \<and> subsumes_fields va vb | _ \<Rightarrow> False)
        | Ptr pa \<Rightarrow>
            (case b of Ptr pb \<Rightarrow> subsumes pa pb | _ \<Rightarrow> False)
        | Union aa _ _ \<Rightarrow>
            (case b of Union ab _ _ \<Rightarrow> length aa = length ab \<and> subsumes_list aa ab | _ \<Rightarrow> False)
        | Func pa ra \<Rightarrow>
            (case b of Func pb rb \<Rightarrow> length pa = length pb \<and> subsumes_list pa pb \<and> subsumes ra rb
              | _ \<Rightarrow> False)
        | _ \<Rightarrow> False))"
| "subsumes_fields ((off_a, rep_a) # fa) ((off_b, rep_b) # fb) =
     (off_a = off_b \<and> subsumes rep_a rep_b \<and> subsumes_fields fa fb)"
| "subsumes_fields _ _ = True"
| "subsumes_list (x # xs) (y # ys) = (subsumes x y \<and> subsumes_list xs ys)"
| "subsumes_list _ _ = True"
  by pat_completeness auto
termination
  by (relation "measure (\<lambda>x. case x of
       Inl (a, b) \<Rightarrow> size a
     | Inr (Inl (fa, fb)) \<Rightarrow> size_list (size_prod (\<lambda>_. 0) size) fa
     | Inr (Inr (xs, ys)) \<Rightarrow> size_list size xs)") auto

declare subsumes.simps [simp del]

section \<open>Field access\<close>

text \<open>The two ways \<^verbatim>\<open>field_offset\<close> and \<^verbatim>\<open>field_rep\<close> fail with \<^verbatim>\<open>BdError::InvalidOperation\<close>.\<close>

datatype FieldError =
    IndexOutOfBounds nat nat
  | ExpectedStruct RepD

definition field_offset :: "RepD \<Rightarrow> nat \<Rightarrow> FieldError + u64" where
  "field_offset r index =
     (case r of
        Struct fs _ _ \<Rightarrow>
          (if index < length fs then Inr (fst (fs ! index))
           else Inl (IndexOutOfBounds index (length fs)))
      | other \<Rightarrow> Inl (ExpectedStruct other))"

definition field_rep :: "RepD \<Rightarrow> nat \<Rightarrow> FieldError + RepD" where
  "field_rep r index =
     (case r of
        Struct fs _ _ \<Rightarrow>
          (if index < length fs then Inr (snd (fs ! index))
           else Inl (IndexOutOfBounds index (length fs)))
      | other \<Rightarrow> Inl (ExpectedStruct other))"

section \<open>Compatibility: symmetric, layout preserving, not reflexive\<close>

lemma generic_satisfies_iff:
  "generic_satisfies_constraints cs r = (\<forall>q. RepDCompatibleWith q \<in> set cs \<longrightarrow> compatible r q)"
proof (induction cs)
  case (Cons c cs)
  then show ?case by (cases c) auto
qed simp

lemma compatible_generic:
  "compatible (Generic n cs) b = generic_satisfies_constraints cs b"
  "\<not> is_Generic a \<Longrightarrow> compatible a (Generic n cs) = generic_satisfies_constraints cs a"
  by (subst compatible.simps; simp)+

text \<open>Against an arbitrary right operand a generic asks the same question either way round.\<close>

lemma compatible_to_generic:
  "compatible (Generic n cs) (Generic m ds) =
     (\<forall>q r. RepDCompatibleWith q \<in> set cs \<longrightarrow> RepDCompatibleWith r \<in> set ds \<longrightarrow> compatible q r)"
  by (auto simp: compatible_generic generic_satisfies_iff)

lemma compatible_list_sym:
  "(\<And>x y. x \<in> set xs \<Longrightarrow> y \<in> set ys \<Longrightarrow> compatible x y = compatible y x)
   \<Longrightarrow> compatible_list xs ys = compatible_list ys xs"
  by (induction xs ys rule: list_induct2') auto

lemma compatible_fields_sym:
  "(\<And>x y. x \<in> snd ` set fa \<Longrightarrow> y \<in> snd ` set fb \<Longrightarrow> compatible x y = compatible y x)
   \<Longrightarrow> compatible_fields fa fb = compatible_fields fb fa"
proof (induction fa fb rule: list_induct2')
  case (4 x xs y ys)
  have "compatible (snd x) (snd y) = compatible (snd y) (snd x)"
    by (rule 4) simp_all
  moreover have "compatible_fields xs ys = compatible_fields ys xs"
    by (rule 4(1), rule 4(2)) auto
  ultimately show ?case by (cases x; cases y) auto
qed auto

lemma size_list_mem: "x \<in> set xs \<Longrightarrow> size x \<le> size_list size xs"
  by (simp add: size_list_estimation')

lemma size_fields_mem:
  "x \<in> snd ` set fs \<Longrightarrow> size x \<le> size_list (size_prod (\<lambda>_. 0) size) fs"
  by (induction fs) force+

lemma size_constraint_mem:
  "RepDCompatibleWith q \<in> set cs \<Longrightarrow> size q < size_list size cs"
  by (induction cs) auto

text \<open>
  Compatibility is symmetric: whether two representations may alias does not depend on the order
  in which they are compared. No restriction is needed: a generic compared with a generic comes
  down to the pairwise compatibility of what their constraints require.
\<close>

theorem compatible_symmetric: "compatible a b = compatible b a"
proof (induction "size a + size b" arbitrary: a b rule: less_induct)
  case less
  note IH = less
  have lists: "compatible_list xs ys = compatible_list ys xs"
    if "size_list size xs + size_list size ys < size a + size b" for xs ys
    using that by (intro compatible_list_sym IH) (auto dest!: size_list_mem)
  have flds: "compatible_fields xs ys = compatible_fields ys xs"
    if "size_list (size_prod (\<lambda>_. 0) size) xs + size_list (size_prod (\<lambda>_. 0) size) ys < size a + size b"
    for xs ys
  proof (rule compatible_fields_sym)
    fix x y assume "x \<in> snd ` set xs" "y \<in> snd ` set ys"
    then show "compatible x y = compatible y x"
      using that by (intro IH) (auto dest!: size_fields_mem simp del: image_iff)
  qed
  consider "is_Generic a" "is_Generic b" | "is_Generic a \<noteq> is_Generic b"
    | "\<not> is_Generic a" "\<not> is_Generic b" by blast
  then show ?case
  proof cases
    case 1
    then show ?thesis using IH
      by (fastforce simp: is_Generic_def compatible_to_generic dest: size_constraint_mem)
  next
    case 2
    then show ?thesis
      by (cases "is_Generic a") (auto simp: is_Generic_def compatible_generic)
  next
    case 3
    then show ?thesis
      unfolding compatible.simps [of a b] compatible.simps [of b a]
      by (cases a; cases b) (auto simp: IH lists flds)
  qed
qed

text \<open>
  Which representations are compatible with themselves. The six opaque shapes (manifold, gestalt,
  concept, state, reference, dependent array) reach the last arm of the match and never are, nor is
  anything that contains one; a generic is when its requirements agree with one another.
\<close>

fun aliasable :: "RepD \<Rightarrow> bool" where
  "aliasable (Byte sz align) = True"
| "aliasable (Struct fs total_size align) = (\<forall>f \<in> set fs. aliasable (snd f))"
| "aliasable (Array element count) = aliasable element"
| "aliasable (Enum variants) = (\<forall>v \<in> set variants. aliasable (snd v))"
| "aliasable (Ptr pointee) = aliasable pointee"
| "aliasable (Union alternatives max_size max_align) = (\<forall>a \<in> set alternatives. aliasable a)"
| "aliasable (Func params result) = ((\<forall>p \<in> set params. aliasable p) \<and> aliasable result)"
| "aliasable (Generic name constraints) =
     (\<forall>q r. RepDCompatibleWith q \<in> set constraints \<longrightarrow> RepDCompatibleWith r \<in> set constraints
        \<longrightarrow> compatible q r)"
| "aliasable _ = False"

lemma compatible_list_self: "compatible_list xs xs = (\<forall>x \<in> set xs. compatible x x)"
  by (induction xs) auto

lemma compatible_fields_self: "compatible_fields fs fs = (\<forall>f \<in> set fs. compatible (snd f) (snd f))"
  by (induction fs) auto

text \<open>
  A representation is compatible with itself exactly when it is built from bytes, structs,
  arrays, enums, pointers, unions and functions, and its generics have mutually compatible
  requirements. In particular a \<^verbatim>\<open>State\<close>, \<^verbatim>\<open>Ref\<close>, \<^verbatim>\<open>DependentArray\<close>, \<^verbatim>\<open>ManifoldSpatial\<close>,
  \<^verbatim>\<open>GestaltSuperposition\<close> or \<^verbatim>\<open>ConceptRelational\<close> representation is not compatible with an
  identical copy of itself.
\<close>

theorem compatible_self_iff: "compatible r r = aliasable r"
proof (induction r rule: aliasable.induct)
  case (8 name constraints)
  show ?case by (simp add: compatible_to_generic)
qed (subst compatible.simps; simp add: compatible_list_self compatible_fields_self)+

lemma compatible_layout:
  assumes "\<not> is_Generic a" "\<not> is_Generic b" "compatible a b"
  shows "repd_size a = repd_size b \<and> alignment a = alignment b"
  using assms by (subst (asm) compatible.simps) (simp split: if_splits)

section \<open>Subsumption compares shapes, not layouts\<close>

lemma subsumes_struct:
  "subsumes (Struct fa ta aa) (Struct fb tb ab) = (length fa = length fb \<and> subsumes_fields fa fb)"
  by (subst subsumes.simps) simp

lemma subsumes_byte: "subsumes (Byte s al) b = (s = repd_size b \<and> al = alignment b)"
  by (subst subsumes.simps) auto

text \<open>
  Two structs with the same fields subsume each other whatever their total sizes and alignments
  are, so subsumption, unlike compatibility, does not bound the bytes the wider view may touch.
\<close>

theorem subsumes_ignores_struct_size:
  "subsumes (Struct [(0, Byte 4 4)] t al) (Struct [(0, Byte 4 4)] t' al')
   \<and> (t \<noteq> t' \<longrightarrow> \<not> compatible (Struct [(0, Byte 4 4)] t al) (Struct [(0, Byte 4 4)] t' al'))"
  by (auto simp: subsumes_struct subsumes_byte dest: compatible_layout [rotated 2])

theorem subsumes_ignores_struct_size_witness:
  "subsumes (Struct [(0, Byte 4 4)] 8 4) (Struct [(0, Byte 4 4)] 4096 4)
   \<and> \<not> compatible (Struct [(0, Byte 4 4)] 8 4) (Struct [(0, Byte 4 4)] 4096 4)"
  using subsumes_ignores_struct_size [of 8 4 4096 4] by simp

end
