(* ===== verification/Bd_Layout.thy ===== *)
theory Bd_Layout
  imports Bd_Repd
begin

text \<open>
  The layout registry of \<^verbatim>\<open>src/src/bd/src/repd.rs\<close>: \<^verbatim>\<open>LayoutRegistry::register\<close> places the fields of a
  state one after the other with alignment padding, and the canonical queries read offsets, sizes
  and representations back. The theory shows that the placement is aligned, ordered, free of
  overlap and inside the total size, and that ids handed out earlier keep their layout.
\<close>

section \<open>Data and operations\<close>

record LayoutField =
  lf_name :: string
  lf_field_id :: FieldId
  lf_offset :: u64
  lf_size :: u64
  lf_repd :: RepD

record LayoutDef =
  ld_name :: string
  ld_fields :: "LayoutField list"
  ld_total_size :: u64
  ld_alignment :: u64

record LayoutRegistry =
  lr_names :: "(string, LayoutId) hmap"
  lr_layouts :: "LayoutDef list"

definition registry_new :: LayoutRegistry where
  "registry_new = \<lparr>lr_names = [], lr_layouts = []\<rparr>"

definition is_multiple_of :: "u64 \<Rightarrow> u64 \<Rightarrow> bool" where
  "is_multiple_of a b = (if b = 0 then a = 0 else a mod b = 0)"

text \<open>The offset a field is placed at, given the running offset.\<close>

definition bump :: "u64 \<Rightarrow> u64 \<Rightarrow> u64" where
  "bump current_offset field_align =
     (if field_align > 1 \<and> \<not> is_multiple_of current_offset field_align
      then align_to current_offset field_align else current_offset)"

text \<open>
  The loop of \<^verbatim>\<open>register\<close>; the arguments are the index, the fields still to place, and the running
  offset and alignment, and the result is the resolved fields with the final offset and alignment.
\<close>

fun place_fields ::
  "nat \<Rightarrow> (string \<times> RepD) list \<Rightarrow> u64 \<Rightarrow> u64 \<Rightarrow> LayoutField list \<times> u64 \<times> u64" where
  "place_fields index [] current_offset max_align = ([], current_offset, max_align)"
| "place_fields index ((field_name, repd) # rest) current_offset max_align =
     (let field_align = max (alignment repd) 1;
          field_size = repd_size repd;
          current_offset = bump current_offset field_align;
          max_align = max max_align field_align;
          field = \<lparr>lf_name = field_name, lf_field_id = of_nat index, lf_offset = current_offset,
                   lf_size = field_size, lf_repd = repd\<rparr>;
          (resolved, final_offset, final_align) =
            place_fields (Suc index) rest (current_offset + field_size) max_align
      in (field # resolved, final_offset, final_align))"

definition resolve_layout :: "string \<Rightarrow> (string \<times> RepD) list \<Rightarrow> LayoutDef" where
  "resolve_layout name fs =
     (let (resolved, current_offset, max_align) = place_fields 0 fs 0 1;
          alignment = max max_align 1;
          total_size =
            (if current_offset = 0 then 0
             else if is_multiple_of current_offset alignment then current_offset
             else align_to current_offset alignment)
      in \<lparr>ld_name = name, ld_fields = resolved, ld_total_size = total_size, ld_alignment = alignment\<rparr>)"

definition register ::
  "LayoutRegistry \<Rightarrow> string \<Rightarrow> (string \<times> RepD) list \<Rightarrow> LayoutRegistry \<times> LayoutId" where
  "register reg name fs =
     (let id = of_nat (length (lr_layouts reg))
      in (\<lparr>lr_names = hm_insert name id (lr_names reg),
           lr_layouts = lr_layouts reg @ [resolve_layout name fs]\<rparr>, id))"

definition get :: "LayoutRegistry \<Rightarrow> LayoutId \<Rightarrow> LayoutDef option" where
  "get reg i = (if unat i < length (lr_layouts reg) then Some (lr_layouts reg ! unat i) else None)"

definition get_by_name :: "LayoutRegistry \<Rightarrow> string \<Rightarrow> LayoutDef option" where
  "get_by_name reg name =
     (case hm_get (lr_names reg) name of
        None \<Rightarrow> None
      | Some i \<Rightarrow> get reg i)"

definition state_size :: "LayoutRegistry \<Rightarrow> LayoutId \<Rightarrow> u64" where
  "state_size reg layout_id = (case get reg layout_id of None \<Rightarrow> 0 | Some l \<Rightarrow> ld_total_size l)"

definition find_field :: "LayoutRegistry \<Rightarrow> LayoutId \<Rightarrow> string \<Rightarrow> LayoutField option" where
  "find_field reg layout field =
     (case get reg layout of None \<Rightarrow> None | Some l \<Rightarrow> List.find (\<lambda>f. lf_name f = field) (ld_fields l))"

definition layout_field_offset :: "LayoutRegistry \<Rightarrow> LayoutId \<Rightarrow> string \<Rightarrow> u64 option" where
  "layout_field_offset reg layout field = map_option lf_offset (find_field reg layout field)"

definition layout_field_size :: "LayoutRegistry \<Rightarrow> LayoutId \<Rightarrow> string \<Rightarrow> u64 option" where
  "layout_field_size reg layout field = map_option lf_size (find_field reg layout field)"

definition layout_field_repd :: "LayoutRegistry \<Rightarrow> LayoutId \<Rightarrow> string \<Rightarrow> RepD option" where
  "layout_field_repd reg layout field = map_option lf_repd (find_field reg layout field)"

section \<open>Alignment arithmetic\<close>

lemma max_one_pos: "0 < unat (max a 1 :: u64)"
  by (metis max.cobounded2 unat_gt_0 word_le_0_iff zero_neq_one)

lemma ceil_div_bounds:
  fixes v a :: nat
  assumes "0 < a"
  defines "q \<equiv> if 0 < v mod a then v div a + 1 else v div a"
  shows "v \<le> q * a" and "q * a < v + a"
proof -
  define d m where "d = v div a" and "m = v mod a"
  have v: "v = d * a + m" and m: "m < a" using assms(1) by (simp_all add: d_def m_def)
  have q: "q = (if 0 < m then d + 1 else d)" by (simp add: q_def d_def m_def)
  show "v \<le> q * a" and "q * a < v + a" using m assms(1) unfolding q v by auto
qed

lemma align_to_spec:
  assumes "0 < unat a" and "unat v + unat a \<le> 2 ^ 64"
  shows "unat a dvd unat (align_to v a)" and "unat v \<le> unat (align_to v a)"
    and "unat (align_to v a) < unat v + unat a"
proof -
  let ?v = "unat v" and ?a = "unat a"
  let ?q = "if 0 < ?v mod ?a then ?v div ?a + 1 else ?v div ?a"
  have bound: "?q * ?a < ?v + ?a" and low: "?v \<le> ?q * ?a"
    using ceil_div_bounds [OF assms(1)] by blast+
  have q64: "?q < 2 ^ 64"
  proof -
    have "?q * 1 \<le> ?q * ?a" by (rule mult_le_mono) (use assms(1) in auto)
    also have "\<dots> < 2 ^ 64" by (rule less_le_trans [OF bound assms(2)])
    finally show ?thesis by (simp only: mult_1_right)
  qed
  have "unat (div_ceil v a) = ?q"
    using q64 by (auto simp: div_ceil_def Let_def unat_div unat_mod word_less_nat_alt unat_word_ariths split: if_splits)
  then have val: "unat (align_to v a) = ?q * ?a"
    using bound assms(2) by (simp add: align_to_def unat_word_ariths del: mult_Suc)
  show "?a dvd unat (align_to v a)" unfolding val by simp
  show "?v \<le> unat (align_to v a)" using low unfolding val .
  show "unat (align_to v a) < ?v + ?a" using bound unfolding val .
qed

lemma is_multiple_of_iff: "is_multiple_of x a = (unat a dvd unat x)"
  by (auto simp: is_multiple_of_def dvd_eq_mod_eq_0 word_unat_eq_iff unat_mod)

lemma bump_spec:
  assumes "0 < unat a" and "unat v + unat a \<le> 2 ^ 64"
  shows "unat a dvd unat (bump v a)" and "unat v \<le> unat (bump v a)"
    and "unat (bump v a) < unat v + unat a"
  using align_to_spec [OF assms] assms(1)
  by (auto simp: bump_def is_multiple_of_iff word_less_nat_alt not_less le_Suc_eq)

section \<open>Placement\<close>

text \<open>
  What a field costs at most: its size plus the padding in front of it. The sum bounds every offset
  of the layout, so a budget below \<open>2 ^ 63\<close> rules wrap-around out.
\<close>

definition field_cost :: "string \<times> RepD \<Rightarrow> nat" where
  "field_cost f = unat (repd_size (snd f)) + unat (max (alignment (snd f)) 1)"

definition layout_budget :: "(string \<times> RepD) list \<Rightarrow> nat" where
  "layout_budget fs = sum_list (map field_cost fs)"

definition precedes :: "LayoutField \<Rightarrow> LayoutField \<Rightarrow> bool" where
  "precedes f g = (unat (lf_offset f) + unat (lf_size f) \<le> unat (lf_offset g))"

definition field_align :: "LayoutField \<Rightarrow> u64" where
  "field_align f = max (alignment (lf_repd f)) 1"

lemma layout_budget_Cons: "layout_budget (f # fs) = field_cost f + layout_budget fs"
  by (simp add: layout_budget_def)

text \<open>The loop invariant of \<^verbatim>\<open>register\<close>, between the offsets and alignments before and after.\<close>

definition placed :: "u64 \<Rightarrow> u64 \<Rightarrow> LayoutField list \<Rightarrow> u64 \<Rightarrow> u64 \<Rightarrow> bool" where
  "placed off al rs off' al' =
     (unat off \<le> unat off' \<and> al \<le> al' \<and> sorted_wrt precedes rs \<and>
      (\<forall>f \<in> set rs. unat off \<le> unat (lf_offset f) \<and> unat (lf_offset f) + unat (lf_size f) \<le> unat off'
         \<and> field_align f \<le> al' \<and> unat (field_align f) dvd unat (lf_offset f)))"

lemma placed_Cons:
  assumes tail: "placed (lf_offset f + lf_size f) (max al (field_align f)) rs off' al'"
    and off: "unat off \<le> unat (lf_offset f)" and al: "unat (field_align f) dvd unat (lf_offset f)"
    and fits: "unat (lf_offset f) + unat (lf_size f) < 2 ^ 64"
  shows "placed off al (f # rs) off' al'"
proof -
  have "unat (lf_offset f + lf_size f) = unat (lf_offset f) + unat (lf_size f)"
    using fits by (simp add: unat_word_ariths)
  then show ?thesis using tail off al unfolding placed_def by (fastforce simp: precedes_def)
qed

lemma place_fields_placed:
  assumes "place_fields i fs off al = (rs, off', al')" and "unat off + layout_budget fs < 2 ^ 64"
  shows "placed off al rs off' al' \<and> unat off' \<le> unat off + layout_budget fs
         \<and> unat al' \<le> unat al + layout_budget fs"
  using assms
proof (induction fs arbitrary: i off al rs off' al')
  case Nil
  then show ?case by (simp add: placed_def layout_budget_def)
next
  case (Cons f fs)
  obtain n r where f: "f = (n, r)" by (cases f)
  define a where "a = max (alignment r) 1"
  define b where "b = bump off a"
  define fld where "fld = \<lparr>lf_name = n, lf_field_id = of_nat i, lf_offset = b, lf_size = repd_size r, lf_repd = r\<rparr>"
  obtain rs' where step: "place_fields (Suc i) fs (b + repd_size r) (max al a) = (rs', off', al')"
    and rs: "rs = fld # rs'"
    using Cons.prems(1) by (auto simp: f a_def b_def fld_def Let_def split: prod.splits)
  have cost: "field_cost f = unat (repd_size r) + unat a" by (simp add: field_cost_def f a_def)
  have room: "unat off + unat (repd_size r) + unat a + layout_budget fs < 2 ^ 64"
    using Cons.prems(2) by (simp add: layout_budget_Cons cost)
  have b: "unat a dvd unat b" "unat off \<le> unat b" "unat b < unat off + unat a"
    using bump_spec [of a off] max_one_pos room by (simp_all add: a_def b_def)
  have bs: "unat (b + repd_size r) = unat b + unat (repd_size r)"
    using b(3) room by (simp add: unat_word_ariths)
  have ma: "unat (max al a) \<le> unat al + unat a" by (simp add: max_def)
  have IH: "placed (b + repd_size r) (max al a) rs' off' al'
      \<and> unat off' \<le> unat (b + repd_size r) + layout_budget fs \<and> unat al' \<le> unat (max al a) + layout_budget fs"
    using Cons.IH [OF step] b(3) room by (simp add: bs)
  have "placed off al (fld # rs') off' al'"
    by (rule placed_Cons) (use IH b room in \<open>simp_all add: fld_def field_align_def a_def\<close>)
  then show ?case using IH b ma bs by (simp add: rs layout_budget_Cons cost)
qed

lemma place_fields_contents:
  "map (\<lambda>f. (lf_name f, lf_repd f)) (fst (place_fields i fs off al)) = fs
   \<and> map lf_field_id (fst (place_fields i fs off al)) = map of_nat [i..<i + length fs]
   \<and> (\<forall>f \<in> set (fst (place_fields i fs off al)). lf_size f = repd_size (lf_repd f))"
proof (induction i fs off al rule: place_fields.induct)
  case (2 i n r rest off al)
  show ?case using 2 [OF refl refl refl refl refl]
    by (auto simp: Let_def upt_conv_Cons simp del: upt_Suc split: prod.splits)
qed simp

definition layout_padding_ok :: "LayoutDef \<Rightarrow> bool" where
  "layout_padding_ok l = (\<forall>f \<in> set (ld_fields l). unat (field_align f) dvd unat (lf_offset f)
      \<and> unat (lf_offset f) + unat (lf_size f) \<le> unat (ld_total_size l))"

lemma resolve_layout_placed:
  assumes "layout_budget fs < 2 ^ 63"
  shows "sorted_wrt precedes (ld_fields (resolve_layout name fs))"
    and "layout_padding_ok (resolve_layout name fs)"
    and "unat (ld_alignment (resolve_layout name fs)) dvd unat (ld_total_size (resolve_layout name fs))"
    and "\<forall>f \<in> set (ld_fields (resolve_layout name fs)). field_align f \<le> ld_alignment (resolve_layout name fs)"
proof -
  obtain rs off al where pf: "place_fields 0 fs 0 1 = (rs, off, al)" by (metis prod_cases3)
  have inv: "placed 0 1 rs off al" "unat off \<le> layout_budget fs" "unat al \<le> 1 + layout_budget fs"
    using place_fields_placed [OF pf] assms by auto
  have pos: "0 < unat al" using inv(1) by (auto simp: placed_def word_le_nat_alt)
  define tot where "tot = (if off = 0 then 0 else if is_multiple_of off al then off else align_to off al)"
  have al1: "max al 1 = al" using pos by (intro max.absorb1) (simp add: word_le_nat_alt)
  have R: "resolve_layout name fs = \<lparr>ld_name = name, ld_fields = rs, ld_total_size = tot, ld_alignment = al\<rparr>"
    by (simp add: resolve_layout_def pf al1 tot_def Let_def)
  have fits: "unat off + unat al \<le> 2 ^ 64" using inv(2,3) assms by simp
  have tot: "unat off \<le> unat tot" "unat al dvd unat tot"
    using align_to_spec [OF pos fits] by (auto simp: tot_def is_multiple_of_iff)
  show "sorted_wrt precedes (ld_fields (resolve_layout name fs))"
    using inv(1) by (simp add: R placed_def)
  show "layout_padding_ok (resolve_layout name fs)"
    using inv(1) tot(1) by (auto simp: R placed_def layout_padding_ok_def)
  show "unat (ld_alignment (resolve_layout name fs)) dvd unat (ld_total_size (resolve_layout name fs))"
    using tot(2) by (simp add: R)
  show "\<forall>f \<in> set (ld_fields (resolve_layout name fs)). field_align f \<le> ld_alignment (resolve_layout name fs)"
    using inv(1) by (simp add: R placed_def)
qed

section \<open>The registry\<close>

lemma get_register_new:
  assumes "length (lr_layouts reg) < 2 ^ 32"
  shows "get (fst (register reg name fs)) (snd (register reg name fs)) = Some (resolve_layout name fs)"
proof -
  have "unat (of_nat (length (lr_layouts reg)) :: u32) = length (lr_layouts reg)"
    using assms by (simp add: unat_of_nat)
  then show ?thesis by (simp add: register_def get_def Let_def)
qed

lemma get_register_old: "get reg i = Some l \<Longrightarrow> get (fst (register reg name fs)) i = Some l"
  by (auto simp: register_def get_def Let_def nth_append split: if_splits)

text \<open>Every name of the registry points at a layout of that name.\<close>

definition registry_ok :: "LayoutRegistry \<Rightarrow> bool" where
  "registry_ok reg = (hm_ok (lr_names reg) \<and>
     (\<forall>n i. hm_get (lr_names reg) n = Some i \<longrightarrow> (\<exists>l. get reg i = Some l \<and> ld_name l = n)))"

lemma resolve_layout_name [simp]: "ld_name (resolve_layout name fs) = name"
  by (simp add: resolve_layout_def Let_def split: prod.splits)

text \<open>
  C24: Fields placed by \<^verbatim>\<open>register\<close> follow each other in declaration order without overlap, each starts
  at a multiple of its alignment and ends inside the total size, and the total size is a multiple
  of the layout's alignment, as long as the sizes and alignments of the fields sum to less than
  \<open>2 ^ 63\<close> bytes (so that no \<^verbatim>\<open>u64\<close> sum wraps).
\<close>

theorem register_fields_placed:
  assumes "length (lr_layouts reg) < 2 ^ 32" and "layout_budget fs < 2 ^ 63"
  shows "\<exists>l. get (fst (register reg name fs)) (snd (register reg name fs)) = Some l
    \<and> map (\<lambda>f. (lf_name f, lf_repd f)) (ld_fields l) = fs
    \<and> (\<forall>i j. i < j \<and> j < length (ld_fields l) \<longrightarrow>
         unat (lf_offset (ld_fields l ! i)) + unat (lf_size (ld_fields l ! i)) \<le> unat (lf_offset (ld_fields l ! j)))
    \<and> (\<forall>f \<in> set (ld_fields l). lf_size f = repd_size (lf_repd f)
         \<and> unat (max (alignment (lf_repd f)) 1) dvd unat (lf_offset f)
         \<and> unat (lf_offset f) + unat (lf_size f) \<le> unat (ld_total_size l))
    \<and> unat (ld_alignment l) dvd unat (ld_total_size l)"
proof -
  note R = resolve_layout_placed [OF assms(2), of name]
  have fields: "ld_fields (resolve_layout name fs) = fst (place_fields 0 fs 0 1)"
    by (simp add: resolve_layout_def Let_def split: prod.splits)
  show ?thesis
    using R place_fields_contents [of 0 fs 0 1]
    unfolding get_register_new [OF assms(1)]
    by (auto simp: fields layout_padding_ok_def field_align_def sorted_wrt_iff_nth_less precedes_def)
qed

theorem register_fields_placed_witness:
  "\<exists>l. get (fst (register registry_new ''P'' [(''tag'', Byte 1 1), (''x'', Byte 8 8), (''y'', Byte 2 2)]))
          (snd (register registry_new ''P'' [(''tag'', Byte 1 1), (''x'', Byte 8 8), (''y'', Byte 2 2)])) = Some l
    \<and> map (\<lambda>f. (lf_name f, lf_repd f)) (ld_fields l) = [(''tag'', Byte 1 1), (''x'', Byte 8 8), (''y'', Byte 2 2)]
    \<and> unat (ld_alignment l) dvd unat (ld_total_size l)"
  using register_fields_placed [of registry_new "[(''tag'', Byte 1 1), (''x'', Byte 8 8), (''y'', Byte 2 2)]" "''P''"]
  by (auto simp: registry_new_def layout_budget_def field_cost_def max_def word_le_nat_alt)

lemma registry_ok_register:
  assumes "registry_ok reg" and "length (lr_layouts reg) < 2 ^ 32"
  shows "registry_ok (fst (register reg name fs))"
proof -
  have names: "lr_names (fst (register reg name fs)) = hm_insert name (snd (register reg name fs)) (lr_names reg)"
    by (simp add: register_def Let_def)
  show ?thesis
    using assms get_register_new [OF assms(2), of name fs] get_register_old [of reg _ _ name fs]
    by (auto simp: registry_ok_def names hm_get_insert hm_ok_insert split: if_splits, blast)
qed

text \<open>
  Registering a layout leaves every layout already handed out at its id, whether or not the
  name is reused, makes the new layout the one found under its name, leaves every other name
  pointing where it did, and keeps the registry's invariant that a name leads to a layout of that
  name. The bound is the capacity of the 32-bit layout id.
\<close>

theorem register_stable:
  assumes "registry_ok reg" and "length (lr_layouts reg) < 2 ^ 32"
  shows "registry_ok (fst (register reg name fs))
    \<and> (\<forall>i l. get reg i = Some l \<longrightarrow> get (fst (register reg name fs)) i = Some l)
    \<and> (\<forall>n. get_by_name (fst (register reg name fs)) n
            = (if n = name then Some (resolve_layout name fs) else get_by_name reg n))"
proof -
  let ?reg' = "fst (register reg name fs)"
  have names: "lr_names ?reg' = hm_insert name (snd (register reg name fs)) (lr_names reg)"
    by (simp add: register_def Let_def)
  have old: "get ?reg' k = get reg k" if "hm_get (lr_names reg) n = Some k" for n k
    using assms(1) that get_register_old by (fastforce simp: registry_ok_def)
  have "get_by_name ?reg' n = (if n = name then Some (resolve_layout name fs) else get_by_name reg n)" for n
    using get_register_new [OF assms(2), of name fs] old
    by (auto simp: get_by_name_def names hm_get_insert split: option.splits)
  then show ?thesis
    using registry_ok_register [OF assms] get_register_old by blast
qed

theorem register_stable_witness:
  "get (fst (register (fst (register registry_new ''A'' [(''x'', Byte 4 4)])) ''A'' [])) 0
     = Some (resolve_layout ''A'' [(''x'', Byte 4 4)])"
  using register_stable [of "fst (register registry_new ''A'' [(''x'', Byte 4 4)])" "''A''" "[]"]
  by (simp add: registry_new_def registry_ok_def register_def get_def Let_def)

text \<open>Power-of-two alignments divide one another in the order of their size.\<close>

definition pow2_aligned :: "RepD \<Rightarrow> bool" where
  "pow2_aligned r = (\<exists>k < 64. unat (alignment r) = 2 ^ k)"

lemma pow2_one: "\<exists>k. unat (1 :: u64) = 2 ^ k"
  by (rule exI [of _ 0]) simp

lemma pow2_max: "\<exists>k. unat a = 2 ^ k \<Longrightarrow> \<exists>k. unat b = 2 ^ k \<Longrightarrow> \<exists>k. unat (max a b :: u64) = 2 ^ k"
  by (simp add: max_def)

lemma place_fields_pow2:
  assumes "\<forall>f \<in> set fs. pow2_aligned (snd f)" and "\<exists>k. unat al = 2 ^ k"
  shows "\<exists>k. unat (snd (snd (place_fields i fs off al))) = 2 ^ k"
  using assms
proof (induction i fs off al rule: place_fields.induct)
  case (2 i n r rest off al)
  have "\<exists>k. unat (max al (max (alignment r) 1)) = 2 ^ k"
    using 2(2,3) by (intro pow2_max pow2_one) (auto simp: pow2_aligned_def)
  then show ?case using 2(1) [OF refl refl refl refl refl] 2(2) by (auto simp: Let_def split: prod.splits)
qed auto

text \<open>
  An array of a registered layout keeps every field aligned: when all field alignments are
  powers of two, a base address that is a multiple of the layout's alignment puts each field of each
  element at a multiple of that field's alignment.
\<close>

theorem register_array_stride:
  assumes "layout_budget fs < 2 ^ 63" and "\<forall>f \<in> set fs. pow2_aligned (snd f)"
    and "f \<in> set (ld_fields (resolve_layout name fs))"
    and "unat (ld_alignment (resolve_layout name fs)) dvd base"
  shows "unat (alignment (lf_repd f)) dvd base + k * unat (ld_total_size (resolve_layout name fs)) + unat (lf_offset f)"
proof -
  note R = resolve_layout_placed [OF assms(1), of name]
  have fields: "ld_fields (resolve_layout name fs) = fst (place_fields 0 fs 0 1)"
    and al: "ld_alignment (resolve_layout name fs) = max (snd (snd (place_fields 0 fs 0 1))) 1"
    by (simp_all add: resolve_layout_def Let_def split: prod.splits)
  obtain m where m: "unat (ld_alignment (resolve_layout name fs)) = 2 ^ m"
    using pow2_max [OF place_fields_pow2 [OF assms(2) pow2_one] pow2_one] unfolding al by blast
  have mem: "(lf_name f, lf_repd f) \<in> set fs"
    using assms(3) place_fields_contents [of 0 fs 0 1] unfolding fields
    by (metis (no_types, lifting) image_eqI list.set_map)
  then obtain j where j: "unat (alignment (lf_repd f)) = 2 ^ j"
    using assms(2) by (auto simp: pow2_aligned_def)
  have fa: "field_align f = alignment (lf_repd f)"
    using j by (auto simp: field_align_def max_def word_le_nat_alt word_unat_eq_iff le_Suc_eq)
  have "unat (alignment (lf_repd f)) dvd unat (ld_alignment (resolve_layout name fs))"
    using R(4) assms(3) by (auto simp: m j fa word_le_nat_alt intro!: le_imp_power_dvd dest!: bspec)
  moreover have "unat (alignment (lf_repd f)) dvd unat (lf_offset f)"
    using R(2) assms(3) by (auto simp: layout_padding_ok_def fa)
  ultimately show ?thesis using assms(4) R(3) by (meson dvd_add dvd_mult dvd_trans)
qed

theorem register_array_stride_witness:
  "unat (alignment (Byte 8 8)) dvd 4096 + 3 * unat (ld_total_size (resolve_layout ''P'' [(''t'', Byte 1 1), (''x'', Byte 8 8)])) + 8"
proof -
  let ?fs = "[(''t'', Byte 1 1), (''x'', Byte 8 8)]"
  have "resolve_layout ''P'' ?fs = \<lparr>ld_name = ''P'',
      ld_fields = [\<lparr>lf_name = ''t'', lf_field_id = 0, lf_offset = 0, lf_size = 1, lf_repd = Byte 1 1\<rparr>,
                   \<lparr>lf_name = ''x'', lf_field_id = 1, lf_offset = 8, lf_size = 8, lf_repd = Byte 8 8\<rparr>],
      ld_total_size = 16, ld_alignment = 8\<rparr>"
    by (simp add: resolve_layout_def bump_def is_multiple_of_iff align_to_def div_ceil_def Let_def max_def
        word_le_nat_alt word_less_nat_alt word_unat_eq_iff unat_div unat_mod)
  moreover have "\<forall>f \<in> set ?fs. pow2_aligned (snd f)"
    by (auto simp: pow2_aligned_def intro: exI [of _ 0] exI [of _ 3])
  moreover have "layout_budget ?fs < 2 ^ 63"
    by (simp add: layout_budget_def field_cost_def max_def word_le_nat_alt)
  ultimately show ?thesis
    using register_array_stride [of ?fs "\<lparr>lf_name = ''x'', lf_field_id = 1, lf_offset = 8, lf_size = 8, lf_repd = Byte 8 8\<rparr>" "''P''" 4096 3]
    by simp
qed

end
