(* ===== verification/Bd_Descriptor.thy ===== *)
theory Bd_Descriptor
  imports Bd_Repd
begin

text \<open>
  Behavioral descriptors: \<^verbatim>\<open>src/src/bd/src/descriptor.rs\<close>. A \<open>BD\<close> is the triple of a representation, a
  capability and a relational descriptor. The theory shows what \<^verbatim>\<open>compose\<close> yields in each layer and
  what passing the trait check guarantees to a client of the trait.
\<close>

record BD =
  bd_repd :: RepD
  bd_capd :: CapD
  bd_reld :: RelD

definition bd_new :: "RepD \<Rightarrow> CapD \<Rightarrow> RelD \<Rightarrow> BD" where
  "bd_new repd capd reld = \<lparr>bd_repd = repd, bd_capd = capd, bd_reld = reld\<rparr>"

definition bd_compatible :: "BD \<Rightarrow> BD \<Rightarrow> bool" where
  "bd_compatible a b =
     (compatible (bd_repd a) (bd_repd b)
      \<and> caps (meet (bd_capd a) (bd_capd b)) \<noteq> {}
      \<and> is_consistent (compose (bd_reld a) (bd_reld b)))"

definition bd_refines :: "BD \<Rightarrow> BD \<Rightarrow> bool" where
  "bd_refines a b =
     (subsumes (bd_repd a) (bd_repd b)
      \<and> is_subset (bd_capd a) (bd_capd b)
      \<and> refines (bd_reld a) (bd_reld b))"

definition bd_compose :: "BD \<Rightarrow> BD \<Rightarrow> BD option" where
  "bd_compose a b =
     (if \<not> compatible (bd_repd a) (bd_repd b) then None
      else Some \<lparr>bd_repd = bd_repd a, bd_capd = meet (bd_capd a) (bd_capd b),
                 bd_reld = compose (bd_reld a) (bd_reld b)\<rparr>)"

text \<open>The three error messages of the trait check, with the layers they print.\<close>

datatype TraitError =
    RepDIncompatibility RepD RepD
  | CapDViolation CapD CapD
  | RelDViolation RelD RelD

definition check_trait_compatibility :: "BD \<Rightarrow> BD \<Rightarrow> TraitError + unit" where
  "check_trait_compatibility trait_bd impl_bd =
     (if \<not> compatible (bd_repd impl_bd) (bd_repd trait_bd)
      then Inl (RepDIncompatibility (bd_repd impl_bd) (bd_repd trait_bd))
      else if \<not> is_subset (bd_capd impl_bd) (bd_capd trait_bd)
      then Inl (CapDViolation (bd_capd impl_bd) (bd_capd trait_bd))
      else if \<not> refines (bd_reld impl_bd) (bd_reld trait_bd)
      then Inl (RelDViolation (bd_reld impl_bd) (bd_reld trait_bd))
      else Inr ())"

lemma check_trait_ok:
  "check_trait_compatibility t i = Inr u \<longleftrightarrow>
     compatible (bd_repd i) (bd_repd t) \<and> is_subset (bd_capd i) (bd_capd t) \<and> refines (bd_reld i) (bd_reld t)"
  by (simp add: check_trait_compatibility_def)

text \<open>
  The composition of two descriptors exists exactly when their representations are compatible,
  keeps the left representation, and is in the capability and the relational layer the greatest
  lower bound of the two: it refines both operands, and any pair of layers that refines both
  operands refines the composition.
\<close>

theorem bd_compose_glb:
  "(case bd_compose a b of
      None \<Rightarrow> \<not> compatible (bd_repd a) (bd_repd b)
    | Some c \<Rightarrow> compatible (bd_repd a) (bd_repd b) \<and> bd_repd c = bd_repd a
        \<and> is_subset (bd_capd c) (bd_capd a) \<and> is_subset (bd_capd c) (bd_capd b)
        \<and> refines (bd_reld c) (bd_reld a) \<and> refines (bd_reld c) (bd_reld b)
        \<and> (\<forall>k r. is_subset k (bd_capd a) \<and> is_subset k (bd_capd b)
                 \<and> refines r (bd_reld a) \<and> refines r (bd_reld b)
              \<longrightarrow> is_subset k (bd_capd c) \<and> refines r (bd_reld c)))"
  by (simp add: bd_compose_def capd.glb_lower1 capd.glb_lower2 capd.glb_greatest
      reld.glb_lower1 reld.glb_lower2 reld.glb_greatest)

theorem bd_compose_glb_witness:
  "is_subset \<lparr>caps = {Read}, conditions = {InPhase 1}\<rparr>
     (bd_capd (the (bd_compose (bd_new (Byte 4 4) \<lparr>caps = {Read, Write}, conditions = {}\<rparr> reld_empty)
                               (bd_new (Byte 4 4) \<lparr>caps = {Read}, conditions = {InPhase 1}\<rparr> reld_empty))))"
  (is "is_subset ?k (bd_capd (the (bd_compose ?a ?b)))")
proof -
  obtain c where c: "bd_compose ?a ?b = Some c"
    by (simp add: bd_compose_def bd_new_def compatible.simps)
  have "is_subset ?k (bd_capd ?a) \<and> is_subset ?k (bd_capd ?b)
      \<and> refines reld_empty (bd_reld ?a) \<and> refines reld_empty (bd_reld ?b)"
    by (simp add: bd_new_def is_subset_def reld.le_refl)
  then have "is_subset ?k (bd_capd c)"
    using bd_compose_glb [of ?a ?b] unfolding c option.case by blast
  then show ?thesis by (simp add: c)
qed

text \<open>
  An implementation that passes the trait check grants in no context a capability the trait does
  not grant there, carries every relation of the trait, so that its consistency implies the trait's,
  and, where neither representation is generic, occupies the same size at the same alignment.
\<close>

theorem trait_check_sound:
  assumes "check_trait_compatibility t i = Inr ()"
  shows "resolve (bd_capd i) ctx \<subseteq> resolve (bd_capd t) ctx
    \<and> relations (bd_reld t) \<subseteq> relations (bd_reld i)
    \<and> (is_consistent (bd_reld i) \<longrightarrow> is_consistent (bd_reld t))
    \<and> (\<not> is_Generic (bd_repd i) \<and> \<not> is_Generic (bd_repd t) \<longrightarrow>
         repd_size (bd_repd i) = repd_size (bd_repd t) \<and> alignment (bd_repd i) = alignment (bd_repd t))"
proof -
  have ok: "compatible (bd_repd i) (bd_repd t)" "is_subset (bd_capd i) (bd_capd t)" "refines (bd_reld i) (bd_reld t)"
    using assms by (auto simp: check_trait_ok)
  have "resolve (bd_capd i) ctx \<subseteq> resolve (bd_capd t) ctx"
    using ok(2) by (auto simp: is_subset_def resolve_def split: if_splits)
  then show ?thesis
    using ok compatible_layout is_consistent_antimono by (auto simp: refines_def)
qed

theorem trait_check_sound_witness:
  "check_trait_compatibility (bd_new (Byte 4 4) \<lparr>caps = {Read, Write}, conditions = {}\<rparr> reld_empty)
      (bd_new (Struct [(0, Byte 4 4)] 4 4) \<lparr>caps = {Read}, conditions = {}\<rparr> reld_empty) = Inr ()
   \<and> repd_size (Struct [(0, Byte 4 4)] 4 4) = repd_size (Byte 4 4)"
proof -
  have "compatible (Struct [(0, Byte 4 4)] 4 4) (Byte 4 4)" by (subst compatible.simps) simp
  then have ok: "check_trait_compatibility (bd_new (Byte 4 4) \<lparr>caps = {Read, Write}, conditions = {}\<rparr> reld_empty)
      (bd_new (Struct [(0, Byte 4 4)] 4 4) \<lparr>caps = {Read}, conditions = {}\<rparr> reld_empty) = Inr ()"
    by (simp add: check_trait_ok bd_new_def is_subset_def refines_def)
  then show ?thesis using trait_check_sound [OF ok] by (simp add: bd_new_def)
qed

text \<open>
  The documentation of the trait check says that the implementation must refine the trait. The check
  asks for compatible representations instead of subsumption, so an implementation can pass it
  without refining the trait.
\<close>

lemma trait_check_accepts_non_refinement:
  "check_trait_compatibility (bd_new (Byte 4 4) capd_empty reld_empty)
      (bd_new (Struct [(0, Byte 4 4)] 4 4) capd_empty reld_empty) = Inr ()
   \<and> \<not> bd_refines (bd_new (Struct [(0, Byte 4 4)] 4 4) capd_empty reld_empty)
        (bd_new (Byte 4 4) capd_empty reld_empty)"
  by (simp add: check_trait_ok bd_refines_def bd_new_def capd.le_refl reld.le_refl compatible.simps subsumes.simps)

end
