(* ===== verification/Bd_Unify.thy ===== *)
theory Bd_Unify
  imports Bd_Descriptor "HOL-Library.Countable" "HOL-Library.Monad_Syntax"
begin

text \<open>
  Unification of concrete descriptors: the first half of \<^verbatim>\<open>src/src/bd/src/unify.rs\<close>. The code guards
  the recursion on representations with a set of pairs of addresses that are being unified. An
  address is modelled as a function of the path that leads to a node: both operands are walked along
  the same path, so a node of the left operand at path \<open>p\<close> lives at \<open>adr1 p\<close> and its partner at
  \<open>adr2 p\<close>. The theory shows that the guard never changes a result, for any placement of the two
  operands in memory, and what a successful unification returns.
\<close>

section \<open>Data\<close>

record BDVariable =
  var_id :: u64
  var_name :: string

datatype BDTerm = Concrete BD | Var BDVariable

text \<open>The reasons the \<^verbatim>\<open>IncompatibleRepD\<close> error prints, one per branch that raises it.\<close>

datatype RepdReason =
    ByteMismatch
  | StructFieldCount nat nat
  | StructOffset u64 u64
  | ArrayCount u64 u64
  | EnumVariantCount nat nat
  | EnumTag u64 u64
  | UnionAlternativeCount nat nat
  | FuncParamCount nat nat
  | DifferentConstructors

text \<open>The errors; where the code stores printed strings the model stores what was printed.\<close>

datatype UnificationError =
    IncompatibleRepD RepD RepD RepdReason
  | IncompatibleCapD CapD CapD
  | InconsistentRelD RelD RelD
  | OccursCheckFailed BDVariable BDTerm
  | ConflictingBinding BDVariable BDTerm BDTerm
  | SubtypeViolation BD BD
  | Failed BDTerm BDTerm

type_synonym path = "nat list"
type_synonym visited = "(nat \<times> nat) set"

section \<open>Representations\<close>

definition visit_key :: "(path \<Rightarrow> nat) \<Rightarrow> (path \<Rightarrow> nat) \<Rightarrow> path \<Rightarrow> nat \<times> nat" where
  "visit_key adr1 adr2 p =
     (let ptr1 = adr1 p; ptr2 = adr2 p in if ptr1 < ptr2 then (ptr1, ptr2) else (ptr2, ptr1))"

text \<open>The last two arms of the match: a generic yields to the other side, all else fails.\<close>

definition unify_other :: "RepD \<Rightarrow> RepD \<Rightarrow> UnificationError + RepD" where
  "unify_other r1 r2 =
     (if is_Generic r1 then Inr r2
      else if is_Generic r2 then Inr r1
      else Inl (IncompatibleRepD r1 r2 DifferentConstructors))"

text \<open>
  \<open>unify_repd_with_occurs\<close> and \<open>unify_repd_inner\<close> with the loops over fields and lists. A result is an
  error, or the unified value with the visited set afterwards.
\<close>

function (sequential) unify_repd_with_occurs ::
    "(path \<Rightarrow> nat) \<Rightarrow> (path \<Rightarrow> nat) \<Rightarrow> path \<Rightarrow> RepD \<Rightarrow> RepD \<Rightarrow> visited \<Rightarrow> UnificationError + (RepD \<times> visited)"
  and unify_repd_inner ::
    "(path \<Rightarrow> nat) \<Rightarrow> (path \<Rightarrow> nat) \<Rightarrow> path \<Rightarrow> RepD \<Rightarrow> RepD \<Rightarrow> visited \<Rightarrow> UnificationError + (RepD \<times> visited)"
  and unify_repd_fields ::
    "(path \<Rightarrow> nat) \<Rightarrow> (path \<Rightarrow> nat) \<Rightarrow> path \<Rightarrow> nat \<Rightarrow> (u64 \<Rightarrow> u64 \<Rightarrow> UnificationError)
      \<Rightarrow> (u64 \<times> RepD) list \<Rightarrow> (u64 \<times> RepD) list \<Rightarrow> visited
      \<Rightarrow> UnificationError + ((u64 \<times> RepD) list \<times> visited)"
  and unify_repd_list ::
    "(path \<Rightarrow> nat) \<Rightarrow> (path \<Rightarrow> nat) \<Rightarrow> path \<Rightarrow> nat \<Rightarrow> RepD list \<Rightarrow> RepD list \<Rightarrow> visited
      \<Rightarrow> UnificationError + (RepD list \<times> visited)"
where
  "unify_repd_with_occurs adr1 adr2 p r1 r2 vis =
     (let key = visit_key adr1 adr2 p in
      if key \<in> vis then Inr (r1, vis)
      else case unify_repd_inner adr1 adr2 p r1 r2 (insert key vis) of
          Inl e \<Rightarrow> Inl e
        | Inr (result, vis') \<Rightarrow> Inr (result, vis' - {key}))"
| "unify_repd_inner adr1 adr2 p r1 r2 vis =
     (case r1 of
        Byte sa aa \<Rightarrow>
          (case r2 of
             Byte sb ab \<Rightarrow>
               (if sa \<noteq> sb \<or> aa \<noteq> ab then Inl (IncompatibleRepD r1 r2 ByteMismatch)
                else Inr (Byte sa aa, vis))
           | _ \<Rightarrow> map_ok (\<lambda>r. (r, vis)) (unify_other r1 r2))
      | Struct fa ta aa \<Rightarrow>
          (case r2 of
             Struct fb tb ab \<Rightarrow>
               (if length fa \<noteq> length fb
                then Inl (IncompatibleRepD r1 r2 (StructFieldCount (length fa) (length fb)))
                else case unify_repd_fields adr1 adr2 p 0 (\<lambda>x y. IncompatibleRepD r1 r2 (StructOffset x y)) fa fb vis of
                    Inl e \<Rightarrow> Inl e
                  | Inr (fs, vis') \<Rightarrow> Inr (Struct fs ta aa, vis'))
           | _ \<Rightarrow> map_ok (\<lambda>r. (r, vis)) (unify_other r1 r2))
      | Array ea ca \<Rightarrow>
          (case r2 of
             Array eb cb \<Rightarrow>
               (if ca \<noteq> cb then Inl (IncompatibleRepD r1 r2 (ArrayCount ca cb))
                else case unify_repd_with_occurs adr1 adr2 (0 # p) ea eb vis of
                    Inl e \<Rightarrow> Inl e
                  | Inr (element, vis') \<Rightarrow> Inr (Array element ca, vis'))
           | _ \<Rightarrow> map_ok (\<lambda>r. (r, vis)) (unify_other r1 r2))
      | Enum va \<Rightarrow>
          (case r2 of
             Enum vb \<Rightarrow>
               (if length va \<noteq> length vb
                then Inl (IncompatibleRepD r1 r2 (EnumVariantCount (length va) (length vb)))
                else case unify_repd_fields adr1 adr2 p 0 (\<lambda>x y. IncompatibleRepD r1 r2 (EnumTag x y)) va vb vis of
                    Inl e \<Rightarrow> Inl e
                  | Inr (variants, vis') \<Rightarrow> Inr (Enum variants, vis'))
           | _ \<Rightarrow> map_ok (\<lambda>r. (r, vis)) (unify_other r1 r2))
      | Ptr pa \<Rightarrow>
          (case r2 of
             Ptr pb \<Rightarrow>
               (case unify_repd_with_occurs adr1 adr2 (0 # p) pa pb vis of
                    Inl e \<Rightarrow> Inl e
                  | Inr (pointee, vis') \<Rightarrow> Inr (Ptr pointee, vis'))
           | _ \<Rightarrow> map_ok (\<lambda>r. (r, vis)) (unify_other r1 r2))
      | Union xa sa aa \<Rightarrow>
          (case r2 of
             Union xb sb ab \<Rightarrow>
               (if length xa \<noteq> length xb
                then Inl (IncompatibleRepD r1 r2 (UnionAlternativeCount (length xa) (length xb)))
                else case unify_repd_list adr1 adr2 p 0 xa xb vis of
                    Inl e \<Rightarrow> Inl e
                  | Inr (alternatives, vis') \<Rightarrow> Inr (Union alternatives sa aa, vis'))
           | _ \<Rightarrow> map_ok (\<lambda>r. (r, vis)) (unify_other r1 r2))
      | Func pa ra \<Rightarrow>
          (case r2 of
             Func pb rb \<Rightarrow>
               (if length pa \<noteq> length pb
                then Inl (IncompatibleRepD r1 r2 (FuncParamCount (length pa) (length pb)))
                else case unify_repd_list adr1 adr2 p 0 pa pb vis of
                    Inl e \<Rightarrow> Inl e
                  | Inr (params, vis') \<Rightarrow>
                      (case unify_repd_with_occurs adr1 adr2 (length pa # p) ra rb vis' of
                         Inl e \<Rightarrow> Inl e
                       | Inr (result, vis'') \<Rightarrow> Inr (Func params result, vis'')))
           | _ \<Rightarrow> map_ok (\<lambda>r. (r, vis)) (unify_other r1 r2))
      | _ \<Rightarrow> map_ok (\<lambda>r. (r, vis)) (unify_other r1 r2))"
| "unify_repd_fields adr1 adr2 p i mismatch ((off_a, rep_a) # fa) ((off_b, rep_b) # fb) vis =
     (if off_a \<noteq> off_b then Inl (mismatch off_a off_b)
      else case unify_repd_with_occurs adr1 adr2 (i # p) rep_a rep_b vis of
          Inl e \<Rightarrow> Inl e
        | Inr (r, vis') \<Rightarrow>
            (case unify_repd_fields adr1 adr2 p (Suc i) mismatch fa fb vis' of
               Inl e \<Rightarrow> Inl e
             | Inr (rs, vis'') \<Rightarrow> Inr ((off_a, r) # rs, vis'')))"
| "unify_repd_fields adr1 adr2 p i mismatch _ _ vis = Inr ([], vis)"
| "unify_repd_list adr1 adr2 p i (x # xs) (y # ys) vis =
     (case unify_repd_with_occurs adr1 adr2 (i # p) x y vis of
        Inl e \<Rightarrow> Inl e
      | Inr (r, vis') \<Rightarrow>
          (case unify_repd_list adr1 adr2 p (Suc i) xs ys vis' of
             Inl e \<Rightarrow> Inl e
           | Inr (rs, vis'') \<Rightarrow> Inr (r # rs, vis'')))"
| "unify_repd_list adr1 adr2 p i _ _ vis = Inr ([], vis)"
  by pat_completeness auto
termination
  by (relation "measure (\<lambda>x. case x of
       Inl (Inl (_, _, _, r1, _)) \<Rightarrow> 2 * size r1 + 1
     | Inl (Inr (_, _, _, r1, _)) \<Rightarrow> 2 * size r1
     | Inr (Inl (_, _, _, _, _, fa, _)) \<Rightarrow> 2 * size_list (size_prod (\<lambda>_. 0) size) fa
     | Inr (Inr (_, _, _, _, xs, _)) \<Rightarrow> 2 * size_list size xs)") auto

declare unify_repd_inner.simps [simp del] unify_repd_with_occurs.simps [simp del]

text \<open>The reference: the same rules without addresses and without the guard.\<close>

function (sequential) unify_shape :: "RepD \<Rightarrow> RepD \<Rightarrow> UnificationError + RepD"
  and unify_shape_fields :: "(u64 \<Rightarrow> u64 \<Rightarrow> UnificationError) \<Rightarrow> (u64 \<times> RepD) list \<Rightarrow> (u64 \<times> RepD) list
      \<Rightarrow> UnificationError + (u64 \<times> RepD) list"
  and unify_shape_list :: "RepD list \<Rightarrow> RepD list \<Rightarrow> UnificationError + RepD list"
where
  "unify_shape r1 r2 =
     (case r1 of
        Byte sa aa \<Rightarrow>
          (case r2 of
             Byte sb ab \<Rightarrow> (if sa \<noteq> sb \<or> aa \<noteq> ab then Inl (IncompatibleRepD r1 r2 ByteMismatch) else Inr r1)
           | _ \<Rightarrow> unify_other r1 r2)
      | Struct fa ta aa \<Rightarrow>
          (case r2 of
             Struct fb tb ab \<Rightarrow>
               (if length fa \<noteq> length fb
                then Inl (IncompatibleRepD r1 r2 (StructFieldCount (length fa) (length fb)))
                else map_ok (\<lambda>fs. Struct fs ta aa)
                       (unify_shape_fields (\<lambda>x y. IncompatibleRepD r1 r2 (StructOffset x y)) fa fb))
           | _ \<Rightarrow> unify_other r1 r2)
      | Array ea ca \<Rightarrow>
          (case r2 of
             Array eb cb \<Rightarrow>
               (if ca \<noteq> cb then Inl (IncompatibleRepD r1 r2 (ArrayCount ca cb))
                else map_ok (\<lambda>e. Array e ca) (unify_shape ea eb))
           | _ \<Rightarrow> unify_other r1 r2)
      | Enum va \<Rightarrow>
          (case r2 of
             Enum vb \<Rightarrow>
               (if length va \<noteq> length vb
                then Inl (IncompatibleRepD r1 r2 (EnumVariantCount (length va) (length vb)))
                else map_ok Enum (unify_shape_fields (\<lambda>x y. IncompatibleRepD r1 r2 (EnumTag x y)) va vb))
           | _ \<Rightarrow> unify_other r1 r2)
      | Ptr pa \<Rightarrow>
          (case r2 of
             Ptr pb \<Rightarrow> map_ok Ptr (unify_shape pa pb)
           | _ \<Rightarrow> unify_other r1 r2)
      | Union xa sa aa \<Rightarrow>
          (case r2 of
             Union xb sb ab \<Rightarrow>
               (if length xa \<noteq> length xb
                then Inl (IncompatibleRepD r1 r2 (UnionAlternativeCount (length xa) (length xb)))
                else map_ok (\<lambda>xs. Union xs sa aa) (unify_shape_list xa xb))
           | _ \<Rightarrow> unify_other r1 r2)
      | Func pa ra \<Rightarrow>
          (case r2 of
             Func pb rb \<Rightarrow>
               (if length pa \<noteq> length pb
                then Inl (IncompatibleRepD r1 r2 (FuncParamCount (length pa) (length pb)))
                else case unify_shape_list pa pb of
                    Inl e \<Rightarrow> Inl e
                  | Inr params \<Rightarrow> map_ok (Func params) (unify_shape ra rb))
           | _ \<Rightarrow> unify_other r1 r2)
      | _ \<Rightarrow> unify_other r1 r2)"
| "unify_shape_fields mismatch ((off_a, rep_a) # fa) ((off_b, rep_b) # fb) =
     (if off_a \<noteq> off_b then Inl (mismatch off_a off_b)
      else case unify_shape rep_a rep_b of
          Inl e \<Rightarrow> Inl e
        | Inr r \<Rightarrow> map_ok (\<lambda>rs. (off_a, r) # rs) (unify_shape_fields mismatch fa fb))"
| "unify_shape_fields mismatch _ _ = Inr []"
| "unify_shape_list (x # xs) (y # ys) =
     (case unify_shape x y of
        Inl e \<Rightarrow> Inl e
      | Inr r \<Rightarrow> map_ok (\<lambda>rs. r # rs) (unify_shape_list xs ys))"
| "unify_shape_list _ _ = Inr []"
  by pat_completeness auto
termination
  by (relation "measure (\<lambda>x. case x of
       Inl (r1, _) \<Rightarrow> size r1
     | Inr (Inl (_, fa, _)) \<Rightarrow> size_list (size_prod (\<lambda>_. 0) size) fa
     | Inr (Inr (xs, _)) \<Rightarrow> size_list size xs)") auto

declare unify_shape.simps [simp del]

section \<open>The guard is invisible\<close>

text \<open>
  What is known of addresses: distinct nodes of one operand have distinct addresses, and the two
  operands are either the same object or do not share nodes.
\<close>

definition addresses_ok :: "(path \<Rightarrow> nat) \<Rightarrow> (path \<Rightarrow> nat) \<Rightarrow> bool" where
  "addresses_ok adr1 adr2 \<longleftrightarrow> inj adr1 \<and> inj adr2 \<and> (adr1 = adr2 \<or> range adr1 \<inter> range adr2 = {})"

definition clear_below :: "(path \<Rightarrow> nat) \<Rightarrow> (path \<Rightarrow> nat) \<Rightarrow> path \<Rightarrow> visited \<Rightarrow> bool" where
  "clear_below adr1 adr2 p vis \<longleftrightarrow> (\<forall>zs. zs \<noteq> [] \<longrightarrow> visit_key adr1 adr2 (zs @ p) \<notin> vis)"

lemma visit_key_inj: "addresses_ok adr1 adr2 \<Longrightarrow> visit_key adr1 adr2 p = visit_key adr1 adr2 q \<Longrightarrow> p = q"
  unfolding addresses_ok_def visit_key_def Let_def
  by (auto split: if_splits dest: injD) (metis disjoint_iff rangeI)+

lemma clear_below_child:
  assumes "clear_below adr1 adr2 p vis"
  shows "visit_key adr1 adr2 (i # p) \<notin> vis" and "clear_below adr1 adr2 (i # p) vis"
proof -
  have "visit_key adr1 adr2 ((zs @ [i]) @ p) \<notin> vis" for zs
    using assms unfolding clear_below_def by (metis append_is_Nil_conv not_Cons_self2)
  from this [of "[]"] this show "visit_key adr1 adr2 (i # p) \<notin> vis" and "clear_below adr1 adr2 (i # p) vis"
    by (simp_all add: clear_below_def)
qed

lemma clear_below_insert:
  "addresses_ok adr1 adr2 \<Longrightarrow> clear_below adr1 adr2 p vis \<Longrightarrow> clear_below adr1 adr2 p (insert (visit_key adr1 adr2 p) vis)"
  unfolding clear_below_def by (auto dest: visit_key_inj)

abbreviation with_visited :: "visited \<Rightarrow> UnificationError + 'a \<Rightarrow> UnificationError + ('a \<times> visited)" where
  "with_visited vis \<equiv> map_ok (\<lambda>r. (r, vis))"

lemma case_with_visited:
  "(case with_visited vis r of Inl e \<Rightarrow> f e | Inr (x, vis') \<Rightarrow> g x vis') = (case r of Inl e \<Rightarrow> f e | Inr x \<Rightarrow> g x vis)"
  by (cases r) auto

lemma with_visited_map:
  "with_visited vis (map_ok h r) = (case r of Inl e \<Rightarrow> Inl e | Inr x \<Rightarrow> Inr (h x, vis))"
  by (cases r) auto

lemma unify_repd_guard:
  assumes "addresses_ok adr1 adr2"
  shows "visit_key adr1 adr2 p \<notin> vis \<Longrightarrow> clear_below adr1 adr2 p vis
      \<Longrightarrow> unify_repd_with_occurs adr1 adr2 p r1 r2 vis = with_visited vis (unify_shape r1 r2)"
    and "clear_below adr1 adr2 p vis
      \<Longrightarrow> unify_repd_inner adr1 adr2 p r1 r2 vis = with_visited vis (unify_shape r1 r2)"
    and "clear_below adr1 adr2 p vis
      \<Longrightarrow> unify_repd_fields adr1 adr2 p i mismatch fa fb vis = with_visited vis (unify_shape_fields mismatch fa fb)"
    and "clear_below adr1 adr2 p vis
      \<Longrightarrow> unify_repd_list adr1 adr2 p i xs ys vis = with_visited vis (unify_shape_list xs ys)"
  using assms
proof (induction adr1 adr2 p r1 r2 vis and adr1 adr2 p r1 r2 vis and adr1 adr2 p i mismatch fa fb vis
    and adr1 adr2 p i xs ys vis
    rule: unify_repd_with_occurs_unify_repd_inner_unify_repd_fields_unify_repd_list.induct)
  case (1 adr1 adr2 p r1 r2 vis)
  then show ?case
    by (subst unify_repd_with_occurs.simps, cases "unify_shape r1 r2") (auto simp: clear_below_insert Let_def)
next
  case (2 adr1 adr2 p r1 r2 vis)
  note child = clear_below_child [OF 2(8)]
  have "unify_repd_inner adr1 adr2 p r1 r2 vis = with_visited vis (unify_shape r1 r2)"
    if "r1 = a" "r2 = b" for a b
    unfolding unify_repd_inner.simps [of adr1 adr2 p r1 r2] unify_shape.simps [of r1 r2]
    using 2 that
    by (cases a; cases b;
        ((simp add: child case_with_visited with_visited_map; fail)
         | (auto simp: child case_with_visited with_visited_map split: sum.split)))
  then show ?case by blast
qed (auto simp: clear_below_child case_with_visited with_visited_map split: sum.split)

section \<open>Descriptors\<close>

definition unify_capd :: "CapD \<Rightarrow> CapD \<Rightarrow> UnificationError + CapD" where
  "unify_capd c1 c2 =
     (let result = meet c1 c2 in
      if caps c1 \<noteq> {} \<and> caps c2 \<noteq> {} \<and> caps result = {} then Inl (IncompatibleCapD c1 c2)
      else Inr result)"

definition unify_reld :: "RelD \<Rightarrow> RelD \<Rightarrow> UnificationError + RelD" where
  "unify_reld r1 r2 =
     (let merged = merge r1 r2 in
      if \<not> is_consistent merged then Inl (InconsistentRelD r1 r2) else Inr merged)"

definition unify_at :: "(path \<Rightarrow> nat) \<Rightarrow> (path \<Rightarrow> nat) \<Rightarrow> BD \<Rightarrow> BD \<Rightarrow> UnificationError + BD" where
  "unify_at adr1 adr2 bd1 bd2 =
     (case unify_repd_with_occurs adr1 adr2 [] (bd_repd bd1) (bd_repd bd2) {} of
        Inl e \<Rightarrow> Inl e
      | Inr (repd, _) \<Rightarrow>
          (case unify_capd (bd_capd bd1) (bd_capd bd2) of
             Inl e \<Rightarrow> Inl e
           | Inr capd \<Rightarrow>
               (case unify_reld (bd_reld bd1) (bd_reld bd2) of
                  Inl e \<Rightarrow> Inl e
                | Inr reld \<Rightarrow> Inr (bd_new repd capd reld))))"

text \<open>
  \<open>unify\<close> is the function at one concrete placement of two separate objects; by the first property
  below every placement gives the same results.
\<close>

definition unify :: "BD \<Rightarrow> BD \<Rightarrow> UnificationError + BD" where
  "unify = unify_at (\<lambda>p. 2 * list_encode p) (\<lambda>p. Suc (2 * list_encode p))"

lemma inj_list_encode_double: "inj (\<lambda>p. 2 * list_encode p)" "inj (\<lambda>p. Suc (2 * list_encode p))"
  by (auto simp: inj_on_def list_encode_eq)

lemma addresses_separate: "addresses_ok (\<lambda>p. 2 * list_encode p) (\<lambda>p. Suc (2 * list_encode p))"
  unfolding addresses_ok_def using inj_list_encode_double by (auto; presburger)

lemma unify_at_shape:
  assumes "addresses_ok adr1 adr2"
  shows "unify_at adr1 adr2 bd1 bd2 =
     (case unify_shape (bd_repd bd1) (bd_repd bd2) of
        Inl e \<Rightarrow> Inl e
      | Inr repd \<Rightarrow>
          (case unify_capd (bd_capd bd1) (bd_capd bd2) of
             Inl e \<Rightarrow> Inl e
           | Inr capd \<Rightarrow> map_ok (bd_new repd capd) (unify_reld (bd_reld bd1) (bd_reld bd2))))"
proof -
  have "unify_repd_with_occurs adr1 adr2 [] r1 r2 {} = with_visited {} (unify_shape r1 r2)" for r1 r2
    by (rule unify_repd_guard(1) [OF assms]) (simp_all add: clear_below_def)
  then show ?thesis by (auto simp: unify_at_def split: sum.split)
qed

lemmas unify_shape_eq = unify_at_shape [OF addresses_separate, folded unify_def]

section \<open>What unification returns\<close>

fun generic_free :: "RepD \<Rightarrow> bool" where
  "generic_free (Struct fs total_size align) = (\<forall>f \<in> set fs. generic_free (snd f))"
| "generic_free (Array element count) = generic_free element"
| "generic_free (Enum variants) = (\<forall>v \<in> set variants. generic_free (snd v))"
| "generic_free (Ptr pointee) = generic_free pointee"
| "generic_free (Union alternatives max_size max_align) = (\<forall>a \<in> set alternatives. generic_free a)"
| "generic_free (Func params result) = ((\<forall>p \<in> set params. generic_free p) \<and> generic_free result)"
| "generic_free (DependentArray elem count_var) = generic_free elem"
| "generic_free (Generic name constraints) = False"
| "generic_free _ = True"

lemma unify_other_left: "unify_other a b = Inr r \<Longrightarrow> \<not> is_Generic a \<Longrightarrow> r = a"
  by (auto simp: unify_other_def split: if_splits)

lemma unify_shape_cases:
  assumes "unify_shape r1 r2 = Inr r"
  obtains (other) "unify_other r1 r2 = Inr r"
  | (bytes) s a where "r1 = Byte s a" "r2 = Byte s a" "r = r1"
  | (structs) mismatch fa t a fb t' a' fs where "r1 = Struct fa t a" "r2 = Struct fb t' a'" "length fa = length fb"
      "unify_shape_fields mismatch fa fb = Inr fs" "r = Struct fs t a"
      "mismatch = (\<lambda>x y. IncompatibleRepD r1 r2 (StructOffset x y))"
  | (arrays) e e' c x where "r1 = Array e c" "r2 = Array e' c" "unify_shape e e' = Inr x" "r = Array x c"
  | (enums) mismatch va vb vs where "r1 = Enum va" "r2 = Enum vb" "length va = length vb"
      "unify_shape_fields mismatch va vb = Inr vs" "r = Enum vs"
      "mismatch = (\<lambda>x y. IncompatibleRepD r1 r2 (EnumTag x y))"
  | (ptrs) e e' x where "r1 = Ptr e" "r2 = Ptr e'" "unify_shape e e' = Inr x" "r = Ptr x"
  | (unions) xa s a xb s' a' xs where "r1 = Union xa s a" "r2 = Union xb s' a'" "length xa = length xb"
      "unify_shape_list xa xb = Inr xs" "r = Union xs s a"
  | (funcs) pa ra pb rb ps x where "r1 = Func pa ra" "r2 = Func pb rb" "length pa = length pb"
      "unify_shape_list pa pb = Inr ps" "unify_shape ra rb = Inr x" "r = Func ps x"
  using assms unfolding unify_shape.simps [of r1 r2]
  by (cases r1; cases r2;
      ((simp add: map_ok_Inr split: if_splits sum.splits; fail)
       | (simp add: map_ok_Inr split: if_splits sum.splits; blast)))

lemma unify_shape_left:
  "unify_shape r1 r2 = Inr r \<Longrightarrow> generic_free r1 \<Longrightarrow> r = r1"
  "unify_shape_fields mismatch fa fb = Inr fs \<Longrightarrow> length fa = length fb
     \<Longrightarrow> \<forall>f \<in> set fa. generic_free (snd f) \<Longrightarrow> fs = fa"
  "unify_shape_list xs ys = Inr rs \<Longrightarrow> length xs = length ys \<Longrightarrow> \<forall>x \<in> set xs. generic_free x \<Longrightarrow> rs = xs"
proof (induction r1 r2 and mismatch fa fb and xs ys arbitrary: r and fs and rs
    rule: unify_shape_unify_shape_fields_unify_shape_list.induct)
  case (1 r1 r2)
  from 1(8) show ?case
  proof (cases rule: unify_shape_cases)
    case other
    then show ?thesis using 1(9) unify_other_left by (cases r1) auto
  next
    case (structs mismatch fa t a fb t' a' fs)
    then have "fs = fa" using 1(1) [OF structs(1,2)] 1(9) by simp
    then show ?thesis using structs by simp
  next
    case (arrays e e' c x)
    then have "x = e" using 1(2) [OF arrays(1,2)] 1(9) by simp
    then show ?thesis using arrays by simp
  next
    case (enums mismatch va vb vs)
    then have "vs = va" using 1(3) [OF enums(1,2)] 1(9) by simp
    then show ?thesis using enums by simp
  next
    case (ptrs e e' x)
    then have "x = e" using 1(4) [OF ptrs(1,2)] 1(9) by simp
    then show ?thesis using ptrs by simp
  next
    case (unions xa s a xb s' a' xs)
    then have "xs = xa" using 1(5) [OF unions(1,2)] 1(9) by simp
    then show ?thesis using unions by simp
  next
    case (funcs pa ra pb rb ps x)
    then have "ps = pa" "x = ra" using 1(6,7) [OF funcs(1,2)] 1(9) by simp_all
    then show ?thesis using funcs by simp
  qed
qed (auto simp: map_ok_Inr split: if_splits sum.splits)

text \<open>
  The guard against recursive types never changes a result: wherever the two descriptors lie in
  memory, as long as distinct nodes have distinct addresses and the operands are the same object or
  share no node, unification along the guarded recursion gives the same descriptor or the same error.
\<close>

theorem unify_guard_invisible:
  assumes "addresses_ok adr1 adr2"
  shows "unify_at adr1 adr2 bd1 bd2 = unify bd1 bd2"
  by (simp only: unify_at_shape [OF assms] unify_shape_eq)

theorem unify_guard_invisible_witness:
  "unify_at list_encode list_encode (bd_new (Ptr (Byte 4 4)) capd_empty reld_empty) (bd_new (Ptr (Byte 4 4)) capd_empty reld_empty)
   = unify (bd_new (Ptr (Byte 4 4)) capd_empty reld_empty) (bd_new (Ptr (Byte 4 4)) capd_empty reld_empty)"
proof -
  have "addresses_ok list_encode list_encode"
    by (auto simp: addresses_ok_def inj_on_def list_encode_eq)
  then show ?thesis by (rule unify_guard_invisible)
qed

text \<open>
  When unification succeeds, its capabilities are the meet of the two descriptors' and lie below
  both, its relations are the common ones, consistent, and both descriptors refine them, and if the
  left representation mentions no generic the result keeps it unchanged.
\<close>

theorem unify_result:
  assumes "unify bd1 bd2 = Inr bd"
  shows "bd_capd bd = meet (bd_capd bd1) (bd_capd bd2)
    \<and> is_subset (bd_capd bd) (bd_capd bd1) \<and> is_subset (bd_capd bd) (bd_capd bd2)
    \<and> relations (bd_reld bd) = relations (bd_reld bd1) \<inter> relations (bd_reld bd2)
    \<and> is_consistent (bd_reld bd) \<and> refines (bd_reld bd1) (bd_reld bd) \<and> refines (bd_reld bd2) (bd_reld bd)
    \<and> (generic_free (bd_repd bd1) \<longrightarrow> bd_repd bd = bd_repd bd1)"
proof -
  obtain r where r: "unify_shape (bd_repd bd1) (bd_repd bd2) = Inr r"
    and bd: "bd = bd_new r (meet (bd_capd bd1) (bd_capd bd2)) (merge (bd_reld bd1) (bd_reld bd2))"
    and cons: "is_consistent (merge (bd_reld bd1) (bd_reld bd2))"
    using assms
    by (auto simp: unify_shape_eq unify_capd_def unify_reld_def Let_def split: sum.splits if_splits)
  show ?thesis
    using unify_shape_left(1) [OF r] cons
    by (auto simp: bd bd_new_def capd.glb_lower1 capd.glb_lower2 merge_def refines_def)
qed

theorem unify_result_witness:
  "is_subset (bd_capd (bd_new (Byte 4 4) \<lparr>caps = {Read}, conditions = {}\<rparr> reld_empty)) \<lparr>caps = {Read, Write}, conditions = {}\<rparr>"
proof -
  let ?a = "bd_new (Byte 4 4) \<lparr>caps = {Read, Write}, conditions = {}\<rparr> reld_empty"
  let ?b = "bd_new (Byte 4 4) \<lparr>caps = {Read}, conditions = {}\<rparr> reld_empty"
  have "unify ?a ?b = Inr ?b"
    by (simp add: unify_shape_eq bd_new_def unify_shape.simps unify_capd_def unify_reld_def meet_def merge_def
        is_consistent_iff reld_empty_def)
  from unify_result [OF this] show ?thesis by (simp add: bd_new_def)
qed

text \<open>
  The documentation promises a descriptor that is compatible with both operands. Structs of different
  total size unify, since only fields are compared, and the result is not compatible with the second.
\<close>

lemma unify_result_incompatible:
  "unify_shape (Struct [] 8 4) (Struct [] 4096 4) = Inr (Struct [] 8 4)
   \<and> \<not> compatible (Struct [] 8 4) (Struct [] 4096 4)"
  by (simp add: unify_shape.simps compatible.simps)

text \<open>Two equal state representations do not unify, and the error claims that they differ.\<close>

lemma unify_equal_states_fail:
  "unify_shape (State l) (State l) = Inl (IncompatibleRepD (State l) (State l) DifferentConstructors)"
  by (simp add: unify_shape.simps unify_other_def)

end
