(* ===== verification/Bd_Solver.thy ===== *)
theory Bd_Solver
  imports Bd_Unify
begin

text \<open>
  Substitutions and the constraint solver: the second half of \<^verbatim>\<open>src/src/bd/src/unify.rs\<close>. Chasing a
  variable through a cyclic substitution does not end, so the functions that do it are partial
  (\<open>None\<close>: no result). The theory shows that the solver never builds a cycle, so it always returns,
  and what a solution satisfies.
\<close>

section \<open>Substitutions\<close>

type_synonym subst = "(BDVariable, BDTerm) hmap"

datatype BDConstraintKind = Equality | Compatibility | Subtyping

record TermConstraint =
  tc_left :: BDTerm
  tc_right :: BDTerm
  tc_kind :: BDConstraintKind

definition substitute :: "BD \<Rightarrow> (BDVariable, BD) hmap \<Rightarrow> BD" where
  "substitute bd sub = bd"

partial_function (option) substitute_term :: "BDTerm \<Rightarrow> subst \<Rightarrow> BDTerm option" where
  "substitute_term tm sub =
     (case tm of
        Concrete bd \<Rightarrow> Some (Concrete bd)
      | Var v \<Rightarrow> (case hm_get sub v of
           Some resolved \<Rightarrow> substitute_term resolved sub
         | None \<Rightarrow> Some (Var v)))"

text \<open>The two loops of \<^verbatim>\<open>compose_subst\<close>: first the left bindings, then the right ones not yet there.\<close>

fun compose_left :: "subst \<Rightarrow> subst \<Rightarrow> subst \<Rightarrow> subst option" where
  "compose_left [] s2 result = Some result"
| "compose_left ((v, t) # s1) s2 result =
     Option.bind (substitute_term t s2) (\<lambda>t'. compose_left s1 s2 (hm_insert v t' result))"

fun compose_right :: "subst \<Rightarrow> subst \<Rightarrow> subst" where
  "compose_right [] result = result"
| "compose_right ((v, t) # s2) result =
     compose_right s2 (if hm_get result v = None then hm_insert v t result else result)"

definition compose_subst :: "subst \<Rightarrow> subst \<Rightarrow> subst option" where
  "compose_subst s1 s2 = map_option (compose_right s2) (compose_left s1 s2 [])"

partial_function (option) occurs_in :: "BDVariable \<Rightarrow> BDTerm \<Rightarrow> subst \<Rightarrow> bool option" where
  "occurs_in var tm sub =
     (case tm of
        Concrete _ \<Rightarrow> Some False
      | Var v \<Rightarrow>
          (if var = v then Some True
           else (case hm_get sub v of
              Some resolved \<Rightarrow> occurs_in var resolved sub
            | None \<Rightarrow> Some False)))"

section \<open>The solver\<close>

record BDSolver =
  solver_subst :: subst

definition solver_new :: BDSolver where
  "solver_new = \<lparr>solver_subst = []\<rparr>"

definition solver_resolve :: "BDSolver \<Rightarrow> BDTerm \<Rightarrow> BDTerm option" where
  "solver_resolve s tm = substitute_term tm (solver_subst s)"

text \<open>
  The loop of \<^verbatim>\<open>resolve_var\<close>. It ends because every round adds an id to the visited ids and the
  variables it walks through are bound, so fuel of one more than the number of bindings is enough.
\<close>

fun resolve_var_loop :: "nat \<Rightarrow> subst \<Rightarrow> u64 list \<Rightarrow> BDVariable \<Rightarrow> BDTerm option" where
  "resolve_var_loop 0 sub visited current = None"
| "resolve_var_loop (Suc fuel) sub visited current =
     (if var_id current \<in> set visited then Some (Var current)
      else (case hm_get sub current of
          Some (Var v3) \<Rightarrow> resolve_var_loop fuel sub (var_id current # visited) v3
        | Some other \<Rightarrow> Some other
        | None \<Rightarrow> Some (Var current)))"

definition resolve_var :: "BDSolver \<Rightarrow> BDVariable \<Rightarrow> BDTerm option" where
  "resolve_var s var =
     (case hm_get (solver_subst s) var of
        Some (Var v2) \<Rightarrow> resolve_var_loop (Suc (length (solver_subst s))) (solver_subst s) [var_id var] v2
      | Some other \<Rightarrow> Some other
      | None \<Rightarrow> None)"

type_synonym verdict = "UnificationError + unit"

text \<open>
  \<^verbatim>\<open>bind_variable\<close> up to its call of \<^verbatim>\<open>unify_terms\<close>: either it is done, or it continues with the two
  resolved terms it returns.
\<close>

definition bind_step :: "BDSolver \<Rightarrow> BDVariable \<Rightarrow> BDTerm \<Rightarrow> (BDSolver \<times> verdict + BDTerm \<times> BDTerm) option" where
  "bind_step s var tm =
     Option.bind (occurs_in var tm (solver_subst s)) (\<lambda>occ.
       if occ then Some (Inl (s, Inl (OccursCheckFailed var tm)))
       else (case hm_get (solver_subst s) var of
           Some existing \<Rightarrow>
             Option.bind (solver_resolve s existing) (\<lambda>existing_resolved.
             Option.bind (solver_resolve s tm) (\<lambda>term_resolved.
               if existing_resolved = term_resolved then Some (Inl (s, Inr ()))
               else Some (Inr (existing_resolved, term_resolved))))
         | None \<Rightarrow> Some (Inl (s\<lparr>solver_subst := hm_insert var tm (solver_subst s)\<rparr>, Inr ()))))"

partial_function (option) unify_terms :: "BDSolver \<Rightarrow> BDTerm \<Rightarrow> BDTerm \<Rightarrow> (BDSolver \<times> verdict) option" where
  "unify_terms s t1 t2 =
     (if t1 = t2 then Some (s, Inr ())
      else (case t1 of
          Concrete bd1 \<Rightarrow>
            (case t2 of
               Concrete bd2 \<Rightarrow> Some (s, map_ok (\<lambda>_. ()) (unify bd1 bd2))
             | Var v \<Rightarrow> Option.bind (bind_step s v t1) (\<lambda>r. case r of
                 Inl fin \<Rightarrow> Some fin
               | Inr ts \<Rightarrow> unify_terms s (fst ts) (snd ts)))
        | Var v \<Rightarrow> Option.bind (bind_step s v t2) (\<lambda>r. case r of
              Inl fin \<Rightarrow> Some fin
            | Inr ts \<Rightarrow> unify_terms s (fst ts) (snd ts))))"

definition bind_variable :: "BDSolver \<Rightarrow> BDVariable \<Rightarrow> BDTerm \<Rightarrow> (BDSolver \<times> verdict) option" where
  "bind_variable s var tm =
     Option.bind (bind_step s var tm) (\<lambda>r. case r of
         Inl fin \<Rightarrow> Some fin
       | Inr ts \<Rightarrow> unify_terms s (fst ts) (snd ts))"

definition check_compatibility :: "BDTerm \<Rightarrow> BDTerm \<Rightarrow> verdict" where
  "check_compatibility t1 t2 =
     (case t1 of
        Concrete bd1 \<Rightarrow>
          (case t2 of
             Concrete bd2 \<Rightarrow> (if bd_compatible bd1 bd2 then Inr () else Inl (Failed t1 t2))
           | Var _ \<Rightarrow> Inr ())
      | Var _ \<Rightarrow> Inr ())"

definition check_subtyping :: "BDTerm \<Rightarrow> BDTerm \<Rightarrow> verdict" where
  "check_subtyping t1 t2 =
     (case t1 of
        Concrete bd1 \<Rightarrow>
          (case t2 of
             Concrete bd2 \<Rightarrow> (if bd_refines bd1 bd2 then Inr () else Inl (SubtypeViolation bd1 bd2))
           | Var _ \<Rightarrow> Inr ())
      | Var _ \<Rightarrow> Inr ())"

definition add_constraint :: "BDSolver \<Rightarrow> TermConstraint \<Rightarrow> (BDSolver \<times> verdict) option" where
  "add_constraint s c =
     Option.bind (solver_resolve s (tc_left c)) (\<lambda>left.
     Option.bind (solver_resolve s (tc_right c)) (\<lambda>right.
       case tc_kind c of
         Equality \<Rightarrow> unify_terms s left right
       | Compatibility \<Rightarrow> Some (s, check_compatibility left right)
       | Subtyping \<Rightarrow> Some (s, check_subtyping left right)))"

text \<open>The loop of \<^verbatim>\<open>solve\<close>: every constraint is processed, errors are collected in order.\<close>

fun add_constraints :: "BDSolver \<Rightarrow> TermConstraint list \<Rightarrow> (BDSolver \<times> UnificationError list) option" where
  "add_constraints s [] = Some (s, [])"
| "add_constraints s (c # cs) =
     Option.bind (add_constraint s c) (\<lambda>(s', verdict).
       map_option (\<lambda>(s'', errors). (s'', (case verdict of Inl e \<Rightarrow> e # errors | Inr _ \<Rightarrow> errors)))
         (add_constraints s' cs))"

fun collect_solution :: "BDSolver \<Rightarrow> BDVariable list \<Rightarrow> (BDVariable, BD) hmap \<Rightarrow> (BDVariable, BD) hmap option" where
  "collect_solution s [] result = Some result"
| "collect_solution s (var # vars) result =
     Option.bind (solver_resolve s (Var var)) (\<lambda>resolved.
       case resolved of
         Concrete bd \<Rightarrow> collect_solution s vars (hm_insert var bd result)
       | Var v \<Rightarrow> collect_solution s vars result)"

definition solve ::
  "BDSolver \<Rightarrow> TermConstraint list \<Rightarrow> (BDSolver \<times> (UnificationError list + (BDVariable, BD) hmap)) option" where
  "solve s constraints =
     Option.bind (add_constraints s constraints) (\<lambda>(s', errors).
       if errors \<noteq> [] then Some (s', Inl errors)
       else map_option (\<lambda>result. (s', Inr result)) (collect_solution s' (hm_keys (solver_subst s')) []))"

fun finalize_loop :: "BDSolver \<Rightarrow> BDVariable list \<Rightarrow> BDSolver option" where
  "finalize_loop s [] = Some s"
| "finalize_loop s (var # vars) =
     Option.bind (solver_resolve s (Var var)) (\<lambda>resolved.
       finalize_loop (s\<lparr>solver_subst := hm_insert var resolved (solver_subst s)\<rparr>) vars)"

definition finalize :: "BDSolver \<Rightarrow> BDSolver option" where
  "finalize s = finalize_loop s (hm_keys (solver_subst s))"

definition solve_constraints ::
  "TermConstraint list \<Rightarrow> (UnificationError list + (BDVariable, BD) hmap) option" where
  "solve_constraints constraints = map_option snd (solve solver_new constraints)"

section \<open>Chasing variables ends\<close>

definition edges :: "subst \<Rightarrow> (BDVariable \<times> BDVariable) set" where
  "edges sub = {(v, w). hm_get sub v = Some (Var w)}"

definition solver_ok :: "BDSolver \<Rightarrow> bool" where
  "solver_ok s \<longleftrightarrow> hm_ok (solver_subst s) \<and> acyclic (edges (solver_subst s))"

definition resolved :: "subst \<Rightarrow> BDTerm \<Rightarrow> bool" where
  "resolved sub tm = (case tm of Concrete _ \<Rightarrow> True | Var v \<Rightarrow> hm_get sub v = None)"

definition extends :: "subst \<Rightarrow> subst \<Rightarrow> bool" where
  "extends sub' sub \<longleftrightarrow> (\<forall>v t. hm_get sub v = Some t \<longrightarrow> hm_get sub' v = Some t)"

lemma finite_edges: "finite (edges sub)"
proof -
  have "edges sub \<subseteq> fst ` set sub \<times> (\<lambda>t. case t of Var w \<Rightarrow> w | _ \<Rightarrow> undefined) ` snd ` set sub"
    by (force simp: edges_def dest: map_of_SomeD)
  then show ?thesis by (rule finite_subset) auto
qed

lemma edges_wf: "acyclic (edges sub) \<Longrightarrow> wf ((edges sub)\<inverse>)"
  by (simp add: finite_edges finite_acyclic_wf_converse)

lemma substitute_term_simps [simp]:
  "substitute_term (Concrete bd) sub = Some (Concrete bd)"
  "hm_get sub v = None \<Longrightarrow> substitute_term (Var v) sub = Some (Var v)"
  "hm_get sub v = Some t \<Longrightarrow> substitute_term (Var v) sub = substitute_term t sub"
  by (subst substitute_term.simps; simp)+

lemma occurs_in_simps [simp]:
  "occurs_in x (Concrete bd) sub = Some False"
  "occurs_in x (Var x) sub = Some True"
  "x \<noteq> v \<Longrightarrow> hm_get sub v = None \<Longrightarrow> occurs_in x (Var v) sub = Some False"
  "x \<noteq> v \<Longrightarrow> hm_get sub v = Some t \<Longrightarrow> occurs_in x (Var v) sub = occurs_in x t sub"
  by (subst occurs_in.simps; simp)+

lemma chase_induct [consumes 1, case_names Concrete Unbound Bound]:
  assumes "acyclic (edges sub)"
    and "\<And>bd. P (Concrete bd)"
    and "\<And>v. hm_get sub v = None \<Longrightarrow> P (Var v)"
    and "\<And>v t. hm_get sub v = Some t \<Longrightarrow> P t \<Longrightarrow> P (Var v)"
  shows "P tm"
proof -
  have "P (Var v)" for v
    using edges_wf [OF assms(1)]
  proof (induction v rule: wf_induct_rule)
    case (less v)
    show ?case
    proof (cases "hm_get sub v")
      case (Some t)
      then have "P t" using less assms(2) by (cases t) (auto simp: edges_def)
      with Some show ?thesis by (rule assms(4))
    qed (rule assms(3))
  qed
  then show ?thesis using assms(2) by (cases tm) auto
qed

lemma substitute_total:
  "acyclic (edges sub) \<Longrightarrow> \<exists>t. substitute_term tm sub = Some t \<and> resolved sub t"
  by (induction tm rule: chase_induct) (auto simp: resolved_def)

lemma occurs_total: "acyclic (edges sub) \<Longrightarrow> \<exists>b. occurs_in x tm sub = Some b"
proof (induction tm rule: chase_induct)
  case (Unbound v)
  then show ?case by (cases "x = v") auto
next
  case (Bound v t)
  then show ?case by (cases "x = v") auto
qed auto

lemma resolved_fixed: "resolved sub t \<Longrightarrow> substitute_term t sub = Some t"
  by (cases t) (auto simp: resolved_def)

lemma substitute_extends:
  assumes "acyclic (edges sub)" and "extends sub' sub" and "substitute_term tm sub = Some t"
  shows "substitute_term tm sub' = substitute_term t sub'"
  using assms(1,3)
proof (induction tm rule: chase_induct)
  case (Bound v u)
  then show ?case using assms(2) by (simp add: extends_def)
qed auto

lemma extends_trans: "extends c b \<Longrightarrow> extends b a \<Longrightarrow> extends c a"
  by (auto simp: extends_def)

lemma bind_keeps_ok:
  assumes "solver_ok s" and "hm_get (solver_subst s) v = None"
    and "resolved (solver_subst s) tm" and "tm \<noteq> Var v"
  shows "solver_ok (s\<lparr>solver_subst := hm_insert v tm (solver_subst s)\<rparr>)"
    and "extends (hm_insert v tm (solver_subst s)) (solver_subst s)"
proof -
  let ?sub = "solver_subst s"
  have "acyclic (edges (hm_insert v tm ?sub))"
  proof (cases tm)
    case (Concrete bd)
    then have "edges (hm_insert v tm ?sub) \<subseteq> edges ?sub"
      by (auto simp: edges_def hm_get_insert split: if_splits)
    then show ?thesis using assms(1) acyclic_subset solver_ok_def by blast
  next
    case (Var w)
    then have sub: "edges (hm_insert v tm ?sub) \<subseteq> insert (v, w) (edges ?sub)"
      by (auto simp: edges_def hm_get_insert split: if_splits)
    have "(w, v) \<notin> (edges ?sub)\<^sup>*"
    proof
      assume "(w, v) \<in> (edges ?sub)\<^sup>*"
      then show False
        using assms(3,4) Var by (cases rule: converse_rtranclE) (auto simp: edges_def resolved_def)
    qed
    then have "acyclic (insert (v, w) (edges ?sub))"
      using assms(1) by (simp add: acyclic_insert solver_ok_def)
    then show ?thesis using sub acyclic_subset by blast
  qed
  then show "solver_ok (s\<lparr>solver_subst := hm_insert v tm ?sub\<rparr>)"
    using assms(1) by (simp add: solver_ok_def hm_ok_insert)
  show "extends (hm_insert v tm ?sub) ?sub"
    using assms(2) by (auto simp: extends_def hm_get_insert)
qed

section \<open>Processing constraints\<close>

text \<open>Two terms agree under a substitution: same resolution, or concrete descriptors that unify.\<close>

definition agree_terms :: "subst \<Rightarrow> BDTerm \<Rightarrow> BDTerm \<Rightarrow> bool" where
  "agree_terms sub l r \<longleftrightarrow>
     substitute_term l sub = substitute_term r sub
     \<or> (\<exists>b1 b2 u. substitute_term l sub = Some (Concrete b1) \<and> substitute_term r sub = Some (Concrete b2)
           \<and> unify b1 b2 = Inr u)"

lemma agree_terms_extends:
  assumes "acyclic (edges sub)" and "extends sub' sub" and "agree_terms sub l r"
  shows "agree_terms sub' l r"
proof -
  obtain l' r' where l': "substitute_term l sub = Some l'" and r': "substitute_term r sub = Some r'"
    using substitute_total [OF assms(1)] by blast
  show ?thesis
    using assms(3) substitute_extends [OF assms(1,2) l'] substitute_extends [OF assms(1,2) r'] l' r'
    by (auto simp: agree_terms_def)
qed

text \<open>Binding an unbound variable to a resolved term; what the occurs check leaves is no cycle.\<close>

lemma bind_step_unbound:
  assumes "resolved (solver_subst s) (Var v)" and "resolved (solver_subst s) tm" and "tm \<noteq> Var v"
  shows "bind_step s v tm = Some (Inl (s\<lparr>solver_subst := hm_insert v tm (solver_subst s)\<rparr>, Inr ()))"
  using assms by (cases tm) (auto simp: bind_step_def resolved_def)

lemma agree_bound:
  assumes "hm_get sub v = None" and "resolved sub tm" and "tm \<noteq> Var v"
  shows "substitute_term (Var v) (hm_insert v tm sub) = Some tm"
    and "substitute_term tm (hm_insert v tm sub) = Some tm"
proof -
  show tm: "substitute_term tm (hm_insert v tm sub) = Some tm"
    using assms by (cases tm) (auto simp: resolved_def hm_get_insert)
  have "hm_get (hm_insert v tm sub) v = Some tm" by (simp add: hm_get_insert)
  then show "substitute_term (Var v) (hm_insert v tm sub) = Some tm" using tm by simp
qed

lemma unify_terms_resolved:
  assumes "solver_ok s" and "resolved (solver_subst s) t1" and "resolved (solver_subst s) t2"
  shows "\<exists>s' vd. unify_terms s t1 t2 = Some (s', vd) \<and> solver_ok s' \<and> extends (solver_subst s') (solver_subst s)
           \<and> (vd = Inr () \<longrightarrow> agree_terms (solver_subst s') t1 t2)"
proof -
  have bound: "\<exists>s' vd. Option.bind (bind_step s v tm) (\<lambda>r. case r of
            Inl fin \<Rightarrow> Some fin | Inr ts \<Rightarrow> unify_terms s (fst ts) (snd ts)) = Some (s', vd)
        \<and> solver_ok s' \<and> extends (solver_subst s') (solver_subst s)
        \<and> substitute_term (Var v) (solver_subst s') = substitute_term tm (solver_subst s')"
    if "resolved (solver_subst s) (Var v)" "resolved (solver_subst s) tm" "tm \<noteq> Var v" for v tm
    using that assms(1) bind_keeps_ok [of s v tm] agree_bound [of "solver_subst s" v tm]
    by (simp add: bind_step_unbound) (simp add: resolved_def)
  show ?thesis
  proof (cases "t1 = t2")
    case True
    then show ?thesis using assms(1) by (subst unify_terms.simps) (simp add: extends_def agree_terms_def)
  next
    case False
    show ?thesis
    proof (cases t1)
      case (Var v)
      then show ?thesis using False bound [of v t2] assms(2,3)
        by (subst unify_terms.simps) (auto simp: agree_terms_def)
    next
      case (Concrete b1)
      show ?thesis
      proof (cases t2)
        case (Var v)
        then show ?thesis using False Concrete bound [of v t1] assms(2,3)
          by (subst unify_terms.simps) (auto simp: agree_terms_def)
      next
        case (Concrete b2)
        then show ?thesis using False \<open>t1 = Concrete b1\<close> assms(1)
          by (subst unify_terms.simps) (auto simp: agree_terms_def extends_def map_ok_Inr)
      qed
    qed
  qed
qed

definition checked :: "TermConstraint \<Rightarrow> bool" where
  "checked c \<longleftrightarrow> (\<forall>b1 b2. tc_left c = Concrete b1 \<longrightarrow> tc_right c = Concrete b2 \<longrightarrow>
     (tc_kind c = Compatibility \<longrightarrow> bd_compatible b1 b2) \<and> (tc_kind c = Subtyping \<longrightarrow> bd_refines b1 b2))"

lemma add_constraint_total:
  assumes "solver_ok s"
  shows "\<exists>s' vd. add_constraint s c = Some (s', vd) \<and> solver_ok s' \<and> extends (solver_subst s') (solver_subst s)
    \<and> (vd = Inr () \<longrightarrow> checked c
          \<and> (tc_kind c = Equality \<longrightarrow> agree_terms (solver_subst s') (tc_left c) (tc_right c)))"
proof -
  let ?sub = "solver_subst s"
  have ac: "acyclic (edges ?sub)" using assms by (simp add: solver_ok_def)
  obtain l r where l: "substitute_term (tc_left c) ?sub = Some l" "resolved ?sub l"
    and r: "substitute_term (tc_right c) ?sub = Some r" "resolved ?sub r"
    using substitute_total [OF ac] by blast
  have ext: "extends ?sub ?sub" by (simp add: extends_def)
  show ?thesis
  proof (cases "tc_kind c")
    case Equality
    obtain s' vd where u: "unify_terms s l r = Some (s', vd)" "solver_ok s'" "extends (solver_subst s') ?sub"
        "vd = Inr () \<longrightarrow> agree_terms (solver_subst s') l r"
      using unify_terms_resolved [OF assms l(2) r(2)] by blast
    have "agree_terms (solver_subst s') (tc_left c) (tc_right c)" if "vd = Inr ()"
      using u(4) that substitute_extends [OF ac u(3) l(1)] substitute_extends [OF ac u(3) r(1)]
      by (simp add: agree_terms_def)
    then show ?thesis using Equality u(1-3) l(1) r(1) by (simp add: add_constraint_def solver_resolve_def checked_def)
  next
    case Compatibility
    then show ?thesis using assms ext l r
      by (auto simp: add_constraint_def solver_resolve_def checked_def check_compatibility_def split: if_splits)
  next
    case Subtyping
    then show ?thesis using assms ext l r
      by (auto simp: add_constraint_def solver_resolve_def checked_def check_subtyping_def split: if_splits)
  qed
qed

lemma add_constraints_total:
  assumes "solver_ok s"
  shows "\<exists>s' errors. add_constraints s cs = Some (s', errors) \<and> solver_ok s' \<and> extends (solver_subst s') (solver_subst s)
    \<and> (errors = [] \<longrightarrow> (\<forall>c \<in> set cs. checked c
          \<and> (tc_kind c = Equality \<longrightarrow> agree_terms (solver_subst s') (tc_left c) (tc_right c))))"
  using assms
proof (induction cs arbitrary: s)
  case Nil
  then show ?case by (simp add: extends_def)
next
  case (Cons c cs)
  obtain s1 vd where a: "add_constraint s c = Some (s1, vd)" "solver_ok s1" "extends (solver_subst s1) (solver_subst s)"
      "vd = Inr () \<longrightarrow> checked c \<and> (tc_kind c = Equality \<longrightarrow> agree_terms (solver_subst s1) (tc_left c) (tc_right c))"
    using add_constraint_total [OF Cons.prems] by blast
  obtain s2 errors where b: "add_constraints s1 cs = Some (s2, errors)" "solver_ok s2"
      "extends (solver_subst s2) (solver_subst s1)"
      "errors = [] \<longrightarrow> (\<forall>c \<in> set cs. checked c
          \<and> (tc_kind c = Equality \<longrightarrow> agree_terms (solver_subst s2) (tc_left c) (tc_right c)))"
    using Cons.IH [OF a(2)] by blast
  have "agree_terms (solver_subst s2) l r" if "agree_terms (solver_subst s1) l r" for l r
    using agree_terms_extends [OF _ b(3) that] a(2) by (simp add: solver_ok_def)
  then show ?case
    using a b extends_trans [OF b(3) a(3)] by (cases vd) auto
qed

lemma collect_solution_spec:
  assumes "solver_ok s"
  shows "\<exists>result'. collect_solution s vars result = Some result'
     \<and> (\<forall>v. hm_get result' v = (case substitute_term (Var v) (solver_subst s) of
            Some (Concrete bd) \<Rightarrow> (if v \<in> set vars then Some bd else hm_get result v)
          | _ \<Rightarrow> hm_get result v))"
proof (induction vars arbitrary: result)
  case Nil
  then show ?case by (auto split: option.split BDTerm.split)
next
  case (Cons v vars)
  obtain t where t: "substitute_term (Var v) (solver_subst s) = Some t"
    using substitute_total assms unfolding solver_ok_def by blast
  show ?case
  proof (cases t)
    case (Concrete bd)
    then show ?thesis using Cons.IH [of "hm_insert v bd result"] t
      by (fastforce simp: solver_resolve_def hm_get_insert split: option.splits BDTerm.splits)
  next
    case (Var w)
    then show ?thesis using Cons.IH [of result] t
      by (fastforce simp: solver_resolve_def split: option.splits BDTerm.splits)
  qed
qed

text \<open>The value a solution gives to a term; a variable it leaves out has none.\<close>

definition term_value :: "(BDVariable, BD) hmap \<Rightarrow> BDTerm \<Rightarrow> BD option" where
  "term_value sol tm = (case tm of Concrete bd \<Rightarrow> Some bd | Var v \<Rightarrow> hm_get sol v)"

lemma solver_new_ok: "solver_ok solver_new"
  by (simp add: solver_ok_def solver_new_def edges_def acyclic_def)

lemma term_value_collect:
  assumes "solver_ok s" and "collect_solution s (hm_keys (solver_subst s)) [] = Some sol"
  shows "term_value sol tm = (case substitute_term tm (solver_subst s) of Some (Concrete bd) \<Rightarrow> Some bd | _ \<Rightarrow> None)"
proof (cases tm)
  case (Var v)
  have get: "hm_get sol v = (case substitute_term (Var v) (solver_subst s) of
            Some (Concrete bd) \<Rightarrow> (if v \<in> set (hm_keys (solver_subst s)) then Some bd else None) | _ \<Rightarrow> None)"
    using collect_solution_spec [OF assms(1), of "hm_keys (solver_subst s)" "[]"] assms(2)
    by (auto split: option.splits BDTerm.splits)
  have "hm_get (solver_subst s) v \<noteq> None" if "substitute_term (Var v) (solver_subst s) = Some (Concrete bd)" for bd
    using that by (cases "hm_get (solver_subst s) v") auto
  then have "v \<in> set (hm_keys (solver_subst s))"
    if "substitute_term (Var v) (solver_subst s) = Some (Concrete bd)" for bd
    using that by (auto simp: map_of_eq_None_iff)
  then show ?thesis unfolding Var term_value_def BDTerm.case get
    by (auto split: option.split BDTerm.split)
qed (simp add: term_value_def)

section \<open>Properties\<close>

text \<open>
  C16: Solving always returns: whatever the constraints, the solver's substitution never becomes
  cyclic, so chasing variables ends and a solution or the list of errors comes back.
\<close>

theorem solve_terminates: "\<exists>r. solve_constraints cs = Some r"
proof -
  obtain s errors where a: "add_constraints solver_new cs = Some (s, errors)" "solver_ok s"
    using add_constraints_total [OF solver_new_ok] by blast
  then show ?thesis
    using collect_solution_spec [OF a(2), of "hm_keys (solver_subst s)" "[]"]
    by (auto simp: solve_constraints_def solve_def)
qed

text \<open>
  C11: In a solution the two sides of every equality constraint agree: both are left unsolved, or
  both have a value and these are equal or unify. Compatibility and subtyping constraints
  between two concrete descriptors hold.
\<close>

theorem solve_sound:
  assumes "solve_constraints cs = Some (Inr sol)" and "c \<in> set cs"
  shows "(tc_kind c = Equality \<longrightarrow> (case (term_value sol (tc_left c), term_value sol (tc_right c)) of
            (None, None) \<Rightarrow> True
          | (Some b1, Some b2) \<Rightarrow> b1 = b2 \<or> (\<exists>u. unify b1 b2 = Inr u)
          | _ \<Rightarrow> False))
    \<and> (\<forall>b1 b2. tc_left c = Concrete b1 \<and> tc_right c = Concrete b2 \<longrightarrow>
         (tc_kind c = Compatibility \<longrightarrow> bd_compatible b1 b2) \<and> (tc_kind c = Subtyping \<longrightarrow> bd_refines b1 b2))"
proof -
  obtain s errors where a: "add_constraints solver_new cs = Some (s, errors)" "solver_ok s"
      "errors = [] \<longrightarrow> (\<forall>c \<in> set cs. checked c
          \<and> (tc_kind c = Equality \<longrightarrow> agree_terms (solver_subst s) (tc_left c) (tc_right c)))"
    using add_constraints_total [OF solver_new_ok] by blast
  have sol: "errors = []" "collect_solution s (hm_keys (solver_subst s)) [] = Some sol"
    using assms(1) a(1) by (auto simp: solve_constraints_def solve_def split: if_splits)
  note tv = term_value_collect [OF a(2) sol(2)]
  show ?thesis
    using a(3) sol(1) assms(2) unfolding tv
    by (auto simp: checked_def agree_terms_def split: option.splits BDTerm.splits)
qed

abbreviation example_var :: BDVariable where
  "example_var \<equiv> \<lparr>var_id = 0, var_name = ''T''\<rparr>"

abbreviation example_bd :: "u64 \<Rightarrow> Capability set \<Rightarrow> BD" where
  "example_bd n cs \<equiv> bd_new (Byte n n) \<lparr>caps = cs, conditions = {}\<rparr> reld_empty"

abbreviation equal_to :: "BDTerm \<Rightarrow> BDTerm \<Rightarrow> TermConstraint" where
  "equal_to l r \<equiv> \<lparr>tc_left = l, tc_right = r, tc_kind = Equality\<rparr>"

lemma unify_terms_bind:
  "hm_get (solver_subst s) v = None \<Longrightarrow>
   unify_terms s (Var v) (Concrete bd) = Some (s\<lparr>solver_subst := hm_insert v (Concrete bd) (solver_subst s)\<rparr>, Inr ())"
  by (subst unify_terms.simps) (simp add: bind_step_unbound resolved_def)

lemma unify_terms_concrete:
  "unify_terms s (Concrete b1) (Concrete b2) = Some (s, if b1 = b2 then Inr () else map_ok (\<lambda>_. ()) (unify b1 b2))"
  by (subst unify_terms.simps) simp

lemmas solve_eval = solve_constraints_def solve_def add_constraint_def solver_resolve_def solver_new_def
  unify_terms_bind unify_terms_concrete

text \<open>
  Constraining one variable to two descriptors that unify keeps the first of them: the unified
  descriptor is computed and dropped, so the solution depends on the order of the constraints.
\<close>

lemma solve_keeps_first_binding:
  "solve_constraints [equal_to (Var example_var) (Concrete (example_bd 4 {Read, Write})),
                      equal_to (Var example_var) (Concrete (example_bd 4 {Read}))]
   = Some (Inr [(example_var, example_bd 4 {Read, Write})])"
  by (simp add: solve_eval unify_shape_eq bd_new_def unify_shape.simps unify_capd_def unify_reld_def meet_def
      merge_def is_consistent_iff reld_empty_def)

theorem solve_sound_witness:
  "\<exists>u. unify (example_bd 4 {Read, Write}) (example_bd 4 {Read}) = Inr u"
  using solve_sound [OF solve_keeps_first_binding, of "equal_to (Var example_var) (Concrete (example_bd 4 {Read}))"]
  by (auto simp: term_value_def bd_new_def)

text \<open>
  A compatibility constraint on a variable that is bound later is never checked: the solver accepts
  it although the documentation says that the check is deferred until the variable is bound.
\<close>

lemma solve_drops_deferred_check:
  "solve_constraints [\<lparr>tc_left = Var example_var, tc_right = Concrete (example_bd 8 {Read}), tc_kind = Compatibility\<rparr>,
                      equal_to (Var example_var) (Concrete (example_bd 4 {Read}))]
   = Some (Inr [(example_var, example_bd 4 {Read})])
   \<and> \<not> bd_compatible (example_bd 4 {Read}) (example_bd 8 {Read})"
  by (simp add: solve_eval check_compatibility_def bd_compatible_def bd_new_def compatible.simps)

section \<open>Collapsing and following chains\<close>

lemma collapse_step:
  assumes ac: "acyclic (edges sub)" and v: "hm_get sub v \<noteq> None" and t: "substitute_term (Var v) sub = Some t"
  shows "acyclic (edges (hm_insert v t sub))" and "substitute_term tm (hm_insert v t sub) = substitute_term tm sub"
proof -
  let ?sub' = "hm_insert v t sub"
  have res: "resolved sub t" using substitute_total [OF ac, of "Var v"] t by auto
  then have res': "resolved ?sub' t" using v by (auto simp: resolved_def hm_get_insert split: BDTerm.splits)
  show "acyclic (edges ?sub')"
  proof (cases t)
    case (Concrete bd)
    then have "edges ?sub' \<subseteq> edges sub" by (auto simp: edges_def hm_get_insert split: if_splits)
    then show ?thesis using ac acyclic_subset by blast
  next
    case (Var w)
    then have sub: "edges ?sub' \<subseteq> insert (v, w) (edges sub)"
      by (auto simp: edges_def hm_get_insert split: if_splits)
    have "(w, v) \<notin> (edges sub)\<^sup>*"
    proof
      assume "(w, v) \<in> (edges sub)\<^sup>*"
      then show False using res v Var by (cases rule: converse_rtranclE) (auto simp: edges_def resolved_def)
    qed
    then have "acyclic (insert (v, w) (edges sub))" using ac by (simp add: acyclic_insert)
    then show ?thesis using sub acyclic_subset by blast
  qed
  show "substitute_term tm ?sub' = substitute_term tm sub"
    using ac
  proof (induction tm rule: chase_induct)
    case (Unbound u)
    then have "hm_get ?sub' u = None" using v by (auto simp: hm_get_insert)
    with Unbound show ?case by simp
  next
    case (Bound u x)
    show ?case
    proof (cases "u = v")
      case True
      then have "hm_get ?sub' u = Some t" by (simp add: hm_get_insert)
      then show ?thesis using resolved_fixed [OF res'] t True by simp
    next
      case False
      then have "hm_get ?sub' u = Some x" using Bound by (simp add: hm_get_insert)
      then show ?thesis using Bound by simp
    qed
  qed simp
qed

lemma finalize_loop_spec:
  assumes "solver_ok s" and "set vars \<subseteq> set (hm_keys (solver_subst s))"
  shows "\<exists>s'. finalize_loop s vars = Some s' \<and> solver_ok s'
     \<and> set (hm_keys (solver_subst s')) = set (hm_keys (solver_subst s))
     \<and> (\<forall>tm. substitute_term tm (solver_subst s') = substitute_term tm (solver_subst s))
     \<and> (\<forall>v. hm_get (solver_subst s') v =
          (if v \<in> set vars then substitute_term (Var v) (solver_subst s) else hm_get (solver_subst s) v))"
  using assms
proof (induction vars arbitrary: s)
  case (Cons v vars)
  let ?sub = "solver_subst s"
  have ac: "acyclic (edges ?sub)" and ok: "hm_ok ?sub" using Cons.prems(1) by (simp_all add: solver_ok_def)
  have v: "hm_get ?sub v \<noteq> None" using Cons.prems(2) by (simp add: map_of_eq_None_iff)
  obtain t where t: "substitute_term (Var v) ?sub = Some t" using substitute_total [OF ac] by blast
  let ?s = "s\<lparr>solver_subst := hm_insert v t ?sub\<rparr>"
  note c = collapse_step [OF ac v t]
  have ok': "solver_ok ?s" using c(1) ok by (simp add: solver_ok_def hm_ok_insert)
  have keys: "set (hm_keys (hm_insert v t ?sub)) = set (hm_keys ?sub)"
    using Cons.prems(2) by (auto simp: dom_update)
  obtain s' where "finalize_loop ?s vars = Some s'" "solver_ok s'"
      "set (hm_keys (solver_subst s')) = set (hm_keys (hm_insert v t ?sub))"
      "\<forall>tm. substitute_term tm (solver_subst s') = substitute_term tm (hm_insert v t ?sub)"
      "\<forall>u. hm_get (solver_subst s') u =
          (if u \<in> set vars then substitute_term (Var u) (hm_insert v t ?sub) else hm_get (hm_insert v t ?sub) u)"
    using Cons.IH [OF ok'] Cons.prems(2) keys by auto
  then show ?case using t c(2) keys by (auto simp: solver_resolve_def hm_get_insert)
qed simp

text \<open>
  Finalizing returns, resolves every term as before, and leaves every variable mapped directly
  to a concrete descriptor or to an unbound variable.
\<close>

theorem finalize_collapses:
  assumes "solver_ok s"
  shows "\<exists>s'. finalize s = Some s' \<and> solver_ok s'
     \<and> (\<forall>tm. solver_resolve s' tm = solver_resolve s tm)
     \<and> (\<forall>v t. hm_get (solver_subst s') v = Some t \<longrightarrow>
          (case t of Concrete _ \<Rightarrow> True | Var w \<Rightarrow> hm_get (solver_subst s') w = None))"
proof -
  let ?sub = "solver_subst s"
  have ac: "acyclic (edges ?sub)" using assms by (simp add: solver_ok_def)
  obtain s' where f: "finalize s = Some s'" "solver_ok s'"
      "\<forall>tm. substitute_term tm (solver_subst s') = substitute_term tm ?sub"
      "\<forall>v. hm_get (solver_subst s') v =
          (if v \<in> set (hm_keys ?sub) then substitute_term (Var v) ?sub else hm_get ?sub v)"
    using finalize_loop_spec [OF assms, of "hm_keys ?sub"] unfolding finalize_def by blast
  have unbound: "hm_get (solver_subst s') w = None" if "hm_get ?sub w = None" for w
    using f(4) that by (simp add: map_of_eq_None_iff)
  have "case t of Concrete _ \<Rightarrow> True | Var w \<Rightarrow> hm_get (solver_subst s') w = None"
    if get: "hm_get (solver_subst s') v = Some t" for v t
  proof -
    have "v \<in> set (hm_keys ?sub)" using f(4) get by (metis map_of_eq_None_iff option.distinct(1) image_set)
    then have "resolved ?sub t" using f(4) get substitute_total [OF ac, of "Var v"] by auto
    then show ?thesis using unbound by (auto simp: resolved_def split: BDTerm.splits)
  qed
  then show ?thesis using f by (simp add: solver_resolve_def)
qed

theorem finalize_collapses_witness:
  "\<exists>s'. finalize \<lparr>solver_subst = [(\<lparr>var_id = 1, var_name = ''A''\<rparr>, Var \<lparr>var_id = 2, var_name = ''B''\<rparr>),
        (\<lparr>var_id = 2, var_name = ''B''\<rparr>, Concrete (example_bd 4 {Read}))]\<rparr> = Some s'"
proof -
  let ?s = "\<lparr>solver_subst = [(\<lparr>var_id = 1, var_name = ''A''\<rparr>, Var \<lparr>var_id = 2, var_name = ''B''\<rparr>),
        (\<lparr>var_id = 2, var_name = ''B''\<rparr>, Concrete (example_bd 4 {Read}))]\<rparr>"
  have "edges (solver_subst ?s) = {(\<lparr>var_id = 1, var_name = ''A''\<rparr>, \<lparr>var_id = 2, var_name = ''B''\<rparr>)}"
    by (auto simp: edges_def split: if_splits)
  moreover have "acyclic {(\<lparr>var_id = 1, var_name = ''A''\<rparr>, \<lparr>var_id = 2, var_name = ''B''\<rparr>)}"
    by (auto simp: acyclic_def trancl_insert)
  ultimately have "solver_ok ?s" by (simp add: solver_ok_def)
  from finalize_collapses [OF this] show ?thesis by blast
qed

lemma resolve_var_loop_sound:
  assumes "acyclic (edges sub)" and "inj_on var_id (Field (edges sub))"
    and "\<forall>i \<in> set visited. \<exists>u. var_id u = i \<and> (u, cur) \<in> (edges sub)\<^sup>+"
    and "resolve_var_loop fuel sub visited cur = Some t"
  shows "substitute_term (Var cur) sub = Some t"
  using assms(3,4)
proof (induction fuel arbitrary: visited cur)
  case (Suc fuel)
  have fresh: "var_id cur \<notin> set visited"
  proof
    assume "var_id cur \<in> set visited"
    then obtain u where u: "var_id u = var_id cur" "(u, cur) \<in> (edges sub)\<^sup>+" using Suc.prems(1) by blast
    then have "u \<in> Field (edges sub)" "cur \<in> Field (edges sub)"
      by (metis FieldI1 tranclD) (metis FieldI2 tranclD2 u(2))
    then have "u = cur" using u(1) assms(2) by (auto dest: inj_onD)
    then show False using u(2) assms(1) by (simp add: acyclic_def)
  qed
  show ?case
  proof (cases "hm_get sub cur")
    case (Some x)
    show ?thesis
    proof (cases x)
      case (Var w)
      then have e: "(cur, w) \<in> edges sub" using Some by (simp add: edges_def)
      have "\<forall>i \<in> set (var_id cur # visited). \<exists>u. var_id u = i \<and> (u, w) \<in> (edges sub)\<^sup>+"
        using Suc.prems(1) e by (auto intro: trancl_into_trancl)
      from Suc.IH [OF this] show ?thesis using Suc.prems(2) fresh Some Var by simp
    qed (use Suc.prems fresh Some in auto)
  qed (use Suc.prems fresh in auto)
qed simp

lemma resolve_var_loop_enough:
  assumes "set visited \<subseteq> var_id ` set (hm_keys sub)" and "card (var_id ` set (hm_keys sub)) < fuel + card (set visited)"
  shows "\<exists>t. resolve_var_loop fuel sub visited cur = Some t"
  using assms
proof (induction fuel arbitrary: visited cur)
  case 0
  then show ?case using card_mono [OF _ 0(1)] by simp
next
  case (Suc fuel)
  have "var_id cur \<in> var_id ` set (hm_keys sub)" if "hm_get sub cur \<noteq> None"
    using that by (simp add: map_of_eq_None_iff)
  then show ?case using Suc by (auto split: option.split BDTerm.split)
qed

text \<open>
  When no two variables of the chains share an id, following a bound variable with \<^verbatim>\<open>resolve_var\<close>
  returns, and returns what resolving the variable through the substitution returns. The fuel of
  the model, one more than the number of bindings, is always enough.
\<close>

theorem resolve_var_agrees:
  assumes "solver_ok s" and "inj_on var_id (Field (edges (solver_subst s)))" and "hm_get (solver_subst s) v \<noteq> None"
  shows "\<exists>t. resolve_var s v = Some t \<and> solver_resolve s (Var v) = Some t"
proof -
  let ?sub = "solver_subst s"
  have ac: "acyclic (edges ?sub)" using assms(1) by (simp add: solver_ok_def)
  have key: "v \<in> set (hm_keys ?sub)" using assms(3) by (simp add: map_of_eq_None_iff)
  obtain x where x: "hm_get ?sub v = Some x" using assms(3) by blast
  show ?thesis
  proof (cases x)
    case (Concrete bd)
    then show ?thesis using x by (simp add: resolve_var_def solver_resolve_def)
  next
    case (Var w)
    have "card (var_id ` set (hm_keys ?sub)) \<le> length ?sub"
      by (metis card_image_le card_length finite_set le_trans length_map)
    then obtain t where t: "resolve_var_loop (Suc (length ?sub)) ?sub [var_id v] w = Some t"
      using resolve_var_loop_enough [of "[var_id v]" ?sub "Suc (length ?sub)" w] key by auto
    moreover have "(v, w) \<in> (edges ?sub)\<^sup>+" using x Var by (auto simp: edges_def)
    ultimately have "substitute_term (Var w) ?sub = Some t"
      using resolve_var_loop_sound [OF ac assms(2) _ t] by auto
    then show ?thesis using x Var t by (simp add: resolve_var_def solver_resolve_def)
  qed
qed

theorem resolve_var_agrees_witness:
  "\<exists>t. resolve_var \<lparr>solver_subst = [(example_var, Concrete (example_bd 4 {Read}))]\<rparr> example_var = Some t"
proof -
  let ?s = "\<lparr>solver_subst = [(example_var, Concrete (example_bd 4 {Read}))]\<rparr>"
  have e: "edges (solver_subst ?s) = {}" by (auto simp: edges_def split: if_splits)
  then have "solver_ok ?s" "inj_on var_id (Field (edges (solver_subst ?s)))"
    by (simp_all add: solver_ok_def acyclic_def)
  from resolve_var_agrees [OF this, of example_var] show ?thesis by auto
qed

text \<open>
  Without the hypothesis on ids the two differ: variables are equal when id and name are, but the
  loop of \<^verbatim>\<open>resolve_var\<close> looks at ids only and stops at a second variable with the same id.
\<close>

lemma resolve_var_stops_at_equal_id:
  "let a = \<lparr>var_id = 0, var_name = ''a''\<rparr>; b = \<lparr>var_id = 0, var_name = ''b''\<rparr>;
       s = \<lparr>solver_subst = [(a, Var b), (b, Concrete (example_bd 4 {Read}))]\<rparr>
   in resolve_var s a = Some (Var b) \<and> solver_resolve s (Var a) = Some (Concrete (example_bd 4 {Read}))"
  by (simp add: resolve_var_def solver_resolve_def)

text \<open>
  Composing two acyclic substitutions can give a cyclic one, through which resolution does not end.
\<close>

lemma substitute_term_self_loop:
  assumes "hm_get sub v = Some (Var v)"
  shows "substitute_term (Var v) sub = None"
proof -
  have "\<not> (Var v = Var v \<and> sub = sub)" if "substitute_term (Var v) sub = Some y" for y
    using that
    by (rule substitute_term.raw_induct [where P = "\<lambda>tm sub' _. \<not> (tm = Var v \<and> sub' = sub)", rotated])
      (use assms in \<open>fastforce split: option.splits BDTerm.splits\<close>)
  then show ?thesis by (cases "substitute_term (Var v) sub") auto
qed

lemma compose_subst_cycle:
  "let a = \<lparr>var_id = 0, var_name = ''a''\<rparr>; b = \<lparr>var_id = 1, var_name = ''b''\<rparr>
   in compose_subst [(a, Var b)] [(b, Var a)] = Some [(a, Var a), (b, Var a)]
      \<and> substitute_term (Var a) [(a, Var a), (b, Var a)] = None"
  unfolding Let_def
proof
  show "substitute_term (Var \<lparr>var_id = 0, var_name = ''a''\<rparr>)
      [(\<lparr>var_id = 0, var_name = ''a''\<rparr>, Var \<lparr>var_id = 0, var_name = ''a''\<rparr>),
       (\<lparr>var_id = 1, var_name = ''b''\<rparr>, Var \<lparr>var_id = 0, var_name = ''a''\<rparr>)] = None"
    by (rule substitute_term_self_loop) simp
qed (simp add: compose_subst_def)

end
