(* ===== verification/Bd_Codec.thy ===== *)
theory Bd_Codec
  imports Vuma_Prelude
begin

text \<open>
  The primitives of the binary format: the helpers of \<^verbatim>\<open>src/src/bd/src/serialize.rs\<close> that read and
  write integers, strings, options, vectors and sets. A writer is the list of bytes it appends; a
  reader takes the bytes that are left and returns a value with the rest, or an error. The contract
  of a reader (it looks only at the bytes it consumes) and of a reader with its writer (they round-trip)
  are locales; the readers and writers of the component theories are built from these primitives.
\<close>

section \<open>Readers\<close>

datatype InvalidReason =
    InvalidUtf8
  | InvalidOptionTag u8
  | InvalidDiscriminant string u8
  | BadMagic bytes
  | UnsupportedVersion u32

text \<open>The only I/O error of a cursor over a byte slice is an unexpected end of the data.\<close>

datatype BinaryError = Io | InvalidData InvalidReason

type_synonym ('e, 'a) parser = "bytes \<Rightarrow> 'e + ('a \<times> bytes)"
type_synonym 'a reader = "(BinaryError, 'a) parser"

definition rreturn :: "'a \<Rightarrow> ('e, 'a) parser" where
  "rreturn x bs = Inr (x, bs)"

definition rfail :: "'e \<Rightarrow> ('e, 'a) parser" where
  "rfail e bs = Inl e"

text \<open>The \<^verbatim>\<open>?\<close> operator: stop at the first error.\<close>

definition rbind :: "('e, 'a) parser \<Rightarrow> ('a \<Rightarrow> ('e, 'b) parser) \<Rightarrow> ('e, 'b) parser" where
  "rbind r f bs = (case r bs of Inl e \<Rightarrow> Inl e | Inr (x, rest) \<Rightarrow> f x rest)"

definition read_exact :: "nat \<Rightarrow> bytes reader" where
  "read_exact n bs = (if n \<le> length bs then Inr (take n bs, drop n bs) else Inl Io)"

section \<open>Integers\<close>

fun le_bytes :: "nat \<Rightarrow> 'a::len word \<Rightarrow> bytes" where
  "le_bytes 0 v = []"
| "le_bytes (Suc n) v = ucast v # le_bytes n (drop_bit 8 v)"

fun of_le_bytes :: "bytes \<Rightarrow> 'a::len word" where
  "of_le_bytes [] = 0"
| "of_le_bytes (b # bs) = ucast b OR push_bit 8 (of_le_bytes bs)"

definition write_u8 :: "u8 \<Rightarrow> bytes" where
  "write_u8 v = [v]"

definition read_u8 :: "u8 reader" where
  "read_u8 = rbind (read_exact 1) (\<lambda>buf. rreturn (buf ! 0))"

definition write_u32 :: "u32 \<Rightarrow> bytes" where
  "write_u32 v = le_bytes 4 v"

definition read_u32 :: "u32 reader" where
  "read_u32 = rbind (read_exact 4) (\<lambda>buf. rreturn (of_le_bytes buf))"

definition write_u64 :: "u64 \<Rightarrow> bytes" where
  "write_u64 v = le_bytes 8 v"

definition read_u64 :: "u64 reader" where
  "read_u64 = rbind (read_exact 8) (\<lambda>buf. rreturn (of_le_bytes buf))"

definition write_bool :: "bool \<Rightarrow> bytes" where
  "write_bool v = write_u8 (if v then 1 else 0)"

definition read_bool :: "bool reader" where
  "read_bool = rbind read_u8 (\<lambda>b. rreturn (b \<noteq> 0))"

section \<open>Strings\<close>

text \<open>UTF-8 validity as \<^verbatim>\<open>String::from_utf8\<close> checks it, by the ranges of the Unicode standard.\<close>

definition utf8_cont :: "u8 \<Rightarrow> bool" where
  "utf8_cont b \<longleftrightarrow> 0x80 \<le> b \<and> b \<le> 0xBF"

definition utf8_second :: "u8 \<Rightarrow> u8 \<Rightarrow> bool" where
  "utf8_second a b =
     (if a = 0xE0 then 0xA0 \<le> b \<and> b \<le> 0xBF
      else if a = 0xED then 0x80 \<le> b \<and> b \<le> 0x9F
      else if a = 0xF0 then 0x90 \<le> b \<and> b \<le> 0xBF
      else if a = 0xF4 then 0x80 \<le> b \<and> b \<le> 0x8F
      else utf8_cont b)"

fun valid_utf8 :: "bytes \<Rightarrow> bool" where
  "valid_utf8 [] = True"
| "valid_utf8 (a # bs) =
     (if a < 0x80 then valid_utf8 bs
      else if 0xC2 \<le> a \<and> a \<le> 0xDF then
        (case bs of b # rest \<Rightarrow> utf8_cont b \<and> valid_utf8 rest | _ \<Rightarrow> False)
      else if 0xE0 \<le> a \<and> a \<le> 0xEF then
        (case bs of b # c # rest \<Rightarrow> utf8_second a b \<and> utf8_cont c \<and> valid_utf8 rest | _ \<Rightarrow> False)
      else if 0xF0 \<le> a \<and> a \<le> 0xF4 then
        (case bs of b # c # d # rest \<Rightarrow> utf8_second a b \<and> utf8_cont c \<and> utf8_cont d \<and> valid_utf8 rest | _ \<Rightarrow> False)
      else False)"

definition as_bytes :: "string \<Rightarrow> bytes" where
  "as_bytes s = map of_char s"

definition from_bytes :: "bytes \<Rightarrow> string" where
  "from_bytes bs = map (\<lambda>b. char_of (unat b)) bs"

definition write_string :: "string \<Rightarrow> bytes" where
  "write_string s = write_u32 (of_nat (length (as_bytes s))) @ as_bytes s"

definition read_string :: "string reader" where
  "read_string =
     rbind read_u32 (\<lambda>len.
     rbind (read_exact (unat len)) (\<lambda>buf.
       if valid_utf8 buf then rreturn (from_bytes buf) else rfail (InvalidData InvalidUtf8)))"

section \<open>Options, vectors and sets\<close>

definition write_opt :: "('a \<Rightarrow> bytes) \<Rightarrow> 'a option \<Rightarrow> bytes" where
  "write_opt wr opt = (case opt of None \<Rightarrow> write_u8 0 | Some v \<Rightarrow> write_u8 1 @ wr v)"

definition read_opt :: "'a reader \<Rightarrow> 'a option reader" where
  "read_opt rd =
     rbind read_u8 (\<lambda>tag.
       if tag = 0 then rreturn None
       else if tag = 1 then rbind rd (\<lambda>v. rreturn (Some v))
       else rfail (InvalidData (InvalidOptionTag tag)))"

definition write_vec :: "('a \<Rightarrow> bytes) \<Rightarrow> 'a list \<Rightarrow> bytes" where
  "write_vec wr v = write_u32 (of_nat (length v)) @ concat (map wr v)"

fun read_items :: "('e, 'a) parser \<Rightarrow> nat \<Rightarrow> ('e, 'a list) parser" where
  "read_items rd 0 = rreturn []"
| "read_items rd (Suc n) = rbind rd (\<lambda>x. rbind (read_items rd n) (\<lambda>xs. rreturn (x # xs)))"

definition read_vec :: "'a reader \<Rightarrow> 'a list reader" where
  "read_vec rd = rbind read_u32 (\<lambda>len. read_items rd (unat len))"

text \<open>
  A set is written in its iteration order, which is a parameter, and read back by inserting the
  elements one by one.
\<close>

definition write_hashset :: "('a set \<Rightarrow> 'a list) \<Rightarrow> ('a \<Rightarrow> bytes) \<Rightarrow> 'a set \<Rightarrow> bytes" where
  "write_hashset iter wr s = write_u32 (of_nat (card s)) @ concat (map wr (iter s))"

definition read_hashset :: "'a reader \<Rightarrow> 'a set reader" where
  "read_hashset rd =
     rbind read_u32 (\<lambda>len. rbind (read_items rd (unat len)) (\<lambda>xs. rreturn (fold insert xs {})))"

lemma write_vec_cong [fundef_cong]:
  "xs = ys \<Longrightarrow> (\<And>x. x \<in> set ys \<Longrightarrow> wr x = wr' x) \<Longrightarrow> write_vec wr xs = write_vec wr' ys"
  unfolding write_vec_def by (metis map_cong)

section \<open>The contract of a reader\<close>

text \<open>
  A successful read consumes a prefix of the input, and would have given the same value whatever
  followed that prefix.
\<close>

locale reader =
  fixes rd :: "('e, 'a) parser"
  assumes consumes: "rd bs = Inr (x, rest) \<Longrightarrow> \<exists>used. bs = used @ rest \<and> (\<forall>ext. rd (used @ ext) = Inr (x, ext))"
begin

lemma shrinks: "rd bs = Inr (x, rest) \<Longrightarrow> length rest \<le> length bs"
  using consumes by fastforce

lemma extension: "rd bs = Inr (x, rest) \<Longrightarrow> rd (bs @ ext) = Inr (x, rest @ ext)"
  using consumes by fastforce

end

text \<open>A reader with the writer it inverts, on the values the format can represent.\<close>

locale codec = reader rd for rd :: "('e, 'a) parser" +
  fixes wr :: "'a \<Rightarrow> bytes" and ok :: "'a \<Rightarrow> bool"
  assumes roundtrip: "ok x \<Longrightarrow> rd (wr x @ rest) = Inr (x, rest)"
begin

lemma prefix_free: "ok x \<Longrightarrow> ok y \<Longrightarrow> wr x @ p = wr y @ q \<Longrightarrow> x = y \<and> p = q"
  by (metis roundtrip Inr_inject prod.inject)

lemma truncated:
  assumes "ok x" and "wr x = p @ q" and "q \<noteq> []"
  shows "\<exists>e. rd p = Inl e"
proof (cases "rd p")
  case (Inr r)
  then obtain y rest where "rd p = Inr (y, rest)" by (cases r) auto
  then have "rd (p @ q) = Inr (y, rest @ q)" by (rule extension)
  moreover have "rd (p @ q) = Inr (x, [])" using roundtrip [OF assms(1), of "[]"] assms(2) by simp
  ultimately show ?thesis using assms(3) by simp
qed simp

lemma items_roundtrip: "list_all ok xs \<Longrightarrow> read_items rd (length xs) (concat (map wr xs) @ rest) = Inr (xs, rest)"
  by (induction xs) (simp_all add: rbind_def rreturn_def roundtrip)

end

lemma rbind_Inr: "rbind r f bs = Inr y \<longleftrightarrow> (\<exists>x rest. r bs = Inr (x, rest) \<and> f x rest = Inr y)"
  by (auto simp: rbind_def split: sum.splits)

lemma reader_rreturn: "reader (rreturn x)"
  by unfold_locales (auto simp: rreturn_def)

lemma reader_rfail: "reader (rfail e)"
  by unfold_locales (auto simp: rfail_def)

lemma reader_rbind:
  assumes "reader r" and "\<And>x. reader (f x)"
  shows "reader (rbind r f)"
proof
  fix bs y rest
  assume "rbind r f bs = Inr (y, rest)"
  then obtain x mid where r: "r bs = Inr (x, mid)" and f: "f x mid = Inr (y, rest)"
    by (auto simp: rbind_Inr)
  obtain u where u: "bs = u @ mid" "\<And>ext. r (u @ ext) = Inr (x, ext)"
    using reader.consumes [OF assms(1) r] by blast
  obtain v where v: "mid = v @ rest" "\<And>ext. f x (v @ ext) = Inr (y, ext)"
    using reader.consumes [OF assms(2) f] by blast
  have "bs = (u @ v) @ rest \<and> (\<forall>ext. rbind r f ((u @ v) @ ext) = Inr (y, ext))"
    by (simp add: u v rbind_def)
  then show "\<exists>used. bs = used @ rest \<and> (\<forall>ext. rbind r f (used @ ext) = Inr (y, ext))" by blast
qed

lemma reader_if: "(b \<Longrightarrow> reader r) \<Longrightarrow> (\<not> b \<Longrightarrow> reader r') \<Longrightarrow> reader (if b then r else r')"
  by simp

lemma reader_read_exact: "reader (read_exact n)"
proof
  fix bs x rest
  assume "read_exact n bs = Inr (x, rest)"
  then have "bs = take n bs @ rest \<and> (\<forall>ext. read_exact n (take n bs @ ext) = Inr (x, ext))"
    by (auto simp: read_exact_def split: if_splits)
  then show "\<exists>used. bs = used @ rest \<and> (\<forall>ext. read_exact n (used @ ext) = Inr (x, ext))" by blast
qed

lemmas reader_intros = reader_rreturn reader_rfail reader_rbind reader_if reader_read_exact

lemma reader_u8: "reader read_u8" unfolding read_u8_def by (intro reader_intros)
lemma reader_u32: "reader read_u32" unfolding read_u32_def by (intro reader_intros)
lemma reader_u64: "reader read_u64" unfolding read_u64_def by (intro reader_intros)
lemma reader_bool: "reader read_bool" unfolding read_bool_def by (intro reader_intros reader_u8)
lemma reader_string: "reader read_string" unfolding read_string_def by (intro reader_intros reader_u32)
lemma reader_opt: "reader rd \<Longrightarrow> reader (read_opt rd)"
  unfolding read_opt_def by (intro reader_intros reader_u8)
lemma reader_items: "reader rd \<Longrightarrow> reader (read_items rd n)"
  by (induction n) (simp_all add: reader_intros)
lemma reader_vec: "reader rd \<Longrightarrow> reader (read_vec rd)"
  unfolding read_vec_def by (intro reader_intros reader_u32 reader_items)
lemma reader_hashset: "reader rd \<Longrightarrow> reader (read_hashset rd)"
  unfolding read_hashset_def by (intro reader_intros reader_u32 reader_items)

lemmas reader_prims = reader_u8 reader_u32 reader_u64 reader_bool reader_string reader_opt
  reader_vec reader_hashset

section \<open>Recursive readers\<close>

text \<open>Two readers that agree on all inputs up to a length.\<close>

definition agree_upto :: "nat \<Rightarrow> ('e, 'a) parser \<Rightarrow> ('e, 'a) parser \<Rightarrow> bool" where
  "agree_upto n f g \<longleftrightarrow> (\<forall>bs. length bs \<le> n \<longrightarrow> f bs = g bs)"

lemma agree_refl: "agree_upto n f f"
  by (simp add: agree_upto_def)

lemma agree_rbind:
  assumes "reader r" and "agree_upto n r r'" and "\<And>x. agree_upto n (f x) (f' x)"
  shows "agree_upto n (rbind r f) (rbind r' f')"
  unfolding agree_upto_def
proof (intro allI impI)
  fix bs :: bytes assume len: "length bs \<le> n"
  show "rbind r f bs = rbind r' f' bs"
  proof (cases "r bs")
    case (Inr p)
    then have "length (snd p) \<le> n" using reader.shrinks [OF assms(1), of bs "fst p" "snd p"] len by simp
    then show ?thesis using Inr assms(2,3) len by (cases p) (simp add: agree_upto_def rbind_def)
  next
    case (Inl e)
    then show ?thesis using assms(2) len by (simp add: agree_upto_def rbind_def)
  qed
qed

lemma agree_if: "agree_upto n r s \<Longrightarrow> agree_upto n r' s' \<Longrightarrow> agree_upto n (if b then r else r') (if b then s else s')"
  by simp

lemma agree_items: "reader rd \<Longrightarrow> agree_upto n rd rd' \<Longrightarrow> agree_upto n (read_items rd k) (read_items rd' k)"
  by (induction k) (auto intro!: agree_rbind agree_refl reader_items)

text \<open>
  A reader that calls itself on what follows its first bytes. The depth of the recursion is bounded by the number of bytes
  left; a body that fails on the empty input and consumes a byte before each recursive call never reaches the bound.
\<close>

primrec read_fuel :: "(('e, 'a) parser \<Rightarrow> ('e, 'a) parser) \<Rightarrow> 'e \<Rightarrow> nat \<Rightarrow> ('e, 'a) parser" where
  "read_fuel body stop 0 = rfail stop"
| "read_fuel body stop (Suc n) = body (read_fuel body stop n)"

definition read_rec :: "(('e, 'a) parser \<Rightarrow> ('e, 'a) parser) \<Rightarrow> 'e \<Rightarrow> ('e, 'a) parser" where
  "read_rec body stop bs = read_fuel body stop (length bs) bs"

locale recursive_reader =
  fixes body :: "('e, 'a) parser \<Rightarrow> ('e, 'a) parser" and stop :: 'e
  assumes body_reader: "reader rd \<Longrightarrow> reader (body rd)"
    and body_agree: "reader rd \<Longrightarrow> agree_upto n rd rd' \<Longrightarrow> agree_upto (Suc n) (body rd) (body rd')"
    and body_empty: "body rd [] = Inl stop"
begin

lemma reader_fuel: "reader (read_fuel body stop n)"
  by (induction n) (simp_all add: reader_rfail body_reader)

lemma fuel_agree: "k \<le> m \<Longrightarrow> k \<le> n \<Longrightarrow> agree_upto k (read_fuel body stop m) (read_fuel body stop n)"
proof (induction k arbitrary: m n)
  case 0
  have "read_fuel body stop j [] = Inl stop" for j
    by (cases j) (simp_all add: rfail_def body_empty)
  then show ?case by (simp add: agree_upto_def)
next
  case (Suc k)
  then obtain m' n' where "m = Suc m'" "n = Suc n'" by (metis Suc_le_D)
  then show ?case using Suc by (simp add: body_agree reader_fuel)
qed

lemma fuel_enough: "length bs \<le> n \<Longrightarrow> read_fuel body stop n bs = read_rec body stop bs"
  using fuel_agree [of "length bs" n "length bs"] by (simp add: agree_upto_def read_rec_def)

lemma unfold: "read_rec body stop bs = body (read_rec body stop) bs"
proof (cases bs)
  case Nil
  then show ?thesis by (simp add: read_rec_def rfail_def body_empty)
next
  case (Cons b rest)
  have "agree_upto (length rest) (read_fuel body stop (length rest)) (read_rec body stop)"
    by (simp add: agree_upto_def fuel_enough)
  then have "agree_upto (Suc (length rest)) (body (read_fuel body stop (length rest))) (body (read_rec body stop))"
    by (rule body_agree [OF reader_fuel])
  then show ?thesis by (simp add: Cons read_rec_def agree_upto_def)
qed

lemma reader_rec: "reader (read_rec body stop)"
proof
  fix bs x rest
  assume rd: "read_rec body stop bs = Inr (x, rest)"
  obtain used where bs: "bs = used @ rest"
    and any: "\<And>ext. read_fuel body stop (length bs) (used @ ext) = Inr (x, ext)"
    using reader.consumes [OF reader_fuel, of "length bs" bs x rest] rd by (auto simp: read_rec_def)
  have "read_rec body stop (used @ ext) = Inr (x, ext)" for ext
  proof -
    let ?n = "max (length bs) (length (used @ ext))"
    have "read_fuel body stop ?n bs = Inr (x, rest)" using rd fuel_enough [of bs ?n] by simp
    then obtain u where u: "bs = u @ rest" "\<And>ext. read_fuel body stop ?n (u @ ext) = Inr (x, ext)"
      using reader.consumes [OF reader_fuel] by blast
    then show ?thesis using bs fuel_enough [of "used @ ext" ?n] by simp
  qed
  then show "\<exists>used. bs = used @ rest \<and> (\<forall>ext. read_rec body stop (used @ ext) = Inr (x, ext))" using bs by blast
qed

end

section \<open>Round trips of the primitives\<close>

lemma length_le_bytes [simp]: "length (le_bytes n v) = n"
  by (induction n arbitrary: v) auto

lemma of_le_bytes_le_bytes: "of_le_bytes (le_bytes n v) = take_bit (8 * n) v"
proof (induction n arbitrary: v)
  case (Suc n)
  have "(of_le_bytes (le_bytes (Suc n) v) :: 'a word) = ucast (ucast v :: u8) OR push_bit 8 (take_bit (8 * n) (drop_bit 8 v))"
    by (simp add: Suc)
  also have "\<dots> = take_bit (8 * Suc n) v"
    by (rule bit_word_eqI) (auto simp: bit_simps)
  finally show ?case .
qed simp

lemma rbind_read_exact:
  "length xs = n \<Longrightarrow> rbind (read_exact n) f (xs @ rest) = f xs rest"
  by (simp add: rbind_def read_exact_def)

lemma read_u8_write [simp]: "read_u8 (write_u8 v @ rest) = Inr (v, rest)"
  by (simp add: read_u8_def write_u8_def rbind_def read_exact_def rreturn_def)

lemma read_u8_Cons [simp]: "read_u8 (v # rest) = Inr (v, rest)"
  using read_u8_write [of v rest] by (simp add: write_u8_def)

lemma read_u8_Nil [simp]: "read_u8 [] = Inl Io"
  by (simp add: read_u8_def rbind_def read_exact_def)

lemma read_u32_write [simp]: "read_u32 (write_u32 v @ rest) = Inr (v, rest)"
  by (simp add: read_u32_def write_u32_def rbind_read_exact rreturn_def of_le_bytes_le_bytes take_bit_word_eq_self)

lemma read_u64_write [simp]: "read_u64 (write_u64 v @ rest) = Inr (v, rest)"
  by (simp add: read_u64_def write_u64_def rbind_read_exact rreturn_def of_le_bytes_le_bytes take_bit_word_eq_self)

lemma read_bool_write [simp]: "read_bool (write_bool v @ rest) = Inr (v, rest)"
  by (simp add: read_bool_def write_bool_def rbind_def rreturn_def)

definition string_ok :: "string \<Rightarrow> bool" where
  "string_ok s \<longleftrightarrow> length s < 2 ^ 32 \<and> valid_utf8 (as_bytes s)"

lemma from_bytes_as_bytes [simp]: "from_bytes (as_bytes s) = s"
proof -
  have "char_of (unat (of_char c :: u8)) = c" for c
  proof -
    have "unat (of_nat (of_char c) :: u8) = of_char c"
      by (simp add: unat_of_nat del: of_nat_of_char)
    then show ?thesis by (simp add: of_nat_of_char)
  qed
  then show ?thesis by (simp add: from_bytes_def as_bytes_def comp_def)
qed

lemma read_string_write [simp]: "string_ok s \<Longrightarrow> read_string (write_string s @ rest) = Inr (s, rest)"
proof -
  assume ok: "string_ok s"
  have len: "length (as_bytes s) = length s" by (simp add: as_bytes_def)
  have "unat (of_nat (length s) :: u32) = length s"
    using ok by (simp add: string_ok_def unat_of_nat)
  then show ?thesis using ok
    by (simp add: read_string_def write_string_def rbind_def read_exact_def len rreturn_def string_ok_def)
qed

text \<open>What can be written is a predicate of its own, since lengths are stored in 32 bits.\<close>

definition vec_ok :: "('a \<Rightarrow> bool) \<Rightarrow> 'a list \<Rightarrow> bool" where
  "vec_ok ok xs \<longleftrightarrow> length xs < 2 ^ 32 \<and> list_all ok xs"

definition set_ok :: "('a \<Rightarrow> bool) \<Rightarrow> 'a set \<Rightarrow> bool" where
  "set_ok ok S \<longleftrightarrow> finite S \<and> card S < 2 ^ 32 \<and> (\<forall>x \<in> S. ok x)"

text \<open>What the model assumes of the iteration order of a set: it visits every element once.\<close>

definition iterates :: "('a set \<Rightarrow> 'a list) \<Rightarrow> bool" where
  "iterates iter \<longleftrightarrow> (\<forall>S. finite S \<longrightarrow> distinct (iter S) \<and> set (iter S) = S)"

lemma unat_len: "n < 2 ^ 32 \<Longrightarrow> unat (of_nat n :: u32) = n"
  by (simp add: unat_of_nat)

text \<open>A codec of this format, with its options, vectors and sets.\<close>

locale bin_codec = codec rd wr ok for rd :: "'a reader" and wr :: "'a \<Rightarrow> bytes" and ok :: "'a \<Rightarrow> bool"
begin

lemma vec_roundtrip: "vec_ok ok xs \<Longrightarrow> read_vec rd (write_vec wr xs @ rest) = Inr (xs, rest)"
  by (simp add: read_vec_def write_vec_def vec_ok_def rbind_def unat_len items_roundtrip)

lemma opt_roundtrip: "pred_option ok v \<Longrightarrow> read_opt rd (write_opt wr v @ rest) = Inr (v, rest)"
  by (cases v) (simp_all add: read_opt_def write_opt_def rbind_def rreturn_def roundtrip)

lemma hashset_roundtrip:
  assumes "iterates iter" and "set_ok ok S"
  shows "read_hashset rd (write_hashset iter wr S @ rest) = Inr (S, rest)"
proof -
  have it: "distinct (iter S)" "set (iter S) = S" using assms by (auto simp: iterates_def set_ok_def)
  then have "length (iter S) = card S" by (metis distinct_card)
  moreover have "list_all ok (iter S)" using assms(2) it by (simp add: set_ok_def list_all_iff)
  moreover have "fold insert xs A = set xs \<union> A" for xs :: "'a list" and A by (induction xs arbitrary: A) auto
  ultimately show ?thesis using assms(2) it
    by (simp add: read_hashset_def write_hashset_def rbind_def rreturn_def set_ok_def unat_len
        items_roundtrip [of "iter S", simplified \<open>length (iter S) = card S\<close>])
qed

lemma codec_vec: "bin_codec (read_vec rd) (write_vec wr) (vec_ok ok)"
  by (intro bin_codec.intro codec.intro codec_axioms.intro reader_vec vec_roundtrip) unfold_locales

lemma codec_opt: "bin_codec (read_opt rd) (write_opt wr) (pred_option ok)"
  by (intro bin_codec.intro codec.intro codec_axioms.intro reader_opt opt_roundtrip) unfold_locales

lemma codec_hashset: "iterates iter \<Longrightarrow> bin_codec (read_hashset rd) (write_hashset iter wr) (set_ok ok)"
  by (intro bin_codec.intro codec.intro codec_axioms.intro reader_hashset hashset_roundtrip) unfold_locales

end

interpretation u8: bin_codec read_u8 write_u8 "\<lambda>_. True"
  by (intro bin_codec.intro codec.intro codec_axioms.intro reader_u8) simp

interpretation u32: bin_codec read_u32 write_u32 "\<lambda>_. True"
  by (intro bin_codec.intro codec.intro codec_axioms.intro reader_u32) simp

interpretation u64: bin_codec read_u64 write_u64 "\<lambda>_. True"
  by (intro bin_codec.intro codec.intro codec_axioms.intro reader_u64) simp

interpretation str: bin_codec read_string write_string string_ok
  by (intro bin_codec.intro codec.intro codec_axioms.intro reader_string) simp

lemmas codec_steps = rbind_def rreturn_def rfail_def

end
