(* ===== verification/Bd_Serialize.thy ===== *)
theory Bd_Serialize
  imports Bd_Codec Bd_Descriptor
begin

text \<open>
  The binary format of behavioral descriptors: the \<^verbatim>\<open>BinaryWrite\<close> and \<^verbatim>\<open>BinaryRead\<close> implementations and the
  entry points of \<^verbatim>\<open>src/src/bd/src/serialize.rs\<close>. The iteration orders of the three kinds of
  hash sets are parameters of the writers. Reading a representation recurses into its parts; the model
  bounds the depth of the recursion by the number of bytes left, and the theory shows that this
  bound is never what ends a read, that what is written is read back, and that a truncated or
  foreign input is refused.
\<close>

section \<open>Capabilities and relations\<close>

record iter_order =
  it_caps :: "Capability set \<Rightarrow> Capability list"
  it_conds :: "Condition set \<Rightarrow> Condition list"
  it_rels :: "Relation set \<Rightarrow> Relation list"

text \<open>
  A reader of a fieldless enum: the discriminant selects from the list of the variants.
\<close>

definition read_variant :: "string \<Rightarrow> 'a list \<Rightarrow> 'a reader" where
  "read_variant type_name variants =
     rbind read_u8 (\<lambda>tag.
       if unat tag < length variants then rreturn (variants ! unat tag)
       else rfail (InvalidData (InvalidDiscriminant type_name tag)))"

fun write_capability :: "Capability \<Rightarrow> bytes" where
  "write_capability Read = write_u8 0"
| "write_capability Write = write_u8 1"
| "write_capability Execute = write_u8 2"
| "write_capability Iterate = write_u8 3"
| "write_capability Send = write_u8 4"
| "write_capability Persist = write_u8 5"
| "write_capability Serialize = write_u8 6"
| "write_capability Deserialize = write_u8 7"
| "write_capability Hash = write_u8 8"
| "write_capability Compare = write_u8 9"
| "write_capability DerivePtr = write_u8 10"
| "write_capability Cast = write_u8 11"
| "write_capability Fork = write_u8 12"
| "write_capability Drop = write_u8 13"
| "write_capability Share = write_u8 14"
| "write_capability Move = write_u8 15"
| "write_capability Pin = write_u8 16"
| "write_capability StateRead = write_u8 17"
| "write_capability StateWrite = write_u8 18"
| "write_capability StateTransform = write_u8 19"
| "write_capability StateConsume = write_u8 20"

definition read_capability :: "Capability reader" where
  "read_capability = read_variant ''Capability''
     [Read, Write, Execute, Iterate, Send, Persist, Serialize, Deserialize, Hash, Compare,
      DerivePtr, Cast, Fork, Drop, Share, Move, Pin, StateRead, StateWrite, StateTransform, StateConsume]"

fun write_condition :: "Condition \<Rightarrow> bytes" where
  "write_condition (InPhase i) = write_u8 0 @ write_u64 i"
| "write_condition (AfterOp i) = write_u8 1 @ write_u64 i"
| "write_condition (BeforeOp i) = write_u8 2 @ write_u64 i"
| "write_condition (NotConcurrentWith i) = write_u8 3 @ write_u64 i"
| "write_condition (RequiresLock i) = write_u8 4 @ write_u64 i"
| "write_condition (SecurityLevel lvl) = write_u8 5 @ write_u8 lvl"
| "write_condition (ValidDuring i) = write_u8 6 @ write_u64 i"

definition read_condition :: "Condition reader" where
  "read_condition =
     rbind read_u8 (\<lambda>tag.
       if tag = 0 then rbind read_u64 (\<lambda>i. rreturn (InPhase i))
       else if tag = 1 then rbind read_u64 (\<lambda>i. rreturn (AfterOp i))
       else if tag = 2 then rbind read_u64 (\<lambda>i. rreturn (BeforeOp i))
       else if tag = 3 then rbind read_u64 (\<lambda>i. rreturn (NotConcurrentWith i))
       else if tag = 4 then rbind read_u64 (\<lambda>i. rreturn (RequiresLock i))
       else if tag = 5 then rbind read_u8 (\<lambda>lvl. rreturn (SecurityLevel lvl))
       else if tag = 6 then rbind read_u64 (\<lambda>i. rreturn (ValidDuring i))
       else rfail (InvalidData (InvalidDiscriminant ''Condition'' tag)))"

definition write_capd :: "iter_order \<Rightarrow> CapD \<Rightarrow> bytes" where
  "write_capd it c = write_hashset (it_caps it) write_capability (caps c)
                   @ write_hashset (it_conds it) write_condition (conditions c)"

definition read_capd :: "CapD reader" where
  "read_capd =
     rbind (read_hashset read_capability) (\<lambda>cs.
     rbind (read_hashset read_condition) (\<lambda>conds.
       rreturn \<lparr>caps = cs, conditions = conds\<rparr>))"

fun write_temporal_kind :: "TemporalKind \<Rightarrow> bytes" where
  "write_temporal_kind Outlives = write_u8 0"
| "write_temporal_kind Coincides = write_u8 1"
| "write_temporal_kind Precedes = write_u8 2"
| "write_temporal_kind Succeeds = write_u8 3"
| "write_temporal_kind EpochBefore = write_u8 4"
| "write_temporal_kind EpochAfter = write_u8 5"

definition read_temporal_kind :: "TemporalKind reader" where
  "read_temporal_kind = read_variant ''TemporalKind'' [Outlives, Coincides, Precedes, Succeeds, EpochBefore, EpochAfter]"

fun write_dep_kind :: "DepKind \<Rightarrow> bytes" where
  "write_dep_kind DataDep = write_u8 0"
| "write_dep_kind ControlDep = write_u8 1"
| "write_dep_kind AliasDep = write_u8 2"

definition read_dep_kind :: "DepKind reader" where
  "read_dep_kind = read_variant ''DepKind'' [DataDep, ControlDep, AliasDep]"

fun write_flow_policy :: "FlowPolicy \<Rightarrow> bytes" where
  "write_flow_policy NoDowngrade = write_u8 0"
| "write_flow_policy NoCrossBoundary = write_u8 1"
| "write_flow_policy Sanitized = write_u8 2"

definition read_flow_policy :: "FlowPolicy reader" where
  "read_flow_policy = read_variant ''FlowPolicy'' [NoDowngrade, NoCrossBoundary, Sanitized]"

fun write_relation :: "Relation \<Rightarrow> bytes" where
  "write_relation (Temporal k) = write_u8 0 @ write_temporal_kind k"
| "write_relation Containment = write_u8 1"
| "write_relation (Dependency k) = write_u8 2 @ write_dep_kind k"
| "write_relation Equivalence = write_u8 3"
| "write_relation (Security p) = write_u8 4 @ write_flow_policy p"
| "write_relation Liveness = write_u8 5"

definition read_relation :: "Relation reader" where
  "read_relation =
     rbind read_u8 (\<lambda>tag.
       if tag = 0 then rbind read_temporal_kind (\<lambda>k. rreturn (Temporal k))
       else if tag = 1 then rreturn Containment
       else if tag = 2 then rbind read_dep_kind (\<lambda>k. rreturn (Dependency k))
       else if tag = 3 then rreturn Equivalence
       else if tag = 4 then rbind read_flow_policy (\<lambda>p. rreturn (Security p))
       else if tag = 5 then rreturn Liveness
       else rfail (InvalidData (InvalidDiscriminant ''Relation'' tag)))"

definition write_reld :: "iter_order \<Rightarrow> RelD \<Rightarrow> bytes" where
  "write_reld it r = write_hashset (it_rels it) write_relation (relations r)"

definition read_reld :: "RelD reader" where
  "read_reld = rbind (read_hashset read_relation) (\<lambda>rs. rreturn \<lparr>relations = rs\<rparr>)"

section \<open>Representations\<close>

fun write_curve :: "SpaceFillingCurve \<Rightarrow> bytes" where
  "write_curve ZOrder = write_u8 0"
| "write_curve Hilbert = write_u8 1"
| "write_curve RowMajor = write_u8 2"

definition read_curve :: "SpaceFillingCurve reader" where
  "read_curve = read_variant ''SpaceFillingCurve'' [ZOrder, Hilbert, RowMajor]"

definition write_byte_rep :: "u64 \<Rightarrow> u64 \<Rightarrow> bytes" where
  "write_byte_rep sz align = write_u64 sz @ write_u64 align"

definition read_byte_rep :: "RepD reader" where
  "read_byte_rep = rbind read_u64 (\<lambda>sz. rbind read_u64 (\<lambda>align. rreturn (Byte sz align)))"

text \<open>The readers and writers of compound parts take those of a nested representation.\<close>

definition write_offset_repd :: "(RepD \<Rightarrow> bytes) \<Rightarrow> u64 \<times> RepD \<Rightarrow> bytes" where
  "write_offset_repd wr pair = write_u64 (fst pair) @ wr (snd pair)"

definition read_offset_repd :: "RepD reader \<Rightarrow> (u64 \<times> RepD) reader" where
  "read_offset_repd rd = rbind read_u64 (\<lambda>off. rbind rd (\<lambda>rep. rreturn (off, rep)))"

definition write_struct_rep :: "(RepD \<Rightarrow> bytes) \<Rightarrow> (u64 \<times> RepD) list \<Rightarrow> u64 \<Rightarrow> u64 \<Rightarrow> bytes" where
  "write_struct_rep wr fs total_size align =
     write_u32 (of_nat (length fs)) @ concat (map (write_offset_repd wr) fs) @ write_u64 total_size @ write_u64 align"

definition read_struct_rep :: "RepD reader \<Rightarrow> RepD reader" where
  "read_struct_rep rd =
     rbind read_u32 (\<lambda>len.
     rbind (read_items (read_offset_repd rd) (unat len)) (\<lambda>fs.
     rbind read_u64 (\<lambda>total_size.
     rbind read_u64 (\<lambda>align.
       rreturn (Struct fs total_size align)))))"

definition write_array_rep :: "(RepD \<Rightarrow> bytes) \<Rightarrow> RepD \<Rightarrow> u64 \<Rightarrow> bytes" where
  "write_array_rep wr element count = wr element @ write_u64 count"

definition read_array_rep :: "RepD reader \<Rightarrow> RepD reader" where
  "read_array_rep rd = rbind rd (\<lambda>element. rbind read_u64 (\<lambda>count. rreturn (Array element count)))"

definition write_enum_rep :: "(RepD \<Rightarrow> bytes) \<Rightarrow> (u64 \<times> RepD) list \<Rightarrow> bytes" where
  "write_enum_rep wr variants =
     write_u32 (of_nat (length variants)) @ concat (map (write_offset_repd wr) variants)"

definition read_enum_rep :: "RepD reader \<Rightarrow> RepD reader" where
  "read_enum_rep rd =
     rbind read_u32 (\<lambda>len.
     rbind (read_items (read_offset_repd rd) (unat len)) (\<lambda>variants.
       rreturn (Enum variants)))"

definition write_ptr_rep :: "(RepD \<Rightarrow> bytes) \<Rightarrow> RepD \<Rightarrow> bytes" where
  "write_ptr_rep wr pointee = wr pointee"

definition read_ptr_rep :: "RepD reader \<Rightarrow> RepD reader" where
  "read_ptr_rep rd = rbind rd (\<lambda>pointee. rreturn (Ptr pointee))"

definition write_union_rep :: "(RepD \<Rightarrow> bytes) \<Rightarrow> RepD list \<Rightarrow> u64 \<Rightarrow> u64 \<Rightarrow> bytes" where
  "write_union_rep wr alternatives max_size max_align =
     write_vec wr alternatives @ write_u64 max_size @ write_u64 max_align"

definition read_union_rep :: "RepD reader \<Rightarrow> RepD reader" where
  "read_union_rep rd =
     rbind (read_vec rd) (\<lambda>alternatives.
     rbind read_u64 (\<lambda>max_size.
     rbind read_u64 (\<lambda>max_align.
       rreturn (Union alternatives max_size max_align))))"

definition write_func_rep :: "(RepD \<Rightarrow> bytes) \<Rightarrow> RepD list \<Rightarrow> RepD \<Rightarrow> bytes" where
  "write_func_rep wr params result = write_vec wr params @ wr result"

definition read_func_rep :: "RepD reader \<Rightarrow> RepD reader" where
  "read_func_rep rd = rbind (read_vec rd) (\<lambda>params. rbind rd (\<lambda>result. rreturn (Func params result)))"

definition write_manifold_rep :: "ManifoldSpatialRep \<Rightarrow> bytes" where
  "write_manifold_rep m =
     write_u32 (ms_dimensions m)
     @ write_u32 (of_nat (length (ms_dim_sizes m))) @ concat (map write_u64 (ms_dim_sizes m))
     @ write_u64 (ms_element_size m) @ write_curve (ms_curve m) @ write_u32 (ms_order m)
     @ write_u64 (ms_total_bytes m)"

definition read_manifold_rep :: "ManifoldSpatialRep reader" where
  "read_manifold_rep =
     rbind read_u32 (\<lambda>dimensions.
     rbind read_u32 (\<lambda>dlen.
     rbind (read_items read_u64 (unat dlen)) (\<lambda>dim_sizes.
     rbind read_u64 (\<lambda>element_size.
     rbind read_curve (\<lambda>curve.
     rbind read_u32 (\<lambda>order.
     rbind read_u64 (\<lambda>total_bytes.
       rreturn \<lparr>ms_dimensions = dimensions, ms_dim_sizes = dim_sizes, ms_element_size = element_size,
                ms_curve = curve, ms_order = order, ms_total_bytes = total_bytes\<rparr>)))))))"

definition write_gestalt_rep :: "GestaltSuperpositionRep \<Rightarrow> bytes" where
  "write_gestalt_rep g =
     write_vec write_string (gs_variants g) @ write_u64 (gs_max_size g) @ write_u64 (gs_max_align g)
     @ write_bool (gs_degraded g) @ write_opt write_u64 (gs_tag_offset g)"

definition read_gestalt_rep :: "GestaltSuperpositionRep reader" where
  "read_gestalt_rep =
     rbind (read_vec read_string) (\<lambda>variants.
     rbind read_u64 (\<lambda>max_size.
     rbind read_u64 (\<lambda>max_align.
     rbind read_bool (\<lambda>degraded.
     rbind (read_opt read_u64) (\<lambda>tag_offset.
       rreturn \<lparr>gs_variants = variants, gs_max_size = max_size, gs_max_align = max_align,
                gs_degraded = degraded, gs_tag_offset = tag_offset\<rparr>)))))"

definition write_name_offset :: "string \<times> u64 \<Rightarrow> bytes" where
  "write_name_offset p = write_string (fst p) @ write_u64 (snd p)"

definition read_name_offset :: "(string \<times> u64) reader" where
  "read_name_offset = rbind read_string (\<lambda>name. rbind read_u64 (\<lambda>off. rreturn (name, off)))"

definition write_concept_rep :: "ConceptRelationalRep \<Rightarrow> bytes" where
  "write_concept_rep c =
     write_vec write_string (cr_field_names c)
     @ write_u32 (of_nat (length (cr_field_offsets c))) @ concat (map write_name_offset (cr_field_offsets c))
     @ write_u64 (cr_total_size c) @ write_u64 (cr_align c) @ write_bool (cr_use_soa c)"

definition read_concept_rep :: "ConceptRelationalRep reader" where
  "read_concept_rep =
     rbind (read_vec read_string) (\<lambda>field_names.
     rbind read_u32 (\<lambda>flen.
     rbind (read_items read_name_offset (unat flen)) (\<lambda>field_offsets.
     rbind read_u64 (\<lambda>total_size.
     rbind read_u64 (\<lambda>align.
     rbind read_bool (\<lambda>use_soa.
       rreturn \<lparr>cr_field_names = field_names, cr_field_offsets = field_offsets,
                cr_total_size = total_size, cr_align = align, cr_use_soa = use_soa\<rparr>))))))"

lemma write_struct_rep_cong [fundef_cong]:
  "fs = gs \<Longrightarrow> (\<And>p. p \<in> set gs \<Longrightarrow> wr (snd p) = wr' (snd p)) \<Longrightarrow> t = t' \<Longrightarrow> a = a'
   \<Longrightarrow> write_struct_rep wr fs t a = write_struct_rep wr' gs t' a'"
  unfolding write_struct_rep_def write_offset_repd_def by (simp cong: map_cong)

lemma write_enum_rep_cong [fundef_cong]:
  "fs = gs \<Longrightarrow> (\<And>p. p \<in> set gs \<Longrightarrow> wr (snd p) = wr' (snd p)) \<Longrightarrow> write_enum_rep wr fs = write_enum_rep wr' gs"
  unfolding write_enum_rep_def write_offset_repd_def by (simp cong: map_cong)

lemma write_rep_congs [fundef_cong]:
  "e = e' \<Longrightarrow> wr e' = wr' e' \<Longrightarrow> c = c' \<Longrightarrow> write_array_rep wr e c = write_array_rep wr' e' c'"
  "e = e' \<Longrightarrow> wr e' = wr' e' \<Longrightarrow> write_ptr_rep wr e = write_ptr_rep wr' e'"
  "xs = ys \<Longrightarrow> (\<And>x. x \<in> set ys \<Longrightarrow> wr x = wr' x) \<Longrightarrow> m = m' \<Longrightarrow> a = a'
   \<Longrightarrow> write_union_rep wr xs m a = write_union_rep wr' ys m' a'"
  "xs = ys \<Longrightarrow> (\<And>x. x \<in> set ys \<Longrightarrow> wr x = wr' x) \<Longrightarrow> e = e' \<Longrightarrow> wr e' = wr' e'
   \<Longrightarrow> write_func_rep wr xs e = write_func_rep wr' ys e'"
  by (simp_all add: write_array_rep_def write_ptr_rep_def write_union_rep_def write_func_rep_def cong: write_vec_cong)

fun write_repd :: "iter_order \<Rightarrow> RepD \<Rightarrow> bytes"
  and write_constraint :: "iter_order \<Rightarrow> BDConstraint \<Rightarrow> bytes"
where
  "write_repd it (Byte sz align) = write_u8 0 @ write_byte_rep sz align"
| "write_repd it (Struct fs total_size align) = write_u8 1 @ write_struct_rep (write_repd it) fs total_size align"
| "write_repd it (Array element count) = write_u8 2 @ write_array_rep (write_repd it) element count"
| "write_repd it (Enum variants) = write_u8 3 @ write_enum_rep (write_repd it) variants"
| "write_repd it (Ptr pointee) = write_u8 4 @ write_ptr_rep (write_repd it) pointee"
| "write_repd it (Union alternatives max_size max_align) =
     write_u8 5 @ write_union_rep (write_repd it) alternatives max_size max_align"
| "write_repd it (Func params result) = write_u8 6 @ write_func_rep (write_repd it) params result"
| "write_repd it (ManifoldSpatial m) = write_u8 7 @ write_manifold_rep m"
| "write_repd it (GestaltSuperposition g) = write_u8 8 @ write_gestalt_rep g"
| "write_repd it (ConceptRelational c) = write_u8 9 @ write_concept_rep c"
| "write_repd it (Generic name constraints) =
     write_u8 10 @ write_string name @ write_vec (write_constraint it) constraints"
| "write_repd it (State layout) = write_u8 11 @ write_u32 layout"
| "write_repd it (Ref layout field) = write_u8 12 @ write_u32 layout @ write_u32 field"
| "write_repd it (DependentArray elem count_var) = write_u8 13 @ write_repd it elem @ write_string count_var"
| "write_constraint it (CapDAtLeast capd) = write_u8 0 @ write_capd it capd"
| "write_constraint it (RepDCompatibleWith repd) = write_u8 1 @ write_repd it repd"
| "write_constraint it (RelDContains reld) = write_u8 2 @ write_reld it reld"

definition read_constraint :: "RepD reader \<Rightarrow> BDConstraint reader" where
  "read_constraint rd =
     rbind read_u8 (\<lambda>tag.
       if tag = 0 then rbind read_capd (\<lambda>capd. rreturn (CapDAtLeast capd))
       else if tag = 1 then rbind rd (\<lambda>repd. rreturn (RepDCompatibleWith repd))
       else if tag = 2 then rbind read_reld (\<lambda>reld. rreturn (RelDContains reld))
       else rfail (InvalidData (InvalidDiscriminant ''BDConstraint'' tag)))"

definition read_repd_body :: "RepD reader \<Rightarrow> RepD reader" where
  "read_repd_body rd =
     rbind read_u8 (\<lambda>tag.
       if tag = 0 then read_byte_rep
       else if tag = 1 then read_struct_rep rd
       else if tag = 2 then read_array_rep rd
       else if tag = 3 then read_enum_rep rd
       else if tag = 4 then read_ptr_rep rd
       else if tag = 5 then read_union_rep rd
       else if tag = 6 then read_func_rep rd
       else if tag = 7 then rbind read_manifold_rep (\<lambda>m. rreturn (ManifoldSpatial m))
       else if tag = 8 then rbind read_gestalt_rep (\<lambda>g. rreturn (GestaltSuperposition g))
       else if tag = 9 then rbind read_concept_rep (\<lambda>c. rreturn (ConceptRelational c))
       else if tag = 10 then
         rbind read_string (\<lambda>name. rbind (read_vec (read_constraint rd)) (\<lambda>constraints.
           rreturn (Generic name constraints)))
       else if tag = 11 then rbind read_u32 (\<lambda>layout. rreturn (State layout))
       else if tag = 12 then rbind read_u32 (\<lambda>layout. rbind read_u32 (\<lambda>field. rreturn (Ref layout field)))
       else if tag = 13 then rbind rd (\<lambda>elem. rbind read_string (\<lambda>count_var. rreturn (DependentArray elem count_var)))
       else rfail (InvalidData (InvalidDiscriminant ''RepD'' tag)))"

text \<open>
  The recursion, cut off at a depth. Every level reads at least its discriminant, so a depth of the
  number of bytes left is never exceeded: at depth 0 no byte is left and the read ends with \<open>Io\<close> anyway.
\<close>

primrec read_repd_fuel :: "nat \<Rightarrow> RepD reader" where
  "read_repd_fuel 0 = rfail Io"
| "read_repd_fuel (Suc n) = read_repd_body (read_repd_fuel n)"

definition read_repd :: "RepD reader" where
  "read_repd bs = read_repd_fuel (length bs) bs"

section \<open>Descriptors and the file format\<close>

definition write_bd :: "iter_order \<Rightarrow> BD \<Rightarrow> bytes" where
  "write_bd it bd = write_repd it (bd_repd bd) @ write_capd it (bd_capd bd) @ write_reld it (bd_reld bd)"

definition read_bd :: "BD reader" where
  "read_bd =
     rbind read_repd (\<lambda>repd.
     rbind read_capd (\<lambda>capd.
     rbind read_reld (\<lambda>reld.
       rreturn \<lparr>bd_repd = repd, bd_capd = capd, bd_reld = reld\<rparr>)))"

definition MAGIC :: bytes where
  "MAGIC = [0x56, 0x42, 0x44, 0]"

definition VERSION :: u32 where
  "VERSION = 1"

definition serialize_bd :: "iter_order \<Rightarrow> BD \<Rightarrow> bytes" where
  "serialize_bd it bd = MAGIC @ write_u32 VERSION @ write_bd it bd"

definition deserialize_bd :: "bytes \<Rightarrow> BinaryError + BD" where
  "deserialize_bd data =
     map_ok fst
       (rbind (read_exact 4) (\<lambda>magic.
          if magic \<noteq> MAGIC then rfail (InvalidData (BadMagic magic))
          else rbind read_u32 (\<lambda>version.
            if version \<noteq> VERSION then rfail (InvalidData (UnsupportedVersion version))
            else read_bd)) data)"

section \<open>The depth bound\<close>

lemma reader_variant: "reader (read_variant n vs)"
  unfolding read_variant_def by (intro reader_intros reader_prims)

lemma reader_capability: "reader read_capability"
  unfolding read_capability_def by (rule reader_variant)

lemma reader_condition: "reader read_condition"
  unfolding read_condition_def by (intro reader_intros reader_prims)

lemma reader_capd: "reader read_capd"
  unfolding read_capd_def by (intro reader_intros reader_prims reader_capability reader_condition)

lemma reader_relation: "reader read_relation"
  unfolding read_relation_def read_temporal_kind_def read_dep_kind_def read_flow_policy_def
  by (intro reader_intros reader_prims reader_variant)

lemma reader_reld: "reader read_reld"
  unfolding read_reld_def by (intro reader_intros reader_prims reader_relation)

lemma reader_manifold_rep: "reader read_manifold_rep"
  unfolding read_manifold_rep_def read_curve_def by (intro reader_intros reader_prims reader_items reader_variant)

lemma reader_gestalt_rep: "reader read_gestalt_rep"
  unfolding read_gestalt_rep_def by (intro reader_intros reader_prims)

lemma reader_name_offset: "reader read_name_offset"
  unfolding read_name_offset_def by (intro reader_intros reader_prims)

lemma reader_concept_rep: "reader read_concept_rep"
  unfolding read_concept_rep_def by (intro reader_intros reader_prims reader_items reader_name_offset)

lemma reader_offset_repd: "reader rd \<Longrightarrow> reader (read_offset_repd rd)"
  unfolding read_offset_repd_def by (intro reader_intros reader_prims)

lemma reader_constraint: "reader rd \<Longrightarrow> reader (read_constraint rd)"
  unfolding read_constraint_def by (intro reader_intros reader_prims reader_capd reader_reld)

lemmas repd_part_defs = read_byte_rep_def read_struct_rep_def read_array_rep_def read_enum_rep_def
  read_ptr_rep_def read_union_rep_def read_func_rep_def

lemma reader_repd_body: "reader rd \<Longrightarrow> reader (read_repd_body rd)"
  unfolding read_repd_body_def repd_part_defs
  by (intro reader_intros reader_prims reader_items reader_offset_repd reader_constraint
      reader_manifold_rep reader_gestalt_rep reader_concept_rep)

lemma reader_repd_fuel: "reader (read_repd_fuel n)"
  by (induction n) (simp_all add: reader_rfail reader_repd_body)

lemma agree_vec: "reader rd \<Longrightarrow> agree_upto n rd rd' \<Longrightarrow> agree_upto n (read_vec rd) (read_vec rd')"
  unfolding read_vec_def by (intro agree_rbind agree_refl agree_items reader_prims)

lemma agree_offset_repd: "reader rd \<Longrightarrow> agree_upto n rd rd' \<Longrightarrow> agree_upto n (read_offset_repd rd) (read_offset_repd rd')"
  unfolding read_offset_repd_def by (intro agree_rbind agree_refl reader_prims)

lemma agree_constraint: "reader rd \<Longrightarrow> agree_upto n rd rd' \<Longrightarrow> agree_upto n (read_constraint rd) (read_constraint rd')"
  unfolding read_constraint_def by (intro agree_rbind agree_if agree_refl reader_prims reader_capd reader_reld)

lemma agree_tag:
  assumes "\<And>t. agree_upto n (f t) (g t)"
  shows "agree_upto (Suc n) (rbind read_u8 f) (rbind read_u8 g)"
  unfolding agree_upto_def
proof (intro allI impI)
  fix bs :: bytes assume "length bs \<le> Suc n"
  then show "rbind read_u8 f bs = rbind read_u8 g bs"
    using assms by (cases bs) (simp_all add: rbind_def agree_upto_def)
qed

lemma agree_repd_body:
  "reader rd \<Longrightarrow> agree_upto n rd rd' \<Longrightarrow> agree_upto (Suc n) (read_repd_body rd) (read_repd_body rd')"
  unfolding read_repd_body_def repd_part_defs
  by (intro agree_tag agree_if agree_rbind agree_refl agree_items agree_vec agree_offset_repd agree_constraint
      reader_prims reader_items reader_offset_repd reader_constraint
      reader_manifold_rep reader_gestalt_rep reader_concept_rep)

lemma read_repd_body_empty: "read_repd_body rd [] = Inl Io"
  by (simp add: read_repd_body_def rbind_def)

interpretation repd: recursive_reader read_repd_body Io
  by (rule recursive_reader.intro) (simp_all add: reader_repd_body agree_repd_body read_repd_body_empty)

lemma repd_fuel_rec: "read_repd_fuel n = read_fuel read_repd_body Io n"
  by (induction n) simp_all

lemma read_repd_rec: "read_repd = read_rec read_repd_body Io"
  by (rule ext) (simp add: read_repd_def read_rec_def repd_fuel_rec)

lemma repd_fuel_enough: "length bs \<le> n \<Longrightarrow> read_repd_fuel n bs = read_repd bs"
  unfolding repd_fuel_rec read_repd_rec by (rule repd.fuel_enough)

lemma read_repd_unfold: "read_repd bs = read_repd_body read_repd bs"
  unfolding read_repd_rec by (rule repd.unfold)

lemma reader_repd: "reader read_repd"
  unfolding read_repd_rec by (rule repd.reader_rec)

section \<open>Round trips\<close>

definition order_ok :: "iter_order \<Rightarrow> bool" where
  "order_ok it \<longleftrightarrow> iterates (it_caps it) \<and> iterates (it_conds it) \<and> iterates (it_rels it)"

definition capd_ok :: "CapD \<Rightarrow> bool" where
  "capd_ok c \<longleftrightarrow> set_ok (\<lambda>_. True) (caps c) \<and> set_ok (\<lambda>_. True) (conditions c)"

definition reld_ok :: "RelD \<Rightarrow> bool" where
  "reld_ok r \<longleftrightarrow> set_ok (\<lambda>_. True) (relations r)"

interpretation capability: bin_codec read_capability write_capability "\<lambda>_. True"
proof (intro bin_codec.intro codec.intro codec_axioms.intro reader_capability)
  fix c rest
  show "read_capability (write_capability c @ rest) = Inr (c, rest)"
    by (cases c) (simp_all add: read_capability_def read_variant_def codec_steps)
qed

interpretation condition: bin_codec read_condition write_condition "\<lambda>_. True"
proof (intro bin_codec.intro codec.intro codec_axioms.intro reader_condition)
  fix c rest
  show "read_condition (write_condition c @ rest) = Inr (c, rest)"
    by (cases c) (simp_all add: read_condition_def codec_steps)
qed

interpretation relation: bin_codec read_relation write_relation "\<lambda>_. True"
proof (intro bin_codec.intro codec.intro codec_axioms.intro reader_relation)
  fix r rest
  have "read_temporal_kind (write_temporal_kind k @ rest) = Inr (k, rest)"
    and "read_dep_kind (write_dep_kind d @ rest) = Inr (d, rest)"
    and "read_flow_policy (write_flow_policy p @ rest) = Inr (p, rest)" for k d p
    by (cases k; cases d; cases p;
        simp add: read_temporal_kind_def read_dep_kind_def read_flow_policy_def read_variant_def codec_steps)+
  then show "read_relation (write_relation r @ rest) = Inr (r, rest)"
    by (cases r) (simp_all add: read_relation_def codec_steps)
qed

lemma capd_roundtrip: "order_ok it \<Longrightarrow> capd_ok c \<Longrightarrow> read_capd (write_capd it c @ rest) = Inr (c, rest)"
  by (simp add: read_capd_def write_capd_def order_ok_def capd_ok_def codec_steps
      capability.hashset_roundtrip condition.hashset_roundtrip)

lemma reld_roundtrip: "order_ok it \<Longrightarrow> reld_ok r \<Longrightarrow> read_reld (write_reld it r @ rest) = Inr (r, rest)"
  by (simp add: read_reld_def write_reld_def order_ok_def reld_ok_def codec_steps relation.hashset_roundtrip)

definition manifold_ok :: "ManifoldSpatialRep \<Rightarrow> bool" where
  "manifold_ok m \<longleftrightarrow> length (ms_dim_sizes m) < 2 ^ 32"

definition gestalt_ok :: "GestaltSuperpositionRep \<Rightarrow> bool" where
  "gestalt_ok g \<longleftrightarrow> vec_ok string_ok (gs_variants g)"

definition concept_ok :: "ConceptRelationalRep \<Rightarrow> bool" where
  "concept_ok c \<longleftrightarrow> vec_ok string_ok (cr_field_names c)
     \<and> length (cr_field_offsets c) < 2 ^ 32 \<and> list_all (\<lambda>p. string_ok (fst p)) (cr_field_offsets c)"

lemma manifold_roundtrip: "manifold_ok m \<Longrightarrow> read_manifold_rep (write_manifold_rep m @ rest) = Inr (m, rest)"
proof -
  assume ok: "manifold_ok m"
  have "read_curve (write_curve c @ rest) = Inr (c, rest)" for c rest
    by (cases c) (simp_all add: read_curve_def read_variant_def codec_steps)
  moreover have "read_items read_u64 (length xs) (concat (map write_u64 xs) @ rest) = Inr (xs, rest)" for xs rest
    by (rule u64.items_roundtrip) (simp add: list_all_iff)
  ultimately show ?thesis using ok
    by (simp add: read_manifold_rep_def write_manifold_rep_def manifold_ok_def codec_steps unat_len)
qed

lemma gestalt_roundtrip: "gestalt_ok g \<Longrightarrow> read_gestalt_rep (write_gestalt_rep g @ rest) = Inr (g, rest)"
proof -
  assume ok: "gestalt_ok g"
  have "read_opt read_u64 (write_opt write_u64 v @ rest) = Inr (v, rest)" for v rest
    by (rule u64.opt_roundtrip) (simp add: option.pred_True)
  then show ?thesis using ok
    by (simp add: read_gestalt_rep_def write_gestalt_rep_def gestalt_ok_def codec_steps str.vec_roundtrip)
qed

interpretation name_offset: bin_codec read_name_offset write_name_offset "\<lambda>p. string_ok (fst p)"
  by (intro bin_codec.intro codec.intro codec_axioms.intro reader_name_offset)
    (simp add: read_name_offset_def write_name_offset_def codec_steps)

lemma concept_roundtrip: "concept_ok c \<Longrightarrow> read_concept_rep (write_concept_rep c @ rest) = Inr (c, rest)"
  by (simp add: read_concept_rep_def write_concept_rep_def concept_ok_def codec_steps unat_len
      str.vec_roundtrip name_offset.items_roundtrip)

text \<open>The representations the format can hold: lengths fit 32 bits, strings are valid UTF-8.\<close>

fun repd_ok :: "RepD \<Rightarrow> bool" and constraint_ok :: "BDConstraint \<Rightarrow> bool" where
  "repd_ok (Byte sz align) = True"
| "repd_ok (Struct fs total_size align) = (length fs < 2 ^ 32 \<and> (\<forall>p \<in> set fs. repd_ok (snd p)))"
| "repd_ok (Array element count) = repd_ok element"
| "repd_ok (Enum variants) = (length variants < 2 ^ 32 \<and> (\<forall>p \<in> set variants. repd_ok (snd p)))"
| "repd_ok (Ptr pointee) = repd_ok pointee"
| "repd_ok (Union alternatives max_size max_align) =
     (length alternatives < 2 ^ 32 \<and> (\<forall>x \<in> set alternatives. repd_ok x))"
| "repd_ok (Func params result) = (length params < 2 ^ 32 \<and> (\<forall>x \<in> set params. repd_ok x) \<and> repd_ok result)"
| "repd_ok (ManifoldSpatial m) = manifold_ok m"
| "repd_ok (GestaltSuperposition g) = gestalt_ok g"
| "repd_ok (ConceptRelational c) = concept_ok c"
| "repd_ok (Generic name constraints) =
     (string_ok name \<and> length constraints < 2 ^ 32 \<and> (\<forall>c \<in> set constraints. constraint_ok c))"
| "repd_ok (State layout) = True"
| "repd_ok (Ref layout field) = True"
| "repd_ok (DependentArray elem count_var) = (repd_ok elem \<and> string_ok count_var)"
| "constraint_ok (CapDAtLeast capd) = capd_ok capd"
| "constraint_ok (RepDCompatibleWith repd) = repd_ok repd"
| "constraint_ok (RelDContains reld) = reld_ok reld"

text \<open>The values on which reading inverts writing; they form a codec by construction.\<close>

definition repd_rt :: "iter_order \<Rightarrow> RepD \<Rightarrow> bool" where
  "repd_rt it r \<longleftrightarrow> (\<forall>rest. read_repd (write_repd it r @ rest) = Inr (r, rest))"

definition constraint_rt :: "iter_order \<Rightarrow> BDConstraint \<Rightarrow> bool" where
  "constraint_rt it c \<longleftrightarrow> (\<forall>rest. read_constraint read_repd (write_constraint it c @ rest) = Inr (c, rest))"

lemma codec_repd: "codec read_repd (write_repd it) (repd_rt it)"
  by (intro codec.intro codec_axioms.intro reader_repd) (simp add: repd_rt_def)

lemma codec_constraint: "codec (read_constraint read_repd) (write_constraint it) (constraint_rt it)"
  by (intro codec.intro codec_axioms.intro reader_constraint reader_repd) (simp add: constraint_rt_def)

lemma codec_offset_repd:
  "codec (read_offset_repd read_repd) (write_offset_repd (write_repd it)) (\<lambda>p. repd_rt it (snd p))"
  by (intro codec.intro codec_axioms.intro reader_offset_repd reader_repd)
    (simp add: read_offset_repd_def write_offset_repd_def repd_rt_def codec_steps)

lemmas repd_items = codec.items_roundtrip [OF codec_offset_repd]
lemmas repd_vec = bin_codec.vec_roundtrip [OF bin_codec.intro [OF codec_repd]]
lemmas constraint_vec = bin_codec.vec_roundtrip [OF bin_codec.intro [OF codec_constraint]]

lemma repd_rtI: "(\<And>rest. read_repd (write_repd it r @ rest) = Inr (r, rest)) \<Longrightarrow> repd_rt it r"
  by (simp add: repd_rt_def)

lemma repd_rtD: "repd_rt it r \<Longrightarrow> read_repd (write_repd it r @ rest) = Inr (r, rest)"
  by (simp add: repd_rt_def)

lemma read_repd_tag:
  "read_repd (write_u8 t @ bs) =
     (if t = 0 then read_byte_rep bs
      else if t = 1 then read_struct_rep read_repd bs
      else if t = 2 then read_array_rep read_repd bs
      else if t = 3 then read_enum_rep read_repd bs
      else if t = 4 then read_ptr_rep read_repd bs
      else if t = 5 then read_union_rep read_repd bs
      else if t = 6 then read_func_rep read_repd bs
      else if t = 7 then rbind read_manifold_rep (\<lambda>m. rreturn (ManifoldSpatial m)) bs
      else if t = 8 then rbind read_gestalt_rep (\<lambda>g. rreturn (GestaltSuperposition g)) bs
      else if t = 9 then rbind read_concept_rep (\<lambda>c. rreturn (ConceptRelational c)) bs
      else if t = 10 then
        rbind read_string (\<lambda>name. rbind (read_vec (read_constraint read_repd)) (\<lambda>constraints.
          rreturn (Generic name constraints))) bs
      else if t = 11 then rbind read_u32 (\<lambda>layout. rreturn (State layout)) bs
      else if t = 12 then rbind read_u32 (\<lambda>layout. rbind read_u32 (\<lambda>field. rreturn (Ref layout field))) bs
      else if t = 13 then rbind read_repd (\<lambda>elem. rbind read_string (\<lambda>count_var. rreturn (DependentArray elem count_var))) bs
      else rfail (InvalidData (InvalidDiscriminant ''RepD'' t)) bs)"
  by (subst read_repd_unfold) (simp add: read_repd_body_def rbind_def)

lemma repd_roundtrip:
  assumes "order_ok it"
  shows "repd_ok r \<Longrightarrow> repd_rt it r" and "constraint_ok c \<Longrightarrow> constraint_rt it c"
proof (induction r and c rule: repd_ok_constraint_ok.induct)
  case (2 fs total_size align)
  then have "list_all (\<lambda>p. repd_rt it (snd p)) fs" by (simp add: list_all_iff)
  then show ?case using 2(2)
    by (intro repd_rtI) (simp add: read_repd_tag read_struct_rep_def write_struct_rep_def codec_steps unat_len repd_items)
next
  case (4 variants)
  then have "list_all (\<lambda>p. repd_rt it (snd p)) variants" by (simp add: list_all_iff)
  then show ?case using 4(2)
    by (intro repd_rtI) (simp add: read_repd_tag read_enum_rep_def write_enum_rep_def codec_steps unat_len repd_items)
next
  case (6 alternatives max_size max_align)
  then have "vec_ok (repd_rt it) alternatives" by (simp add: vec_ok_def list_all_iff)
  then show ?case
    by (intro repd_rtI) (simp add: read_repd_tag read_union_rep_def write_union_rep_def codec_steps repd_vec)
next
  case (7 params result)
  then have "vec_ok (repd_rt it) params" "repd_rt it result" by (simp_all add: vec_ok_def list_all_iff)
  then show ?case
    by (intro repd_rtI) (simp add: read_repd_tag read_func_rep_def write_func_rep_def codec_steps repd_vec repd_rtD)
next
  case (11 name constraints)
  then have "vec_ok (constraint_rt it) constraints" by (simp add: vec_ok_def list_all_iff)
  then show ?case using 11(2)
    by (intro repd_rtI) (simp add: read_repd_tag codec_steps constraint_vec)
next
  case (15 capd)
  then show ?case using assms
    by (simp add: constraint_rt_def read_constraint_def codec_steps capd_roundtrip)
next
  case (16 repd)
  then show ?case
    by (simp add: constraint_rt_def read_constraint_def codec_steps repd_rtD)
next
  case (17 reld)
  then show ?case using assms
    by (simp add: constraint_rt_def read_constraint_def codec_steps reld_roundtrip)
qed (auto intro!: repd_rtI simp: read_repd_tag codec_steps read_byte_rep_def write_byte_rep_def read_array_rep_def
    write_array_rep_def read_ptr_rep_def write_ptr_rep_def repd_rtD manifold_roundtrip gestalt_roundtrip concept_roundtrip)

section \<open>The file format\<close>

definition bd_ok :: "BD \<Rightarrow> bool" where
  "bd_ok bd \<longleftrightarrow> repd_ok (bd_repd bd) \<and> capd_ok (bd_capd bd) \<and> reld_ok (bd_reld bd)"

lemma codec_bd: "order_ok it \<Longrightarrow> codec read_bd (write_bd it) bd_ok"
  by (intro codec.intro codec_axioms.intro)
    (simp_all add: read_bd_def write_bd_def bd_ok_def codec_steps capd_roundtrip reld_roundtrip
      repd_roundtrip repd_rtD reader_rbind reader_repd reader_capd reader_reld reader_rreturn)

text \<open>The header and the payload are one codec, of which \<open>deserialize_bd\<close> forgets the rest.\<close>

definition read_file :: "BD reader" where
  "read_file =
     rbind (read_exact 4) (\<lambda>magic.
       if magic \<noteq> MAGIC then rfail (InvalidData (BadMagic magic))
       else rbind read_u32 (\<lambda>version.
         if version \<noteq> VERSION then rfail (InvalidData (UnsupportedVersion version)) else read_bd))"

lemma deserialize_read_file: "deserialize_bd data = map_ok fst (read_file data)"
  by (simp add: deserialize_bd_def read_file_def)

lemma codec_file:
  assumes "order_ok it"
  shows "codec read_file (serialize_bd it) bd_ok"
proof (intro codec.intro codec_axioms.intro)
  show "reader read_file"
    unfolding read_file_def
    by (intro reader_intros reader_prims codec.axioms(1) [OF codec_bd [OF assms]])
  fix bd rest assume "bd_ok bd"
  then show "read_file (serialize_bd it bd @ rest) = Inr (bd, rest)"
    using codec.roundtrip [OF codec_bd [OF assms]]
    by (simp add: read_file_def serialize_bd_def codec_steps read_exact_def MAGIC_def)
qed

section \<open>An iteration order\<close>

text \<open>
  The sets are over linearly ordered types, so that visiting the elements in increasing order is one
  of the orders the theorems range over.
\<close>

instantiation Capability :: linorder
begin

definition less_eq_Capability :: "Capability \<Rightarrow> Capability \<Rightarrow> bool" where
  "less_eq_Capability a b \<longleftrightarrow> unat (hd (write_capability a)) \<le> unat (hd (write_capability b))"

definition less_Capability :: "Capability \<Rightarrow> Capability \<Rightarrow> bool" where
  "less_Capability a b \<longleftrightarrow> unat (hd (write_capability a)) < unat (hd (write_capability b))"

instance
proof
  fix a b :: Capability
  show "a = b" if "a \<le> b" "b \<le> a"
  proof -
    have "hd (write_capability a) = hd (write_capability b)"
      using that by (simp add: less_eq_Capability_def word_unat_eq_iff)
    moreover have "write_capability c = [hd (write_capability c)]" for c
      by (cases c) (simp_all add: write_u8_def)
    ultimately have "write_capability a = write_capability b" by metis
    then show ?thesis using capability.prefix_free [where x = a and y = b and p = "[]" and q = "[]"] by simp
  qed
qed (auto simp: less_eq_Capability_def less_Capability_def)

end

fun condition_key :: "Condition \<Rightarrow> nat" where
  "condition_key (InPhase i) = 7 * unat i"
| "condition_key (AfterOp i) = 7 * unat i + 1"
| "condition_key (BeforeOp i) = 7 * unat i + 2"
| "condition_key (NotConcurrentWith i) = 7 * unat i + 3"
| "condition_key (RequiresLock i) = 7 * unat i + 4"
| "condition_key (SecurityLevel l) = 7 * unat l + 5"
| "condition_key (ValidDuring i) = 7 * unat i + 6"

lemma condition_key_inj:
  assumes "condition_key a = condition_key b"
  shows "a = b"
  using arg_cong [OF assms, of "\<lambda>x. x mod 7"]
  by (cases a; cases b) (simp_all add: mod_Suc_eq mod_Suc, (use assms in \<open>simp add: word_unat_eq_iff\<close>)+)

instantiation Condition :: linorder
begin

definition less_eq_Condition :: "Condition \<Rightarrow> Condition \<Rightarrow> bool" where
  "less_eq_Condition a b \<longleftrightarrow> condition_key a \<le> condition_key b"

definition less_Condition :: "Condition \<Rightarrow> Condition \<Rightarrow> bool" where
  "less_Condition a b \<longleftrightarrow> condition_key a < condition_key b"

instance
  by standard (auto simp: less_eq_Condition_def less_Condition_def intro: condition_key_inj)

end

fun relation_key :: "Relation \<Rightarrow> nat" where
  "relation_key Containment = 0"
| "relation_key Equivalence = 1"
| "relation_key Liveness = 2"
| "relation_key (Temporal Outlives) = 3"
| "relation_key (Temporal Coincides) = 4"
| "relation_key (Temporal Precedes) = 5"
| "relation_key (Temporal Succeeds) = 6"
| "relation_key (Temporal EpochBefore) = 7"
| "relation_key (Temporal EpochAfter) = 8"
| "relation_key (Dependency DataDep) = 9"
| "relation_key (Dependency ControlDep) = 10"
| "relation_key (Dependency AliasDep) = 11"
| "relation_key (Security NoDowngrade) = 12"
| "relation_key (Security NoCrossBoundary) = 13"
| "relation_key (Security Sanitized) = 14"

lemma relation_key_inj: "relation_key a = relation_key b \<Longrightarrow> a = b"
  by (cases a rule: relation_key.cases; cases b rule: relation_key.cases; simp)

instantiation Relation :: linorder
begin

definition less_eq_Relation :: "Relation \<Rightarrow> Relation \<Rightarrow> bool" where
  "less_eq_Relation a b \<longleftrightarrow> relation_key a \<le> relation_key b"

definition less_Relation :: "Relation \<Rightarrow> Relation \<Rightarrow> bool" where
  "less_Relation a b \<longleftrightarrow> relation_key a < relation_key b"

instance
  by standard (auto simp: less_eq_Relation_def less_Relation_def intro: relation_key_inj)

end

definition sorted_order :: iter_order where
  "sorted_order = \<lparr>it_caps = sorted_list_of_set, it_conds = sorted_list_of_set, it_rels = sorted_list_of_set\<rparr>"

lemma sorted_order_ok: "order_ok sorted_order"
  by (simp add: order_ok_def sorted_order_def iterates_def)

interpretation sorted_bd: bin_codec read_bd "write_bd sorted_order" bd_ok
  by (rule bin_codec.intro, rule codec_bd [OF sorted_order_ok])

section \<open>Properties\<close>

text \<open>
  C8: A serialized descriptor is read back as it was, whatever order the sets are iterated in and
  whatever bytes follow, for descriptors whose lengths fit the 32-bit counts of the format and whose
  strings are valid UTF-8.
\<close>

theorem serialize_roundtrip:
  assumes "order_ok it" and "bd_ok bd"
  shows "deserialize_bd (serialize_bd it bd @ rest) = Inr bd"
  using codec.roundtrip [OF codec_file [OF assms(1)] assms(2)] by (simp add: deserialize_read_file)

abbreviation sample_bd :: BD where
  "sample_bd \<equiv> bd_new (Struct [(0, Byte 4 4), (8, Ptr (Generic ''T'' [RepDCompatibleWith (State 3)]))] 16 8)
     \<lparr>caps = {Read, StateRead}, conditions = {InPhase 7, SecurityLevel 2}\<rparr> \<lparr>relations = {Liveness, Temporal Outlives}\<rparr>"

lemma sample_bd_ok: "bd_ok sample_bd"
  by (simp add: bd_ok_def bd_new_def capd_ok_def reld_ok_def set_ok_def string_ok_def as_bytes_def word_less_nat_alt)

theorem serialize_roundtrip_witness:
  "deserialize_bd (serialize_bd sorted_order sample_bd @ [0xFF]) = Inr sample_bd"
  by (rule serialize_roundtrip [OF sorted_order_ok sample_bd_ok])

text \<open>
  C37: A proper prefix of a serialized descriptor is never accepted: reading it ends with an error,
  not with some other descriptor.
\<close>

theorem truncated_rejected:
  assumes "order_ok it" and "bd_ok bd" and "serialize_bd it bd = p @ q" and "q \<noteq> []"
  shows "\<exists>e. deserialize_bd p = Inl e"
  using codec.truncated [OF codec_file [OF assms(1)] assms(2-4)] by (auto simp: deserialize_read_file)

theorem truncated_rejected_witness:
  "\<exists>e. deserialize_bd (butlast (serialize_bd sorted_order sample_bd)) = Inl e"
proof -
  have "serialize_bd sorted_order sample_bd \<noteq> []" by (simp add: serialize_bd_def MAGIC_def)
  then have "serialize_bd sorted_order sample_bd
      = butlast (serialize_bd sorted_order sample_bd) @ [last (serialize_bd sorted_order sample_bd)]"
    by simp
  then show ?thesis by (rule truncated_rejected [OF sorted_order_ok sample_bd_ok]) simp
qed

text \<open>
  Different descriptors have different encodings, even if the sets of the two were iterated in
  different orders, and no encoding is a prefix of the encoding of another descriptor.
\<close>

theorem serialize_prefix_free:
  assumes "order_ok it" and "order_ok it'" and "bd_ok a" and "bd_ok b"
    and "serialize_bd it a @ p = serialize_bd it' b @ q"
  shows "a = b \<and> p = q"
  using codec.roundtrip [OF codec_file [OF assms(1)] assms(3), of p]
    codec.roundtrip [OF codec_file [OF assms(2)] assms(4), of q] assms(5)
  by simp

theorem serialize_prefix_free_witness:
  "serialize_bd sorted_order sample_bd \<noteq> serialize_bd sorted_order (bd_new (Byte 1 1) capd_empty reld_empty)"
proof
  assume eq: "serialize_bd sorted_order sample_bd = serialize_bd sorted_order (bd_new (Byte 1 1) capd_empty reld_empty)"
  have ok: "bd_ok (bd_new (Byte 1 1) capd_empty reld_empty)"
    by (simp add: bd_ok_def bd_new_def capd_ok_def reld_ok_def set_ok_def capd_empty_def reld_empty_def)
  have "sample_bd = bd_new (Byte 1 1) capd_empty reld_empty"
    using serialize_prefix_free [OF sorted_order_ok sorted_order_ok sample_bd_ok ok, of "[]" "[]"] eq by simp
  then show False by (simp add: bd_new_def)
qed

text \<open>
  An input with the wrong header is refused with the error that says why: too short for the
  magic, another magic, too short for the version, or another version.
\<close>

theorem header_checked:
  "(length data < 4 \<longrightarrow> deserialize_bd data = Inl Io)
   \<and> (length m = 4 \<and> m \<noteq> MAGIC \<longrightarrow> deserialize_bd (m @ data) = Inl (InvalidData (BadMagic m)))
   \<and> (length data < 4 \<longrightarrow> deserialize_bd (MAGIC @ data) = Inl Io)
   \<and> (v \<noteq> VERSION \<longrightarrow> deserialize_bd (MAGIC @ write_u32 v @ data) = Inl (InvalidData (UnsupportedVersion v)))"
proof (intro conjI impI)
  show "deserialize_bd (MAGIC @ write_u32 v @ data) = Inl (InvalidData (UnsupportedVersion v))" if "v \<noteq> VERSION"
    using that by (simp add: deserialize_bd_def rbind_def read_exact_def rfail_def MAGIC_def)
qed (simp_all add: deserialize_bd_def rbind_def read_exact_def rfail_def MAGIC_def read_u32_def)

theorem header_checked_witness:
  "deserialize_bd ([0x7F, 0x45, 0x4C, 0x46] @ []) = Inl (InvalidData (BadMagic [0x7F, 0x45, 0x4C, 0x46]))"
  using header_checked [of "[]" "[0x7F, 0x45, 0x4C, 0x46]"] by (simp add: MAGIC_def)

text \<open>
  The reader of representations satisfies the recursion of the code, with no bound on the depth,
  and the depth the model allows is never what stops it: any larger depth gives the same result.
\<close>

theorem read_repd_unbounded:
  "read_repd bs = read_repd_body read_repd bs \<and> (length bs \<le> n \<longrightarrow> read_repd_fuel n bs = read_repd bs)"
  using read_repd_unfold repd_fuel_enough by blast

theorem read_repd_unbounded_witness:
  "read_repd_fuel 100 [4, 11, 3, 0, 0, 0] = read_repd [4, 11, 3, 0, 0, 0]"
  using read_repd_unbounded [of "[4, 11, 3, 0, 0, 0]" 100] by simp

end
