(* ===== verification/Core_Memory.thy ===== *)
theory Core_Memory
  imports Vuma_Prelude
begin

text \<open>
  The memory model of the \<^verbatim>\<open>vuma\<close> crate: addresses, program points, regions, derivations, accesses and
  synchronisation edges (\<^verbatim>\<open>address.rs\<close>, \<^verbatim>\<open>program_point.rs\<close>, \<^verbatim>\<open>region.rs\<close>, \<^verbatim>\<open>derivation.rs\<close>, \<^verbatim>\<open>access.rs\<close> and
  \<^verbatim>\<open>sync.rs\<close> under \<^verbatim>\<open>src/src/vuma/src\<close>). The theory shows that address offsets saturate, that alignment
  rounds up, that overlap of ranges means a shared byte, and when following a derivation ends.
\<close>

section \<open>Addresses\<close>

type_synonym Address = u64

definition address_offset :: "Address \<Rightarrow> i64 \<Rightarrow> Address" where
  "address_offset a d = (if 0 \<le> sint d then sat_add a d else sat_sub a (- d))"

definition is_null :: "Address \<Rightarrow> bool" where
  "is_null a \<longleftrightarrow> a = 0"

definition address_align_to :: "Address \<Rightarrow> u64 \<Rightarrow> Address" where
  "address_align_to a align = (let mask = align - 1 in (a + mask) AND NOT mask)"

definition address_add :: "Address \<Rightarrow> u64 \<Rightarrow> Address" where
  "address_add a rhs = a + rhs"

definition address_sub :: "Address \<Rightarrow> u64 \<Rightarrow> Address" where
  "address_sub a rhs = a - rhs"

definition address_distance :: "Address \<Rightarrow> Address \<Rightarrow> i64" where
  "address_distance a rhs = a - rhs"

section \<open>Program points\<close>

type_synonym NodeId = u64

record ProgramPoint =
  pp_file :: string
  pp_line :: u32
  pp_col :: u32
  pp_node_id :: "NodeId option"

definition pp_new :: "string \<Rightarrow> u32 \<Rightarrow> u32 \<Rightarrow> ProgramPoint" where
  "pp_new file line col = \<lparr>pp_file = file, pp_line = line, pp_col = col, pp_node_id = None\<rparr>"

definition with_node :: "ProgramPoint \<Rightarrow> NodeId \<Rightarrow> ProgramPoint" where
  "with_node p node_id = p\<lparr>pp_node_id := Some node_id\<rparr>"

text \<open>Rust compares strings byte by byte, and puts \<^verbatim>\<open>None\<close> below every \<^verbatim>\<open>Some\<close>.\<close>

fun cmp_bytes :: "string \<Rightarrow> string \<Rightarrow> Ordering" where
  "cmp_bytes [] [] = Equal"
| "cmp_bytes [] (_ # _) = Less"
| "cmp_bytes (_ # _) [] = Greater"
| "cmp_bytes (a # as) (b # bs) = then_with (cmp (of_char a :: nat) (of_char b)) (cmp_bytes as bs)"

fun cmp_option :: "NodeId option \<Rightarrow> NodeId option \<Rightarrow> Ordering" where
  "cmp_option None None = Equal"
| "cmp_option None (Some _) = Less"
| "cmp_option (Some _) None = Greater"
| "cmp_option (Some a) (Some b) = cmp a b"

definition pp_cmp :: "ProgramPoint \<Rightarrow> ProgramPoint \<Rightarrow> Ordering" where
  "pp_cmp a b =
     then_with (cmp_bytes (pp_file a) (pp_file b))
       (then_with (cmp (pp_line a) (pp_line b))
         (then_with (cmp (pp_col a) (pp_col b))
           (cmp_option (pp_node_id a) (pp_node_id b))))"

section \<open>Regions\<close>

type_synonym RegionId = u64

datatype RegionStatus = Allocated | Freed | Stack | Mapped | Device | Leaked

record Region =
  reg_id :: RegionId
  reg_base :: Address
  reg_size :: u64
  reg_status :: RegionStatus
  reg_alloc_point :: ProgramPoint
  reg_free_point :: "ProgramPoint option"
  reg_owner_context :: "string option"

definition region_end :: "Region \<Rightarrow> Address" where
  "region_end r = address_add (reg_base r) (reg_size r)"

definition region_contains :: "Region \<Rightarrow> Address \<Rightarrow> bool" where
  "region_contains r addr \<longleftrightarrow> reg_base r \<le> addr \<and> addr < region_end r"

definition region_overlaps :: "Region \<Rightarrow> Region \<Rightarrow> bool" where
  "region_overlaps r s \<longleftrightarrow> reg_base r < region_end s \<and> reg_base s < region_end r"

definition is_allocated_at :: "Region \<Rightarrow> ProgramPoint \<Rightarrow> bool" where
  "is_allocated_at r pp \<longleftrightarrow> reg_alloc_point r = pp"

definition is_live :: "Region \<Rightarrow> bool" where
  "is_live r = (case reg_status r of
     Allocated \<Rightarrow> True | Stack \<Rightarrow> True | Mapped \<Rightarrow> True | Device \<Rightarrow> True | _ \<Rightarrow> False)"

section \<open>Derivations\<close>

type_synonym DerivationId = u64

datatype DerivationSource = Region RegionId | AnotherDerivation DerivationId

record PtrRep =
  rep_name :: string
  rep_size :: u64

datatype DerivationExpr =
    Constant i64
  | Scaled i64 u64
  | Add DerivationExpr DerivationExpr
  | Sub DerivationExpr DerivationExpr

datatype DerivationKind =
    Direct
  | Offset i64
  | CastTo PtrRep PtrRep
  | Arithmetic DerivationExpr

record Derivation =
  der_id :: DerivationId
  der_source :: DerivationSource
  der_kind :: DerivationKind
  der_proven_range :: "Address \<times> Address"

text \<open>
  The two loops that walk a provenance chain. A lookup whose derivations point at each other in a
  cycle keeps them going for ever, hence the partial functions.
\<close>

partial_function (option) trace_loop ::
  "(DerivationId \<Rightarrow> Derivation option) \<Rightarrow> DerivationSource \<Rightarrow> Derivation list \<Rightarrow> Derivation list option" where
  "trace_loop lookup current chain =
     (case current of
        Region _ \<Rightarrow> Some chain
      | AnotherDerivation parent_id \<Rightarrow>
          (case lookup parent_id of
             Some parent \<Rightarrow> trace_loop lookup (der_source parent) (chain @ [parent])
           | None \<Rightarrow> Some chain))"

definition trace :: "Derivation \<Rightarrow> (DerivationId \<Rightarrow> Derivation option) \<Rightarrow> Derivation list option" where
  "trace d lookup = map_option rev (trace_loop lookup (der_source d) [d])"

partial_function (option) base_region_loop ::
  "(DerivationId \<Rightarrow> Derivation option) \<Rightarrow> DerivationSource \<Rightarrow> RegionId option option" where
  "base_region_loop lookup current_source =
     (case current_source of
        Region rid \<Rightarrow> Some (Some rid)
      | AnotherDerivation parent_id \<Rightarrow>
          (case lookup parent_id of
             Some parent \<Rightarrow> base_region_loop lookup (der_source parent)
           | None \<Rightarrow> Some None))"

definition base_region :: "Derivation \<Rightarrow> (DerivationId \<Rightarrow> Derivation option) \<Rightarrow> RegionId option option" where
  "base_region d lookup = base_region_loop lookup (der_source d)"

definition is_within_bounds :: "Derivation \<Rightarrow> bool" where
  "is_within_bounds d \<longleftrightarrow> fst (der_proven_range d) < snd (der_proven_range d)"

section \<open>Accesses and synchronisation\<close>

type_synonym AccessId = u64

datatype AccessKind = ReadAccess | WriteAccess

record Access =
  acc_id :: AccessId
  acc_target :: DerivationId
  acc_kind :: AccessKind
  acc_size :: u64
  acc_program_point :: ProgramPoint

definition access_new :: "AccessId \<Rightarrow> DerivationId \<Rightarrow> AccessKind \<Rightarrow> u64 \<Rightarrow> ProgramPoint \<Rightarrow> Access" where
  "access_new i target kind sz pp =
     \<lparr>acc_id = i, acc_target = target, acc_kind = kind, acc_size = sz, acc_program_point = pp\<rparr>"

definition byte_range_at :: "Access \<Rightarrow> Address \<Rightarrow> Address \<times> Address" where
  "byte_range_at a base = (base, address_add base (acc_size a))"

definition conflicts_with :: "Access \<Rightarrow> Access \<Rightarrow> Address \<Rightarrow> Address \<Rightarrow> bool" where
  "conflicts_with a b self_base other_base =
     (let (s_start, s_end) = byte_range_at a self_base;
          (o_start, o_end) = byte_range_at b other_base;
          overlaps = s_start < o_end \<and> o_start < s_end;
          has_write = acc_kind a = WriteAccess \<or> acc_kind b = WriteAccess
      in overlaps \<and> has_write)"

type_synonym SyncEdgeId = u64
type_synonym LockId = u64

datatype SyncOrdering = HappensBefore | AtomicAcquireRelease | MutexLocked LockId

record SyncEdge =
  se_id :: SyncEdgeId
  se_access1 :: AccessId
  se_access2 :: AccessId
  se_ordering :: SyncOrdering

definition sync_edge_new :: "SyncEdgeId \<Rightarrow> AccessId \<Rightarrow> AccessId \<Rightarrow> SyncOrdering \<Rightarrow> SyncEdge" where
  "sync_edge_new i a1 a2 ord = \<lparr>se_id = i, se_access1 = a1, se_access2 = a2, se_ordering = ord\<rparr>"

definition orders :: "SyncEdge \<Rightarrow> AccessId \<Rightarrow> AccessId \<Rightarrow> bool" where
  "orders e a1 a2 \<longleftrightarrow> se_access1 e = a1 \<and> se_access2 e = a2"

section \<open>Address arithmetic\<close>

lemma sint_i64: "sint (d :: i64) = (if uint d < 2 ^ 63 then uint d else uint d - 2 ^ 64)"
proof -
  have lt: "uint d < 2 ^ 64" "0 \<le> uint d" using uint_lt2p [of d] by simp_all
  have "sint d = (uint d + 2 ^ 63) mod 2 ^ 64 - 2 ^ 63"
    by (simp add: sint_uint signed_take_bit_eq_take_bit_shift take_bit_eq_mod)
  also have "\<dots> = (if uint d < 2 ^ 63 then uint d else uint d - 2 ^ 64)"
  proof (cases "uint d < 2 ^ 63")
    case False
    have "(uint d + 2 ^ 63) mod 2 ^ 64 = (uint d + 2 ^ 63 - 2 ^ 64) mod 2 ^ 64"
      by (rule minus_mod_self2 [symmetric])
    also have "\<dots> = uint d + 2 ^ 63 - 2 ^ 64" using False lt by (intro mod_pos_pos_trivial) auto
    finally show ?thesis using False by simp
  qed (use lt in simp)
  finally show ?thesis .
qed

lemma uint_neg_i64: "uint (d :: i64) \<noteq> 0 \<Longrightarrow> uint (- d) = 2 ^ 64 - uint d"
  using uint_lt2p [of d] by (simp add: uint_word_arith_bintrs take_bit_eq_mod zmod_zminus1_eq_if)

text \<open>
  Offsetting an address clamps: the result is the exact sum of the address and the signed
  offset, cut off at 0 and at the largest address. It never wraps around.
\<close>

theorem address_offset_clamps:
  "uint (address_offset a d) = max 0 (min (2 ^ 64 - 1) (uint a + sint d))"
proof (cases "0 \<le> sint d")
  case True
  then have "sint d = uint d" using uint_lt2p [of d] by (auto simp: sint_i64 split: if_splits)
  then show ?thesis using True by (simp add: address_offset_def uint_sat_add)
next
  case False
  then have d: "uint d \<ge> 2 ^ 63" "sint d = uint d - 2 ^ 64" by (auto simp: sint_i64 split: if_splits)
  then have "uint (address_offset a d) = max 0 (uint a + sint d)"
    using False by (simp add: address_offset_def uint_sat_sub uint_neg_i64)
  then show ?thesis using d uint_lt2p [of a] uint_lt2p [of d] by simp
qed

lemma and_not_mask_u64: "(x :: u64) AND NOT (mask k) = push_bit k (drop_bit k x)"
  by (rule bit_word_eqI) (auto simp: bit_simps)

lemma unat_floor_pow2: "unat (push_bit k (drop_bit k (x :: u64))) = unat x div 2 ^ k * 2 ^ k"
proof -
  have "unat x div 2 ^ k * 2 ^ k \<le> unat x" by simp
  then have "unat x div 2 ^ k * 2 ^ k < 2 ^ 64" using unat_less_u64 le_less_trans by blast
  then show ?thesis
    unfolding unsigned_push_bit_eq unsigned_drop_bit_eq
    by (simp add: push_bit_eq_mult drop_bit_eq_div take_bit_nat_eq_self unat_less_u64 [simplified])
qed

text \<open>
  Aligning an address to a power of two gives the least multiple of the alignment that is not
  below the address, as long as that multiple is an address at all.
\<close>

theorem address_align_to_rounds_up:
  assumes "k < 64" and "unat a + 2 ^ k \<le> 2 ^ 64"
  shows "2 ^ k dvd unat (address_align_to a (2 ^ k)) \<and> unat a \<le> unat (address_align_to a (2 ^ k))
         \<and> unat (address_align_to a (2 ^ k)) < unat a + 2 ^ k"
proof -
  have m: "(2 :: u64) ^ k - 1 = mask k" by (simp add: mask_eq_exp_minus_1)
  have um: "unat (mask k :: u64) = 2 ^ k - 1"
  proof -
    have "(2 :: nat) ^ k < 2 ^ 64" using assms(1) by (intro power_strict_increasing) auto
    then have "unat (of_nat (2 ^ k - 1) :: u64) = 2 ^ k - 1"
      by (subst unat_of_nat) (simp add: less_imp_diff_less)
    moreover have "(of_nat (2 ^ k - 1) :: u64) = mask k" by (simp add: of_nat_diff m [symmetric])
    ultimately show ?thesis by simp
  qed
  have sum: "unat (a + mask k) = unat a + (2 ^ k - 1)"
  proof -
    have "unat a + (2 ^ k - 1) < 2 ^ 64" using assms(2) by (simp add: less_le_trans)
    then show ?thesis by (simp add: unat_word_ariths um)
  qed
  have val: "unat (address_align_to a (2 ^ k)) = (unat a + (2 ^ k - 1)) div 2 ^ k * 2 ^ k"
    by (simp add: address_align_to_def m and_not_mask_u64 unat_floor_pow2 sum)
  define q where "q = (unat a + (2 ^ k - 1)) div 2 ^ k"
  have "unat a + (2 ^ k - 1) = q * 2 ^ k + (unat a + (2 ^ k - 1)) mod 2 ^ k"
    unfolding q_def by (rule div_mult_mod_eq [symmetric])
  moreover have "(unat a + (2 ^ k - 1)) mod 2 ^ k < 2 ^ k" by simp
  moreover have "(0::nat) < 2 ^ k" by simp
  ultimately have "unat a \<le> q * 2 ^ k" "q * 2 ^ k < unat a + 2 ^ k" by linarith+
  then show ?thesis unfolding val q_def [symmetric] by simp
qed

theorem address_align_to_rounds_up_witness:
  "2 ^ 12 dvd unat (address_align_to 0x1001 (2 ^ 12)) \<and> unat (0x1001 :: u64) \<le> unat (address_align_to 0x1001 (2 ^ 12))
   \<and> unat (address_align_to 0x1001 (2 ^ 12)) < unat (0x1001 :: u64) + 2 ^ 12"
  by (rule address_align_to_rounds_up) simp_all

section \<open>Overlapping ranges\<close>

text \<open>Half-open, non-empty ranges that do not wrap overlap exactly when they share a byte.\<close>

lemma ranges_share_byte:
  fixes a b m n :: nat
  assumes "0 < m" and "0 < n"
  shows "(a < b + n \<and> b < a + m) \<longleftrightarrow> (\<exists>x. a \<le> x \<and> x < a + m \<and> b \<le> x \<and> x < b + n)"
proof
  assume "a < b + n \<and> b < a + m"
  then have "a \<le> max a b \<and> max a b < a + m \<and> b \<le> max a b \<and> max a b < b + n" using assms by auto
  then show "\<exists>x. a \<le> x \<and> x < a + m \<and> b \<le> x \<and> x < b + n" by blast
qed auto

definition range_ok :: "Address \<Rightarrow> u64 \<Rightarrow> bool" where
  "range_ok base n \<longleftrightarrow> 0 < n \<and> unat base + unat n < 2 ^ 64"

lemma unat_range_end: "range_ok base n \<Longrightarrow> unat (address_add base n) = unat base + unat n"
  by (simp add: range_ok_def address_add_def unat_word_ariths)

lemma overlap_iff_byte:
  assumes "range_ok a m" and "range_ok b n"
  shows "(a < address_add b n \<and> b < address_add a m) \<longleftrightarrow>
    (\<exists>x. unat a \<le> x \<and> x < unat a + unat m \<and> unat b \<le> x \<and> x < unat b + unat n)"
proof -
  have "0 < unat m" "0 < unat n" using assms by (auto simp: range_ok_def word_less_nat_alt)
  then show ?thesis
    using ranges_share_byte [of "unat m" "unat n" "unat a" "unat b"]
    by (simp add: word_less_nat_alt unat_range_end assms)
qed



lemma region_overlaps_sym: "region_overlaps r s = region_overlaps s r"
  by (auto simp: region_overlaps_def)

lemma region_overlap_iff:
  assumes "range_ok (reg_base r) (reg_size r)" and "range_ok (reg_base s) (reg_size s)"
  shows "region_overlaps r s \<longleftrightarrow> (\<exists>x. region_contains r x \<and> region_contains s x)"
proof -
  have "(\<exists>x :: Address. region_contains r x \<and> region_contains s x)" if "region_overlaps r s"
  proof -
    have "reg_base r < region_end r" "reg_base s < region_end s"
      using assms by (auto simp: region_end_def word_less_nat_alt unat_range_end range_ok_def)
    then have "region_contains r (max (reg_base r) (reg_base s)) \<and> region_contains s (max (reg_base r) (reg_base s))"
      using that by (auto simp: region_contains_def region_overlaps_def max_def)
    then show ?thesis by blast
  qed
  then show ?thesis by (auto simp: region_contains_def region_overlaps_def)
qed

section \<open>The order of program points\<close>

text \<open>What sorting relies on: a comparison that is a total order.\<close>

fun reverse :: "Ordering \<Rightarrow> Ordering" where
  "reverse Less = Greater"
| "reverse Equal = Equal"
| "reverse Greater = Less"

locale comparator =
  fixes c :: "'a \<Rightarrow> 'a \<Rightarrow> Ordering"
  assumes c_eq: "c a b = Equal \<longleftrightarrow> a = b"
    and c_reverse: "c b a = reverse (c a b)"
    and c_trans: "c a b = Less \<Longrightarrow> c b d = Less \<Longrightarrow> c a d = Less"
begin

lemma less_asym: "c a b = Less \<Longrightarrow> c b a \<noteq> Less"
  by (simp add: c_reverse [of b a])

lemma trichotomy: "c a b = Less \<or> a = b \<or> c b a = Less"
  using c_eq [of a b] c_reverse [of b a] by (cases "c a b") auto

lemma pullback: "inj f \<Longrightarrow> comparator (\<lambda>a b. c (f a) (f b))"
  by (intro comparator.intro) (simp add: c_eq inj_eq, rule c_reverse, rule c_trans)

end

interpretation cmp: comparator cmp
  by unfold_locales (auto simp: cmp_def split: if_splits)

lemma then_with_iff [simp]:
  "then_with x y = Equal \<longleftrightarrow> x = Equal \<and> y = Equal"
  "then_with x y = Less \<longleftrightarrow> x = Less \<or> x = Equal \<and> y = Less"
  "reverse (then_with x y) = then_with (reverse x) (reverse y)"
  by (cases x; simp)+

lemma comparator_lex:
  assumes "comparator c" and "comparator d"
  shows "comparator (\<lambda>a b. then_with (c (fst a) (fst b)) (d (snd a) (snd b)))"
proof (rule comparator.intro)
  fix a b e
  show "then_with (c (fst b) (fst a)) (d (snd b) (snd a)) = reverse (then_with (c (fst a) (fst b)) (d (snd a) (snd b)))"
    by (simp add: comparator.c_reverse [OF assms(1), of "fst b" "fst a"] comparator.c_reverse [OF assms(2), of "snd b" "snd a"])
  show "then_with (c (fst a) (fst b)) (d (snd a) (snd b)) = Equal \<longleftrightarrow> a = b"
    by (simp add: comparator.c_eq [OF assms(1)] comparator.c_eq [OF assms(2)] prod_eq_iff)
  show "then_with (c (fst a) (fst e)) (d (snd a) (snd e)) = Less"
    if "then_with (c (fst a) (fst b)) (d (snd a) (snd b)) = Less" "then_with (c (fst b) (fst e)) (d (snd b) (snd e)) = Less"
    using that comparator.c_trans [OF assms(1), of "fst a" "fst b" "fst e"]
      comparator.c_trans [OF assms(2), of "snd a" "snd b" "snd e"]
    by (auto simp: comparator.c_eq [OF assms(1)])
qed

interpretation cmp_option: comparator cmp_option
proof
  fix a b d :: "NodeId option"
  show "cmp_option a b = Equal \<longleftrightarrow> a = b" by (cases a; cases b) (auto simp: cmp.c_eq)
  show "cmp_option b a = reverse (cmp_option a b)" by (cases a; cases b) (auto intro: cmp.c_reverse)
  show "cmp_option a d = Less" if "cmp_option a b = Less" "cmp_option b d = Less"
    using that by (cases a; cases b; cases d) (auto intro: cmp.c_trans)
qed

interpretation cmp_bytes: comparator cmp_bytes
proof
  have inj: "(of_char x :: nat) = of_char y \<longleftrightarrow> x = y" for x y by simp
  fix a b d :: string
  show "cmp_bytes a b = Equal \<longleftrightarrow> a = b"
    by (induction a b rule: cmp_bytes.induct) (auto simp: cmp.c_eq)
  show "cmp_bytes b a = reverse (cmp_bytes a b)"
    by (induction a b rule: cmp_bytes.induct) (simp_all add: cmp.c_reverse [symmetric])
  show "cmp_bytes a d = Less" if "cmp_bytes a b = Less" "cmp_bytes b d = Less"
    using that
  proof (induction a b arbitrary: d rule: cmp_bytes.induct)
    case (2 y ys)
    then show ?case by (cases d) auto
  next
    case (4 x xs y ys)
    then show ?case by (cases d) (auto simp: cmp.c_eq intro: cmp.c_trans)
  qed auto
qed

abbreviation pp_tuple :: "ProgramPoint \<Rightarrow> string \<times> u32 \<times> u32 \<times> NodeId option" where
  "pp_tuple p \<equiv> (pp_file p, pp_line p, pp_col p, pp_node_id p)"

interpretation pp: comparator pp_cmp
proof -
  have "inj pp_tuple" by (rule injI) (simp add: ProgramPoint.equality)
  note lex = comparator_lex [OF cmp_bytes.comparator_axioms comparator_lex [OF cmp.comparator_axioms
      comparator_lex [OF cmp.comparator_axioms cmp_option.comparator_axioms]]]
  show "comparator pp_cmp"
    using comparator.pullback [OF lex \<open>inj pp_tuple\<close>] by (simp add: pp_cmp_def [abs_def])
qed

text \<open>
  Program points are totally ordered by file, line, column and node: two points compare equal
  only if they are the same, swapping them reverses the verdict, and the order is transitive.
\<close>

theorem program_points_ordered:
  "(pp_cmp a b = Equal \<longleftrightarrow> a = b) \<and> pp_cmp b a = reverse (pp_cmp a b)
   \<and> (pp_cmp a b = Less \<and> pp_cmp b c = Less \<longrightarrow> pp_cmp a c = Less)"
  using pp.c_eq pp.c_reverse pp.c_trans by blast

theorem program_points_ordered_witness:
  "pp_cmp (pp_new ''a'' 1 1) (pp_new ''b'' 1 1) = Less"
proof -
  have "pp_cmp (pp_new ''a'' 1 1) (pp_new ''a'' 2 1) = Less" "pp_cmp (pp_new ''a'' 2 1) (pp_new ''b'' 1 1) = Less"
    by (simp_all add: pp_cmp_def pp_new_def cmp_def)
  then show ?thesis using program_points_ordered [of "pp_new ''a'' 1 1" "pp_new ''a'' 2 1" "pp_new ''b'' 1 1"] by blast
qed

section \<open>Provenance chains\<close>

text \<open>The parent relation of a lookup; a chain ends when it is well-founded.\<close>

definition parents :: "(DerivationId \<Rightarrow> Derivation option) \<Rightarrow> (DerivationId \<times> DerivationId) set" where
  "parents lookup = {(p, q). \<exists>d. lookup q = Some d \<and> der_source d = AnotherDerivation p}"

lemma trace_loop_simps [simp]:
  "trace_loop lookup (Region r) chain = Some chain"
  "lookup p = None \<Longrightarrow> trace_loop lookup (AnotherDerivation p) chain = Some chain"
  "lookup p = Some d \<Longrightarrow> trace_loop lookup (AnotherDerivation p) chain = trace_loop lookup (der_source d) (chain @ [d])"
  by (subst trace_loop.simps; simp)+

lemma base_region_loop_simps [simp]:
  "base_region_loop lookup (Region r) = Some (Some r)"
  "lookup p = None \<Longrightarrow> base_region_loop lookup (AnotherDerivation p) = Some None"
  "lookup p = Some d \<Longrightarrow> base_region_loop lookup (AnotherDerivation p) = base_region_loop lookup (der_source d)"
  by (subst base_region_loop.simps; simp)+

text \<open>
  A chain as \<^verbatim>\<open>trace\<close> returns it: each element is the parent of the next one, and the first one has no
  known parent.
\<close>

definition links :: "(DerivationId \<Rightarrow> Derivation option) \<Rightarrow> Derivation \<Rightarrow> Derivation \<Rightarrow> bool" where
  "links lookup d e \<longleftrightarrow> (\<exists>p. der_source e = AnotherDerivation p \<and> lookup p = Some d)"

definition root :: "(DerivationId \<Rightarrow> Derivation option) \<Rightarrow> Derivation \<Rightarrow> bool" where
  "root lookup d \<longleftrightarrow> (case der_source d of Region _ \<Rightarrow> True | AnotherDerivation p \<Rightarrow> lookup p = None)"

lemma chain_induct:
  assumes "wf (parents lookup)"
    and "\<And>r. P (Region r)" and "\<And>p. lookup p = None \<Longrightarrow> P (AnotherDerivation p)"
    and "\<And>p d. lookup p = Some d \<Longrightarrow> P (der_source d) \<Longrightarrow> P (AnotherDerivation p)"
  shows "P src"
proof -
  have "P (AnotherDerivation p)" for p
    using assms(1)
  proof (induction p rule: wf_induct_rule)
    case (less p)
    show ?case
    proof (cases "lookup p")
      case (Some d)
      have "P (der_source d)"
        using less Some assms(2) by (cases "der_source d") (auto simp: parents_def)
      with Some show ?thesis by (rule assms(4))
    qed (rule assms(3))
  qed
  then show ?thesis using assms(2) by (cases src) auto
qed

text \<open>What one walk adds to the chain, newest first, and the region it ends at.\<close>

lemma walk_spec:
  assumes "wf (parents lookup)" and "der_source d = src"
  shows "\<exists>ds b. (\<forall>chain. trace_loop lookup src chain = Some (chain @ ds)) \<and> base_region_loop lookup src = Some b
     \<and> successively (\<lambda>x y. links lookup y x) (d # ds) \<and> root lookup (last (d # ds))
     \<and> (\<forall>r. b = Some r \<longleftrightarrow> der_source (last (d # ds)) = Region r)"
  using assms(2)
proof (induction src arbitrary: d rule: chain_induct [OF assms(1), case_names region missing parent])
  case (region r)
  then show ?case by (intro exI [of _ "[]"] exI [of _ "Some r"]) (auto simp: root_def)
next
  case (missing p)
  then show ?case by (intro exI [of _ "[]"] exI [of _ None]) (auto simp: root_def)
next
  case (parent p e)
  obtain ds b where w: "\<forall>chain. trace_loop lookup (der_source e) chain = Some (chain @ ds)"
      "base_region_loop lookup (der_source e) = Some b"
      "successively (\<lambda>x y. links lookup y x) (e # ds)" "root lookup (last (e # ds))"
      "\<forall>r. b = Some r \<longleftrightarrow> der_source (last (e # ds)) = Region r"
    using parent.IH [OF refl] by blast
  then show ?case using parent.hyps parent.prems
    by (intro exI [of _ "e # ds"] exI [of _ b]) (auto simp: links_def)
qed

text \<open>
  When no derivation is its own ancestor, tracing a derivation returns, and returns the whole
  provenance chain: it ends with the derivation, each element is the parent of the next, the first
  has no parent, and the base region is the region the first element was taken from, if any.
\<close>

theorem trace_complete:
  assumes "wf (parents lookup)"
  shows "\<exists>chain b. trace d lookup = Some chain \<and> chain \<noteq> [] \<and> last chain = d \<and> successively (links lookup) chain
     \<and> root lookup (hd chain) \<and> base_region d lookup = Some b
     \<and> (\<forall>r. b = Some r \<longleftrightarrow> der_source (hd chain) = Region r)"
proof -
  obtain ds b where w: "\<forall>chain. trace_loop lookup (der_source d) chain = Some (chain @ ds)"
      "base_region_loop lookup (der_source d) = Some b"
      "successively (\<lambda>x y. links lookup y x) (d # ds)" "root lookup (last (d # ds))"
      "\<forall>r. b = Some r \<longleftrightarrow> der_source (last (d # ds)) = Region r"
    using walk_spec [OF assms refl] by blast
  have "trace d lookup = Some (rev (d # ds))" using w(1) by (simp add: trace_def)
  moreover have "successively (links lookup) (rev (d # ds))" using w(3) by (simp only: successively_rev)
  ultimately show ?thesis using w(2,4,5) by (auto simp: base_region_def hd_append hd_rev)
qed

theorem trace_complete_witness:
  "\<exists>chain. trace \<lparr>der_id = 2, der_source = AnotherDerivation 1, der_kind = Offset 8, der_proven_range = (0, 64)\<rparr>
      [1 \<mapsto> \<lparr>der_id = 1, der_source = Region 7, der_kind = Direct, der_proven_range = (0, 64)\<rparr>] = Some chain"
proof -
  let ?lookup = "[1 \<mapsto> \<lparr>der_id = 1, der_source = Region 7, der_kind = Direct, der_proven_range = (0, 64)\<rparr>]"
  have "parents ?lookup = {}" by (auto simp: parents_def)
  then have "wf (parents ?lookup)" by simp
  from trace_complete [OF this, of "\<lparr>der_id = 2, der_source = AnotherDerivation 1, der_kind = Offset 8, der_proven_range = (0, 64)\<rparr>"]
  show ?thesis by blast
qed

text \<open>A derivation that is its own parent is walked for ever.\<close>

lemma base_region_self_parent:
  assumes "lookup p = Some d" and "der_source d = AnotherDerivation p"
  shows "base_region d lookup = None"
proof -
  have "\<not> (lookup = lookup \<and> AnotherDerivation p = AnotherDerivation p)"
    if "base_region_loop lookup (AnotherDerivation p) = Some y" for y
    using that
    by (rule base_region_loop.raw_induct
        [where P = "\<lambda>l src _. \<not> (l = lookup \<and> src = AnotherDerivation p)", rotated])
      (use assms in \<open>fastforce split: option.splits DerivationSource.splits\<close>)
  then show ?thesis using assms(2) by (cases "base_region_loop lookup (AnotherDerivation p)") (auto simp: base_region_def)
qed

end
