(* ===== verification/Core_Msg.thy ===== *)
theory Core_Msg
  imports Core_Memory
begin

text \<open>
  The memory state graph: \<^verbatim>\<open>src/src/vuma/src/msg.rs\<close>. It keeps regions, derivations, accesses and
  synchronisation edges in four tables keyed by ids. Each table is an instance of one contract, a map
  from ids to values that insertions and removals update at one key; the queries are shown to
  compute what their documentation says, independently of the iteration order of the tables.
\<close>

section \<open>State and operations\<close>

record MSG =
  msg_regions :: "(RegionId, Region) hmap"
  msg_derivations :: "(DerivationId, Derivation) hmap"
  msg_accesses :: "(AccessId, Access) hmap"
  msg_sync_edges :: "(SyncEdgeId, SyncEdge) hmap"
  next_region_id :: u64
  next_derivation_id :: u64
  next_access_id :: u64
  next_sync_edge_id :: u64

definition msg_new :: MSG where
  "msg_new = \<lparr>msg_regions = [], msg_derivations = [], msg_accesses = [], msg_sync_edges = [],
     next_region_id = 0, next_derivation_id = 0, next_access_id = 0, next_sync_edge_id = 0\<rparr>"

definition add_region :: "MSG \<Rightarrow> Region \<Rightarrow> MSG \<times> RegionId" where
  "add_region m region =
     (let i = reg_id region
      in (m\<lparr>next_region_id := max (next_region_id m) (i + 1), msg_regions := hm_insert i region (msg_regions m)\<rparr>, i))"

definition add_derivation :: "MSG \<Rightarrow> Derivation \<Rightarrow> MSG \<times> DerivationId" where
  "add_derivation m derivation =
     (let i = der_id derivation
      in (m\<lparr>next_derivation_id := max (next_derivation_id m) (i + 1),
            msg_derivations := hm_insert i derivation (msg_derivations m)\<rparr>, i))"

definition add_access :: "MSG \<Rightarrow> Access \<Rightarrow> MSG \<times> AccessId" where
  "add_access m access =
     (let i = acc_id access
      in (m\<lparr>next_access_id := max (next_access_id m) (i + 1), msg_accesses := hm_insert i access (msg_accesses m)\<rparr>, i))"

definition add_sync_edge :: "MSG \<Rightarrow> SyncEdge \<Rightarrow> MSG \<times> SyncEdgeId" where
  "add_sync_edge m edge =
     (let i = se_id edge
      in (m\<lparr>next_sync_edge_id := max (next_sync_edge_id m) (i + 1),
            msg_sync_edges := hm_insert i edge (msg_sync_edges m)\<rparr>, i))"

definition region :: "MSG \<Rightarrow> RegionId \<Rightarrow> Region option" where
  "region m i = hm_get (msg_regions m) i"

definition derivation :: "MSG \<Rightarrow> DerivationId \<Rightarrow> Derivation option" where
  "derivation m i = hm_get (msg_derivations m) i"

definition access :: "MSG \<Rightarrow> AccessId \<Rightarrow> Access option" where
  "access m i = hm_get (msg_accesses m) i"

definition sync_edge :: "MSG \<Rightarrow> SyncEdgeId \<Rightarrow> SyncEdge option" where
  "sync_edge m i = hm_get (msg_sync_edges m) i"

definition region_of :: "MSG \<Rightarrow> Address \<Rightarrow> RegionId option" where
  "region_of m addr = map_option fst (List.find (\<lambda>(i, r). region_contains r addr) (msg_regions m))"

definition derivation_chain :: "MSG \<Rightarrow> DerivationId \<Rightarrow> Derivation list option" where
  "derivation_chain m i =
     (case derivation m i of Some d \<Rightarrow> trace d (derivation m) | None \<Rightarrow> Some [])"

definition ordered_with :: "SyncEdge list \<Rightarrow> AccessId \<Rightarrow> (AccessId, bool) hmap" where
  "ordered_with edges i =
     fold (\<lambda>edge ordered.
       let ordered = (if se_access1 edge = i then hm_insert (se_access2 edge) True ordered else ordered)
       in (if se_access2 edge = i then hm_insert (se_access1 edge) True ordered else ordered)) edges []"

definition concurrent_accesses :: "MSG \<Rightarrow> AccessId \<Rightarrow> AccessId list" where
  "concurrent_accesses m i =
     (let ordered = ordered_with (map snd (msg_sync_edges m)) i
      in filter (\<lambda>aid. aid \<noteq> i \<and> hm_get ordered aid = None) (hm_keys (msg_accesses m)))"

definition overlapping_accesses :: "MSG \<Rightarrow> AccessId \<Rightarrow> Address \<Rightarrow> (AccessId \<Rightarrow> Address option) \<Rightarrow> AccessId list" where
  "overlapping_accesses m i base resolve_base =
     (case access m i of
        None \<Rightarrow> []
      | Some query \<Rightarrow>
          (let (q_start, q_end) = byte_range_at query base
           in List.map_filter (\<lambda>(aid, other).
                if aid = i then None
                else (case resolve_base aid of
                    None \<Rightarrow> None
                  | Some other_base \<Rightarrow>
                      (let (o_start, o_end) = byte_range_at other other_base
                       in if q_start < o_end \<and> o_start < q_end then Some aid else None)))
              (msg_accesses m)))"

definition region_count :: "MSG \<Rightarrow> nat" where
  "region_count m = length (msg_regions m)"

definition derivation_count :: "MSG \<Rightarrow> nat" where
  "derivation_count m = length (msg_derivations m)"

definition access_count :: "MSG \<Rightarrow> nat" where
  "access_count m = length (msg_accesses m)"

definition sync_edge_count :: "MSG \<Rightarrow> nat" where
  "sync_edge_count m = length (msg_sync_edges m)"

definition remove_region :: "MSG \<Rightarrow> RegionId \<Rightarrow> MSG \<times> Region option" where
  "remove_region m i = (m\<lparr>msg_regions := hm_remove i (msg_regions m)\<rparr>, hm_get (msg_regions m) i)"

definition remove_derivation :: "MSG \<Rightarrow> DerivationId \<Rightarrow> MSG \<times> Derivation option" where
  "remove_derivation m i = (m\<lparr>msg_derivations := hm_remove i (msg_derivations m)\<rparr>, hm_get (msg_derivations m) i)"

definition remove_access :: "MSG \<Rightarrow> AccessId \<Rightarrow> MSG \<times> Access option" where
  "remove_access m i = (m\<lparr>msg_accesses := hm_remove i (msg_accesses m)\<rparr>, hm_get (msg_accesses m) i)"

definition remove_sync_edge :: "MSG \<Rightarrow> SyncEdgeId \<Rightarrow> MSG \<times> SyncEdge option" where
  "remove_sync_edge m i = (m\<lparr>msg_sync_edges := hm_remove i (msg_sync_edges m)\<rparr>, hm_get (msg_sync_edges m) i)"

section \<open>The contract of a table\<close>

datatype ('k, 'v) table_op = Insert 'v | Remove 'k

locale id_table =
  fixes key :: "'v \<Rightarrow> 'k"
    and add :: "'t \<Rightarrow> 'v \<Rightarrow> 't \<times> 'k"
    and remove :: "'t \<Rightarrow> 'k \<Rightarrow> 't \<times> 'v option"
    and lookup :: "'t \<Rightarrow> 'k \<Rightarrow> 'v option"
  assumes add_id: "snd (add t v) = key v"
    and lookup_add: "lookup (fst (add t v)) = (lookup t)(key v \<mapsto> v)"
    and remove_value: "snd (remove t k) = lookup t k"
    and lookup_remove: "lookup (fst (remove t k)) = (lookup t)(k := None)"
begin

definition step :: "'t \<Rightarrow> ('k, 'v) table_op \<Rightarrow> 't" where
  "step t p = (case p of Insert v \<Rightarrow> fst (add t v) | Remove k \<Rightarrow> fst (remove t k))"

definition map_step :: "('k \<rightharpoonup> 'v) \<Rightarrow> ('k, 'v) table_op \<Rightarrow> ('k \<rightharpoonup> 'v)" where
  "map_step f p = (case p of Insert v \<Rightarrow> f(key v \<mapsto> v) | Remove k \<Rightarrow> f(k := None))"

lemma steps_refine: "lookup (foldl step t ops) = foldl map_step (lookup t) ops"
proof (induction ops arbitrary: t)
  case (Cons p ops)
  have "lookup (step t p) = map_step (lookup t) p"
    by (cases p) (simp_all add: step_def map_step_def lookup_add lookup_remove)
  then show ?case using Cons by simp
qed simp

lemma keys_match:
  "(\<And>k v. lookup t k = Some v \<Longrightarrow> key v = k) \<Longrightarrow> lookup (foldl step t ops) k = Some v \<Longrightarrow> key v = k"
proof (induction ops arbitrary: t)
  case (Cons p ops)
  have "lookup (step t p) j = Some w \<Longrightarrow> key w = j" for j w
    using Cons.prems(1)
    by (cases p) (auto simp: step_def lookup_add lookup_remove split: if_splits)
  then show ?case using Cons by auto
qed simp

end

interpretation regions: id_table reg_id add_region remove_region region
  by unfold_locales (simp_all add: add_region_def remove_region_def region_def Let_def hm_get_insert hm_get_remove fun_eq_iff)

interpretation derivations: id_table der_id add_derivation remove_derivation derivation
  by unfold_locales (simp_all add: add_derivation_def remove_derivation_def derivation_def Let_def hm_get_insert hm_get_remove fun_eq_iff)

interpretation accesses: id_table acc_id add_access remove_access access
  by unfold_locales (simp_all add: add_access_def remove_access_def access_def Let_def hm_get_insert hm_get_remove fun_eq_iff)

interpretation sync_edges: id_table se_id add_sync_edge remove_sync_edge sync_edge
  by unfold_locales (simp_all add: add_sync_edge_def remove_sync_edge_def sync_edge_def Let_def hm_get_insert hm_get_remove fun_eq_iff)

section \<open>Reachable graphs\<close>

inductive msg_step :: "MSG \<Rightarrow> MSG \<Rightarrow> bool" where
  AddRegion: "msg_step m (fst (add_region m r))"
| AddDerivation: "msg_step m (fst (add_derivation m d))"
| AddAccess: "msg_step m (fst (add_access m a))"
| AddSyncEdge: "msg_step m (fst (add_sync_edge m e))"
| RemoveRegion: "msg_step m (fst (remove_region m i))"
| RemoveDerivation: "msg_step m (fst (remove_derivation m i))"
| RemoveAccess: "msg_step m (fst (remove_access m i))"
| RemoveSyncEdge: "msg_step m (fst (remove_sync_edge m i))"

inductive_cases msg_stepE: "msg_step m m'"

inductive reachable :: "MSG \<Rightarrow> bool" where
  Start: "reachable msg_new"
| Step: "reachable m \<Longrightarrow> msg_step m m' \<Longrightarrow> reachable m'"

text \<open>
  One table of the graph is in order: distinct keys, every value stored under its own id, and every id
  below the counter, the largest id excepted, whose successor wraps to 0.
\<close>

definition table_ok :: "('v \<Rightarrow> u64) \<Rightarrow> (u64, 'v) hmap \<Rightarrow> u64 \<Rightarrow> bool" where
  "table_ok key t next_id \<longleftrightarrow>
     hm_ok t \<and> (\<forall>(k, v) \<in> set t. key v = k \<and> (k < next_id \<or> k = - 1))"

definition msg_ok :: "MSG \<Rightarrow> bool" where
  "msg_ok m \<longleftrightarrow>
     table_ok reg_id (msg_regions m) (next_region_id m)
     \<and> table_ok der_id (msg_derivations m) (next_derivation_id m)
     \<and> table_ok acc_id (msg_accesses m) (next_access_id m)
     \<and> table_ok se_id (msg_sync_edges m) (next_sync_edge_id m)"

lemma less_max_Suc_u64: "i < max n (i + 1 :: u64) \<or> i = - 1"
proof (cases "i = - 1")
  case False
  then have "unat i \<noteq> 2 ^ 64 - 1" by (metis unat_minus_one_u64 word_unat_eq_iff)
  then have "unat i + 1 < 2 ^ 64" using unat_less_u64 [of i] by simp
  then have "i < i + 1" by (simp add: word_less_nat_alt unat_word_ariths)
  then show ?thesis by (auto simp: max_def intro: less_le_trans)
qed simp

lemma set_hm_insert: "hm_ok t \<Longrightarrow> set (hm_insert k v t) = insert (k, v) {p \<in> set t. fst p \<noteq> k}"
  by (induction t) (auto simp: image_iff)

lemma table_ok_insert:
  assumes "table_ok key t n"
  shows "table_ok key (hm_insert (key v) v t) (max n (key v + 1))"
proof -
  have "hm_ok t" using assms by (simp add: table_ok_def)
  then show ?thesis
    using assms less_max_Suc_u64 [of "key v" n]
    by (auto simp: table_ok_def set_hm_insert hm_ok_insert max_def intro: less_le_trans)
qed

lemma table_ok_remove: "table_ok key t n \<Longrightarrow> table_ok key (hm_remove k t) n"
  using hm_ok_remove [of t k] by (auto simp: table_ok_def AList.delete_eq)

lemma msg_step_ok: "msg_step m m' \<Longrightarrow> msg_ok m \<Longrightarrow> msg_ok m'"
  by (erule msg_stepE)
    (simp_all add: msg_ok_def add_region_def add_derivation_def add_access_def add_sync_edge_def
      remove_region_def remove_derivation_def remove_access_def remove_sync_edge_def Let_def
      table_ok_insert table_ok_remove)

lemma reachable_ok: "reachable m \<Longrightarrow> msg_ok m"
proof (induction rule: reachable.induct)
  case Start
  show ?case by (simp add: msg_ok_def msg_new_def table_ok_def)
next
  case (Step m m')
  then show ?case by (blast intro: msg_step_ok)
qed

text \<open>
  C25: In every graph built by any sequence of insertions and removals, a value is stored under its
  own id in each of the four tables, no table has two entries for one id, and the counter of the
  table is beyond every id in it, except for the id \<open>2 ^ 64 - 1\<close>, whose successor wraps.
\<close>

theorem msg_tables_invariant:
  assumes "reachable m"
  shows "msg_ok m
    \<and> (\<forall>i r. region m i = Some r \<longrightarrow> reg_id r = i \<and> (i < next_region_id m \<or> i = - 1))
    \<and> (\<forall>i a. access m i = Some a \<longrightarrow> acc_id a = i \<and> (i < next_access_id m \<or> i = - 1))"
proof -
  have "msg_ok m" using assms by (rule reachable_ok)
  moreover have "key v = k \<and> (k < n \<or> k = - 1)" if "table_ok key t n" "hm_get t k = Some v"
    for key :: "'a \<Rightarrow> u64" and t n k v
    using that by (auto simp: table_ok_def dest: map_of_SomeD)
  ultimately show ?thesis by (auto simp: msg_ok_def region_def access_def table_ok_def dest!: map_of_SomeD)
qed

abbreviation sample_region :: Region where
  "sample_region \<equiv> \<lparr>reg_id = 4, reg_base = 0x1000, reg_size = 64, reg_status = Allocated,
     reg_alloc_point = pp_new ''m.vu'' 1 1, reg_free_point = None, reg_owner_context = None\<rparr>"

lemma reachable_sample: "reachable (fst (add_region msg_new sample_region))"
  by (rule reachable.Step [OF reachable.Start msg_step.AddRegion])

theorem msg_tables_invariant_witness:
  "reg_id sample_region = 4 \<and> ((4 :: u64) < next_region_id (fst (add_region msg_new sample_region)) \<or> (4 :: u64) = - 1)"
  using msg_tables_invariant [OF reachable_sample]
  by (auto simp: region_def add_region_def Let_def msg_new_def)

section \<open>Queries\<close>

text \<open>Regions as the front end should deliver them: proper ranges that do not overlap.\<close>

definition regions_disjoint :: "MSG \<Rightarrow> bool" where
  "regions_disjoint m \<longleftrightarrow>
     (\<forall>i r. region m i = Some r \<longrightarrow> range_ok (reg_base r) (reg_size r))
     \<and> (\<forall>i j r s. region m i = Some r \<longrightarrow> region m j = Some s \<longrightarrow> i \<noteq> j \<longrightarrow> \<not> region_overlaps r s)"

lemma region_of_Some:
  assumes "hm_ok (msg_regions m)" and "region_of m a = Some i"
  shows "\<exists>r. region m i = Some r \<and> region_contains r a"
proof -
  obtain r where "List.find (\<lambda>(i, r). region_contains r a) (msg_regions m) = Some (i, r)"
    using assms(2) by (auto simp: region_of_def)
  then have "(i, r) \<in> set (msg_regions m)" "region_contains r a" by (auto simp: find_Some_iff dest: nth_mem)
  then show ?thesis using assms(1) by (auto simp: region_def)
qed

text \<open>
  When the regions do not overlap, the region found for an address is the one that contains
  it, whatever order the table is searched in: the answer is a region exactly if that region is in
  the graph and contains the address.
\<close>

theorem region_of_unique:
  assumes "reachable m" and "regions_disjoint m"
  shows "region_of m a = Some i \<longleftrightarrow> (\<exists>r. region m i = Some r \<and> region_contains r a)"
proof -
  have ok: "hm_ok (msg_regions m)"
    using reachable_ok [OF assms(1)] by (simp add: msg_ok_def table_ok_def)
  have "region_of m a = Some i" if r: "region m i = Some r" "region_contains r a" for r
  proof (cases "region_of m a")
    case None
    then have "\<forall>(i, r) \<in> set (msg_regions m). \<not> region_contains r a"
      by (auto simp: region_of_def find_None_iff)
    then show ?thesis using r by (auto simp: region_def dest: map_of_SomeD)
  next
    case (Some j)
    then obtain s where s: "region m j = Some s" "region_contains s a" using region_of_Some [OF ok] by blast
    have "region_overlaps r s \<longleftrightarrow> (\<exists>x. region_contains r x \<and> region_contains s x)"
      using assms(2) r(1) s(1) by (intro region_overlap_iff) (auto simp: regions_disjoint_def)
    then have "region_overlaps r s" using r(2) s(2) by blast
    then have "i = j" using assms(2) r(1) s(1) unfolding regions_disjoint_def by blast
    then show ?thesis using Some by simp
  qed
  then show ?thesis using region_of_Some [OF ok] by blast
qed

theorem region_of_unique_witness:
  "region_of (fst (add_region msg_new sample_region)) 0x1010 = Some 4"
proof -
  have "regions_disjoint (fst (add_region msg_new sample_region))"
    by (simp add: regions_disjoint_def region_def add_region_def Let_def msg_new_def range_ok_def)
  then have "region_of (fst (add_region msg_new sample_region)) 0x1010 = Some 4 \<longleftrightarrow>
      (\<exists>r. region (fst (add_region msg_new sample_region)) 4 = Some r \<and> region_contains r 0x1010)"
    by (rule region_of_unique [OF reachable_sample])
  then show ?thesis
    by (simp add: region_def add_region_def Let_def msg_new_def region_contains_def region_end_def address_add_def)
qed

lemma ordered_with_dom:
  "hm_get (ordered_with es i) a \<noteq> None \<longleftrightarrow> (\<exists>e \<in> set es. orders e i a \<or> orders e a i)"
proof -
  define f where "f = (\<lambda>(edge :: SyncEdge) ordered.
       let ordered = (if se_access1 edge = i then hm_insert (se_access2 edge) True ordered else ordered)
       in (if se_access2 edge = i then hm_insert (se_access1 edge) True ordered else ordered))"
  have "hm_get (fold f es acc) a \<noteq> None \<longleftrightarrow> hm_get acc a \<noteq> None \<or> (\<exists>e \<in> set es. orders e i a \<or> orders e a i)" for acc
    by (induction es arbitrary: acc) (auto simp: f_def Let_def hm_get_insert orders_def split: if_splits)
  from this [of "[]"] show ?thesis by (simp add: ordered_with_def f_def)
qed

text \<open>
  The accesses reported as concurrent with an access are exactly the other accesses of the
  graph that no synchronisation edge orders against it, in either direction; hence the relation is
  symmetric on the accesses of the graph.
\<close>

theorem concurrent_accesses_exact:
  "(b \<in> set (concurrent_accesses m a) \<longleftrightarrow>
      access m b \<noteq> None \<and> b \<noteq> a \<and> (\<forall>e \<in> snd ` set (msg_sync_edges m). \<not> orders e a b \<and> \<not> orders e b a))
   \<and> (access m a \<noteq> None \<and> b \<in> set (concurrent_accesses m a) \<longrightarrow> a \<in> set (concurrent_accesses m b))"
proof -
  have dom: "hm_get (ordered_with (map snd (msg_sync_edges m)) x) y = None
      \<longleftrightarrow> (\<forall>e \<in> snd ` set (msg_sync_edges m). \<not> orders e x y \<and> \<not> orders e y x)" for x y
    using ordered_with_dom [of "map snd (msg_sync_edges m)" x y] by (cases "hm_get (ordered_with (map snd (msg_sync_edges m)) x) y") (auto simp del: map_of_eq_None_iff)
  have "y \<in> set (concurrent_accesses m x) \<longleftrightarrow>
      access m y \<noteq> None \<and> y \<noteq> x \<and> (\<forall>e \<in> snd ` set (msg_sync_edges m). \<not> orders e x y \<and> \<not> orders e y x)" for x y
    using dom [of x y] unfolding concurrent_accesses_def Let_def access_def
    by (simp add: map_of_eq_None_iff)
  then show ?thesis by blast
qed

theorem concurrent_accesses_exact_witness:
  "1 \<in> set (concurrent_accesses (fst (add_access (fst (add_access msg_new (access_new 1 0 WriteAccess 4 (pp_new ''m'' 1 1))))
      (access_new 2 0 ReadAccess 4 (pp_new ''m'' 2 1)))) 2)"
  using concurrent_accesses_exact [of 1 "fst (add_access (fst (add_access msg_new (access_new 1 0 WriteAccess 4 (pp_new ''m'' 1 1))))
      (access_new 2 0 ReadAccess 4 (pp_new ''m'' 2 1)))" 2]
  by (simp add: access_def add_access_def Let_def msg_new_def access_new_def)

end
