(* ===== verification/Ive_State.thy ===== *)
theory Ive_State
  imports Vuma_Prelude
begin

text \<open>
  The state verifiers of the invariant verification engine: \<^verbatim>\<open>state_read.rs\<close>, \<^verbatim>\<open>state_write.rs\<close> and
  \<^verbatim>\<open>state_transform.rs\<close> under \<^verbatim>\<open>src/src/ive/src\<close>. The three modules carry identical copies of \<^verbatim>\<open>LayoutInfo\<close> and
  \<^verbatim>\<open>FieldInfo\<close>; they are one record each here. An error message is the constructor of the branch
  that formats it, with the values it formats. The theory shows that a read or a write is accepted
  exactly when its field exists, has the stated type and lies inside the layout, that no write to a
  consumed state is accepted, and what the dependent-array check decides.
\<close>

section \<open>Data\<close>

record FieldInfo =
  fi_name :: string
  fi_offset :: u64
  fi_size :: u64
  fi_type_name :: string

record LayoutInfo =
  li_name :: string
  li_total_size :: u64
  li_fields :: "FieldInfo list"

datatype StateError =
    LinearityViolation string
  | NotStateTyped string
  | LayoutNotFound string
  | FieldExceedsLayout string u64 u64 "string option" u64
  | TypeMismatch string string string
  | FieldNotFound string string

record StateVerification =
  var_name :: string
  layout_name :: string
  field_name :: string
  valid :: bool
  error :: "StateError option"

type_synonym StateReadVerification = StateVerification
type_synonym StateWriteVerification = StateVerification
type_synonym var_layouts = "(string, string) hmap"
type_synonym layouts = "(string, LayoutInfo) hmap"

section \<open>Reads\<close>

definition rejected :: "string \<Rightarrow> string \<Rightarrow> string \<Rightarrow> StateError \<Rightarrow> StateVerification" where
  "rejected var layout field e =
     \<lparr>var_name = var, layout_name = layout, field_name = field, valid = False, error = Some e\<rparr>"

definition accepted :: "string \<Rightarrow> string \<Rightarrow> string \<Rightarrow> StateVerification" where
  "accepted var layout field =
     \<lparr>var_name = var, layout_name = layout, field_name = field, valid = True, error = None\<rparr>"

text \<open>One iteration of the loop of \<^verbatim>\<open>verify_state_reads\<close>; the sum \<^verbatim>\<open>offset + size\<close> wraps.\<close>

definition verify_state_read ::
  "var_layouts \<Rightarrow> layouts \<Rightarrow> string \<times> string \<times> string \<Rightarrow> StateReadVerification" where
  "verify_state_read state_var_layouts layouts = (\<lambda>(var, field, expected_type).
     case hm_get state_var_layouts var of
       None \<Rightarrow> rejected var [] field (NotStateTyped var)
     | Some layout \<Rightarrow>
         (case hm_get layouts layout of
            None \<Rightarrow> rejected var layout field (LayoutNotFound layout)
          | Some l \<Rightarrow>
              (case List.find (\<lambda>f. fi_name f = field) (li_fields l) of
                 Some fi \<Rightarrow>
                   if fi_offset fi + fi_size fi > li_total_size l
                   then rejected var layout field
                     (FieldExceedsLayout field (fi_offset fi) (fi_size fi) (Some layout) (li_total_size l))
                   else if fi_type_name fi \<noteq> expected_type
                   then rejected var layout field (TypeMismatch field (fi_type_name fi) expected_type)
                   else accepted var layout field
               | None \<Rightarrow> rejected var layout field (FieldNotFound field layout))))"

definition verify_state_reads ::
  "var_layouts \<Rightarrow> layouts \<Rightarrow> (string \<times> string \<times> string) list \<Rightarrow> StateReadVerification list" where
  "verify_state_reads state_var_layouts layouts reads = map (verify_state_read state_var_layouts layouts) reads"

definition all_valid :: "StateVerification list \<Rightarrow> bool" where
  "all_valid results = list_all valid results"

section \<open>Writes\<close>

record StateWriteOp =
  sw_var_name :: string
  sw_field_name :: string
  sw_value_type :: string
  sw_after_consume :: bool

text \<open>One iteration of the loop of \<^verbatim>\<open>verify_state_writes\<close>: the linearity check comes first.\<close>

definition verify_state_write ::
  "var_layouts \<Rightarrow> layouts \<Rightarrow> string set \<Rightarrow> StateWriteOp \<Rightarrow> StateWriteVerification" where
  "verify_state_write state_var_layouts layouts consumed_vars w =
     (let var = sw_var_name w; field = sw_field_name w in
      if sw_after_consume w \<or> var \<in> consumed_vars then rejected var [] field (LinearityViolation var)
      else
        (case hm_get state_var_layouts var of
           None \<Rightarrow> rejected var [] field (NotStateTyped var)
         | Some layout \<Rightarrow>
             (case hm_get layouts layout of
                None \<Rightarrow> rejected var layout field (LayoutNotFound layout)
              | Some l \<Rightarrow>
                  (case List.find (\<lambda>f. fi_name f = field) (li_fields l) of
                     Some fi \<Rightarrow>
                       if fi_offset fi + fi_size fi > li_total_size l
                       then rejected var layout field
                         (FieldExceedsLayout field (fi_offset fi) (fi_size fi) None (li_total_size l))
                       else if fi_type_name fi \<noteq> sw_value_type w
                       then rejected var layout field (TypeMismatch field (fi_type_name fi) (sw_value_type w))
                       else accepted var layout field
                   | None \<Rightarrow> rejected var layout field (FieldNotFound field layout)))))"

definition verify_state_writes ::
  "var_layouts \<Rightarrow> layouts \<Rightarrow> StateWriteOp list \<Rightarrow> string set \<Rightarrow> StateWriteVerification list" where
  "verify_state_writes state_var_layouts layouts writes consumed_vars =
     map (verify_state_write state_var_layouts layouts consumed_vars) writes"

section \<open>Transforms\<close>

datatype TransformKind = Reinterpret | Copy | Identity

datatype TransformError = InputLayoutNotFound string | OutputLayoutNotFound string

record StateTransformVerification =
  st_input_layout :: string
  st_output_layout :: string
  st_valid :: bool
  st_transform_kind :: TransformKind
  st_error :: "TransformError option"

definition verify_transform :: "layouts \<Rightarrow> string \<Rightarrow> string \<Rightarrow> StateTransformVerification" where
  "verify_transform layouts input_layout output_layout =
     (case hm_get layouts input_layout of
        None \<Rightarrow> \<lparr>st_input_layout = input_layout, st_output_layout = output_layout, st_valid = False,
                 st_transform_kind = Copy, st_error = Some (InputLayoutNotFound input_layout)\<rparr>
      | Some in_info \<Rightarrow>
          (case hm_get layouts output_layout of
             None \<Rightarrow> \<lparr>st_input_layout = input_layout, st_output_layout = output_layout, st_valid = False,
                      st_transform_kind = Copy, st_error = Some (OutputLayoutNotFound output_layout)\<rparr>
           | Some out_info \<Rightarrow>
               \<lparr>st_input_layout = input_layout, st_output_layout = output_layout, st_valid = True,
                st_transform_kind =
                  (if input_layout = output_layout then Identity
                   else if li_total_size in_info = li_total_size out_info then Reinterpret else Copy),
                st_error = None\<rparr>))"

definition verify_all_transforms ::
  "layouts \<Rightarrow> (string \<times> string) list \<Rightarrow> StateTransformVerification list" where
  "verify_all_transforms layouts transforms = map (\<lambda>(inp, out). verify_transform layouts inp out) transforms"

definition all_transforms_valid :: "StateTransformVerification list \<Rightarrow> bool" where
  "all_transforms_valid results = list_all st_valid results"

definition verify_dependent_transform :: "u64 \<Rightarrow> u64 \<Rightarrow> u64 \<Rightarrow> u64 \<Rightarrow> bool" where
  "verify_dependent_transform elem_size count offset buffer_size =
     (sat_add offset (sat_mul count elem_size) \<le> buffer_size)"

section \<open>What acceptance of an access means\<close>

text \<open>
  The contract both access verifiers promise: an access is accepted iff it is not refused up front
  and its field is found, typed as stated and, in \<^verbatim>\<open>u64\<close> arithmetic, inside the layout. On layouts
  whose fields end below \<open>2 ^ 64\<close> the last test is the mathematical one.
\<close>

definition resolves :: "var_layouts \<Rightarrow> layouts \<Rightarrow> string \<Rightarrow> string \<Rightarrow> LayoutInfo \<Rightarrow> FieldInfo \<Rightarrow> bool" where
  "resolves svl ls var field l fi =
     (\<exists>n. hm_get svl var = Some n \<and> hm_get ls n = Some l \<and> List.find (\<lambda>f. fi_name f = field) (li_fields l) = Some fi)"

definition fields_fit :: "LayoutInfo \<Rightarrow> bool" where
  "fields_fit l = (\<forall>f \<in> set (li_fields l). unat (fi_offset f) + unat (fi_size f) < 2 ^ 64)"

lemma resolves_unique: "resolves svl ls var field l fi \<Longrightarrow> resolves svl ls var field l' fi' \<Longrightarrow> l' = l \<and> fi' = fi"
  by (auto simp: resolves_def)

lemma fits_word_le:
  fixes a b t :: u64
  assumes "unat a + unat b < 2 ^ 64"
  shows "\<not> t < a + b \<longleftrightarrow> unat a + unat b \<le> unat t"
  using assms by (simp add: word_less_nat_alt unat_word_ariths not_less)

locale field_access =
  fixes verify :: "var_layouts \<Rightarrow> layouts \<Rightarrow> 'op \<Rightarrow> StateVerification"
    and var_of :: "'op \<Rightarrow> string" and field_of :: "'op \<Rightarrow> string" and type_of :: "'op \<Rightarrow> string"
    and refused :: "'op \<Rightarrow> bool"
  assumes verdict: "valid (verify svl ls op) \<longleftrightarrow> \<not> refused op \<and>
      (\<exists>l fi. resolves svl ls (var_of op) (field_of op) l fi
         \<and> \<not> li_total_size l < fi_offset fi + fi_size fi \<and> fi_type_name fi = type_of op)"
    and reported: "error (verify svl ls op) = None \<longleftrightarrow> valid (verify svl ls op)"
    and subject: "var_name (verify svl ls op) = var_of op" "field_name (verify svl ls op) = field_of op"
begin

lemma verdict_in_bounds:
  assumes "\<And>n l. hm_get ls n = Some l \<Longrightarrow> fields_fit l"
  shows "valid (verify svl ls op) \<longleftrightarrow> \<not> refused op \<and>
    (\<exists>l fi. resolves svl ls (var_of op) (field_of op) l fi
       \<and> unat (fi_offset fi) + unat (fi_size fi) \<le> unat (li_total_size l) \<and> fi_type_name fi = type_of op)"
proof -
  have "\<not> li_total_size l < fi_offset fi + fi_size fi
      \<longleftrightarrow> unat (fi_offset fi) + unat (fi_size fi) \<le> unat (li_total_size l)"
    if r: "resolves svl ls (var_of op) (field_of op) l fi" for l fi
  proof (rule fits_word_le)
    have "fields_fit l" using assms r by (auto simp: resolves_def)
    moreover have "fi \<in> set (li_fields l)" using r by (auto simp: resolves_def dest: find_Some_mem)
    ultimately show "unat (fi_offset fi) + unat (fi_size fi) < 2 ^ 64" by (auto simp: fields_fit_def)
  qed
  then show ?thesis unfolding verdict by blast
qed

lemma all_verdicts: "all_valid (map (verify svl ls) ops) \<longleftrightarrow> (\<forall>op \<in> set ops. valid (verify svl ls op))"
  by (simp add: all_valid_def list_all_iff)

lemma unresolved: "\<nexists>l fi. resolves svl ls (var_of op) (field_of op) l fi \<Longrightarrow> \<not> valid (verify svl ls op)"
  using verdict by blast

end

lemmas access_defs = rejected_def accepted_def resolves_def

interpretation read_access: field_access verify_state_read fst "fst \<circ> snd" "snd \<circ> snd" "\<lambda>_. False"
  by unfold_locales
    (auto simp: verify_state_read_def access_defs split: option.splits prod.splits)

interpretation write_access: field_access "\<lambda>svl ls. verify_state_write svl ls consumed"
    sw_var_name sw_field_name sw_value_type "\<lambda>w. sw_after_consume w \<or> sw_var_name w \<in> consumed"
  for consumed
  by unfold_locales (auto simp: verify_state_write_def access_defs Let_def split: option.splits)

section \<open>Properties\<close>

text \<open>
  When no field of a known layout ends at or above \<open>2 ^ 64\<close>, \<^verbatim>\<open>verify_state_reads\<close> returns one
  result per read, in order, naming the variable and the field, and a result is valid exactly when
  the variable has a known layout whose first field of that name lies inside the layout and has the
  expected type; an error is present exactly on invalid results.
\<close>

theorem state_reads_exact:
  assumes "\<forall>n l. hm_get ls n = Some l \<longrightarrow> fields_fit l" and "i < length reads"
  shows "length (verify_state_reads svl ls reads) = length reads
    \<and> (let r = verify_state_reads svl ls reads ! i; (var, field, ty) = reads ! i in
        var_name r = var \<and> field_name r = field \<and> (error r = None \<longleftrightarrow> valid r)
        \<and> (valid r \<longleftrightarrow> (\<exists>l fi. resolves svl ls var field l fi
             \<and> unat (fi_offset fi) + unat (fi_size fi) \<le> unat (li_total_size l) \<and> fi_type_name fi = ty)))"
proof -
  obtain var field ty where rd: "reads ! i = (var, field, ty)" by (metis prod_cases3)
  note V = read_access.verdict_in_bounds [of ls svl "(var, field, ty)"]
  show ?thesis
    using assms V read_access.reported [of svl ls "(var, field, ty)"] read_access.subject [of svl ls "(var, field, ty)"]
    by (simp add: verify_state_reads_def rd)
qed

definition demo_layouts :: layouts where
  "demo_layouts = [(''Point'', \<lparr>li_name = ''Point'', li_total_size = 8,
     li_fields = [\<lparr>fi_name = ''x'', fi_offset = 0, fi_size = 4, fi_type_name = ''u32''\<rparr>,
                  \<lparr>fi_name = ''y'', fi_offset = 4, fi_size = 4, fi_type_name = ''u32''\<rparr>]\<rparr>)]"

lemma demo_layouts_fit: "hm_get demo_layouts n = Some l \<longrightarrow> fields_fit l"
  by (auto simp: demo_layouts_def fields_fit_def)

theorem state_reads_exact_witness:
  "var_name (verify_state_reads [(''p'', ''Point'')] demo_layouts [(''p'', ''y'', ''u32'')] ! 0) = ''p''
   \<and> valid (verify_state_reads [(''p'', ''Point'')] demo_layouts [(''p'', ''y'', ''u32'')] ! 0)"
  using state_reads_exact [of demo_layouts 0 "[(''p'', ''y'', ''u32'')]" "[(''p'', ''Point'')]"]
  by (simp add: demo_layouts_fit Let_def) (simp add: demo_layouts_def resolves_def)

text \<open>
  \<^verbatim>\<open>verify_state_writes\<close> accepts a list of writes exactly when none of them writes a consumed
  state and each of them names, on a known layout, a field of the written type that lies inside the
  layout; under the same bound on the fields as for reads.
\<close>

theorem state_writes_exact:
  assumes "\<forall>n l. hm_get ls n = Some l \<longrightarrow> fields_fit l"
  shows "all_valid (verify_state_writes svl ls writes consumed) \<longleftrightarrow>
    (\<forall>w \<in> set writes. \<not> sw_after_consume w \<and> sw_var_name w \<notin> consumed
       \<and> (\<exists>l fi. resolves svl ls (sw_var_name w) (sw_field_name w) l fi
            \<and> unat (fi_offset fi) + unat (fi_size fi) \<le> unat (li_total_size l)
            \<and> fi_type_name fi = sw_value_type w))"
  using write_access.verdict_in_bounds [of ls svl consumed] assms
  unfolding verify_state_writes_def write_access.all_verdicts by auto

theorem state_writes_exact_witness:
  "\<not> all_valid (verify_state_writes [(''p'', ''Point'')] demo_layouts
      [\<lparr>sw_var_name = ''p'', sw_field_name = ''x'', sw_value_type = ''u32'', sw_after_consume = False\<rparr>] {''p''})
   \<and> all_valid (verify_state_writes [(''p'', ''Point'')] demo_layouts
      [\<lparr>sw_var_name = ''p'', sw_field_name = ''x'', sw_value_type = ''u32'', sw_after_consume = False\<rparr>] {})"
  using state_writes_exact [of demo_layouts "[(''p'', ''Point'')]"
      "[\<lparr>sw_var_name = ''p'', sw_field_name = ''x'', sw_value_type = ''u32'', sw_after_consume = False\<rparr>]"]
  by (simp add: demo_layouts_fit) (simp add: demo_layouts_def resolves_def)

text \<open>
  Without that bound the sum \<^verbatim>\<open>offset + size\<close> of a release build wraps: a read of eight bytes at offset
  \<open>2 ^ 64 - 4\<close> of an eight byte layout is accepted.
\<close>

lemma state_read_wraps:
  "valid (verify_state_read [(''p'', ''L'')]
     [(''L'', \<lparr>li_name = ''L'', li_total_size = 8,
        li_fields = [\<lparr>fi_name = ''f'', fi_offset = - 4, fi_size = 8, fi_type_name = ''u64''\<rparr>]\<rparr>)]
     (''p'', ''f'', ''u64''))"
  by (simp add: verify_state_read_def accepted_def)

text \<open>
  \<^verbatim>\<open>verify_dependent_transform\<close> decides \<open>offset + count * elem_size \<le> buffer_size\<close> over the integers
  for every buffer smaller than \<^verbatim>\<open>u64::MAX\<close> bytes; for a buffer of exactly \<^verbatim>\<open>u64::MAX\<close> bytes it accepts
  every access, in or out of bounds.
\<close>

theorem dependent_transform_exact:
  "verify_dependent_transform elem_size count offset buffer_size \<longleftrightarrow>
     unat offset + unat count * unat elem_size \<le> unat buffer_size \<or> unat buffer_size = 2 ^ 64 - 1"
proof -
  have "unat buffer_size < 2 ^ 64" by (rule unat_less_u64)
  then show ?thesis
    unfolding verify_dependent_transform_def word_le_nat_alt unat_sat_add unat_sat_mul by (auto simp: min_def)
qed

text \<open>
  A list of transforms is accepted exactly when every input and output layout is known; a transform
  between known layouts keeps the buffer exactly when both have the same total size.
\<close>

lemma st_valid_iff: "st_valid (verify_transform ls i j) \<longleftrightarrow> i \<in> dom (hm_get ls) \<and> j \<in> dom (hm_get ls)"
  by (auto simp: verify_transform_def split: option.splits)

lemma transforms_exact:
  "all_transforms_valid (verify_all_transforms ls ts) \<longleftrightarrow>
     (\<forall>(i, j) \<in> set ts. i \<in> dom (hm_get ls) \<and> j \<in> dom (hm_get ls))"
proof -
  have "(\<lambda>(i, j). st_valid (verify_transform ls i j))
      = (\<lambda>(i, j). i \<in> dom (hm_get ls) \<and> j \<in> dom (hm_get ls))"
    by (simp only: st_valid_iff)
  then show ?thesis
    by (simp add: all_transforms_valid_def verify_all_transforms_def list_all_iff split_beta fun_eq_iff)
qed

lemma transform_in_place:
  assumes "hm_get ls i = Some a" and "hm_get ls j = Some b"
  shows "st_transform_kind (verify_transform ls i j) \<noteq> Copy \<longleftrightarrow> li_total_size a = li_total_size b"
  using assms by (auto simp: verify_transform_def)

end
