(* ===== verification/Ive_Layout.thy ===== *)
theory Ive_Layout
  imports Bd_Layout
begin

text \<open>
  The layout cross-checks of \<^verbatim>\<open>src/src/ive/src/verification.rs\<close>: the engine re-derives offsets and sizes from
  type names (\<^verbatim>\<open>type_align_size\<close>, \<^verbatim>\<open>rederive_layout\<close>), compares them with the layouts it was handed
  (\<^verbatim>\<open>verify_layout_consistency\<close>) and compares field lists (\<^verbatim>\<open>verify_layout_field_list_consistency\<close>).
  The theory shows that the re-derivation computes the placement of the layout registry of
  theory \<open>Bd_Layout\<close>, and what an empty list of mismatches guarantees.

  Type names are parsed as byte strings. \<^verbatim>\<open>str::trim\<close> strips the UTF-8 encodings of the
  Unicode \<^verbatim>\<open>White_Space\<close> characters; \<^verbatim>\<open>str::parse::<u64>\<close> takes an optional plus sign and digits.
\<close>

section \<open>String functions of the standard library\<close>

definition white_space :: "string list" where
  "white_space =
     map (\<lambda>c. [c]) [CHR 0x09, CHR 0x0A, CHR 0x0B, CHR 0x0C, CHR 0x0D, CHR 0x20] @
     [[CHR 0xC2, CHR 0x85], [CHR 0xC2, CHR 0xA0], [CHR 0xE1, CHR 0x9A, CHR 0x80]] @
     map (\<lambda>c. [CHR 0xE2, CHR 0x80, c])
       [CHR 0x80, CHR 0x81, CHR 0x82, CHR 0x83, CHR 0x84, CHR 0x85, CHR 0x86, CHR 0x87, CHR 0x88,
        CHR 0x89, CHR 0x8A, CHR 0xA8, CHR 0xA9, CHR 0xAF] @
     [[CHR 0xE2, CHR 0x81, CHR 0x9F], [CHR 0xE3, CHR 0x80, CHR 0x80]]"

fun strip :: "string list \<Rightarrow> string \<Rightarrow> string" where
  "strip ws [] = []"
| "strip ws (c # cs) =
     (case List.find (\<lambda>w. take (length w) (c # cs) = w) ws of
        None \<Rightarrow> c # cs
      | Some w \<Rightarrow> strip ws (drop (length w - 1) cs))"

definition trim :: "string \<Rightarrow> string" where
  "trim s = rev (strip (map rev white_space) (rev (strip white_space s)))"

definition is_digit :: "char \<Rightarrow> bool" where
  "is_digit c = (of_char c \<in> {48 .. 57 :: nat})"

definition parse_u64 :: "string \<Rightarrow> u64 option" where
  "parse_u64 s =
     (let digits = (if s \<noteq> [] \<and> hd s = CHR ''+'' then tl s else s);
          value = foldl (\<lambda>acc c. acc * 10 + (of_char c - 48)) (0 :: nat) digits
      in if digits \<noteq> [] \<and> list_all is_digit digits \<and> value < 2 ^ 64 then Some (of_nat value) else None)"

text \<open>\<^verbatim>\<open>rfind(';')\<close>: what is in front of the last semicolon and what is behind it.\<close>

definition rsplit_semi :: "string \<Rightarrow> (string \<times> string) option" where
  "rsplit_semi s =
     (if CHR '';'' \<in> set s
      then Some (rev (tl (dropWhile (\<lambda>c. c \<noteq> CHR '';'') (rev s))), rev (takeWhile (\<lambda>c. c \<noteq> CHR '';'') (rev s)))
      else None)"

definition starts_with :: "string \<Rightarrow> string \<Rightarrow> bool" where
  "starts_with s p = (take (length p) s = p)"

lemma length_strip: "length (strip ws s) \<le> length s"
  by (induction ws s rule: strip.induct) (auto split: option.splits intro: order_trans)

lemma length_trim: "length (trim s) \<le> length s"
  using length_strip [of white_space s] length_strip [of "map rev white_space" "rev (strip white_space s)"]
  by (simp add: trim_def)

lemma length_rsplit_semi:
  assumes "rsplit_semi s = Some (a, b)"
  shows "length a < length s"
proof -
  define d where "d = dropWhile (\<lambda>c. c \<noteq> CHR '';'') (rev s)"
  have a: "a = rev (tl d)" and mem: "CHR '';'' \<in> set (rev s)"
    using assms by (auto simp: rsplit_semi_def d_def split: if_splits)
  have "d \<noteq> []" using mem by (auto simp: d_def dropWhile_eq_Nil_conv)
  then have "length a < length d" by (simp add: a)
  also have "\<dots> \<le> length s" using length_dropWhile_le [of "\<lambda>c. c \<noteq> CHR '';''" "rev s"] by (simp add: d_def)
  finally show ?thesis .
qed

section \<open>Sizes and alignments of type names\<close>

definition is_array_type :: "string \<Rightarrow> bool" where
  "is_array_type t = (t \<noteq> [] \<and> hd t = CHR ''['' \<and> last t = CHR '']'')"

function type_align_size :: "string \<Rightarrow> u64 \<times> u64" where
  "type_align_size type_name =
     (let t = trim type_name in
      if is_array_type t
      then (case rsplit_semi (butlast (tl t)) of
              None \<Rightarrow> (8, 8)
            | Some (elem_str, count_str) \<Rightarrow>
                (case parse_u64 (trim count_str) of
                   None \<Rightarrow> (8, 8)
                 | Some count \<Rightarrow>
                     (let (elem_align, elem_size) = type_align_size (trim elem_str)
                      in (elem_align, sat_mul elem_size count))))
      else if starts_with t ''*'' \<or> starts_with t ''Ptr<'' \<or> starts_with t ''RegionPtr<'' \<or> t = ''Channel''
      then (8, 8)
      else if t \<in> {''i8'', ''u8'', ''bool''} then (1, 1)
      else if t \<in> {''i16'', ''u16''} then (2, 2)
      else if t \<in> {''i32'', ''u32'', ''f32''} then (4, 4)
      else if t \<in> {''i64'', ''u64'', ''f64''} then (8, 8)
      else (8, 8))"
  by pat_completeness auto

lemma array_element_shorter:
  assumes "rsplit_semi (butlast (tl (trim s))) = Some (e, c)"
  shows "length (trim e) < length s"
proof -
  have "length e < length (butlast (tl (trim s)))" by (rule length_rsplit_semi [OF assms])
  then show ?thesis using length_trim [of e] length_trim [of s] by simp
qed

termination type_align_size
  by (relation "measure length") (auto intro: array_element_shorter)

declare type_align_size.simps [simp del]

definition type_align :: "string \<Rightarrow> u64" where
  "type_align t = fst (type_align_size t)"

lemma type_align_cases: "type_align t \<in> {1, 2, 4, 8}"
  unfolding type_align_def
proof (induction t rule: type_align_size.induct)
  case (1 t)
  show ?case
  proof (cases "is_array_type (trim t)")
    case False
    then show ?thesis by (subst type_align_size.simps) (simp add: Let_def)
  next
    case True
    have rec: "fst (type_align_size (trim e)) \<in> {1, 2, 4, 8}"
      if "rsplit_semi (butlast (tl (trim t))) = Some (e, c)" and "parse_u64 (trim c) = Some n" for e c n
      using "1.IH" True that by blast
    from True rec show ?thesis
      by (subst type_align_size.simps)
        (simp only: Let_def if_True split: option.split prod.split, simp only: fst_conv, fastforce)
  qed
qed

section \<open>Re-deriving a layout\<close>

record PmtFieldSpec =
  pf_name :: string
  pf_offset :: u64
  pf_size :: u64
  pf_type_name :: string

record PmtLayoutSpec =
  pl_name :: string
  pl_total_size :: u64
  pl_fields :: "PmtFieldSpec list"

definition align_up :: "u64 \<Rightarrow> u64 \<Rightarrow> u64" where
  "align_up offset align =
     (if align > 1 \<and> \<not> is_multiple_of offset align then (offset + align - 1) AND NOT (align - 1) else offset)"

text \<open>The loop of \<^verbatim>\<open>rederive_layout\<close> from a running offset and alignment.\<close>

fun rederive_fields :: "PmtFieldSpec list \<Rightarrow> u64 \<Rightarrow> u64 \<Rightarrow> (u64 \<times> u64) list \<times> u64 \<times> u64" where
  "rederive_fields [] offset max_align = ([], offset, max_align)"
| "rederive_fields (field # rest) offset max_align =
     (let (align, _) = type_align_size (pf_type_name field);
          sz = pf_size field;
          offset = align_up offset align;
          (result, final_offset, final_align) = rederive_fields rest (offset + sz) (max max_align align)
      in ((offset, sz) # result, final_offset, final_align))"

definition rederive_layout :: "PmtFieldSpec list \<Rightarrow> u64 \<times> (u64 \<times> u64) list" where
  "rederive_layout fs =
     (let (result, offset, max_align) = rederive_fields fs 0 1
      in (align_up offset max_align, result))"

datatype LayoutMismatch =
    TotalSizeMismatch string u64 u64
  | OffsetMismatch string string u64 u64
  | SizeMismatch string string u64 u64

definition layout_mismatches :: "string \<Rightarrow> PmtLayoutSpec \<Rightarrow> LayoutMismatch list" where
  "layout_mismatches name spec =
     (let (derived_total, derived_fields) = rederive_layout (pl_fields spec) in
      (if derived_total \<noteq> pl_total_size spec
       then [TotalSizeMismatch name (pl_total_size spec) derived_total] else []) @
      concat (map (\<lambda>(i, derived_offset, derived_size).
          if i < length (pl_fields spec)
          then (let field = pl_fields spec ! i in
                (if derived_offset \<noteq> pf_offset field
                 then [OffsetMismatch name (pf_name field) (pf_offset field) derived_offset] else []) @
                (if derived_size \<noteq> pf_size field
                 then [SizeMismatch name (pf_name field) (pf_size field) derived_size] else []))
          else []) (enumerate 0 derived_fields)))"

definition verify_layout_consistency :: "(string, PmtLayoutSpec) hmap \<Rightarrow> LayoutMismatch list" where
  "verify_layout_consistency layouts = concat (map (\<lambda>(name, spec). layout_mismatches name spec) layouts)"

datatype FieldListMismatch =
    LayoutMissing string
  | FieldCountMismatch string nat nat
  | FieldNotDeclared string nat string "string list"

definition field_list_mismatches ::
  "(string, PmtLayoutSpec) hmap \<Rightarrow> string \<Rightarrow> PmtLayoutSpec \<Rightarrow> FieldListMismatch list" where
  "field_list_mismatches parser_layouts name derived_spec =
     (case hm_get parser_layouts name of
        None \<Rightarrow> [LayoutMissing name]
      | Some parser_spec \<Rightarrow>
          (let parser_field_names = map pf_name (pl_fields parser_spec) in
           (if length (pl_fields derived_spec) > length (pl_fields parser_spec)
            then [FieldCountMismatch name (length (pl_fields parser_spec)) (length (pl_fields derived_spec))]
            else []) @
           concat (map (\<lambda>(i, df).
               if pf_name df \<notin> set parser_field_names
               then [FieldNotDeclared name i (pf_name df) parser_field_names] else [])
             (enumerate 0 (pl_fields derived_spec)))))"

definition verify_layout_field_list_consistency ::
  "(string, PmtLayoutSpec) hmap \<Rightarrow> (string, PmtLayoutSpec) hmap \<Rightarrow> FieldListMismatch list" where
  "verify_layout_field_list_consistency parser_layouts ivederived_layouts =
     concat (map (\<lambda>(name, spec). field_list_mismatches parser_layouts name spec) ivederived_layouts)"

section \<open>Alignment by masking\<close>

lemma and_not_mask: "unat (x AND NOT (mask k) :: u64) = unat x div 2 ^ k * 2 ^ k"
proof -
  have "x AND NOT (mask k) = push_bit k (drop_bit k x)"
    by (rule bit_word_eqI) (auto simp: bit_simps)
  moreover have "take_bit 64 (unat x) = unat x" by (rule take_bit_nat_eq_self [OF unat_less_u64])
  ultimately have "unat (x AND NOT (mask k)) = take_bit 64 (push_bit k (drop_bit k (unat x)))"
    by (simp only: unsigned_push_bit_eq unsigned_drop_bit_eq) simp
  moreover have "unat x div 2 ^ k * 2 ^ k < 2 ^ 64"
    using unat_less_u64 [of x] div_times_less_eq_dividend [of "unat x" "2 ^ k"] by linarith
  ultimately show ?thesis by (simp only: push_bit_eq_mult drop_bit_eq_div take_bit_eq_mod mod_less)
qed

lemma multiple_unique:
  fixes a v x y :: nat
  assumes "a dvd x" "v \<le> x" "x < v + a" "a dvd y" "v \<le> y" "y < v + a"
  shows "x = y"
proof -
  obtain p q where x: "x = a * p" and y: "y = a * q" using assms(1,4) by (auto elim!: dvdE)
  have "a * p < a * Suc q" and "a * q < a * Suc p" using assms by (simp_all add: x y)
  then have "p < Suc q" and "q < Suc p" by (simp_all only: mult_less_cancel1)
  then show ?thesis by (simp add: x y)
qed

lemma align_up_bump:
  assumes a: "a \<in> {1, 2, 4, 8}" and fits: "unat v + unat a \<le> 2 ^ 64"
  shows "align_up v a = bump v a"
proof -
  obtain k where k: "unat a = 2 ^ k" "a - 1 = mask k"
  proof -
    have "unat a = 2 ^ 0 \<and> a - 1 = mask 0 \<or> unat a = 2 ^ 1 \<and> a - 1 = mask 1
        \<or> unat a = 2 ^ 2 \<and> a - 1 = mask 2 \<or> unat a = 2 ^ 3 \<and> a - 1 = mask 3"
      using a by (auto simp: mask_eq_exp_minus_1)
    then show ?thesis using that by blast
  qed
  have pos: "0 < unat a" using k by simp
  have sum: "unat (v + a - 1) = unat v + unat a - 1"
  proof -
    have "v + a - 1 = v + (a - 1)" by simp
    moreover have "unat (a - 1) = unat a - 1" using pos by (simp add: unat_minus_one unat_gt_0)
    ultimately show ?thesis using fits pos by (simp only: unat_word_ariths) simp
  qed
  have "unat ((v + a - 1) AND NOT (a - 1)) = unat (align_to v a)"
  proof (rule multiple_unique)
    let ?x = "(unat v + unat a - 1) div unat a * unat a"
    have x: "unat ((v + a - 1) AND NOT (a - 1)) = ?x" using k by (simp add: and_not_mask sum)
    have "?x + (unat v + unat a - 1) mod unat a = unat v + unat a - 1" by simp
    moreover have "(unat v + unat a - 1) mod unat a < unat a" using pos by simp
    ultimately show "unat v \<le> unat ((v + a - 1) AND NOT (a - 1))"
      and "unat ((v + a - 1) AND NOT (a - 1)) < unat v + unat a"
      using pos unfolding x by linarith+
    show "unat a dvd unat ((v + a - 1) AND NOT (a - 1))" unfolding x by simp
  qed (use align_to_spec [OF pos fits] in auto)
  then have "(v + a - 1) AND NOT (a - 1) = align_to v a" by (simp only: word_unat_eq_iff)
  then show ?thesis by (simp add: align_up_def bump_def)
qed

section \<open>Re-derivation and the layout registry\<close>

text \<open>A field specification that agrees with a registry field on name, size and alignment.\<close>

definition same_field :: "string \<times> RepD \<Rightarrow> PmtFieldSpec \<Rightarrow> bool" where
  "same_field f spec = (fst f = pf_name spec \<and> repd_size (snd f) = pf_size spec
     \<and> max (alignment (snd f)) 1 = type_align (pf_type_name spec))"

definition extent :: "LayoutField \<Rightarrow> u64 \<times> u64" where
  "extent f = (lf_offset f, lf_size f)"

lemma rederive_fields_place:
  assumes "list_all2 same_field fs specs" and "unat off + layout_budget fs < 2 ^ 64"
    and "place_fields i fs off al = (rs, off', al')"
  shows "rederive_fields specs off al = (map extent rs, off', al')"
  using assms
proof (induction fs specs arbitrary: i off al rs rule: list_all2_induct)
  case Nil
  then show ?case by simp
next
  case (Cons f fs spec specs)
  obtain n r where f: "f = (n, r)" by (cases f)
  define a where "a = type_align (pf_type_name spec)"
  have same: "pf_size spec = repd_size r" "max (alignment r) 1 = a"
    using Cons.hyps(1) by (simp_all add: same_field_def f a_def)
  have cost: "field_cost f = unat (repd_size r) + unat a" by (simp add: field_cost_def f same(2))
  have room: "unat off + unat (repd_size r) + unat a + layout_budget fs < 2 ^ 64"
    using Cons.prems(1) by (simp add: layout_budget_Cons cost)
  have up: "align_up off a = bump off a"
    using align_up_bump type_align_cases room by (simp add: a_def)
  have "0 < unat a" using max_one_pos same(2) by metis
  then have b: "unat (bump off a) < unat off + unat a" using bump_spec(3) room by simp
  obtain rs' where step: "place_fields (Suc i) fs (bump off a + repd_size r) (max al a) = (rs', off', al')"
    and rs: "rs = \<lparr>lf_name = n, lf_field_id = of_nat i, lf_offset = bump off a, lf_size = repd_size r, lf_repd = r\<rparr> # rs'"
    using Cons.prems(2) by (auto simp: f same(2) Let_def split: prod.splits)
  have "rederive_fields specs (bump off a + repd_size r) (max al a) = (map extent rs', off', al')"
    by (rule Cons.IH [OF _ step]) (use b room in \<open>simp add: unat_word_ariths\<close>)
  then show ?case
    using up same(1) by (simp add: rs extent_def a_def type_align_def Let_def split_beta)
qed

lemma rederive_fields_align:
  "al \<in> {1, 2, 4, 8} \<Longrightarrow> snd (snd (rederive_fields specs off al)) \<in> {1, 2, 4, 8}"
proof (induction specs arbitrary: off al)
  case (Cons spec specs)
  have "max al (type_align (pf_type_name spec)) \<in> {1, 2, 4, 8}"
    using Cons.prems type_align_cases [of "pf_type_name spec"] by (auto simp: max_def)
  then show ?case using Cons.IH by (simp add: type_align_def Let_def split_beta)
qed simp

lemma rederive_fields_sizes: "map snd (fst (rederive_fields specs off al)) = map pf_size specs"
  by (induction specs arbitrary: off al) (simp_all add: Let_def split_beta)

lemma resolve_layout_fields: "ld_fields (resolve_layout name fs) = fst (place_fields 0 fs 0 1)"
  by (simp add: resolve_layout_def Let_def split_beta)

lemma rederive_layout_resolve:
  assumes same: "list_all2 same_field fs specs" and budget: "layout_budget fs < 2 ^ 63"
  shows "rederive_layout specs = (ld_total_size (resolve_layout name fs), map extent (ld_fields (resolve_layout name fs)))"
proof -
  obtain rs off al where pf: "place_fields 0 fs 0 1 = (rs, off, al)" by (metis prod_cases3)
  have rd: "rederive_fields specs 0 1 = (map extent rs, off, al)"
    by (rule rederive_fields_place [OF same _ pf]) (use budget in simp)
  have al: "al \<in> {1, 2, 4, 8}" using rederive_fields_align [of 1 specs 0] by (simp add: rd)
  have "unat off \<le> layout_budget fs" using place_fields_placed [OF pf] budget by simp
  moreover have "unat al \<le> 8" using al by auto
  ultimately have "align_up off al = bump off al" using align_up_bump [OF al] budget by simp
  moreover have "bump off al = (if off = 0 then 0 else if is_multiple_of off al then off else align_to off al)"
    using al by (auto simp: bump_def is_multiple_of_def)
  moreover have "max al 1 = al" using al by (auto simp: max_def word_le_nat_alt)
  ultimately show ?thesis by (simp add: rederive_layout_def resolve_layout_def rd pf Let_def)
qed

text \<open>The registry fields a specification stands for: byte blocks of its sizes and alignments.\<close>

definition as_fields :: "PmtFieldSpec list \<Rightarrow> (string \<times> RepD) list" where
  "as_fields specs = map (\<lambda>f. (pf_name f, Byte (pf_size f) (type_align (pf_type_name f)))) specs"

lemma type_align_pos: "max (type_align t) 1 = type_align t"
  using type_align_cases [of t] by (auto simp: max_def word_le_nat_alt)

lemma same_as_fields: "list_all2 same_field (as_fields specs) specs"
  by (simp add: as_fields_def same_field_def list_all2_conv_all_nth type_align_pos)

lemma set_enumerate: "set (enumerate 0 xs) = (\<lambda>i. (i, xs ! i)) ` {..<length xs}"
  by (auto simp: in_set_enumerate_eq image_iff)

lemma concat_enumerate_Nil:
  "concat (map f (enumerate 0 xs)) = [] \<longleftrightarrow> (\<forall>i < length xs. f (i, xs ! i) = [])"
  by (auto simp: set_enumerate)

lemma rederive_layout_sizes:
  assumes "rederive_layout specs = (tot, ds)"
  shows "length ds = length specs" and "i < length specs \<Longrightarrow> snd (ds ! i) = pf_size (specs ! i)"
proof -
  have sz: "map snd ds = map pf_size specs"
    using assms rederive_fields_sizes [of specs 0 1] by (auto simp: rederive_layout_def Let_def split_beta)
  show len: "length ds = length specs" using sz by (metis length_map)
  show "snd (ds ! i) = pf_size (specs ! i)" if "i < length specs"
    using arg_cong [OF sz, of "\<lambda>xs. xs ! i"] that len by simp
qed

lemma layout_mismatches_Nil:
  "layout_mismatches name spec = [] \<longleftrightarrow>
     rederive_layout (pl_fields spec)
       = (pl_total_size spec, map (\<lambda>f. (pf_offset f, pf_size f)) (pl_fields spec))"
proof -
  obtain tot ds where rd: "rederive_layout (pl_fields spec) = (tot, ds)" by (cases "rederive_layout (pl_fields spec)")
  note sizes = rederive_layout_sizes [OF rd]
  have "layout_mismatches name spec = [] \<longleftrightarrow> tot = pl_total_size spec \<and>
      (\<forall>i < length (pl_fields spec). fst (ds ! i) = pf_offset (pl_fields spec ! i))"
    unfolding layout_mismatches_def rd using sizes
    by (auto simp: Let_def split_beta append_is_Nil_conv concat_enumerate_Nil simp del: concat_eq_Nil_conv)
  also have "(\<forall>i < length (pl_fields spec). fst (ds ! i) = pf_offset (pl_fields spec ! i))
      \<longleftrightarrow> ds = map (\<lambda>f. (pf_offset f, pf_size f)) (pl_fields spec)"
    using sizes by (auto simp: list_eq_iff_nth_eq prod_eq_iff)
  finally show ?thesis by (simp add: rd)
qed

lemma consistency_Nil:
  "verify_layout_consistency layouts = [] \<longleftrightarrow> (\<forall>(n, spec) \<in> set layouts. layout_mismatches n spec = [])"
  by (auto simp: verify_layout_consistency_def)

section \<open>Geometry of consistent layouts\<close>

lemma consistent_geometry:
  assumes ok: "layout_mismatches n spec = []"
    and budget: "(\<Sum>f \<leftarrow> pl_fields spec. unat (pf_size f) + unat (type_align (pf_type_name f))) < 2 ^ 63"
  shows "(\<forall>i j. i < j \<and> j < length (pl_fields spec) \<longrightarrow>
      unat (pf_offset (pl_fields spec ! i)) + unat (pf_size (pl_fields spec ! i)) \<le> unat (pf_offset (pl_fields spec ! j)))
    \<and> (\<forall>f \<in> set (pl_fields spec). unat (type_align (pf_type_name f)) dvd unat (pf_offset f)
         \<and> unat (pf_offset f) + unat (pf_size f) \<le> unat (pl_total_size spec))"
proof -
  let ?fs = "as_fields (pl_fields spec)"
  let ?l = "resolve_layout n ?fs"
  have b: "layout_budget ?fs < 2 ^ 63"
    using budget by (simp add: layout_budget_def as_fields_def field_cost_def comp_def type_align_pos)
  have "rederive_layout (pl_fields spec) = (pl_total_size spec, map (\<lambda>f. (pf_offset f, pf_size f)) (pl_fields spec))"
    using ok by (simp only: layout_mismatches_Nil)
  then have tot: "pl_total_size spec = ld_total_size ?l"
    and ext: "map (\<lambda>f. (pf_offset f, pf_size f)) (pl_fields spec) = map extent (ld_fields ?l)"
    using rederive_layout_resolve [OF same_as_fields b, of n] by simp_all
  have al: "map (\<lambda>f. Byte (pf_size f) (type_align (pf_type_name f))) (pl_fields spec) = map lf_repd (ld_fields ?l)"
    using arg_cong [OF place_fields_contents [of 0 ?fs 0 1, THEN conjunct1], of "map snd"]
    by (simp add: resolve_layout_fields as_fields_def comp_def)
  have len: "length (ld_fields ?l) = length (pl_fields spec)" using arg_cong [OF ext, of length] by simp
  have at: "lf_offset (ld_fields ?l ! i) = pf_offset (pl_fields spec ! i)"
      "lf_size (ld_fields ?l ! i) = pf_size (pl_fields spec ! i)"
      "field_align (ld_fields ?l ! i) = type_align (pf_type_name (pl_fields spec ! i))"
    if "i < length (pl_fields spec)" for i
    using that len arg_cong [OF ext, of "\<lambda>xs. xs ! i"] arg_cong [OF al, of "\<lambda>xs. max (alignment (xs ! i)) 1"]
    by (simp_all only: extent_def field_align_def type_align_pos nth_map length_map prod.inject alignment.simps)
  note R = resolve_layout_placed [OF b, of n]
  have "unat (pf_offset (pl_fields spec ! i)) + unat (pf_size (pl_fields spec ! i)) \<le> unat (pf_offset (pl_fields spec ! j))"
    if "i < j" and "j < length (pl_fields spec)" for i j
    using sorted_wrt_nth_less [OF R(1), of i j] that len at(1,2) [of i] at(1) [of j]
    by (simp only: precedes_def)
  moreover have "unat (type_align (pf_type_name f)) dvd unat (pf_offset f)
      \<and> unat (pf_offset f) + unat (pf_size f) \<le> unat (pl_total_size spec)" if f: "f \<in> set (pl_fields spec)" for f
  proof -
    obtain i where i: "i < length (pl_fields spec)" "f = pl_fields spec ! i"
      using f by (auto simp: in_set_conv_nth)
    then have "ld_fields ?l ! i \<in> set (ld_fields ?l)" using len by simp
    then show ?thesis using R(2) at [OF i(1)] i(2) tot unfolding layout_padding_ok_def by metis
  qed
  ultimately show ?thesis by blast
qed

section \<open>Properties\<close>

text \<open>
  C33: For fields of the same sizes and alignments, \<^verbatim>\<open>rederive_layout\<close> of the verification engine and
  \<^verbatim>\<open>LayoutRegistry::register\<close> of the descriptor crate compute the same total size and the same
  offsets, although one rounds up by masking and the other by division (sizes and alignments
  together below \<open>2 ^ 63\<close> bytes).
\<close>

theorem rederive_matches_registry:
  assumes "list_all2 same_field fs specs" and "layout_budget fs < 2 ^ 63"
    and "length (lr_layouts reg) < 2 ^ 32"
  shows "\<exists>l. get (fst (register reg name fs)) (snd (register reg name fs)) = Some l
    \<and> rederive_layout specs = (ld_total_size l, map (\<lambda>f. (lf_offset f, lf_size f)) (ld_fields l))"
proof -
  have "extent = (\<lambda>f. (lf_offset f, lf_size f))" by (rule ext) (simp add: extent_def)
  then show ?thesis
    using get_register_new [OF assms(3), of name fs] rederive_layout_resolve [OF assms(1,2), of name] by simp
qed

theorem rederive_matches_registry_witness:
  "\<exists>l. get (fst (register registry_new ''P'' [(''t'', Byte 1 1), (''x'', Byte 4 4)]))
          (snd (register registry_new ''P'' [(''t'', Byte 1 1), (''x'', Byte 4 4)])) = Some l
    \<and> rederive_layout [\<lparr>pf_name = ''t'', pf_offset = 0, pf_size = 1, pf_type_name = ''u8''\<rparr>,
                        \<lparr>pf_name = ''x'', pf_offset = 0, pf_size = 4, pf_type_name = '' u32 ''\<rparr>]
      = (ld_total_size l, map (\<lambda>f. (lf_offset f, lf_size f)) (ld_fields l))"
proof -
  have "type_align ''u8'' = 1" and "type_align '' u32 '' = 4"
    by (simp_all add: type_align_def type_align_size.simps trim_def white_space_def is_array_type_def starts_with_def)
  then show ?thesis
    by (intro rederive_matches_registry)
      (simp_all add: same_field_def registry_new_def layout_budget_def field_cost_def max_def word_le_nat_alt)
qed

text \<open>
  If \<^verbatim>\<open>verify_layout_consistency\<close> reports nothing, every layout it was given is geometrically sound:
  its fields follow each other without overlap, start at multiples of the alignment their type name
  has and end inside the total size, provided the sizes and alignments of its fields sum to less
  than \<open>2 ^ 63\<close> bytes.
\<close>

theorem consistency_sound:
  assumes ok: "verify_layout_consistency layouts = []" and spec: "(n, spec) \<in> set layouts"
    and budget: "(\<Sum>f \<leftarrow> pl_fields spec. unat (pf_size f) + unat (type_align (pf_type_name f))) < 2 ^ 63"
  shows "(\<forall>i j. i < j \<and> j < length (pl_fields spec) \<longrightarrow>
      unat (pf_offset (pl_fields spec ! i)) + unat (pf_size (pl_fields spec ! i)) \<le> unat (pf_offset (pl_fields spec ! j)))
    \<and> (\<forall>f \<in> set (pl_fields spec). unat (type_align (pf_type_name f)) dvd unat (pf_offset f)
         \<and> unat (pf_offset f) + unat (pf_size f) \<le> unat (pl_total_size spec))"
  by (rule consistent_geometry [OF _ budget]) (use ok spec in \<open>auto simp: consistency_Nil\<close>)

definition demo_spec :: PmtLayoutSpec where
  "demo_spec = \<lparr>pl_name = ''P'', pl_total_size = 8,
     pl_fields = [\<lparr>pf_name = ''t'', pf_offset = 0, pf_size = 1, pf_type_name = ''u8''\<rparr>,
                  \<lparr>pf_name = ''x'', pf_offset = 4, pf_size = 4, pf_type_name = ''u32''\<rparr>]\<rparr>"

lemma demo_types: "type_align_size ''u8'' = (1, 1)" "type_align_size ''u32'' = (4, 4)"
  by (simp_all add: type_align_size.simps trim_def white_space_def is_array_type_def starts_with_def)

lemma demo_spec_consistent: "layout_mismatches n demo_spec = []"
  by (simp add: layout_mismatches_Nil demo_spec_def rederive_layout_def demo_types align_up_def
      is_multiple_of_def Let_def max_def mask_eq_exp_minus_1)

theorem consistency_sound_witness:
  "verify_layout_consistency [(''P'', demo_spec)] = []
   \<and> unat (pf_offset (last (pl_fields demo_spec))) + unat (pf_size (last (pl_fields demo_spec))) \<le> unat (pl_total_size demo_spec)"
proof -
  have ok: "verify_layout_consistency [(''P'', demo_spec)] = []"
    by (simp add: consistency_Nil demo_spec_consistent)
  moreover have "(\<Sum>f \<leftarrow> pl_fields demo_spec. unat (pf_size f) + unat (type_align (pf_type_name f))) < 2 ^ 63"
    by (simp add: demo_spec_def type_align_def demo_types)
  moreover have "last (pl_fields demo_spec) \<in> set (pl_fields demo_spec)"
    by (simp add: demo_spec_def)
  ultimately show ?thesis using consistency_sound [OF ok, of "''P''" demo_spec] by simp
qed

text \<open>
  A consistency check never reports a size: the re-derived size of a field is the size it was given,
  whatever the type name says.
\<close>

lemma sizes_never_compared: "SizeMismatch a b c d \<notin> set (layout_mismatches n spec)"
proof -
  obtain tot ds where rd: "rederive_layout (pl_fields spec) = (tot, ds)" by (cases "rederive_layout (pl_fields spec)")
  note sizes = rederive_layout_sizes [OF rd]
  show ?thesis
    unfolding layout_mismatches_def rd by (auto simp: sizes set_enumerate Let_def split_beta split: if_splits)
qed

text \<open>An empty list of field-list mismatches: every layout accessed is declared with all fields accessed.\<close>

lemma field_list_mismatches_Nil:
  "field_list_mismatches parser n d = [] \<longleftrightarrow> (\<exists>p. hm_get parser n = Some p
     \<and> length (pl_fields d) \<le> length (pl_fields p) \<and> pf_name ` set (pl_fields d) \<subseteq> pf_name ` set (pl_fields p))"
proof (cases "hm_get parser n")
  case (Some p)
  have "(\<forall>i < length (pl_fields d). pf_name (pl_fields d ! i) \<in> pf_name ` set (pl_fields p))
      \<longleftrightarrow> pf_name ` set (pl_fields d) \<subseteq> pf_name ` set (pl_fields p)"
    by (simp only: image_subset_iff all_set_conv_all_nth)
  then show ?thesis
    unfolding field_list_mismatches_def Some Let_def option.case append_is_Nil_conv concat_enumerate_Nil
    by (auto simp: not_less)
qed (simp add: field_list_mismatches_def)

lemma field_list_Nil:
  "verify_layout_field_list_consistency parser derived = [] \<longleftrightarrow>
    (\<forall>(n, d) \<in> set derived. \<exists>p. hm_get parser n = Some p
       \<and> length (pl_fields d) \<le> length (pl_fields p) \<and> pf_name ` set (pl_fields d) \<subseteq> pf_name ` set (pl_fields p))"
  by (simp add: verify_layout_field_list_consistency_def field_list_mismatches_Nil split_beta)

end
