(* ===== verification/Scg_Node.thy ===== *)
theory Scg_Node
  imports Vuma_Prelude
begin

text \<open>
  The data of the Semantic Computation Graph: node types and payloads (\<^verbatim>\<open>scg/src/node.rs\<close>), edges
  (\<^verbatim>\<open>scg/src/edge.rs\<close>) and regions (\<^verbatim>\<open>scg/src/region.rs\<close>, the part the graph stores). A payload variant takes the
  fields of its struct in declaration order. The code-generation types at the end of
  \<^verbatim>\<open>node.rs\<close> are not part of the graph and are left out.
\<close>

section \<open>Nodes\<close>

type_synonym NodeId = u64
type_synonym EdgeId = u64
type_synonym RegionId = u64

datatype (plugins only: code size) NodeType =
    NtComputation | NtAllocation | NtDeallocation | NtAccess | NtCast | NtEffect | NtControl | NtPhantom
  | NtVTable | NtClosureEnv | NtStructDef | NtEnumDef | NtMatch | NtConstantTime | NtSyscall
  | NtStateInit | NtStateRead | NtStateWrite | NtStateTransform | NtForeignConsume
  | NtArenaNew | NtArenaAlloc | NtArenaGrow | NtArenaFree
  | NtChannelOpen | NtChannelSend | NtChannelRecv | NtChannelClose

record BDReference =
  bd_id :: u64
  bd_version :: "u64 option"

record ProgramPoint =
  pp_file :: "string option"
  pp_line :: "u64 option"
  pp_column :: "u64 option"
  pp_offset :: "u64 option"

datatype IntrinsicKind =
    CapabilityGrant | CapabilityDelegate | CapabilityVerify | CapabilityRevoke | StarkProve | StarkVerify

fun as_str :: "IntrinsicKind \<Rightarrow> string" where
  "as_str CapabilityGrant = ''capability_grant''"
| "as_str CapabilityDelegate = ''capability_delegate''"
| "as_str CapabilityVerify = ''capability_verify''"
| "as_str CapabilityRevoke = ''capability_revoke''"
| "as_str StarkProve = ''stark_prove''"
| "as_str StarkVerify = ''stark_verify''"

text \<open>
  \<^verbatim>\<open>str::to_lowercase\<close>, as far as a comparison with an ASCII string can tell: besides \<^verbatim>\<open>A\<close> to \<^verbatim>\<open>Z\<close> the only
  character with an ASCII lower case is the Kelvin sign U+212A (bytes E2 84 AA), which becomes \<^verbatim>\<open>k\<close>; every
  other character keeps or gets at least one byte outside ASCII.
\<close>

definition lower_char :: "char \<Rightarrow> char" where
  "lower_char c = (if 65 \<le> (of_char c :: nat) \<and> (of_char c :: nat) \<le> 90 then char_of ((of_char c :: nat) + 32) else c)"

fun to_lowercase :: "string \<Rightarrow> string" where
  "to_lowercase (a # b # c # rest) =
     (if a = CHR 0xE2 \<and> b = CHR 0x84 \<and> c = CHR 0xAA then CHR ''k'' # to_lowercase rest
      else lower_char a # to_lowercase (b # c # rest))"
| "to_lowercase s = map lower_char s"

definition from_label :: "string \<Rightarrow> IntrinsicKind option" where
  "from_label label =
     (let l = to_lowercase label in
      List.find (\<lambda>k. as_str k = l)
        [CapabilityGrant, CapabilityDelegate, CapabilityVerify, CapabilityRevoke, StarkProve, StarkVerify])"

datatype ComputationKind =
    KOther string
  | KIntrinsic IntrinsicKind
  | KStructAccess string string u64 u64 \<comment> \<open>struct, field, offset, size\<close>
  | KEnumTag string string u64 \<comment> \<open>enum, tag type, tag size\<close>
  | KMatchNode nat string \<comment> \<open>number of arms, subject type\<close>

fun digits :: "nat \<Rightarrow> string" where
  "digits n = (if n < 10 then [char_of (48 + n)] else digits (n div 10) @ [char_of (48 + n mod 10)])"

fun kind_label :: "ComputationKind \<Rightarrow> string" where
  "kind_label (KOther op) = op"
| "kind_label (KIntrinsic k) = as_str k"
| "kind_label (KStructAccess struct_name field_name _ _) = ''struct_access::'' @ struct_name @ ''::'' @ field_name"
| "kind_label (KEnumTag enum_name _ _) = ''enum_tag::'' @ enum_name"
| "kind_label (KMatchNode arm_count _) = ''match_dispatch('' @ digits arm_count @ ''_arms)''"

definition from_op_name :: "string \<Rightarrow> ComputationKind" where
  "from_op_name s = (case from_label s of Some k \<Rightarrow> KIntrinsic k | None \<Rightarrow> KOther s)"

datatype AccessMode = AmRead | AmWrite | AmReadWrite

datatype (plugins only: code size) ControlKind =
    CkBranch | CkLoopHeader | CkLoopExit | CkJoin | CkFunctionEntry | CkFunctionReturn | CkJump | CkSwitch
  | CkSwitchCase | CkClosureEntry | CkClosureReturn | CkFuturePoll | CkWakerRegistration | CkStateTransition

record StructFieldInfo =
  sf_name :: string
  sf_type_name :: string
  sf_offset :: u64
  sf_size :: u64

record EnumVariantInfo =
  ev_name :: string
  ev_discriminant :: u64
  ev_payload_type :: "string option"
  ev_payload_size :: u64

datatype MatchPatternInfo =
    MpWildcard
  | MpLit i64
  | MpIdent string
  | MpEnum string "string option" \<comment> \<open>variant, binding\<close>
  | MpStruct string "string list" \<comment> \<open>name, fields\<close>
  | MpOr "MatchPatternInfo list"

record MatchArmInfo =
  ma_pattern :: MatchPatternInfo
  ma_guard :: "string option"
  ma_body :: "string list"

datatype ConstantTimeOp = CtSelect | CtEq

datatype (plugins only: code size) NodePayload =
    Computation ComputationKind "string option" bool \<comment> \<open>kind, result type, tail call\<close>
  | Allocation u64 u64 RegionId "string option" \<comment> \<open>size, align, region, type name\<close>
  | Deallocation NodeId RegionId \<comment> \<open>allocation, region\<close>
  | Access AccessMode RegionId "u64 option" "u64 option" \<comment> \<open>mode, region, offset, size\<close>
  | CastTo string string bool \<comment> \<open>from, to, lossless\<close>
  | Effect string bool \<comment> \<open>kind, observable\<close>
  | Control ControlKind "string option" \<comment> \<open>kind, label\<close>
  | PhantomNode string \<comment> \<open>purpose\<close>
  | VTable string string "NodeId list" \<comment> \<open>trait, concrete type, methods\<close>
  | ClosureEnv "string list" "bool list" "NodeId option" \<comment> \<open>variables, modes, entry\<close>
  | StructDef string "StructFieldInfo list" u64 u64 \<comment> \<open>name, fields, size, alignment\<close>
  | EnumDef string "EnumVariantInfo list" string u64 u64 u64 u64
      \<comment> \<open>name, variants, tag type, tag size, largest payload, size, alignment\<close>
  | MatchOn string "MatchArmInfo list" string \<comment> \<open>subject, arms, subject type\<close>
  | ConstantTime ConstantTimeOp string "string list" \<comment> \<open>operation, destination, operands\<close>
  | Syscall u32 "string option" "string list" \<comment> \<open>number, destination, arguments\<close>
  | StateInit string u32 \<comment> \<open>layout, result\<close>
  | StateRead u32 string string u32 \<comment> \<open>state, layout, field, result\<close>
  | StateWrite u32 string string u32 \<comment> \<open>state, layout, field, value\<close>
  | StateTransform u32 string string u32 \<comment> \<open>input, input layout, output layout, result\<close>
  | ForeignConsume u32 string \<comment> \<open>input, layout\<close>
  | ArenaNew u32 u32 \<comment> \<open>capacity, result\<close>
  | ArenaAlloc u32 string u32 u32 \<comment> \<open>arena, layout, resulting arena, resulting state\<close>
  | ArenaGrow u32 u32 u32 \<comment> \<open>arena, least capacity, result\<close>
  | ArenaFree u32 \<comment> \<open>arena\<close>
  | ChannelOpen string string \<comment> \<open>destination, element type\<close>
  | ChannelSend string string string \<comment> \<open>channel, message, type\<close>
  | ChannelRecv string string string \<comment> \<open>destination, channel, type\<close>
  | ChannelClose string \<comment> \<open>channel\<close>

record NodeData =
  nd_id :: NodeId
  nd_node_type :: NodeType
  nd_annotation :: "BDReference option"
  nd_program_point :: ProgramPoint
  nd_payload :: NodePayload

section \<open>Edges\<close>

datatype EdgeKind =
    DataFlow | ControlFlow | Derivation | Annotation | Dispatch
  | Call NodeId NodeId RegionId \<comment> \<open>from, to, region of the caller\<close>
  | Return NodeId NodeId "NodeId list" \<comment> \<open>from, to, returned values\<close>
  | SyscallArg

record EdgeData =
  ed_id :: EdgeId
  ed_source :: NodeId
  ed_target :: NodeId
  ed_kind :: EdgeKind
  ed_label :: "string option"

section \<open>Regions\<close>

datatype DeploymentTarget = Heap | Stack | Gpu | Shared | Persisted | Custom string

record SCGRegion =
  rg_id :: RegionId
  rg_nodes :: "NodeId set"
  rg_scope_level :: u32
  rg_security_boundary :: bool
  rg_deployment_target :: DeploymentTarget

definition region_new :: "RegionId \<Rightarrow> DeploymentTarget \<Rightarrow> SCGRegion" where
  "region_new i deployment_target =
     \<lparr>rg_id = i, rg_nodes = {}, rg_scope_level = 0, rg_security_boundary = False, rg_deployment_target = deployment_target\<rparr>"

definition region_add_node :: "NodeId \<Rightarrow> SCGRegion \<Rightarrow> SCGRegion" where
  "region_add_node n r = r\<lparr>rg_nodes := insert n (rg_nodes r)\<rparr>"

definition region_remove_node :: "NodeId \<Rightarrow> SCGRegion \<Rightarrow> SCGRegion \<times> bool" where
  "region_remove_node n r = (r\<lparr>rg_nodes := rg_nodes r - {n}\<rparr>, n \<in> rg_nodes r)"

definition contains_node :: "SCGRegion \<Rightarrow> NodeId \<Rightarrow> bool" where
  "contains_node r n \<longleftrightarrow> n \<in> rg_nodes r"

section \<open>Labels of computations\<close>

lemma lower_ascii: "to_lowercase (as_str k) = as_str k"
  by (induction k; code_simp)

lemma from_label_as_str [simp]: "from_label (as_str k) = Some k"
  by (induction k; code_simp)

text \<open>An operation name and its label name the same kind: the label of a kind built from a name gives it back.\<close>

lemma from_op_name_label: "from_op_name (kind_label (from_op_name s)) = from_op_name s"
  by (auto simp: from_op_name_def split: option.splits)

end
