(* ===== verification/Ive_Arena.thy ===== *)
theory Ive_Arena
  imports Scg_Node
begin

text \<open>
  The arena bounds verifier, \<^verbatim>\<open>src/src/ive/src/arena_bounds.rs\<close>, over the node payloads of
  the graph (theory \<^verbatim>\<open>Scg_Node\<close>). The verifier folds over the nodes of
  the graph and keeps, per virtual register that holds an arena, its capacity and the bytes
  used so far. The theory shows what each verdict means, that along a chain of allocations the
  verdicts are those of the running sum, and that no capacity is ever known to the verifier.
\<close>

section \<open>The verifier\<close>

record LayoutSpec =
  ls_name :: string
  ls_total_size :: u64

datatype ArenaError =
    ArenaLayoutNotFound string
  | ZeroSizeLayout string
  | UsedOverflows u64 string u64
  | OverCapacity u64 string u64 u64 u64

record ArenaBoundsVerification =
  ab_valid :: bool
  ab_error :: "ArenaError option"

record ArenaState =
  arena_capacity :: "(u32, u64 option) hmap"
  arena_used :: "(u32, u64) hmap"

definition arena_ok :: ArenaBoundsVerification where
  "arena_ok = \<lparr>ab_valid = True, ab_error = None\<rparr>"

definition arena_bad :: "ArenaError \<Rightarrow> ArenaBoundsVerification" where
  "arena_bad e = \<lparr>ab_valid = False, ab_error = Some e\<rparr>"

text \<open>Copying what is known of one register to another, where something is known.\<close>

definition copy_entry :: "'k \<Rightarrow> 'k \<Rightarrow> ('k, 'v) hmap \<Rightarrow> ('k, 'v) hmap" where
  "copy_entry from to m = (case hm_get m from of None \<Rightarrow> m | Some v \<Rightarrow> hm_insert to v m)"

definition propagate :: "u32 \<Rightarrow> u32 \<Rightarrow> ArenaState \<Rightarrow> ArenaState" where
  "propagate from to st =
     \<lparr>arena_capacity = copy_entry from to (arena_capacity st), arena_used = copy_entry from to (arena_used st)\<rparr>"

definition set_arena :: "u32 \<Rightarrow> u64 option \<Rightarrow> u64 \<Rightarrow> ArenaState \<Rightarrow> ArenaState" where
  "set_arena v cap used st =
     \<lparr>arena_capacity = hm_insert v cap (arena_capacity st), arena_used = hm_insert v used (arena_used st)\<rparr>"

definition used_of :: "ArenaState \<Rightarrow> u32 \<Rightarrow> u64" where
  "used_of st v = (case hm_get (arena_used st) v of None \<Rightarrow> 0 | Some u \<Rightarrow> u)"

definition capacity_of :: "ArenaState \<Rightarrow> u32 \<Rightarrow> u64 option" where
  "capacity_of st v = (case hm_get (arena_capacity st) v of None \<Rightarrow> None | Some c \<Rightarrow> c)"

text \<open>The \<^verbatim>\<open>ArenaAlloc\<close> arm of the loop.\<close>

definition arena_alloc_step ::
  "(string, LayoutSpec) hmap \<Rightarrow> u32 \<Rightarrow> string \<Rightarrow> u32 \<Rightarrow> ArenaState \<Rightarrow> ArenaState \<times> ArenaBoundsVerification" where
  "arena_alloc_step pmt_layouts arena_vreg layout_name result_arena_vreg st =
     (case hm_get pmt_layouts layout_name of
        None \<Rightarrow> (propagate arena_vreg result_arena_vreg st, arena_bad (ArenaLayoutNotFound layout_name))
      | Some layout \<Rightarrow>
          if ls_total_size layout = 0
          then (propagate arena_vreg result_arena_vreg st, arena_bad (ZeroSizeLayout layout_name))
          else
            (let used = used_of st arena_vreg; cap_opt = capacity_of st arena_vreg in
             case checked_add used (ls_total_size layout) of
               None \<Rightarrow> (set_arena result_arena_vreg cap_opt used st,
                        arena_bad (UsedOverflows used layout_name (ls_total_size layout)))
             | Some new_used \<Rightarrow>
                 (case cap_opt of
                    Some cap \<Rightarrow>
                      if new_used > cap
                      then (set_arena result_arena_vreg (Some cap) used st,
                            arena_bad (OverCapacity used layout_name (ls_total_size layout) new_used cap))
                      else (set_arena result_arena_vreg cap_opt new_used st, arena_ok)
                  | None \<Rightarrow> (set_arena result_arena_vreg cap_opt new_used st, arena_ok))))"

fun arena_walk ::
  "(string, LayoutSpec) hmap \<Rightarrow> NodePayload list \<Rightarrow> ArenaState \<Rightarrow> ArenaBoundsVerification list" where
  "arena_walk pmt_layouts [] st = []"
| "arena_walk pmt_layouts (ArenaNew capacity_vreg result_vreg # nodes) st =
     arena_walk pmt_layouts nodes (set_arena result_vreg None 0 st)"
| "arena_walk pmt_layouts (ArenaAlloc arena_vreg layout_name result_arena_vreg _ # nodes) st =
     (let (st', r) = arena_alloc_step pmt_layouts arena_vreg layout_name result_arena_vreg st
      in r # arena_walk pmt_layouts nodes st')"
| "arena_walk pmt_layouts (_ # nodes) st = arena_walk pmt_layouts nodes st"

definition verify_arena_bounds ::
  "(string, LayoutSpec) hmap \<Rightarrow> NodePayload list \<Rightarrow> ArenaBoundsVerification list" where
  "verify_arena_bounds pmt_layouts nodes = arena_walk pmt_layouts nodes \<lparr>arena_capacity = [], arena_used = []\<rparr>"

definition all_arenas_valid :: "ArenaBoundsVerification list \<Rightarrow> bool" where
  "all_arenas_valid results = list_all ab_valid results"

section \<open>No capacity is ever known\<close>

definition capacity_unknown :: "ArenaState \<Rightarrow> bool" where
  "capacity_unknown st = (\<forall>v. capacity_of st v = None)"

lemma capacity_unknown_init: "capacity_unknown \<lparr>arena_capacity = [], arena_used = []\<rparr>"
  by (simp add: capacity_unknown_def capacity_of_def)

lemma capacity_unknown_set: "capacity_unknown st \<Longrightarrow> capacity_unknown (set_arena v None u st)"
  by (simp add: capacity_unknown_def capacity_of_def set_arena_def update_conv')

lemma capacity_unknown_propagate: "capacity_unknown st \<Longrightarrow> capacity_unknown (propagate v w st)"
  by (auto simp: capacity_unknown_def capacity_of_def propagate_def copy_entry_def update_conv' split: option.splits)

lemma used_of_set: "used_of (set_arena v c u st) w = (if w = v then u else used_of st w)"
  by (simp add: used_of_def set_arena_def update_conv')

lemma arena_alloc_step_unknown:
  assumes "capacity_unknown st"
  shows "arena_alloc_step ls v n w st =
    (case hm_get ls n of
       None \<Rightarrow> (propagate v w st, arena_bad (ArenaLayoutNotFound n))
     | Some l \<Rightarrow>
         if ls_total_size l = 0 then (propagate v w st, arena_bad (ZeroSizeLayout n))
         else (case checked_add (used_of st v) (ls_total_size l) of
                 None \<Rightarrow> (set_arena w None (used_of st v) st,
                          arena_bad (UsedOverflows (used_of st v) n (ls_total_size l)))
               | Some u \<Rightarrow> (set_arena w None u st, arena_ok)))"
proof -
  have "capacity_of st v = None" using assms by (simp add: capacity_unknown_def)
  then show ?thesis by (simp add: arena_alloc_step_def Let_def split: option.split)
qed

lemma capacity_unknown_step:
  "capacity_unknown st \<Longrightarrow> capacity_unknown (fst (arena_alloc_step ls v n w st))"
  by (simp add: arena_alloc_step_unknown capacity_unknown_set capacity_unknown_propagate split: option.split)

lemma step_verdict:
  assumes "capacity_unknown st"
  shows "ab_valid (snd (arena_alloc_step ls v n w st)) \<longleftrightarrow>
      (\<exists>l. hm_get ls n = Some l \<and> ls_total_size l \<noteq> 0 \<and> unat (used_of st v) + unat (ls_total_size l) < 2 ^ 64)"
    and "ab_error (snd (arena_alloc_step ls v n w st)) \<noteq> Some (OverCapacity a b c d e)"
  using assms unfolding arena_alloc_step_unknown [OF assms] arena_bad_def arena_ok_def
  by (auto simp: checked_add_def split: option.splits if_splits)

lemma arena_walk_Cons:
  "arena_walk ls (x # nodes) st =
    (case x of
       ArenaNew c v \<Rightarrow> arena_walk ls nodes (set_arena v None 0 st)
     | ArenaAlloc v n w y \<Rightarrow>
         snd (arena_alloc_step ls v n w st) # arena_walk ls nodes (fst (arena_alloc_step ls v n w st))
     | _ \<Rightarrow> arena_walk ls nodes st)"
  by (cases x) (simp_all add: split_beta)

lemma arena_walk_no_capacity:
  "capacity_unknown st \<Longrightarrow> r \<in> set (arena_walk ls nodes st) \<Longrightarrow> ab_error r \<noteq> Some (OverCapacity a b c d e)"
proof (induction nodes arbitrary: st)
  case (Cons x nodes)
  note IH = Cons.IH [OF capacity_unknown_step] Cons.IH [OF capacity_unknown_set]
  show ?case using Cons.prems Cons.IH IH
    by (auto simp: arena_walk_Cons step_verdict split: NodePayload.splits)
qed simp

section \<open>Verdicts\<close>

fun is_arena_alloc :: "NodePayload \<Rightarrow> bool" where
  "is_arena_alloc (ArenaAlloc _ _ _ _) = True"
| "is_arena_alloc _ = False"

lemma arena_walk_layouts:
  assumes "list_all ab_valid (arena_walk ls nodes st)" and "capacity_unknown st" and "ArenaAlloc v n w x \<in> set nodes"
  shows "\<exists>l. hm_get ls n = Some l \<and> ls_total_size l \<noteq> 0"
  using assms
proof (induction nodes arbitrary: st)
  case (Cons y nodes)
  then show ?case
    by (auto simp: arena_walk_Cons step_verdict capacity_unknown_step capacity_unknown_set
        split: NodePayload.splits)
qed simp

lemma length_arena_walk: "length (arena_walk ls nodes st) = length (filter is_arena_alloc nodes)"
  by (induction nodes arbitrary: st) (auto simp: arena_walk_Cons split: NodePayload.splits)

text \<open>
  A chain of allocations: each takes the arena register the one before it produced. The layouts it
  allocates are given by their sizes.
\<close>

fun alloc_chain :: "u32 \<Rightarrow> (string \<times> u32) list \<Rightarrow> NodePayload list" where
  "alloc_chain v [] = []"
| "alloc_chain v ((n, w) # cs) = ArenaAlloc v n w w # alloc_chain w cs"

definition alloc_size :: "(string, LayoutSpec) hmap \<Rightarrow> string \<Rightarrow> nat" where
  "alloc_size ls n = (case hm_get ls n of None \<Rightarrow> 0 | Some l \<Rightarrow> unat (ls_total_size l))"

lemma step_chain:
  assumes "capacity_unknown st"
  shows "ab_valid (snd (arena_alloc_step ls v n w st)) \<longleftrightarrow>
      0 < alloc_size ls n \<and> unat (used_of st v) + alloc_size ls n < 2 ^ 64"
    and "ab_valid (snd (arena_alloc_step ls v n w st)) \<Longrightarrow>
      unat (used_of (fst (arena_alloc_step ls v n w st)) w) = unat (used_of st v) + alloc_size ls n"
  unfolding step_verdict(1) [OF assms]
   apply (auto simp: alloc_size_def unat_gt_0 split: option.splits)[1]
  apply (auto simp: arena_alloc_step_unknown [OF assms] alloc_size_def used_of_set checked_add_def
      unat_word_ariths split: option.splits)
  done

lemma chain_verdict:
  assumes "capacity_unknown st"
  shows "list_all ab_valid (arena_walk ls (alloc_chain v cs) st) \<longleftrightarrow>
    (\<forall>c \<in> set cs. 0 < alloc_size ls (fst c)) \<and> unat (used_of st v) + (\<Sum>c \<leftarrow> cs. alloc_size ls (fst c)) < 2 ^ 64"
  using assms
proof (induction cs arbitrary: v st)
  case Nil
  then show ?case using unat_less_u64 [of "used_of st v"] by simp
next
  case (Cons c cs)
  obtain n w where c: "c = (n, w)" by (cases c)
  show ?case
  proof (cases "ab_valid (snd (arena_alloc_step ls v n w st))")
    case True
    then show ?thesis
      using Cons.IH [OF capacity_unknown_step [OF Cons.prems, of ls v n w], of w] step_chain [OF Cons.prems, of ls v n w]
      by (simp add: c arena_walk_Cons) linarith
  next
    case False
    then show ?thesis using step_chain(1) [OF Cons.prems, of ls v n w] by (auto simp: c arena_walk_Cons)
  qed
qed

section \<open>Properties\<close>


definition demo_arena :: "(string, LayoutSpec) hmap" where
  "demo_arena = [(''P'', \<lparr>ls_name = ''P'', ls_total_size = 16\<rparr>)]"


end
