(* ===== verification/Ive_Conformance.thy ===== *)
theory Ive_Conformance
  imports Ive_Arena "HOL-Library.Multiset" "HOL-Library.Char_ord" "HOL-Library.List_Lexorder" "HOL-Library.Product_Lexorder"
begin

text \<open>
  The typed-state conformance check of \<^verbatim>\<open>src/src/ive/src/verification.rs\<close>: the operations on typed states are
  derived once from the graph's payloads and once from the metadata of the code generator
  (\<^verbatim>\<open>TypedStateMeta\<close> of \<^verbatim>\<open>src/src/codegen/src/scg_to_ir.rs\<close>), and \<^verbatim>\<open>verify_typed_state_conformance\<close> compares
  the two by counting in hash maps. The theory shows that the comparison decides equality of
  multisets.
\<close>

section \<open>Data\<close>

datatype TypedStateKind = KStateInit | KStateRead | KStateWrite | KStateTransform | KForeignConsume

text \<open>The derived \<^verbatim>\<open>Ord\<close>: declaration order.\<close>

fun kind_index :: "TypedStateKind \<Rightarrow> nat" where
  "kind_index KStateInit = 0"
| "kind_index KStateRead = 1"
| "kind_index KStateWrite = 2"
| "kind_index KStateTransform = 3"
| "kind_index KForeignConsume = 4"

lemma kind_index_inj: "kind_index a = kind_index b \<Longrightarrow> a = b"
  by (cases a; cases b) simp_all

instantiation TypedStateKind :: linorder
begin

definition less_eq_TypedStateKind :: "TypedStateKind \<Rightarrow> TypedStateKind \<Rightarrow> bool" where
  "less_eq_TypedStateKind a b = (kind_index a \<le> kind_index b)"

definition less_TypedStateKind :: "TypedStateKind \<Rightarrow> TypedStateKind \<Rightarrow> bool" where
  "less_TypedStateKind a b = (kind_index a < kind_index b)"

instance
  by standard (auto simp: less_eq_TypedStateKind_def less_TypedStateKind_def intro: kind_index_inj)

end

record TypedStateTriple =
  ts_kind :: TypedStateKind
  ts_layout :: string
  ts_field :: string
  ts_vreg_or_var :: string

datatype TypedStateMeta =
    MetaStateInit string u32
  | MetaStateRead string string string
  | MetaStateWrite string string string
  | MetaStateTransform string string
  | MetaForeignConsume string

section \<open>Operations\<close>

text \<open>\<^verbatim>\<open>to_string\<close> of an unsigned integer: its decimal digits.\<close>

fun dec :: "nat \<Rightarrow> string" where
  "dec n = (if n < 10 then [char_of (48 + n)] else dec (n div 10) @ [char_of (48 + n mod 10)])"

declare dec.simps [simp del]

fun triple_of_payload :: "NodePayload \<Rightarrow> TypedStateTriple list" where
  "triple_of_payload (StateInit layout result_vreg) =
     [\<lparr>ts_kind = KStateInit, ts_layout = layout, ts_field = [], ts_vreg_or_var = dec (unat result_vreg)\<rparr>]"
| "triple_of_payload (StateRead state_vreg layout field _) =
     [\<lparr>ts_kind = KStateRead, ts_layout = layout, ts_field = field, ts_vreg_or_var = dec (unat state_vreg)\<rparr>]"
| "triple_of_payload (StateWrite state_vreg layout field _) =
     [\<lparr>ts_kind = KStateWrite, ts_layout = layout, ts_field = field, ts_vreg_or_var = dec (unat state_vreg)\<rparr>]"
| "triple_of_payload (StateTransform input_vreg input_layout output_layout _) =
     [\<lparr>ts_kind = KStateTransform, ts_layout = input_layout, ts_field = ''->'' @ output_layout,
       ts_vreg_or_var = dec (unat input_vreg)\<rparr>]"
| "triple_of_payload (ForeignConsume input_vreg layout) =
     [\<lparr>ts_kind = KForeignConsume, ts_layout = layout, ts_field = [], ts_vreg_or_var = dec (unat input_vreg)\<rparr>]"
| "triple_of_payload _ = []"

definition extract_typed_state_triples_from_scg :: "NodePayload list \<Rightarrow> TypedStateTriple list" where
  "extract_typed_state_triples_from_scg payloads = concat (map triple_of_payload payloads)"

fun triple_of_meta :: "TypedStateMeta \<Rightarrow> TypedStateTriple" where
  "triple_of_meta (MetaStateInit layout result_vreg) =
     \<lparr>ts_kind = KStateInit, ts_layout = layout, ts_field = [], ts_vreg_or_var = dec (unat result_vreg)\<rparr>"
| "triple_of_meta (MetaStateRead var layout field) =
     \<lparr>ts_kind = KStateRead, ts_layout = layout, ts_field = field, ts_vreg_or_var = var\<rparr>"
| "triple_of_meta (MetaStateWrite var layout field) =
     \<lparr>ts_kind = KStateWrite, ts_layout = layout, ts_field = field, ts_vreg_or_var = var\<rparr>"
| "triple_of_meta (MetaStateTransform input_layout output_layout) =
     \<lparr>ts_kind = KStateTransform, ts_layout = input_layout, ts_field = ''->'' @ output_layout, ts_vreg_or_var = []\<rparr>"
| "triple_of_meta (MetaForeignConsume var) =
     \<lparr>ts_kind = KForeignConsume, ts_layout = [], ts_field = [], ts_vreg_or_var = var\<rparr>"

definition extract_typed_state_triples_from_codegen_meta :: "TypedStateMeta list \<Rightarrow> TypedStateTriple list" where
  "extract_typed_state_triples_from_codegen_meta metas = map triple_of_meta metas"

datatype ConformanceMismatch =
    CountMismatch TypedStateKind nat nat
  | OccurrenceMismatch TypedStateKind string string nat nat

type_synonym triple_key = "TypedStateKind \<times> string \<times> string"

definition triple_key :: "TypedStateTriple \<Rightarrow> triple_key" where
  "triple_key t = (ts_kind t, ts_layout t, ts_field t)"

definition all_kinds :: "TypedStateKind list" where
  "all_kinds = [KStateInit, KStateRead, KStateWrite, KStateTransform, KForeignConsume]"

definition multiset_kinds :: "TypedStateKind set" where
  "multiset_kinds = {KStateInit, KStateRead, KStateWrite, KStateTransform}"

text \<open>\<^verbatim>\<open>get(key).copied().unwrap_or(0)\<close> and \<^verbatim>\<open>*entry(key).or_insert(0) += 1\<close>.\<close>

definition tally_of :: "('k, nat) hmap \<Rightarrow> 'k \<Rightarrow> nat" where
  "tally_of m k = (case hm_get m k of None \<Rightarrow> 0 | Some n \<Rightarrow> n)"

definition tally :: "TypedStateTriple list \<Rightarrow> (triple_key, nat) hmap" where
  "tally ts = fold (\<lambda>t m. if ts_kind t \<in> multiset_kinds
                          then hm_insert (triple_key t) (tally_of m (triple_key t) + 1) m else m) ts []"

definition count_kind :: "TypedStateKind \<Rightarrow> TypedStateTriple list \<Rightarrow> nat" where
  "count_kind k ts = length (filter (\<lambda>t. ts_kind t = k) ts)"

definition verify_typed_state_conformance ::
  "NodePayload list \<Rightarrow> TypedStateMeta list \<Rightarrow> ConformanceMismatch list" where
  "verify_typed_state_conformance payloads codegen_meta =
     (let semantic_triples = extract_typed_state_triples_from_scg payloads;
          codegen_triples = extract_typed_state_triples_from_codegen_meta codegen_meta;
          scg_counts = tally semantic_triples;
          cg_counts = tally codegen_triples
      in concat (map (\<lambda>kind.
             let scg_count = count_kind kind semantic_triples; cg_count = count_kind kind codegen_triples
             in if scg_count \<noteq> cg_count then [CountMismatch kind scg_count cg_count] else []) all_kinds) @
         concat (map (\<lambda>key.
             let sc = tally_of scg_counts key; cc = tally_of cg_counts key
             in if sc \<noteq> cc then [OccurrenceMismatch (fst key) (fst (snd key)) (snd (snd key)) sc cc] else [])
           (sort (hm_keys scg_counts @ hm_keys cg_counts))))"

section \<open>Counting\<close>

definition comparable :: "TypedStateTriple list \<Rightarrow> triple_key multiset" where
  "comparable ts = mset (map triple_key (filter (\<lambda>t. ts_kind t \<in> multiset_kinds) ts))"

lemma tally_of_insert: "tally_of (hm_insert k n m) k' = (if k' = k then n else tally_of m k')"
  by (simp add: tally_of_def update_conv')

lemma tally_fold:
  "tally_of (fold (\<lambda>t m. if ts_kind t \<in> multiset_kinds
       then hm_insert (triple_key t) (tally_of m (triple_key t) + 1) m else m) ts m) k
     = tally_of m k + count (comparable ts) k"
  by (induction ts arbitrary: m) (simp_all add: comparable_def tally_of_insert)

lemma tally_count: "tally_of (tally ts) k = count (comparable ts) k"
  unfolding tally_def tally_fold by (simp add: tally_of_def)

lemma tally_key_outside: "k \<notin> set (hm_keys m) \<Longrightarrow> tally_of m k = 0"
  by (simp add: tally_of_def map_of_eq_None_iff [symmetric] split: option.splits)

lemma occurrence_Nil:
  "(\<forall>k \<in> set (hm_keys (tally ss) @ hm_keys (tally cs)). tally_of (tally ss) k = tally_of (tally cs) k)
     \<longleftrightarrow> comparable ss = comparable cs"
proof
  assume L: "\<forall>k \<in> set (hm_keys (tally ss) @ hm_keys (tally cs)). tally_of (tally ss) k = tally_of (tally cs) k"
  have "tally_of (tally ss) k = tally_of (tally cs) k" for k
    using L tally_key_outside [of k "tally ss"] tally_key_outside [of k "tally cs"]
    by (cases "k \<in> set (hm_keys (tally ss) @ hm_keys (tally cs))") auto
  then show "comparable ss = comparable cs" by (simp add: multiset_eq_iff tally_count)
qed (simp add: tally_count)

lemma concat_if_Nil: "concat (map (\<lambda>x. if f x \<noteq> g x then [h x] else []) xs) = [] \<longleftrightarrow> (\<forall>x \<in> set xs. f x = g x)"
  by (induction xs) auto

lemma count_kind_comparable:
  "k \<in> multiset_kinds \<Longrightarrow> count_kind k ts = size (filter_mset (\<lambda>key. fst key = k) (comparable ts))"
  by (induction ts) (auto simp: count_kind_def comparable_def triple_key_def)

section \<open>Property\<close>

text \<open>
  C38: \<^verbatim>\<open>verify_typed_state_conformance\<close> reports nothing exactly when the two derivations have the same
  multiset of initialisations, reads, writes and transforms, compared by layout and field, and the
  same number of foreign consumes; registers and variable names play no part.
\<close>

theorem conformance_exact:
  "verify_typed_state_conformance payloads metas = [] \<longleftrightarrow>
     comparable (extract_typed_state_triples_from_scg payloads)
       = comparable (extract_typed_state_triples_from_codegen_meta metas)
     \<and> count_kind KForeignConsume (extract_typed_state_triples_from_scg payloads)
       = count_kind KForeignConsume (extract_typed_state_triples_from_codegen_meta metas)"
proof -
  let ?s = "extract_typed_state_triples_from_scg payloads"
  let ?c = "extract_typed_state_triples_from_codegen_meta metas"
  have "verify_typed_state_conformance payloads metas = [] \<longleftrightarrow>
      (\<forall>k \<in> set all_kinds. count_kind k ?s = count_kind k ?c) \<and> comparable ?s = comparable ?c"
    unfolding verify_typed_state_conformance_def Let_def append_is_Nil_conv concat_if_Nil set_sort occurrence_Nil ..
  moreover have "count_kind k ?s = count_kind k ?c" if "comparable ?s = comparable ?c" and "k \<in> multiset_kinds" for k
    using that by (simp only: count_kind_comparable)
  moreover have "set all_kinds = insert KForeignConsume multiset_kinds"
    by (auto simp: all_kinds_def multiset_kinds_def)
  ultimately show ?thesis by (simp only:) blast
qed

end
