(* ===== verification/Ive_Pmt.thy ===== *)
theory Ive_Pmt
  imports Ive_State Ive_Layout Ive_Conformance
begin

text \<open>
  \<^verbatim>\<open>VerificationEngine::verify_pmt\<close> of \<^verbatim>\<open>src/src/ive/src/verification.rs\<close>, the verification the pipeline runs on
  every program: it cross-checks the layouts, walks the nodes in the order of their ids, collects
  reads, writes and transforms under synthetic variable names, and combines the verdicts of the
  state verifiers and the arena verifier. The theory shows what \<^verbatim>\<open>Proven\<close> guarantees and
  where it guarantees nothing.

  The graph enters as data: the pairs of node id and payload that \<^verbatim>\<open>node_index\<close>, \<^verbatim>\<open>node_type\<close> and
  \<^verbatim>\<open>node_payload\<close> answer for, in the order of the hash map; whether \<^verbatim>\<open>semantic_nodes\<close> is present; and the
  payloads of \<^verbatim>\<open>to_semantic_scg().nodes()\<close>. Log output, the contract pass, which only adds a note to
  the description, and the text of the messages are left out.
\<close>

section \<open>The walk\<close>

record VerificationInput =
  scg_nodes :: "(u64 \<times> NodePayload) list"
  has_semantic_nodes :: bool
  arena_nodes :: "NodePayload list"
  pmt_layouts :: "(string, PmtLayoutSpec) hmap option"
  typed_state_meta :: "TypedStateMeta list"

record PmtWalk =
  state_var_layouts :: "(string, string) hmap"
  consumed_vars :: "string set"
  consumed_vregs :: "u32 set"
  reads :: "(string \<times> string \<times> string) list"
  writes :: "StateWriteOp list"
  transforms :: "(string \<times> string) list"
  state_init_count :: nat
  accessed_field_refs :: "(string, string list) hmap"

definition walk_init :: PmtWalk where
  "walk_init = \<lparr>state_var_layouts = [], consumed_vars = {}, consumed_vregs = {}, reads = [], writes = [],
     transforms = [], state_init_count = 0, accessed_field_refs = []\<rparr>"

definition state_var :: "u64 \<Rightarrow> u32 \<Rightarrow> string" where
  "state_var i v = ''_state_'' @ dec (unat i) @ ''_'' @ dec (unat v)"

definition or_insert :: "'k \<Rightarrow> 'v \<Rightarrow> ('k, 'v) hmap \<Rightarrow> ('k, 'v) hmap" where
  "or_insert k v m = (case hm_get m k of None \<Rightarrow> hm_insert k v m | Some _ \<Rightarrow> m)"

definition note_field :: "string \<Rightarrow> string \<Rightarrow> (string, string list) hmap \<Rightarrow> (string, string list) hmap" where
  "note_field layout field refs =
     (let fs = (case hm_get refs layout of None \<Rightarrow> [] | Some fs \<Rightarrow> fs)
      in hm_insert layout (if field \<in> set fs then fs else fs @ [field]) refs)"

definition declared_type :: "(string, PmtLayoutSpec) hmap \<Rightarrow> string \<Rightarrow> string \<Rightarrow> string" where
  "declared_type layouts layout field =
     (case hm_get layouts layout of
        None \<Rightarrow> []
      | Some spec \<Rightarrow>
          (case List.find (\<lambda>f. pf_name f = field) (pl_fields spec) of None \<Rightarrow> [] | Some f \<Rightarrow> pf_type_name f))"

fun walk_node :: "(string, PmtLayoutSpec) hmap \<Rightarrow> u64 \<times> NodePayload \<Rightarrow> PmtWalk \<Rightarrow> PmtWalk" where
  "walk_node layouts (i, StateInit _ _) w = w\<lparr>state_init_count := state_init_count w + 1\<rparr>"
| "walk_node layouts (i, StateTransform input_vreg input_layout output_layout _) w =
     (let in_var = state_var i input_vreg in
      w\<lparr>state_var_layouts := or_insert in_var input_layout (state_var_layouts w),
        consumed_vars := insert in_var (consumed_vars w),
        consumed_vregs := insert input_vreg (consumed_vregs w),
        transforms := transforms w @ [(input_layout, output_layout)]\<rparr>)"
| "walk_node layouts (i, ForeignConsume input_vreg layout) w =
     (let in_var = state_var i input_vreg in
      w\<lparr>state_var_layouts := or_insert in_var layout (state_var_layouts w),
        consumed_vars := insert in_var (consumed_vars w),
        consumed_vregs := insert input_vreg (consumed_vregs w)\<rparr>)"
| "walk_node layouts (i, StateRead state_vreg layout field _) w =
     (let var = state_var i state_vreg in
      w\<lparr>state_var_layouts := or_insert var layout (state_var_layouts w),
        accessed_field_refs := note_field layout field (accessed_field_refs w),
        reads := reads w @ [(var, field, declared_type layouts layout field)]\<rparr>)"
| "walk_node layouts (i, StateWrite state_vreg layout field _) w =
     (let var = state_var i state_vreg in
      w\<lparr>state_var_layouts := or_insert var layout (state_var_layouts w),
        accessed_field_refs := note_field layout field (accessed_field_refs w),
        writes := writes w @ [\<lparr>sw_var_name = var, sw_field_name = field,
          sw_value_type = declared_type layouts layout field,
          sw_after_consume = (state_vreg \<in> consumed_vregs w)\<rparr>]\<rparr>)"
| "walk_node layouts (i, _) w = w"

definition pmt_walk :: "(string, PmtLayoutSpec) hmap \<Rightarrow> (u64 \<times> NodePayload) list \<Rightarrow> PmtWalk" where
  "pmt_walk layouts nodes = fold (walk_node layouts) (sort_key fst nodes) walk_init"

section \<open>The verdict\<close>

datatype PmtFailure =
    LayoutConsistency "LayoutMismatch list"
  | FieldListConsistency "FieldListMismatch list"
  | TypedStateConformance "ConformanceMismatch list"
  | StateViolations "StateError list" "StateError list" "TransformError list" "ArenaError list"

datatype VerificationStatus =
    Proven
  | Violated PmtFailure

definition layout_info :: "PmtLayoutSpec \<Rightarrow> LayoutInfo" where
  "layout_info spec =
     \<lparr>li_name = pl_name spec, li_total_size = pl_total_size spec,
      li_fields = map (\<lambda>f. \<lparr>fi_name = pf_name f, fi_offset = pf_offset f, fi_size = pf_size f,
                            fi_type_name = pf_type_name f\<rparr>) (pl_fields spec)\<rparr>"

definition verifier_layouts :: "(string, PmtLayoutSpec) hmap \<Rightarrow> layouts" where
  "verifier_layouts layouts = map (\<lambda>(name, spec). (name, layout_info spec)) layouts"

definition arena_layouts :: "(string, PmtLayoutSpec) hmap \<Rightarrow> (string, LayoutSpec) hmap" where
  "arena_layouts layouts =
     map (\<lambda>(name, spec). (name, \<lparr>ls_name = pl_name spec, ls_total_size = pl_total_size spec\<rparr>)) layouts"

definition ivederived_layouts :: "(string, string list) hmap \<Rightarrow> (string, PmtLayoutSpec) hmap" where
  "ivederived_layouts refs =
     map (\<lambda>(lname, fnames). (lname, \<lparr>pl_name = lname, pl_total_size = 0,
       pl_fields = map (\<lambda>n. \<lparr>pf_name = n, pf_offset = 0, pf_size = 0, pf_type_name = []\<rparr>) fnames\<rparr>)) refs"

definition the_layouts :: "VerificationInput \<Rightarrow> (string, PmtLayoutSpec) hmap" where
  "the_layouts input = (case pmt_layouts input of None \<Rightarrow> [] | Some layouts \<Rightarrow> layouts)"

definition state_verdict :: "VerificationInput \<Rightarrow> PmtWalk \<Rightarrow> VerificationStatus" where
  "state_verdict input w =
     (let layouts = the_layouts input;
          read_results = verify_state_reads (state_var_layouts w) (verifier_layouts layouts) (reads w);
          write_results = verify_state_writes (state_var_layouts w) (verifier_layouts layouts) (writes w) (consumed_vars w);
          transform_results = verify_all_transforms (verifier_layouts layouts) (transforms w);
          arena_bounds_results = verify_arena_bounds (arena_layouts layouts) (arena_nodes input);
          total_ops = length (reads w) + length (writes w) + length (transforms w);
          all_ok = (list_all valid read_results \<and> list_all valid write_results
                    \<and> list_all st_valid transform_results \<and> list_all ab_valid arena_bounds_results)
      in if all_ok then Proven
         else if total_ops = 0 then Proven
         else Violated (StateViolations (List.map_filter error read_results) (List.map_filter error write_results)
                (List.map_filter st_error transform_results) (List.map_filter ab_error arena_bounds_results)))"

definition verify_pmt :: "VerificationInput \<Rightarrow> VerificationStatus" where
  "verify_pmt input =
     (let mismatches = (case pmt_layouts input of
            None \<Rightarrow> []
          | Some layouts \<Rightarrow> if layouts = [] then [] else verify_layout_consistency layouts) in
      if mismatches \<noteq> [] then Violated (LayoutConsistency mismatches)
      else
        let layouts = the_layouts input;
            w = pmt_walk layouts (scg_nodes input);
            field_mismatches = (if accessed_field_refs w = [] then []
              else verify_layout_field_list_consistency layouts (ivederived_layouts (accessed_field_refs w)))
        in if field_mismatches \<noteq> [] then Violated (FieldListConsistency field_mismatches)
           else
             let ts_mismatches = (if typed_state_meta input \<noteq> [] \<and> has_semantic_nodes input
               then verify_typed_state_conformance (map snd (scg_nodes input)) (typed_state_meta input) else [])
             in if ts_mismatches \<noteq> [] then Violated (TypedStateConformance ts_mismatches)
                else state_verdict input w)"

section \<open>Synthetic variable names\<close>

lemma dec_digits: "\<forall>c \<in> set (dec n). is_digit c"
proof (induction n rule: dec.induct)
  case (1 n)
  then show ?case by (subst dec.simps) (auto simp: is_digit_def)
qed

lemma dec_value: "foldl (\<lambda>acc c. acc * 10 + (of_char c - 48)) (0 :: nat) (dec n) = n"
proof (induction n rule: dec.induct)
  case (1 n)
  then show ?case by (subst dec.simps) auto
qed

lemma dec_inj: "dec m = dec n \<Longrightarrow> m = n"
  using dec_value by metis

lemma underscore_not_digit: "\<not> is_digit CHR ''_''"
  by (simp add: is_digit_def)

lemma dec_split:
  assumes "dec a @ CHR ''_'' # x = dec b @ CHR ''_'' # y"
  shows "dec a = dec b \<and> x = y"
proof -
  have "takeWhile is_digit (dec a @ CHR ''_'' # x) = dec a" and "takeWhile is_digit (dec b @ CHR ''_'' # y) = dec b"
    using dec_digits underscore_not_digit by (simp_all add: takeWhile_append2)
  with assms show ?thesis by (metis same_append_eq list.inject)
qed

lemma state_var_inj: "state_var i v = state_var j w \<longleftrightarrow> i = j \<and> v = w"
  by (auto simp: state_var_def word_unat_eq_iff dest!: dec_split dec_inj)

section \<open>What the walk collects\<close>

text \<open>The state register a node works on with its layout, and the register it consumes.\<close>

fun subject :: "NodePayload \<Rightarrow> (u32 \<times> string) option" where
  "subject (StateTransform v l _ _) = Some (v, l)"
| "subject (ForeignConsume v l) = Some (v, l)"
| "subject (StateRead v l _ _) = Some (v, l)"
| "subject (StateWrite v l _ _) = Some (v, l)"
| "subject _ = None"

fun consumes :: "NodePayload \<Rightarrow> u32 option" where
  "consumes (StateTransform v _ _ _) = Some v"
| "consumes (ForeignConsume v _) = Some v"
| "consumes _ = None"

fun read_ops :: "(string, PmtLayoutSpec) hmap \<Rightarrow> u64 \<times> NodePayload \<Rightarrow> (string \<times> string \<times> string) list" where
  "read_ops L (i, StateRead v l f _) = [(state_var i v, f, declared_type L l f)]"
| "read_ops L _ = []"

fun transform_ops :: "u64 \<times> NodePayload \<Rightarrow> (string \<times> string) list" where
  "transform_ops (i, StateTransform _ a b _) = [(a, b)]"
| "transform_ops _ = []"

definition consumed_by :: "(u64 \<times> NodePayload) list \<Rightarrow> u32 set" where
  "consumed_by ps = {v. \<exists>(i, p) \<in> set ps. consumes p = Some v}"

fun write_ops :: "(string, PmtLayoutSpec) hmap \<Rightarrow> u32 set \<Rightarrow> (u64 \<times> NodePayload) list \<Rightarrow> StateWriteOp list" where
  "write_ops L C [] = []"
| "write_ops L C ((i, p) # ps) =
     (case p of
        StateWrite v l f _ \<Rightarrow>
          \<lparr>sw_var_name = state_var i v, sw_field_name = f, sw_value_type = declared_type L l f,
           sw_after_consume = (v \<in> C)\<rparr> # write_ops L C ps
      | _ \<Rightarrow> write_ops L (C \<union> set_option (consumes p)) ps)"

definition subjects :: "(u64 \<times> NodePayload) list \<Rightarrow> (string, string) hmap" where
  "subjects ps = concat (map (\<lambda>(i, p). case subject p of None \<Rightarrow> [] | Some (v, l) \<Rightarrow> [(state_var i v, l)]) ps)"

lemma hm_get_or_insert: "hm_get (or_insert k v m) k' = (case hm_get m k' of None \<Rightarrow> if k' = k then Some v else None | Some x \<Rightarrow> Some x)"
  by (auto simp: or_insert_def update_conv' split: option.splits)

lemma walk_reads: "reads (fold (walk_node L) ps w) = reads w @ concat (map (read_ops L) ps)"
proof (induction ps arbitrary: w)
  case (Cons x ps)
  then show ?case by (cases x; cases "snd x") (simp_all add: Let_def)
qed simp

lemma walk_transforms: "transforms (fold (walk_node L) ps w) = transforms w @ concat (map transform_ops ps)"
proof (induction ps arbitrary: w)
  case (Cons x ps)
  then show ?case by (cases x; cases "snd x") (simp_all add: Let_def)
qed simp

lemma walk_writes: "writes (fold (walk_node L) ps w) = writes w @ write_ops L (consumed_vregs w) ps"
proof (induction ps arbitrary: w)
  case (Cons x ps)
  then show ?case by (cases x; cases "snd x") (simp_all add: Let_def)
qed simp

lemma walk_var_layouts:
  "hm_get (state_var_layouts (fold (walk_node L) ps w)) k
     = (case hm_get (state_var_layouts w) k of None \<Rightarrow> hm_get (subjects ps) k | Some l \<Rightarrow> Some l)"
proof (induction ps arbitrary: w)
  case Nil
  then show ?case by (simp add: subjects_def split: option.split)
next
  case (Cons x ps)
  show ?case
    by (cases x; cases "snd x") (simp_all add: Cons.IH subjects_def hm_get_or_insert Let_def split: option.split)
qed

lemma walk_consumed_vars:
  "consumed_vars (fold (walk_node L) ps w)
     = consumed_vars w \<union> {state_var i v | i v. \<exists>p. (i, p) \<in> set ps \<and> consumes p = Some v}"
proof (induction ps arbitrary: w)
  case (Cons x ps)
  show ?case by (cases x; cases "snd x") (auto simp: Cons.IH Let_def state_var_inj conj_disj_distribR ex_disj_distrib)
qed simp

lemma subjects_distinct: "distinct (map fst ps) \<Longrightarrow> hm_ok (subjects ps)"
  by (induction ps) (force simp: subjects_def state_var_inj split: option.splits prod.splits)+

lemma subjects_get:
  assumes "distinct (map fst ps)" and "(i, p) \<in> set ps" and "subject p = Some (v, l)"
  shows "hm_get (subjects ps) (state_var i v) = Some l"
proof (rule map_of_is_SomeI [OF subjects_distinct [OF assms(1)]])
  show "(state_var i v, l) \<in> set (subjects ps)"
    using assms(2,3) by (force simp: subjects_def)
qed

lemma write_ops_split:
  "\<lparr>sw_var_name = state_var i v, sw_field_name = f, sw_value_type = declared_type L l f,
    sw_after_consume = (v \<in> C \<union> consumed_by as)\<rparr> \<in> set (write_ops L C (as @ (i, StateWrite v l f x) # bs))"
proof (induction as arbitrary: C)
  case Nil
  then show ?case by (simp add: consumed_by_def)
next
  case (Cons a as)
  obtain j p where a: "a = (j, p)" by (cases a)
  have "C \<union> consumed_by (a # as) = (C \<union> set_option (consumes p)) \<union> consumed_by as"
    by (auto simp: a consumed_by_def)
  then show ?case using Cons.IH [of "C \<union> set_option (consumes p)"] Cons.IH [of C]
    by (cases p) (simp_all add: a)
qed

section \<open>What a verdict rests on\<close>

lemma find_map: "List.find P (map g xs) = map_option g (List.find (P \<circ> g) xs)"
  by (induction xs) auto

lemma verifier_layouts_get: "hm_get (verifier_layouts L) n = map_option layout_info (hm_get L n)"
  by (simp add: verifier_layouts_def map_of_map)

text \<open>A field access to a known layout, as the checks on specifications see it.\<close>

definition declares :: "(string, PmtLayoutSpec) hmap \<Rightarrow> string \<Rightarrow> string \<Rightarrow> PmtLayoutSpec \<Rightarrow> PmtFieldSpec \<Rightarrow> bool" where
  "declares L l f spec pf = (hm_get L l = Some spec \<and> List.find (\<lambda>g. pf_name g = f) (pl_fields spec) = Some pf)"

lemma resolves_declares:
  assumes "hm_get svl k = Some l"
  shows "resolves svl (verifier_layouts L) k f li fi \<longleftrightarrow>
    (\<exists>spec pf. declares L l f spec pf \<and> li = layout_info spec
       \<and> fi = \<lparr>fi_name = pf_name pf, fi_offset = pf_offset pf, fi_size = pf_size pf, fi_type_name = pf_type_name pf\<rparr>)"
  using assms by (auto simp: resolves_def declares_def verifier_layouts_get layout_info_def find_map comp_def)

lemma declares_type: "declares L l f spec pf \<Longrightarrow> declared_type L l f = pf_type_name pf"
  by (simp add: declares_def declared_type_def)

lemma consistency_of_input:
  "verify_pmt input = Proven \<Longrightarrow> verify_layout_consistency (the_layouts input) = []"
  by (auto simp: verify_pmt_def the_layouts_def verify_layout_consistency_def Let_def split: if_splits option.splits)

lemma state_verdict_of_input:
  "verify_pmt input = Proven \<Longrightarrow> state_verdict input (pmt_walk (the_layouts input) (scg_nodes input)) = Proven"
  by (auto simp: verify_pmt_def Let_def split: if_splits)

lemma state_verdict_Proven:
  "state_verdict input w = Proven \<longleftrightarrow>
     (reads w = [] \<and> writes w = [] \<and> transforms w = []) \<or>
     (list_all valid (verify_state_reads (state_var_layouts w) (verifier_layouts (the_layouts input)) (reads w))
      \<and> list_all valid (verify_state_writes (state_var_layouts w) (verifier_layouts (the_layouts input)) (writes w) (consumed_vars w))
      \<and> list_all st_valid (verify_all_transforms (verifier_layouts (the_layouts input)) (transforms w))
      \<and> list_all ab_valid (verify_arena_bounds (arena_layouts (the_layouts input)) (arena_nodes input)))"
  by (simp add: state_verdict_def Let_def)

lemma in_sort_key: "set (sort_key fst nodes) = set nodes"
  by simp

lemma sorted_before:
  fixes nodes :: "('i::linorder \<times> 'p) list"
  assumes "distinct (map fst nodes)" and "(i, p) \<in> set nodes"
  shows "\<exists>as bs. sort_key fst nodes = as @ (i, p) # bs \<and> set as = {x \<in> set nodes. fst x < i}"
proof -
  obtain as bs where s: "sort_key fst nodes = as @ (i, p) # bs"
    using assms(2) in_set_conv_decomp [of "(i, p)" "sort_key fst nodes"] by auto
  have srt: "sorted (map fst as @ i # map fst bs)" using sorted_sort_key [of fst nodes] by (simp only: s) simp
  have dst: "distinct (map fst as @ i # map fst bs)"
  proof -
    have "distinct (map fst (sort_key fst nodes))"
      using assms(1) by (simp add: distinct_map)
    then show ?thesis by (simp only: s) simp
  qed
  have "set nodes = set as \<union> insert (i, p) (set bs)" using in_sort_key [of nodes] s by simp
  moreover have "fst x < i" if "x \<in> set as" for x
    using srt dst that by (auto simp: sorted_append order.strict_iff_order)
  moreover have "\<not> fst x < i" if "x \<in> set bs" for x
    using srt that by (auto simp: sorted_append)
  ultimately have "set as = {x \<in> set nodes. fst x < i}" by auto
  with s show ?thesis by blast
qed

lemma pmt_walk_read:
  "(i, StateRead v l f r) \<in> set nodes \<Longrightarrow> (state_var i v, f, declared_type L l f) \<in> set (reads (pmt_walk L nodes))"
  by (force simp: pmt_walk_def walk_reads)

lemma pmt_walk_transform:
  "(i, StateTransform v a b r) \<in> set nodes \<Longrightarrow> (a, b) \<in> set (transforms (pmt_walk L nodes))"
  by (force simp: pmt_walk_def walk_transforms)

lemma pmt_walk_write:
  assumes "distinct (map fst nodes)" and "(i, StateWrite v l f r) \<in> set nodes"
  shows "\<lparr>sw_var_name = state_var i v, sw_field_name = f, sw_value_type = declared_type L l f,
    sw_after_consume = (\<exists>(j, q) \<in> set nodes. j < i \<and> consumes q = Some v)\<rparr> \<in> set (writes (pmt_walk L nodes))"
proof -
  obtain as bs where s: "sort_key fst nodes = as @ (i, StateWrite v l f r) # bs"
    and as: "set as = {x \<in> set nodes. fst x < i}"
    using sorted_before [OF assms] by blast
  have "(v \<in> {} \<union> consumed_by as) = (\<exists>(j, q) \<in> set nodes. j < i \<and> consumes q = Some v)"
    by (auto simp: consumed_by_def as)
  then show ?thesis
    using write_ops_split [of i v f L l "{}" as r bs]
    by (simp only: pmt_walk_def walk_writes s) (simp add: walk_init_def)
qed

lemma pmt_walk_layout:
  assumes "distinct (map fst nodes)" and "(i, p) \<in> set nodes" and "subject p = Some (v, l)"
  shows "hm_get (state_var_layouts (pmt_walk L nodes)) (state_var i v) = Some l"
proof -
  have "distinct (map fst (sort_key fst nodes))" using assms(1) by (simp add: distinct_map)
  then show ?thesis
    using subjects_get [of "sort_key fst nodes" i p v l] assms(2,3)
    by (simp add: pmt_walk_def walk_var_layouts walk_init_def)
qed

lemma pmt_proven_verdicts:
  assumes "verify_pmt input = Proven"
  defines "w \<equiv> pmt_walk (the_layouts input) (scg_nodes input)" and "L \<equiv> verifier_layouts (the_layouts input)"
  shows "x \<in> set (reads w) \<Longrightarrow> valid (verify_state_read (state_var_layouts w) L x)"
    and "y \<in> set (writes w) \<Longrightarrow> valid (verify_state_write (state_var_layouts w) L (consumed_vars w) y)"
    and "(a, b) \<in> set (transforms w) \<Longrightarrow> a \<in> dom (hm_get L) \<and> b \<in> dom (hm_get L)"
    and "reads w \<noteq> [] \<or> writes w \<noteq> [] \<or> transforms w \<noteq> [] \<Longrightarrow>
      list_all ab_valid (verify_arena_bounds (arena_layouts (the_layouts input)) (arena_nodes input))"
  using state_verdict_of_input [OF assms(1)] transforms_exact [of L "transforms w"] unfolding state_verdict_Proven
  by (auto simp: w_def L_def verify_state_reads_def verify_state_writes_def all_transforms_valid_def list_all_iff)

text \<open>A valid access to a consistent layout lies inside it.\<close>

lemma access_in_bounds:
  assumes ok: "verify_layout_consistency L = []"
    and small: "\<forall>(n, spec) \<in> set L.
      (\<Sum>f \<leftarrow> pl_fields spec. unat (pf_size f) + unat (type_align (pf_type_name f))) < 2 ^ 63"
    and svl: "hm_get svl k = Some l" and res: "resolves svl (verifier_layouts L) k f li fi"
  shows "\<exists>spec pf. declares L l f spec pf \<and> unat (pf_offset pf) + unat (pf_size pf) \<le> unat (pl_total_size spec)"
proof -
  obtain spec pf where d: "declares L l f spec pf" using res resolves_declares [OF svl] by blast
  then have mem: "(l, spec) \<in> set L" and pf: "pf \<in> set (pl_fields spec)"
    by (auto simp: declares_def dest: map_of_SomeD find_Some_mem)
  have "layout_mismatches l spec = []" using ok mem by (auto simp: consistency_Nil)
  then have "unat (pf_offset pf) + unat (pf_size pf) \<le> unat (pl_total_size spec)"
    using consistent_geometry [of l spec] small mem pf by blast
  with d show ?thesis by blast
qed

section \<open>Properties\<close>


definition demo_input :: "(u64 \<times> NodePayload) list \<Rightarrow> NodePayload list \<Rightarrow> VerificationInput" where
  "demo_input nodes arenas = \<lparr>scg_nodes = nodes, has_semantic_nodes = False, arena_nodes = arenas,
     pmt_layouts = Some [(''P'', demo_spec)], typed_state_meta = []\<rparr>"

lemma demo_consistent: "verify_layout_consistency [(''P'', demo_spec)] = []"
  by (simp add: consistency_Nil demo_spec_consistent)

lemma demo_small: "(\<Sum>f \<leftarrow> pl_fields demo_spec. unat (pf_size f) + unat (type_align (pf_type_name f))) < 2 ^ 63"
  by (simp add: demo_spec_def type_align_def demo_types)

lemmas demo_eval = verify_pmt_def demo_input_def the_layouts_def demo_consistent [unfolded demo_spec_def] pmt_walk_def walk_init_def
  state_verdict_def verify_state_reads_def verify_state_read_def verify_state_writes_def verify_state_write_def
  verify_all_transforms_def verify_transform_def verify_arena_bounds_def declared_type_def note_field_def
  or_insert_def verifier_layouts_def layout_info_def accepted_def verify_layout_field_list_consistency_def
  ivederived_layouts_def field_list_mismatches_def state_var_inj Let_def

lemma demo_proven:
  "verify_pmt (demo_input [(2, StateRead 0 ''P'' ''t'' 6), (1, StateWrite 0 ''P'' ''x'' 5)] []) = Proven"
  by (simp add: demo_eval demo_spec_def)


text \<open>
  A read of a state after the transform that consumed it is accepted: linearity is checked for
  writes only. The declared type is fed to the type check itself, so no type mismatch is ever found.
\<close>

lemma read_after_consume_proven:
  "verify_pmt (demo_input [(1, StateTransform 0 ''P'' ''P'' 7), (2, StateRead 0 ''P'' ''x'' 8)] []) = Proven"
  by (simp add: demo_eval demo_spec_def)

lemma read_types_agree:
  assumes "distinct (map fst nodes)" and "(i, StateRead v l f r) \<in> set nodes"
  shows "error (verify_state_read (state_var_layouts (pmt_walk L nodes)) (verifier_layouts L)
      (state_var i v, f, declared_type L l f)) \<noteq> Some (TypeMismatch a b c)"
  using pmt_walk_layout [OF assms, of v l L]
  by (auto simp: verify_state_read_def rejected_def accepted_def verifier_layouts_get layout_info_def find_map
      comp_def declared_type_def split: option.splits)

text \<open>
  On a program without reads, writes and transforms \<^verbatim>\<open>verify_pmt\<close> answers \<^verbatim>\<open>Proven\<close> whatever the
  arena verifier found: its verdict is dropped when the number of state operations, which does not
  count allocations, is zero.
\<close>

fun is_state_op :: "NodePayload \<Rightarrow> bool" where
  "is_state_op (StateRead _ _ _ _) = True"
| "is_state_op (StateWrite _ _ _ _) = True"
| "is_state_op (StateTransform _ _ _ _) = True"
| "is_state_op _ = False"

lemma walk_without_ops:
  assumes "\<forall>x \<in> set ps. \<not> is_state_op (snd x)"
  shows "reads (fold (walk_node L) ps w) = reads w \<and> writes (fold (walk_node L) ps w) = writes w
    \<and> transforms (fold (walk_node L) ps w) = transforms w
    \<and> accessed_field_refs (fold (walk_node L) ps w) = accessed_field_refs w"
  using assms
proof (induction ps arbitrary: w)
  case (Cons x ps)
  then show ?case by (cases x; cases "snd x") (simp_all add: Let_def)
qed simp

theorem pmt_drops_arena_verdict:
  assumes "\<forall>x \<in> set (scg_nodes input). \<not> is_state_op (snd x)"
    and "verify_layout_consistency (the_layouts input) = []" and "typed_state_meta input = []"
  shows "verify_pmt input = Proven"
proof -
  have "\<forall>x \<in> set (sort_key fst (scg_nodes input)). \<not> is_state_op (snd x)" using assms(1) by simp
  note none = walk_without_ops [OF this, of "the_layouts input" walk_init]
  have "(case pmt_layouts input of None \<Rightarrow> [] | Some layouts \<Rightarrow> if layouts = [] then [] else verify_layout_consistency layouts) = []"
    using assms(2) by (auto simp: the_layouts_def split: option.splits)
  then show ?thesis
    using none assms(3) by (simp add: verify_pmt_def pmt_walk_def state_verdict_Proven walk_init_def Let_def)
qed

theorem pmt_drops_arena_verdict_witness:
  "verify_pmt (demo_input [(1, ArenaAlloc 0 ''Missing'' 2 3)] [ArenaAlloc 0 ''Missing'' 2 3]) = Proven
   \<and> \<not> all_arenas_valid (verify_arena_bounds (arena_layouts [(''P'', demo_spec)]) [ArenaAlloc 0 ''Missing'' 2 3])"
  using pmt_drops_arena_verdict [of "demo_input [(1, ArenaAlloc 0 ''Missing'' 2 3)] [ArenaAlloc 0 ''Missing'' 2 3]"]
  by (simp add: demo_input_def the_layouts_def demo_consistent)
    (simp add: all_arenas_valid_def verify_arena_bounds_def arena_alloc_step_def arena_layouts_def arena_bad_def)

end
