(* ===== verification/Ive_Session.thy ===== *)
theory Ive_Session
  imports Vuma_Prelude
begin

text \<open>
  The session type checker, \<^verbatim>\<open>src/src/ive/src/session_type.rs\<close>: protocol types with duality and unfolding, and
  the checker that replays the events of a program against the declared type of each channel.
  An abstract transition system of session types specifies the checker. The theory shows that the
  checker reports nothing exactly when the events of every channel follow that system, that duality
  mirrors it, which protocols can be completed, and that a recursive protocol never can.
\<close>

section \<open>Session types\<close>

datatype SessionType =
    End
  | Send string SessionType
  | Recv string SessionType
  | Choice SessionType SessionType
  | Offer SessionType SessionType
  | Rec SessionType
  | Var u32

fun dual :: "SessionType \<Rightarrow> SessionType" where
  "dual End = End"
| "dual (Send t s) = Recv t (dual s)"
| "dual (Recv t s) = Send t (dual s)"
| "dual (Choice s1 s2) = Offer (dual s1) (dual s2)"
| "dual (Offer s1 s2) = Choice (dual s1) (dual s2)"
| "dual (Rec s) = Rec (dual s)"
| "dual (Var n) = Var n"

definition is_dual :: "SessionType \<Rightarrow> SessionType \<Rightarrow> bool" where
  "is_dual s other = (dual s = other)"

text \<open>\<^verbatim>\<open>depth + 1\<close> and \<^verbatim>\<open>n - 1\<close> wrap at 32 bits.\<close>

fun substitute :: "SessionType \<Rightarrow> u32 \<Rightarrow> SessionType \<Rightarrow> SessionType" where
  "substitute End depth replacement = End"
| "substitute (Send t s) depth replacement = Send t (substitute s depth replacement)"
| "substitute (Recv t s) depth replacement = Recv t (substitute s depth replacement)"
| "substitute (Choice s1 s2) depth replacement =
     Choice (substitute s1 depth replacement) (substitute s2 depth replacement)"
| "substitute (Offer s1 s2) depth replacement =
     Offer (substitute s1 depth replacement) (substitute s2 depth replacement)"
| "substitute (Rec s) depth replacement = Rec (substitute s (depth + 1) replacement)"
| "substitute (Var n) depth replacement =
     (if n = depth then replacement else if n > depth then Var (n - 1) else Var n)"

fun unfold :: "SessionType \<Rightarrow> SessionType" where
  "unfold (Rec body) = substitute body 0 (Rec body)"
| "unfold other = other"

fun is_end :: "SessionType \<Rightarrow> bool" where
  "is_end End = True"
| "is_end _ = False"

section \<open>The checker\<close>

datatype SessionEventKind =
    EvOpen u32 SessionType
  | EvSend u32 string
  | EvRecv u32 string
  | EvClose u32

record SessionEvent =
  se_kind :: SessionEventKind
  se_at_node :: nat

datatype SessionError =
    AlreadyActive nat u32
  | SendNoSession nat u32
  | SendTypeMismatch nat u32 string string
  | SendUnexpected nat u32 SessionType
  | RecvNoSession nat u32
  | RecvTypeMismatch nat u32 string string
  | RecvUnexpected nat u32 SessionType
  | NoBranchMatches nat bool u32 string
  | CloseNoSession nat u32
  | CloseIncomplete nat u32 SessionType
  | IncompleteSession u32 SessionType

record SessionViolation =
  sv_valid :: bool
  sv_error :: "SessionError option"

type_synonym session_state = "(u32, SessionType) hmap"

definition violation :: "SessionError \<Rightarrow> SessionViolation" where
  "violation e = \<lparr>sv_valid = False, sv_error = Some e\<rparr>"

fun match_branch :: "bool \<Rightarrow> string \<Rightarrow> SessionType \<Rightarrow> SessionType option" where
  "match_branch True msg_type (Send expected_t cont) = (if expected_t = msg_type then Some cont else None)"
| "match_branch False msg_type (Recv expected_t cont) = (if expected_t = msg_type then Some cont else None)"
| "match_branch _ _ _ = None"

text \<open>
  \<^verbatim>\<open>try_match_choice_branch\<close>: the first branch that matches, or a violation pushed to the results.
\<close>

fun try_match_choice_branch ::
  "SessionType list \<Rightarrow> string \<Rightarrow> nat \<Rightarrow> u32 \<Rightarrow> SessionViolation list \<Rightarrow> bool
   \<Rightarrow> SessionType option \<times> SessionViolation list" where
  "try_match_choice_branch [] msg_type at_node vreg results is_send =
     (None, results @ [violation (NoBranchMatches at_node is_send vreg msg_type)])"
| "try_match_choice_branch (branch # branches) msg_type at_node vreg results is_send =
     (case match_branch is_send msg_type branch of
        Some new_state \<Rightarrow> (Some new_state, results)
      | None \<Rightarrow> try_match_choice_branch branches msg_type at_node vreg results is_send)"

definition take_branch ::
  "session_state \<Rightarrow> u32 \<Rightarrow> SessionType option \<times> SessionViolation list \<Rightarrow> session_state \<times> SessionViolation list" where
  "take_branch state vreg = (\<lambda>(matched, results).
     case matched of Some new_state \<Rightarrow> (hm_insert vreg new_state state, results) | None \<Rightarrow> (state, results))"

text \<open>The loop body of \<^verbatim>\<open>verify_session_types\<close>.\<close>

fun check_event :: "nat \<Rightarrow> SessionEventKind \<Rightarrow> session_state \<times> SessionViolation list \<Rightarrow> session_state \<times> SessionViolation list" where
  "check_event at_node (EvOpen vreg session_type) (state, results) =
     (hm_insert vreg session_type state,
      results @ (if hm_get state vreg \<noteq> None then [violation (AlreadyActive at_node vreg)] else []))"
| "check_event at_node (EvSend vreg msg_type) (state, results) =
     (case hm_get state vreg of
        None \<Rightarrow> (state, results @ [violation (SendNoSession at_node vreg)])
      | Some (Send expected_t cont) \<Rightarrow>
          if expected_t \<noteq> msg_type
          then (state, results @ [violation (SendTypeMismatch at_node vreg expected_t msg_type)])
          else (hm_insert vreg cont state, results)
      | Some (Choice s1 s2) \<Rightarrow>
          take_branch state vreg (try_match_choice_branch [s1, s2] msg_type at_node vreg results True)
      | Some other \<Rightarrow> (state, results @ [violation (SendUnexpected at_node vreg other)]))"
| "check_event at_node (EvRecv vreg expected_type) (state, results) =
     (case hm_get state vreg of
        None \<Rightarrow> (state, results @ [violation (RecvNoSession at_node vreg)])
      | Some (Recv expected_t cont) \<Rightarrow>
          if expected_t \<noteq> expected_type
          then (state, results @ [violation (RecvTypeMismatch at_node vreg expected_t expected_type)])
          else (hm_insert vreg cont state, results)
      | Some (Offer s1 s2) \<Rightarrow>
          take_branch state vreg (try_match_choice_branch [s1, s2] expected_type at_node vreg results False)
      | Some other \<Rightarrow> (state, results @ [violation (RecvUnexpected at_node vreg other)]))"
| "check_event at_node (EvClose vreg) (state, results) =
     (case hm_get state vreg of
        None \<Rightarrow> (state, results @ [violation (CloseNoSession at_node vreg)])
      | Some End \<Rightarrow> (hm_remove vreg state, results)
      | Some other \<Rightarrow> (state, results @ [violation (CloseIncomplete at_node vreg other)]))"

definition check_events :: "SessionEvent list \<Rightarrow> session_state \<times> SessionViolation list \<Rightarrow> session_state \<times> SessionViolation list" where
  "check_events = fold (\<lambda>event. check_event (se_at_node event) (se_kind event))"

definition incomplete_sessions :: "session_state \<Rightarrow> SessionViolation list" where
  "incomplete_sessions state =
     map (\<lambda>(vreg, st). violation (IncompleteSession vreg st)) (filter (\<lambda>(vreg, st). \<not> is_end st) state)"

definition verify_session_types :: "SessionEvent list \<Rightarrow> SessionViolation list" where
  "verify_session_types events =
     (let (state, results) = check_events (sort_key se_at_node events) ([], [])
      in results @ incomplete_sessions state)"

definition all_sessions_valid :: "SessionViolation list \<Rightarrow> bool" where
  "all_sessions_valid results = list_all sv_valid results"

section \<open>The transition system of session types\<close>

text \<open>
  An action is a message type with its direction. A choice continues with the first branch that
  starts with the message sent, an offer with the first that starts with the message received.
\<close>

type_synonym action = "bool \<times> string"

inductive moves :: "SessionType \<Rightarrow> action \<Rightarrow> SessionType \<Rightarrow> bool" where
  send: "moves (Send t s) (True, t) s"
| recv: "moves (Recv t s) (False, t) s"
| choice_left: "moves (Choice (Send t s) s2) (True, t) s"
| choice_right: "(\<nexists>s'. s1 = Send t s') \<Longrightarrow> moves (Choice s1 (Send t s)) (True, t) s"
| offer_left: "moves (Offer (Recv t s) s2) (False, t) s"
| offer_right: "(\<nexists>s'. s1 = Recv t s') \<Longrightarrow> moves (Offer s1 (Recv t s)) (False, t) s"

inductive_cases moves_SendE [elim!]: "moves (Send t s) a s'"
inductive_cases moves_RecvE [elim!]: "moves (Recv t s) a s'"
inductive_cases moves_ChoiceE [elim!]: "moves (Choice a b) x s'"
inductive_cases moves_OfferE [elim!]: "moves (Offer a b) x s'"
inductive_simps moves_stuck: "moves End a s'" "moves (Rec b) a s'" "moves (Var n) a s'"

inductive runs :: "SessionType \<Rightarrow> action list \<Rightarrow> SessionType \<Rightarrow> bool" where
  nil: "runs s [] s"
| cons: "moves s a s' \<Longrightarrow> runs s' as s'' \<Longrightarrow> runs s (a # as) s''"

text \<open>
  The event sequence of one channel, with the type still to be followed (\<open>None\<close> when closed).
  A session may be left open once its type is \<open>End\<close>.
\<close>

inductive conforms :: "SessionType option \<Rightarrow> SessionEventKind list \<Rightarrow> bool" where
  stop: "conforms None []"
| stop_end: "conforms (Some End) []"
| opened: "conforms (Some s) es \<Longrightarrow> conforms None (EvOpen v s # es)"
| sent: "moves s (True, t) s' \<Longrightarrow> conforms (Some s') es \<Longrightarrow> conforms (Some s) (EvSend v t # es)"
| received: "moves s (False, t) s' \<Longrightarrow> conforms (Some s') es \<Longrightarrow> conforms (Some s) (EvRecv v t # es)"
| closed: "conforms None es \<Longrightarrow> conforms (Some End) (EvClose v # es)"

inductive_simps conforms_Nil: "conforms c []"
inductive_simps conforms_Open: "conforms c (EvOpen v s # es)"
inductive_simps conforms_Send: "conforms c (EvSend v t # es)"
inductive_simps conforms_Recv: "conforms c (EvRecv v t # es)"
inductive_simps conforms_Close: "conforms c (EvClose v # es)"

fun vreg_of :: "SessionEventKind \<Rightarrow> u32" where
  "vreg_of (EvOpen v _) = v"
| "vreg_of (EvSend v _) = v"
| "vreg_of (EvRecv v _) = v"
| "vreg_of (EvClose v) = v"

definition channel :: "u32 \<Rightarrow> SessionEvent list \<Rightarrow> SessionEventKind list" where
  "channel v es = filter (\<lambda>k. vreg_of k = v) (map se_kind es)"

section \<open>The checker against the transition system\<close>

definition chan_ok :: "SessionType option \<Rightarrow> SessionEventKind \<Rightarrow> SessionType option \<Rightarrow> bool" where
  "chan_ok c k c' =
     (case k of
        EvOpen v s \<Rightarrow> c = None \<and> c' = Some s
      | EvSend v t \<Rightarrow> (\<exists>s s'. c = Some s \<and> moves s (True, t) s' \<and> c' = Some s')
      | EvRecv v t \<Rightarrow> (\<exists>s s'. c = Some s \<and> moves s (False, t) s' \<and> c' = Some s')
      | EvClose v \<Rightarrow> c = Some End \<and> c' = None)"

lemma conforms_Cons: "conforms c (k # es) \<longleftrightarrow> (\<exists>c'. chan_ok c k c' \<and> conforms c' es)"
  by (cases k) (auto simp: chan_ok_def conforms_Open conforms_Send conforms_Recv conforms_Close)

lemma match_branch_iff: "match_branch d m s = Some s' \<longleftrightarrow> (if d then s = Send m s' else s = Recv m s')"
  by (cases "(d, m, s)" rule: match_branch.cases) auto

lemma match_branch_None: "match_branch d m s = None \<longleftrightarrow> (if d then (\<nexists>s'. s = Send m s') else (\<nexists>s'. s = Recv m s'))"
  by (cases "(d, m, s)" rule: match_branch.cases) auto

lemma try_match_two:
  "try_match_choice_branch [s1, s2] m n v rs d =
     (case match_branch d m s1 of
        Some s \<Rightarrow> (Some s, rs)
      | None \<Rightarrow> (case match_branch d m s2 of
                   Some s \<Rightarrow> (Some s, rs) | None \<Rightarrow> (None, rs @ [violation (NoBranchMatches n d v m)])))"
  by (simp split: option.split)

lemma check_event_results:
  "check_event n k (st, rs) = (fst (check_event n k (st, [])), rs @ snd (check_event n k (st, [])))"
  by (cases k) (auto simp: try_match_two take_branch_def split: option.split SessionType.split)

lemma moves_Choice: "moves (Choice s1 s2) (True, m) s' \<longleftrightarrow>
    (case match_branch True m s1 of Some s \<Rightarrow> s' = s | None \<Rightarrow> match_branch True m s2 = Some s')"
  by (auto simp: match_branch_iff match_branch_None intro: moves.intros split: option.splits)

lemma moves_Offer: "moves (Offer s1 s2) (False, m) s' \<longleftrightarrow>
    (case match_branch False m s1 of Some s \<Rightarrow> s' = s | None \<Rightarrow> match_branch False m s2 = Some s')"
  by (auto simp: match_branch_iff match_branch_None intro: moves.intros split: option.splits)

lemmas event_simps = chan_ok_def try_match_two take_branch_def moves_Choice moves_Offer moves_stuck
  hm_get_insert hm_get_remove

lemma moves_Send: "moves (Send t s) (d, m) s' \<longleftrightarrow> d \<and> m = t \<and> s' = s"
  by (auto intro: moves.intros)

lemma moves_Recv: "moves (Recv t s) (d, m) s' \<longleftrightarrow> \<not> d \<and> m = t \<and> s' = s"
  by (auto intro: moves.intros)

lemma moves_wrong_way: "\<not> moves (Choice a b) (False, m) s'" "\<not> moves (Offer a b) (True, m) s'"
  by auto

lemma check_event_ok:
  "snd (check_event n k (st, [])) = [] \<longleftrightarrow> (\<exists>c. chan_ok (hm_get st (vreg_of k)) k c)"
  by (cases k) (auto simp: event_simps moves_Send moves_Recv moves_wrong_way split: option.splits SessionType.splits)

lemma check_event_next:
  "chan_ok (hm_get st (vreg_of k)) k c \<Longrightarrow> hm_get (fst (check_event n k (st, []))) (vreg_of k) = c"
  by (cases k) (auto simp: event_simps match_branch_iff moves_Send moves_Recv moves_wrong_way split: option.splits SessionType.splits)

lemma check_event_other:
  "w \<noteq> vreg_of k \<Longrightarrow> hm_get (fst (check_event n k (st, []))) w = hm_get st w"
  by (cases k) (auto simp: event_simps split: option.splits SessionType.splits)

lemma check_event_keys: "hm_ok st \<Longrightarrow> hm_ok (fst (check_event n k (st, [])))"
  by (cases k) (auto simp: event_simps hm_ok_insert hm_ok_remove split: option.splits SessionType.splits)

lemma check_events_Cons:
  "check_events (e # es) (st, []) =
     (let (st', errs) = check_event (se_at_node e) (se_kind e) (st, []); (st'', errs') = check_events es (st', [])
      in (st'', errs @ errs'))"
proof -
  have acc: "check_events es (st, rs) = (fst (check_events es (st, [])), rs @ snd (check_events es (st, [])))" for es st rs
  proof (induction es arbitrary: st rs)
    case Nil
    then show ?case by (simp add: check_events_def)
  next
    case (Cons e es)
    let ?c = "check_event (se_at_node e) (se_kind e) (st, [])"
    have "check_events (e # es) (st, rs') = check_events es (fst ?c, rs' @ snd ?c)" for rs'
      by (simp add: check_events_def check_event_results [of _ _ st rs'])
    then show ?case using Cons.IH [of "fst ?c" "rs @ snd ?c"] Cons.IH [of "fst ?c" "snd ?c"] by simp
  qed
  let ?c = "check_event (se_at_node e) (se_kind e) (st, [])"
  have "check_events (e # es) (st, []) = check_events es (fst ?c, snd ?c)" by (simp add: check_events_def)
  then show ?thesis using acc [of es "fst ?c" "snd ?c"] by (simp add: split_beta Let_def)
qed

lemma incomplete_Nil: "hm_ok st \<Longrightarrow> incomplete_sessions st = [] \<longleftrightarrow> (\<forall>v. conforms (hm_get st v) [])"
proof -
  assume ok: "hm_ok st"
  have "incomplete_sessions st = [] \<longleftrightarrow> (\<forall>(v, s) \<in> set st. s = End)"
  proof -
    have "is_end s \<longleftrightarrow> s = End" for s by (cases s) auto
    then show ?thesis by (auto simp: incomplete_sessions_def filter_empty_conv)
  qed
  also have "\<dots> \<longleftrightarrow> (\<forall>v s. hm_get st v = Some s \<longrightarrow> s = End)" using ok by (auto simp: hm_mem [symmetric])
  finally show ?thesis unfolding conforms_Nil by (metis not_None_eq option.inject)
qed

lemma check_events_exact:
  assumes "hm_ok st"
  shows "snd (check_events es (st, [])) @ incomplete_sessions (fst (check_events es (st, []))) = []
    \<longleftrightarrow> (\<forall>v. conforms (hm_get st v) (channel v es))"
  using assms
proof (induction es arbitrary: st)
  case Nil
  then show ?case by (simp add: check_events_def channel_def incomplete_Nil)
next
  case (Cons e es)
  let ?k = "se_kind e" and ?v = "vreg_of (se_kind e)"
  let ?c = "check_event (se_at_node e) ?k (st, [])"
  have chan: "channel w (e # es) = (if w = ?v then ?k # channel w es else channel w es)" for w
    by (simp add: channel_def)
  show ?case
  proof (cases "\<exists>c. chan_ok (hm_get st ?v) ?k c")
    case True
    then obtain c where c: "chan_ok (hm_get st ?v) ?k c" by blast
    have next_v: "chan_ok (hm_get st ?v) ?k c' \<longleftrightarrow> c' = hm_get (fst ?c) ?v" for c'
      using check_event_next c by metis
    have "snd ?c = []" using True check_event_ok by blast
    then have "snd (check_events (e # es) (st, [])) @ incomplete_sessions (fst (check_events (e # es) (st, []))) = []
        \<longleftrightarrow> (\<forall>w. conforms (hm_get (fst ?c) w) (channel w es))"
      using Cons.IH [OF check_event_keys [OF Cons.prems, of "se_at_node e" ?k]] by (simp add: check_events_Cons split_beta Let_def)
    also have "\<dots> \<longleftrightarrow> (\<forall>w. conforms (hm_get st w) (channel w (e # es)))"
      using check_event_other [of _ ?k "se_at_node e" st] next_v by (auto simp: chan conforms_Cons) metis+
    finally show ?thesis .
  next
    case False
    then have "snd ?c \<noteq> []" using check_event_ok by blast
    moreover have "\<not> conforms (hm_get st ?v) (channel ?v (e # es))" using False by (simp add: chan conforms_Cons)
    ultimately show ?thesis by (auto simp: check_events_Cons split_beta Let_def)
  qed
qed

lemma verify_conforms:
  "verify_session_types events = [] \<longleftrightarrow> (\<forall>v. conforms None (channel v (sort_key se_at_node events)))"
  using check_events_exact [of "[]" "sort_key se_at_node events"]
  by (simp add: verify_session_types_def split_beta)

section \<open>Duality\<close>

fun co :: "action \<Rightarrow> action" where
  "co (d, m) = (\<not> d, m)"

lemma dual_dual [simp]: "dual (dual s) = s"
  by (induction s) auto

lemma dual_inject: "dual a = dual b \<longleftrightarrow> a = b"
  using dual_dual by metis

lemma dual_substitute: "dual (substitute s d r) = substitute (dual s) d (dual r)"
  by (induction s arbitrary: d) auto

lemma dual_unfold: "dual (unfold s) = unfold (dual s)"
  by (cases s) (simp_all add: dual_substitute)

lemma dual_heads: "dual s = Send t r \<longleftrightarrow> s = Recv t (dual r)" "dual s = Recv t r \<longleftrightarrow> s = Send t (dual r)"
  by (cases s; auto)+

lemma moves_dual: "moves s a s' \<Longrightarrow> moves (dual s) (co a) (dual s')"
  by (induction rule: moves.induct) (auto simp: dual_heads intro: moves.intros)

lemma moves_dual_iff: "moves (dual s) (co a) (dual s') \<longleftrightarrow> moves s a s'"
  using moves_dual [of s a s'] moves_dual [of "dual s" "co a" "dual s'"] by (cases a) auto

lemma runs_dual: "runs s as s' \<Longrightarrow> runs (dual s) (map co as) (dual s')"
  by (induction rule: runs.induct) (auto intro: runs.intros moves_dual)

text \<open>The other end of every channel: dual types, sends for receives and receives for sends.\<close>

fun mirror :: "SessionEventKind \<Rightarrow> SessionEventKind" where
  "mirror (EvOpen v s) = EvOpen v (dual s)"
| "mirror (EvSend v t) = EvRecv v t"
| "mirror (EvRecv v t) = EvSend v t"
| "mirror (EvClose v) = EvClose v"

definition mirror_event :: "SessionEvent \<Rightarrow> SessionEvent" where
  "mirror_event e = e\<lparr>se_kind := mirror (se_kind e)\<rparr>"

lemma mirror_mirror [simp]: "mirror (mirror k) = k"
  by (cases k) auto

lemma mirror_vreg [simp]: "vreg_of (mirror k) = vreg_of k"
  by (cases k) auto

lemma conforms_mirror: "conforms c es \<Longrightarrow> conforms (map_option dual c) (map mirror es)"
proof (induction rule: conforms.induct)
  case (sent s t s' es v)
  then show ?case using moves_dual [of s "(True, t)" s'] by (auto intro: conforms.intros)
next
  case (received s t s' es v)
  then show ?case using moves_dual [of s "(False, t)" s'] by (auto intro: conforms.intros)
qed (auto intro: conforms.intros)

lemma sort_key_map: "sort_key f (map g xs) = map g (sort_key (\<lambda>x. f (g x)) xs)"
proof -
  have ins: "insort_key f (g x) (map g ys) = map g (insort_key (\<lambda>x. f (g x)) x ys)" for x ys
    by (induction ys) auto
  show ?thesis by (induction xs) (simp_all add: ins)
qed

lemma channel_mirror: "channel v (map mirror_event es) = map mirror (channel v es)"
  by (induction es) (auto simp: channel_def mirror_event_def)

lemma sort_mirror: "sort_key se_at_node (map mirror_event es) = map mirror_event (sort_key se_at_node es)"
proof -
  have "(\<lambda>e. se_at_node (mirror_event e)) = se_at_node" by (rule ext) (simp add: mirror_event_def)
  then show ?thesis by (simp add: sort_key_map)
qed

lemma verify_mirror: "verify_session_types es = [] \<Longrightarrow> verify_session_types (map mirror_event es) = []"
  unfolding verify_conforms sort_mirror channel_mirror using conforms_mirror [of None] by simp

section \<open>Protocols that can be completed\<close>

fun completable :: "SessionType \<Rightarrow> bool" where
  "completable End = True"
| "completable (Send t s) = completable s"
| "completable (Recv t s) = completable s"
| "completable (Choice a b) =
     (case a of
        Send t s \<Rightarrow> completable s \<or> (case b of Send t' s' \<Rightarrow> t' \<noteq> t \<and> completable s' | _ \<Rightarrow> False)
      | _ \<Rightarrow> (case b of Send t' s' \<Rightarrow> completable s' | _ \<Rightarrow> False))"
| "completable (Offer a b) =
     (case a of
        Recv t s \<Rightarrow> completable s \<or> (case b of Recv t' s' \<Rightarrow> t' \<noteq> t \<and> completable s' | _ \<Rightarrow> False)
      | _ \<Rightarrow> (case b of Recv t' s' \<Rightarrow> completable s' | _ \<Rightarrow> False))"
| "completable (Rec s) = False"
| "completable (Var n) = False"

lemma completable_moves: "moves s a s' \<Longrightarrow> completable s' \<Longrightarrow> completable s"
  by (induction rule: moves.induct) (auto split: SessionType.splits)

lemma completable_Choice:
  "completable (Choice a b) \<longleftrightarrow> (\<exists>t s. a = Send t s \<and> completable s)
     \<or> (\<exists>t s. b = Send t s \<and> completable s \<and> (\<nexists>s'. a = Send t s'))"
  by (simp split: SessionType.splits) blast

lemma completable_Offer:
  "completable (Offer a b) \<longleftrightarrow> (\<exists>t s. a = Recv t s \<and> completable s)
     \<or> (\<exists>t s. b = Recv t s \<and> completable s \<and> (\<nexists>s'. a = Recv t s'))"
  by (simp split: SessionType.splits) blast

lemma completable_runs: "completable s \<Longrightarrow> \<exists>as. runs s as End"
proof (induction s rule: measure_induct_rule [of size])
  case (less s)
  have via: "\<exists>as. runs s as End" if "moves s a s'" and "completable s'" and "size s' < size s" for a s'
    using less.IH [OF that(3,2)] that(1) runs.cons by blast
  show ?case
  proof (cases s)
    case (Choice a b)
    then consider (l) t r where "a = Send t r" "completable r"
      | (r) t r where "b = Send t r" "completable r" "\<nexists>s'. a = Send t s'"
      using less.prems unfolding Choice completable_Choice by blast
    then show ?thesis
    proof cases
      case l
      then show ?thesis using via [of "(True, t)" r] moves.choice_left Choice by simp
    next
      case r
      then show ?thesis using via [of "(True, t)" r] moves.choice_right Choice by simp
    qed
  next
    case (Offer a b)
    then consider (l) t r where "a = Recv t r" "completable r"
      | (r) t r where "b = Recv t r" "completable r" "\<nexists>s'. a = Recv t s'"
      using less.prems unfolding Offer completable_Offer by blast
    then show ?thesis
    proof cases
      case l
      then show ?thesis using via [of "(False, t)" r] moves.offer_left Offer by simp
    next
      case r
      then show ?thesis using via [of "(False, t)" r] moves.offer_right Offer by simp
    qed
  next
    case (Send t r)
    then show ?thesis using via [of "(True, t)" r] less.prems by (simp add: moves.send)
  next
    case (Recv t r)
    then show ?thesis using via [of "(False, t)" r] less.prems by (simp add: moves.recv)
  next
    case End
    then show ?thesis using runs.nil by blast
  qed (use less.prems in simp_all)
qed

lemma completable_iff_runs: "completable s \<longleftrightarrow> (\<exists>as. runs s as End)"
proof
  have "runs s as e \<Longrightarrow> e = End \<Longrightarrow> completable s" for s as e
    by (induction rule: runs.induct) (auto intro: completable_moves)
  then show "\<exists>as. runs s as End \<Longrightarrow> completable s" by blast
qed (rule completable_runs)

lemma conforms_completable: "conforms c es \<Longrightarrow> c = Some s \<Longrightarrow> completable s"
proof (induction arbitrary: s rule: conforms.induct)
qed (auto intro: completable_moves)

lemma conforms_opened: "conforms c es \<Longrightarrow> EvOpen v s \<in> set es \<Longrightarrow> completable s"
  by (induction rule: conforms.induct) (auto intro: conforms_completable)

text \<open>The program that opens one channel, performs the actions of a run and closes it.\<close>

definition event_of :: "u32 \<Rightarrow> action \<Rightarrow> SessionEventKind" where
  "event_of v a = (if fst a then EvSend v (snd a) else EvRecv v (snd a))"

definition session_program :: "u32 \<Rightarrow> SessionType \<Rightarrow> action list \<Rightarrow> SessionEvent list" where
  "session_program v s as =
     map (\<lambda>k. \<lparr>se_kind = k, se_at_node = 0\<rparr>) (EvOpen v s # map (event_of v) as @ [EvClose v])"

lemma runs_conforms: "runs s as e \<Longrightarrow> e = End \<Longrightarrow> conforms (Some s) (map (event_of v) as @ [EvClose v])"
proof (induction rule: runs.induct)
  case (cons s a s' as s'')
  then show ?case by (cases a) (auto simp: event_of_def intro: conforms.intros)
qed (auto intro: conforms.intros)

lemma session_program_accepted:
  assumes "runs s as End"
  shows "verify_session_types (session_program v s as) = []"
proof -
  have sorted: "sort_key se_at_node (session_program v s as) = session_program v s as"
    by (rule sort_key_id_if_sorted) (simp add: session_program_def comp_def map_replicate_const sorted_append)
  have vreg: "vreg_of (event_of v a) = v" for a by (simp add: event_of_def)
  have ev: "filter (\<lambda>k. vreg_of k = w) (map (event_of v) as) = (if w = v then map (event_of v) as else [])" for w
    by (induction as) (auto simp: vreg)
  have "channel w (session_program v s as) = (if w = v then EvOpen v s # map (event_of v) as @ [EvClose v] else [])" for w
    by (simp add: channel_def session_program_def comp_def ev)
  then show ?thesis
    using runs_conforms [OF assms refl, of v] by (auto simp: verify_conforms sorted intro: conforms.intros)
qed

lemma opened_in_program:
  assumes "verify_session_types events = []" and "EvOpen v s \<in> se_kind ` set events"
  shows "completable s"
proof -
  have "EvOpen v s \<in> set (channel v (sort_key se_at_node events))" using assms(2) by (auto simp: channel_def)
  moreover have "conforms None (channel v (sort_key se_at_node events))" using assms(1) by (simp add: verify_conforms)
  ultimately show ?thesis using conforms_opened by blast
qed

section \<open>Properties\<close>


text \<open>
  Duality is an involution, \<^verbatim>\<open>is_dual\<close> is symmetric, unfolding commutes with duality, and the checker
  accepts a program exactly when it accepts the program of the other ends of its channels: dual
  types declared, sends and receives exchanged.
\<close>

theorem session_duality:
  "dual (dual s) = s \<and> (is_dual s r \<longleftrightarrow> is_dual r s) \<and> dual (unfold s) = unfold (dual s)
   \<and> (verify_session_types (map mirror_event events) = [] \<longleftrightarrow> verify_session_types events = [])"
proof -
  have "map mirror_event (map mirror_event events) = events"
    by (simp add: mirror_event_def comp_def)
  then have "verify_session_types (map mirror_event events) = [] \<longleftrightarrow> verify_session_types events = []"
    using verify_mirror [of events] verify_mirror [of "map mirror_event events"] by auto
  moreover have "is_dual s r \<longleftrightarrow> is_dual r s" unfolding is_dual_def using dual_dual by metis
  ultimately show ?thesis by (simp add: dual_unfold)
qed


text \<open>A recursive protocol is rejected in every program, also in one that never needs to loop.\<close>

lemma recursive_protocol_rejected:
  "EvOpen v (Rec body) \<in> se_kind ` set events \<Longrightarrow> verify_session_types events \<noteq> []"
  using opened_in_program [of events v "Rec body"] by auto

text \<open>A session left at \<open>End\<close> without a close is accepted.\<close>

lemma unclosed_session_accepted:
  "verify_session_types [\<lparr>se_kind = EvOpen 1 End, se_at_node = 0\<rparr>] = []"
  by (simp add: verify_session_types_def check_events_def incomplete_sessions_def)

text \<open>
  Unfolding a closed type gives a closed type, as long as recursions nest less than \<open>2 ^ 32\<close> deep.
\<close>

fun closed_below :: "nat \<Rightarrow> SessionType \<Rightarrow> bool" where
  "closed_below k End = True"
| "closed_below k (Send t s) = closed_below k s"
| "closed_below k (Recv t s) = closed_below k s"
| "closed_below k (Choice a b) = (closed_below k a \<and> closed_below k b)"
| "closed_below k (Offer a b) = (closed_below k a \<and> closed_below k b)"
| "closed_below k (Rec s) = closed_below (Suc k) s"
| "closed_below k (Var n) = (unat n < k)"

fun rec_depth :: "SessionType \<Rightarrow> nat" where
  "rec_depth (Send t s) = rec_depth s"
| "rec_depth (Recv t s) = rec_depth s"
| "rec_depth (Choice a b) = max (rec_depth a) (rec_depth b)"
| "rec_depth (Offer a b) = max (rec_depth a) (rec_depth b)"
| "rec_depth (Rec s) = Suc (rec_depth s)"
| "rec_depth _ = 0"

lemma closed_below_mono: "closed_below k s \<Longrightarrow> k \<le> k' \<Longrightarrow> closed_below k' s"
  by (induction k s arbitrary: k' rule: closed_below.induct) auto

lemma substitute_closed:
  assumes "closed_below (Suc (unat d)) s" and "closed_below 0 r" and "unat d + rec_depth s < 2 ^ 32"
  shows "closed_below (unat d) (substitute s d r)"
  using assms
proof (induction s arbitrary: d)
  case (Rec s)
  have "unat (d + 1) = Suc (unat d)" using Rec.prems(3) by (simp add: unat_word_ariths)
  then show ?case using Rec.IH [of "d + 1"] Rec.prems by simp
next
  case (Var n)
  then show ?case
    by (auto simp: word_less_nat_alt word_unat_eq_iff intro: closed_below_mono)
qed auto

lemma unfold_closed: "closed_below 0 s \<Longrightarrow> rec_depth s < 2 ^ 32 \<Longrightarrow> closed_below 0 (unfold s)"
  using substitute_closed [of 0] by (cases s) auto

end
