(* ===== verification/Ive_Channel.thy ===== *)
theory Ive_Channel
  imports Vuma_Prelude
begin

text \<open>
  The linear channel verifier, \<^verbatim>\<open>verify_linear_channels\<close> of \<^verbatim>\<open>src/src/ive/src/borrow_region.rs\<close>: it replays the
  lifecycle events of channel handles, with a stack of frames for the branches of the program.
  Structured programs and their paths specify it. The theory shows that on straight-line code and
  two-armed branches over handles opened outside the branches the verifier is silent exactly when
  every path uses its handles linearly, and exhibits programs outside that class on which it is not.
\<close>

section \<open>The verifier\<close>

datatype ChannelLifecycle = Open | Closed

datatype ChannelEventKind = EvOpen | EvUse | EvClose | EvBranch | EvJoin | EvElseStart | EvFunctionExit

record ChannelEvent =
  ce_vreg :: string
  ce_kind :: ChannelEventKind
  ce_at_node :: nat

datatype LinearError =
    OpenWithoutClose string nat
  | UseUninitialized string nat
  | UseAfterClose string nat
  | CloseUninitialized string nat
  | DoubleClose string nat
  | ClosedOnOnePath string
  | OpenAtExit string

record LinearVerification =
  lv_valid :: bool
  lv_error :: "LinearError option"

type_synonym lifecycle_map = "(string, ChannelLifecycle) hmap"

record BranchFrame =
  bf_snapshot :: lifecycle_map
  bf_then_state :: "lifecycle_map option"
  bf_then_returned :: bool

record LinearState =
  ls_state :: lifecycle_map
  ls_results :: "LinearVerification list"
  ls_branch_stack :: "BranchFrame list" \<comment> \<open>innermost frame first\<close>

definition linear_error :: "LinearError \<Rightarrow> LinearVerification" where
  "linear_error e = \<lparr>lv_valid = False, lv_error = Some e\<rparr>"

definition push :: "LinearError \<Rightarrow> LinearState \<Rightarrow> LinearState" where
  "push e s = s\<lparr>ls_results := ls_results s @ [linear_error e]\<rparr>"

definition set_lifecycle :: "string \<Rightarrow> ChannelLifecycle \<Rightarrow> LinearState \<Rightarrow> LinearState" where
  "set_lifecycle h l s = s\<lparr>ls_state := hm_insert h l (ls_state s)\<rparr>"

definition on_open :: "ChannelEvent \<Rightarrow> LinearState \<Rightarrow> LinearState" where
  "on_open e s =
     set_lifecycle (ce_vreg e) Open
       (if hm_get (ls_state s) (ce_vreg e) = Some Open then push (OpenWithoutClose (ce_vreg e) (ce_at_node e)) s else s)"

definition on_use :: "ChannelEvent \<Rightarrow> LinearState \<Rightarrow> LinearState" where
  "on_use e s =
     (case hm_get (ls_state s) (ce_vreg e) of
        None \<Rightarrow> push (UseUninitialized (ce_vreg e) (ce_at_node e)) s
      | Some Closed \<Rightarrow> push (UseAfterClose (ce_vreg e) (ce_at_node e)) s
      | Some Open \<Rightarrow> s)"

definition on_close :: "ChannelEvent \<Rightarrow> LinearState \<Rightarrow> LinearState" where
  "on_close e s =
     (case hm_get (ls_state s) (ce_vreg e) of
        None \<Rightarrow> push (CloseUninitialized (ce_vreg e) (ce_at_node e)) s
      | Some Closed \<Rightarrow> push (DoubleClose (ce_vreg e) (ce_at_node e)) s
      | Some Open \<Rightarrow> set_lifecycle (ce_vreg e) Closed s)"

definition on_branch :: "LinearState \<Rightarrow> LinearState" where
  "on_branch s =
     s\<lparr>ls_branch_stack := \<lparr>bf_snapshot = ls_state s, bf_then_state = None, bf_then_returned = False\<rparr> # ls_branch_stack s\<rparr>"

definition on_else_start :: "LinearState \<Rightarrow> LinearState" where
  "on_else_start s =
     (case ls_branch_stack s of
        [] \<Rightarrow> s
      | frame # rest \<Rightarrow>
          s\<lparr>ls_state := bf_snapshot frame, ls_branch_stack := frame\<lparr>bf_then_state := Some (ls_state s)\<rparr> # rest\<rparr>)"

text \<open>One handle of the merge of two paths.\<close>

definition merge_handle :: "lifecycle_map \<Rightarrow> string \<Rightarrow> LinearState \<Rightarrow> LinearState" where
  "merge_handle then_state h s =
     (let then_closed = (hm_get then_state h = Some Closed); else_closed = (hm_get (ls_state s) h = Some Closed) in
      if then_closed \<and> else_closed then set_lifecycle h Closed s
      else if then_closed \<noteq> else_closed then set_lifecycle h Open (push (ClosedOnOnePath h) s)
      else set_lifecycle h Open s)"

text \<open>The handles of both paths, each once; the iteration order of the set is that of the maps.\<close>

definition all_vregs :: "lifecycle_map \<Rightarrow> lifecycle_map \<Rightarrow> string list" where
  "all_vregs state then_state = remdups (hm_keys state @ hm_keys then_state)"

definition reopen :: "lifecycle_map \<Rightarrow> lifecycle_map \<Rightarrow> lifecycle_map" where
  "reopen snapshot state =
     map (\<lambda>(h, l). (h, if l = Closed \<and> hm_get snapshot h \<noteq> Some Closed then Open else l)) state"

definition on_join :: "LinearState \<Rightarrow> LinearState" where
  "on_join s =
     (case ls_branch_stack s of
        [] \<Rightarrow> s
      | frame # rest \<Rightarrow>
          let s = s\<lparr>ls_branch_stack := rest\<rparr> in
          if bf_then_returned frame then s
          else (case bf_then_state frame of
                  Some then_state \<Rightarrow> fold (merge_handle then_state) (all_vregs (ls_state s) then_state) s
                | None \<Rightarrow> s\<lparr>ls_state := reopen (bf_snapshot frame) (ls_state s)\<rparr>))"

definition on_function_exit :: "LinearState \<Rightarrow> LinearState" where
  "on_function_exit s =
     (let s = s\<lparr>ls_results := ls_results s @
        map (\<lambda>(h, l). linear_error (OpenAtExit h)) (filter (\<lambda>(h, l). l = Open) (ls_state s))\<rparr> in
      case ls_branch_stack s of
        [] \<Rightarrow> s
      | frame # rest \<Rightarrow>
          if bf_then_state frame = None
          then s\<lparr>ls_state := bf_snapshot frame,
                 ls_branch_stack := frame\<lparr>bf_then_state := Some (ls_state s), bf_then_returned := True\<rparr> # rest\<rparr>
          else s)"

definition linear_event :: "ChannelEvent \<Rightarrow> LinearState \<Rightarrow> LinearState" where
  "linear_event e =
     (case ce_kind e of
        EvOpen \<Rightarrow> on_open e
      | EvUse \<Rightarrow> on_use e
      | EvClose \<Rightarrow> on_close e
      | EvBranch \<Rightarrow> on_branch
      | EvElseStart \<Rightarrow> on_else_start
      | EvJoin \<Rightarrow> on_join
      | EvFunctionExit \<Rightarrow> on_function_exit)"

definition verify_linear_channels :: "ChannelEvent list \<Rightarrow> LinearVerification list" where
  "verify_linear_channels events =
     ls_results (fold linear_event (sort_key ce_at_node events)
       \<lparr>ls_state = [], ls_results = [], ls_branch_stack = []\<rparr>)"

definition all_linear_valid :: "LinearVerification list \<Rightarrow> bool" where
  "all_linear_valid results = list_all lv_valid results"

section \<open>Structured programs and their paths\<close>

datatype stmt = Op string ChannelEventKind | IfElse "stmt list" "stmt list"

type_synonym path = "(string \<times> ChannelEventKind) list"

definition event :: "string \<Rightarrow> ChannelEventKind \<Rightarrow> ChannelEvent" where
  "event h k = \<lparr>ce_vreg = h, ce_kind = k, ce_at_node = 0\<rparr>"

fun events :: "stmt list \<Rightarrow> ChannelEvent list" where
  "events [] = []"
| "events (Op h k # p) = event h k # events p"
| "events (IfElse a b # p) =
     event [] EvBranch # events a @ event [] EvElseStart # events b @ event [] EvJoin # events p"

fun paths :: "stmt list \<Rightarrow> path set" where
  "paths [] = {[]}"
| "paths (Op h k # p) = (\<lambda>q. (h, k) # q) ` paths p"
| "paths (IfElse a b # p) = {r @ q | r q. r \<in> paths a \<union> paths b \<and> q \<in> paths p}"

text \<open>Statements over the three operations on handles; inside a branch no handle is opened.\<close>

fun well_formed :: "bool \<Rightarrow> stmt list \<Rightarrow> bool" where
  "well_formed inside [] = True"
| "well_formed inside (Op h k # p) = ((k = EvUse \<or> k = EvClose \<or> k = EvOpen \<and> \<not> inside) \<and> well_formed inside p)"
| "well_formed inside (IfElse a b # p) = (well_formed True a \<and> well_formed True b \<and> well_formed inside p)"

text \<open>A path from a lifecycle of every handle; a breach of linearity has no successor.\<close>

fun exec1 :: "string \<times> ChannelEventKind \<Rightarrow> (string \<rightharpoonup> ChannelLifecycle) \<Rightarrow> (string \<rightharpoonup> ChannelLifecycle) option" where
  "exec1 (h, EvOpen) m = (if m h = Some Open then None else Some (m(h \<mapsto> Open)))"
| "exec1 (h, EvUse) m = (if m h = Some Open then Some m else None)"
| "exec1 (h, EvClose) m = (if m h = Some Open then Some (m(h \<mapsto> Closed)) else None)"
| "exec1 _ m = None"

fun exec :: "path \<Rightarrow> (string \<rightharpoonup> ChannelLifecycle) \<Rightarrow> (string \<rightharpoonup> ChannelLifecycle) option" where
  "exec [] m = Some m"
| "exec (x # q) m = (case exec1 x m of None \<Rightarrow> None | Some m' \<Rightarrow> exec q m')"

definition linear_path :: "path \<Rightarrow> (string \<rightharpoonup> ChannelLifecycle) \<Rightarrow> bool" where
  "linear_path q m = (\<exists>f. exec q m = Some f \<and> (\<forall>h. f h \<noteq> Some Open))"

lemma exec_append: "exec (q @ r) m = (case exec q m of None \<Rightarrow> None | Some f \<Rightarrow> exec r f)"
  by (induction q arbitrary: m) (auto split: option.split)

lemma linear_append: "linear_path (q @ r) m \<longleftrightarrow> (\<exists>f. exec q m = Some f \<and> linear_path r f)"
  by (auto simp: linear_path_def exec_append split: option.splits)

lemma linear_Cons: "linear_path (x # q) m \<longleftrightarrow> (\<exists>m'. exec1 x m = Some m' \<and> linear_path q m')"
  by (auto simp: linear_path_def split: option.splits)

lemma paths_nonempty: "paths p \<noteq> {}"
  by (induction p rule: paths.induct) auto

lemma not_Open: "x \<noteq> Some Open \<longleftrightarrow> x = None \<or> x = Some Closed"
  by (cases x) (auto intro: ChannelLifecycle.exhaust)

lemma not_Open_eq: "x \<noteq> Some Open \<Longrightarrow> y \<noteq> Some Open \<Longrightarrow> (x = None \<longleftrightarrow> y = None) \<Longrightarrow> x = y"
  by (auto simp: not_Open)

lemma exec1_dom: "exec1 x m = Some m' \<Longrightarrow> dom m' = (if snd x = EvOpen then insert (fst x) (dom m) else dom m)"
  by (cases "(x, m)" rule: exec1.cases) (auto split: if_splits)

lemma exec1_inj:
  assumes "exec1 x m = Some r" and "exec1 x n = Some r" and "dom m = dom n"
  shows "m = n"
proof -
  obtain h k where x: "x = (h, k)" by (cases x)
  have h: "m h = n h"
  proof (cases "k = EvOpen")
    case True
    have "m h = None \<longleftrightarrow> n h = None" using assms(3) by (auto simp: domIff)
    then show ?thesis using assms(1,2) True not_Open_eq [of "m h" "n h"] by (auto simp: x split: if_splits)
  qed (use assms(1,2) in \<open>cases k; auto simp: x split: if_splits\<close>)
  have "m g = n g" if "g \<noteq> h" for g
    using assms(1,2) that by (cases k) (auto simp: x fun_upd_def split: if_splits dest!: fun_cong [of _ _ g])
  then show ?thesis using h by (metis ext)
qed

lemma linear_agree:
  assumes "linear_path q m" and "linear_path q n" and "dom m = dom n"
  shows "m = n"
  using assms
proof (induction q arbitrary: m n)
  case Nil
  have "m h = None \<longleftrightarrow> n h = None" for h using Nil(3) by (auto simp: domIff)
  then show ?case using Nil(1,2) not_Open_eq by (auto simp: linear_path_def)
next
  case (Cons x q)
  then obtain m' n' where "exec1 x m = Some m'" "exec1 x n = Some n'" "linear_path q m'" "linear_path q n'"
    by (auto simp: linear_Cons)
  moreover have "dom m' = dom n'" using calculation(1,2) Cons.prems(3) by (simp add: exec1_dom)
  ultimately show ?case using Cons.IH exec1_inj Cons.prems(3) by metis
qed

section \<open>The verifier on structured programs\<close>

abbreviation run :: "ChannelEvent list \<Rightarrow> LinearState \<Rightarrow> LinearState" where
  "run \<equiv> fold linear_event"

lemma event_simps [simp]: "ce_vreg (event h k) = h" "ce_kind (event h k) = k"
  by (simp_all add: event_def)

lemmas handler_defs = on_open_def on_use_def on_close_def on_branch_def on_else_start_def on_join_def
  on_function_exit_def push_def set_lifecycle_def

lemma merge_results: "\<exists>xs. ls_results (fold (merge_handle t) hs s) = ls_results s @ xs"
proof (induction hs arbitrary: s)
  case (Cons h hs)
  have "\<exists>ys. ls_results (merge_handle t h s) = ls_results s @ ys" by (simp add: merge_handle_def push_def set_lifecycle_def Let_def)
  then show ?case using Cons.IH [of "merge_handle t h s"] by auto
qed simp

lemma linear_event_results: "\<exists>xs. ls_results (linear_event e s) = ls_results s @ xs"
proof (cases "ce_kind e = EvJoin")
  case True
  have "\<exists>xs. ls_results (fold (merge_handle t) hs (s\<lparr>ls_branch_stack := stk\<rparr>)) = ls_results s @ xs" for t hs stk
    using merge_results [of t hs "s\<lparr>ls_branch_stack := stk\<rparr>"] by simp
  then show ?thesis
    using True by (auto simp: linear_event_def on_join_def Let_def split: option.splits list.splits)
next
  case False
  then show ?thesis
    by (cases "ce_kind e")
      (auto simp: linear_event_def handler_defs Let_def split: option.splits ChannelLifecycle.splits list.splits)
qed

lemma run_results: "\<exists>xs. ls_results (run es s) = ls_results s @ xs"
proof (induction es arbitrary: s)
  case (Cons e es)
  show ?case using linear_event_results [of e s] Cons.IH [of "linear_event e s"] by auto
qed simp

lemma run_silent_append:
  "ls_results (run (as @ bs) s) = ls_results s \<longleftrightarrow>
     ls_results (run as s) = ls_results s \<and> ls_results (run bs (run as s)) = ls_results (run as s)"
  using run_results [of as s] run_results [of bs "run as s"] by auto

definition is_op :: "ChannelEventKind \<Rightarrow> bool" where
  "is_op k = (k = EvOpen \<or> k = EvUse \<or> k = EvClose)"

lemma op_silent:
  "is_op k \<Longrightarrow>
   ls_results (linear_event (event h k) s) = ls_results s \<longleftrightarrow> exec1 (h, k) (hm_get (ls_state s)) \<noteq> None"
  by (auto simp: is_op_def linear_event_def handler_defs split: option.splits ChannelLifecycle.splits if_splits)

lemma op_step:
  assumes "is_op k" and "exec1 (h, k) (hm_get (ls_state s)) = Some m"
  shows "\<exists>st. linear_event (event h k) s = s\<lparr>ls_state := st\<rparr> \<and> hm_get st = m \<and> (hm_ok (ls_state s) \<longrightarrow> hm_ok st)"
proof -
  have "linear_event (event h k) s = s\<lparr>ls_state := (if k = EvUse then ls_state s
      else hm_insert h (if k = EvOpen then Open else Closed) (ls_state s))\<rparr>"
    using assms by (auto simp: is_op_def linear_event_def handler_defs split: option.splits if_splits)
  moreover have "hm_get (if k = EvUse then ls_state s
      else hm_insert h (if k = EvOpen then Open else Closed) (ls_state s)) = m"
    using assms by (auto simp: is_op_def hm_get_insert split: if_splits)
  ultimately show ?thesis by (intro exI conjI) (auto simp: hm_ok_insert)
qed

lemma merge_same:
  assumes "\<forall>h \<in> set hs. hm_get (ls_state s) h = hm_get t h \<and> hm_get t h \<noteq> None"
  shows "\<exists>st. fold (merge_handle t) hs s = s\<lparr>ls_state := st\<rparr> \<and> hm_get st = hm_get (ls_state s)
    \<and> (hm_ok (ls_state s) \<longrightarrow> hm_ok st)"
  using assms
proof (induction hs arbitrary: s)
  case Nil
  then show ?case by (intro exI [of _ "ls_state s"]) simp
next
  case (Cons h hs)
  let ?l = "if hm_get t h = Some Closed then Closed else Open"
  have l: "hm_get (ls_state s) h = Some ?l" using Cons.prems not_Open [of "hm_get t h"] by auto
  have step: "merge_handle t h s = s\<lparr>ls_state := hm_insert h ?l (ls_state s)\<rparr>"
    using Cons.prems by (simp add: merge_handle_def set_lifecycle_def)
  have same: "hm_get (hm_insert h ?l (ls_state s)) = hm_get (ls_state s)"
    using l by (simp add: hm_get_insert fun_upd_idem)
  show ?case
    using Cons.IH [of "merge_handle t h s"] Cons.prems hm_ok_insert [of "ls_state s" h ?l]
    by (auto simp: step same)
qed

lemma merge_silent:
  assumes "ls_results (fold (merge_handle t) hs s) = ls_results s" and "distinct hs" and "h \<in> set hs"
  shows "hm_get t h = Some Closed \<longleftrightarrow> hm_get (ls_state s) h = Some Closed"
  using assms
proof (induction hs arbitrary: s)
  case (Cons g hs)
  obtain ys where ys: "ls_results (merge_handle t g s) = ls_results s @ ys"
    using merge_results [of t "[g]" s] by auto
  have silent: "ls_results (merge_handle t g s) = ls_results s"
    and rest: "ls_results (fold (merge_handle t) hs (merge_handle t g s)) = ls_results (merge_handle t g s)"
    using Cons.prems(1) merge_results [of t hs "merge_handle t g s"] ys by auto
  have g: "hm_get t g = Some Closed \<longleftrightarrow> hm_get (ls_state s) g = Some Closed"
    using silent by (auto simp: merge_handle_def push_def set_lifecycle_def Let_def split: if_splits)
  have other: "hm_get (ls_state (merge_handle t g s)) f = hm_get (ls_state s) f" if "f \<noteq> g" for f
    using that by (simp add: merge_handle_def push_def set_lifecycle_def Let_def hm_get_insert)
  show ?case
  proof (cases "h = g")
    case False
    then show ?thesis using Cons.IH [OF rest] Cons.prems(2,3) other [OF False] by simp
  qed (use g in simp)
qed simp

text \<open>A frame whose two arms ended in the maps \<open>t\<close> and the current one.\<close>

lemma join_step:
  assumes stk: "ls_branch_stack s = \<lparr>bf_snapshot = sn, bf_then_state = Some t, bf_then_returned = False\<rparr> # rest"
    and dom: "dom (hm_get t) = dom (hm_get (ls_state s))"
  shows "ls_results (on_join s) = ls_results s \<longleftrightarrow> hm_get t = hm_get (ls_state s)"
    and "hm_get t = hm_get (ls_state s) \<Longrightarrow> \<exists>st. on_join s = s\<lparr>ls_branch_stack := rest, ls_state := st\<rparr>
      \<and> hm_get st = hm_get (ls_state s) \<and> (hm_ok (ls_state s) \<longrightarrow> hm_ok st)"
proof -
  let ?s = "s\<lparr>ls_branch_stack := rest\<rparr>"
  have J: "on_join s = fold (merge_handle t) (all_vregs (ls_state s) t) ?s"
    by (simp add: on_join_def stk)
  have keys: "set (all_vregs (ls_state s) t) = dom (hm_get (ls_state s))"
    using dom by (simp add: all_vregs_def dom_map_of_conv_image_fst)
  show st: "\<exists>st. on_join s = s\<lparr>ls_branch_stack := rest, ls_state := st\<rparr>
      \<and> hm_get st = hm_get (ls_state s) \<and> (hm_ok (ls_state s) \<longrightarrow> hm_ok st)" if "hm_get t = hm_get (ls_state s)"
    using merge_same [of "all_vregs (ls_state s) t" ?s t] that by (auto simp: J keys)
  show "ls_results (on_join s) = ls_results s \<longleftrightarrow> hm_get t = hm_get (ls_state s)"
  proof
    assume silent: "ls_results (on_join s) = ls_results s"
    show "hm_get t = hm_get (ls_state s)"
    proof
      fix h
      have closed: "hm_get t h = Some Closed \<longleftrightarrow> hm_get (ls_state s) h = Some Closed" if "h \<in> dom (hm_get (ls_state s))"
      proof -
        have "distinct (all_vregs (ls_state s) t)" by (simp add: all_vregs_def)
        then show ?thesis
          using merge_silent [of t "all_vregs (ls_state s) t" ?s h] silent that by (simp add: J keys)
      qed
      show "hm_get t h = hm_get (ls_state s) h"
      proof (cases "h \<in> dom (hm_get (ls_state s))")
        case True
        then obtain x y where "hm_get t h = Some x" "hm_get (ls_state s) h = Some y" using dom by blast
        then show ?thesis using closed [OF True] by (cases x; cases y) auto
      next
        case False
        then show ?thesis using dom by (metis domIff)
      qed
    qed
  qed (use st in auto)
qed

text \<open>The verifier on handle maps: both arms of a branch have to end in the same map.\<close>

fun absrun :: "stmt list \<Rightarrow> (string \<rightharpoonup> ChannelLifecycle) \<Rightarrow> (string \<rightharpoonup> ChannelLifecycle) option" where
  "absrun [] m = Some m"
| "absrun (Op h k # p) m = (case exec1 (h, k) m of None \<Rightarrow> None | Some m' \<Rightarrow> absrun p m')"
| "absrun (IfElse a b # p) m =
     (case absrun a m of
        None \<Rightarrow> None
      | Some ma \<Rightarrow>
          (case absrun b m of
             None \<Rightarrow> None
           | Some mb \<Rightarrow> if ma = mb then absrun p mb else None))"

lemma absrun_dom: "well_formed True p \<Longrightarrow> absrun p m = Some f \<Longrightarrow> dom f = dom m"
proof (induction p m arbitrary: f rule: absrun.induct)
  case (2 h k p m)
  then show ?case using exec1_dom [of "(h, k)" m] by (fastforce split: option.splits)
next
  case (3 a b p m)
  then obtain mb where "absrun b m = Some mb" "absrun p mb = Some f" "absrun a m = Some mb"
    by (auto split: option.splits if_splits)
  then show ?case using 3 by auto
qed simp

lemma absrun_exec: "absrun p m = Some f \<Longrightarrow> q \<in> paths p \<Longrightarrow> exec q m = Some f"
proof (induction p m arbitrary: f q rule: absrun.induct)
  case (2 h k p m)
  then show ?case by (fastforce split: option.splits)
next
  case (3 a b p m)
  then obtain mb where mb: "absrun b m = Some mb" "absrun p mb = Some f" "absrun a m = Some mb"
    by (auto split: option.splits if_splits)
  obtain r t where q: "q = r @ t" "r \<in> paths a \<or> r \<in> paths b" "t \<in> paths p" using "3.prems"(2) by auto
  have "exec r m = Some mb" using q(2) "3.IH"(1) [OF mb(3)] "3.IH"(2) [OF mb(3) mb(1)] by blast
  moreover have "exec t mb = Some f" using "3.IH"(3) [OF mb(3) mb(1) refl mb(2) q(3)] .
  ultimately show ?case by (simp add: q(1) exec_append)
qed simp

text \<open>If every path is linear, however it goes on, no arm is refused and the arms agree.\<close>

lemma linear_absrun:
  assumes "well_formed ins p" and "\<And>q r. q \<in> paths p \<Longrightarrow> r \<in> Q \<Longrightarrow> linear_path (q @ r) m" and "r0 \<in> Q"
  shows "absrun p m \<noteq> None"
  using assms
proof (induction p m arbitrary: ins Q r0 rule: absrun.induct)
  case (2 h k p m)
  obtain q0 where "q0 \<in> paths p" using paths_nonempty by blast
  then obtain m' where m': "exec1 (h, k) m = Some m'" using "2.prems"(2) [of "(h, k) # q0" r0] "2.prems"(3) by (auto simp: linear_Cons)
  have "absrun p m' \<noteq> None"
  proof (rule "2.IH" [OF m'])
    show "linear_path (q @ r) m'" if "q \<in> paths p" "r \<in> Q" for q r
      using "2.prems"(2) [of "(h, k) # q" r] that by (auto simp: linear_Cons m')
  qed (use "2.prems" in auto)
  then show ?case by (simp add: m')
next
  case (3 a b p m)
  let ?Q = "{t @ r | t r. t \<in> paths p \<and> r \<in> Q}"
  obtain t0 where t0: "t0 \<in> paths p" using paths_nonempty by blast
  have wf: "well_formed True a" "well_formed True b" "well_formed ins p" using "3.prems"(1) by simp_all
  have arm: "linear_path (q @ r) m" if "q \<in> paths a \<or> q \<in> paths b" "r \<in> ?Q" for q r
  proof -
    obtain t u where "r = t @ u" "t \<in> paths p" "u \<in> Q" using \<open>r \<in> ?Q\<close> by blast
    then show ?thesis using "3.prems"(2) [of "q @ t" u] that(1) by auto
  qed
  have Q0: "t0 @ r0 \<in> ?Q" using t0 "3.prems"(3) by blast
  have "absrun a m \<noteq> None" by (rule "3.IH"(1) [OF wf(1) _ Q0]) (use arm in blast)
  then obtain ma where ma: "absrun a m = Some ma" by blast
  have "absrun b m \<noteq> None" by (rule "3.IH"(2) [OF ma wf(2) _ Q0]) (use arm in blast)
  then obtain mb where mb: "absrun b m = Some mb" by blast
  have after: "linear_path r ma" "linear_path r mb" if "r \<in> ?Q" for r
  proof -
    obtain qa qb where ab: "qa \<in> paths a" "qb \<in> paths b" using paths_nonempty by blast
    then have "linear_path (qa @ r) m" "linear_path (qb @ r) m" using arm that by blast+
    then show "linear_path r ma" "linear_path r mb"
      using absrun_exec [OF ma ab(1)] absrun_exec [OF mb ab(2)] by (simp_all add: linear_append)
  qed
  have same: "ma = mb"
    using linear_agree [OF after [OF Q0]] absrun_dom [OF wf(1) ma] absrun_dom [OF wf(2) mb] by simp
  have "absrun p mb \<noteq> None"
    by (rule "3.IH"(3) [OF ma mb same wf(3) _ "3.prems"(3)]) (use after in blast)
  then show ?case by (simp add: ma mb same)
qed simp

section \<open>The verifier refines the abstract run\<close>

definition simulates :: "ChannelEvent list \<Rightarrow> LinearState \<Rightarrow> (string \<rightharpoonup> ChannelLifecycle) option \<Rightarrow> bool" where
  "simulates es s out =
     (case out of
        None \<Rightarrow> ls_results (run es s) \<noteq> ls_results s
      | Some m \<Rightarrow> \<exists>st. run es s = s\<lparr>ls_state := st\<rparr> \<and> hm_get st = m \<and> (hm_ok (ls_state s) \<longrightarrow> hm_ok st))"

lemma run_differs: "ls_results (run as s) \<noteq> ls_results s \<Longrightarrow> ls_results (run (as @ bs) s) \<noteq> ls_results s"
  by (simp add: run_silent_append [simplified])

lemma simulates_append:
  assumes "simulates as s out"
    and "\<And>m st. out = Some m \<Longrightarrow> hm_get st = m \<Longrightarrow> simulates bs (s\<lparr>ls_state := st\<rparr>) (f m)"
  shows "simulates (as @ bs) s (case out of None \<Rightarrow> None | Some m \<Rightarrow> f m)"
proof (cases out)
  case None
  then show ?thesis using assms(1) run_differs [of as s bs] by (simp add: simulates_def)
next
  case (Some m)
  then obtain st where "run as s = s\<lparr>ls_state := st\<rparr>" "hm_get st = m" "hm_ok (ls_state s) \<longrightarrow> hm_ok st"
    using assms(1) by (auto simp: simulates_def)
  then show ?thesis using assms(2) [OF Some, of st] Some by (auto simp: simulates_def split: option.splits)
qed

lemma simulates_op: "is_op k \<Longrightarrow> simulates [event h k] s (exec1 (h, k) (hm_get (ls_state s)))"
  using op_silent [of k h s] op_step [of k h s] by (auto simp: simulates_def split: option.split)

lemma arms_enter:
  "linear_event (event h EvBranch) s =
     s\<lparr>ls_branch_stack := \<lparr>bf_snapshot = ls_state s, bf_then_state = None, bf_then_returned = False\<rparr> # ls_branch_stack s\<rparr>"
  "linear_event (event h EvElseStart)
     (s\<lparr>ls_branch_stack := \<lparr>bf_snapshot = sn, bf_then_state = None, bf_then_returned = False\<rparr> # rest, ls_state := st\<rparr>)
   = s\<lparr>ls_branch_stack := \<lparr>bf_snapshot = sn, bf_then_state = Some st, bf_then_returned = False\<rparr> # rest, ls_state := sn\<rparr>"
  "linear_event (event h EvJoin) s = on_join s"
  by (simp_all add: linear_event_def on_branch_def on_else_start_def)

text \<open>The three segments of a branch, from the state \<open>s\<close> in front of it.\<close>

lemma simulates_if_else:
  fixes s a b
  defines "m \<equiv> hm_get (ls_state s)"
  assumes wf: "well_formed True a" "well_formed True b"
    and a: "\<And>s. simulates (events a) s (absrun a (hm_get (ls_state s)))"
    and b: "\<And>s. simulates (events b) s (absrun b (hm_get (ls_state s)))"
  shows "simulates (event [] EvBranch # events a @ event [] EvElseStart # events b @ [event [] EvJoin]) s
    (case absrun a m of None \<Rightarrow> None | Some ma \<Rightarrow>
       (case absrun b m of None \<Rightarrow> None | Some mb \<Rightarrow> if ma = mb then Some mb else None))"
proof -
  let ?frame = "\<lambda>t. \<lparr>bf_snapshot = ls_state s, bf_then_state = t, bf_then_returned = False\<rparr> # ls_branch_stack s"
  define s1 where "s1 = s\<lparr>ls_branch_stack := ?frame None\<rparr>"
  have m1: "ls_state s1 = ls_state s" by (simp add: s1_def)
  note A = a [of s1, unfolded m1, folded m_def]
  have split: "run (event [] EvBranch # events a @ r) s = run r (run (events a) s1)" for r
    by (simp add: arms_enter s1_def)
  show ?thesis
  proof (cases "absrun a m")
    case None
    then show ?thesis
      using A run_differs [of "events a" s1 "event [] EvElseStart # events b @ [event [] EvJoin]"]
      by (simp add: simulates_def arms_enter s1_def)
  next
    case (Some ma)
    then obtain sa where sa: "run (events a) s1 = s1\<lparr>ls_state := sa\<rparr>" "hm_get sa = ma" using A by (auto simp: simulates_def)
    define s2 where "s2 = s\<lparr>ls_branch_stack := ?frame (Some sa)\<rparr>"
    have m2: "ls_state s2 = ls_state s" by (simp add: s2_def)
    have arm2: "run (event [] EvBranch # events a @ event [] EvElseStart # r) s = run r s2" for r
      by (simp add: arms_enter sa(1) [unfolded s1_def] s2_def)
    note B = b [of s2, unfolded m2, folded m_def]
    show ?thesis
    proof (cases "absrun b m")
      case None
      then show ?thesis
        using B Some run_differs [of "events b" s2 "[event [] EvJoin]"] arm2 [of "events b @ [event [] EvJoin]"]
        by (simp add: simulates_def s2_def)
    next
      case (Some mb)
      then obtain sb where sb: "run (events b) s2 = s2\<lparr>ls_state := sb\<rparr>" "hm_get sb = mb"
        "hm_ok (ls_state s) \<longrightarrow> hm_ok sb" using B by (auto simp: simulates_def s2_def)
      define s3 where "s3 = s2\<lparr>ls_state := sb\<rparr>"
      have stk: "ls_branch_stack s3 = ?frame (Some sa)" by (simp add: s3_def s2_def)
      have "dom (hm_get sa) = dom (hm_get (ls_state s3))"
        using absrun_dom [OF wf(1) \<open>absrun a m = Some ma\<close>] absrun_dom [OF wf(2) Some] sa(2) sb(2) by (simp add: s3_def)
      note J = join_step [OF stk this]
      have all: "run (event [] EvBranch # events a @ event [] EvElseStart # events b @ [event [] EvJoin]) s = on_join s3"
        using arm2 [of "events b @ [event [] EvJoin]"] by (simp add: sb(1) s3_def arms_enter)
      have s3: "s3\<lparr>ls_branch_stack := ls_branch_stack s, ls_state := st\<rparr> = s\<lparr>ls_state := st\<rparr>" for st
        by (simp add: s3_def s2_def)
      show ?thesis
        using J sa(2) sb(2,3) \<open>absrun a m = Some ma\<close> Some unfolding simulates_def all s3
        by (auto simp: s3_def s2_def)
    qed
  qed
qed

lemma verifier_simulates: "well_formed ins p \<Longrightarrow> simulates (events p) s (absrun p (hm_get (ls_state s)))"
proof (induction p arbitrary: ins s rule: paths.induct)
  case 1
  show ?case by (auto simp: simulates_def intro: exI [of _ "ls_state s"])
next
  case (2 h k p)
  have "is_op k" and wf: "well_formed ins p" using "2.prems" by (auto simp: is_op_def)
  moreover have "simulates (events p) (s\<lparr>ls_state := st\<rparr>) (absrun p (hm_get st))" for st
    using "2.IH" [OF wf, of "s\<lparr>ls_state := st\<rparr>"] by simp
  ultimately have "simulates ([event h k] @ events p) s
      (case exec1 (h, k) (hm_get (ls_state s)) of None \<Rightarrow> None | Some m \<Rightarrow> absrun p m)"
    by (intro simulates_append simulates_op) auto
  then show ?case by simp
next
  case (3 a b p)
  have wf: "well_formed True a" "well_formed True b" "well_formed ins p" using "3.prems" by simp_all
  let ?m = "hm_get (ls_state s)"
  let ?if = "case absrun a ?m of None \<Rightarrow> None | Some ma \<Rightarrow>
       (case absrun b ?m of None \<Rightarrow> None | Some mb \<Rightarrow> if ma = mb then Some mb else None)"
  have "simulates ((event [] EvBranch # events a @ event [] EvElseStart # events b @ [event [] EvJoin]) @ events p) s
      (case ?if of None \<Rightarrow> None | Some m \<Rightarrow> absrun p m)"
  proof (intro simulates_append simulates_if_else)
    show "simulates (events p) (s\<lparr>ls_state := st\<rparr>) (absrun p m)" if "hm_get st = m" for m st
      using "3.IH"(3) [OF wf(3), of "s\<lparr>ls_state := st\<rparr>"] that by simp
  qed (use "3.IH"(1,2) wf in auto)
  moreover have "(case ?if of None \<Rightarrow> None | Some m \<Rightarrow> absrun p m) = absrun (IfElse a b # p) ?m"
    by (simp split: option.split)
  ultimately show ?case by simp
qed

section \<open>Node numbers\<close>

text \<open>Node numbers order the events and appear in messages; they decide nothing else.\<close>

definition unnumbered :: "ChannelEvent \<Rightarrow> ChannelEvent" where
  "unnumbered e = e\<lparr>ce_at_node := 0\<rparr>"

definition alike :: "LinearState \<Rightarrow> LinearState \<Rightarrow> bool" where
  "alike s t = (ls_state s = ls_state t \<and> ls_branch_stack s = ls_branch_stack t \<and> (ls_results s = [] \<longleftrightarrow> ls_results t = []))"

lemma alike_merge: "alike s t \<Longrightarrow> alike (fold (merge_handle th) hs s) (fold (merge_handle th) hs t)"
proof (induction hs arbitrary: s t)
  case (Cons h hs)
  have "alike (merge_handle th h s) (merge_handle th h t)"
    using Cons.prems by (simp add: alike_def merge_handle_def push_def set_lifecycle_def Let_def)
  then show ?case using Cons.IH by simp
qed simp

lemma alike_event:
  assumes "alike s t"
  shows "alike (linear_event e s) (linear_event (unnumbered e) t)"
proof (cases "ce_kind e = EvJoin")
  case True
  have st: "ls_state s = ls_state t" "ls_branch_stack s = ls_branch_stack t" using assms by (simp_all add: alike_def)
  have "alike (s\<lparr>ls_branch_stack := r\<rparr>) (t\<lparr>ls_branch_stack := r\<rparr>)" for r using assms by (simp add: alike_def)
  then show ?thesis
    using True assms alike_merge
    by (auto simp: linear_event_def unnumbered_def on_join_def st Let_def split: list.splits option.splits)
      (simp add: alike_def)
next
  case False
  then show ?thesis
    using assms
    by (cases "ce_kind e")
      (auto simp: linear_event_def unnumbered_def alike_def handler_defs Let_def
        split: option.splits ChannelLifecycle.splits list.splits)
qed

lemma alike_run: "alike s t \<Longrightarrow> alike (run es s) (run (map unnumbered es) t)"
proof (induction es arbitrary: s t)
  case (Cons e es)
  show ?case using Cons.IH [OF alike_event [OF Cons.prems, of e]] by simp
qed simp

lemma silent_unnumbered:
  assumes "map unnumbered (sort_key ce_at_node es) = ds"
  shows "verify_linear_channels es = [] \<longleftrightarrow>
    ls_results (run ds \<lparr>ls_state = [], ls_results = [], ls_branch_stack = []\<rparr>) = []"
proof -
  let ?i = "\<lparr>ls_state = [], ls_results = [], ls_branch_stack = []\<rparr>"
  have "alike (run (sort_key ce_at_node es) ?i) (run ds ?i)"
    using alike_run [of ?i ?i "sort_key ce_at_node es"] assms by (simp add: alike_def)
  then show ?thesis by (simp add: verify_linear_channels_def alike_def)
qed

section \<open>Properties\<close>


definition demo_program :: "stmt list" where
  "demo_program = [Op ''c'' EvOpen, IfElse [Op ''c'' EvUse, Op ''c'' EvClose] [Op ''c'' EvClose]]"


text \<open>
  Outside that class the verifier misses breaches and reports sound programs. A handle closed in an
  \<^verbatim>\<open>if\<close> without \<^verbatim>\<open>else\<close> and closed again after it is accepted; a handle opened and closed inside one arm is
  reported as closed on one path only; a handle opened in one arm may be used and closed after the
  branch.
\<close>

lemma double_close_accepted:
  "verify_linear_channels [event ''c'' EvOpen, event [] EvBranch, event ''c'' EvClose, event [] EvJoin,
     event ''c'' EvClose, event [] EvFunctionExit] = []"
  by (simp add: verify_linear_channels_def linear_event_def handler_defs event_def reopen_def)

lemma arm_local_handle_reported:
  "verify_linear_channels [event [] EvBranch, event ''c'' EvOpen, event ''c'' EvClose, event [] EvElseStart,
     event [] EvJoin, event [] EvFunctionExit]
   = [linear_error (ClosedOnOnePath ''c''), linear_error (OpenAtExit ''c'')]"
  by (simp add: verify_linear_channels_def linear_event_def handler_defs event_def all_vregs_def merge_handle_def)

lemma unopened_use_accepted:
  "verify_linear_channels (events [IfElse [Op ''c'' EvOpen] [], Op ''c'' EvUse, Op ''c'' EvClose] @ [event [] EvFunctionExit]) = []"
  by (simp add: verify_linear_channels_def linear_event_def handler_defs event_def all_vregs_def merge_handle_def)

end
