(* ===== verification/Ive_Flow.thy ===== *)
theory Ive_Flow
  imports Vuma_Prelude
begin

text \<open>
  The information flow checker, \<^verbatim>\<open>src/src/ive/src/information_flow.rs\<close>: security labels with their flow order and
  join, and the check of assignments, operations, channel sends and branches against it. The
  theory makes the labels a join semilattice of the library, and shows that the checker is silent
  exactly when every single flow goes upwards, so that no chain of flows leads down.
\<close>

section \<open>Labels\<close>

datatype SecurityLabel = Public | Internal | Secret | TopSecret

fun can_flow_to :: "SecurityLabel \<Rightarrow> SecurityLabel \<Rightarrow> bool" where
  "can_flow_to Public _ = True"
| "can_flow_to Internal other = (other = Internal \<or> other = Secret \<or> other = TopSecret)"
| "can_flow_to Secret other = (other = Secret \<or> other = TopSecret)"
| "can_flow_to TopSecret other = (other = TopSecret)"

text \<open>The arms of \<^verbatim>\<open>join\<close> in the order of the source.\<close>

fun join :: "SecurityLabel \<Rightarrow> SecurityLabel \<Rightarrow> SecurityLabel" where
  "join Public x = x"
| "join x Public = x"
| "join Internal x = x"
| "join x Internal = x"
| "join Secret x = x"
| "join x Secret = x"
| "join TopSecret TopSecret = TopSecret"

fun level :: "SecurityLabel \<Rightarrow> u8" where
  "level Public = 0"
| "level Internal = 1"
| "level Secret = 2"
| "level TopSecret = 3"

section \<open>The checker\<close>

datatype FlowKind =
    Assign u32 SecurityLabel SecurityLabel
  | BinOp u32 SecurityLabel SecurityLabel SecurityLabel
  | ChannelSend SecurityLabel SecurityLabel
  | Branch SecurityLabel "SecurityLabel list"

record FlowEvent =
  fe_kind :: FlowKind
  fe_at_node :: nat

datatype FlowError =
    AssignLeaks nat u32 SecurityLabel SecurityLabel
  | BinOpLeaks nat SecurityLabel SecurityLabel SecurityLabel u32 SecurityLabel
  | SendLeaks nat SecurityLabel SecurityLabel
  | BranchLeaks nat SecurityLabel SecurityLabel

record FlowViolation =
  fv_valid :: bool
  fv_error :: "FlowError option"

definition flow_error :: "FlowError \<Rightarrow> FlowViolation" where
  "flow_error e = \<lparr>fv_valid = False, fv_error = Some e\<rparr>"

fun flow_event :: "nat \<Rightarrow> FlowKind \<Rightarrow> FlowViolation list" where
  "flow_event at_node (Assign dst_vreg dst_label src_label) =
     (if \<not> can_flow_to src_label dst_label then [flow_error (AssignLeaks at_node dst_vreg dst_label src_label)] else [])"
| "flow_event at_node (BinOp dst_vreg dst_label lhs_label rhs_label) =
     (let result_label = join lhs_label rhs_label in
      if \<not> can_flow_to result_label dst_label
      then [flow_error (BinOpLeaks at_node result_label lhs_label rhs_label dst_vreg dst_label)] else [])"
| "flow_event at_node (ChannelSend channel_label msg_label) =
     (if \<not> can_flow_to msg_label channel_label then [flow_error (SendLeaks at_node msg_label channel_label)] else [])"
| "flow_event at_node (Branch cond_label branch_var_labels) =
     map (\<lambda>var_label. flow_error (BranchLeaks at_node cond_label var_label))
       (filter (\<lambda>var_label. \<not> can_flow_to cond_label var_label) branch_var_labels)"

definition verify_information_flow :: "FlowEvent list \<Rightarrow> FlowViolation list" where
  "verify_information_flow events =
     concat (map (\<lambda>event. flow_event (fe_at_node event) (fe_kind event)) (sort_key fe_at_node events))"

definition all_flows_valid :: "FlowViolation list \<Rightarrow> bool" where
  "all_flows_valid results = list_all fv_valid results"

section \<open>Labels as a semilattice\<close>

lemma level_can_flow: "can_flow_to a b \<longleftrightarrow> level a \<le> level b"
  by (cases a; cases b) (simp_all add: word_le_nat_alt)

lemma level_inj: "level a = level b \<Longrightarrow> a = b"
  by (cases a; cases b) simp_all

lemma level_join: "level (join a b) = max (level a) (level b)"
  by (cases a; cases b) (simp_all add: max_def word_le_nat_alt)

instantiation SecurityLabel :: "{linorder, semilattice_sup, order_bot, order_top}"
begin

definition less_eq_SecurityLabel :: "SecurityLabel \<Rightarrow> SecurityLabel \<Rightarrow> bool" where
  "less_eq_SecurityLabel a b = can_flow_to a b"

definition less_SecurityLabel :: "SecurityLabel \<Rightarrow> SecurityLabel \<Rightarrow> bool" where
  "less_SecurityLabel a b = (can_flow_to a b \<and> \<not> can_flow_to b a)"

definition sup_SecurityLabel :: "SecurityLabel \<Rightarrow> SecurityLabel \<Rightarrow> SecurityLabel" where
  "sup_SecurityLabel a b = join a b"

definition bot_SecurityLabel :: SecurityLabel where
  "bot_SecurityLabel = Public"

definition top_SecurityLabel :: SecurityLabel where
  "top_SecurityLabel = TopSecret"

instance
proof
  fix a b c :: SecurityLabel
  note defs = less_eq_SecurityLabel_def less_SecurityLabel_def sup_SecurityLabel_def
    bot_SecurityLabel_def top_SecurityLabel_def level_can_flow level_join
  show "a < b \<longleftrightarrow> a \<le> b \<and> \<not> b \<le> a" by (simp add: defs)
  show "a \<le> a" by (simp add: defs)
  show "a \<le> b \<Longrightarrow> b \<le> c \<Longrightarrow> a \<le> c" by (simp add: defs)
  show "a \<le> b \<Longrightarrow> b \<le> a \<Longrightarrow> a = b" using level_inj by (simp add: defs)
  show "a \<le> b \<or> b \<le> a" by (auto simp: defs)
  show "a \<le> sup a b" and "b \<le> sup a b" by (simp_all add: defs)
  show "b \<le> a \<Longrightarrow> c \<le> a \<Longrightarrow> sup b c \<le> a" by (simp add: defs)
  show "bot \<le> a" by (simp add: defs)
  show "a \<le> top" by (cases a) (simp_all add: less_eq_SecurityLabel_def top_SecurityLabel_def)
qed

end

lemma flow_order [simp]: "can_flow_to a b \<longleftrightarrow> a \<le> b" "join a b = sup a b"
  by (simp_all add: less_eq_SecurityLabel_def sup_SecurityLabel_def)

section \<open>Flows\<close>

text \<open>The single flows of an event, from the label of the data to the label of the place it reaches.\<close>

fun flows :: "FlowKind \<Rightarrow> (SecurityLabel \<times> SecurityLabel) set" where
  "flows (Assign v dst src) = {(src, dst)}"
| "flows (BinOp v dst lhs rhs) = {(lhs, dst), (rhs, dst)}"
| "flows (ChannelSend ch msg) = {(msg, ch)}"
| "flows (Branch cond vars) = {cond} \<times> set vars"

definition program_flows :: "FlowEvent list \<Rightarrow> (SecurityLabel \<times> SecurityLabel) set" where
  "program_flows events = (\<Union>e \<in> set events. flows (fe_kind e))"

lemma flow_event_Nil: "flow_event n k = [] \<longleftrightarrow> (\<forall>(a, b) \<in> flows k. a \<le> b)"
  by (cases k) (auto simp: filter_empty_conv Let_def)

lemma verify_flow_Nil: "verify_information_flow events = [] \<longleftrightarrow> (\<forall>(a, b) \<in> program_flows events. a \<le> b)"
  by (auto simp: verify_information_flow_def program_flows_def flow_event_Nil)

lemma flow_event_invalid: "r \<in> set (flow_event n k) \<Longrightarrow> \<not> fv_valid r"
  by (cases k) (auto simp: flow_error_def Let_def split: if_splits)

lemma verify_flow_valid: "all_flows_valid (verify_information_flow events) \<longleftrightarrow> verify_information_flow events = []"
proof
  assume "all_flows_valid (verify_information_flow events)"
  then show "verify_information_flow events = []"
    using flow_event_invalid by (fastforce simp: all_flows_valid_def verify_information_flow_def list_all_iff)
qed (simp add: all_flows_valid_def)

section \<open>Property\<close>

text \<open>
  C32: \<^verbatim>\<open>verify_information_flow\<close> accepts a program exactly when every single flow of its events, each
  operand of an operation and each variable assigned under a branch on its own, goes from a label
  to one at least as high; then no chain of flows, in whatever order the events stand, leads from
  a label to one it cannot flow to.
\<close>

theorem flow_check_exact:
  "(all_flows_valid (verify_information_flow events) \<longleftrightarrow> (\<forall>(a, b) \<in> program_flows events. can_flow_to a b))
   \<and> (all_flows_valid (verify_information_flow events) \<longrightarrow> (\<forall>(a, b) \<in> (program_flows events)\<^sup>*. can_flow_to a b))"
proof -
  have exact: "all_flows_valid (verify_information_flow events) \<longleftrightarrow> (\<forall>(a, b) \<in> program_flows events. can_flow_to a b)"
    by (simp add: verify_flow_valid verify_flow_Nil)
  have "a \<le> b" if "(a, b) \<in> (program_flows events)\<^sup>*" and "\<forall>(a, b) \<in> program_flows events. a \<le> b" for a b
    using that(1)
  proof (induction rule: rtrancl_induct)
    case (step y z)
    then show ?case using that(2) by (blast intro: order.trans)
  qed simp
  then show ?thesis using exact by auto
qed

theorem flow_check_exact_witness:
  "all_flows_valid (verify_information_flow [\<lparr>fe_kind = BinOp 1 Secret Public Secret, fe_at_node = 3\<rparr>])
   \<and> \<not> all_flows_valid (verify_information_flow [\<lparr>fe_kind = Branch Secret [Secret, Internal], fe_at_node = 1\<rparr>])"
  using flow_check_exact [of "[\<lparr>fe_kind = BinOp 1 Secret Public Secret, fe_at_node = 3\<rparr>]"]
    flow_check_exact [of "[\<lparr>fe_kind = Branch Secret [Secret, Internal], fe_at_node = 1\<rparr>]"]
  by (simp add: program_flows_def less_eq_SecurityLabel_def del: flow_order)

end
