(* ===== verification/Scg_Digraph.thy ===== *)
theory Scg_Digraph
  imports Vuma_Prelude
begin

text \<open>
  The directed multigraph of \<^verbatim>\<open>scg/src/digraph.rs\<close>: slots for nodes and edges with tombstones, adjacency
  lists of edge slots per node, and live counts. \<open>digraph_ok\<close> is the representation invariant. Under
  it every operation implements the obvious operation on a finite multigraph (a map of node weights
  and a map of edges), stated as the interface \<open>graph_store\<close>: in particular an index stays attached to
  its node or edge until that one is removed.

  \<^verbatim>\<open>debug_assert!\<close> is compiled out in the release profile, so \<open>add_edge\<close> does not test its endpoints.
\<close>

section \<open>Representation\<close>

type_synonym NodeIndex = nat
type_synonym EdgeIndex = nat

datatype Direction = Outgoing | Incoming

record 'n NodeEntry =
  ne_weight :: 'n
  adj_out :: "nat list"
  adj_in :: "nat list"

record 'e EdgeEntry =
  ee_weight :: 'e
  ee_source :: nat
  ee_target :: nat

record ('n, 'e) DiGraph =
  dg_nodes :: "'n NodeEntry option list"
  dg_edges :: "'e EdgeEntry option list"
  num_nodes :: nat
  num_edges :: nat

record 'e EdgeReference =
  er_id :: EdgeIndex
  er_source :: NodeIndex
  er_target :: NodeIndex
  er_weight :: 'e

text \<open>\<^verbatim>\<open>xs.get(i)\<close> followed by \<^verbatim>\<open>as_ref\<close>: a slot that is out of range or a tombstone is \<open>None\<close>.\<close>

definition slot :: "'a option list \<Rightarrow> nat \<Rightarrow> 'a option" where
  "slot xs i = (if i < length xs then xs ! i else None)"

definition digraph_new :: "('n, 'e) DiGraph" where
  "digraph_new = \<lparr>dg_nodes = [], dg_edges = [], num_nodes = 0, num_edges = 0\<rparr>"

section \<open>Operations\<close>

definition dg_add_node :: "('n, 'e) DiGraph \<Rightarrow> 'n \<Rightarrow> ('n, 'e) DiGraph \<times> NodeIndex" where
  "dg_add_node g weight =
     (let idx = length (dg_nodes g)
      in (g\<lparr>dg_nodes := dg_nodes g @ [Some \<lparr>ne_weight = weight, adj_out = [], adj_in = []\<rparr>],
            num_nodes := num_nodes g + 1\<rparr>, idx))"

text \<open>\<^verbatim>\<open>if let Some(Some(entry)) = nodes.get_mut(i)\<close> with an update of the entry.\<close>

definition on_slot :: "('a \<Rightarrow> 'a) \<Rightarrow> nat \<Rightarrow> 'a option list \<Rightarrow> 'a option list" where
  "on_slot f i xs = (case slot xs i of Some x \<Rightarrow> xs[i := Some (f x)] | None \<Rightarrow> xs)"

definition remove_edge_inner :: "('n, 'e) DiGraph \<Rightarrow> nat \<Rightarrow> ('n, 'e) DiGraph \<times> 'e option" where
  "remove_edge_inner g eidx =
     (case slot (dg_edges g) eidx of
        None \<Rightarrow> (g, None)
      | Some entry \<Rightarrow>
          let nodes1 = on_slot (adj_out_update (filter (\<lambda>x. x \<noteq> eidx))) (ee_source entry) (dg_nodes g);
              nodes2 = on_slot (adj_in_update (filter (\<lambda>x. x \<noteq> eidx))) (ee_target entry) nodes1
          in (g\<lparr>dg_edges := (dg_edges g)[eidx := None], dg_nodes := nodes2, num_edges := num_edges g - 1\<rparr>,
              Some (ee_weight entry)))"

definition dg_remove_edge :: "('n, 'e) DiGraph \<Rightarrow> EdgeIndex \<Rightarrow> ('n, 'e) DiGraph \<times> 'e option" where
  "dg_remove_edge g e = remove_edge_inner g e"

definition dg_remove_node :: "('n, 'e) DiGraph \<Rightarrow> NodeIndex \<Rightarrow> ('n, 'e) DiGraph \<times> 'n option" where
  "dg_remove_node g n =
     (case slot (dg_nodes g) n of
        None \<Rightarrow> (g, None)
      | Some entry \<Rightarrow>
          let connected = adj_out entry @ adj_in entry;
              g1 = fold (\<lambda>eidx h. fst (remove_edge_inner h eidx)) connected
                     (g\<lparr>dg_nodes := (dg_nodes g)[n := None]\<rparr>)
          in (g1\<lparr>num_nodes := num_nodes g1 - 1\<rparr>, Some (ne_weight entry)))"

definition dg_add_edge :: "('n, 'e) DiGraph \<Rightarrow> NodeIndex \<Rightarrow> NodeIndex \<Rightarrow> 'e \<Rightarrow> ('n, 'e) DiGraph \<times> EdgeIndex" where
  "dg_add_edge g a b weight =
     (let eidx = length (dg_edges g);
          nodes1 = on_slot (adj_out_update (\<lambda>l. l @ [eidx])) a (dg_nodes g);
          nodes2 = on_slot (adj_in_update (\<lambda>l. l @ [eidx])) b nodes1
      in (g\<lparr>dg_edges := dg_edges g @ [Some \<lparr>ee_weight = weight, ee_source = a, ee_target = b\<rparr>],
            dg_nodes := nodes2, num_edges := num_edges g + 1\<rparr>, eidx))"

definition node_weight :: "('n, 'e) DiGraph \<Rightarrow> NodeIndex \<Rightarrow> 'n option" where
  "node_weight g n = map_option ne_weight (slot (dg_nodes g) n)"

definition edge_weight :: "('n, 'e) DiGraph \<Rightarrow> EdgeIndex \<Rightarrow> 'e option" where
  "edge_weight g e = map_option ee_weight (slot (dg_edges g) e)"

text \<open>An assignment through \<^verbatim>\<open>node_weight_mut\<close> or \<^verbatim>\<open>edge_weight_mut\<close>.\<close>

definition node_weight_mut :: "('n, 'e) DiGraph \<Rightarrow> NodeIndex \<Rightarrow> ('n \<Rightarrow> 'n) \<Rightarrow> ('n, 'e) DiGraph" where
  "node_weight_mut g n f = g\<lparr>dg_nodes := on_slot (ne_weight_update f) n (dg_nodes g)\<rparr>"

definition edge_weight_mut :: "('n, 'e) DiGraph \<Rightarrow> EdgeIndex \<Rightarrow> ('e \<Rightarrow> 'e) \<Rightarrow> ('n, 'e) DiGraph" where
  "edge_weight_mut g e f = g\<lparr>dg_edges := on_slot (ee_weight_update f) e (dg_edges g)\<rparr>"

definition node_count :: "('n, 'e) DiGraph \<Rightarrow> nat" where
  "node_count g = num_nodes g"

definition edge_count :: "('n, 'e) DiGraph \<Rightarrow> nat" where
  "edge_count g = num_edges g"

definition node_indices :: "('n, 'e) DiGraph \<Rightarrow> NodeIndex list" where
  "node_indices g = filter (\<lambda>i. slot (dg_nodes g) i \<noteq> None) [0..<length (dg_nodes g)]"

definition edge_indices :: "('n, 'e) DiGraph \<Rightarrow> EdgeIndex list" where
  "edge_indices g = filter (\<lambda>i. slot (dg_edges g) i \<noteq> None) [0..<length (dg_edges g)]"

definition node_weights :: "('n, 'e) DiGraph \<Rightarrow> 'n list" where
  "node_weights g = List.map_filter (map_option ne_weight) (dg_nodes g)"

definition edge_weights :: "('n, 'e) DiGraph \<Rightarrow> 'e list" where
  "edge_weights g = List.map_filter (map_option ee_weight) (dg_edges g)"

fun adjacency :: "Direction \<Rightarrow> 'n NodeEntry \<Rightarrow> nat list" where
  "adjacency Outgoing entry = adj_out entry"
| "adjacency Incoming entry = adj_in entry"

fun far_end :: "Direction \<Rightarrow> 'e EdgeEntry \<Rightarrow> NodeIndex" where
  "far_end Outgoing en = ee_target en"
| "far_end Incoming en = ee_source en"

definition neighbors_directed :: "('n, 'e) DiGraph \<Rightarrow> NodeIndex \<Rightarrow> Direction \<Rightarrow> NodeIndex list" where
  "neighbors_directed g n dir =
     (case slot (dg_nodes g) n of
        None \<Rightarrow> []
      | Some entry \<Rightarrow> List.map_filter (\<lambda>eidx. map_option (far_end dir) (slot (dg_edges g) eidx)) (adjacency dir entry))"

definition neighbors :: "('n, 'e) DiGraph \<Rightarrow> NodeIndex \<Rightarrow> NodeIndex list" where
  "neighbors g n = neighbors_directed g n Outgoing"

definition edges_directed :: "('n, 'e) DiGraph \<Rightarrow> NodeIndex \<Rightarrow> Direction \<Rightarrow> 'e EdgeReference list" where
  "edges_directed g n dir =
     (case slot (dg_nodes g) n of
        None \<Rightarrow> []
      | Some entry \<Rightarrow> List.map_filter (\<lambda>eidx. map_option (\<lambda>en.
            \<lparr>er_id = eidx, er_source = ee_source en, er_target = ee_target en, er_weight = ee_weight en\<rparr>)
          (slot (dg_edges g) eidx)) (adjacency dir entry))"

definition find_edge :: "('n, 'e) DiGraph \<Rightarrow> NodeIndex \<Rightarrow> NodeIndex \<Rightarrow> EdgeIndex option" where
  "find_edge g a b =
     (case slot (dg_nodes g) a of
        None \<Rightarrow> None
      | Some entry \<Rightarrow> List.find (\<lambda>eidx. case slot (dg_edges g) eidx of
            Some en \<Rightarrow> ee_target en = b | None \<Rightarrow> False) (adj_out entry))"

definition contains_edge :: "('n, 'e) DiGraph \<Rightarrow> NodeIndex \<Rightarrow> NodeIndex \<Rightarrow> bool" where
  "contains_edge g a b = (find_edge g a b \<noteq> None)"

definition digraph_clear :: "('n, 'e) DiGraph \<Rightarrow> ('n, 'e) DiGraph" where
  "digraph_clear g = g\<lparr>dg_nodes := [], dg_edges := [], num_nodes := 0, num_edges := 0\<rparr>"

section \<open>Invariant and abstraction\<close>

definition live :: "('n, 'e) DiGraph \<Rightarrow> nat set" where
  "live g = {i. slot (dg_nodes g) i \<noteq> None}"

definition live_edges :: "('n, 'e) DiGraph \<Rightarrow> nat set" where
  "live_edges g = {e. slot (dg_edges g) e \<noteq> None}"

text \<open>The abstract multigraph: weights of the nodes, endpoints and weights of the edges.\<close>

definition arcs :: "('n, 'e) DiGraph \<Rightarrow> nat \<rightharpoonup> nat \<times> nat \<times> 'e" where
  "arcs g e = map_option (\<lambda>en. (ee_source en, ee_target en, ee_weight en)) (slot (dg_edges g) e)"

definition lists_ok :: "(nat \<rightharpoonup> nat \<times> nat \<times> 'e) \<Rightarrow> nat \<Rightarrow> 'n NodeEntry \<Rightarrow> bool" where
  "lists_ok A i entry \<longleftrightarrow>
     distinct (adj_out entry) \<and> set (adj_out entry) = {e. \<exists>t w. A e = Some (i, t, w)} \<and>
     distinct (adj_in entry) \<and> set (adj_in entry) = {e. \<exists>s w. A e = Some (s, i, w)}"

definition digraph_ok :: "('n, 'e) DiGraph \<Rightarrow> bool" where
  "digraph_ok g \<longleftrightarrow>
     (\<forall>i entry. slot (dg_nodes g) i = Some entry \<longrightarrow> lists_ok (arcs g) i entry) \<and>
     (\<forall>e s t w. arcs g e = Some (s, t, w) \<longrightarrow> s \<in> live g \<and> t \<in> live g) \<and>
     num_nodes g = card (live g) \<and> num_edges g = card (live_edges g)"

section \<open>Slots\<close>

lemma slot_append: "slot (xs @ [y]) i = (if i = length xs then y else slot xs i)"
  by (auto simp: slot_def nth_append)

lemma slot_update: "slot (xs[i := y]) j = (if i = j \<and> i < length xs then y else slot xs j)"
  by (auto simp: slot_def nth_list_update)

lemma slot_Some_less: "slot xs i = Some x \<Longrightarrow> i < length xs"
  by (auto simp: slot_def split: if_splits)

lemma slot_on_slot: "slot (on_slot f i xs) j = (if i = j then map_option f (slot xs j) else slot xs j)"
  by (auto simp: on_slot_def slot_update slot_Some_less split: option.splits)

lemma length_on_slot [simp]: "length (on_slot f i xs) = length xs"
  by (auto simp: on_slot_def split: option.splits)

lemma slot_beyond: "length xs \<le> i \<Longrightarrow> slot xs i = None"
  by (simp add: slot_def)

lemma finite_slots [simp]: "finite {i. slot xs i \<noteq> None}"
  by (rule finite_subset [of _ "{..<length xs}"]) (auto dest: slot_Some_less)

lemma finite_live [simp]: "finite (live g)" and finite_live_edges [simp]: "finite (live_edges g)"
  unfolding live_def live_edges_def by (rule finite_slots)+

lemma live_iff: "i \<in> live g \<longleftrightarrow> (\<exists>entry. slot (dg_nodes g) i = Some entry)"
  by (auto simp: live_def)

lemma live_edges_arcs: "e \<in> live_edges g \<longleftrightarrow> (\<exists>s t w. arcs g e = Some (s, t, w))"
  by (auto simp: live_edges_def arcs_def)

lemma live_weight: "i \<in> live g \<longleftrightarrow> node_weight g i \<noteq> None"
  by (simp add: live_def node_weight_def)

lemma edge_weight_arcs: "edge_weight g e = map_option (\<lambda>(s, t, w). w) (arcs g e)"
  by (auto simp: edge_weight_def arcs_def option.map_comp o_def)

lemma node_indices_live: "set (node_indices g) = live g"
  by (auto simp: node_indices_def live_def dest: slot_Some_less)

lemma edge_indices_live: "set (edge_indices g) = live_edges g"
  by (auto simp: edge_indices_def live_edges_def dest: slot_Some_less)

section \<open>The operations implement the abstract multigraph\<close>

text \<open>The part of the invariant that also holds while the edges of a removed node are being detached.\<close>

definition partly_ok :: "('n, 'e) DiGraph \<Rightarrow> bool" where
  "partly_ok g \<longleftrightarrow>
     (\<forall>i entry. slot (dg_nodes g) i = Some entry \<longrightarrow> lists_ok (arcs g) i entry) \<and>
     num_edges g = card (live_edges g)"

lemma digraph_ok_partly:
  "digraph_ok g \<longleftrightarrow> partly_ok g \<and> (\<forall>e s t w. arcs g e = Some (s, t, w) \<longrightarrow> s \<in> live g \<and> t \<in> live g)
     \<and> num_nodes g = card (live g)"
  by (auto simp: digraph_ok_def partly_ok_def)

lemma digraph_ok_ends:
  "\<lbrakk>digraph_ok g; arcs g e = Some (s, t, w)\<rbrakk> \<Longrightarrow> s \<in> live g \<and> t \<in> live g"
  unfolding digraph_ok_def by blast

lemma digraph_new_ok [simp]: "digraph_ok digraph_new"
  by (simp add: digraph_ok_def digraph_new_def slot_def arcs_def live_def live_edges_def)

lemma digraph_clear_new: "digraph_clear g = digraph_new"
  by (simp add: digraph_clear_def digraph_new_def)

lemma arcs_None_beyond: "length (dg_edges g) \<le> e \<Longrightarrow> arcs g e = None"
  by (simp add: arcs_def slot_beyond)

lemma add_node_abs:
  assumes "dg_add_node g w = (h, i)"
  shows "node_weight h = (node_weight g)(i \<mapsto> w)" and "arcs h = arcs g" and "i \<notin> live g"
    and "live h = insert i (live g)"
  using assms by (auto simp: dg_add_node_def Let_def node_weight_def arcs_def live_def slot_append
      slot_beyond fun_eq_iff)

lemma add_node_ok:
  assumes "digraph_ok g" "dg_add_node g w = (h, i)"
  shows "digraph_ok h"
proof -
  have i: "i = length (dg_nodes g)" "dg_edges h = dg_edges g" "num_edges h = num_edges g"
      "num_nodes h = num_nodes g + 1" "dg_nodes h = dg_nodes g @ [Some \<lparr>ne_weight = w, adj_out = [], adj_in = []\<rparr>]"
    using assms(2) by (auto simp: dg_add_node_def Let_def)
  have a: "arcs h = arcs g" "live_edges h = live_edges g" using i by (auto simp: arcs_def live_edges_def fun_eq_iff)
  note b = add_node_abs [OF assms(2)]
  have "lists_ok (arcs g) i \<lparr>ne_weight = w, adj_out = [], adj_in = []\<rparr>"
    using assms(1) b(3) by (force simp: digraph_ok_def lists_ok_def)
  then show ?thesis
    using assms(1) a b(3,4) i by (auto simp: digraph_ok_def slot_append)
qed

lemma remove_edge_arcs: "arcs (fst (remove_edge_inner g e)) = (arcs g)(e := None)"
  by (auto simp: remove_edge_inner_def arcs_def slot_update Let_def fun_eq_iff slot_Some_less split: option.splits)

lemma remove_edge_weights: "node_weight (fst (remove_edge_inner g e)) = node_weight g"
  by (auto simp: remove_edge_inner_def node_weight_def slot_on_slot Let_def fun_eq_iff option.map_comp o_def
      split: option.splits)

lemma remove_edge_live: "live (fst (remove_edge_inner g e)) = live g"
  using remove_edge_weights [of g e] by (auto simp: live_weight)

lemma remove_edge_num_nodes: "num_nodes (fst (remove_edge_inner g e)) = num_nodes g"
  by (simp add: remove_edge_inner_def Let_def split: option.splits)

lemma remove_edge_result: "snd (remove_edge_inner g e) = edge_weight g e"
  by (auto simp: remove_edge_inner_def edge_weight_def Let_def split: option.splits)

lemma lists_ok_remove:
  assumes "lists_ok A i entry" "A e = Some (s, t, w)"
  shows "lists_ok (A(e := None)) i
    (adj_in_update (if i = t then filter (\<lambda>x. x \<noteq> e) else id) (adj_out_update (if i = s then filter (\<lambda>x. x \<noteq> e) else id) entry))"
  using assms by (auto simp: lists_ok_def)

lemma adj_update_id [simp]:
  "adj_in_update id entry = entry" "adj_out_update id entry = entry"
  "adj_in_update (\<lambda>l. l) entry = entry" "adj_out_update (\<lambda>l. l) entry = entry"
  by (cases entry; simp)+

lemma remove_edge_slot:
  assumes "slot (dg_edges g) e = Some en"
  shows "slot (dg_nodes (fst (remove_edge_inner g e))) i = map_option
    (\<lambda>entry. adj_in_update (if i = ee_target en then filter (\<lambda>x. x \<noteq> e) else id)
       (adj_out_update (if i = ee_source en then filter (\<lambda>x. x \<noteq> e) else id) entry)) (slot (dg_nodes g) i)"
  using assms by (cases "slot (dg_nodes g) i") (auto simp: remove_edge_inner_def slot_on_slot Let_def)

lemma remove_edge_partly_ok:
  assumes "partly_ok g"
  shows "partly_ok (fst (remove_edge_inner g e))"
proof (cases "slot (dg_edges g) e")
  case None
  then show ?thesis using assms by (simp add: remove_edge_inner_def)
next
  case (Some en)
  let ?h = "fst (remove_edge_inner g e)"
  have e: "arcs g e = Some (ee_source en, ee_target en, ee_weight en)" using Some by (simp add: arcs_def)
  have "live_edges ?h = live_edges g - {e}"
    by (auto simp: live_edges_arcs remove_edge_arcs split: if_splits)
  moreover have "e \<in> live_edges g" using Some by (simp add: live_edges_def)
  ultimately have "card (live_edges ?h) = card (live_edges g) - 1" by simp
  moreover have "num_edges ?h = num_edges g - 1" using Some by (simp add: remove_edge_inner_def Let_def)
  ultimately have "num_edges ?h = card (live_edges ?h)" using assms by (simp add: partly_ok_def)
  moreover have "lists_ok (arcs ?h) i entry" if "slot (dg_nodes ?h) i = Some entry" for i entry
  proof -
    have rem: "lists_ok (arcs ?h) i (adj_in_update (if i = ee_target en then filter (\<lambda>x. x \<noteq> e) else id)
        (adj_out_update (if i = ee_source en then filter (\<lambda>x. x \<noteq> e) else id) x))" if "lists_ok (arcs g) i x" for x
      unfolding remove_edge_arcs using that e by (rule lists_ok_remove)
    show ?thesis
      using that assms unfolding remove_edge_slot [OF Some] map_option_eq_Some partly_ok_def by (elim exE conjE) (metis rem)
  qed
  ultimately show ?thesis by (simp add: partly_ok_def)
qed

lemma remove_edge_ok:
  assumes "digraph_ok g"
  shows "digraph_ok (fst (remove_edge_inner g e))"
  using assms remove_edge_partly_ok [of g e]
  by (auto simp: digraph_ok_partly remove_edge_arcs remove_edge_live remove_edge_num_nodes split: if_splits)

definition remove_edges :: "nat list \<Rightarrow> ('n, 'e) DiGraph \<Rightarrow> ('n, 'e) DiGraph" where
  "remove_edges es = fold (\<lambda>e h. fst (remove_edge_inner h e)) es"

lemma remove_edges_abs:
  "arcs (remove_edges es g) = (arcs g) |` (- set es)"
  "node_weight (remove_edges es g) = node_weight g"
  "num_nodes (remove_edges es g) = num_nodes g"
  "partly_ok g \<Longrightarrow> partly_ok (remove_edges es g)"
  by (induction es arbitrary: g)
     (auto simp: remove_edges_def remove_edge_arcs remove_edge_weights remove_edge_num_nodes
       remove_edge_partly_ok restrict_map_def fun_eq_iff)

definition incident :: "nat \<Rightarrow> (nat \<rightharpoonup> nat \<times> nat \<times> 'e) \<Rightarrow> nat set" where
  "incident n A = {e. \<exists>s t w. A e = Some (s, t, w) \<and> (s = n \<or> t = n)}"

lemma remove_node_spec:
  assumes "digraph_ok g" "slot (dg_nodes g) n = Some entry" "dg_remove_node g n = (h, r)"
  shows "digraph_ok h" and "node_weight h = (node_weight g)(n := None)"
    and "arcs h = (arcs g) |` (- incident n (arcs g))" and "r = Some (ne_weight entry)"
proof -
  let ?g1 = "g\<lparr>dg_nodes := (dg_nodes g)[n := None]\<rparr>"
  let ?es = "adj_out entry @ adj_in entry"
  have h: "h = (remove_edges ?es ?g1)\<lparr>num_nodes := num_nodes g - 1\<rparr>" "r = Some (ne_weight entry)"
    using assms(2,3) remove_edges_abs(3) [of ?es ?g1] by (auto simp: dg_remove_node_def remove_edges_def Let_def)
  have a1: "arcs ?g1 = arcs g" "node_weight ?g1 = (node_weight g)(n := None)"
    using slot_Some_less [OF assms(2)] by (auto simp: arcs_def node_weight_def slot_update fun_eq_iff)
  have "live_edges ?g1 = live_edges g" by (simp add: live_edges_def)
  then have p1: "partly_ok ?g1"
    using assms(1) slot_Some_less [OF assms(2)] unfolding partly_ok_def a1(1)
    by (auto simp: digraph_ok_def slot_update split: if_splits)
  have same: "arcs h = arcs (remove_edges ?es ?g1)" "node_weight h = node_weight (remove_edges ?es ?g1)"
      "live h = live (remove_edges ?es ?g1)"
    unfolding h by (auto simp: arcs_def node_weight_def live_def fun_eq_iff)
  have "set ?es = incident n (arcs g)"
    using assms(1,2) by (auto simp: digraph_ok_def lists_ok_def incident_def)
  then show ah: "arcs h = (arcs g) |` (- incident n (arcs g))"
    unfolding same remove_edges_abs a1 by simp
  show wh: "node_weight h = (node_weight g)(n := None)" unfolding same remove_edges_abs a1 by simp
  show "r = Some (ne_weight entry)" by (rule h)
  have lh: "live h = live g - {n}" using wh by (auto simp: live_weight split: if_splits)
  have "dg_nodes h = dg_nodes (remove_edges ?es ?g1)" "num_edges h = num_edges (remove_edges ?es ?g1)"
      "live_edges h = live_edges (remove_edges ?es ?g1)"
    unfolding h by (simp_all add: live_edges_def)
  then have "partly_ok h" using remove_edges_abs(4) [OF p1, of ?es] same(1) by (simp add: partly_ok_def)
  moreover have "num_nodes h = card (live h)"
  proof -
    have "n \<in> live g" "num_nodes h = num_nodes g - 1" using assms(2) h by (simp_all add: live_def)
    then show ?thesis using assms(1) unfolding lh by (simp add: digraph_ok_def)
  qed
  moreover have "s \<in> live h \<and> t \<in> live h" if "arcs h e = Some (s, t, w)" for e s t w
    using that digraph_ok_ends [OF assms(1)] unfolding ah lh by (auto simp: restrict_map_def incident_def split: if_splits)
  ultimately show "digraph_ok h" by (simp add: digraph_ok_partly)
qed

lemma remove_node_absent: "n \<notin> live g \<Longrightarrow> dg_remove_node g n = (g, None)"
  by (simp add: dg_remove_node_def live_def)

lemma add_edge_slot:
  "slot (dg_nodes (fst (dg_add_edge g a b w))) i = map_option
    (\<lambda>entry. adj_in_update (\<lambda>l. if i = b then l @ [length (dg_edges g)] else l)
       (adj_out_update (\<lambda>l. if i = a then l @ [length (dg_edges g)] else l) entry)) (slot (dg_nodes g) i)"
  by (cases "slot (dg_nodes g) i") (auto simp: dg_add_edge_def slot_on_slot Let_def)

lemma add_edge_abs:
  assumes "dg_add_edge g a b w = (h, e)"
  shows "arcs h = (arcs g)(e \<mapsto> (a, b, w))" and "node_weight h = node_weight g" and "arcs g e = None"
    and "live h = live g"
proof -
  have e: "e = length (dg_edges g)" "h = fst (dg_add_edge g a b w)" using assms by (auto simp: dg_add_edge_def Let_def)
  show "arcs h = (arcs g)(e \<mapsto> (a, b, w))"
    unfolding e by (auto simp: arcs_def dg_add_edge_def Let_def slot_append slot_beyond fun_eq_iff)
  show nw: "node_weight h = node_weight g"
    unfolding e node_weight_def add_edge_slot by (auto simp: fun_eq_iff option.map_comp o_def)
  show "arcs g e = None" unfolding e by (simp add: arcs_None_beyond)
  show "live h = live g" using nw by (auto simp: live_weight)
qed

lemma add_edge_ok:
  assumes "digraph_ok g" "a \<in> live g" "b \<in> live g" "dg_add_edge g a b w = (h, e)"
  shows "digraph_ok h"
proof -
  have e: "e = length (dg_edges g)" "h = fst (dg_add_edge g a b w)" using assms(4) by (auto simp: dg_add_edge_def Let_def)
  note abs = add_edge_abs [OF assms(4)]
  have "live_edges h = insert e (live_edges g)" "e \<notin> live_edges g"
    using abs(1,3) by (auto simp: live_edges_arcs split: if_splits)
  then have "num_edges h = card (live_edges h)"
    using assms(1) unfolding e(2) by (simp add: digraph_ok_def dg_add_edge_def Let_def)
  moreover have "num_nodes h = card (live h)"
    using assms(1) unfolding abs(4) unfolding e(2) by (simp add: digraph_ok_def dg_add_edge_def Let_def)
  moreover have "lists_ok (arcs h) i entry" if entry: "slot (dg_nodes h) i = Some entry" for i entry
  proof -
    obtain entry0 where 0: "slot (dg_nodes g) i = Some entry0"
        "entry = adj_in_update (\<lambda>l. if i = b then l @ [e] else l) (adj_out_update (\<lambda>l. if i = a then l @ [e] else l) entry0)"
      using entry unfolding e add_edge_slot by auto
    have "lists_ok (arcs g) i entry0" using assms(1) 0(1) by (simp add: digraph_ok_def)
    then show ?thesis using abs(3) unfolding abs(1) 0(2) by (auto simp: lists_ok_def)
  qed
  ultimately show ?thesis
    using assms(1-3) abs by (auto simp: digraph_ok_def split: if_splits)
qed

section \<open>The interface of a graph store\<close>

text \<open>
  What a client of the graph relies on. The laws give the abstract multigraph after each operation;
  the client lemmas follow from them alone.
\<close>

datatype ('n, 'e) graph_op = AddNode 'n | AddEdge nat nat 'e | RemoveNode nat | RemoveEdge nat

locale graph_store =
  fixes ok :: "'g \<Rightarrow> bool"
    and nodes :: "'g \<Rightarrow> nat \<rightharpoonup> 'n"
    and edge :: "'g \<Rightarrow> nat \<rightharpoonup> nat \<times> nat \<times> 'e"
    and add_node :: "'g \<Rightarrow> 'n \<Rightarrow> 'g \<times> nat"
    and add_edge :: "'g \<Rightarrow> nat \<Rightarrow> nat \<Rightarrow> 'e \<Rightarrow> 'g \<times> nat"
    and remove_node :: "'g \<Rightarrow> nat \<Rightarrow> 'g \<times> 'n option"
    and remove_edge :: "'g \<Rightarrow> nat \<Rightarrow> 'g \<times> 'e option"
  assumes edge_ends: "\<lbrakk>ok g; edge g e = Some (s, t, w)\<rbrakk> \<Longrightarrow> nodes g s \<noteq> None \<and> nodes g t \<noteq> None"
    and add_node: "\<lbrakk>ok g; add_node g x = (h, i)\<rbrakk> \<Longrightarrow>
      ok h \<and> nodes g i = None \<and> nodes h = (nodes g)(i \<mapsto> x) \<and> edge h = edge g"
    and add_edge: "\<lbrakk>ok g; nodes g a \<noteq> None; nodes g b \<noteq> None; add_edge g a b w = (h, e)\<rbrakk> \<Longrightarrow>
      ok h \<and> edge g e = None \<and> nodes h = nodes g \<and> edge h = (edge g)(e \<mapsto> (a, b, w))"
    and remove_node: "\<lbrakk>ok g; remove_node g n = (h, r)\<rbrakk> \<Longrightarrow>
      ok h \<and> r = nodes g n \<and> nodes h = (nodes g)(n := None)
        \<and> (\<forall>e. edge h e = (case edge g e of Some (s, t, w) \<Rightarrow> if s = n \<or> t = n then None else Some (s, t, w) | None \<Rightarrow> None))"
    and remove_edge: "\<lbrakk>ok g; remove_edge g e = (h, r')\<rbrakk> \<Longrightarrow>
      ok h \<and> r' = map_option (\<lambda>(s, t, w). w) (edge g e) \<and> nodes h = nodes g \<and> edge h = (edge g)(e := None)"
begin

text \<open>A run of operations; an edge is only added between nodes that exist, as the graph's clients do.\<close>

definition apply_op :: "('n, 'e) graph_op \<Rightarrow> 'g \<Rightarrow> 'g" where
  "apply_op c g = (case c of
       AddNode n \<Rightarrow> fst (add_node g n)
     | AddEdge a b w \<Rightarrow> if nodes g a \<noteq> None \<and> nodes g b \<noteq> None then fst (add_edge g a b w) else g
     | RemoveNode n \<Rightarrow> fst (remove_node g n)
     | RemoveEdge e \<Rightarrow> fst (remove_edge g e))"

lemma op_results:
  assumes "ok g"
  shows "ok (fst (add_node g x))" "nodes (fst (add_node g x)) = (nodes g)(snd (add_node g x) \<mapsto> x)"
    "nodes g (snd (add_node g x)) = None" "edge (fst (add_node g x)) = edge g"
    "ok (fst (remove_node g n))" "nodes (fst (remove_node g n)) = (nodes g)(n := None)"
    "edge (fst (remove_node g n)) e = (case edge g e of
       Some (s, t, w) \<Rightarrow> if s = n \<or> t = n then None else Some (s, t, w) | None \<Rightarrow> None)"
    "ok (fst (remove_edge g e))" "nodes (fst (remove_edge g e)) = nodes g"
    "edge (fst (remove_edge g e)) = (edge g)(e := None)"
  using add_node [OF assms surjective_pairing] remove_node [OF assms surjective_pairing]
    remove_edge [OF assms surjective_pairing] by auto

lemma add_edge_results:
  assumes "ok g" "nodes g a \<noteq> None" "nodes g b \<noteq> None"
  shows "ok (fst (add_edge g a b w))" "nodes (fst (add_edge g a b w)) = nodes g"
    "edge (fst (add_edge g a b w)) = (edge g)(snd (add_edge g a b w) \<mapsto> (a, b, w))"
    "edge g (snd (add_edge g a b w)) = None"
  using add_edge [OF assms surjective_pairing] by auto

lemma apply_op_ok: "ok g \<Longrightarrow> ok (apply_op c g)"
  by (cases c) (simp_all add: apply_op_def op_results add_edge_results)

lemma run_ok: "ok g \<Longrightarrow> ok (fold apply_op cs g)"
  by (induction cs arbitrary: g) (auto simp: apply_op_ok)

lemma apply_op_node:
  assumes "ok g" "nodes g n = Some x" "c \<noteq> RemoveNode n"
  shows "nodes (apply_op c g) n = Some x"
  using assms(2,3) op_results(3) [OF assms(1)] by (cases c) (auto simp: apply_op_def op_results [OF assms(1)] add_edge_results [OF assms(1)])

lemma node_stable:
  assumes "ok g" "nodes g n = Some x" "RemoveNode n \<notin> set cs"
  shows "nodes (fold apply_op cs g) n = Some x"
  using assms by (induction cs arbitrary: g) (auto simp: apply_op_ok apply_op_node)

lemma apply_op_edge:
  assumes "ok g" "edge g e = Some (s, t, w)" "c \<notin> {RemoveEdge e, RemoveNode s, RemoveNode t}"
  shows "edge (apply_op c g) e = Some (s, t, w)"
  using assms(2,3) add_edge_results(4) [OF assms(1)] by (cases c) (auto simp: apply_op_def op_results [OF assms(1)] add_edge_results [OF assms(1)])

lemma edge_stable:
  assumes "ok g" "edge g e = Some (s, t, w)" "set cs \<inter> {RemoveEdge e, RemoveNode s, RemoveNode t} = {}"
  shows "edge (fold apply_op cs g) e = Some (s, t, w)"
  using assms by (induction cs arbitrary: g) (auto simp: apply_op_ok apply_op_edge)

end

lemma digraph_store_laws:
  assumes "digraph_ok g" "dg_remove_node g n = (h, r)"
  shows "digraph_ok h \<and> r = node_weight g n \<and> node_weight h = (node_weight g)(n := None)
    \<and> arcs h = (arcs g) |` (- incident n (arcs g))"
proof (cases "slot (dg_nodes g) n")
  case None
  then have "n \<notin> live g" by (simp add: live_def)
  then have "h = g" "r = None" "node_weight g n = None"
    using assms(2) remove_node_absent [of n g] by (simp_all add: live_weight)
  moreover have "incident n (arcs g) = {}"
    using \<open>n \<notin> live g\<close> digraph_ok_ends [OF assms(1)] unfolding incident_def by blast
  ultimately show ?thesis using assms(1) by (auto simp: fun_eq_iff)
next
  case (Some entry)
  then show ?thesis using remove_node_spec [OF assms(1) Some assms(2)] by (simp add: node_weight_def)
qed

interpretation dg: graph_store digraph_ok node_weight arcs dg_add_node dg_add_edge dg_remove_node dg_remove_edge
proof (unfold_locales, goal_cases)
  case (1 g e s t w)
  then show ?case using digraph_ok_ends [of g e s t w] by (auto simp: live_weight)
next
  case (2 g n h i)
  then show ?case using add_node_abs [of g n h i] add_node_ok [of g n h i] by (auto simp: live_weight)
next
  case (3 g a b w h e)
  then show ?case using add_edge_abs [of g a b w h e] add_edge_ok [of g a b w h e] by (auto simp: live_weight)
next
  case (4 g n h r)
  then show ?case using digraph_store_laws [of g n h r]
    by (auto simp: restrict_map_def incident_def split: option.splits)
next
  case (5 g e h r)
  then show ?case
    using remove_edge_ok [of g e] remove_edge_arcs [of g e] remove_edge_weights [of g e] remove_edge_result [of g e]
    by (simp add: dg_remove_edge_def edge_weight_arcs split_pairs)
qed

section \<open>Adjacency queries\<close>

text \<open>The edges of a graph as a relation on node indices.\<close>

definition arc_rel :: "('n, 'e) DiGraph \<Rightarrow> (nat \<times> nat) set" where
  "arc_rel g = {(s, t). \<exists>e w. arcs g e = Some (s, t, w)}"

lemma out_list:
  assumes "digraph_ok g" "slot (dg_nodes g) u = Some entry"
  shows "e \<in> set (adj_out entry) \<longleftrightarrow> (\<exists>en. slot (dg_edges g) e = Some en \<and> ee_source en = u)"
  using assms by (force simp: digraph_ok_def lists_ok_def arcs_def)

lemma in_list:
  assumes "digraph_ok g" "slot (dg_nodes g) u = Some entry"
  shows "e \<in> set (adj_in entry) \<longleftrightarrow> (\<exists>en. slot (dg_edges g) e = Some en \<and> ee_target en = u)"
  using assms by (force simp: digraph_ok_def lists_ok_def arcs_def)

lemma set_map_filter: "set (List.map_filter f xs) = {y. \<exists>x \<in> set xs. f x = Some y}"
  by (force simp: List.map_filter_def)

lemma neighbors_directed_rel:
  assumes "digraph_ok g" "u \<in> live g"
  shows "set (neighbors_directed g u Outgoing) = {v. (u, v) \<in> arc_rel g}"
    and "set (neighbors_directed g u Incoming) = {v. (v, u) \<in> arc_rel g}"
proof -
  obtain entry where u: "slot (dg_nodes g) u = Some entry" using assms(2) by (auto simp: live_def)
  show "set (neighbors_directed g u Outgoing) = {v. (u, v) \<in> arc_rel g}"
    using u by (force simp: neighbors_directed_def set_map_filter Bex_def out_list [OF assms(1) u] arc_rel_def arcs_def)
  show "set (neighbors_directed g u Incoming) = {v. (v, u) \<in> arc_rel g}"
    using u by (force simp: neighbors_directed_def set_map_filter Bex_def in_list [OF assms(1) u] arc_rel_def arcs_def)
qed

lemma contains_edge_rel:
  assumes "digraph_ok g"
  shows "contains_edge g a b \<longleftrightarrow> (a, b) \<in> arc_rel g"
proof (cases "slot (dg_nodes g) a")
  case None
  then have "a \<notin> live g" by (simp add: live_def)
  then show ?thesis using None digraph_ok_ends [OF assms]
    by (auto simp: contains_edge_def find_edge_def arc_rel_def)
next
  case (Some entry)
  then show ?thesis
    by (auto simp: contains_edge_def find_edge_def find_None_iff out_list [OF assms Some] arc_rel_def arcs_def
        split: option.splits)
qed

lemma find_edge_sound:
  assumes "digraph_ok g" "find_edge g a b = Some e"
  shows "\<exists>w. arcs g e = Some (a, b, w)"
proof -
  obtain entry where a: "slot (dg_nodes g) a = Some entry"
    using assms(2) by (auto simp: find_edge_def split: option.splits)
  then show ?thesis using assms(2) out_list [OF assms(1) a, of e]
    by (auto simp: find_edge_def arcs_def dest!: find_Some_mem split: option.splits)
qed

section \<open>Properties\<close>

text \<open>
  C15: The graph with its slots, tombstones and adjacency lists implements a multigraph given by a map
  of node weights and a map of edges. Every operation keeps the representation invariant, returns a
  fresh index or the removed weight, and has exactly the abstract effect: removing a node removes the
  edges incident to it and no others.
\<close>

theorem digraph_refines_multigraph:
  assumes "digraph_ok g"
  shows "(case dg_add_node g x of (h, i) \<Rightarrow>
           digraph_ok h \<and> node_weight g i = None \<and> node_weight h = (node_weight g)(i \<mapsto> x) \<and> arcs h = arcs g)
    \<and> (node_weight g a \<noteq> None \<and> node_weight g b \<noteq> None \<longrightarrow> (case dg_add_edge g a b w of (h, e) \<Rightarrow>
           digraph_ok h \<and> arcs g e = None \<and> node_weight h = node_weight g \<and> arcs h = (arcs g)(e \<mapsto> (a, b, w))))
    \<and> (case dg_remove_node g n of (h, r) \<Rightarrow>
           digraph_ok h \<and> r = node_weight g n \<and> node_weight h = (node_weight g)(n := None)
           \<and> arcs h = (arcs g) |` (- incident n (arcs g)))
    \<and> (case dg_remove_edge g e of (h, r') \<Rightarrow>
           digraph_ok h \<and> r' = edge_weight g e \<and> node_weight h = node_weight g \<and> arcs h = (arcs g)(e := None))"
  using dg.op_results(1-4) [OF assms, of x] dg.add_edge_results [OF assms, of a b w]
    digraph_store_laws [OF assms surjective_pairing, of n] dg.op_results(8-10) [OF assms, of e]
  by (simp add: split_beta edge_weight_arcs dg_remove_edge_def remove_edge_result)

text \<open>One call of a client, and runs of them.\<close>

definition dg_step :: "('n, 'e) graph_op \<Rightarrow> ('n, 'e) DiGraph \<Rightarrow> ('n, 'e) DiGraph" where
  "dg_step c g = (case c of
       AddNode n \<Rightarrow> fst (dg_add_node g n)
     | AddEdge a b w \<Rightarrow> if node_weight g a \<noteq> None \<and> node_weight g b \<noteq> None then fst (dg_add_edge g a b w) else g
     | RemoveNode n \<Rightarrow> fst (dg_remove_node g n)
     | RemoveEdge e \<Rightarrow> fst (dg_remove_edge g e))"

lemma dg_step_apply: "dg_step = dg.apply_op"
  by (intro ext) (simp add: dg_step_def dg.apply_op_def)

lemma dg_run_ok: "digraph_ok g \<Longrightarrow> digraph_ok (fold dg_step cs g)"
  unfolding dg_step_apply by (rule dg.run_ok)

text \<open>
  Indices are stable. Whatever is added and removed after a node or an edge was created, its index
  keeps naming it, with its endpoints and weight, until it or (for an edge) one of its endpoints is removed.
\<close>

theorem digraph_indices_stable:
  assumes "digraph_ok g"
  shows "(node_weight g n = Some x \<and> RemoveNode n \<notin> set cs \<longrightarrow> node_weight (fold dg_step cs g) n = Some x)
    \<and> (arcs g e = Some (s, t, w) \<and> set cs \<inter> {RemoveEdge e, RemoveNode s, RemoveNode t} = {}
         \<longrightarrow> arcs (fold dg_step cs g) e = Some (s, t, w))"
  unfolding dg_step_apply using dg.node_stable [OF assms] dg.edge_stable [OF assms] by blast

definition demo_graph :: "(string, string) DiGraph" where
  "demo_graph = fold dg_step [AddNode ''a'', AddNode ''b'', AddNode ''c'', AddEdge 0 1 ''ab'', AddEdge 1 2 ''bc''] digraph_new"

lemma demo_graph_ok: "digraph_ok demo_graph"
  unfolding demo_graph_def by (rule dg_run_ok) simp

lemma demo_graph_arcs: "arcs demo_graph 1 = Some (1, 2, ''bc'')" "node_weight demo_graph 0 = Some ''a''"
    "node_weight demo_graph 2 = Some ''c''"
  by code_simp+

theorem digraph_refines_multigraph_witness:
  "digraph_ok (fst (dg_remove_node demo_graph 1)) \<and> arcs (fst (dg_remove_node demo_graph 1)) 1 = None
   \<and> digraph_ok (fst (dg_add_edge demo_graph 2 0 ''ca''))"
  using digraph_refines_multigraph [OF demo_graph_ok, where n = 1 and a = 2 and b = 0 and w = "''ca''"] demo_graph_arcs
  by (auto simp: split_beta incident_def restrict_map_def)

theorem digraph_indices_stable_witness:
  "arcs (fold dg_step [RemoveNode 0, AddNode ''d'', AddEdge 3 1 ''db''] demo_graph) 1 = Some (1, 2, ''bc'')"
  using digraph_indices_stable [OF demo_graph_ok, where cs = "[RemoveNode 0, AddNode ''d'', AddEdge 3 1 ''db'']" and e = 1
    and s = 1 and t = 2 and w = "''bc''"] demo_graph_arcs(1) by simp

end
