(* ===== verification/Scg_Toposort.thy ===== *)
theory Scg_Toposort
  imports Scg_Digraph
begin

text \<open>
  Two of the graph algorithms of \<^verbatim>\<open>scg/src/digraph.rs\<close>: \<open>toposort\<close> (Kahn's algorithm with a stack) and
  \<open>has_path_connecting\<close> (breadth-first search). Vectors indexed by node slots are lists; an index out of
  range panics in Rust and is the result \<open>None\<close> here. Both loops are total functions. A Rust stack is a
  list with its top first.
\<close>

section \<open>Checked indexing\<close>

definition at :: "'a list \<Rightarrow> nat \<Rightarrow> 'a option" where
  "at xs i = (if i < length xs then Some (xs ! i) else None)"

lemma at_Some: "at xs i = Some x \<longleftrightarrow> i < length xs \<and> x = xs ! i"
  by (auto simp: at_def)

section \<open>Topological sort\<close>

definition in_degrees :: "('n, 'e) DiGraph \<Rightarrow> nat list" where
  "in_degrees g = map (\<lambda>i. case slot (dg_nodes g) i of Some e \<Rightarrow> length (adj_in e) | None \<Rightarrow> 0) [0..<length (dg_nodes g)]"

definition topo_seeds :: "('n, 'e) DiGraph \<Rightarrow> nat list \<Rightarrow> nat list" where
  "topo_seeds g in_degree = rev (filter (\<lambda>i. slot (dg_nodes g) i \<noteq> None \<and> in_degree ! i = 0) [0..<length (dg_nodes g)])"

text \<open>The loop over the outgoing edges of a node.\<close>

fun relax :: "('n, 'e) DiGraph \<Rightarrow> nat list \<Rightarrow> nat list \<Rightarrow> nat list \<Rightarrow> (nat list \<times> nat list) option" where
  "relax g [] in_degree stack = Some (in_degree, stack)"
| "relax g (eidx # out) in_degree stack =
     (case slot (dg_edges g) eidx of
        None \<Rightarrow> relax g out in_degree stack
      | Some en \<Rightarrow>
          let v = ee_target en in
          (case at in_degree v of
             None \<Rightarrow> None
           | Some d \<Rightarrow>
               if d > 0 then
                 let in_degree' = in_degree[v := d - 1]
                 in relax g out in_degree' (if in_degree' ! v = 0 then v # stack else stack)
               else relax g out in_degree stack))"

lemma sum_list_dec: "i < length xs \<Longrightarrow> 0 < xs ! i \<Longrightarrow> sum_list (xs[i := xs ! i - 1]) + 1 = sum_list (xs :: nat list)"
  by (simp add: sum_list_update) (metis add.commute elem_le_sum_list less_le_trans less_imp_le_nat One_nat_def Suc_pred add_Suc_right add_diff_inverse_nat not_less plus_nat.add_0)

lemma relax_measure:
  "relax g out deg stack = Some (deg', stack') \<Longrightarrow> sum_list deg' + length stack' \<le> sum_list deg + length stack"
proof (induction g out deg stack rule: relax.induct)
  case (2 g eidx out deg stack)
  then show ?case
  proof (cases "slot (dg_edges g) eidx")
    case (Some en)
    let ?v = "ee_target en"
    show ?thesis
    proof (cases "?v < length deg \<and> 0 < deg ! ?v")
      case True
      then have "sum_list (deg[?v := deg ! ?v - 1]) + 1 = sum_list deg" by (intro sum_list_dec) simp_all
      then show ?thesis using 2 Some True by (fastforce simp: at_def Let_def split: if_splits)
    next
      case False
      then show ?thesis using 2 Some by (auto simp: at_def Let_def split: if_splits)
    qed
  qed auto
qed simp

function topo_loop :: "('n, 'e) DiGraph \<Rightarrow> nat list \<Rightarrow> nat list \<Rightarrow> nat list \<Rightarrow> (nat list \<times> nat list) option" where
  "topo_loop g in_degree [] result = Some (in_degree, result)"
| "topo_loop g in_degree (u # stack) result =
     (case slot (dg_nodes g) u of
        None \<Rightarrow> topo_loop g in_degree stack (result @ [u])
      | Some entry \<Rightarrow>
          (case relax g (adj_out entry) in_degree stack of
             None \<Rightarrow> None
           | Some (in_degree', stack') \<Rightarrow> topo_loop g in_degree' stack' (result @ [u])))"
  by pat_completeness auto
termination
  by (relation "measure (\<lambda>(g, deg, stack, result). sum_list deg + length stack)") (auto dest: relax_measure)

definition toposort :: "('n, 'e) DiGraph \<Rightarrow> (NodeIndex + NodeIndex list) option" where
  "toposort g =
     (case topo_loop g (in_degrees g) (topo_seeds g (in_degrees g)) [] of
        None \<Rightarrow> None
      | Some (in_degree, result) \<Rightarrow>
          Some (if length result = num_nodes g then Inr result
                else Inl (case List.find (\<lambda>i. slot (dg_nodes g) i \<noteq> None \<and> in_degree ! i > 0) [0..<length (dg_nodes g)] of
                            Some i \<Rightarrow> i | None \<Rightarrow> 0)))"

section \<open>Path search\<close>

text \<open>The loop over the outgoing edges: \<open>Inl ()\<close> when the target was met, else the new state.\<close>

fun visit :: "('n, 'e) DiGraph \<Rightarrow> NodeIndex \<Rightarrow> nat list \<Rightarrow> bool list \<Rightarrow> nat list \<Rightarrow> (unit + bool list \<times> nat list) option" where
  "visit g to [] visited queue = Some (Inr (visited, queue))"
| "visit g to (eidx # out) visited queue =
     (case slot (dg_edges g) eidx of
        None \<Rightarrow> visit g to out visited queue
      | Some en \<Rightarrow>
          let w = ee_target en in
          if w = to then Some (Inl ())
          else (case at visited w of
                  None \<Rightarrow> None
                | Some seen \<Rightarrow> if \<not> seen then visit g to out (visited[w := True]) (queue @ [w])
                               else visit g to out visited queue))"

abbreviation unseen :: "bool list \<Rightarrow> nat" where
  "unseen visited \<equiv> length (filter Not visited)"

lemma visit_measure:
  "visit g to out visited queue = Some (Inr (visited', queue'))
   \<Longrightarrow> 2 * unseen visited' + length queue' \<le> 2 * unseen visited + length queue"
proof (induction g to out visited queue rule: visit.induct)
  case (2 g to eidx out visited queue)
  then show ?case
  proof (cases "slot (dg_edges g) eidx")
    case (Some en)
    let ?w = "ee_target en"
    show ?thesis
    proof (cases "?w < length visited \<and> \<not> visited ! ?w")
      case True
      then have "unseen (visited[?w := True]) + 1 = unseen visited"
        using length_filter_list_update [of ?w visited Not True] by simp
      then show ?thesis using 2 Some True by (fastforce simp: at_def Let_def split: if_splits)
    next
      case False
      then show ?thesis using 2 Some by (auto simp: at_def Let_def split: if_splits)
    qed
  qed auto
qed simp

function bfs_loop :: "('n, 'e) DiGraph \<Rightarrow> NodeIndex \<Rightarrow> bool list \<Rightarrow> nat list \<Rightarrow> bool option" where
  "bfs_loop g to visited [] = Some False"
| "bfs_loop g to visited (u # queue) =
     (case slot (dg_nodes g) u of
        None \<Rightarrow> bfs_loop g to visited queue
      | Some entry \<Rightarrow>
          (case visit g to (adj_out entry) visited queue of
             None \<Rightarrow> None
           | Some (Inl _) \<Rightarrow> Some True
           | Some (Inr (visited', queue')) \<Rightarrow> bfs_loop g to visited' queue'))"
  by pat_completeness auto
termination
  by (relation "measure (\<lambda>(g, to, visited, queue). 2 * unseen visited + length queue)") (auto dest!: visit_measure)

text \<open>A tombstone as endpoint gives \<open>False\<close>; an index beyond the slots passes that test.\<close>

definition has_path_connecting :: "('n, 'e) DiGraph \<Rightarrow> NodeIndex \<Rightarrow> NodeIndex \<Rightarrow> bool option" where
  "has_path_connecting g from to =
     (if at (dg_nodes g) from = Some None \<or> at (dg_nodes g) to = Some None then Some False
      else if from = to then Some True
      else if from < length (dg_nodes g)
      then bfs_loop g to ((replicate (length (dg_nodes g)) False)[from := True]) [from]
      else None)"

section \<open>Edges of the graph\<close>

definition into :: "('n, 'e) DiGraph \<Rightarrow> nat \<Rightarrow> nat set" where
  "into g v = {e. \<exists>en. slot (dg_edges g) e = Some en \<and> ee_target en = v}"

definition edges_from :: "('n, 'e) DiGraph \<Rightarrow> nat set \<Rightarrow> nat set" where
  "edges_from g S = {e. \<exists>en. slot (dg_edges g) e = Some en \<and> ee_source en \<in> S}"

definition targets :: "('n, 'e) DiGraph \<Rightarrow> nat list \<Rightarrow> nat set" where
  "targets g es = {ee_target en | e en. e \<in> set es \<and> slot (dg_edges g) e = Some en}"

lemma arc_rel_slots: "(s, t) \<in> arc_rel g \<longleftrightarrow> (\<exists>e en. slot (dg_edges g) e = Some en \<and> ee_source en = s \<and> ee_target en = t)"
  by (force simp: arc_rel_def arcs_def)

lemma arc_rel_live: "digraph_ok g \<Longrightarrow> arc_rel g \<subseteq> live g \<times> live g"
  using digraph_ok_ends by (fastforce simp: arc_rel_def)

lemma finite_arc_rel: "digraph_ok g \<Longrightarrow> finite (arc_rel g)"
  by (rule finite_subset [OF arc_rel_live]) simp_all

lemma slot_ends:
  assumes "digraph_ok g" "slot (dg_edges g) e = Some en"
  shows "ee_source en \<in> live g" "ee_target en \<in> live g"
  using digraph_ok_ends [OF assms(1), of e] assms(2) by (simp_all add: arcs_def)

lemma live_less: "v \<in> live g \<Longrightarrow> v < length (dg_nodes g)"
  by (auto simp: live_def dest: slot_Some_less)

lemma finite_into: "finite (into g v)"
  by (rule finite_subset [OF _ finite_live_edges]) (auto simp: into_def live_edges_def)

lemma targets_adj_out:
  assumes "digraph_ok g" "slot (dg_nodes g) u = Some entry"
  shows "targets g (adj_out entry) = arc_rel g `` {u}"
  unfolding targets_def out_list [OF assms] by (force simp: arc_rel_slots)

lemma set_adj_out:
  assumes "digraph_ok g" "slot (dg_nodes g) u = Some entry"
  shows "set (adj_out entry) = edges_from g {u}" "distinct (adj_out entry)"
  using assms out_list [OF assms] by (auto simp: edges_from_def digraph_ok_def lists_ok_def)

lemma into_adj_in:
  assumes "digraph_ok g" "slot (dg_nodes g) v = Some entry"
  shows "length (adj_in entry) = card (into g v)"
proof -
  have "set (adj_in entry) = into g v" using in_list [OF assms] by (auto simp: into_def)
  moreover have "distinct (adj_in entry)" using assms by (auto simp: digraph_ok_def lists_ok_def)
  ultimately show ?thesis using distinct_card by metis
qed

section \<open>Path search decides reachability\<close>

lemma visit_spec:
  assumes "\<forall>e \<in> set out. \<exists>en. slot (dg_edges g) e = Some en \<and> ee_target en < length visited"
  shows "if to \<in> targets g out then visit g to out visited queue = Some (Inl ())
    else \<exists>visited' new. visit g to out visited queue = Some (Inr (visited', queue @ new))
      \<and> length visited' = length visited
      \<and> (\<forall>w < length visited. visited' ! w \<longleftrightarrow> visited ! w \<or> w \<in> targets g out)
      \<and> set new = {w \<in> targets g out. \<not> visited ! w}"
  using assms
proof (induction out arbitrary: visited queue)
  case Nil
  then show ?case by (simp add: targets_def)
next
  case (Cons e out)
  then obtain en where en: "slot (dg_edges g) e = Some en" "ee_target en < length visited" by auto
  let ?w = "ee_target en"
  have t: "targets g (e # out) = insert ?w (targets g out)" using en by (auto simp: targets_def)
  consider "?w = to" | "?w \<noteq> to" "\<not> visited ! ?w" | "?w \<noteq> to" "visited ! ?w" by blast
  then show ?case
  proof cases
    case 1
    then show ?thesis using en t by simp
  next
    case 2
    have "\<forall>e \<in> set out. \<exists>en. slot (dg_edges g) e = Some en \<and> ee_target en < length (visited[?w := True])"
      using Cons.prems by auto
    from Cons.IH [OF this, of "queue @ [?w]"] show ?thesis
    proof (cases "to \<in> targets g out")
      case False
      with Cons.IH [OF \<open>\<forall>e \<in> set out. _ e\<close>, of "queue @ [?w]"] obtain visited' new where
          v: "visit g to out (visited[?w := True]) (queue @ [?w]) = Some (Inr (visited', (queue @ [?w]) @ new))"
            "length visited' = length visited"
            "\<forall>w < length visited. visited' ! w \<longleftrightarrow> visited[?w := True] ! w \<or> w \<in> targets g out"
            "set new = {w \<in> targets g out. \<not> visited[?w := True] ! w}"
        by auto
      have "visit g to (e # out) visited queue = Some (Inr (visited', queue @ (?w # new)))"
        using 2 en v(1) by (simp add: at_def)
      moreover have "\<forall>w < length visited. visited' ! w \<longleftrightarrow> visited ! w \<or> w \<in> targets g (e # out)"
        using v(3) en(2) unfolding t by (auto simp: nth_list_update)
      moreover have "set (?w # new) = {w \<in> targets g (e # out). \<not> visited ! w}"
        using v(4) en(2) 2(2) unfolding t by (auto simp: nth_list_update)
      ultimately show ?thesis using False 2(1) v(2) unfolding t by auto
    qed (use 2 en t in \<open>simp add: at_def\<close>)
  next
    case 3
    then show ?thesis using Cons.IH [of visited queue] Cons.prems en t by (auto simp: at_def)
  qed
qed

definition bfs_inv :: "('n, 'e) DiGraph \<Rightarrow> nat \<Rightarrow> nat \<Rightarrow> bool list \<Rightarrow> nat list \<Rightarrow> bool" where
  "bfs_inv g from to visited queue \<longleftrightarrow>
     length visited = length (dg_nodes g) \<and> from < length visited \<and> visited ! from \<and>
     (\<forall>w < length visited. visited ! w \<longrightarrow> w \<in> live g \<and> w \<noteq> to \<and> (from, w) \<in> (arc_rel g)\<^sup>*
        \<and> (w \<notin> set queue \<longrightarrow> (\<forall>x. (w, x) \<in> arc_rel g \<longrightarrow> x < length visited \<and> visited ! x))) \<and>
     (\<forall>w \<in> set queue. w < length visited \<and> visited ! w)"

lemma bfs_invD:
  assumes "bfs_inv g from to visited queue"
  shows "length visited = length (dg_nodes g)" "from < length visited" "visited ! from"
    "w < length visited \<Longrightarrow> visited ! w \<Longrightarrow> w \<in> live g" "w < length visited \<Longrightarrow> visited ! w \<Longrightarrow> w \<noteq> to"
    "w < length visited \<Longrightarrow> visited ! w \<Longrightarrow> (from, w) \<in> (arc_rel g)\<^sup>*"
    "\<lbrakk>w < length visited; visited ! w; w \<notin> set queue; (w, x) \<in> arc_rel g\<rbrakk> \<Longrightarrow> x < length visited \<and> visited ! x"
    "w \<in> set queue \<Longrightarrow> w < length visited \<and> visited ! w"
  using assms unfolding bfs_inv_def by blast+

lemma bfs_inv_unreachable:
  assumes "bfs_inv g from to visited []"
  shows "(from, to) \<notin> (arc_rel g)\<^sup>*"
proof
  assume "(from, to) \<in> (arc_rel g)\<^sup>*"
  then have "to < length visited \<and> visited ! to"
  proof (induction rule: rtrancl_induct)
    case base
    show ?case using bfs_invD(2,3) [OF assms] by blast
  next
    case (step w x)
    then show ?case using bfs_invD(7) [OF assms, of w x] by simp
  qed
  then show False using bfs_invD(5) [OF assms, of to] by blast
qed

lemma bfs_inv_step:
  assumes "digraph_ok g" "bfs_inv g from to visited (u # queue)" "to \<notin> arc_rel g `` {u}"
    and "length visited' = length visited" "\<forall>w < length visited. visited' ! w \<longleftrightarrow> visited ! w \<or> (u, w) \<in> arc_rel g"
    and "set new = {w. (u, w) \<in> arc_rel g \<and> \<not> visited ! w}"
  shows "bfs_inv g from to visited' (queue @ new)"
proof -
  note D = bfs_invD [OF assms(2)]
  have u: "u < length visited" "visited ! u" using D(8) by auto
  have succ: "x \<in> live g \<and> x < length visited \<and> x \<noteq> to \<and> (from, x) \<in> (arc_rel g)\<^sup>*" if "(u, x) \<in> arc_rel g" for x
  proof -
    have "x \<in> live g" using arc_rel_live [OF assms(1)] that by auto
    then show ?thesis using D(1) D(6) [of u] u that live_less [of x g] assms(3) by (auto intro: rtrancl_into_rtrancl)
  qed
  have "x < length visited' \<and> visited' ! x"
    if w: "w < length visited'" "visited' ! w" "w \<notin> set (queue @ new)" "(w, x) \<in> arc_rel g" for w x
  proof (cases "w = u")
    case True
    then show ?thesis using succ [of x] w assms(4,5) by simp
  next
    case False
    then have "visited ! w" using w assms(4,5,6) by auto
    then show ?thesis using D(7) [of w x] w False assms(4,5) by auto
  qed
  moreover have "w \<in> live g \<and> w \<noteq> to \<and> (from, w) \<in> (arc_rel g)\<^sup>*" if "w < length visited'" "visited' ! w" for w
    using that assms(4,5) succ [of w] D(4-6) [of w] by auto
  moreover have "w < length visited' \<and> visited' ! w" if "w \<in> set (queue @ new)" for w
    using that assms(4-6) succ [of w] D(8) [of w] by auto
  ultimately show ?thesis unfolding bfs_inv_def using D(1-3) assms(4,5) by auto
qed

lemma bfs_loop_correct:
  assumes "digraph_ok g" "bfs_inv g from to visited queue"
  shows "bfs_loop g to visited queue = Some ((from, to) \<in> (arc_rel g)\<^sup>*)"
  using assms
proof (induction g to visited queue rule: bfs_loop.induct)
  case (1 g to visited)
  then show ?case using bfs_inv_unreachable by simp
next
  case (2 g to visited u queue)
  note D = bfs_invD [OF 2(4)]
  have u: "u < length visited" "visited ! u" "u \<in> live g" using D(8) [of u] D(4) [of u] by auto
  then obtain entry where entry: "slot (dg_nodes g) u = Some entry" by (auto simp: live_def)
  note T = targets_adj_out [OF 2(3) entry]
  have "\<forall>e \<in> set (adj_out entry). \<exists>en. slot (dg_edges g) e = Some en \<and> ee_target en < length visited"
    using out_list [OF 2(3) entry] slot_ends(2) [OF 2(3)] live_less [where g = g] D(1) by metis
  note V = visit_spec [OF this, of to queue, unfolded T]
  show ?case
  proof (cases "to \<in> arc_rel g `` {u}")
    case True
    then have "(from, to) \<in> (arc_rel g)\<^sup>*" using D(6) [OF u(1,2)] by (auto intro: rtrancl_into_rtrancl)
    then show ?thesis using V True entry by simp
  next
    case False
    with V obtain visited' new where v: "visit g to (adj_out entry) visited queue = Some (Inr (visited', queue @ new))"
        "length visited' = length visited" "\<forall>w < length visited. visited' ! w \<longleftrightarrow> visited ! w \<or> (u, w) \<in> arc_rel g"
        "set new = {w. (u, w) \<in> arc_rel g \<and> \<not> visited ! w}"
      by (auto simp: Image_def)
    note inv = bfs_inv_step [OF 2(3,4) False v(2-4)]
    show ?thesis using 2(2) [OF entry v(1) refl refl 2(3) inv] entry v(1) by simp
  qed
qed

lemma has_path_decides:
  assumes "digraph_ok g" "from < length (dg_nodes g)" "to < length (dg_nodes g)"
  shows "has_path_connecting g from to
    = Some (from \<in> live g \<and> to \<in> live g \<and> (from, to) \<in> (arc_rel g)\<^sup>*)"
proof (cases "from \<in> live g \<and> to \<in> live g \<and> from \<noteq> to")
  case True
  have "bfs_inv g from to ((replicate (length (dg_nodes g)) False)[from := True]) [from]"
    unfolding bfs_inv_def using True assms(2) by (auto simp: nth_list_update split: if_splits)
  from bfs_loop_correct [OF assms(1) this] show ?thesis
    using True assms(2,3) by (auto simp: has_path_connecting_def at_def live_def slot_def)
next
  case False
  then show ?thesis using assms(2,3) by (auto simp: has_path_connecting_def at_def live_def slot_def)
qed

text \<open>
  \<open>has_path_connecting\<close> decides reachability: for two nodes of the graph it returns, without indexing out of
  range, whether a directed path (possibly empty) leads from the first to the second; for a removed
  node it answers \<open>False\<close>.
\<close>

theorem has_path_connecting_exact:
  assumes "digraph_ok g" "from < length (dg_nodes g)" "to < length (dg_nodes g)"
  shows "has_path_connecting g from to
    = Some (from \<in> live g \<and> to \<in> live g \<and> (from, to) \<in> (arc_rel g)\<^sup>*)"
  by (rule has_path_decides [OF assms])

section \<open>Topological sort\<close>

definition topo_list :: "('n, 'e) DiGraph \<Rightarrow> nat list \<Rightarrow> bool" where
  "topo_list g vs \<longleftrightarrow> (\<forall>xs v ys. vs = xs @ v # ys \<longrightarrow> (\<forall>s. (s, v) \<in> arc_rel g \<longrightarrow> s \<in> set xs))"

text \<open>The state of the loop when the edges \<open>P\<close> have been processed.\<close>

definition topo_inv :: "('n, 'e) DiGraph \<Rightarrow> nat set \<Rightarrow> nat list \<Rightarrow> nat list \<Rightarrow> nat list \<Rightarrow> bool" where
  "topo_inv g P deg stack result \<longleftrightarrow>
     length deg = length (dg_nodes g) \<and> (\<forall>v \<in> live g. deg ! v = card (into g v - P)) \<and>
     distinct (stack @ result) \<and> set stack \<union> set result = {v \<in> live g. deg ! v = 0} \<and>
     P \<subseteq> edges_from g (set result) \<and> topo_list g result"

lemma topo_invD:
  assumes "topo_inv g P deg stack result"
  shows "length deg = length (dg_nodes g)" "v \<in> live g \<Longrightarrow> deg ! v = card (into g v - P)"
    "distinct (stack @ result)" "set stack \<union> set result = {v \<in> live g. deg ! v = 0}"
    "P \<subseteq> edges_from g (set result)" "topo_list g result"
  using assms by (simp_all add: topo_inv_def)

lemma topo_inv_edge:
  assumes ok: "digraph_ok g" and inv: "topo_inv g P deg stack result"
    and e: "slot (dg_edges g) e = Some en" "ee_source en \<in> set result" "e \<notin> P"
  defines "v \<equiv> ee_target en"
  defines "deg' \<equiv> deg[v := deg ! v - 1]"
  shows "v < length deg" "0 < deg ! v"
    and "topo_inv g (insert e P) deg' (if deg' ! v = 0 then v # stack else stack) result"
proof -
  note D = topo_invD [OF inv]
  have v: "v \<in> live g" "e \<in> into g v - P" using slot_ends [OF ok e(1)] e by (auto simp: v_def into_def)
  show len: "v < length deg" using D(1) live_less [OF v(1)] by simp
  have card: "deg ! v = Suc (card (into g v - insert e P))"
    using D(2) [OF v(1)] card.remove [OF _ v(2)] finite_into [of g v] by (simp add: Diff_insert [symmetric])
  then show "0 < deg ! v" by simp
  have other: "into g w - insert e P = into g w - P" if "w \<noteq> v" for w
    using e(1) that by (auto simp: into_def v_def)
  have degs: "\<forall>w \<in> live g. deg' ! w = card (into g w - insert e P)"
    using D(2) card other len by (auto simp: deg'_def nth_list_update)
  have fresh: "v \<notin> set stack \<union> set result" using D(4) card by auto
  have "deg' ! w = (if w = v then deg ! v - 1 else deg ! w)" for w
    using len by (simp add: deg'_def nth_list_update)
  then have "{w \<in> live g. deg' ! w = 0} = (if deg ! v - 1 = 0 then {v} else {}) \<union> {w \<in> live g. deg ! w = 0}"
    using v(1) card by auto
  then have "set (if deg' ! v = 0 then v # stack else stack) \<union> set result = {w \<in> live g. deg' ! w = 0}"
    unfolding D(4) [symmetric] using len by (simp add: deg'_def)
  moreover have "insert e P \<subseteq> edges_from g (set result)" using D(5) e by (auto simp: edges_from_def)
  moreover have "length deg' = length (dg_nodes g)" using D(1) by (simp add: deg'_def)
  ultimately show "topo_inv g (insert e P) deg' (if deg' ! v = 0 then v # stack else stack) result"
    unfolding topo_inv_def using degs fresh D(3,6) by auto
qed

lemma relax_correct:
  assumes "digraph_ok g" "topo_inv g P deg stack result" "distinct out" "set out \<inter> P = {}"
    and "set out \<subseteq> edges_from g (set result)"
  shows "\<exists>deg' stack'. relax g out deg stack = Some (deg', stack') \<and> topo_inv g (P \<union> set out) deg' stack' result"
  using assms(2-5)
proof (induction out arbitrary: P deg stack)
  case Nil
  then show ?case by simp
next
  case (Cons e out)
  then obtain en where e: "slot (dg_edges g) e = Some en" "ee_source en \<in> set result" "e \<notin> P"
    by (auto simp: edges_from_def)
  note E = topo_inv_edge [OF assms(1) Cons.prems(1) e]
  from Cons.IH [OF E(3)] Cons.prems show ?case
    using E(1,2) e by (auto simp: at_def Let_def Un_insert_left)
qed

lemma topo_inv_pop:
  assumes "topo_inv g P deg (u # stack) result" "P = edges_from g (set result)"
  shows "topo_inv g P deg stack (result @ [u])" "u \<in> live g" "edges_from g {u} \<inter> P = {}"
proof -
  note D = topo_invD [OF assms(1)]
  show u: "u \<in> live g" using D(4) by auto
  have "card (into g u - P) = 0" using D(2) [OF u] D(4) by force
  then have "into g u \<subseteq> P" using finite_into [of g u] by simp
  then have preds: "s \<in> set result" if "(s, u) \<in> arc_rel g" for s
    using that assms(2) by (force simp: arc_rel_slots into_def edges_from_def)
  have "topo_list g (result @ [u])"
    using D(6) preds unfolding topo_list_def by (auto simp: append_eq_append_conv2 append_eq_Cons_conv Cons_eq_append_conv)
  then show "topo_inv g P deg stack (result @ [u])"
    unfolding topo_inv_def using D by (auto simp: edges_from_def)
  show "edges_from g {u} \<inter> P = {}" using D(3) assms(2) by (auto simp: edges_from_def)
qed

lemma topo_loop_correct:
  assumes "digraph_ok g" "topo_inv g (edges_from g (set result)) deg stack result"
  shows "\<exists>deg' result'. topo_loop g deg stack result = Some (deg', result')
    \<and> topo_inv g (edges_from g (set result')) deg' [] result'"
  using assms
proof (induction g deg stack result rule: topo_loop.induct)
  case (2 g deg u stack result)
  note P = topo_inv_pop [OF 2(4) refl]
  obtain entry where entry: "slot (dg_nodes g) u = Some entry" using P(2) by (auto simp: live_def)
  have un: "edges_from g (set result) \<union> edges_from g {u} = edges_from g (set (result @ [u]))"
    by (auto simp: edges_from_def)
  obtain deg' stack' where r: "relax g (adj_out entry) deg stack = Some (deg', stack')"
      "topo_inv g (edges_from g (set (result @ [u]))) deg' stack' (result @ [u])"
    using relax_correct [OF 2(3) P(1), of "adj_out entry"] set_adj_out [OF 2(3) entry] P(3) un
    by (auto simp: edges_from_def)
  show ?case using 2(2) [OF entry r(1) refl 2(3) r(2)] entry r(1) by simp
qed simp

lemma topo_start:
  assumes "digraph_ok g"
  shows "topo_inv g (edges_from g {}) (in_degrees g) (topo_seeds g (in_degrees g)) []"
proof -
  have deg: "in_degrees g ! v = card (into g v)" if "v \<in> live g" for v
    using that into_adj_in [OF assms, of v] live_less [OF that]
    by (auto simp: in_degrees_def live_def split: option.splits)
  have "set (topo_seeds g (in_degrees g)) = {v \<in> live g. in_degrees g ! v = 0}"
    by (auto simp: topo_seeds_def live_def dest: slot_Some_less)
  moreover have "distinct (topo_seeds g (in_degrees g) @ [])" by (simp add: topo_seeds_def)
  moreover have "length (in_degrees g) = length (dg_nodes g)" by (simp add: in_degrees_def)
  ultimately show ?thesis
    unfolding topo_inv_def by (simp add: deg edges_from_def topo_list_def)
qed

lemma back_walk:
  assumes "finite r" "v \<in> B" "\<And>b. b \<in> B \<Longrightarrow> \<exists>a \<in> B. (a, b) \<in> r"
  shows "\<exists>c. (c, c) \<in> r\<^sup>+ \<and> (c, v) \<in> r\<^sup>*"
proof (rule ccontr)
  assume no: "\<not> ?thesis"
  let ?A = "{b \<in> B. (b, v) \<in> r\<^sup>*}" and ?q = "r \<inter> {(a, b). (b, v) \<in> r\<^sup>*}"
  have "acyclic ?q"
  proof (rule acyclicI, rule allI, rule notI)
    fix c assume c: "(c, c) \<in> ?q\<^sup>+"
    then have "(c, v) \<in> r\<^sup>*" by (auto elim: tranclE)
    moreover have "(c, c) \<in> r\<^sup>+" using c by (rule trancl_mono) blast
    ultimately show False using no by blast
  qed
  then have "wf ?q" using assms(1) by (intro finite_acyclic_wf) simp_all
  moreover have "v \<in> ?A" using assms(2) by simp
  ultimately obtain m where m: "m \<in> ?A" "\<And>y. (y, m) \<in> ?q \<Longrightarrow> y \<notin> ?A" by (erule wfE_min)
  obtain a where a: "a \<in> B" "(a, m) \<in> r" using assms(3) [of m] m(1) by blast
  then have "a \<in> ?A" using m(1) by (auto intro: converse_rtrancl_into_rtrancl)
  then show False using m a by blast
qed

lemma topo_list_before:
  assumes "topo_list g vs" "distinct vs" "t \<in> set vs" "(s, t) \<in> arc_rel g"
  shows "\<exists>xs ys zs. vs = xs @ s # ys @ t # zs"
proof -
  obtain xs zs where vs: "vs = xs @ t # zs" using assms(3) by (meson split_list)
  then have "s \<in> set xs" using assms(1,4) unfolding topo_list_def by blast
  then obtain x1 x2 where "xs = x1 @ s # x2" by (meson split_list)
  then show ?thesis using vs by auto
qed

lemma takeWhile_before: "x \<notin> set xs \<Longrightarrow> takeWhile (\<lambda>y. y \<noteq> x) (xs @ x # ys) = xs"
  by (induction xs) auto

lemma topo_list_acyclic:
  assumes "topo_list g vs" "distinct vs" "arc_rel g \<subseteq> set vs \<times> set vs"
  shows "acyclic (arc_rel g)"
proof -
  let ?pos = "\<lambda>v. length (takeWhile (\<lambda>x. x \<noteq> v) vs)"
  have "?pos s < ?pos t" if st: "(s, t) \<in> arc_rel g" for s t
  proof -
    obtain xs ys zs where vs: "vs = xs @ s # ys @ t # zs"
      using topo_list_before [OF assms(1,2) _ st] assms(3) st by blast
    then have "s \<noteq> t" "s \<notin> set xs" "t \<notin> set xs" "t \<notin> set ys" using assms(2) by auto
    then have "takeWhile (\<lambda>x. x \<noteq> s) vs = xs" "takeWhile (\<lambda>x. x \<noteq> t) vs = xs @ s # ys"
      using takeWhile_before [of s xs] takeWhile_before [of t "xs @ s # ys" zs] by (auto simp: vs)
    then show ?thesis by simp
  qed
  then have "acyclic ((arc_rel g)\<inverse>)" by (intro acyclicI_order [where f = ?pos]) auto
  then show ?thesis by simp
qed

lemma toposort_result:
  assumes "digraph_ok g"
  obtains deg result where
    "topo_loop g (in_degrees g) (topo_seeds g (in_degrees g)) [] = Some (deg, result)"
    "distinct result" "topo_list g result" "set result \<subseteq> live g"
    "\<And>v. v \<in> live g \<Longrightarrow> v \<in> set result \<longleftrightarrow> deg ! v = 0"
    "\<And>v. v \<in> live g - set result \<Longrightarrow> \<exists>u \<in> live g - set result. (u, v) \<in> arc_rel g"
    "length result = num_nodes g \<longleftrightarrow> set result = live g"
proof -
  obtain deg result where r: "topo_loop g (in_degrees g) (topo_seeds g (in_degrees g)) [] = Some (deg, result)"
      "topo_inv g (edges_from g (set result)) deg [] result"
    using topo_loop_correct [OF assms, of "[]" "in_degrees g" "topo_seeds g (in_degrees g)"] topo_start [OF assms] by auto
  note D = topo_invD [OF r(2)]
  have sub: "set result \<subseteq> live g" using D(4) by auto
  have "\<exists>u \<in> live g - set result. (u, v) \<in> arc_rel g" if v: "v \<in> live g - set result" for v
  proof -
    have "card (into g v - edges_from g (set result)) \<noteq> 0" using D(2) [of v] D(4) v by auto
    then have "into g v - edges_from g (set result) \<noteq> {}" by (metis card.empty)
    then obtain e where "e \<in> into g v - edges_from g (set result)" by blast
    then obtain en where "slot (dg_edges g) e = Some en" "ee_target en = v" "ee_source en \<notin> set result"
      by (auto simp: into_def edges_from_def)
    then show ?thesis using slot_ends [OF assms] by (auto simp: arc_rel_slots)
  qed
  moreover have "length result = num_nodes g \<longleftrightarrow> set result = live g"
    using assms D(3) sub distinct_card [of result] card_subset_eq [OF finite_live sub] by (auto simp: digraph_ok_def)
  ultimately show ?thesis using that [OF r(1)] D(3,4,6) sub by auto
qed

text \<open>A listing of the nodes \<open>V\<close> in which the source of every edge of \<open>r\<close> comes before its target.\<close>

definition topo_order :: "('a \<times> 'a) set \<Rightarrow> 'a set \<Rightarrow> 'a list \<Rightarrow> bool" where
  "topo_order r V order \<longleftrightarrow> distinct order \<and> set order = V
     \<and> (\<forall>s t. (s, t) \<in> r \<longrightarrow> (\<exists>xs ys zs. order = xs @ s # ys @ t # zs))"

lemma toposort_cases:
  assumes "digraph_ok g"
  shows "if acyclic (arc_rel g) then \<exists>order. toposort g = Some (Inr order) \<and> topo_order (arc_rel g) (live g) order
    else \<exists>v c. toposort g = Some (Inl v) \<and> v \<in> live g \<and> (c, c) \<in> (arc_rel g)\<^sup>+ \<and> (c, v) \<in> (arc_rel g)\<^sup>*"
proof -
  obtain deg result where r: "topo_loop g (in_degrees g) (topo_seeds g (in_degrees g)) [] = Some (deg, result)"
      "distinct result" "topo_list g result" "set result \<subseteq> live g"
      "\<And>v. v \<in> live g \<Longrightarrow> v \<in> set result \<longleftrightarrow> deg ! v = 0"
      "\<And>v. v \<in> live g - set result \<Longrightarrow> \<exists>u \<in> live g - set result. (u, v) \<in> arc_rel g"
      "length result = num_nodes g \<longleftrightarrow> set result = live g"
    using toposort_result [OF assms] by metis
  note walk = back_walk [OF finite_arc_rel [OF assms], of _ "live g - set result", OF _ r(6)]
  show ?thesis
  proof (cases "set result = live g")
    case True
    have "acyclic (arc_rel g)"
      using topo_list_acyclic [OF r(3,2)] arc_rel_live [OF assms] True by simp
    moreover have "toposort g = Some (Inr result)" using r(1,7) True by (simp add: toposort_def)
    moreover have "\<exists>xs ys zs. result = xs @ s # ys @ t # zs" if "(s, t) \<in> arc_rel g" for s t
      using topo_list_before [OF r(3,2) _ that] arc_rel_live [OF assms] that True by auto
    ultimately show ?thesis using r(2) True by (auto simp: topo_order_def)
  next
    case False
    let ?left = "\<lambda>i. slot (dg_nodes g) i \<noteq> None \<and> deg ! i > 0"
    have "\<exists>i \<in> set [0..<length (dg_nodes g)]. ?left i"
      using False r(4,5) live_less [of _ g] by (force simp: live_def)
    then have "List.find ?left [0..<length (dg_nodes g)] \<noteq> None" unfolding find_None_iff by blast
    then obtain v where v: "List.find ?left [0..<length (dg_nodes g)] = Some v" by blast
    then have "v \<in> live g - set result" using r(5) by (auto simp: live_def dest!: find_Some_mem)
    moreover have "toposort g = Some (Inl v)" using r(1,7) False v by (simp add: toposort_def)
    ultimately show ?thesis using walk [of v] by (auto simp: acyclic_def)
  qed
qed

text \<open>
  \<open>toposort\<close> returns on every graph. On an acyclic graph it returns all nodes, each once, with the
  source of every edge before its target; on a cyclic graph it returns an error with a node that a
  cycle reaches.
\<close>

theorem toposort_exact:
  assumes "digraph_ok g"
  shows "if acyclic (arc_rel g)
    then \<exists>order. toposort g = Some (Inr order) \<and> distinct order \<and> set order = live g
      \<and> (\<forall>s t. (s, t) \<in> arc_rel g \<longrightarrow> (\<exists>xs ys zs. order = xs @ s # ys @ t # zs))
    else \<exists>v c. toposort g = Some (Inl v) \<and> v \<in> live g \<and> (c, c) \<in> (arc_rel g)\<^sup>+ \<and> (c, v) \<in> (arc_rel g)\<^sup>*"
  using toposort_cases [OF assms] unfolding topo_order_def .

theorem toposort_exact_witness:
  "\<exists>order. toposort demo_graph = Some (Inr order) \<and> distinct order \<and> set order = live demo_graph"
proof -
  have "arc_rel demo_graph \<subseteq> {(0, 1), (1, 2)}"
  proof -
    have "dg_edges demo_graph = [Some \<lparr>ee_weight = ''ab'', ee_source = 0, ee_target = 1\<rparr>,
        Some \<lparr>ee_weight = ''bc'', ee_source = 1, ee_target = 2\<rparr>]" by code_simp
    then show ?thesis by (auto simp: arc_rel_slots slot_def less_Suc_eq nth_Cons split: nat.splits if_splits)
  qed
  then have "acyclic ((arc_rel demo_graph)\<inverse>)" by (intro acyclicI_order [where f = id]) auto
  then show ?thesis using toposort_exact [OF demo_graph_ok] by (auto simp del: id_apply)
qed

theorem has_path_connecting_exact_witness:
  "has_path_connecting demo_graph 0 2 = Some True \<and> (0, 2) \<in> (arc_rel demo_graph)\<^sup>*"
proof -
  have "has_path_connecting demo_graph 0 2 = Some True" "length (dg_nodes demo_graph) = 3" by code_simp+
  then show ?thesis using has_path_connecting_exact [OF demo_graph_ok, of 0 2] by simp
qed

text \<open>
  The documented contract of \<open>toposort\<close> promises more than this: the error node is described as one on a cycle,
  and the seeds as explored smallest slot first.
\<close>

definition tail_graph :: "(unit, unit) DiGraph" where
  "tail_graph = fold dg_step [AddNode (), AddNode (), AddNode (), AddEdge 1 2 (), AddEdge 2 1 (), AddEdge 1 0 ()] digraph_new"

lemma toposort_error_off_cycle:
  "toposort tail_graph = Some (Inl 0)" "neighbors tail_graph 0 = []"
  by code_simp+

lemma toposort_seeds_largest_first:
  "toposort (fold dg_step [AddNode (), AddNode ()] digraph_new :: (unit, unit) DiGraph) = Some (Inr [1, 0])"
  by code_simp

text \<open>An index that never named a node is connected to itself.\<close>

lemma path_beyond_slots: "has_path_connecting (digraph_new :: (unit, unit) DiGraph) 5 5 = Some True"
  by code_simp

end
