(* ===== verification/Scg_Tarjan.thy ===== *)
theory Scg_Tarjan
  imports Scg_Toposort
begin

text \<open>
  Tarjan's algorithm as \<^verbatim>\<open>scg/src/digraph.rs\<close> has it: \<open>tarjan_scc\<close> and the recursive \<open>tarjan_strongconnect\<close>, with the
  DFS index as a \<^verbatim>\<open>u32\<close> counter. The recursion carries a fuel that bounds its depth: every
  nested call is on a node not yet indexed, so the number of node slots is enough, and the main theorem states that the
  result is there. A panic (an index out of range, a pop from the empty stack) is \<open>None\<close>.
\<close>

section \<open>The algorithm\<close>

record TarjanState =
  index_counter :: u32
  tj_stack :: "nat list"
  on_stack :: "bool list"
  indices :: "u32 option list"
  lowlinks :: "u32 list"
  sccs :: "nat list list"

text \<open>The pops of one component, down to its root \<open>v\<close>.\<close>

fun pop_component :: "nat \<Rightarrow> nat list \<Rightarrow> bool list \<Rightarrow> nat list \<Rightarrow> (nat list \<times> bool list \<times> nat list) option" where
  "pop_component v [] on component = None"
| "pop_component v (w # stack) on component =
     (if w < length on then
        let on' = on[w := False]; component' = component @ [w]
        in if w = v then Some (stack, on', component') else pop_component v stack on' component'
      else None)"

definition lower :: "nat \<Rightarrow> u32 \<Rightarrow> TarjanState \<Rightarrow> TarjanState" where
  "lower v l st = st\<lparr>lowlinks := (lowlinks st)[v := min (lowlinks st ! v) l]\<rparr>"

text \<open>The loop over the outgoing edges of \<open>v\<close>; \<open>rec\<close> is the recursive call.\<close>

fun connect_edges :: "(nat \<Rightarrow> TarjanState \<Rightarrow> TarjanState option) \<Rightarrow> ('n, 'e) DiGraph \<Rightarrow> nat \<Rightarrow> nat list \<Rightarrow>
    TarjanState \<Rightarrow> TarjanState option" where
  "connect_edges rec g v [] st = Some st"
| "connect_edges rec g v (eidx # out) st =
     (case slot (dg_edges g) eidx of
        None \<Rightarrow> connect_edges rec g v out st
      | Some en \<Rightarrow>
          let w = ee_target en in
          (case at (indices st) w of
             None \<Rightarrow> None
           | Some None \<Rightarrow>
               (case rec w st of
                  None \<Rightarrow> None
                | Some st' \<Rightarrow> connect_edges rec g v out (lower v (lowlinks st' ! w) st'))
           | Some (Some i) \<Rightarrow> connect_edges rec g v out (if on_stack st ! w then lower v i st else st)))"

definition discover :: "nat \<Rightarrow> TarjanState \<Rightarrow> TarjanState" where
  "discover v st = st\<lparr>indices := (indices st)[v := Some (index_counter st)],
     lowlinks := (lowlinks st)[v := index_counter st], index_counter := index_counter st + 1,
     tj_stack := v # tj_stack st, on_stack := (on_stack st)[v := True]\<rparr>"

definition close_component :: "nat \<Rightarrow> TarjanState \<Rightarrow> TarjanState option" where
  "close_component v st =
     (if Some (lowlinks st ! v) = indices st ! v
      then (case pop_component v (tj_stack st) (on_stack st) [] of
              None \<Rightarrow> None
            | Some (stack, on, component) \<Rightarrow>
                Some (st\<lparr>tj_stack := stack, on_stack := on, sccs := sccs st @ [component]\<rparr>))
      else Some st)"

primrec tarjan_strongconnect :: "nat \<Rightarrow> ('n, 'e) DiGraph \<Rightarrow> nat \<Rightarrow> TarjanState \<Rightarrow> TarjanState option" where
  "tarjan_strongconnect 0 g v st = None"
| "tarjan_strongconnect (Suc fuel) g v st =
     (if v < length (indices st) then
        (case (case slot (dg_nodes g) v of
                 None \<Rightarrow> Some (discover v st)
               | Some entry \<Rightarrow> connect_edges (tarjan_strongconnect fuel g) g v (adj_out entry) (discover v st)) of
           None \<Rightarrow> None
         | Some st' \<Rightarrow> close_component v st')
      else None)"

fun tarjan_roots :: "('n, 'e) DiGraph \<Rightarrow> nat list \<Rightarrow> TarjanState \<Rightarrow> TarjanState option" where
  "tarjan_roots g [] st = Some st"
| "tarjan_roots g (start # rest) st =
     (if indices st ! start = None
      then (case tarjan_strongconnect (length (dg_nodes g)) g start st of
              None \<Rightarrow> None | Some st' \<Rightarrow> tarjan_roots g rest st')
      else tarjan_roots g rest st)"

definition tarjan_init :: "('n, 'e) DiGraph \<Rightarrow> TarjanState" where
  "tarjan_init g = (let n = length (dg_nodes g) in
     \<lparr>index_counter = 0, tj_stack = [], on_stack = replicate n False, indices = replicate n None,
      lowlinks = replicate n 0, sccs = []\<rparr>)"

definition tarjan_scc :: "('n, 'e) DiGraph \<Rightarrow> nat list list option" where
  "tarjan_scc g = map_option sccs (tarjan_roots g (node_indices g) (tarjan_init g))"

section \<open>Invariants\<close>

definition index_of :: "TarjanState \<Rightarrow> nat \<Rightarrow> u32 option" where
  "index_of st v = slot (indices st) v"

definition dfs_num :: "TarjanState \<Rightarrow> nat \<Rightarrow> u32" where
  "dfs_num st v = the (index_of st v)"

definition visited :: "TarjanState \<Rightarrow> nat set" where
  "visited st = {v. index_of st v \<noteq> None}"

definition done_nodes :: "nat list list \<Rightarrow> nat set" where
  "done_nodes cs = set (concat cs)"

definition scc_of :: "(nat \<times> nat) set \<Rightarrow> nat \<Rightarrow> nat set" where
  "scc_of r u = {w. (u, w) \<in> r\<^sup>* \<and> (w, u) \<in> r\<^sup>*}"

text \<open>Components found so far: strongly connected, disjoint, and every prefix is closed under edges.\<close>

definition comps_ok :: "(nat \<times> nat) set \<Rightarrow> nat list list \<Rightarrow> bool" where
  "comps_ok r cs \<longleftrightarrow> distinct (concat cs) \<and> (\<forall>c \<in> set cs. c \<noteq> [] \<and> (\<forall>u \<in> set c. set c = scc_of r u))
     \<and> (\<forall>k. r `` done_nodes (take k cs) \<subseteq> done_nodes (take k cs))"

definition state_ok :: "('n, 'e) DiGraph \<Rightarrow> TarjanState \<Rightarrow> bool" where
  "state_ok g st \<longleftrightarrow>
     length (indices st) = length (dg_nodes g) \<and> length (lowlinks st) = length (dg_nodes g) \<and>
     length (on_stack st) = length (dg_nodes g) \<and> visited st \<subseteq> live g \<and>
     unat (index_counter st) = card (visited st) \<and> (\<forall>v \<in> visited st. dfs_num st v < index_counter st) \<and>
     (\<forall>v < length (dg_nodes g). on_stack st ! v \<longleftrightarrow> v \<in> set (tj_stack st)) \<and>
     sorted_wrt (\<lambda>x y. dfs_num st y < dfs_num st x) (tj_stack st) \<and>
     visited st = set (tj_stack st) \<union> done_nodes (sccs st) \<and> set (tj_stack st) \<inter> done_nodes (sccs st) = {} \<and>
     comps_ok (arc_rel g) (sccs st)"

text \<open>\<open>G\<close> is the set of nodes whose calls are active.\<close>

definition paths_ok :: "(nat \<times> nat) set \<Rightarrow> nat set \<Rightarrow> TarjanState \<Rightarrow> bool" where
  "paths_ok r G st \<longleftrightarrow> G \<subseteq> set (tj_stack st) \<and>
     (\<forall>x \<in> visited st - G. r `` {x} \<subseteq> visited st) \<and>
     (\<forall>a \<in> G. \<forall>y \<in> set (tj_stack st). dfs_num st a \<le> dfs_num st y \<longrightarrow> (a, y) \<in> r\<^sup>*) \<and>
     (\<forall>y \<in> set (tj_stack st). \<exists>a \<in> G. dfs_num st a \<le> dfs_num st y \<and> (y, a) \<in> r\<^sup>*)"

definition extends :: "TarjanState \<Rightarrow> TarjanState \<Rightarrow> bool" where
  "extends st st' \<longleftrightarrow> (\<exists>new. tj_stack st' = new @ tj_stack st) \<and>
     (\<forall>v \<in> visited st. index_of st' v = index_of st v \<and> lowlinks st' ! v = lowlinks st ! v) \<and>
     index_counter st \<le> index_counter st' \<and> (\<forall>v \<in> visited st' - visited st. index_counter st \<le> dfs_num st' v)"

text \<open>What a call on \<open>v\<close> promises.\<close>

definition connected :: "('n, 'e) DiGraph \<Rightarrow> nat set \<Rightarrow> nat \<Rightarrow> TarjanState \<Rightarrow> TarjanState \<Rightarrow> bool" where
  "connected g G v st st' \<longleftrightarrow> state_ok g st' \<and> paths_ok (arc_rel g) G st' \<and> extends st st' \<and> v \<in> visited st' \<and>
     (if v \<in> set (tj_stack st')
      then \<exists>z \<in> set (tj_stack st'). dfs_num st' z = lowlinks st' ! v \<and> (v, z) \<in> (arc_rel g)\<^sup>*
      else lowlinks st' ! v = dfs_num st' v) \<and>
     (\<forall>x \<in> set (tj_stack st') - set (tj_stack st). \<forall>y \<in> set (tj_stack st).
        (x, y) \<in> arc_rel g \<longrightarrow> lowlinks st' ! v \<le> dfs_num st' y)"

lemma state_okD:
  assumes "state_ok g st"
  shows "length (indices st) = length (dg_nodes g)" "length (lowlinks st) = length (dg_nodes g)"
    "length (on_stack st) = length (dg_nodes g)" "visited st \<subseteq> live g"
    "unat (index_counter st) = card (visited st)" "v \<in> visited st \<Longrightarrow> dfs_num st v < index_counter st"
    "v < length (dg_nodes g) \<Longrightarrow> on_stack st ! v \<longleftrightarrow> v \<in> set (tj_stack st)"
    "sorted_wrt (\<lambda>x y. dfs_num st y < dfs_num st x) (tj_stack st)"
    "visited st = set (tj_stack st) \<union> done_nodes (sccs st)" "set (tj_stack st) \<inter> done_nodes (sccs st) = {}"
    "comps_ok (arc_rel g) (sccs st)"
  using assms unfolding state_ok_def by blast+

lemma paths_okD:
  assumes "paths_ok r G st"
  shows "G \<subseteq> set (tj_stack st)" "\<lbrakk>x \<in> visited st; x \<notin> G; (x, y) \<in> r\<rbrakk> \<Longrightarrow> y \<in> visited st"
    "\<lbrakk>a \<in> G; y \<in> set (tj_stack st); dfs_num st a \<le> dfs_num st y\<rbrakk> \<Longrightarrow> (a, y) \<in> r\<^sup>*"
    "y \<in> set (tj_stack st) \<Longrightarrow> \<exists>a \<in> G. dfs_num st a \<le> dfs_num st y \<and> (y, a) \<in> r\<^sup>*"
  using assms unfolding paths_ok_def by blast+

lemma sorted_wrt_distinct: "\<lbrakk>sorted_wrt P xs; \<And>x. \<not> P x x\<rbrakk> \<Longrightarrow> distinct xs"
  by (induction xs) auto

lemma stack_distinct: "state_ok g st \<Longrightarrow> distinct (tj_stack st)"
  using state_okD(8) by (rule sorted_wrt_distinct) simp_all

lemma idx_num: "v \<in> visited st \<Longrightarrow> index_of st v = Some (dfs_num st v)"
  by (auto simp: visited_def dfs_num_def)

lemma extends_refl: "extends st st"
  by (simp add: extends_def)

lemma extends_visited: "extends st st' \<Longrightarrow> visited st \<subseteq> visited st'"
  by (auto simp: extends_def visited_def)

lemma extends_num: "\<lbrakk>extends st st'; v \<in> visited st\<rbrakk> \<Longrightarrow> dfs_num st' v = dfs_num st v"
  by (simp add: extends_def dfs_num_def)

lemma dfs_extends_trans:
  assumes "extends a b" "extends b c"
  shows "extends a c"
proof -
  have v: "visited a \<subseteq> visited b" "visited b \<subseteq> visited c" using assms extends_visited by auto
  have "index_counter a \<le> dfs_num c v" if "v \<in> visited c - visited a" for v
  proof (cases "v \<in> visited b")
    case True
    then show ?thesis using that assms(1) extends_num [OF assms(2)] by (auto simp: extends_def)
  next
    case False
    then show ?thesis using that assms by (force simp: extends_def)
  qed
  then show ?thesis using assms v unfolding extends_def by (auto simp: subset_iff)
qed

lemma done_nodes_append: "done_nodes (cs @ [c]) = done_nodes cs \<union> set c"
  by (auto simp: done_nodes_def)

lemma done_closed: "comps_ok r cs \<Longrightarrow> r `` done_nodes cs \<subseteq> done_nodes cs"
  unfolding comps_ok_def by (metis order_refl take_all)

lemma closed_rtrancl: "\<lbrakk>(x, y) \<in> r\<^sup>*; x \<in> A; r `` A \<subseteq> A\<rbrakk> \<Longrightarrow> y \<in> A"
  by (induction rule: rtrancl_induct) auto

lemma finite_visited: "state_ok g st \<Longrightarrow> finite (visited st)"
  by (rule finite_subset [OF state_okD(4) finite_live])

section \<open>Discovering a node\<close>

lemma counter_no_wrap:
  assumes "state_ok g st" "v \<in> live g" "v \<notin> visited st" "length (dg_nodes g) < 2 ^ 32"
  shows "unat (index_counter st + 1) = unat (index_counter st) + 1" "index_counter st < index_counter st + 1"
proof -
  have "card (insert v (visited st)) \<le> card (live g)"
    using state_okD(4) [OF assms(1)] assms(2) by (intro card_mono) simp_all
  moreover have "card (live g) \<le> card {..<length (dg_nodes g)}"
    by (intro card_mono) (auto dest: live_less)
  moreover note finite_visited [OF assms(1)]
  ultimately have "unat (index_counter st) + 1 < 2 ^ 32"
    using state_okD(5) [OF assms(1)] assms(3,4) by simp
  then show 1: "unat (index_counter st + 1) = unat (index_counter st) + 1" by (simp add: unat_word_ariths)
  then show "index_counter st < index_counter st + 1" by (simp add: word_less_nat_alt)
qed

lemma discover_simps [simp]:
  "tj_stack (discover v st) = v # tj_stack st" "sccs (discover v st) = sccs st"
  "index_counter (discover v st) = index_counter st + 1" "length (indices (discover v st)) = length (indices st)"
  "length (lowlinks (discover v st)) = length (lowlinks st)" "length (on_stack (discover v st)) = length (on_stack st)"
  "w \<noteq> v \<Longrightarrow> lowlinks (discover v st) ! w = lowlinks st ! w"
  "v < length (lowlinks st) \<Longrightarrow> lowlinks (discover v st) ! v = index_counter st"
  by (simp_all add: discover_def)

lemma discover_idx:
  assumes "v < length (indices st)"
  shows "index_of (discover v st) = (index_of st)(v \<mapsto> index_counter st)"
    and "visited (discover v st) = insert v (visited st)"
    and "dfs_num (discover v st) = (dfs_num st)(v := index_counter st)"
  using assms by (auto simp: index_of_def dfs_num_def visited_def discover_def slot_update fun_eq_iff)

lemma discover_ok:
  assumes "state_ok g st" "v \<in> live g" "v \<notin> visited st" "length (dg_nodes g) < 2 ^ 32"
  shows "state_ok g (discover v st)" and "extends st (discover v st)"
    and "lowlinks (discover v st) ! v = index_counter st"
proof -
  note D = state_okD [OF assms(1)]
  have v: "v < length (indices st)" "v < length (dg_nodes g)" "v \<notin> set (tj_stack st)" "v \<notin> done_nodes (sccs st)"
    using D(1,9) assms(2,3) live_less [of v g] by auto
  note I = discover_idx [OF v(1)]
  note W = counter_no_wrap [OF assms]
  note fin = finite_visited [OF assms(1)]
  have nums: "dfs_num (discover v st) x < index_counter st" if "x \<in> set (tj_stack st)" for x
    using that v(3) D(6) [of x] D(9) by (auto simp: I(3))
  have "dfs_num (discover v st) x = dfs_num st x" if "x \<in> set (tj_stack st)" for x
    using that v(3) by (auto simp: I(3))
  then have "sorted_wrt (\<lambda>x y. dfs_num (discover v st) y < dfs_num (discover v st) x) (tj_stack st)"
    using D(8) by (rule_tac sorted_wrt_mono_rel) auto
  then have sorted: "sorted_wrt (\<lambda>x y. dfs_num (discover v st) y < dfs_num (discover v st) x) (tj_stack (discover v st))"
    using nums by (simp add: I(3))
  have counter: "dfs_num (discover v st) x < index_counter (discover v st)" if "x \<in> visited (discover v st)" for x
    using that D(6) [of x] W(2) by (auto simp: I(2,3))
  have "unat (index_counter (discover v st)) = card (visited (discover v st))"
    using W(1) D(5) assms(3) fin by (simp add: I(2))
  moreover have "visited (discover v st) = set (tj_stack (discover v st)) \<union> done_nodes (sccs (discover v st))"
    using D(9) by (simp add: I(2))
  moreover have "\<forall>x < length (dg_nodes g). on_stack (discover v st) ! x \<longleftrightarrow> x \<in> set (tj_stack (discover v st))"
    using D(3,7) v(2) by (auto simp: discover_def nth_list_update)
  moreover have "set (tj_stack (discover v st)) \<inter> done_nodes (sccs (discover v st)) = {}"
    using D(10) v(4) by simp
  moreover have "visited (discover v st) \<subseteq> live g" using D(4) assms(2) by (simp add: I(2))
  ultimately show "state_ok g (discover v st)"
    unfolding state_ok_def using sorted counter D(1-3,11) by simp
  have "lowlinks (discover v st) ! x = lowlinks st ! x" if "x \<in> visited st" for x
    using that assms(3) by (intro discover_simps(7)) auto
  then show "extends st (discover v st)"
    unfolding extends_def using assms(3) W(2) by (auto simp: I)
  show "lowlinks (discover v st) ! v = index_counter st" using v(2) D(2) by simp
qed

lemma discover_paths:
  assumes "state_ok g st" "v \<in> live g" "v \<notin> visited st" "paths_ok r G st" "\<forall>a \<in> G. (a, v) \<in> r\<^sup>*"
  shows "paths_ok r (insert v G) (discover v st)"
proof -
  note D = state_okD [OF assms(1)]
  note P = paths_okD [OF assms(4)]
  have v: "v < length (indices st)" using D(1) assms(2) live_less [of v g] by auto
  note I = discover_idx [OF v]
  have old: "x \<noteq> v" "dfs_num st x < index_counter st" if "x \<in> set (tj_stack st)" for x
    using that D(6) [of x] D(9) assms(3) by auto
  have "(a, y) \<in> r\<^sup>*" if "a \<in> insert v G" "y \<in> insert v (set (tj_stack st))"
      "dfs_num (discover v st) a \<le> dfs_num (discover v st) y" for a y
  proof (cases "a = v \<or> y = v")
    case True
    then show ?thesis using that assms(5) old [of y] by (auto simp: I(3) split: if_splits)
  next
    case False
    then show ?thesis using that P(3) [of a y] by (simp add: I(3))
  qed
  moreover have "\<exists>a \<in> insert v G. dfs_num (discover v st) a \<le> dfs_num (discover v st) y \<and> (y, a) \<in> r\<^sup>*"
    if y: "y \<in> insert v (set (tj_stack st))" for y
  proof (cases "y = v")
    case False
    then obtain a where "a \<in> G" "dfs_num st a \<le> dfs_num st y" "(y, a) \<in> r\<^sup>*" using P(4) [of y] y by auto
    moreover have "a \<noteq> v" using \<open>a \<in> G\<close> P(1) old by auto
    ultimately show ?thesis using False by (auto simp: I(3))
  qed auto
  moreover have "r `` {x} \<subseteq> visited (discover v st)" if "x \<in> visited (discover v st) - insert v G" for x
    using that P(2) [of x] by (auto simp: I(2))
  ultimately show ?thesis unfolding paths_ok_def using P(1) by auto
qed

section \<open>Lowering a link\<close>

lemma lower_simps [simp]:
  "tj_stack (lower v l st) = tj_stack st" "indices (lower v l st) = indices st" "on_stack (lower v l st) = on_stack st"
  "index_of (lower v l st) = index_of st" "dfs_num (lower v l st) = dfs_num st" "visited (lower v l st) = visited st"
  "index_counter (lower v l st) = index_counter st" "sccs (lower v l st) = sccs st"
  "length (lowlinks (lower v l st)) = length (lowlinks st)"
  "w \<noteq> v \<Longrightarrow> lowlinks (lower v l st) ! w = lowlinks st ! w"
  "v < length (lowlinks st) \<Longrightarrow> lowlinks (lower v l st) ! v = min (lowlinks st ! v) l"
  by (simp_all add: lower_def index_of_def dfs_num_def visited_def fun_eq_iff)

lemma lower_ok [simp]: "state_ok g (lower v l st) = state_ok g st" "paths_ok r G (lower v l st) = paths_ok r G st"
  by (simp_all add: state_ok_def paths_ok_def)

lemma lower_extends:
  assumes "extends st0 st" "v \<notin> visited st0"
  shows "extends st0 (lower v l st)"
proof -
  have "lowlinks (lower v l st) ! x = lowlinks st ! x" if "x \<in> visited st0" for x
    using that assms(2) by (intro lower_simps(10)) auto
  then show ?thesis using assms(1) by (simp add: extends_def)
qed

section \<open>The loop over the edges\<close>

definition loop_inv :: "('n, 'e) DiGraph \<Rightarrow> nat set \<Rightarrow> nat \<Rightarrow> TarjanState \<Rightarrow> nat set \<Rightarrow> TarjanState \<Rightarrow> bool" where
  "loop_inv g G v st0 T st \<longleftrightarrow>
     state_ok g st \<and> paths_ok (arc_rel g) (insert v G) st \<and> extends st0 st \<and> v \<in> visited st \<and>
     (\<exists>new. tj_stack st = new @ v # tj_stack st0) \<and>
     lowlinks st ! v \<le> dfs_num st v \<and> (\<exists>z \<in> set (tj_stack st). dfs_num st z = lowlinks st ! v \<and> (v, z) \<in> (arc_rel g)\<^sup>*) \<and>
     (\<forall>x \<in> set (tj_stack st) - insert v (set (tj_stack st0)). \<forall>y \<in> set (tj_stack st0).
        (x, y) \<in> arc_rel g \<longrightarrow> lowlinks st ! v \<le> dfs_num st y) \<and>
     (\<forall>w \<in> T. w \<in> visited st \<and> (w \<in> set (tj_stack st0) \<longrightarrow> lowlinks st ! v \<le> dfs_num st w))"

lemma loop_invD:
  assumes "loop_inv g G v st0 T st"
  shows "state_ok g st" "paths_ok (arc_rel g) (insert v G) st" "extends st0 st" "v \<in> visited st"
    "\<exists>new. tj_stack st = new @ v # tj_stack st0" "lowlinks st ! v \<le> dfs_num st v"
    "\<exists>z \<in> set (tj_stack st). dfs_num st z = lowlinks st ! v \<and> (v, z) \<in> (arc_rel g)\<^sup>*"
    "\<lbrakk>x \<in> set (tj_stack st); x \<noteq> v; x \<notin> set (tj_stack st0); y \<in> set (tj_stack st0); (x, y) \<in> arc_rel g\<rbrakk>
       \<Longrightarrow> lowlinks st ! v \<le> dfs_num st y"
    "w \<in> T \<Longrightarrow> w \<in> visited st" "\<lbrakk>w \<in> T; w \<in> set (tj_stack st0)\<rbrakk> \<Longrightarrow> lowlinks st ! v \<le> dfs_num st w"
  using assms unfolding loop_inv_def by blast+

lemma visited_less: "\<lbrakk>state_ok g st; v \<in> visited st\<rbrakk> \<Longrightarrow> v < length (lowlinks st)"
  using state_okD(2,4) live_less by (metis subsetD)

lemma loop_start:
  assumes "state_ok g st0" "v \<in> live g" "v \<notin> visited st0" "length (dg_nodes g) < 2 ^ 32"
    and "paths_ok (arc_rel g) G st0" "\<forall>a \<in> G. (a, v) \<in> (arc_rel g)\<^sup>*"
  shows "loop_inv g G v st0 {} (discover v st0)"
proof -
  have v: "v < length (indices st0)" using state_okD(1) [OF assms(1)] assms(2) live_less [of v g] by auto
  show ?thesis
    unfolding loop_inv_def
    using discover_ok [OF assms(1-4)] discover_paths [OF assms(1-3,5,6)] discover_idx [OF v]
    by auto
qed

lemma loop_inv_lower:
  assumes "state_ok g st" "paths_ok (arc_rel g) (insert v G) st" "extends st0 st" "v \<notin> visited st0" "v \<in> visited st"
    and "\<exists>new. tj_stack st = new @ v # tj_stack st0" "lowlinks st ! v \<le> dfs_num st v"
    and "\<exists>z \<in> set (tj_stack st). dfs_num st z = min (lowlinks st ! v) l \<and> (v, z) \<in> (arc_rel g)\<^sup>*"
    and "\<And>x y. \<lbrakk>x \<in> set (tj_stack st); x \<noteq> v; x \<notin> set (tj_stack st0); y \<in> set (tj_stack st0); (x, y) \<in> arc_rel g\<rbrakk>
      \<Longrightarrow> min (lowlinks st ! v) l \<le> dfs_num st y"
    and "\<And>w. w \<in> T \<Longrightarrow> w \<in> visited st"
    and "\<And>w. \<lbrakk>w \<in> T; w \<in> set (tj_stack st0)\<rbrakk> \<Longrightarrow> min (lowlinks st ! v) l \<le> dfs_num st w"
  shows "loop_inv g G v st0 T (lower v l st)"
proof -
  have low: "lowlinks (lower v l st) ! v = min (lowlinks st ! v) l"
    using visited_less [OF assms(1,5)] by simp
  have "min (lowlinks st ! v) l \<le> dfs_num st v" using assms(7) by (simp add: min_le_iff_disj)
  then show ?thesis
    unfolding loop_inv_def low using assms(1,2,5,6,8-11) lower_extends [OF assms(3,4)] by simp blast
qed

lemma loop_visited:
  assumes inv: "loop_inv g G v st0 T st" and w: "(v, w) \<in> arc_rel g" "w \<in> visited st" and v: "v \<notin> visited st0"
  shows "loop_inv g G v st0 (insert w T) (if w \<in> set (tj_stack st) then lower v (dfs_num st w) st else st)"
proof (cases "w \<in> set (tj_stack st)")
  case True
  note L = loop_invD [OF inv]
  have z: "\<exists>z \<in> set (tj_stack st). dfs_num st z = min (lowlinks st ! v) (dfs_num st w) \<and> (v, z) \<in> (arc_rel g)\<^sup>*"
    using L(7) True w(1) by (auto simp: min_def)
  have "loop_inv g G v st0 (insert w T) (lower v (dfs_num st w) st)"
  proof (rule loop_inv_lower [OF L(1-3) v L(4-6) z], goal_cases)
    case (1 x y)
    then show ?case using L(8) [of x y] by (simp add: min_le_iff_disj)
  next
    case (2 t)
    then show ?case using L(9) w(2) by auto
  next
    case (3 t)
    then show ?case using L(10) [of t] by (auto simp: min_le_iff_disj)
  qed
  then show ?thesis using True by simp
next
  case False
  note L = loop_invD [OF inv]
  have "w \<notin> set (tj_stack st0)" using False L(5) by auto
  then show ?thesis using False inv w(2) unfolding loop_inv_def by auto
qed

lemma loop_call:
  assumes inv: "loop_inv g G v st0 T st" and w: "(v, w) \<in> arc_rel g" "w \<notin> visited st" and v: "v \<notin> visited st0"
    and c: "connected g (insert v G) w st st'"
  shows "loop_inv g G v st0 (insert w T) (lower v (lowlinks st' ! w) st')"
proof -
  note L = loop_invD [OF inv]
  have C: "state_ok g st'" "paths_ok (arc_rel g) (insert v G) st'" "extends st st'" "w \<in> visited st'"
    using c by (simp_all add: connected_def)
  have v': "v \<in> visited st'" "dfs_num st' v = dfs_num st v" "lowlinks st' ! v = lowlinks st ! v"
    using L(4) C(3) extends_visited [OF C(3)] extends_num [OF C(3)] by (auto simp: extends_def)
  have len: "v < length (lowlinks st')" by (rule visited_less [OF C(1) v'(1)])
  obtain new where new: "tj_stack st' = new @ tj_stack st" using C(3) by (auto simp: extends_def)
  have onst: "x \<in> visited st" if "x \<in> set (tj_stack st)" for x using that state_okD(9) [OF L(1)] by auto
  have dfs_num: "dfs_num st' x = dfs_num st x" if "x \<in> set (tj_stack st)" for x using extends_num [OF C(3) onst [OF that]] .
  have sub: "x \<in> set (tj_stack st)" if "x \<in> set (tj_stack st0)" for x using that L(5) by auto
  have wv: "dfs_num st v < dfs_num st' w"
    using state_okD(6) [OF L(1,4)] C(3,4) w(2) by (force simp: extends_def)
  have low: "\<exists>z \<in> set (tj_stack st'). dfs_num st' z = min (lowlinks st' ! v) (lowlinks st' ! w) \<and> (v, z) \<in> (arc_rel g)\<^sup>*"
  proof (cases "lowlinks st' ! w < lowlinks st' ! v")
    case True
    then have "lowlinks st' ! w \<noteq> dfs_num st' w" using wv L(6) v'(3) by auto
    then obtain z where "z \<in> set (tj_stack st')" "dfs_num st' z = lowlinks st' ! w" "(w, z) \<in> (arc_rel g)\<^sup>*"
      using c unfolding connected_def by (auto split: if_splits)
    then show ?thesis using True w(1) by (auto simp: min_def intro: converse_rtrancl_into_rtrancl)
  next
    case False
    obtain z where "z \<in> set (tj_stack st)" "dfs_num st z = lowlinks st ! v" "(v, z) \<in> (arc_rel g)\<^sup>*" using L(7) by blast
    then show ?thesis using False new dfs_num v'(3) by (intro bexI [of _ z]) (auto simp: min_def)
  qed
  have edges: "min (lowlinks st' ! v) (lowlinks st' ! w) \<le> dfs_num st' y"
    if x: "x \<in> set (tj_stack st')" "x \<noteq> v" "x \<notin> set (tj_stack st0)" "y \<in> set (tj_stack st0)" "(x, y) \<in> arc_rel g" for x y
  proof (cases "x \<in> set (tj_stack st)")
    case True
    then show ?thesis using L(8) [of x y] x v'(3) dfs_num sub by (auto simp: min_le_iff_disj)
  next
    case False
    then show ?thesis using c x sub [of y] unfolding connected_def by (auto simp: min_le_iff_disj)
  qed
  have w0: "w \<notin> set (tj_stack st0)" using w(2) sub onst by blast
  have st0: "\<exists>new. tj_stack st' = new @ v # tj_stack st0" using new L(5) by auto
  have le: "lowlinks st' ! v \<le> dfs_num st' v" using L(6) v' by simp
  show ?thesis
  proof (rule loop_inv_lower [OF C(1,2) dfs_extends_trans [OF L(3) C(3)] v v'(1) st0 le low edges], assumption+, goal_cases)
    case (1 t)
    then show ?case using L(9) C(4) extends_visited [OF C(3)] by auto
  next
    case (2 t)
    then show ?case using L(10) [of t] w0 v'(3) dfs_num sub by (auto simp: min_le_iff_disj)
  qed
qed

section \<open>Closing a component\<close>

lemma pop_component_spec:
  assumes "v \<notin> set new" "set new \<subseteq> {..<length on}" "v < length on"
  shows "\<exists>on'. pop_component v (new @ v # rest) on c = Some (rest, on', c @ new @ [v]) \<and> length on' = length on
    \<and> (\<forall>x < length on. on' ! x \<longleftrightarrow> on ! x \<and> x \<noteq> v \<and> x \<notin> set new)"
  using assms
proof (induction new arbitrary: on c)
  case (Cons w new)
  from Cons.IH [of "on[w := False]" "c @ [w]"] Cons.prems show ?case
    by (auto simp: nth_list_update)
qed (auto simp: nth_list_update)

lemma take_snoc_cases: "take k (cs @ [c]) = take k cs \<or> take k (cs @ [c]) = cs @ [c]"
  by (cases "k \<le> length cs") auto

lemma comps_ok_snoc:
  assumes "comps_ok r cs" "distinct c" "c \<noteq> []" "set c \<inter> done_nodes cs = {}"
    and "\<And>u. u \<in> set c \<Longrightarrow> set c = scc_of r u" "r `` (done_nodes cs \<union> set c) \<subseteq> done_nodes cs \<union> set c"
  shows "comps_ok r (cs @ [c])"
proof -
  have "r `` done_nodes (take k cs) \<subseteq> done_nodes (take k cs)" for k using assms(1) by (simp add: comps_ok_def)
  then have "r `` done_nodes (take k (cs @ [c])) \<subseteq> done_nodes (take k (cs @ [c]))" for k
    using take_snoc_cases [of k cs c] assms(6) done_nodes_append [of cs c] by metis
  moreover have "distinct (concat (cs @ [c]))"
    using assms(1,2,4) by (auto simp: comps_ok_def done_nodes_def)
  moreover have "\<forall>c' \<in> set (cs @ [c]). c' \<noteq> [] \<and> (\<forall>u \<in> set c'. set c' = scc_of r u)"
    using assms(1,3,5) by (auto simp: comps_ok_def)
  ultimately show ?thesis unfolding comps_ok_def by blast
qed

text \<open>When the link of \<open>v\<close> is its own index, the nodes above it on the stack are its component.\<close>

lemma component_above:
  assumes inv: "loop_inv g G v st0 (arc_rel g `` {v}) st" and st0: "paths_ok (arc_rel g) G st0"
    and new: "tj_stack st = new @ v # tj_stack st0" and root: "lowlinks st ! v = dfs_num st v"
  shows "arc_rel g `` (done_nodes (sccs st) \<union> set (new @ [v])) \<subseteq> done_nodes (sccs st) \<union> set (new @ [v])"
    and "u \<in> set (new @ [v]) \<Longrightarrow> set (new @ [v]) = scc_of (arc_rel g) u"
proof -
  let ?r = "arc_rel g" and ?C = "set (new @ [v])" and ?D = "done_nodes (sccs st)"
  note L = loop_invD [OF inv]
  note D = state_okD [OF L(1)]
  note P = paths_okD [OF L(2)]
  have G: "G \<subseteq> set (tj_stack st0)" using paths_okD(1) [OF st0] .
  have below: "dfs_num st y < dfs_num st v" if "y \<in> set (tj_stack st0)" for y
    using D(8) that unfolding new by (simp add: sorted_wrt_append)
  have above: "dfs_num st v \<le> dfs_num st x" if "x \<in> ?C" for x
    using D(8) that unfolding new by (auto simp: sorted_wrt_append less_imp_le)
  have dist: "?C \<inter> set (tj_stack st0) = {}" using stack_distinct [OF L(1)] unfolding new by auto
  have C: "?C \<subseteq> set (tj_stack st)" unfolding new by auto
  have succ: "y \<in> ?D \<union> ?C" if x: "x \<in> ?C" "(x, y) \<in> ?r" for x y
  proof -
    have "y \<in> visited st"
      using x L(9) [of y] P(2) [of x y] C G dist D(9) by (cases "x = v") auto
    moreover have "y \<notin> set (tj_stack st0)"
    proof
      assume y: "y \<in> set (tj_stack st0)"
      then have "lowlinks st ! v \<le> dfs_num st y"
        using x L(8) [of x y] L(10) [of y] C dist by (cases "x = v") auto
      then show False using below [OF y] root by simp
    qed
    ultimately show ?thesis using D(9) unfolding new by auto
  qed
  show closed: "?r `` (?D \<union> ?C) \<subseteq> ?D \<union> ?C" using succ done_closed [OF D(11)] by blast
  have down: "(v, x) \<in> ?r\<^sup>*" if "x \<in> ?C" for x using P(3) [of v x] that above C by auto
  have up: "(x, v) \<in> ?r\<^sup>*" if x: "x \<in> ?C" for x
  proof -
    obtain a where a: "a \<in> insert v G" "(x, a) \<in> ?r\<^sup>*" using P(4) [of x] x C by blast
    have "a \<in> ?D \<union> ?C" using closed_rtrancl [OF a(2) _ closed] x by auto
    then have "a = v" using a(1) G D(10) dist new by auto
    then show ?thesis using a(2) by simp
  qed
  show "?C = scc_of ?r u" if u: "u \<in> ?C"
  proof (intro equalityI subsetI)
    fix w assume "w \<in> ?C"
    then show "w \<in> scc_of ?r u" using up [of w] up [OF u] down [of w] down [OF u] unfolding scc_of_def by (auto intro: rtrancl_trans)
  next
    fix w assume "w \<in> scc_of ?r u"
    then have w: "(u, w) \<in> ?r\<^sup>*" "(w, u) \<in> ?r\<^sup>*" by (simp_all add: scc_of_def)
    have "w \<notin> ?D" using closed_rtrancl [OF w(2) _ done_closed [OF D(11)]] u C D(10) by auto
    then show "w \<in> ?C" using closed_rtrancl [OF w(1) _ closed] u by auto
  qed
qed

lemma close_root:
  assumes inv: "loop_inv g G v st0 (arc_rel g `` {v}) st" and v: "v \<notin> visited st0" "state_ok g st0"
    and st0: "paths_ok (arc_rel g) G st0" and root: "lowlinks st ! v = dfs_num st v"
  shows "\<exists>st'. close_component v st = Some st' \<and> connected g G v st0 st'"
proof -
  note L = loop_invD [OF inv]
  note D = state_okD [OF L(1)]
  note P = paths_okD [OF L(2)]
  note P0 = paths_okD [OF st0]
  obtain new where new: "tj_stack st = new @ v # tj_stack st0" using L(5) by blast
  note C = component_above [OF inv st0 new root]
  have dist: "distinct (new @ v # tj_stack st0)" using stack_distinct [OF L(1)] new by simp
  have len: "x < length (dg_nodes g)" if "x \<in> visited st" for x using that D(4) live_less by blast
  have "set (new @ [v]) \<subseteq> {..<length (on_stack st)}" using len D(3,9) new by auto
  then obtain on' where on': "pop_component v (tj_stack st) (on_stack st) [] = Some (tj_stack st0, on', new @ [v])"
      "length on' = length (on_stack st)" "\<forall>x < length (on_stack st). on' ! x \<longleftrightarrow> on_stack st ! x \<and> x \<noteq> v \<and> x \<notin> set new"
    using pop_component_spec [of v new "on_stack st" "tj_stack st0" "[]"] dist new by auto
  define st' where "st' = st\<lparr>tj_stack := tj_stack st0, on_stack := on', sccs := sccs st @ [new @ [v]]\<rparr>"
  have f: "tj_stack st' = tj_stack st0" "index_of st' = index_of st" "dfs_num st' = dfs_num st" "visited st' = visited st"
      "lowlinks st' = lowlinks st" "sccs st' = sccs st @ [new @ [v]]" "index_counter st' = index_counter st"
      "indices st' = indices st" "on_stack st' = on'"
    by (simp_all add: st'_def index_of_def dfs_num_def visited_def fun_eq_iff)
  have "indices st ! v = Some (dfs_num st v)"
    using idx_num [OF L(4)] len [OF L(4)] D(1) by (simp add: index_of_def slot_def)
  then have close: "close_component v st = Some st'" using on'(1) root by (simp add: close_component_def st'_def)
  have "comps_ok (arc_rel g) (sccs st')"
    unfolding f using D(10,11) dist C new by (intro comps_ok_snoc) auto
  moreover have "\<forall>x < length (dg_nodes g). on' ! x \<longleftrightarrow> x \<in> set (tj_stack st0)"
    using on'(3) D(3,7) dist unfolding new by auto
  moreover have "visited st = set (tj_stack st0) \<union> done_nodes (sccs st @ [new @ [v]])"
      "set (tj_stack st0) \<inter> done_nodes (sccs st @ [new @ [v]]) = {}"
    using D(9,10) dist unfolding new done_nodes_append by auto
  moreover have "sorted_wrt (\<lambda>x y. dfs_num st y < dfs_num st x) (tj_stack st0)" using D(8) unfolding new by (simp add: sorted_wrt_append)
  moreover have "\<forall>x \<in> visited st. dfs_num st x < index_counter st" using D(6) by blast
  ultimately have ok: "state_ok g st'"
    unfolding state_ok_def f using D(1-5) on'(2) by simp
  have dfs_num: "dfs_num st x = dfs_num st0 x" if "x \<in> set (tj_stack st0)" for x
    using extends_num [OF L(3), of x] that state_okD(9) [OF v(2)] by auto
  have "r `` {x} \<subseteq> visited st" if "x \<in> visited st - G" "r = arc_rel g" for x r
    using that P(2) [of x] L(9) by (cases "x = v") auto
  moreover have "\<exists>a \<in> G. dfs_num st a \<le> dfs_num st y \<and> (y, a) \<in> (arc_rel g)\<^sup>*" if "y \<in> set (tj_stack st0)" for y
    using P0(4) [OF that] P0(1) dfs_num that by (metis subsetD)
  ultimately have paths: "paths_ok (arc_rel g) G st'"
    unfolding paths_ok_def f using P0(1) P(3) new by auto
  have "extends st0 st'" using L(3) unfolding extends_def f by auto
  moreover have "v \<notin> set (tj_stack st0)" using dist by simp
  ultimately have "connected g G v st0 st'"
    unfolding connected_def using ok paths root L(4) by (simp add: f)
  then show ?thesis using close by blast
qed

lemma close_inner:
  assumes inv: "loop_inv g G v st0 (arc_rel g `` {v}) st" and v: "v \<notin> visited st0" "state_ok g st0"
    and st0: "paths_ok (arc_rel g) G st0" and inner: "lowlinks st ! v \<noteq> dfs_num st v"
  shows "\<exists>st'. close_component v st = Some st' \<and> connected g G v st0 st'"
proof -
  note L = loop_invD [OF inv]
  note P = paths_okD [OF L(2)]
  have v': "v \<in> set (tj_stack st)" using P(1) by simp
  have sub: "set (tj_stack st0) \<subseteq> set (tj_stack st)" using L(5) by auto
  have "v < length (dg_nodes g)" using L(4) state_okD(4) [OF L(1)] live_less by blast
  then have "indices st ! v = Some (dfs_num st v)"
    using idx_num [OF L(4)] state_okD(1) [OF L(1)] by (simp add: index_of_def slot_def)
  then have close: "close_component v st = Some st" using inner by (simp add: close_component_def)
  obtain z where z: "z \<in> set (tj_stack st)" "dfs_num st z = lowlinks st ! v" "(v, z) \<in> (arc_rel g)\<^sup>*" using L(7) by blast
  then have "dfs_num st z < dfs_num st v" using L(6) inner by simp
  then obtain b where b: "b \<in> G" "dfs_num st b \<le> dfs_num st z" "(z, b) \<in> (arc_rel g)\<^sup>*" using P(4) [OF z(1)] by auto
  have "\<exists>a \<in> G. dfs_num st a \<le> dfs_num st y \<and> (y, a) \<in> (arc_rel g)\<^sup>*" if y: "y \<in> set (tj_stack st)" for y
  proof -
    obtain a where a: "a \<in> insert v G" "dfs_num st a \<le> dfs_num st y" "(y, a) \<in> (arc_rel g)\<^sup>*" using P(4) [OF y] by blast
    show ?thesis
    proof (cases "a = v")
      case True
      then have "dfs_num st b \<le> dfs_num st y" "(y, b) \<in> (arc_rel g)\<^sup>*"
        using a b z \<open>dfs_num st z < dfs_num st v\<close> by (auto intro: rtrancl_trans)
      then show ?thesis using b(1) by blast
    qed (use a in blast)
  qed
  moreover have "arc_rel g `` {x} \<subseteq> visited st" if "x \<in> visited st - G" for x
    using that P(2) [of x] L(9) by (cases "x = v") auto
  ultimately have paths: "paths_ok (arc_rel g) G st"
    unfolding paths_ok_def using P(1,3) by auto
  have "connected g G v st0 st"
    unfolding connected_def using L(1,3,4,7) paths v' L(8,10) by auto
  then show ?thesis using close by blast
qed

section \<open>Calls\<close>

definition callable :: "('n, 'e) DiGraph \<Rightarrow> nat set \<Rightarrow> nat \<Rightarrow> TarjanState \<Rightarrow> bool" where
  "callable g G v st \<longleftrightarrow> state_ok g st \<and> paths_ok (arc_rel g) G st \<and> v \<in> live g \<and> v \<notin> visited st \<and> (\<forall>a \<in> G. (a, v) \<in> (arc_rel g)\<^sup>*)"

lemma connect_edges_correct:
  assumes rec: "\<And>G w st. \<lbrakk>callable g G w st; v \<in> visited st; visited st0 \<subseteq> visited st\<rbrakk> \<Longrightarrow> \<exists>st'. rec w st = Some st' \<and> connected g G w st st'"
    and ok: "digraph_ok g" and v: "v \<notin> visited st0" and G: "\<forall>a \<in> G. (a, v) \<in> (arc_rel g)\<^sup>*"
    and out: "\<forall>e \<in> set out. \<exists>en. slot (dg_edges g) e = Some en \<and> ee_source en = v"
    and inv: "loop_inv g G v st0 T st"
  shows "\<exists>st'. connect_edges rec g v out st = Some st' \<and> loop_inv g G v st0 (T \<union> targets g out) st'"
  using out inv
proof (induction out arbitrary: T st)
  case Nil
  then show ?case by (simp add: targets_def)
next
  case (Cons e out)
  then obtain en where en: "slot (dg_edges g) e = Some en" "ee_source en = v" by auto
  define w where "w = ee_target en"
  have w: "(v, w) \<in> arc_rel g" "w \<in> live g" "w < length (dg_nodes g)"
    using en slot_ends [OF ok en(1)] live_less by (auto simp: arc_rel_slots w_def)
  note L = loop_invD [OF Cons.prems(2)]
  have len: "w < length (indices st)" using w(3) state_okD(1) [OF L(1)] by simp
  have T: "T \<union> targets g (e # out) = insert w T \<union> targets g out" using en by (auto simp: targets_def w_def)
  have more: "\<forall>e \<in> set out. \<exists>en. slot (dg_edges g) e = Some en \<and> ee_source en = v" using Cons.prems(1) by simp
  show ?case
  proof (cases "w \<in> visited st")
    case True
    have "on_stack st ! w \<longleftrightarrow> w \<in> set (tj_stack st)" by (rule state_okD(7) [OF L(1) w(3)])
    moreover have "indices st ! w = Some (dfs_num st w)" using idx_num [OF True] len by (simp add: index_of_def slot_def)
    ultimately show ?thesis
      using Cons.IH [OF more loop_visited [OF Cons.prems(2) w(1) True v]] en len
      unfolding T by (simp add: at_def Let_def w_def [symmetric])
  next
    case False
    have "(a, w) \<in> (arc_rel g)\<^sup>*" if "a \<in> insert v G" for a using that G w(1) by (auto intro: rtrancl_into_rtrancl)
    then have "callable g (insert v G) w st" using L(1,2) w(2) False by (simp add: callable_def)
    then obtain st' where c: "rec w st = Some st'" "connected g (insert v G) w st st'"
      using rec L(4) extends_visited [OF L(3)] by blast
    have "indices st ! w = None" using False len by (simp add: visited_def index_of_def slot_def)
    then show ?thesis
      using Cons.IH [OF more loop_call [OF Cons.prems(2) w(1) False v c(2)]] en len c(1)
      unfolding T by (simp add: at_def Let_def w_def [symmetric])
  qed
qed

lemma strongconnect_correct:
  assumes "digraph_ok g" "length (dg_nodes g) < 2 ^ 32" "callable g G v st" "card (live g - visited st) \<le> fuel"
  shows "\<exists>st'. tarjan_strongconnect fuel g v st = Some st' \<and> connected g G v st st'"
  using assms(3,4)
proof (induction fuel arbitrary: G v st)
  case 0
  then have "v \<in> live g - visited st" by (simp add: callable_def)
  moreover have "live g - visited st = {}" using 0 by simp
  ultimately show ?case by blast
next
  case (Suc fuel)
  have c: "state_ok g st" "paths_ok (arc_rel g) G st" "v \<in> live g" "v \<notin> visited st" "\<forall>a \<in> G. (a, v) \<in> (arc_rel g)\<^sup>*"
    using Suc.prems(1) by (simp_all add: callable_def)
  obtain entry where entry: "slot (dg_nodes g) v = Some entry" using c(3) by (auto simp: live_def)
  have len: "v < length (indices st)" using live_less [OF c(3)] state_okD(1) [OF c(1)] by simp
  have rec: "\<exists>st''. tarjan_strongconnect fuel g w st' = Some st'' \<and> connected g G' w st' st''"
    if "callable g G' w st'" "v \<in> visited st'" "visited st \<subseteq> visited st'" for G' w st'
  proof (rule Suc.IH [OF that(1)])
    have "live g - visited st' \<subset> live g - visited st" using that c(3,4) by blast
    then have "card (live g - visited st') < card (live g - visited st)" by (intro psubset_card_mono) simp_all
    then show "card (live g - visited st') \<le> fuel" using Suc.prems(2) by simp
  qed
  have "\<forall>e \<in> set (adj_out entry). \<exists>en. slot (dg_edges g) e = Some en \<and> ee_source en = v"
    using out_list [OF assms(1) entry] by blast
  from connect_edges_correct [OF rec assms(1) c(4,5) this loop_start [OF c(1,3,4) assms(2) c(2,5)]]
  obtain st' where st': "connect_edges (tarjan_strongconnect fuel g) g v (adj_out entry) (discover v st) = Some st'"
      "loop_inv g G v st (arc_rel g `` {v}) st'"
    using targets_adj_out [OF assms(1) entry] by auto
  show ?case
    using close_root [OF st'(2) c(4,1,2)] close_inner [OF st'(2) c(4,1,2)] st'(1) entry len by auto
qed

lemma roots_correct:
  assumes "digraph_ok g" "length (dg_nodes g) < 2 ^ 32" "set roots \<subseteq> live g" "state_ok g st" "paths_ok (arc_rel g) {} st"
  shows "\<exists>st'. tarjan_roots g roots st = Some st' \<and> state_ok g st' \<and> paths_ok (arc_rel g) {} st'
    \<and> visited st \<union> set roots \<subseteq> visited st'"
  using assms(3-5)
proof (induction roots arbitrary: st)
  case (Cons v roots)
  have v: "v < length (indices st)" "v \<in> live g"
    using Cons.prems live_less [of v g] state_okD(1) [OF Cons.prems(2)] by auto
  show ?case
  proof (cases "v \<in> visited st")
    case True
    then have "indices st ! v \<noteq> None" using v(1) by (auto simp: visited_def index_of_def slot_def)
    then show ?thesis using Cons.IH [of st] Cons.prems True by auto
  next
    case False
    have "live g \<subseteq> {..<length (dg_nodes g)}" using live_less by blast
    then have "card (live g - visited st) \<le> length (dg_nodes g)"
      using card_mono [of "{..<length (dg_nodes g)}" "live g - visited st"] by auto
    then obtain st1 where st1: "tarjan_strongconnect (length (dg_nodes g)) g v st = Some st1" "connected g {} v st st1"
      using strongconnect_correct [OF assms(1,2), of "{}" v st] False v(2) Cons.prems(2,3) by (auto simp: callable_def)
    then have "state_ok g st1" "paths_ok (arc_rel g) {} st1" "visited st \<subseteq> visited st1" "v \<in> visited st1"
      using extends_visited by (auto simp: connected_def)
    moreover have "indices st ! v = None" using False v(1) by (simp add: visited_def index_of_def slot_def)
    ultimately show ?thesis using Cons.IH [of st1] Cons.prems(1) st1(1) by auto
  qed
qed simp

section \<open>Properties\<close>

lemma done_nodes_take: "x \<in> done_nodes (take (Suc i) cs) \<Longrightarrow> \<exists>j \<le> i. j < length cs \<and> x \<in> set (cs ! j)"
  by (auto simp: done_nodes_def in_set_conv_nth) (metis in_set_conv_nth less_Suc_eq_le)

lemma nth_done_nodes: "i < length cs \<Longrightarrow> u \<in> set (cs ! i) \<Longrightarrow> u \<in> done_nodes (take (Suc i) cs)"
  by (auto simp: done_nodes_def take_Suc_conv_app_nth)

text \<open>The strongly connected components of \<open>r\<close> on the nodes \<open>V\<close>, an edge leading to the same or an earlier one.\<close>

definition scc_listing :: "(nat \<times> nat) set \<Rightarrow> nat set \<Rightarrow> nat list list \<Rightarrow> bool" where
  "scc_listing r V cs \<longleftrightarrow> distinct (concat cs) \<and> set (concat cs) = V
     \<and> (\<forall>c \<in> set cs. c \<noteq> [] \<and> (\<forall>u \<in> set c. set c = scc_of r u))
     \<and> (\<forall>i u w. i < length cs \<and> u \<in> set (cs ! i) \<and> (u, w) \<in> r \<longrightarrow> (\<exists>j \<le> i. w \<in> set (cs ! j)))"

lemma tarjan_scc_listing:
  assumes "digraph_ok g" "length (dg_nodes g) < 2 ^ 32"
  shows "\<exists>cs. tarjan_scc g = Some cs \<and> scc_listing (arc_rel g) (live g) cs"
proof -
  have idx0: "index_of (tarjan_init g) = (\<lambda>v. None)" "visited (tarjan_init g) = {}"
    by (auto simp: index_of_def visited_def tarjan_init_def slot_def Let_def fun_eq_iff)
  have "comps_ok (arc_rel g) []" by (simp add: comps_ok_def done_nodes_def)
  then have init: "state_ok g (tarjan_init g)" "paths_ok (arc_rel g) {} (tarjan_init g)"
    by (auto simp: state_ok_def paths_ok_def idx0) (auto simp: tarjan_init_def Let_def done_nodes_def)
  obtain st where st: "tarjan_roots g (node_indices g) (tarjan_init g) = Some st" "state_ok g st"
      "paths_ok (arc_rel g) {} st" "live g \<subseteq> visited st"
    using roots_correct [OF assms _ init, of "node_indices g"] node_indices_live [of g] by auto
  note D = state_okD [OF st(2)]
  have "tj_stack st = []" using paths_okD(4) [OF st(3)] by (cases "tj_stack st") auto
  then have all: "done_nodes (sccs st) = live g" using D(4,9) st(4) by auto
  have "\<exists>j \<le> i. w \<in> set (sccs st ! j)" if "i < length (sccs st)" "u \<in> set (sccs st ! i)" "(u, w) \<in> arc_rel g" for i u w
  proof -
    have "arc_rel g `` done_nodes (take (Suc i) (sccs st)) \<subseteq> done_nodes (take (Suc i) (sccs st))"
      using D(11) by (simp add: comps_ok_def)
    then have "w \<in> done_nodes (take (Suc i) (sccs st))" using nth_done_nodes [OF that(1,2)] that(3) by blast
    then show ?thesis using done_nodes_take by blast
  qed
  moreover have "distinct (concat (sccs st))"
      "\<forall>c \<in> set (sccs st). c \<noteq> [] \<and> (\<forall>u \<in> set c. set c = scc_of (arc_rel g) u)"
    using D(11) by (simp_all add: comps_ok_def)
  ultimately show ?thesis using st(1) all by (auto simp: tarjan_scc_def done_nodes_def scc_listing_def)
qed

text \<open>
  C3: Tarjan's algorithm returns on every graph with fewer than \<open>2 ^ 32\<close> slots, without a panic, and its result is
  the list of the strongly connected components: every node is in exactly one list, each list is the set of nodes
  mutually reachable with any of its members, and the lists are in reverse topological order (an
  edge leads to the same or an earlier list).
\<close>

theorem tarjan_scc_exact:
  assumes "digraph_ok g" "length (dg_nodes g) < 2 ^ 32"
  shows "\<exists>cs. tarjan_scc g = Some cs \<and> distinct (concat cs) \<and> set (concat cs) = live g
    \<and> (\<forall>c \<in> set cs. c \<noteq> [] \<and> (\<forall>u \<in> set c. set c = {w. (u, w) \<in> (arc_rel g)\<^sup>* \<and> (w, u) \<in> (arc_rel g)\<^sup>*}))
    \<and> (\<forall>i u w. i < length cs \<and> u \<in> set (cs ! i) \<and> (u, w) \<in> arc_rel g \<longrightarrow> (\<exists>j \<le> i. w \<in> set (cs ! j)))"
  using tarjan_scc_listing [OF assms] unfolding scc_listing_def scc_of_def .

theorem tarjan_scc_exact_witness:
  "tarjan_scc tail_graph = Some [[0], [2, 1]] \<and> (1, 2) \<in> (arc_rel tail_graph)\<^sup>* \<and> (2, 1) \<in> (arc_rel tail_graph)\<^sup>*"
proof -
  have "digraph_ok tail_graph" unfolding tail_graph_def by (rule dg_run_ok) simp
  moreover have r: "tarjan_scc tail_graph = Some [[0], [2, 1]]" "length (dg_nodes tail_graph) = 3" by code_simp+
  ultimately have "set [2, 1] = {w. (1, w) \<in> (arc_rel tail_graph)\<^sup>* \<and> (w, 1) \<in> (arc_rel tail_graph)\<^sup>*}"
    using tarjan_scc_exact [of tail_graph] by auto
  then show ?thesis using r(1) by auto
qed

end
