(* ===== verification/Scg_Graph.thy ===== *)
theory Scg_Graph
  imports Scg_Node Scg_Tarjan
begin

text \<open>
  The Semantic Computation Graph of \<^verbatim>\<open>scg/src/graph.rs\<close>: a directed graph of node and edge data with the
  four maps between external identifiers and slots, the regions and the two identifier counters.
  \<open>scg_ok\<close> is the invariant the source documents (every id has exactly one index and vice
  versa, edges connect nodes of the graph). Under it the lookups \<open>get_node\<close> and \<open>get_edge\<close> are the abstract state
  and each operation is a map update on them; the algorithms of the underlying graph carry over
  to identifiers. An \<^verbatim>\<open>expect\<close> that fails is \<open>None\<close>.
\<close>

section \<open>State and errors\<close>

datatype SCGError =
    NodeNotFound NodeId
  | EdgeNotFound EdgeId
  | DuplicateNode NodeId
  | DuplicateEdge EdgeId
  | CycleDetected
  | InvalidEdgeEndpoints NodeId NodeId

record SCG =
  sg_graph :: "(NodeData, EdgeData) DiGraph"
  node_id_to_index :: "(NodeId, NodeIndex) hmap"
  node_index_to_id :: "(NodeIndex, NodeId) hmap"
  edge_id_to_index :: "(EdgeId, EdgeIndex) hmap"
  edge_index_to_id :: "(EdgeIndex, EdgeId) hmap"
  sg_regions :: "(RegionId, SCGRegion) hmap"
  next_node_id :: u64
  next_edge_id :: u64

definition scg_new :: SCG where
  "scg_new = \<lparr>sg_graph = digraph_new, node_id_to_index = [], node_index_to_id = [], edge_id_to_index = [],
     edge_index_to_id = [], sg_regions = [], next_node_id = 0, next_edge_id = 0\<rparr>"

section \<open>Nodes\<close>

definition alloc_node_id :: "SCG \<Rightarrow> SCG \<times> NodeId" where
  "alloc_node_id s = (s\<lparr>next_node_id := next_node_id s + 1\<rparr>, next_node_id s)"

definition alloc_edge_id :: "SCG \<Rightarrow> SCG \<times> EdgeId" where
  "alloc_edge_id s = (s\<lparr>next_edge_id := next_edge_id s + 1\<rparr>, next_edge_id s)"

definition node_data :: "NodeId \<Rightarrow> NodeType \<Rightarrow> NodePayload \<Rightarrow> ProgramPoint \<Rightarrow> NodeData" where
  "node_data i node_type payload program_point =
     \<lparr>nd_id = i, nd_node_type = node_type, nd_annotation = None, nd_program_point = program_point, nd_payload = payload\<rparr>"

text \<open>The part the two ways of adding a node share.\<close>

definition insert_node :: "SCG \<Rightarrow> NodeData \<Rightarrow> SCG" where
  "insert_node s data =
     (let (g, idx) = dg_add_node (sg_graph s) data
      in s\<lparr>sg_graph := g, node_id_to_index := hm_insert (nd_id data) idx (node_id_to_index s),
           node_index_to_id := hm_insert idx (nd_id data) (node_index_to_id s)\<rparr>)"

definition add_node :: "SCG \<Rightarrow> NodeType \<Rightarrow> NodePayload \<Rightarrow> ProgramPoint \<Rightarrow> SCG \<times> NodeId" where
  "add_node s node_type payload program_point =
     (let (s1, i) = alloc_node_id s
      in (insert_node s1 (node_data i node_type payload program_point), i))"

definition add_node_with_id :: "SCG \<Rightarrow> NodeId \<Rightarrow> NodeType \<Rightarrow> NodePayload \<Rightarrow> ProgramPoint \<Rightarrow> SCGError + SCG \<times> NodeId" where
  "add_node_with_id s i node_type payload program_point =
     (if hm_get (node_id_to_index s) i \<noteq> None then Inl (DuplicateNode i)
      else let s1 = insert_node s (node_data i node_type payload program_point)
           in Inr (if i \<ge> next_node_id s1 then s1\<lparr>next_node_id := i + 1\<rparr> else s1, i))"

text \<open>The maps are rebuilt by walking over the live slots.\<close>

definition rebuild_edge_mappings :: "SCG \<Rightarrow> SCG" where
  "rebuild_edge_mappings s =
     fold (\<lambda>eidx s. case edge_weight (sg_graph s) eidx of
             Some data \<Rightarrow> s\<lparr>edge_id_to_index := hm_insert (ed_id data) eidx (edge_id_to_index s),
                            edge_index_to_id := hm_insert eidx (ed_id data) (edge_index_to_id s)\<rparr>
           | None \<Rightarrow> s)
       (edge_indices (sg_graph s)) (s\<lparr>edge_id_to_index := [], edge_index_to_id := []\<rparr>)"

definition rebuild_node_mappings :: "SCG \<Rightarrow> SCG" where
  "rebuild_node_mappings s =
     fold (\<lambda>idx s. case node_weight (sg_graph s) idx of
             Some data \<Rightarrow> s\<lparr>node_id_to_index := hm_insert (nd_id data) idx (node_id_to_index s),
                            node_index_to_id := hm_insert idx (nd_id data) (node_index_to_id s)\<rparr>
           | None \<Rightarrow> s)
       (node_indices (sg_graph s)) (s\<lparr>node_id_to_index := [], node_index_to_id := []\<rparr>)"

definition rebuild_index_mappings :: "SCG \<Rightarrow> SCG" where
  "rebuild_index_mappings s = rebuild_edge_mappings (rebuild_node_mappings s)"

definition forget_edges :: "EdgeIndex list \<Rightarrow> SCG \<Rightarrow> SCG" where
  "forget_edges es s =
     fold (\<lambda>eidx s. case hm_get (edge_index_to_id s) eidx of
             Some eid \<Rightarrow> s\<lparr>edge_index_to_id := hm_remove eidx (edge_index_to_id s),
                           edge_id_to_index := hm_remove eid (edge_id_to_index s)\<rparr>
           | None \<Rightarrow> s) es s"

definition remove_node :: "SCG \<Rightarrow> NodeId \<Rightarrow> (SCGError + SCG \<times> NodeData) option" where
  "remove_node s i =
     (case hm_get (node_id_to_index s) i of
        None \<Rightarrow> Some (Inl (NodeNotFound i))
      | Some idx \<Rightarrow>
          let s1 = s\<lparr>node_id_to_index := hm_remove i (node_id_to_index s)\<rparr>;
              edges_to_remove = map er_id (edges_directed (sg_graph s1) idx Outgoing @ edges_directed (sg_graph s1) idx Incoming);
              s2 = forget_edges edges_to_remove s1;
              s3 = s2\<lparr>node_index_to_id := hm_remove idx (node_index_to_id s2)\<rparr>;
              (g, data) = dg_remove_node (sg_graph s3) idx
          in map_option (\<lambda>data. Inr (rebuild_index_mappings (s3\<lparr>sg_graph := g\<rparr>), data)) data)"

definition get_node :: "SCG \<Rightarrow> NodeId \<Rightarrow> NodeData option" where
  "get_node s i = Option.bind (hm_get (node_id_to_index s) i) (node_weight (sg_graph s))"

text \<open>An assignment through \<^verbatim>\<open>get_node_mut\<close> or \<^verbatim>\<open>get_edge_mut\<close>.\<close>

definition get_node_mut :: "SCG \<Rightarrow> NodeId \<Rightarrow> (NodeData \<Rightarrow> NodeData) \<Rightarrow> SCG" where
  "get_node_mut s i f =
     (case hm_get (node_id_to_index s) i of
        None \<Rightarrow> s
      | Some idx \<Rightarrow> s\<lparr>sg_graph := node_weight_mut (sg_graph s) idx f\<rparr>)"

definition scg_node_count :: "SCG \<Rightarrow> nat" where
  "scg_node_count s = node_count (sg_graph s)"

definition node_ids :: "SCG \<Rightarrow> NodeId list" where
  "node_ids s = hm_keys (node_id_to_index s)"

definition nodes :: "SCG \<Rightarrow> NodeData list" where
  "nodes s = node_weights (sg_graph s)"

section \<open>Edges\<close>

definition edge_data :: "EdgeId \<Rightarrow> NodeId \<Rightarrow> NodeId \<Rightarrow> EdgeKind \<Rightarrow> EdgeData" where
  "edge_data i source target kind =
     \<lparr>ed_id = i, ed_source = source, ed_target = target, ed_kind = kind, ed_label = None\<rparr>"

definition insert_edge :: "SCG \<Rightarrow> NodeIndex \<Rightarrow> NodeIndex \<Rightarrow> EdgeData \<Rightarrow> SCG" where
  "insert_edge s source_idx target_idx data =
     (let (g, eidx) = dg_add_edge (sg_graph s) source_idx target_idx data
      in s\<lparr>sg_graph := g, edge_id_to_index := hm_insert (ed_id data) eidx (edge_id_to_index s),
           edge_index_to_id := hm_insert eidx (ed_id data) (edge_index_to_id s)\<rparr>)"

definition add_edge :: "SCG \<Rightarrow> NodeId \<Rightarrow> NodeId \<Rightarrow> EdgeKind \<Rightarrow> SCGError + SCG \<times> EdgeId" where
  "add_edge s source target kind =
     (case hm_get (node_id_to_index s) source of
        None \<Rightarrow> Inl (InvalidEdgeEndpoints source target)
      | Some source_idx \<Rightarrow>
          (case hm_get (node_id_to_index s) target of
             None \<Rightarrow> Inl (InvalidEdgeEndpoints source target)
           | Some target_idx \<Rightarrow>
               let (s1, i) = alloc_edge_id s
               in Inr (insert_edge s1 source_idx target_idx (edge_data i source target kind), i)))"

definition add_edge_with_id :: "SCG \<Rightarrow> EdgeId \<Rightarrow> NodeId \<Rightarrow> NodeId \<Rightarrow> EdgeKind \<Rightarrow> SCGError + SCG \<times> EdgeId" where
  "add_edge_with_id s i source target kind =
     (if hm_get (edge_id_to_index s) i \<noteq> None then Inl (DuplicateEdge i)
      else
        (case hm_get (node_id_to_index s) source of
           None \<Rightarrow> Inl (InvalidEdgeEndpoints source target)
         | Some source_idx \<Rightarrow>
             (case hm_get (node_id_to_index s) target of
                None \<Rightarrow> Inl (InvalidEdgeEndpoints source target)
              | Some target_idx \<Rightarrow>
                  let s1 = insert_edge s source_idx target_idx (edge_data i source target kind)
                  in Inr (if i \<ge> next_edge_id s1 then s1\<lparr>next_edge_id := i + 1\<rparr> else s1, i))))"

definition remove_edge :: "SCG \<Rightarrow> EdgeId \<Rightarrow> (SCGError + SCG \<times> EdgeData) option" where
  "remove_edge s i =
     (case hm_get (edge_id_to_index s) i of
        None \<Rightarrow> Some (Inl (EdgeNotFound i))
      | Some eidx \<Rightarrow>
          let s1 = s\<lparr>edge_id_to_index := hm_remove i (edge_id_to_index s),
                     edge_index_to_id := hm_remove eidx (edge_index_to_id s)\<rparr>;
              (g, data) = dg_remove_edge (sg_graph s1) eidx
          in map_option (\<lambda>data. Inr (rebuild_edge_mappings (s1\<lparr>sg_graph := g\<rparr>), data)) data)"

definition get_edge :: "SCG \<Rightarrow> EdgeId \<Rightarrow> EdgeData option" where
  "get_edge s i = Option.bind (hm_get (edge_id_to_index s) i) (edge_weight (sg_graph s))"

definition get_edge_mut :: "SCG \<Rightarrow> EdgeId \<Rightarrow> (EdgeData \<Rightarrow> EdgeData) \<Rightarrow> SCG" where
  "get_edge_mut s i f =
     (case hm_get (edge_id_to_index s) i of
        None \<Rightarrow> s
      | Some eidx \<Rightarrow> s\<lparr>sg_graph := edge_weight_mut (sg_graph s) eidx f\<rparr>)"

definition scg_edge_count :: "SCG \<Rightarrow> nat" where
  "scg_edge_count s = edge_count (sg_graph s)"

definition edge_ids :: "SCG \<Rightarrow> EdgeId list" where
  "edge_ids s = hm_keys (edge_id_to_index s)"

definition edges :: "SCG \<Rightarrow> EdgeData list" where
  "edges s = edge_weights (sg_graph s)"

definition add_call_edge :: "SCG \<Rightarrow> NodeId \<Rightarrow> NodeId \<Rightarrow> RegionId \<Rightarrow> SCGError + SCG \<times> EdgeId" where
  "add_call_edge s from_node to_node caller_region = add_edge s from_node to_node (Call from_node to_node caller_region)"

definition add_return_edge :: "SCG \<Rightarrow> NodeId \<Rightarrow> NodeId \<Rightarrow> NodeId list \<Rightarrow> SCGError + SCG \<times> EdgeId" where
  "add_return_edge s from_node to_node return_values = add_edge s from_node to_node (Return from_node to_node return_values)"

definition edges_of_kind :: "SCG \<Rightarrow> EdgeKind \<Rightarrow> EdgeData list" where
  "edges_of_kind s kind = filter (\<lambda>e. ed_kind e = kind) (edges s)"

fun is_call :: "EdgeKind \<Rightarrow> bool" where
  "is_call (Call _ _ _) = True"
| "is_call _ = False"

fun is_return :: "EdgeKind \<Rightarrow> bool" where
  "is_return (Return _ _ _) = True"
| "is_return _ = False"

definition call_edges :: "SCG \<Rightarrow> EdgeData list" where
  "call_edges s = filter (\<lambda>e. is_call (ed_kind e)) (edges s)"

definition return_edges :: "SCG \<Rightarrow> EdgeData list" where
  "return_edges s = filter (\<lambda>e. is_return (ed_kind e)) (edges s)"

fun control_kind :: "NodePayload \<Rightarrow> ControlKind option" where
  "control_kind (Control kind _) = Some kind"
| "control_kind _ = None"

definition function_boundary_nodes :: "SCG \<Rightarrow> NodeId list \<times> NodeId list" where
  "function_boundary_nodes s =
     (let boundary = (\<lambda>k n. nd_node_type n = NtControl \<and> control_kind (nd_payload n) = Some k)
      in (map nd_id (filter (boundary CkFunctionEntry) (nodes s)),
          map nd_id (filter (boundary CkFunctionReturn) (nodes s))))"

section \<open>Traversal\<close>

definition successors :: "SCG \<Rightarrow> NodeId \<Rightarrow> NodeId list option" where
  "successors s i =
     map_option (\<lambda>idx. List.map_filter (hm_get (node_index_to_id s)) (neighbors_directed (sg_graph s) idx Outgoing))
       (hm_get (node_id_to_index s) i)"

definition predecessors :: "SCG \<Rightarrow> NodeId \<Rightarrow> NodeId list option" where
  "predecessors s i =
     map_option (\<lambda>idx. List.map_filter (hm_get (node_index_to_id s)) (neighbors_directed (sg_graph s) idx Incoming))
       (hm_get (node_id_to_index s) i)"

text \<open>The outer option is a panic of the path search, the inner one a node that does not exist.\<close>

definition find_path :: "SCG \<Rightarrow> NodeId \<Rightarrow> NodeId \<Rightarrow> bool option option" where
  "find_path s source target =
     (case (hm_get (node_id_to_index s) source, hm_get (node_id_to_index s) target) of
        (Some source_idx, Some target_idx) \<Rightarrow> map_option Some (has_path_connecting (sg_graph s) source_idx target_idx)
      | _ \<Rightarrow> Some None)"

definition topological_sort :: "SCG \<Rightarrow> (SCGError + NodeId list) option" where
  "topological_sort s =
     map_option (\<lambda>r. case r of
         Inl _ \<Rightarrow> Inl CycleDetected
       | Inr order \<Rightarrow> Inr (List.map_filter (hm_get (node_index_to_id s)) order)) (toposort (sg_graph s))"

definition topological_sort_with_cycles :: "SCG \<Rightarrow> NodeId list option" where
  "topological_sort_with_cycles s =
     map_option (\<lambda>sccs. concat (map (\<lambda>scc. List.map_filter (hm_get (node_index_to_id s)) (sort scc)) (rev sccs)))
       (tarjan_scc (sg_graph s))"

definition has_cycles :: "SCG \<Rightarrow> bool option" where
  "has_cycles s = map_option (\<lambda>r. case r of Inl _ \<Rightarrow> True | Inr _ \<Rightarrow> False) (toposort (sg_graph s))"

section \<open>Regions\<close>

definition add_region :: "SCG \<Rightarrow> SCGRegion \<Rightarrow> SCG" where
  "add_region s region = s\<lparr>sg_regions := hm_insert (rg_id region) region (sg_regions s)\<rparr>"

definition get_region :: "SCG \<Rightarrow> RegionId \<Rightarrow> SCGRegion option" where
  "get_region s i = hm_get (sg_regions s) i"

definition remove_region :: "SCG \<Rightarrow> RegionId \<Rightarrow> SCG \<times> SCGRegion option" where
  "remove_region s i = (s\<lparr>sg_regions := hm_remove i (sg_regions s)\<rparr>, hm_get (sg_regions s) i)"

definition regions :: "SCG \<Rightarrow> SCGRegion list" where
  "regions s = map snd (sg_regions s)"

definition find_region_for_node :: "SCG \<Rightarrow> NodeId \<Rightarrow> RegionId option" where
  "find_region_for_node s n = map_option rg_id (List.find (\<lambda>r. contains_node r n) (regions s))"

definition next_region_id :: "SCG \<Rightarrow> u64" where
  "next_region_id s = fold max (hm_keys (sg_regions s)) 0 + 1"

section \<open>Validation\<close>

datatype ValidationError =
    MissingSource EdgeId NodeId
  | MissingTarget EdgeId NodeId
  | DanglingDeallocation NodeId NodeId
  | CrossesBoundary EdgeId RegionId RegionId

datatype ValidationWarning = NoDeallocation NodeId | OrphanNode NodeId

record ValidationResult =
  is_valid :: bool
  warnings :: "ValidationWarning list"
  errors :: "ValidationError list"

definition validation_ok :: ValidationResult where
  "validation_ok = \<lparr>is_valid = True, warnings = [], errors = []\<rparr>"

definition with_warning :: "ValidationResult \<Rightarrow> ValidationWarning \<Rightarrow> ValidationResult" where
  "with_warning r w = r\<lparr>warnings := warnings r @ [w]\<rparr>"

definition with_error :: "ValidationResult \<Rightarrow> ValidationError \<Rightarrow> ValidationResult" where
  "with_error r e = r\<lparr>is_valid := False, errors := errors r @ [e]\<rparr>"

text \<open>\<^verbatim>\<open>OrderedSet\<close> collected from an iterator: the first occurrences, in order.\<close>

definition ordered_set :: "'a list \<Rightarrow> 'a list" where
  "ordered_set xs = fold (\<lambda>x order. if x \<in> set order then order else order @ [x]) xs []"

fun dealloc_target :: "NodePayload \<Rightarrow> NodeId option" where
  "dealloc_target (Deallocation allocation_node _) = Some allocation_node"
| "dealloc_target _ = None"

definition check_endpoints :: "SCG \<Rightarrow> EdgeData \<Rightarrow> ValidationResult \<Rightarrow> ValidationResult" where
  "check_endpoints s e r =
     (let r1 = (if get_node s (ed_source e) = None then with_error r (MissingSource (ed_id e) (ed_source e)) else r)
      in if get_node s (ed_target e) = None then with_error r1 (MissingTarget (ed_id e) (ed_target e)) else r1)"

definition check_orphan :: "SCG \<Rightarrow> NodeData \<Rightarrow> ValidationResult \<Rightarrow> ValidationResult" where
  "check_orphan s n r =
     (if nd_node_type n \<noteq> NtPhantom then
        let succs = case_option [] id (successors s (nd_id n));
            preds = case_option [] id (predecessors s (nd_id n))
        in if succs = [] \<and> preds = [] \<and> scg_node_count s > 1 then with_warning r (OrphanNode (nd_id n)) else r
      else r)"

definition guarded :: "SCG \<Rightarrow> RegionId \<Rightarrow> bool" where
  "guarded s i = (case hm_get (sg_regions s) i of Some r \<Rightarrow> rg_security_boundary r | None \<Rightarrow> False)"

definition check_boundary :: "SCG \<Rightarrow> EdgeData \<Rightarrow> ValidationResult \<Rightarrow> ValidationResult" where
  "check_boundary s e r =
     (if ed_kind e = DataFlow then
        (case (find_region_for_node s (ed_source e), find_region_for_node s (ed_target e)) of
           (Some src_region, Some tgt_region) \<Rightarrow>
             if src_region \<noteq> tgt_region \<and> (guarded s src_region \<or> guarded s tgt_region)
             then with_error r (CrossesBoundary (ed_id e) src_region tgt_region) else r
         | _ \<Rightarrow> r)
      else r)"

definition validate :: "SCG \<Rightarrow> ValidationResult" where
  "validate s =
     (let r1 = fold (check_endpoints s) (edges s) validation_ok;
          allocations = ordered_set (map nd_id (filter (\<lambda>n. nd_node_type n = NtAllocation) (nodes s)));
          deallocations_referenced = ordered_set (List.map_filter (\<lambda>n. dealloc_target (nd_payload n)) (nodes s));
          r2 = fold (\<lambda>a r. if a \<notin> set deallocations_referenced then with_warning r (NoDeallocation a) else r) allocations r1;
          r3 = fold (\<lambda>n r. case dealloc_target (nd_payload n) of
                 Some a \<Rightarrow> if a \<notin> set allocations then with_error r (DanglingDeallocation (nd_id n) a) else r
               | None \<Rightarrow> r) (nodes s) r2;
          r4 = fold (check_orphan s) (nodes s) r3
      in fold (check_boundary s) (edges s) r4)"

section \<open>Merging\<close>

definition merge_node :: "NodeData \<Rightarrow> SCG \<times> (NodeId, NodeId) hmap \<Rightarrow> SCG \<times> (NodeId, NodeId) hmap" where
  "merge_node n p =
     (let (s, node_map) = p; (s1, new_id) = add_node s (nd_node_type n) (nd_payload n) (nd_program_point n);
          s2 = (case nd_annotation n of
                  Some ann \<Rightarrow> get_node_mut s1 new_id (nd_annotation_update (\<lambda>_. Some ann))
                | None \<Rightarrow> s1)
      in (s2, hm_insert (nd_id n) new_id node_map))"

definition remap :: "(NodeId, NodeId) hmap \<Rightarrow> NodeId \<Rightarrow> NodeId" where
  "remap node_map i = (case hm_get node_map i of Some j \<Rightarrow> j | None \<Rightarrow> i)"

definition merge_edge :: "(NodeId, NodeId) hmap \<Rightarrow> EdgeData \<Rightarrow> SCG \<Rightarrow> SCG" where
  "merge_edge node_map e s =
     (case add_edge s (remap node_map (ed_source e)) (remap node_map (ed_target e)) (ed_kind e) of
        Inr (s1, new_eid) \<Rightarrow>
          (case ed_label e of
             Some label \<Rightarrow> get_edge_mut s1 new_eid (ed_label_update (\<lambda>_. Some label))
           | None \<Rightarrow> s1)
      | Inl _ \<Rightarrow> s)"

definition merge_region :: "(NodeId, NodeId) hmap \<Rightarrow> SCGRegion \<Rightarrow> SCG \<Rightarrow> SCG" where
  "merge_region node_map r s =
     add_region s \<lparr>rg_id = next_region_id s, rg_nodes = (\<lambda>i. the (hm_get node_map i)) ` Set.filter (\<lambda>i. hm_get node_map i \<noteq> None) (rg_nodes r),
       rg_scope_level = rg_scope_level r, rg_security_boundary = rg_security_boundary r,
       rg_deployment_target = rg_deployment_target r\<rparr>"

definition merge :: "SCG \<Rightarrow> SCG \<Rightarrow> SCG \<times> (NodeId, NodeId) hmap" where
  "merge s other =
     (let (s1, node_map) = fold merge_node (nodes other) (s, []);
          s2 = fold (merge_edge node_map) (edges other) s1
      in (fold (merge_region node_map) (regions other) s2, node_map))"

section \<open>Invariant\<close>

definition ids_ok :: "('d \<Rightarrow> u64) \<Rightarrow> (nat \<rightharpoonup> 'd) \<Rightarrow> (u64, nat) hmap \<Rightarrow> (nat, u64) hmap \<Rightarrow> bool" where
  "ids_ok id_of weight to_index to_id \<longleftrightarrow>
     hm_ok to_index \<and> hm_ok to_id \<and>
     (\<forall>i idx. hm_get to_index i = Some idx \<longleftrightarrow> (\<exists>d. weight idx = Some d \<and> id_of d = i)) \<and>
     (\<forall>idx. hm_get to_id idx = map_option id_of (weight idx))"

definition ends_ok :: "SCG \<Rightarrow> bool" where
  "ends_ok s \<longleftrightarrow> (\<forall>e a b d. arcs (sg_graph s) e = Some (a, b, d) \<longrightarrow>
     map_option nd_id (node_weight (sg_graph s) a) = Some (ed_source d) \<and>
     map_option nd_id (node_weight (sg_graph s) b) = Some (ed_target d))"

definition scg_ok :: "SCG \<Rightarrow> bool" where
  "scg_ok s \<longleftrightarrow> digraph_ok (sg_graph s) \<and>
     ids_ok nd_id (node_weight (sg_graph s)) (node_id_to_index s) (node_index_to_id s) \<and>
     ids_ok ed_id (edge_weight (sg_graph s)) (edge_id_to_index s) (edge_index_to_id s) \<and>
     ends_ok s \<and> hm_ok (sg_regions s) \<and> (\<forall>(i, r) \<in> set (sg_regions s). rg_id r = i)"

text \<open>The identifier counters are above every identifier in use.\<close>

definition counters_ok :: "SCG \<Rightarrow> bool" where
  "counters_ok s \<longleftrightarrow> (\<forall>i. get_node s i \<noteq> None \<longrightarrow> i < next_node_id s) \<and> (\<forall>i. get_edge s i \<noteq> None \<longrightarrow> i < next_edge_id s)"

section \<open>Identifier maps\<close>

lemma ids_okD:
  assumes "ids_ok id_of weight to_index to_id"
  shows "hm_ok to_index" "hm_ok to_id"
    "hm_get to_index i = Some k \<longleftrightarrow> (\<exists>d. weight k = Some d \<and> id_of d = i)"
    "hm_get to_id k = map_option id_of (weight k)"
  using assms by (simp_all add: ids_ok_def)

lemma ids_ok_inj:
  assumes "ids_ok id_of weight to_index to_id" "weight k = Some d" "weight k' = Some d'" "id_of d = id_of d'"
  shows "k = k'"
proof -
  have "hm_get to_index (id_of d) = Some k" "hm_get to_index (id_of d) = Some k'"
    using assms ids_okD(3) [OF assms(1)] by auto
  then show ?thesis by simp
qed

lemma ids_ok_lookup:
  assumes "ids_ok id_of weight to_index to_id"
  shows "Option.bind (hm_get to_index i) weight = Some d \<longleftrightarrow> (\<exists>k. weight k = Some d \<and> id_of d = i)"
  using ids_okD(3) [OF assms] by (auto simp: bind_eq_Some_conv)

lemma ids_ok_absent:
  assumes "ids_ok id_of weight to_index to_id"
  shows "hm_get to_index i = None \<longleftrightarrow> (\<forall>k d. weight k = Some d \<longrightarrow> id_of d \<noteq> i)"
  using ids_okD(3) [OF assms, of i] by (metis not_None_eq option.distinct(1))

lemma ids_ok_insert:
  assumes "ids_ok id_of weight to_index to_id" "weight k = None" "\<forall>j d. weight j = Some d \<longrightarrow> id_of d \<noteq> id_of x"
  shows "ids_ok id_of (weight(k \<mapsto> x)) (hm_insert (id_of x) k to_index) (hm_insert k (id_of x) to_id)"
  using assms unfolding ids_ok_def by (auto simp: hm_get_insert hm_ok_insert)

lemma ids_ok_empty: "ids_ok id_of (\<lambda>_. None) [] []"
  by (simp add: ids_ok_def)

definition reindex :: "('d \<Rightarrow> u64) \<Rightarrow> (nat \<rightharpoonup> 'd) \<Rightarrow> nat list \<Rightarrow> (u64, nat) hmap \<times> (nat, u64) hmap" where
  "reindex id_of weight ks =
     fold (\<lambda>k (to_index, to_id). case weight k of
         Some d \<Rightarrow> (hm_insert (id_of d) k to_index, hm_insert k (id_of d) to_id)
       | None \<Rightarrow> (to_index, to_id)) ks ([], [])"

lemma reindex_step:
  assumes "ids_ok id_of (weight |` S) to_index to_id" "distinct ks" "set ks \<inter> S = {}"
    and "\<And>k k' d d'. \<lbrakk>weight k = Some d; weight k' = Some d'; id_of d = id_of d'\<rbrakk> \<Longrightarrow> k = k'"
  shows "case fold (\<lambda>k (to_index, to_id). case weight k of
         Some d \<Rightarrow> (hm_insert (id_of d) k to_index, hm_insert k (id_of d) to_id)
       | None \<Rightarrow> (to_index, to_id)) ks (to_index, to_id) of
    (ti, td) \<Rightarrow> ids_ok id_of (weight |` (S \<union> set ks)) ti td"
  using assms(1-3)
proof (induction ks arbitrary: S to_index to_id)
  case (Cons k ks)
  show ?case
  proof (cases "weight k")
    case None
    then have "weight |` insert k S = weight |` S" by (auto simp: restrict_map_def fun_eq_iff)
    then show ?thesis using Cons.IH [of "insert k S" to_index to_id] Cons.prems None by simp
  next
    case (Some x)
    have "weight |` insert k S = (weight |` S)(k \<mapsto> x)" using Some by (auto simp: restrict_map_def fun_eq_iff)
    moreover have "ids_ok id_of ((weight |` S)(k \<mapsto> x)) (hm_insert (id_of x) k to_index) (hm_insert k (id_of x) to_id)"
    proof (rule ids_ok_insert [OF Cons.prems(1)])
      show "(weight |` S) k = None" using Cons.prems(3) by simp
      show "\<forall>j d. (weight |` S) j = Some d \<longrightarrow> id_of d \<noteq> id_of x"
        using assms(4) Some Cons.prems(3) by (force simp: restrict_map_def split: if_splits)
    qed
    ultimately have "ids_ok id_of (weight |` insert k S) (hm_insert (id_of x) k to_index) (hm_insert k (id_of x) to_id)"
      by simp
    from Cons.IH [OF this] Cons.prems Some show ?thesis by simp
  qed
qed simp

lemma reindex_ok:
  assumes "distinct ks" "dom weight \<subseteq> set ks"
    and "\<And>k k' d d'. \<lbrakk>weight k = Some d; weight k' = Some d'; id_of d = id_of d'\<rbrakk> \<Longrightarrow> k = k'"
  shows "ids_ok id_of weight (fst (reindex id_of weight ks)) (snd (reindex id_of weight ks))"
proof -
  have "ids_ok id_of (weight |` {}) [] []" using ids_ok_empty by (simp add: restrict_map_def)
  from reindex_step [OF this assms(1) _ assms(3)] have "ids_ok id_of (weight |` set ks) (fst (reindex id_of weight ks)) (snd (reindex id_of weight ks))"
    by (simp add: reindex_def split_beta)
  moreover have "weight |` set ks = weight"
  proof
    fix k
    show "(weight |` set ks) k = weight k" using assms(2) by (cases "weight k") (auto simp: restrict_map_def)
  qed
  ultimately show ?thesis by simp
qed

lemma rebuild_edges: "rebuild_edge_mappings s = s\<lparr>
    edge_id_to_index := fst (reindex ed_id (edge_weight (sg_graph s)) (edge_indices (sg_graph s))),
    edge_index_to_id := snd (reindex ed_id (edge_weight (sg_graph s)) (edge_indices (sg_graph s)))\<rparr>"
proof -
  have "fold (\<lambda>eidx s. case edge_weight (sg_graph s) eidx of
           Some data \<Rightarrow> s\<lparr>edge_id_to_index := hm_insert (ed_id data) eidx (edge_id_to_index s),
                          edge_index_to_id := hm_insert eidx (ed_id data) (edge_index_to_id s)\<rparr>
         | None \<Rightarrow> s) es (s\<lparr>edge_id_to_index := a, edge_index_to_id := b\<rparr>)
      = (case fold (\<lambda>k (ti, td). case edge_weight (sg_graph s) k of
           Some d \<Rightarrow> (hm_insert (ed_id d) k ti, hm_insert k (ed_id d) td) | None \<Rightarrow> (ti, td)) es (a, b) of
         (ti, td) \<Rightarrow> s\<lparr>edge_id_to_index := ti, edge_index_to_id := td\<rparr>)" for es a b
    by (induction es arbitrary: a b) (auto split: option.splits)
  then show ?thesis by (simp add: rebuild_edge_mappings_def reindex_def split_beta)
qed

lemma rebuild_nodes: "rebuild_node_mappings s = s\<lparr>
    node_id_to_index := fst (reindex nd_id (node_weight (sg_graph s)) (node_indices (sg_graph s))),
    node_index_to_id := snd (reindex nd_id (node_weight (sg_graph s)) (node_indices (sg_graph s)))\<rparr>"
proof -
  have "fold (\<lambda>k s. case node_weight (sg_graph s) k of
           Some data \<Rightarrow> s\<lparr>node_id_to_index := hm_insert (nd_id data) k (node_id_to_index s),
                          node_index_to_id := hm_insert k (nd_id data) (node_index_to_id s)\<rparr>
         | None \<Rightarrow> s) es (s\<lparr>node_id_to_index := a, node_index_to_id := b\<rparr>)
      = (case fold (\<lambda>k (ti, td). case node_weight (sg_graph s) k of
           Some d \<Rightarrow> (hm_insert (nd_id d) k ti, hm_insert k (nd_id d) td) | None \<Rightarrow> (ti, td)) es (a, b) of
         (ti, td) \<Rightarrow> s\<lparr>node_id_to_index := ti, node_index_to_id := td\<rparr>)" for es a b
    by (induction es arbitrary: a b) (auto split: option.splits)
  then show ?thesis by (simp add: rebuild_node_mappings_def reindex_def split_beta)
qed

lemma distinct_indices: "distinct (node_indices g)" "distinct (edge_indices g)"
  by (simp_all add: node_indices_def edge_indices_def)

lemma rebuild_edges_ok:
  assumes "\<And>k k' d d'. \<lbrakk>edge_weight (sg_graph s) k = Some d; edge_weight (sg_graph s) k' = Some d'; ed_id d = ed_id d'\<rbrakk> \<Longrightarrow> k = k'"
  shows "ids_ok ed_id (edge_weight (sg_graph s)) (edge_id_to_index (rebuild_edge_mappings s)) (edge_index_to_id (rebuild_edge_mappings s))"
proof -
  have "dom (edge_weight (sg_graph s)) \<subseteq> set (edge_indices (sg_graph s))"
    by (auto simp: edge_indices_live live_edges_def edge_weight_def)
  then show ?thesis unfolding rebuild_edges using reindex_ok [OF distinct_indices(2) _ assms] by simp
qed

lemma rebuild_nodes_ok:
  assumes "\<And>k k' d d'. \<lbrakk>node_weight (sg_graph s) k = Some d; node_weight (sg_graph s) k' = Some d'; nd_id d = nd_id d'\<rbrakk> \<Longrightarrow> k = k'"
  shows "ids_ok nd_id (node_weight (sg_graph s)) (node_id_to_index (rebuild_node_mappings s)) (node_index_to_id (rebuild_node_mappings s))"
proof -
  have "dom (node_weight (sg_graph s)) \<subseteq> set (node_indices (sg_graph s))"
    by (auto simp: node_indices_live live_weight)
  then show ?thesis unfolding rebuild_nodes using reindex_ok [OF distinct_indices(1) _ assms] by simp
qed

section \<open>Lookups as the abstract state\<close>

lemma scg_okD:
  assumes "scg_ok s"
  shows "digraph_ok (sg_graph s)"
    "ids_ok nd_id (node_weight (sg_graph s)) (node_id_to_index s) (node_index_to_id s)"
    "ids_ok ed_id (edge_weight (sg_graph s)) (edge_id_to_index s) (edge_index_to_id s)" "ends_ok s"
  using assms by (simp_all add: scg_ok_def)

lemma mem_slot: "Some y \<in> set xs \<longleftrightarrow> (\<exists>i. slot xs i = Some y)"
  by (auto simp: slot_def in_set_conv_nth)

lemma set_slot_weights: "set (List.map_filter (map_option f) xs) = ran (\<lambda>i. map_option f (slot xs i))"
proof -
  have "y \<in> set (List.map_filter (map_option f) xs) \<longleftrightarrow> (\<exists>x. Some x \<in> set xs \<and> y = f x)" for y
    by (auto simp: set_map_filter)
  then show ?thesis by (auto simp: ran_def mem_slot) blast
qed

lemma set_node_weights: "set (node_weights g) = ran (node_weight g)"
  by (simp add: node_weights_def set_slot_weights node_weight_def [abs_def])

lemma set_edge_weights: "set (edge_weights g) = ran (edge_weight g)"
  by (simp add: edge_weights_def set_slot_weights edge_weight_def [abs_def])

lemma get_node_iff: "scg_ok s \<Longrightarrow> get_node s i = Some d \<longleftrightarrow> (\<exists>k. node_weight (sg_graph s) k = Some d \<and> nd_id d = i)"
  unfolding get_node_def by (rule ids_ok_lookup [OF scg_okD(2)])

lemma get_edge_iff: "scg_ok s \<Longrightarrow> get_edge s i = Some d \<longleftrightarrow> (\<exists>k. edge_weight (sg_graph s) k = Some d \<and> ed_id d = i)"
  unfolding get_edge_def by (rule ids_ok_lookup [OF scg_okD(3)])

lemma get_node_None: "scg_ok s \<Longrightarrow> get_node s i = None \<longleftrightarrow> hm_get (node_id_to_index s) i = None"
  using get_node_iff [of s i] ids_ok_absent [OF scg_okD(2), of s i] by (metis not_None_eq)

lemma get_edge_None: "scg_ok s \<Longrightarrow> get_edge s i = None \<longleftrightarrow> hm_get (edge_id_to_index s) i = None"
  using get_edge_iff [of s i] ids_ok_absent [OF scg_okD(3), of s i] by (metis not_None_eq)

lemma get_node_id: "scg_ok s \<Longrightarrow> get_node s i = Some d \<Longrightarrow> nd_id d = i"
  by (simp add: get_node_iff)

lemma get_edge_id: "scg_ok s \<Longrightarrow> get_edge s i = Some d \<Longrightarrow> ed_id d = i"
  by (simp add: get_edge_iff)

lemma map_eqI: "(\<And>i d. m i = Some d \<longleftrightarrow> m' i = Some d) \<Longrightarrow> m = m'"
  by (rule ext) (metis option.exhaust)

lemma edge_ends:
  assumes "scg_ok s" "arcs (sg_graph s) e = Some (a, b, d)"
  shows "\<exists>da db. node_weight (sg_graph s) a = Some da \<and> node_weight (sg_graph s) b = Some db
    \<and> nd_id da = ed_source d \<and> nd_id db = ed_target d"
proof -
  have "map_option nd_id (node_weight (sg_graph s) a) = Some (ed_source d)"
      "map_option nd_id (node_weight (sg_graph s) b) = Some (ed_target d)"
    using assms(2) scg_okD(4) [OF assms(1)] unfolding ends_ok_def by blast+
  then show ?thesis by auto
qed

lemma get_edge_ends:
  assumes "scg_ok s" "get_edge s e = Some d"
  shows "get_node s (ed_source d) \<noteq> None \<and> get_node s (ed_target d) \<noteq> None"
proof -
  obtain k a b where "arcs (sg_graph s) k = Some (a, b, d)"
    using assms get_edge_iff [OF assms(1)] by (auto simp: edge_weight_arcs)
  from edge_ends [OF assms(1) this] show ?thesis using get_node_iff [OF assms(1)] by (metis option.distinct(1))
qed

section \<open>Operations on the abstract state\<close>

lemma scg_new_ok: "scg_ok scg_new" "counters_ok scg_new"
proof -
  have "node_weight (digraph_new :: (NodeData, EdgeData) DiGraph) = (\<lambda>_. None)"
      "edge_weight (digraph_new :: (NodeData, EdgeData) DiGraph) = (\<lambda>_. None)"
      "arcs (digraph_new :: (NodeData, EdgeData) DiGraph) = (\<lambda>_. None)"
    by (auto simp: node_weight_def edge_weight_def arcs_def digraph_new_def slot_def)
  then show "scg_ok scg_new" "counters_ok scg_new"
    by (simp_all add: scg_ok_def counters_ok_def scg_new_def ids_ok_empty ends_ok_def get_node_def get_edge_def)
qed

lemma ex_upd: "w k = None \<Longrightarrow> (\<exists>j. (w(k \<mapsto> x)) j = Some d) \<longleftrightarrow> x = d \<or> (\<exists>j. w j = Some d)"
  by (metis fun_upd_apply option.distinct(1) option.inject)

lemma insert_node_spec:
  assumes "scg_ok s" "get_node s (nd_id data) = None"
  shows "scg_ok (insert_node s data)" "get_node (insert_node s data) = (get_node s)(nd_id data \<mapsto> data)"
    "get_edge (insert_node s data) = get_edge s"
proof -
  note D = scg_okD [OF assms(1)]
  obtain g k where gk: "dg_add_node (sg_graph s) data = (g, k)" by fastforce
  note A = add_node_abs [OF gk]
  let ?s = "insert_node s data"
  have f: "sg_graph ?s = g" "node_id_to_index ?s = hm_insert (nd_id data) k (node_id_to_index s)"
      "node_index_to_id ?s = hm_insert k (nd_id data) (node_index_to_id s)" "edge_id_to_index ?s = edge_id_to_index s"
      "edge_index_to_id ?s = edge_index_to_id s" "sg_regions ?s = sg_regions s"
    by (simp_all add: insert_node_def gk)
  have ew: "edge_weight g = edge_weight (sg_graph s)" using A(2) by (simp add: edge_weight_arcs fun_eq_iff)
  have k: "node_weight (sg_graph s) k = None" using A(3) by (simp add: live_weight)
  have fresh: "\<forall>j d. node_weight (sg_graph s) j = Some d \<longrightarrow> nd_id d \<noteq> nd_id data"
    using ids_ok_absent [OF D(2)] assms(2) get_node_None [OF assms(1)] by metis
  have "ends_ok ?s" using D(4) k unfolding ends_ok_def f A(1,2) by (metis fun_upd_apply option.simps(8) option.distinct(1))
  then show ok: "scg_ok ?s"
    unfolding scg_ok_def f A(1) ew using add_node_ok [OF D(1) gk] ids_ok_insert [OF D(2) k fresh] D(3) assms(1)
    by (simp add: scg_ok_def)
  show "get_node ?s = (get_node s)(nd_id data \<mapsto> data)"
  proof (rule map_eqI)
    fix i d
    show "get_node ?s i = Some d \<longleftrightarrow> ((get_node s)(nd_id data \<mapsto> data)) i = Some d"
      using ex_upd [where w = "node_weight (sg_graph s)" and k = k and x = data and d = d] k fresh get_node_iff [OF assms(1), of i d] get_node_iff [OF ok, of i d]
      unfolding f(1) A(1) by (auto split: if_splits)
  qed
  show "get_edge ?s = get_edge s" by (simp add: get_edge_def f ew fun_eq_iff)
qed

lemma edge_weight_upd: "arcs g = A(e := Some (a, b, w)) \<Longrightarrow> A = arcs g' \<Longrightarrow> edge_weight g = (edge_weight g')(e \<mapsto> w)"
  by (simp add: edge_weight_arcs fun_eq_iff)

lemma insert_edge_spec:
  assumes "scg_ok s" "get_edge s (ed_id data) = None"
    and "hm_get (node_id_to_index s) (ed_source data) = Some a" "hm_get (node_id_to_index s) (ed_target data) = Some b"
  shows "scg_ok (insert_edge s a b data)" "get_edge (insert_edge s a b data) = (get_edge s)(ed_id data \<mapsto> data)"
    "get_node (insert_edge s a b data) = get_node s"
proof -
  note D = scg_okD [OF assms(1)]
  obtain g k where gk: "dg_add_edge (sg_graph s) a b data = (g, k)" by fastforce
  note A = add_edge_abs [OF gk]
  let ?s = "insert_edge s a b data"
  have f: "sg_graph ?s = g" "edge_id_to_index ?s = hm_insert (ed_id data) k (edge_id_to_index s)"
      "edge_index_to_id ?s = hm_insert k (ed_id data) (edge_index_to_id s)" "node_id_to_index ?s = node_id_to_index s"
      "node_index_to_id ?s = node_index_to_id s" "sg_regions ?s = sg_regions s"
    by (simp_all add: insert_edge_def gk)
  have ew: "edge_weight g = (edge_weight (sg_graph s))(k \<mapsto> data)" by (rule edge_weight_upd [OF A(1) refl])
  have k: "edge_weight (sg_graph s) k = None" using A(3) by (simp add: edge_weight_arcs)
  have fresh: "\<forall>j d. edge_weight (sg_graph s) j = Some d \<longrightarrow> ed_id d \<noteq> ed_id data"
    using ids_ok_absent [OF D(3)] assms(2) get_edge_None [OF assms(1)] by metis
  obtain da db where ab: "node_weight (sg_graph s) a = Some da" "nd_id da = ed_source data"
      "node_weight (sg_graph s) b = Some db" "nd_id db = ed_target data"
    using assms(3,4) ids_okD(3) [OF D(2)] by auto
  have "ends_ok ?s" using D(4) ab unfolding ends_ok_def f A(1,2) by auto
  moreover have "digraph_ok g" using add_edge_ok [OF D(1) _ _ gk] ab by (simp add: live_weight)
  ultimately show ok: "scg_ok ?s"
    unfolding scg_ok_def f A(2) ew using ids_ok_insert [OF D(3) k fresh] D(2) assms(1) by (simp add: scg_ok_def)
  show "get_edge ?s = (get_edge s)(ed_id data \<mapsto> data)"
  proof (rule map_eqI)
    fix i d
    show "get_edge ?s i = Some d \<longleftrightarrow> ((get_edge s)(ed_id data \<mapsto> data)) i = Some d"
      using ex_upd [where w = "edge_weight (sg_graph s)" and k = k and x = data and d = d] k fresh
        get_edge_iff [OF assms(1), of i d] get_edge_iff [OF ok, of i d]
      unfolding f(1) ew by (auto split: if_splits)
  qed
  show "get_node ?s = get_node s" by (simp add: get_node_def f A(2) fun_eq_iff)
qed

lemma lookup_delete:
  assumes "ids_ok id_of w to_index to_id" "w k = Some d"
  shows "(\<exists>j. (w(k := None)) j = Some x \<and> id_of x = i) \<longleftrightarrow> (\<exists>j. w j = Some x \<and> id_of x = i) \<and> i \<noteq> id_of d"
proof
  assume "\<exists>j. (w(k := None)) j = Some x \<and> id_of x = i"
  then obtain j where j: "j \<noteq> k" "w j = Some x" "id_of x = i" by (auto split: if_splits)
  then show "(\<exists>j. w j = Some x \<and> id_of x = i) \<and> i \<noteq> id_of d" using ids_ok_inj [OF assms(1) j(2) assms(2)] by auto
next
  assume "(\<exists>j. w j = Some x \<and> id_of x = i) \<and> i \<noteq> id_of d"
  then obtain j where j: "w j = Some x" "id_of x = i" "i \<noteq> id_of d" by blast
  then have "j \<noteq> k" using assms(2) by auto
  with j show "\<exists>j. (w(k := None)) j = Some x \<and> id_of x = i" by auto
qed

text \<open>A graph in which some slots were vacated, with its maps rebuilt.\<close>

lemma rebuilt_ok:
  assumes "scg_ok s" "digraph_ok g" "node_weight g \<subseteq>\<^sub>m node_weight (sg_graph s)" "arcs g \<subseteq>\<^sub>m arcs (sg_graph s)"
    and "sg_graph t = g" "sg_regions t = sg_regions s" "ids_ok nd_id (node_weight g) (node_id_to_index t) (node_index_to_id t)"
    and "ids_ok ed_id (edge_weight g) (edge_id_to_index t) (edge_index_to_id t)"
  shows "scg_ok t"
proof -
  note D = scg_okD [OF assms(1)]
  have "map_option nd_id (node_weight g a) = Some (ed_source d) \<and> map_option nd_id (node_weight g b) = Some (ed_target d)"
    if e: "arcs g e = Some (a, b, d)" for e a b d
  proof -
    have "node_weight g a \<noteq> None" "node_weight g b \<noteq> None"
      using digraph_ok_ends [OF assms(2) e] by (simp_all add: live_weight)
    moreover have "arcs (sg_graph s) e = Some (a, b, d)" using e assms(4) by (metis domI map_le_def)
    ultimately show ?thesis using edge_ends [OF assms(1)] assms(3) by (fastforce simp: map_le_def dom_def)
  qed
  then have "ends_ok t" using assms(5) by (simp add: ends_ok_def)
  then show ?thesis using assms(1,2,5-8) by (simp add: scg_ok_def)
qed

lemma remove_edge_spec:
  assumes "scg_ok s" "get_edge s i = Some d"
  shows "\<exists>s'. remove_edge s i = Some (Inr (s', d)) \<and> scg_ok s' \<and> get_node s' = get_node s \<and> get_edge s' = (get_edge s)(i := None)
    \<and> next_node_id s' = next_node_id s \<and> next_edge_id s' = next_edge_id s"
proof -
  note D = scg_okD [OF assms(1)]
  obtain k where k: "edge_weight (sg_graph s) k = Some d" "ed_id d = i" "hm_get (edge_id_to_index s) i = Some k"
    using assms get_edge_iff [OF assms(1)] ids_okD(3) [OF D(3)] by metis
  let ?g = "fst (remove_edge_inner (sg_graph s) k)"
  define s1 where "s1 = s\<lparr>edge_id_to_index := hm_remove i (edge_id_to_index s),
     edge_index_to_id := hm_remove k (edge_index_to_id s), sg_graph := ?g\<rparr>"
  define t where "t = rebuild_edge_mappings s1"
  have g: "digraph_ok ?g" "arcs ?g = (arcs (sg_graph s))(k := None)" "node_weight ?g = node_weight (sg_graph s)"
      "snd (remove_edge_inner (sg_graph s) k) = Some d"
    using remove_edge_ok [OF D(1)] k(1) by (simp_all add: remove_edge_arcs remove_edge_weights remove_edge_result)
  have ew: "edge_weight ?g = (edge_weight (sg_graph s))(k := None)" using g(2) by (auto simp: edge_weight_arcs)
  have t: "sg_graph t = ?g" "node_id_to_index t = node_id_to_index s" "node_index_to_id t = node_index_to_id s"
      "sg_regions t = sg_regions s" "next_node_id t = next_node_id s" "next_edge_id t = next_edge_id s"
    by (simp_all add: t_def s1_def rebuild_edges)
  have s1: "sg_graph s1 = ?g" by (simp add: s1_def)
  have "a = b" if "edge_weight ?g a = Some x" "edge_weight ?g b = Some y" "ed_id x = ed_id y" for a b x y
    using that ids_ok_inj [OF D(3)] by (auto simp: ew split: if_splits)
  then have "ids_ok ed_id (edge_weight ?g) (edge_id_to_index t) (edge_index_to_id t)"
    unfolding t_def s1 [symmetric] by (rule rebuild_edges_ok)
  then have ok: "scg_ok t"
    using rebuilt_ok [OF assms(1) g(1) _ _ t(1,4)] t(2,3) D(2) by (simp add: g(2,3) map_le_def)
  have "remove_edge s i = Some (Inr (t, d))"
    using k g(4) unfolding t_def s1_def
    by (simp add: remove_edge_def dg_remove_edge_def Let_def split_beta)
  moreover have "get_node t = get_node s" by (simp add: get_node_def t g(3) fun_eq_iff)
  moreover have "get_edge t = (get_edge s)(i := None)"
  proof (rule map_eqI)
    fix j x
    show "get_edge t j = Some x \<longleftrightarrow> ((get_edge s)(i := None)) j = Some x"
      unfolding get_edge_iff [OF ok] t ew lookup_delete [OF D(3) k(1)] using get_edge_iff [OF assms(1), of j x] k(2) by simp
  qed
  ultimately show ?thesis using ok t by blast
qed

lemma forget_edges_simps [simp]:
  "sg_graph (forget_edges es s) = sg_graph s" "node_index_to_id (forget_edges es s) = node_index_to_id s"
  "sg_regions (forget_edges es s) = sg_regions s" "next_node_id (forget_edges es s) = next_node_id s"
  "next_edge_id (forget_edges es s) = next_edge_id s"
  unfolding forget_edges_def by (induction es arbitrary: s) (auto split: option.splits)

lemma scg_remove_node_spec:
  assumes "scg_ok s" "get_node s i = Some d"
  shows "\<exists>s'. remove_node s i = Some (Inr (s', d)) \<and> scg_ok s' \<and> get_node s' = (get_node s)(i := None)
    \<and> get_edge s' = (\<lambda>e. case get_edge s e of Some x \<Rightarrow> if ed_source x = i \<or> ed_target x = i then None else Some x | None \<Rightarrow> None)
    \<and> next_node_id s' = next_node_id s \<and> next_edge_id s' = next_edge_id s"
proof -
  note D = scg_okD [OF assms(1)]
  obtain k where k: "node_weight (sg_graph s) k = Some d" "nd_id d = i" "hm_get (node_id_to_index s) i = Some k"
    using assms get_node_iff [OF assms(1)] ids_okD(3) [OF D(2)] by metis
  obtain g r where gr: "dg_remove_node (sg_graph s) k = (g, r)" by fastforce
  have G: "digraph_ok g" "r = Some d" "node_weight g = (node_weight (sg_graph s))(k := None)"
      "arcs g = (arcs (sg_graph s)) |` (- incident k (arcs (sg_graph s)))"
    using digraph_store_laws [OF D(1) gr] k(1) by simp_all
  define s3 where "s3 = (forget_edges (map er_id (edges_directed (sg_graph s) k Outgoing @ edges_directed (sg_graph s) k Incoming))
     (s\<lparr>node_id_to_index := hm_remove i (node_id_to_index s)\<rparr>))\<lparr>node_index_to_id := hm_remove k (node_index_to_id s), sg_graph := g\<rparr>"
  define t where "t = rebuild_index_mappings s3"
  have s3: "sg_graph s3 = g" "sg_regions s3 = sg_regions s" "next_node_id s3 = next_node_id s" "next_edge_id s3 = next_edge_id s"
    by (simp_all add: s3_def)
  have rn: "sg_graph (rebuild_node_mappings s3) = g" by (simp add: rebuild_nodes s3)
  have t: "sg_graph t = g" "sg_regions t = sg_regions s" "next_node_id t = next_node_id s" "next_edge_id t = next_edge_id s"
      "node_id_to_index t = node_id_to_index (rebuild_node_mappings s3)" "node_index_to_id t = node_index_to_id (rebuild_node_mappings s3)"
    by (simp_all add: t_def rebuild_index_mappings_def rebuild_edges rebuild_nodes s3)
  have ew: "edge_weight g e = Some x \<longleftrightarrow> edge_weight (sg_graph s) e = Some x \<and> e \<notin> incident k (arcs (sg_graph s))" for e x
    by (auto simp: edge_weight_arcs G(4) restrict_map_def)
  have "a = b" if "node_weight g a = Some x" "node_weight g b = Some y" "nd_id x = nd_id y" for a b x y
    using that ids_ok_inj [OF D(2)] by (auto simp: G(3) split: if_splits)
  then have n: "ids_ok nd_id (node_weight g) (node_id_to_index t) (node_index_to_id t)"
    unfolding t s3(1) [symmetric] by (rule rebuild_nodes_ok)
  have "a = b" if "edge_weight g a = Some x" "edge_weight g b = Some y" "ed_id x = ed_id y" for a b x y
    using that ids_ok_inj [OF D(3)] by (auto simp: ew)
  then have e: "ids_ok ed_id (edge_weight g) (edge_id_to_index t) (edge_index_to_id t)"
    unfolding t_def rebuild_index_mappings_def rn [symmetric] by (rule rebuild_edges_ok)
  have ok: "scg_ok t"
    using rebuilt_ok [OF assms(1) G(1) _ _ t(1,2) n e] by (simp add: G(3,4) map_le_def)
  have "s3 = (let s2 = forget_edges (map er_id (edges_directed (sg_graph s) k Outgoing @ edges_directed (sg_graph s) k Incoming))
     (s\<lparr>node_id_to_index := hm_remove i (node_id_to_index s)\<rparr>) in s2\<lparr>node_index_to_id := hm_remove k (node_index_to_id s2)\<rparr>\<lparr>sg_graph := g\<rparr>)"
    by (simp add: s3_def Let_def)
  then have "remove_node s i = Some (Inr (t, d))"
    using k(3) G(2) gr unfolding remove_node_def t_def by (simp add: Let_def)
  moreover have "get_node t = (get_node s)(i := None)"
  proof (rule map_eqI)
    fix j x
    show "get_node t j = Some x \<longleftrightarrow> ((get_node s)(i := None)) j = Some x"
      unfolding get_node_iff [OF ok] t G(3) lookup_delete [OF D(2) k(1)] using get_node_iff [OF assms(1), of j x] k(2) by simp
  qed
  moreover have inc: "m \<in> incident k (arcs (sg_graph s)) \<longleftrightarrow> ed_source x = i \<or> ed_target x = i"
    if m: "edge_weight (sg_graph s) m = Some x" for m x
  proof -
    obtain a b where ab: "arcs (sg_graph s) m = Some (a, b, x)" using m by (auto simp: edge_weight_arcs)
    from edge_ends [OF assms(1) ab] obtain da db where "node_weight (sg_graph s) a = Some da" "nd_id da = ed_source x"
        "node_weight (sg_graph s) b = Some db" "nd_id db = ed_target x" by blast
    then have "a = k \<longleftrightarrow> ed_source x = i" "b = k \<longleftrightarrow> ed_target x = i"
      using k ids_ok_inj [OF D(2)] by (metis option.inject)+
    then show ?thesis using ab by (auto simp: incident_def)
  qed
  have "get_edge t = (\<lambda>e. case get_edge s e of Some x \<Rightarrow> if ed_source x = i \<or> ed_target x = i then None else Some x | None \<Rightarrow> None)"
  proof (rule map_eqI)
    fix j x
    have "get_edge t j = Some x \<longleftrightarrow> get_edge s j = Some x \<and> \<not> (ed_source x = i \<or> ed_target x = i)"
      unfolding get_edge_iff [OF ok] get_edge_iff [OF assms(1)] t ew using inc by blast
    then show "get_edge t j = Some x \<longleftrightarrow> (case get_edge s j of
        Some x \<Rightarrow> if ed_source x = i \<or> ed_target x = i then None else Some x | None \<Rightarrow> None) = Some x"
      by (auto split: option.splits)
  qed
  ultimately show ?thesis using ok t by blast
qed

lemma add_region_ok:
  assumes "scg_ok s"
  shows "scg_ok (add_region s r)" "get_node (add_region s r) = get_node s" "get_edge (add_region s r) = get_edge s"
proof -
  have "set (hm_insert (rg_id r) r rs) \<subseteq> insert (rg_id r, r) (set rs)" for rs
    by (induction rs) auto
  then show "scg_ok (add_region s r)"
    using assms by (fastforce simp: scg_ok_def add_region_def ends_ok_def hm_ok_insert)
  show "get_node (add_region s r) = get_node s" "get_edge (add_region s r) = get_edge s"
    by (simp_all add: add_region_def get_node_def get_edge_def fun_eq_iff)
qed

section \<open>Annotations and labels\<close>

lemma slot_weight_mut:
  "node_weight (node_weight_mut g k f) j = (if j = k then map_option f (node_weight g j) else node_weight g j)"
  "edge_weight (edge_weight_mut g k h) j = (if j = k then map_option h (edge_weight g j) else edge_weight g j)"
  "arcs (node_weight_mut g k f) = arcs g" "node_weight (edge_weight_mut g k h) = node_weight g"
  "arcs (edge_weight_mut g k h) j = (if j = k then map_option (\<lambda>(a, b, d). (a, b, h d)) (arcs g j) else arcs g j)"
  by (auto simp: node_weight_def edge_weight_def node_weight_mut_def edge_weight_mut_def arcs_def slot_on_slot
      option.map_comp o_def fun_eq_iff)

lemma map_option_eq_None: "(map_option f x = None) = (x = None)"
  by (cases x) auto

lemma weight_mut_ok:
  assumes "digraph_ok g"
  shows "digraph_ok (node_weight_mut g k f)" "digraph_ok (edge_weight_mut g k h)"
proof -
  have live: "live (node_weight_mut g k f) = live g" "live (edge_weight_mut g k h) = live g"
      "live_edges (node_weight_mut g k f) = live_edges g" "live_edges (edge_weight_mut g k h) = live_edges g"
    by (auto simp: live_def live_edges_def node_weight_mut_def edge_weight_mut_def slot_on_slot split: if_splits)
  have lists: "lists_ok A i (ne_weight_update f entry) = lists_ok A i entry" for A :: "nat \<rightharpoonup> nat \<times> nat \<times> 'b" and i entry
    by (simp add: lists_ok_def)
  show "digraph_ok (node_weight_mut g k f)"
    using assms unfolding digraph_ok_def slot_weight_mut live
    by (auto simp: node_weight_mut_def slot_on_slot lists split: if_splits)
  have "lists_ok (arcs (edge_weight_mut g k h)) i entry = lists_ok (arcs g) i entry" for i and entry :: "'a NodeEntry"
  proof -
    have "{e. \<exists>t w. arcs (edge_weight_mut g k h) e = Some (i, t, w)} = {e. \<exists>t w. arcs g e = Some (i, t, w)}"
        "{e. \<exists>s w. arcs (edge_weight_mut g k h) e = Some (s, i, w)} = {e. \<exists>s w. arcs g e = Some (s, i, w)}"
      by (auto simp: slot_weight_mut split: if_splits)
    then show ?thesis by (simp add: lists_ok_def)
  qed
  moreover have "\<forall>e s t w. arcs (edge_weight_mut g k h) e = Some (s, t, w) \<longrightarrow> s \<in> live g \<and> t \<in> live g"
    using digraph_ok_ends [OF assms] by (auto simp: slot_weight_mut split: if_splits)
  ultimately show "digraph_ok (edge_weight_mut g k h)"
    using assms unfolding digraph_ok_def live by (simp add: edge_weight_mut_def)
qed

lemma ids_ok_mut:
  assumes "ids_ok id_of w ti td" "\<And>d. id_of (f d) = id_of d" "\<And>j. w' j = (if j = k then map_option f (w j) else w j)"
  shows "ids_ok id_of w' ti td"
proof -
  have "map_option id_of (w' j) = map_option id_of (w j)" for j
    using assms(2,3) by (simp add: option.map_comp o_def)
  moreover have "(\<exists>d. w' j = Some d \<and> id_of d = i) \<longleftrightarrow> (\<exists>d. w j = Some d \<and> id_of d = i)" for i j
    using assms(2,3) by auto
  ultimately show ?thesis using assms(1) by (simp add: ids_ok_def)
qed

lemma lookup_mut:
  assumes "ids_ok id_of w ti td" "hm_get ti i = Some k" "\<And>j. w' j = (if j = k then map_option f (w j) else w j)"
  shows "Option.bind (hm_get ti j) w' = ((\<lambda>j. Option.bind (hm_get ti j) w)(i := map_option f (Option.bind (hm_get ti i) w))) j"
proof (cases "j = i")
  case True
  then show ?thesis using assms(2,3) by simp
next
  case False
  have "l \<noteq> k" if l: "hm_get ti j = Some l" for l
    using False l assms(2) ids_okD(3) [OF assms(1)] by (metis option.inject)
  then show ?thesis using False assms(3) by (cases "hm_get ti j") auto
qed

lemma get_node_mut_spec:
  assumes "scg_ok s" "\<And>d. nd_id (f d) = nd_id d"
  shows "scg_ok (get_node_mut s i f)" "get_edge (get_node_mut s i f) = get_edge s"
    "get_node (get_node_mut s i f) = (get_node s)(i := map_option f (get_node s i))"
proof -
  note D = scg_okD [OF assms(1)]
  let ?s = "get_node_mut s i f"
  have "scg_ok ?s \<and> get_edge ?s = get_edge s \<and> get_node ?s = (get_node s)(i := map_option f (get_node s i))"
  proof (cases "hm_get (node_id_to_index s) i")
    case None
    then have "get_node s i = None" by (simp add: get_node_None [OF assms(1)])
    then show ?thesis using None assms(1) by (auto simp: get_node_mut_def)
  next
    case (Some k)
    then have g: "sg_graph ?s = node_weight_mut (sg_graph s) k f" "node_id_to_index ?s = node_id_to_index s"
        "node_index_to_id ?s = node_index_to_id s" "edge_id_to_index ?s = edge_id_to_index s"
        "edge_index_to_id ?s = edge_index_to_id s" "sg_regions ?s = sg_regions s"
      by (simp_all add: get_node_mut_def)
    have ew: "edge_weight (node_weight_mut (sg_graph s) k f) = edge_weight (sg_graph s)"
      by (simp add: edge_weight_arcs slot_weight_mut fun_eq_iff)
    have nw: "map_option nd_id (node_weight (node_weight_mut (sg_graph s) k f) a) = map_option nd_id (node_weight (sg_graph s) a)" for a
      by (simp add: slot_weight_mut option.map_comp o_def assms(2))
    have "ids_ok nd_id (node_weight (sg_graph ?s)) (node_id_to_index s) (node_index_to_id s)"
      by (rule ids_ok_mut [OF D(2) assms(2)]) (simp add: g slot_weight_mut)
    moreover have "ends_ok ?s" using D(4) by (simp add: ends_ok_def g nw slot_weight_mut(3))
    ultimately have "scg_ok ?s"
      using assms(1) weight_mut_ok(1) [OF D(1)] unfolding scg_ok_def g ew by simp
    moreover have "get_node ?s j = ((get_node s)(i := map_option f (get_node s i))) j" for j
      unfolding get_node_def [abs_def] g by (rule lookup_mut [OF D(2) Some]) (simp add: slot_weight_mut)
    ultimately show ?thesis by (auto simp: get_edge_def g ew)
  qed
  then show "scg_ok ?s" "get_edge ?s = get_edge s" "get_node ?s = (get_node s)(i := map_option f (get_node s i))" by blast+
qed

lemma get_edge_mut_spec:
  assumes "scg_ok s" "\<And>d. ed_id (f d) = ed_id d" "\<And>d. ed_source (f d) = ed_source d" "\<And>d. ed_target (f d) = ed_target d"
  shows "scg_ok (get_edge_mut s i f) \<and> get_node (get_edge_mut s i f) = get_node s
    \<and> get_edge (get_edge_mut s i f) = (get_edge s)(i := map_option f (get_edge s i))"
proof (cases "hm_get (edge_id_to_index s) i")
  case None
  then have "get_edge s i = None" by (simp add: get_edge_None [OF assms(1)])
  then show ?thesis using None assms(1) by (auto simp: get_edge_mut_def)
next
  case (Some k)
  note D = scg_okD [OF assms(1)]
  let ?s = "get_edge_mut s i f"
  from Some have g: "sg_graph ?s = edge_weight_mut (sg_graph s) k f" "node_id_to_index ?s = node_id_to_index s"
      "node_index_to_id ?s = node_index_to_id s" "edge_id_to_index ?s = edge_id_to_index s"
      "edge_index_to_id ?s = edge_index_to_id s" "sg_regions ?s = sg_regions s"
    by (simp_all add: get_edge_mut_def)
  have "ids_ok ed_id (edge_weight (sg_graph ?s)) (edge_id_to_index s) (edge_index_to_id s)"
    by (rule ids_ok_mut [OF D(3) assms(2)]) (simp add: g slot_weight_mut)
  moreover have "ends_ok ?s"
    unfolding ends_ok_def g slot_weight_mut using D(4) [unfolded ends_ok_def] assms(3,4) by (auto split: if_splits)
  ultimately have "scg_ok ?s"
    using assms(1) weight_mut_ok(2) [OF D(1)] unfolding scg_ok_def g slot_weight_mut(4) by simp
  moreover have "get_edge ?s j = ((get_edge s)(i := map_option f (get_edge s i))) j" for j
    unfolding get_edge_def [abs_def] g by (rule lookup_mut [OF D(3) Some]) (simp add: slot_weight_mut)
  ultimately show ?thesis by (auto simp: get_node_def g slot_weight_mut(4))
qed

end
