(* ===== verification/Scg_Store.thy ===== *)
theory Scg_Store
  imports Scg_Graph
begin

text \<open>
  The contract of the SCG as a store: two finite maps, one for the nodes and one for the edges, and two
  identifier counters. \<open>spec_step\<close> says what each operation does to them; \<open>scg_step\<close> is the same
  operation of the graph with its slots and index maps. The steps agree for every
  sequence of operations that does not exhaust the identifiers, and no \<^verbatim>\<open>expect\<close> is reached.
\<close>

section \<open>Operations and their specification\<close>

datatype scg_op =
    OpAddNode NodeType NodePayload ProgramPoint
  | OpAddNodeWithId NodeId NodeType NodePayload ProgramPoint
  | OpRemoveNode NodeId
  | OpAddEdge NodeId NodeId EdgeKind
  | OpAddEdgeWithId EdgeId NodeId NodeId EdgeKind
  | OpRemoveEdge EdgeId
  | OpAnnotate NodeId "BDReference option"
  | OpLabel EdgeId "string option"

datatype scg_reply =
    Failed SCGError
  | NodeAdded NodeId
  | EdgeAdded EdgeId
  | NodeRemoved NodeData
  | EdgeRemoved EdgeData
  | Updated

record scg_spec =
  sp_nodes :: "NodeId \<rightharpoonup> NodeData"
  sp_edges :: "EdgeId \<rightharpoonup> EdgeData"
  sp_next_node :: u64
  sp_next_edge :: u64

definition reply :: "('a \<Rightarrow> scg_reply) \<Rightarrow> SCG \<Rightarrow> SCGError + SCG \<times> 'a \<Rightarrow> SCG \<times> scg_reply" where
  "reply f s r = (case r of Inl e \<Rightarrow> (s, Failed e) | Inr (s', x) \<Rightarrow> (s', f x))"

fun scg_step :: "scg_op \<Rightarrow> SCG \<Rightarrow> (SCG \<times> scg_reply) option" where
  "scg_step (OpAddNode t p pp) s = Some (apsnd NodeAdded (add_node s t p pp))"
| "scg_step (OpAddNodeWithId i t p pp) s = Some (reply NodeAdded s (add_node_with_id s i t p pp))"
| "scg_step (OpRemoveNode i) s = map_option (reply NodeRemoved s) (remove_node s i)"
| "scg_step (OpAddEdge a b k) s = Some (reply EdgeAdded s (add_edge s a b k))"
| "scg_step (OpAddEdgeWithId i a b k) s = Some (reply EdgeAdded s (add_edge_with_id s i a b k))"
| "scg_step (OpRemoveEdge i) s = map_option (reply EdgeRemoved s) (remove_edge s i)"
| "scg_step (OpAnnotate i a) s = Some (get_node_mut s i (nd_annotation_update (\<lambda>_. a)), Updated)"
| "scg_step (OpLabel i l) s = Some (get_edge_mut s i (ed_label_update (\<lambda>_. l)), Updated)"

definition past_id :: "u64 \<Rightarrow> u64 \<Rightarrow> u64" where
  "past_id i next = (if i \<ge> next then i + 1 else next)"

fun spec_step :: "scg_op \<Rightarrow> scg_spec \<Rightarrow> scg_spec \<times> scg_reply" where
  "spec_step (OpAddNode t p pp) a = (let i = sp_next_node a in
     (a\<lparr>sp_nodes := (sp_nodes a)(i \<mapsto> node_data i t p pp), sp_next_node := i + 1\<rparr>, NodeAdded i))"
| "spec_step (OpAddNodeWithId i t p pp) a =
     (if sp_nodes a i \<noteq> None then (a, Failed (DuplicateNode i))
      else (a\<lparr>sp_nodes := (sp_nodes a)(i \<mapsto> node_data i t p pp), sp_next_node := past_id i (sp_next_node a)\<rparr>, NodeAdded i))"
| "spec_step (OpRemoveNode i) a =
     (case sp_nodes a i of
        None \<Rightarrow> (a, Failed (NodeNotFound i))
      | Some d \<Rightarrow> (a\<lparr>sp_nodes := (sp_nodes a)(i := None),
          sp_edges := (\<lambda>e. case sp_edges a e of
              Some x \<Rightarrow> if ed_source x = i \<or> ed_target x = i then None else Some x
            | None \<Rightarrow> None)\<rparr>, NodeRemoved d))"
| "spec_step (OpAddEdge s t k) a =
     (if sp_nodes a s = None \<or> sp_nodes a t = None then (a, Failed (InvalidEdgeEndpoints s t))
      else let i = sp_next_edge a in
        (a\<lparr>sp_edges := (sp_edges a)(i \<mapsto> edge_data i s t k), sp_next_edge := i + 1\<rparr>, EdgeAdded i))"
| "spec_step (OpAddEdgeWithId i s t k) a =
     (if sp_edges a i \<noteq> None then (a, Failed (DuplicateEdge i))
      else if sp_nodes a s = None \<or> sp_nodes a t = None then (a, Failed (InvalidEdgeEndpoints s t))
      else (a\<lparr>sp_edges := (sp_edges a)(i \<mapsto> edge_data i s t k), sp_next_edge := past_id i (sp_next_edge a)\<rparr>, EdgeAdded i))"
| "spec_step (OpRemoveEdge i) a =
     (case sp_edges a i of
        None \<Rightarrow> (a, Failed (EdgeNotFound i))
      | Some d \<Rightarrow> (a\<lparr>sp_edges := (sp_edges a)(i := None)\<rparr>, EdgeRemoved d))"
| "spec_step (OpAnnotate i ann) a =
     (a\<lparr>sp_nodes := (sp_nodes a)(i := map_option (nd_annotation_update (\<lambda>_. ann)) (sp_nodes a i))\<rparr>, Updated)"
| "spec_step (OpLabel i l) a =
     (a\<lparr>sp_edges := (sp_edges a)(i := map_option (ed_label_update (\<lambda>_. l)) (sp_edges a i))\<rparr>, Updated)"

definition scg_abs :: "SCG \<Rightarrow> scg_spec" where
  "scg_abs s = \<lparr>sp_nodes = get_node s, sp_edges = get_edge s, sp_next_node = next_node_id s, sp_next_edge = next_edge_id s\<rparr>"

text \<open>Sequences of operations, with the replies.\<close>

fun scg_run :: "scg_op list \<Rightarrow> SCG \<Rightarrow> (SCG \<times> scg_reply list) option" where
  "scg_run [] s = Some (s, [])"
| "scg_run (x # xs) s =
     (case scg_step x s of
        None \<Rightarrow> None
      | Some (s1, r) \<Rightarrow> map_option (apsnd ((#) r)) (scg_run xs s1))"

fun spec_run :: "scg_op list \<Rightarrow> scg_spec \<Rightarrow> scg_spec \<times> scg_reply list" where
  "spec_run [] a = (a, [])"
| "spec_run (x # xs) a = (let (a1, r) = spec_step x a; (a2, rs) = spec_run xs a1 in (a2, r # rs))"

text \<open>The identifier an operation chooses itself.\<close>

fun explicit_id :: "scg_op \<Rightarrow> u64" where
  "explicit_id (OpAddNodeWithId i _ _ _) = i"
| "explicit_id (OpAddEdgeWithId i _ _ _) = i"
| "explicit_id _ = 0"

section \<open>Steps agree\<close>

lemma counter_only [simp]:
  "get_node (s\<lparr>next_node_id := n\<rparr>) = get_node s" "get_edge (s\<lparr>next_node_id := n\<rparr>) = get_edge s"
  "get_node (s\<lparr>next_edge_id := n\<rparr>) = get_node s" "get_edge (s\<lparr>next_edge_id := n\<rparr>) = get_edge s"
  "scg_ok (s\<lparr>next_node_id := n\<rparr>) = scg_ok s" "scg_ok (s\<lparr>next_edge_id := n\<rparr>) = scg_ok s"
  by (simp_all add: get_node_def get_edge_def scg_ok_def ends_ok_def fun_eq_iff)

lemma insert_counters [simp]:
  "next_node_id (insert_node s d) = next_node_id s" "next_edge_id (insert_node s d) = next_edge_id s"
  "next_node_id (insert_edge s a b e) = next_node_id s" "next_edge_id (insert_edge s a b e) = next_edge_id s"
  by (simp_all add: insert_node_def insert_edge_def split_beta)

lemma mut_counters [simp]:
  "next_node_id (get_node_mut s i f) = next_node_id s" "next_edge_id (get_node_mut s i f) = next_edge_id s"
  "next_node_id (get_edge_mut s i h) = next_node_id s" "next_edge_id (get_edge_mut s i h) = next_edge_id s"
  by (simp_all add: get_node_mut_def get_edge_mut_def split: option.splits)

lemma fresh_counter:
  assumes "counters_ok s"
  shows "get_node s (next_node_id s) = None" "get_edge s (next_edge_id s) = None"
  using assms unfolding counters_ok_def by (metis less_irrefl)+

definition simulates :: "scg_op \<Rightarrow> SCG \<Rightarrow> bool" where
  "simulates x s \<longleftrightarrow> (\<exists>s' r. scg_step x s = Some (s', r) \<and> scg_ok s' \<and> spec_step x (scg_abs s) = (scg_abs s', r))"

lemma add_node_sim: "\<lbrakk>scg_ok s; counters_ok s\<rbrakk> \<Longrightarrow> simulates (OpAddNode t p pp) s"
  using insert_node_spec [of "s\<lparr>next_node_id := next_node_id s + 1\<rparr>" "node_data (next_node_id s) t p pp"] fresh_counter(1) [of s]
  by (simp add: simulates_def add_node_def alloc_node_id_def scg_abs_def node_data_def Let_def)

lemma add_node_with_id_sim:
  assumes "scg_ok s"
  shows "simulates (OpAddNodeWithId i t p pp) s"
proof (cases "get_node s i")
  case None
  then have "hm_get (node_id_to_index s) i = None" using get_node_None [OF assms] by simp
  then show ?thesis
    using None insert_node_spec [of s "node_data i t p pp"] assms
    by (simp add: simulates_def add_node_with_id_def scg_abs_def node_data_def reply_def past_id_def Let_def)
next
  case (Some d)
  then have "hm_get (node_id_to_index s) i \<noteq> None" using get_node_None [OF assms, of i] by simp
  then show ?thesis using Some assms by (simp add: simulates_def add_node_with_id_def scg_abs_def reply_def)
qed

lemma remove_node_sim:
  assumes "scg_ok s"
  shows "simulates (OpRemoveNode i) s"
proof (cases "get_node s i")
  case None
  then show ?thesis using get_node_None [OF assms, of i] assms by (simp add: simulates_def remove_node_def scg_abs_def reply_def)
next
  case (Some d)
  from scg_remove_node_spec [OF assms this] show ?thesis
    using Some by (auto simp: simulates_def scg_abs_def reply_def)
qed

lemma endpoints_found:
  assumes "scg_ok s" "get_node s a \<noteq> None" "get_node s b \<noteq> None"
  obtains i j where "hm_get (node_id_to_index s) a = Some i" "hm_get (node_id_to_index s) b = Some j"
  using that get_node_None [OF assms(1), of a] get_node_None [OF assms(1), of b] assms(2,3)
  by (cases "hm_get (node_id_to_index s) a"; cases "hm_get (node_id_to_index s) b") simp_all

lemma endpoints_missing:
  assumes "scg_ok s" "get_node s a = None \<or> get_node s b = None"
  shows "hm_get (node_id_to_index s) a = None \<or> hm_get (node_id_to_index s) b = None"
  using assms(2) get_node_None [OF assms(1), of a] get_node_None [OF assms(1), of b] by simp

lemma add_edge_sim:
  assumes "scg_ok s" "counters_ok s"
  shows "simulates (OpAddEdge a b k) s"
proof (cases "get_node s a = None \<or> get_node s b = None")
  case True
  from endpoints_missing [OF assms(1) this] show ?thesis
    using True assms(1) by (auto simp: simulates_def add_edge_def scg_abs_def reply_def split: option.splits)
next
  case False
  then obtain i j where ij: "hm_get (node_id_to_index s) a = Some i" "hm_get (node_id_to_index s) b = Some j"
    using endpoints_found [OF assms(1)] by blast
  show ?thesis
    using False ij assms fresh_counter(2) [OF assms(2)]
      insert_edge_spec [of "s\<lparr>next_edge_id := next_edge_id s + 1\<rparr>" "edge_data (next_edge_id s) a b k" i j]
    by (simp add: simulates_def add_edge_def alloc_edge_id_def scg_abs_def edge_data_def reply_def Let_def)
qed

lemma add_edge_with_id_sim:
  assumes "scg_ok s"
  shows "simulates (OpAddEdgeWithId e a b k) s"
proof (cases "get_edge s e")
  case (Some d)
  then have "hm_get (edge_id_to_index s) e \<noteq> None" using get_edge_None [OF assms, of e] by simp
  then show ?thesis using Some assms by (simp add: simulates_def add_edge_with_id_def scg_abs_def reply_def)
next
  case None
  then have e: "hm_get (edge_id_to_index s) e = None" using get_edge_None [OF assms] by simp
  show ?thesis
  proof (cases "get_node s a = None \<or> get_node s b = None")
    case True
    from endpoints_missing [OF assms this] show ?thesis
      using True e None assms by (auto simp: simulates_def add_edge_with_id_def scg_abs_def reply_def split: option.splits)
  next
    case False
    then obtain i j where ij: "hm_get (node_id_to_index s) a = Some i" "hm_get (node_id_to_index s) b = Some j"
      using endpoints_found [OF assms] by blast
    show ?thesis
      using False ij e None assms insert_edge_spec [of s "edge_data e a b k" i j]
      by (simp add: simulates_def add_edge_with_id_def scg_abs_def edge_data_def reply_def past_id_def Let_def)
  qed
qed

lemma remove_edge_sim:
  assumes "scg_ok s"
  shows "simulates (OpRemoveEdge i) s"
proof (cases "get_edge s i")
  case None
  then show ?thesis using get_edge_None [OF assms, of i] assms by (simp add: simulates_def remove_edge_def scg_abs_def reply_def)
next
  case (Some d)
  from remove_edge_spec [OF assms this] show ?thesis
    using Some by (auto simp: simulates_def scg_abs_def reply_def)
qed

lemma annotate_sim: "scg_ok s \<Longrightarrow> simulates (OpAnnotate i ann) s"
  using get_node_mut_spec [of s "nd_annotation_update (\<lambda>_. ann)" i] by (simp add: simulates_def scg_abs_def)

lemma label_sim: "scg_ok s \<Longrightarrow> simulates (OpLabel i l) s"
  using get_edge_mut_spec [of s "ed_label_update (\<lambda>_. l)" i] by (simp add: simulates_def scg_abs_def)

lemma step_sim: "\<lbrakk>scg_ok s; counters_ok s\<rbrakk> \<Longrightarrow> simulates x s"
  by (cases x) (simp_all add: add_node_sim add_node_with_id_sim remove_node_sim add_edge_sim add_edge_with_id_sim
      remove_edge_sim annotate_sim label_sim)

section \<open>Counters\<close>

definition spec_fresh :: "scg_spec \<Rightarrow> bool" where
  "spec_fresh a \<longleftrightarrow> (\<forall>i \<in> dom (sp_nodes a). i < sp_next_node a) \<and> (\<forall>i \<in> dom (sp_edges a). i < sp_next_edge a)"

lemma spec_fresh_abs: "spec_fresh (scg_abs s) = counters_ok s"
  by (auto simp: spec_fresh_def counters_ok_def scg_abs_def dom_def)

lemma next_above:
  fixes i n :: u64
  assumes "unat i < M" "unat n \<le> M" "M < 2 ^ 64"
  shows "unat (i + 1) \<le> M" "i < i + 1" "i < past_id i n" "n \<le> past_id i n" "unat (past_id i n) \<le> M"
proof -
  have u: "unat (i + 1) = unat i + 1" using assms by (simp add: unat_word_ariths)
  then show "unat (i + 1) \<le> M" "i < i + 1" "i < past_id i n" "n \<le> past_id i n" "unat (past_id i n) \<le> M"
    using assms by (auto simp: past_id_def word_less_nat_alt word_le_nat_alt)
qed

text \<open>A step leaves the counters above every identifier and moves them by at most one beyond the largest.\<close>

lemma spec_step_fresh:
  assumes "spec_fresh a" "unat (sp_next_node a) < M" "unat (sp_next_edge a) < M" "unat (explicit_id x) < M" "M < 2 ^ 64"
  shows "spec_fresh (fst (spec_step x a)) \<and> unat (sp_next_node (fst (spec_step x a))) \<le> M
    \<and> unat (sp_next_edge (fst (spec_step x a))) \<le> M"
proof -
  have le: "unat (sp_next_node a) \<le> M" "unat (sp_next_edge a) \<le> M" using assms by simp_all
  have fr: "i < sp_next_node a" if "sp_nodes a i = Some d" for i d using assms(1) that by (auto simp: spec_fresh_def)
  have fe: "i < sp_next_edge a" if "sp_edges a i = Some d" for i d using assms(1) that by (auto simp: spec_fresh_def)
  note N = next_above [OF assms(4) le(1) assms(5)] and E = next_above [OF assms(4) le(2) assms(5)]
    and S = next_above [OF assms(2) le(1) assms(5)] next_above [OF assms(3) le(2) assms(5)]
  show ?thesis
  proof (cases x)
    case (OpAddNode t p pp)
    then show ?thesis using S fe le less_trans [OF fr S(2)] by (auto simp: spec_fresh_def Let_def)
  next
    case (OpAddEdge s t k)
    then show ?thesis using S fr fe le less_trans [OF fe S(7)] by (auto simp: spec_fresh_def Let_def)
  next
    case (OpAddNodeWithId i t p pp)
    then show ?thesis using N fr fe le less_le_trans [OF fr N(4)] by (auto simp: spec_fresh_def)
  next
    case (OpAddEdgeWithId i s t k)
    then show ?thesis using E fr fe le less_le_trans [OF fe E(4)] by (auto simp: spec_fresh_def)
  qed (use fr fe le in \<open>auto simp: spec_fresh_def split: option.splits if_splits\<close>)
qed

lemma run_sim:
  assumes "scg_ok s" "counters_ok s" "unat (next_node_id s) \<le> M" "unat (next_edge_id s) \<le> M"
    and "\<forall>x \<in> set xs. unat (explicit_id x) \<le> M" "M + length xs < 2 ^ 64"
  shows "\<exists>s' rs. scg_run xs s = Some (s', rs) \<and> scg_ok s' \<and> counters_ok s' \<and> spec_run xs (scg_abs s) = (scg_abs s', rs)"
  using assms
proof (induction xs arbitrary: s M)
  case (Cons x xs)
  from step_sim [OF Cons.prems(1,2), of x] obtain s1 r where
      s1: "scg_step x s = Some (s1, r)" "scg_ok s1" "spec_step x (scg_abs s) = (scg_abs s1, r)"
    by (auto simp: simulates_def)
  have "spec_fresh (scg_abs s1) \<and> unat (sp_next_node (scg_abs s1)) \<le> Suc M \<and> unat (sp_next_edge (scg_abs s1)) \<le> Suc M"
    using spec_step_fresh [of "scg_abs s" "Suc M" x] Cons.prems s1(3) by (simp add: spec_fresh_abs) (simp add: scg_abs_def)
  then have c: "counters_ok s1" "unat (next_node_id s1) \<le> Suc M" "unat (next_edge_id s1) \<le> Suc M"
    by (simp_all add: spec_fresh_abs) (simp_all add: scg_abs_def)
  have "\<forall>x \<in> set xs. unat (explicit_id x) \<le> Suc M" "Suc M + length xs < 2 ^ 64" using Cons.prems(5,6) by auto
  from Cons.IH [OF s1(2) c this] show ?case using s1 by auto
qed auto

text \<open>
  C2: The SCG with its slots, tombstones and four index maps refines two maps from identifiers to data: for every sequence
  of operations that leaves room for fresh identifiers, starting from the empty graph, no \<^verbatim>\<open>expect\<close> fails, every
  reply (the new id, the removed data, or the error) is the one of the specification, the lookups of
  the final graph are the specified maps, the index maps are mutually inverse, edges connect nodes of
  the graph, and the counters are above every identifier in use.
\<close>

theorem scg_refines_maps:
  assumes "\<forall>x \<in> set xs. unat (explicit_id x) \<le> M" "M + length xs < 2 ^ 64"
  shows "\<exists>s rs. scg_run xs scg_new = Some (s, rs) \<and> scg_ok s \<and> counters_ok s
    \<and> spec_run xs \<lparr>sp_nodes = (\<lambda>_. None), sp_edges = (\<lambda>_. None), sp_next_node = 0, sp_next_edge = 0\<rparr>
        = (\<lparr>sp_nodes = get_node s, sp_edges = get_edge s, sp_next_node = next_node_id s, sp_next_edge = next_edge_id s\<rparr>, rs)"
proof -
  have "scg_abs scg_new = \<lparr>sp_nodes = (\<lambda>_. None), sp_edges = (\<lambda>_. None), sp_next_node = 0, sp_next_edge = 0\<rparr>"
    by (simp add: scg_abs_def scg_new_def get_node_def get_edge_def fun_eq_iff)
  moreover have "next_node_id scg_new = 0" "next_edge_id scg_new = 0" by (simp_all add: scg_new_def)
  ultimately show ?thesis using run_sim [OF scg_new_ok, of M xs] assms by (simp add: scg_abs_def)
qed

definition here :: ProgramPoint where
  "here = \<lparr>pp_file = None, pp_line = None, pp_column = None, pp_offset = None\<rparr>"

definition alloc_pair :: "scg_op list" where
  "alloc_pair = [OpAddNode NtAllocation (Allocation 8 8 0 None) here, OpAddNode NtDeallocation (Deallocation 0 0) here,
     OpAddEdge 0 1 DataFlow, OpAddNodeWithId 7 NtPhantom (PhantomNode ''anchor'') here, OpAddEdge 1 7 (Call 1 7 0)]"

theorem scg_refines_maps_witness:
  "\<exists>s rs. scg_run (alloc_pair @ [OpRemoveNode 7, OpRemoveEdge 1]) scg_new = Some (s, rs) \<and> scg_ok s \<and> counters_ok s"
proof -
  have "\<forall>x \<in> set (alloc_pair @ [OpRemoveNode 7, OpRemoveEdge 1]). unat (explicit_id x) \<le> 7"
    by (simp add: alloc_pair_def)
  from scg_refines_maps [OF this] show ?thesis by (auto simp: alloc_pair_def simp del: scg_run.simps spec_run.simps)
qed

text \<open>
  The room for identifiers is needed: an explicit identifier of \<^verbatim>\<open>u64::MAX\<close> wraps the counter to 0, and the next
  node is stored under the identifier of the first one.
\<close>

lemma explicit_max_wraps:
  "map_option snd (scg_run [OpAddNode NtPhantom (PhantomNode ''a'') here, OpAddNodeWithId (- 1) NtPhantom (PhantomNode ''b'') here,
      OpAddNode NtPhantom (PhantomNode ''c'') here] scg_new) = Some [NodeAdded 0, NodeAdded (- 1), NodeAdded 0]"
  by code_simp

end
