(* ===== verification/Scg_Order.thy ===== *)
theory Scg_Order
  imports Scg_Store "HOL-Library.Multiset"
begin

text \<open>
  Traversal of the SCG by identifiers (\<^verbatim>\<open>scg/src/graph.rs\<close>, the traversal operations and
  \<^verbatim>\<open>find_function_return\<close>). Between slots and identifiers stands the injection \<open>name\<close>; through it the
  theorems on the digraph algorithms become theorems on node identifiers and the edge relation \<open>id_rel\<close>.
\<close>

section \<open>The search for the return node\<close>

text \<open>The body of the \<^verbatim>\<open>for\<close> loop: an early return is the left alternative.\<close>

fun visit_targets :: "SCG \<Rightarrow> NodeIndex list \<Rightarrow> NodeIndex set \<Rightarrow> NodeIndex list \<Rightarrow> NodeId + NodeIndex set \<times> NodeIndex list" where
  "visit_targets s [] seen queue = Inr (seen, queue)"
| "visit_targets s (t # ts) seen queue =
     (if t \<in> seen then visit_targets s ts seen queue
      else
        (case hm_get (node_index_to_id s) t of
           Some target_id \<Rightarrow>
             (case get_node s target_id of
                Some node \<Rightarrow>
                  if control_kind (nd_payload node) = Some CkFunctionReturn then Inl target_id
                  else visit_targets s ts (insert t seen) (queue @ [t])
              | None \<Rightarrow> visit_targets s ts (insert t seen) (queue @ [t]))
         | None \<Rightarrow> visit_targets s ts (insert t seen) (queue @ [t])))"

definition edge_targets :: "SCG \<Rightarrow> NodeIndex set" where
  "edge_targets s = ee_target ` {en. Some en \<in> set (dg_edges (sg_graph s))}"

lemma finite_edge_targets: "finite (edge_targets s)"
proof -
  have "{en. Some en \<in> set (dg_edges (sg_graph s))} \<subseteq> the ` set (dg_edges (sg_graph s))" by force
  then show ?thesis unfolding edge_targets_def by (meson finite_imageI finite_set finite_subset)
qed

lemma directed_targets: "set (map er_target (edges_directed (sg_graph s) k Outgoing)) \<subseteq> edge_targets s"
proof
  fix t
  assume "t \<in> set (map er_target (edges_directed (sg_graph s) k Outgoing))"
  then obtain e en where "slot (dg_edges (sg_graph s)) e = Some en" "t = ee_target en"
    by (auto simp: edges_directed_def set_map_filter split: option.splits)
  then show "t \<in> edge_targets s" by (force simp: edge_targets_def slot_def in_set_conv_nth split: if_splits)
qed

text \<open>Every target that is pushed to the queue was not visited before.\<close>

lemma visit_targets_measure:
  assumes "visit_targets s ts seen queue = Inr (seen', queue')" "set ts \<subseteq> T" "finite T"
  shows "card (T - seen') + length queue' = card (T - seen) + length queue \<and> length queue \<le> length queue'"
  using assms(1,2)
proof (induction ts arbitrary: seen queue)
  case (Cons t ts)
  show ?case
  proof (cases "t \<in> seen")
    case True
    then show ?thesis using Cons.IH [of seen queue] Cons.prems by simp
  next
    case False
    then have "visit_targets s ts (insert t seen) (queue @ [t]) = Inr (seen', queue')"
      using Cons.prems(1) by (simp split: option.splits if_splits)
    from Cons.IH [OF this] Cons.prems(2)
    have "card (T - seen') + length queue' = card (T - insert t seen) + Suc (length queue) \<and> Suc (length queue) \<le> length queue'"
      by simp
    moreover have "Suc (card (T - insert t seen)) = card (T - seen)"
    proof -
      have "T - insert t seen = T - seen - {t}" by blast
      then show ?thesis using card_Suc_Diff1 [of "T - seen" t] Cons.prems(2) False assms(3) by simp
    qed
    ultimately show ?thesis by simp
  qed
qed simp

function return_search :: "SCG \<Rightarrow> NodeIndex set \<Rightarrow> NodeIndex list \<Rightarrow> NodeId option" where
  "return_search s seen [] = None"
| "return_search s seen (current_idx # queue) =
     (case visit_targets s (map er_target (edges_directed (sg_graph s) current_idx Outgoing)) seen queue of
        Inl target_id \<Rightarrow> Some target_id
      | Inr (seen', queue') \<Rightarrow> return_search s seen' queue')"
  by pat_completeness auto
termination
proof (relation "measure (\<lambda>(s, seen, queue). 2 * card (edge_targets s - seen) + length queue)")
  fix s seen current_idx queue and p :: "NodeIndex set \<times> NodeIndex list" and seen' queue'
  assume v: "visit_targets s (map er_target (edges_directed (sg_graph s) current_idx Outgoing)) seen queue = Inr p"
    "(seen', queue') = p"
  from visit_targets_measure [OF v(1) [folded v(2)] directed_targets finite_edge_targets]
  show "((s, seen', queue'), s, seen, current_idx # queue)
      \<in> measure (\<lambda>(s, seen, queue). 2 * card (edge_targets s - seen) + length queue)" by simp
qed simp

definition find_function_return :: "SCG \<Rightarrow> NodeId \<Rightarrow> NodeId option" where
  "find_function_return s entry =
     (case hm_get (node_id_to_index s) entry of
        None \<Rightarrow> None
      | Some entry_idx \<Rightarrow> return_search s {entry_idx} [entry_idx])"

section \<open>Relations under an injection\<close>

lemma rtrancl_image:
  assumes "inj_on f V" "r \<subseteq> V \<times> V" "a \<in> V" "b \<in> V"
  shows "(f a, f b) \<in> (map_prod f f ` r)\<^sup>* \<longleftrightarrow> (a, b) \<in> r\<^sup>*"
proof
  have "\<forall>b \<in> V. f b = z \<longrightarrow> (a, b) \<in> r\<^sup>*" if "(f a, z) \<in> (map_prod f f ` r)\<^sup>*" for z
    using that
  proof (induction rule: rtrancl_induct)
    case base
    show ?case using inj_onD [OF assms(1)] assms(3) by (metis rtrancl.rtrancl_refl)
  next
    case (step z w)
    from step(2) obtain c d where cd: "(c, d) \<in> r" "f c = z" "f d = w" by auto
    then have V: "c \<in> V" "d \<in> V" using assms(2) by auto
    then have "(a, c) \<in> r\<^sup>*" using step(3) cd(2) by blast
    then have "(a, d) \<in> r\<^sup>*" using cd(1) by (rule rtrancl.rtrancl_into_rtrancl)
    moreover have "b = d" if "b \<in> V" "f b = w" for b using inj_onD [OF assms(1), of b d] that cd(3) V(2) by simp
    ultimately show ?case by blast
  qed
  then show "(f a, f b) \<in> (map_prod f f ` r)\<^sup>* \<Longrightarrow> (a, b) \<in> r\<^sup>*" using assms(4) by blast
  show "(a, b) \<in> r\<^sup>* \<Longrightarrow> (f a, f b) \<in> (map_prod f f ` r)\<^sup>*"
    by (induction rule: rtrancl_induct) (auto intro: rtrancl_into_rtrancl)
qed

lemma acyclic_image:
  assumes "inj_on f V" "r \<subseteq> V \<times> V"
  shows "acyclic (map_prod f f ` r) \<longleftrightarrow> acyclic r"
proof -
  have "(\<exists>x. (x, x) \<in> (map_prod f f ` r)\<^sup>+) \<longleftrightarrow> (\<exists>a b. (a, b) \<in> r \<and> (f b, f a) \<in> (map_prod f f ` r)\<^sup>*)"
    by (auto simp: trancl_unfold_left)
  also have "\<dots> \<longleftrightarrow> (\<exists>a b. (a, b) \<in> r \<and> (b, a) \<in> r\<^sup>*)" using rtrancl_image [OF assms] assms(2) by blast
  also have "\<dots> \<longleftrightarrow> (\<exists>x. (x, x) \<in> r\<^sup>+)" by (auto simp: trancl_unfold_left)
  finally show ?thesis unfolding acyclic_def by blast
qed

lemma topo_order_image:
  assumes "topo_order r V order" "inj_on f V"
  shows "topo_order (map_prod f f ` r) (f ` V) (map f order)"
proof -
  have "\<exists>xs ys zs. map f order = xs @ f s # ys @ f t # zs" if "(s, t) \<in> r" for s t
  proof -
    from assms(1) that obtain xs ys zs where "order = xs @ s # ys @ t # zs" unfolding topo_order_def by blast
    then have "map f order = map f xs @ f s # map f ys @ f t # map f zs" by simp
    then show ?thesis by blast
  qed
  then show ?thesis using assms by (auto simp: topo_order_def distinct_map)
qed

section \<open>Slots and identifiers\<close>

definition name :: "SCG \<Rightarrow> NodeIndex \<Rightarrow> NodeId" where
  "name s k = the (hm_get (node_index_to_id s) k)"

definition id_rel :: "SCG \<Rightarrow> (NodeId \<times> NodeId) set" where
  "id_rel s = {(ed_source d, ed_target d) |e d. get_edge s e = Some d}"

abbreviation slots :: "SCG \<Rightarrow> NodeIndex set" where
  "slots s \<equiv> live (sg_graph s)"

lemma name_get:
  assumes "scg_ok s" "k \<in> slots s"
  shows "hm_get (node_index_to_id s) k = Some (name s k)" "hm_get (node_id_to_index s) (name s k) = Some k"
    "get_node s (name s k) = node_weight (sg_graph s) k" "\<exists>d. node_weight (sg_graph s) k = Some d \<and> nd_id d = name s k"
proof -
  note D = scg_okD(2) [OF assms(1)]
  obtain d where d: "node_weight (sg_graph s) k = Some d" using assms(2) by (auto simp: live_weight)
  then show "hm_get (node_index_to_id s) k = Some (name s k)" using ids_okD(4) [OF D, of k] by (simp add: name_def)
  then have n: "name s k = nd_id d" using ids_okD(4) [OF D, of k] d by simp
  show i: "hm_get (node_id_to_index s) (name s k) = Some k" using ids_okD(3) [OF D] d n by auto
  show "get_node s (name s k) = node_weight (sg_graph s) k" using i by (simp add: get_node_def)
  show "\<exists>d. node_weight (sg_graph s) k = Some d \<and> nd_id d = name s k" using d n by simp
qed

lemma index_name:
  assumes "scg_ok s" "hm_get (node_id_to_index s) i = Some k"
  shows "k \<in> slots s" "name s k = i"
proof -
  obtain d where d: "node_weight (sg_graph s) k = Some d" "nd_id d = i"
    using assms ids_okD(3) [OF scg_okD(2) [OF assms(1)]] by auto
  then show k: "k \<in> slots s" by (simp add: live_weight)
  show "name s k = i" using name_get(4) [OF assms(1) k] d by auto
qed

lemma name_inj: "scg_ok s \<Longrightarrow> inj_on (name s) (slots s)"
  by (rule inj_onI) (metis name_get(2) option.inject)

lemma name_image: "scg_ok s \<Longrightarrow> name s ` slots s = dom (get_node s)"
proof -
  assume ok: "scg_ok s"
  have "i \<in> name s ` slots s" if found: "get_node s i \<noteq> None" for i
  proof -
    obtain k where "hm_get (node_id_to_index s) i = Some k" using get_node_None [OF ok, of i] found by auto
    with index_name [OF ok] show ?thesis by (metis image_eqI)
  qed
  then show ?thesis using name_get(3) [OF ok] by (auto simp: live_weight)
qed

lemma id_rel_image:
  assumes "scg_ok s"
  shows "id_rel s = map_prod (name s) (name s) ` arc_rel (sg_graph s)"
proof -
  have "(ed_source d, ed_target d) = (name s a, name s b)" if e: "arcs (sg_graph s) e = Some (a, b, d)" for e a b d
  proof -
    from edge_ends [OF assms e] obtain da db where n: "node_weight (sg_graph s) a = Some da" "node_weight (sg_graph s) b = Some db"
        "nd_id da = ed_source d" "nd_id db = ed_target d" by blast
    moreover have "a \<in> slots s" "b \<in> slots s" using n by (simp_all add: live_weight)
    ultimately show ?thesis using name_get(4) [OF assms, of a] name_get(4) [OF assms, of b] by auto
  qed
  note ends = this
  show ?thesis
  proof (intro set_eqI iffI)
    fix p
    assume "p \<in> id_rel s"
    then obtain e d where d: "edge_weight (sg_graph s) e = Some d" "p = (ed_source d, ed_target d)"
      using get_edge_iff [OF assms] by (auto simp: id_rel_def)
    then obtain a b where "arcs (sg_graph s) e = Some (a, b, d)" by (auto simp: edge_weight_arcs)
    with ends [OF this] d(2) show "p \<in> map_prod (name s) (name s) ` arc_rel (sg_graph s)" by (force simp: arc_rel_def)
  next
    fix p
    assume "p \<in> map_prod (name s) (name s) ` arc_rel (sg_graph s)"
    then obtain e a b d where e: "arcs (sg_graph s) e = Some (a, b, d)" "p = (name s a, name s b)" by (auto simp: arc_rel_def)
    then have "get_edge s (ed_id d) = Some d" using get_edge_iff [OF assms] by (auto simp: edge_weight_arcs)
    moreover have "p = (ed_source d, ed_target d)" using ends [OF e(1)] e(2) by simp
    ultimately show "p \<in> id_rel s" unfolding id_rel_def by blast
  qed
qed

lemma map_filter_names:
  assumes "scg_ok s" "set ks \<subseteq> slots s"
  shows "List.map_filter (hm_get (node_index_to_id s)) ks = map (name s) ks"
  using assms(2) by (induction ks) (simp_all add: List.map_filter_simps name_get(1) [OF assms(1)])

lemma slots_rel: "scg_ok s \<Longrightarrow> arc_rel (sg_graph s) \<subseteq> slots s \<times> slots s"
  by (rule arc_rel_live [OF scg_okD(1)])

lemma id_reach:
  assumes "scg_ok s" "a \<in> slots s" "b \<in> slots s"
  shows "(name s a, name s b) \<in> (id_rel s)\<^sup>* \<longleftrightarrow> (a, b) \<in> (arc_rel (sg_graph s))\<^sup>*"
  unfolding id_rel_image [OF assms(1)] by (rule rtrancl_image [OF name_inj [OF assms(1)] slots_rel [OF assms(1)] assms(2,3)])

section \<open>Sorting\<close>

lemma topological_sort_cases:
  assumes "scg_ok s"
  shows "if acyclic (id_rel s) then has_cycles s = Some False \<and>
      (\<exists>order. topological_sort s = Some (Inr order) \<and> topo_order (id_rel s) (dom (get_node s)) order)
    else has_cycles s = Some True \<and> topological_sort s = Some (Inl CycleDetected)"
proof -
  note T = toposort_cases [OF scg_okD(1) [OF assms]]
  have ac: "acyclic (id_rel s) \<longleftrightarrow> acyclic (arc_rel (sg_graph s))"
    unfolding id_rel_image [OF assms] by (rule acyclic_image [OF name_inj [OF assms] slots_rel [OF assms]])
  show ?thesis
  proof (cases "acyclic (arc_rel (sg_graph s))")
    case True
    with T obtain order where o: "toposort (sg_graph s) = Some (Inr order)" "topo_order (arc_rel (sg_graph s)) (slots s) order"
      by auto
    then have "List.map_filter (hm_get (node_index_to_id s)) order = map (name s) order"
      by (intro map_filter_names [OF assms]) (simp add: topo_order_def)
    with topo_order_image [OF o(2) name_inj [OF assms]] o(1) True ac show ?thesis
      by (simp add: topological_sort_def has_cycles_def id_rel_image [OF assms] name_image [OF assms])
  next
    case False
    with T ac show ?thesis by (auto simp: topological_sort_def has_cycles_def)
  qed
qed

lemma scc_names:
  assumes "scg_ok s" "u \<in> slots s"
  shows "name s ` scc_of (arc_rel (sg_graph s)) u = {w. (name s u, w) \<in> (id_rel s)\<^sup>* \<and> (w, name s u) \<in> (id_rel s)\<^sup>*}"
proof -
  have live: "w \<in> slots s" if "(u, w) \<in> (arc_rel (sg_graph s))\<^sup>*" for w
    using that slots_rel [OF assms(1)] assms(2) by (induction rule: rtrancl_induct) auto
  have "w \<in> name s ` slots s" if "(name s u, w) \<in> (id_rel s)\<^sup>*" for w
    using that assms(2) slots_rel [OF assms(1)] unfolding id_rel_image [OF assms(1)]
    by (induction rule: rtrancl_induct) auto
  then have onto: "\<exists>v \<in> slots s. w = name s v" if "(name s u, w) \<in> (id_rel s)\<^sup>*" for w using that by blast
  have "w \<in> name s ` scc_of (arc_rel (sg_graph s)) u" if "(name s u, w) \<in> (id_rel s)\<^sup>*" "(w, name s u) \<in> (id_rel s)\<^sup>*" for w
    using onto [OF that(1)] that id_reach [OF assms(1)] assms(2) unfolding scc_of_def by blast
  moreover have "(name s u, name s v) \<in> (id_rel s)\<^sup>* \<and> (name s v, name s u) \<in> (id_rel s)\<^sup>*"
    if "v \<in> scc_of (arc_rel (sg_graph s)) u" for v
    using that live id_reach [OF assms(1)] assms(2) unfolding scc_of_def by blast
  ultimately show ?thesis by blast
qed

lemma order_groups:
  assumes "scg_ok s" "length (dg_nodes (sg_graph s)) < 2 ^ 32"
  obtains cs where "topological_sort_with_cycles s = Some (concat (map (\<lambda>c. map (name s) (sort c)) (rev cs)))"
    "scc_listing (arc_rel (sg_graph s)) (slots s) cs"
proof -
  obtain cs where cs: "tarjan_scc (sg_graph s) = Some cs" "scc_listing (arc_rel (sg_graph s)) (slots s) cs"
    using tarjan_scc_listing [OF scg_okD(1) [OF assms(1)] assms(2)] by blast
  then have "\<forall>c \<in> set cs. set c \<subseteq> slots s" by (auto simp: scc_listing_def)
  then have "map (\<lambda>c. List.map_filter (hm_get (node_index_to_id s)) (sort c)) (rev cs)
      = map (\<lambda>c. map (name s) (sort c)) (rev cs)"
    using map_filter_names [OF assms(1)] by simp
  then have "topological_sort_with_cycles s = Some (concat (map (\<lambda>c. map (name s) (sort c)) (rev cs)))"
    unfolding topological_sort_with_cycles_def cs(1) by (simp only: option.map)
  then show ?thesis using that cs(2) by blast
qed

lemma distinct_concat_sort: "distinct (concat (map sort (rev cs))) = distinct (concat cs)"
proof -
  have "mset (concat (map sort (rev cs))) = mset (concat cs)" by (induction cs) (simp_all add: ac_simps)
  then show ?thesis by (rule mset_eq_imp_distinct_iff)
qed

lemma concat_map_map: "concat (map (\<lambda>c. map f (g c)) cs) = map f (concat (map g cs))"
  by (induction cs) auto

text \<open>
  C26: \<open>topological_sort\<close> on identifiers: it returns on every graph. An acyclic graph yields every node
  identifier once, the source of every edge before its target, and \<open>has_cycles\<close> is \<open>False\<close>; on a cyclic graph the
  result is \<open>CycleDetected\<close> and \<open>has_cycles\<close> is \<open>True\<close>.
\<close>

theorem topological_sort_exact:
  assumes "scg_ok s"
  shows "if acyclic (id_rel s) then has_cycles s = Some False \<and>
      (\<exists>order. topological_sort s = Some (Inr order) \<and> distinct order \<and> set order = dom (get_node s)
        \<and> (\<forall>i j. (i, j) \<in> id_rel s \<longrightarrow> (\<exists>xs ys zs. order = xs @ i # ys @ j # zs)))
    else has_cycles s = Some True \<and> topological_sort s = Some (Inl CycleDetected)"
  using topological_sort_cases [OF assms] unfolding topo_order_def .

text \<open>
  C30: \<open>topological_sort_with_cycles\<close> never fails: on a graph of fewer than \<open>2 ^ 32\<close> slots it lists
  every node identifier once, in consecutive groups; each group is a strongly connected component, and every edge leads to the
  same or a later group.
\<close>

theorem topological_sort_with_cycles_exact:
  assumes "scg_ok s" "length (dg_nodes (sg_graph s)) < 2 ^ 32"
  shows "\<exists>groups. topological_sort_with_cycles s = Some (concat groups) \<and> distinct (concat groups)
    \<and> set (concat groups) = dom (get_node s)
    \<and> (\<forall>c \<in> set groups. \<forall>i \<in> set c. set c = {j. (i, j) \<in> (id_rel s)\<^sup>* \<and> (j, i) \<in> (id_rel s)\<^sup>*})
    \<and> (\<forall>n i j. n < length groups \<and> i \<in> set (groups ! n) \<and> (i, j) \<in> id_rel s
        \<longrightarrow> (\<exists>m \<ge> n. m < length groups \<and> j \<in> set (groups ! m)))"
proof -
  obtain cs where cs: "topological_sort_with_cycles s = Some (concat (map (\<lambda>c. map (name s) (sort c)) (rev cs)))"
      "scc_listing (arc_rel (sg_graph s)) (slots s) cs"
    using order_groups [OF assms] .
  let ?groups = "map (\<lambda>c. map (name s) (sort c)) (rev cs)"
  have d: "distinct (concat (map sort (rev cs)))" "set (concat cs) = slots s"
    using cs(2) by (simp_all add: distinct_concat_sort scc_listing_def)
  have g: "set c = scc_of (arc_rel (sg_graph s)) u \<and> u \<in> slots s" if "c \<in> set cs" "u \<in> set c" for c u
    using cs(2) that by (auto simp: scc_listing_def)
  have "distinct (concat ?groups)" "set (concat ?groups) = dom (get_node s)"
    unfolding concat_map_map using d inj_on_subset [OF name_inj [OF assms(1)]] name_image [OF assms(1)]
    by (auto simp: distinct_map)
  moreover have "name s ` set c = {j. (name s u, j) \<in> (id_rel s)\<^sup>* \<and> (j, name s u) \<in> (id_rel s)\<^sup>*}"
    if "c \<in> set cs" "u \<in> set c" for c u
    using g [OF that] scc_names [OF assms(1)] by simp
  then have "\<forall>c \<in> set ?groups. \<forall>i \<in> set c. set c = {j. (i, j) \<in> (id_rel s)\<^sup>* \<and> (j, i) \<in> (id_rel s)\<^sup>*}"
    by simp
  moreover have "\<exists>m \<ge> n. m < length ?groups \<and> j \<in> set (?groups ! m)"
    if n: "n < length ?groups" "i \<in> set (?groups ! n)" "(i, j) \<in> id_rel s" for n i j
  proof -
    let ?k = "length cs - Suc n"
    have k: "?k < length cs" "?groups ! n = map (name s) (sort (cs ! ?k))" using n(1) by (simp_all add: rev_nth)
    then obtain u where u: "u \<in> set (cs ! ?k)" "i = name s u" "u \<in> slots s" using n(2) g nth_mem [OF k(1)] by auto
    from n(3) obtain v w where vw: "(v, w) \<in> arc_rel (sg_graph s)" "i = name s v" "j = name s w"
      by (auto simp: id_rel_image [OF assms(1)])
    then have "v = u" using u slots_rel [OF assms(1)] inj_onD [OF name_inj [OF assms(1)]] by auto
    then obtain l where l: "l \<le> ?k" "w \<in> set (cs ! l)" using cs(2) k(1) u(1) vw(1) unfolding scc_listing_def by blast
    have "length cs - Suc l < length cs" using k(1) by simp
    then have "?groups ! (length cs - Suc l) = map (name s) (sort (cs ! l))"
      using l(1) k(1) rev_nth [of "length cs - Suc l" cs] by simp
    then have "j \<in> set (?groups ! (length cs - Suc l))" using l(2) vw(3) by simp
    moreover have "n \<le> length cs - Suc l" "length cs - Suc l < length ?groups" using l(1) n(1) by auto
    ultimately show ?thesis by blast
  qed
  ultimately show ?thesis using cs(1) by (intro exI [of _ ?groups]) blast
qed

section \<open>Neighbours and paths\<close>

lemma neighbour_names:
  assumes "scg_ok s" "k \<in> slots s"
  shows "set (neighbors_directed (sg_graph s) k Outgoing) \<subseteq> slots s" "set (neighbors_directed (sg_graph s) k Incoming) \<subseteq> slots s"
    "name s ` set (neighbors_directed (sg_graph s) k Outgoing) = id_rel s `` {name s k}"
    "name s ` set (neighbors_directed (sg_graph s) k Incoming) = (id_rel s)\<inverse> `` {name s k}"
proof -
  note N = neighbors_directed_rel [OF scg_okD(1) [OF assms(1)] assms(2)] and R = slots_rel [OF assms(1)]
  show "set (neighbors_directed (sg_graph s) k Outgoing) \<subseteq> slots s" "set (neighbors_directed (sg_graph s) k Incoming) \<subseteq> slots s"
    unfolding N using R by blast+
  have inj: "x = k" if "name s x = name s k" "x \<in> slots s" for x using inj_onD [OF name_inj [OF assms(1)] that(1,2) assms(2)] .
  show "name s ` set (neighbors_directed (sg_graph s) k Outgoing) = id_rel s `` {name s k}"
      "name s ` set (neighbors_directed (sg_graph s) k Incoming) = (id_rel s)\<inverse> `` {name s k}"
    unfolding N id_rel_image [OF assms(1)] using inj [symmetric] R by force+
qed

lemma neighbour_sets:
  assumes "scg_ok s"
  shows "map_option set (successors s i) = (if get_node s i = None then None else Some {j. (i, j) \<in> id_rel s})"
    "map_option set (predecessors s i) = (if get_node s i = None then None else Some {j. (j, i) \<in> id_rel s})"
proof -
  have "map_option set (successors s i) = (if get_node s i = None then None else Some {j. (i, j) \<in> id_rel s})
      \<and> map_option set (predecessors s i) = (if get_node s i = None then None else Some {j. (j, i) \<in> id_rel s})"
  proof (cases "hm_get (node_id_to_index s) i")
    case None
    then show ?thesis using get_node_None [OF assms, of i] by (simp add: successors_def predecessors_def)
  next
    case (Some k)
    note k = index_name [OF assms Some]
    have "get_node s i \<noteq> None" using get_node_None [OF assms, of i] Some by simp
    then show ?thesis
      using Some neighbour_names [OF assms k(1)] k(2) map_filter_names [OF assms] by (auto simp: successors_def predecessors_def)
  qed
  then show "map_option set (successors s i) = (if get_node s i = None then None else Some {j. (i, j) \<in> id_rel s})"
    "map_option set (predecessors s i) = (if get_node s i = None then None else Some {j. (j, i) \<in> id_rel s})" by simp_all
qed

lemma find_path_exact:
  assumes "scg_ok s"
  shows "find_path s i j = Some (if get_node s i = None \<or> get_node s j = None then None else Some ((i, j) \<in> (id_rel s)\<^sup>*))"
proof (cases "get_node s i = None \<or> get_node s j = None")
  case True
  then show ?thesis using endpoints_missing [OF assms True] by (auto simp: find_path_def split: option.splits)
next
  case False
  then obtain k l where kl: "hm_get (node_id_to_index s) i = Some k" "hm_get (node_id_to_index s) j = Some l"
    using endpoints_found [OF assms] by blast
  note k = index_name [OF assms kl(1)] and l = index_name [OF assms kl(2)]
  have "has_path_connecting (sg_graph s) k l = Some ((i, j) \<in> (id_rel s)\<^sup>*)"
    using has_path_decides [OF scg_okD(1) [OF assms] live_less [OF k(1)] live_less [OF l(1)]]
      id_reach [OF assms k(1) l(1)] k l by simp
  then show ?thesis using False kl by (simp add: find_path_def)
qed

text \<open>
  Traversal by identifiers: the successors and predecessors of a node are the targets and sources of its
  edges, \<open>find_path\<close> decides reachability along edges, and each answers \<open>None\<close> exactly for a
  node that is not in the graph.
\<close>

theorem scg_traversal_exact:
  assumes "scg_ok s"
  shows "map_option set (successors s i) = (if get_node s i = None then None else Some {j. (i, j) \<in> id_rel s})
    \<and> map_option set (predecessors s i) = (if get_node s i = None then None else Some {j. (j, i) \<in> id_rel s})
    \<and> find_path s i j = Some (if get_node s i = None \<or> get_node s j = None then None else Some ((i, j) \<in> (id_rel s)\<^sup>*))"
  by (intro conjI neighbour_sets [OF assms] find_path_exact [OF assms])

section \<open>The return node of a function\<close>

definition returns :: "SCG \<Rightarrow> NodeId \<Rightarrow> bool" where
  "returns s i = (case get_node s i of Some d \<Rightarrow> control_kind (nd_payload d) = Some CkFunctionReturn | None \<Rightarrow> False)"

lemma visit_targets_step:
  assumes "scg_ok s" "t \<in> slots s"
  shows "visit_targets s (t # ts) seen queue =
    (if t \<in> seen then visit_targets s ts seen queue
     else if returns s (name s t) then Inl (name s t) else visit_targets s ts (insert t seen) (queue @ [t]))"
  using name_get(1,3) [OF assms] by (simp add: returns_def split: option.splits)

lemma visit_targets_spec:
  assumes "scg_ok s" "set ts \<subseteq> slots s"
  shows "case visit_targets s ts seen queue of
      Inl i \<Rightarrow> \<exists>t \<in> set ts - seen. i = name s t \<and> returns s i
    | Inr (seen', queue') \<Rightarrow> seen' = seen \<union> set ts \<and> (\<forall>t \<in> set ts - seen. \<not> returns s (name s t))
        \<and> set queue' = set queue \<union> (set ts - seen)"
  using assms(2)
proof (induction ts arbitrary: seen queue)
  case (Cons t ts)
  then have t: "t \<in> slots s" and ts: "set ts \<subseteq> slots s" by simp_all
  show ?case
    unfolding visit_targets_step [OF assms(1) t] using Cons.IH [OF ts, of seen queue] Cons.IH [OF ts, of "insert t seen" "queue @ [t]"]
    by (auto split: sum.splits)
qed simp

text \<open>Visited slots are reachable, none but the entry is a return node, and those not queued are expanded.\<close>

definition search_inv :: "SCG \<Rightarrow> NodeIndex \<Rightarrow> NodeIndex set \<Rightarrow> NodeIndex list \<Rightarrow> bool" where
  "search_inv s k seen queue \<longleftrightarrow> k \<in> seen \<and> set queue \<subseteq> seen \<and> (\<forall>v \<in> seen. v \<in> slots s \<and> (k, v) \<in> (arc_rel (sg_graph s))\<^sup>*)
     \<and> (\<forall>v \<in> seen - {k}. \<not> returns s (name s v)) \<and> (\<forall>v \<in> seen - set queue. arc_rel (sg_graph s) `` {v} \<subseteq> seen)"

lemma targets_neighbours: "map er_target (edges_directed g k Outgoing) = neighbors_directed g k Outgoing"
proof -
  have "map er_target (List.map_filter (\<lambda>e. map_option (\<lambda>en. \<lparr>er_id = e, er_source = ee_source en, er_target = ee_target en,
      er_weight = ee_weight en\<rparr>) (slot (dg_edges g) e)) es)
    = List.map_filter (\<lambda>e. map_option (far_end Outgoing) (slot (dg_edges g) e)) es" for es
    by (induction es) (auto simp: List.map_filter_simps split: option.splits)
  then show ?thesis by (simp add: edges_directed_def neighbors_directed_def split: option.splits)
qed

definition found_return :: "SCG \<Rightarrow> NodeIndex \<Rightarrow> NodeId option \<Rightarrow> bool" where
  "found_return s k res \<longleftrightarrow> (case res of
       Some i \<Rightarrow> \<exists>v \<in> slots s - {k}. i = name s v \<and> returns s i \<and> (k, v) \<in> (arc_rel (sg_graph s))\<^sup>*
     | None \<Rightarrow> \<forall>v. (k, v) \<in> (arc_rel (sg_graph s))\<^sup>* \<and> v \<noteq> k \<longrightarrow> \<not> returns s (name s v))"

lemma return_search_correct:
  assumes "scg_ok s" "search_inv s k seen queue"
  shows "found_return s k (return_search s seen queue)"
  using assms
proof (induction s seen queue rule: return_search.induct)
  case (1 s seen)
  then have "v \<in> seen" if "(k, v) \<in> (arc_rel (sg_graph s))\<^sup>*" for v
    using closed_rtrancl [OF that, of seen] by (auto simp: search_inv_def)
  then show ?case using 1(2) by (auto simp: found_return_def search_inv_def)
next
  case (2 s seen u queue)
  let ?ts = "map er_target (edges_directed (sg_graph s) u Outgoing)"
  have u: "u \<in> slots s" "(k, u) \<in> (arc_rel (sg_graph s))\<^sup>*" "u \<in> seen" using 2(3) by (auto simp: search_inv_def)
  have ts: "set ?ts = arc_rel (sg_graph s) `` {u}" "set ?ts \<subseteq> slots s"
    using neighbors_directed_rel(1) [OF scg_okD(1) [OF 2(2)] u(1)] slots_rel [OF 2(2)] by (auto simp: targets_neighbours Image_def)
  have reach: "(k, t) \<in> (arc_rel (sg_graph s))\<^sup>*" if "t \<in> set ?ts" for t
    using u(2) that ts(1) by (auto intro: rtrancl_into_rtrancl)
  note V = visit_targets_spec [OF 2(2) ts(2), of seen queue]
  show ?case
  proof (cases "visit_targets s ?ts seen queue")
    case (Inl i)
    then obtain t where t: "t \<in> set ?ts - seen" "i = name s t" "returns s i" using V by auto
    then have "t \<in> slots s - {k}" using ts(2) 2(3) by (auto simp: search_inv_def)
    then show ?thesis using Inl t reach [of t] by (auto simp: found_return_def)
  next
    case (Inr p)
    then obtain seen' queue' where p: "visit_targets s ?ts seen queue = Inr (seen', queue')" by (cases p) auto
    with V have new: "seen' = seen \<union> set ?ts" "\<forall>t \<in> set ?ts - seen. \<not> returns s (name s t)"
      "set queue' = set queue \<union> (set ?ts - seen)" by auto
    have "search_inv s k seen' queue'"
      using 2(3) new reach ts unfolding search_inv_def by (auto simp del: set_map)
    from 2(1) [OF p refl 2(2) this] show ?thesis using p by simp
  qed
qed

text \<open>
  \<open>find_function_return\<close> terminates on every graph, and finds a return node exactly when one is reachable: the result
  is a function return node other than the entry that a path leads to from the entry; \<open>None\<close>
  means that the entry is not in the graph or no path leads to such a node.
\<close>

theorem find_function_return_exact:
  assumes "scg_ok s"
  shows "case find_function_return s i of
      Some r \<Rightarrow> get_node s i \<noteq> None \<and> r \<noteq> i \<and> returns s r \<and> (i, r) \<in> (id_rel s)\<^sup>*
    | None \<Rightarrow> get_node s i = None \<or> (\<forall>r. r \<noteq> i \<and> (i, r) \<in> (id_rel s)\<^sup>* \<longrightarrow> \<not> returns s r)"
proof (cases "hm_get (node_id_to_index s) i")
  case None
  then show ?thesis using get_node_None [OF assms, of i] by (simp add: find_function_return_def)
next
  case (Some k)
  note k = index_name [OF assms Some]
  have "search_inv s k {k} [k]" using k(1) by (simp add: search_inv_def)
  note F = return_search_correct [OF assms this]
  have i: "get_node s i \<noteq> None" using get_node_None [OF assms, of i] Some by simp
  have res: "find_function_return s i = return_search s {k} [k]" using Some by (simp add: find_function_return_def)
  show ?thesis
  proof (cases "return_search s {k} [k]")
    case None
    have "\<not> returns s r" if "r \<noteq> i" "(i, r) \<in> (id_rel s)\<^sup>*" for r
    proof
      assume "returns s r"
      then have "get_node s r \<noteq> None" by (auto simp: returns_def split: option.splits)
      then obtain v where v: "v \<in> slots s" "r = name s v" using name_image [OF assms] by blast
      then have "(k, v) \<in> (arc_rel (sg_graph s))\<^sup>*" using that(2) id_reach [OF assms k(1) v(1)] k(2) by simp
      then show False using F None v(2) k(2) that(1) \<open>returns s r\<close> by (auto simp: found_return_def)
    qed
    then show ?thesis using res None by simp
  next
    case (Some r)
    then obtain v where v: "v \<in> slots s" "v \<noteq> k" "r = name s v" "returns s r" "(k, v) \<in> (arc_rel (sg_graph s))\<^sup>*"
      using F by (auto simp: found_return_def)
    have "r \<noteq> i" using v(1-3) k inj_onD [OF name_inj [OF assms], of v k] by auto
    then show ?thesis using Some res i v id_reach [OF assms k(1) v(1)] k(2) by simp
  qed
qed

section \<open>Concrete graphs\<close>

definition loop_program :: "scg_op list" where
  "loop_program = [OpAddNode NtControl (Control CkFunctionEntry None) here, OpAddNode NtPhantom (PhantomNode ''head'') here,
     OpAddNode NtPhantom (PhantomNode ''body'') here, OpAddNode NtControl (Control CkFunctionReturn None) here,
     OpAddEdge 0 1 DataFlow, OpAddEdge 1 2 ControlFlow, OpAddEdge 2 1 ControlFlow, OpAddEdge 1 3 DataFlow]"

definition loop_scg :: SCG where
  "loop_scg = fst (the (scg_run loop_program scg_new))"

lemma loop_scg_ok: "scg_ok loop_scg" and loop_scg_counters: "counters_ok loop_scg"
proof -
  have "next_node_id scg_new = 0" "next_edge_id scg_new = 0" by (simp_all add: scg_new_def)
  then obtain s rs where "scg_run loop_program scg_new = Some (s, rs)" "scg_ok s" "counters_ok s"
    using run_sim [OF scg_new_ok, of 0 loop_program] by (auto simp: loop_program_def simp del: scg_run.simps spec_run.simps)
  then show "scg_ok loop_scg" "counters_ok loop_scg" by (simp_all add: loop_scg_def)
qed

theorem topological_sort_exact_witness:
  "topological_sort loop_scg = Some (Inl CycleDetected) \<and> \<not> acyclic (id_rel loop_scg)"
proof -
  have "has_cycles loop_scg = Some True" by code_simp
  then show ?thesis using topological_sort_exact [OF loop_scg_ok] by (auto split: if_splits)
qed

theorem topological_sort_with_cycles_exact_witness:
  "topological_sort_with_cycles loop_scg = Some [0, 1, 2, 3]
   \<and> (\<exists>groups. concat groups = [0, 1, 2, 3] \<and> set (concat groups) = dom (get_node loop_scg))"
proof -
  have r: "topological_sort_with_cycles loop_scg = Some [0, 1, 2, 3]" "length (dg_nodes (sg_graph loop_scg)) = 4"
    by code_simp+
  show ?thesis using topological_sort_with_cycles_exact [OF loop_scg_ok] r by auto
qed

theorem scg_traversal_exact_witness:
  "find_path loop_scg 0 3 = Some (Some True) \<and> (0, 3) \<in> (id_rel loop_scg)\<^sup>*"
proof -
  have "find_path loop_scg 0 3 = Some (Some True)" by code_simp
  then show ?thesis using scg_traversal_exact [OF loop_scg_ok, of 0 3] by (auto split: if_splits)
qed

theorem find_function_return_exact_witness:
  "find_function_return loop_scg 0 = Some 3 \<and> returns loop_scg 3 \<and> (0, 3) \<in> (id_rel loop_scg)\<^sup>*"
proof -
  have "find_function_return loop_scg 0 = Some 3" by code_simp
  then show ?thesis using find_function_return_exact [OF loop_scg_ok, of 0] by auto
qed

text \<open>
  The documentation of \<open>find_function_return\<close> restricts the search to control flow edges; the code follows every edge. Here
  the node has a single outgoing edge, a data flow edge.
\<close>

lemma return_over_data_flow:
  "find_function_return loop_scg 1 = Some 3"
  "map ed_kind (filter (\<lambda>e. ed_target e = 3) (edges loop_scg)) = [DataFlow]"
  by code_simp+

end
