(* ===== verification/Scg_Validate.thy ===== *)
theory Scg_Validate
  imports Scg_Order
begin

text \<open>
  What \<open>validate\<close> of \<^verbatim>\<open>scg/src/graph.rs\<close> reports: each of its five passes appends the findings of one element after
  the other, so the result is determined by what the passes find per node and per edge.
\<close>

section \<open>Findings of the passes\<close>

definition endpoint_errors :: "SCG \<Rightarrow> EdgeData \<Rightarrow> ValidationError list" where
  "endpoint_errors s e =
     (if get_node s (ed_source e) = None then [MissingSource (ed_id e) (ed_source e)] else []) @
     (if get_node s (ed_target e) = None then [MissingTarget (ed_id e) (ed_target e)] else [])"

definition is_allocation :: "SCG \<Rightarrow> NodeId \<Rightarrow> bool" where
  "is_allocation s i \<longleftrightarrow> (\<exists>n. get_node s i = Some n \<and> nd_node_type n = NtAllocation)"

definition is_freed :: "SCG \<Rightarrow> NodeId \<Rightarrow> bool" where
  "is_freed s i \<longleftrightarrow> (\<exists>j n. get_node s j = Some n \<and> dealloc_target (nd_payload n) = Some i)"

definition crosses :: "SCG \<Rightarrow> EdgeData \<Rightarrow> RegionId \<Rightarrow> RegionId \<Rightarrow> bool" where
  "crosses s e a b \<longleftrightarrow> ed_kind e = DataFlow \<and> find_region_for_node s (ed_source e) = Some a
     \<and> find_region_for_node s (ed_target e) = Some b \<and> a \<noteq> b \<and> (guarded s a \<or> guarded s b)"

definition lonely :: "SCG \<Rightarrow> NodeId \<Rightarrow> bool" where
  "lonely s i \<longleftrightarrow> (\<forall>j. (i, j) \<notin> id_rel s \<and> (j, i) \<notin> id_rel s)"

section \<open>Passes append\<close>

definition add_reports :: "ValidationWarning list \<Rightarrow> ValidationError list \<Rightarrow> ValidationResult \<Rightarrow> ValidationResult" where
  "add_reports ws es r = r\<lparr>is_valid := is_valid r \<and> es = [], warnings := warnings r @ ws, errors := errors r @ es\<rparr>"

lemma extend_extend: "add_reports ws es (add_reports ws' es' r) = add_reports (ws' @ ws) (es' @ es) r"
  by (auto simp: add_reports_def)

lemma extend_Nil [simp]: "add_reports [] [] r = r"
  by (simp add: add_reports_def)

lemma with_extend: "with_warning r w = add_reports [w] [] r" "with_error r e = add_reports [] [e] r"
  by (simp_all add: with_warning_def with_error_def add_reports_def)

lemma fold_extend: "fold (\<lambda>x. add_reports (f x) (h x)) xs r = add_reports (concat (map f xs)) (concat (map h xs)) r"
  by (induction xs arbitrary: r) (simp_all add: extend_extend)

lemma extend_if: "(if c then add_reports ws es r else r) = add_reports (if c then ws else []) (if c then es else []) r"
  by simp

lemma endpoints_extend: "check_endpoints s e = add_reports [] (endpoint_errors s e)"
  by (rule ext) (auto simp: check_endpoints_def endpoint_errors_def with_extend extend_extend)

definition orphan_warnings :: "SCG \<Rightarrow> NodeData \<Rightarrow> ValidationWarning list" where
  "orphan_warnings s n = (if nd_node_type n \<noteq> NtPhantom \<and> case_option [] id (successors s (nd_id n)) = []
     \<and> case_option [] id (predecessors s (nd_id n)) = [] \<and> scg_node_count s > 1 then [OrphanNode (nd_id n)] else [])"

lemma orphan_extend: "check_orphan s n = add_reports (orphan_warnings s n) []"
  by (rule ext) (auto simp: check_orphan_def orphan_warnings_def with_extend Let_def)

definition boundary_errors :: "SCG \<Rightarrow> EdgeData \<Rightarrow> ValidationError list" where
  "boundary_errors s e = (case (find_region_for_node s (ed_source e), find_region_for_node s (ed_target e)) of
       (Some a, Some b) \<Rightarrow> if crosses s e a b then [CrossesBoundary (ed_id e) a b] else []
     | _ \<Rightarrow> [])"

lemma boundary_extend: "check_boundary s e = add_reports [] (boundary_errors s e)"
  by (rule ext) (auto simp: check_boundary_def boundary_errors_def crosses_def with_extend split: option.splits)

lemma set_ordered_set: "set (ordered_set xs) = set xs"
proof -
  have "set (fold (\<lambda>x order. if x \<in> set order then order else order @ [x]) xs acc) = set acc \<union> set xs" for acc
    by (induction xs arbitrary: acc) auto
  then show ?thesis by (simp add: ordered_set_def)
qed

definition dealloc_errors :: "NodeId set \<Rightarrow> NodeData \<Rightarrow> ValidationError list" where
  "dealloc_errors allocs n = (case dealloc_target (nd_payload n) of
       Some a \<Rightarrow> if a \<notin> allocs then [DanglingDeallocation (nd_id n) a] else [] | None \<Rightarrow> [])"

lemma concat_map_Nil [simp]: "concat (map (\<lambda>x. []) xs) = []"
  by simp

lemma set_dealloc_errors:
  "set (dealloc_errors allocs n) = {DanglingDeallocation (nd_id n) a |a. dealloc_target (nd_payload n) = Some a \<and> a \<notin> allocs}"
  by (auto simp: dealloc_errors_def split: option.splits)

lemma set_boundary_errors: "set (boundary_errors s e) = {CrossesBoundary (ed_id e) a b |a b. crosses s e a b}"
  by (auto simp: boundary_errors_def crosses_def split: option.splits)

lemma validate_passes:
  "validate s =
     (let allocs = ordered_set (map nd_id (filter (\<lambda>n. nd_node_type n = NtAllocation) (nodes s)));
          freed = set (List.map_filter (\<lambda>n. dealloc_target (nd_payload n)) (nodes s))
      in add_reports (concat (map (\<lambda>a. if a \<notin> freed then [NoDeallocation a] else []) allocs) @ concat (map (orphan_warnings s) (nodes s)))
           (concat (map (endpoint_errors s) (edges s)) @ concat (map (dealloc_errors (set allocs)) (nodes s))
             @ concat (map (boundary_errors s) (edges s))) validation_ok)"
proof -
  have "(\<lambda>a r. if a \<notin> S then with_warning r (NoDeallocation a) else r) = (\<lambda>a. add_reports (if a \<notin> S then [NoDeallocation a] else []) [])" for S
    by (auto simp: fun_eq_iff with_extend)
  moreover have "(\<lambda>n r. case dealloc_target (nd_payload n) of
                 Some a \<Rightarrow> if a \<notin> A then with_error r (DanglingDeallocation (nd_id n) a) else r
               | None \<Rightarrow> r) = (\<lambda>n. add_reports [] (dealloc_errors A n))" for A
    by (auto simp: fun_eq_iff with_extend dealloc_errors_def split: option.splits)
  moreover have "check_endpoints s = (\<lambda>e. add_reports [] (endpoint_errors s e))" "check_orphan s = (\<lambda>n. add_reports (orphan_warnings s n) [])"
      "check_boundary s = (\<lambda>e. add_reports [] (boundary_errors s e))"
    using endpoints_extend orphan_extend boundary_extend by blast+
  ultimately show ?thesis
    unfolding validate_def Let_def set_ordered_set by (simp add: fold_extend extend_extend)
qed

section \<open>Nodes and edges of the passes\<close>

lemma mem_nodes: "scg_ok s \<Longrightarrow> n \<in> set (nodes s) \<longleftrightarrow> get_node s (nd_id n) = Some n"
  using get_node_iff [of s "nd_id n" n] by (simp add: nodes_def set_node_weights ran_def)

lemma mem_edges: "scg_ok s \<Longrightarrow> e \<in> set (edges s) \<longleftrightarrow> get_edge s (ed_id e) = Some e"
  using get_edge_iff [of s "ed_id e" e] by (simp add: edges_def set_edge_weights ran_def)

lemma node_count_dom: "scg_ok s \<Longrightarrow> scg_node_count s = card (dom (get_node s))"
  using card_image [OF name_inj, of s] name_image [of s] scg_okD(1) [of s]
  by (simp add: scg_node_count_def node_count_def digraph_ok_def)

lemma no_endpoint_errors:
  assumes "scg_ok s" "e \<in> set (edges s)"
  shows "endpoint_errors s e = []"
  using get_edge_ends [OF assms(1)] assms(2) mem_edges [OF assms(1)] by (simp add: endpoint_errors_def)

lemma option_empty: "case_option [] id r = [] \<longleftrightarrow> (case map_option set r of None \<Rightarrow> True | Some A \<Rightarrow> A = {})"
  by (cases r) auto

lemma orphan_iff:
  assumes "scg_ok s" "get_node s i = Some n"
  shows "orphan_warnings s n = (if nd_node_type n \<noteq> NtPhantom \<and> lonely s i \<and> card (dom (get_node s)) > 1 then [OrphanNode i] else [])"
  using neighbour_sets [OF assms(1), of i] assms(2) get_node_id [OF assms]
  by (auto simp: orphan_warnings_def lonely_def node_count_dom [OF assms(1)] option_empty)

text \<open>
  C31: \<open>validate\<close> is exact: a graph built by the operations never has a missing endpoint; the errors are the deallocation nodes whose
  target is no allocation node and the data flow edges between two different regions one of which is a
  security boundary, the warnings are the allocations no deallocation node refers to and the nodes (other
  than phantoms) without any edge in a graph of at least two nodes; the graph is valid exactly when there is no error.
\<close>

theorem validate_exact:
  assumes "scg_ok s"
  shows "set (errors (validate s)) =
      {DanglingDeallocation i a |i n a. get_node s i = Some n \<and> dealloc_target (nd_payload n) = Some a \<and> \<not> is_allocation s a}
      \<union> {CrossesBoundary i a b |i e a b. get_edge s i = Some e \<and> crosses s e a b}
    \<and> set (warnings (validate s)) = {NoDeallocation i |i. is_allocation s i \<and> \<not> is_freed s i}
      \<union> {OrphanNode i |i n. get_node s i = Some n \<and> nd_node_type n \<noteq> NtPhantom \<and> lonely s i \<and> card (dom (get_node s)) > 1}
    \<and> is_valid (validate s) = (errors (validate s) = [])"
proof -
  note N = mem_nodes [OF assms] and E = mem_edges [OF assms]
  have idn: "get_node s i = Some n \<longleftrightarrow> n \<in> set (nodes s) \<and> nd_id n = i" for i n using N get_node_id [OF assms] by blast
  have ide: "get_edge s i = Some e \<longleftrightarrow> e \<in> set (edges s) \<and> ed_id e = i" for i e using E get_edge_id [OF assms] by blast
  have allocs: "set (ordered_set (map nd_id (filter (\<lambda>n. nd_node_type n = NtAllocation) (nodes s)))) = {i. is_allocation s i}"
    by (auto simp: set_ordered_set is_allocation_def idn image_iff)
  have freed: "set (List.map_filter (\<lambda>n. dealloc_target (nd_payload n)) (nodes s)) = {i. is_freed s i}"
    by (auto simp: set_map_filter is_freed_def idn)
  have r: "is_valid validation_ok" "errors validation_ok = []" "warnings validation_ok = []" by (simp_all add: validation_ok_def)
  have err: "errors (validate s) = concat (map (dealloc_errors {i. is_allocation s i}) (nodes s)) @ concat (map (boundary_errors s) (edges s))"
    using no_endpoint_errors [OF assms] by (simp add: validate_passes Let_def allocs add_reports_def r)
  have "set (errors (validate s)) =
      {DanglingDeallocation i a |i n a. get_node s i = Some n \<and> dealloc_target (nd_payload n) = Some a \<and> \<not> is_allocation s a}
      \<union> {CrossesBoundary i a b |i e a b. get_edge s i = Some e \<and> crosses s e a b}"
    unfolding err by (auto simp: set_dealloc_errors set_boundary_errors idn ide)
  moreover have "set (warnings (validate s)) = {NoDeallocation i |i. is_allocation s i \<and> \<not> is_freed s i}
      \<union> (\<Union>n \<in> set (nodes s). set (orphan_warnings s n))"
    using allocs by (auto simp: validate_passes Let_def add_reports_def r freed split: if_splits)
  moreover have "(\<Union>n \<in> set (nodes s). set (orphan_warnings s n)) = {OrphanNode i |i n. get_node s i = Some n
      \<and> nd_node_type n \<noteq> NtPhantom \<and> lonely s i \<and> card (dom (get_node s)) > 1}"
  proof -
    let ?P = "\<lambda>n. nd_node_type n \<noteq> NtPhantom \<and> lonely s (nd_id n) \<and> card (dom (get_node s)) > 1"
    have "set (orphan_warnings s n) = {OrphanNode i |i. i = nd_id n \<and> ?P n}" if "n \<in> set (nodes s)" for n
      using orphan_iff [OF assms, of "nd_id n" n] that N by simp
    then have "(\<Union>n \<in> set (nodes s). set (orphan_warnings s n)) = {OrphanNode i |i n. n \<in> set (nodes s) \<and> nd_id n = i \<and> ?P n}"
      by auto
    then show ?thesis unfolding idn by (simp add: conj_assoc cong: conj_cong)
  qed
  moreover have "is_valid (validate s) = (errors (validate s) = [])" by (simp add: validate_passes Let_def add_reports_def r)
  ultimately show ?thesis by simp
qed

text \<open>An allocation in a guarded region whose data leaves it, and a deallocation of a node that is no allocation.\<close>

definition leaky_scg :: SCG where
  "leaky_scg =
     (let s = fst (the (scg_run [OpAddNode NtAllocation (Allocation 8 8 0 None) here, OpAddNode NtEffect (Effect ''send'' True) here,
                                 OpAddNode NtDeallocation (Deallocation 1 0) here, OpAddEdge 0 1 DataFlow] scg_new))
      in add_region (add_region s (region_add_node 0 ((region_new 0 Heap)\<lparr>rg_security_boundary := True\<rparr>))) (region_add_node 1 (region_new 1 Heap)))"

lemma leaky_scg_ok: "scg_ok leaky_scg"
proof -
  have "next_node_id scg_new = 0" "next_edge_id scg_new = 0" by (simp_all add: scg_new_def)
  then show ?thesis
    using run_sim [OF scg_new_ok, of 0 "[OpAddNode NtAllocation (Allocation 8 8 0 None) here, OpAddNode NtEffect (Effect ''send'' True) here,
      OpAddNode NtDeallocation (Deallocation 1 0) here, OpAddEdge 0 1 DataFlow]"]
    by (auto simp: leaky_scg_def Let_def region_add_node_def region_new_def intro!: add_region_ok simp del: scg_run.simps spec_run.simps)
qed

theorem validate_exact_witness:
  "errors (validate leaky_scg) = [DanglingDeallocation 2 1, CrossesBoundary 0 0 1] \<and> \<not> is_valid (validate leaky_scg)
   \<and> warnings (validate leaky_scg) = [NoDeallocation 0, OrphanNode 2] \<and> \<not> is_allocation leaky_scg 1"
proof -
  have r: "errors (validate leaky_scg) = [DanglingDeallocation 2 1, CrossesBoundary 0 0 1]"
      "warnings (validate leaky_scg) = [NoDeallocation 0, OrphanNode 2]" by code_simp+
  then have "DanglingDeallocation 2 1 \<in> set (errors (validate leaky_scg))" by simp
  then show ?thesis using validate_exact [OF leaky_scg_ok] r by auto
qed

end
