(* ===== verification/Scg_Merge.thy ===== *)
theory Scg_Merge
  imports Scg_Validate
begin

text \<open>
  \<open>merge\<close> of \<^verbatim>\<open>scg/src/graph.rs\<close>: the second graph is copied into the first under fresh identifiers. Its three
  loops (nodes, edges, regions) are instances of one argument, kept in \<open>copied\<close>: items are added
  one by one under increasing fresh keys while everything stored before stays as it was.
\<close>

section \<open>Copying under fresh keys\<close>

definition copied :: "(u64 \<rightharpoonup> 'd) \<Rightarrow> (u64 \<rightharpoonup> 'd) \<Rightarrow> u64 \<Rightarrow> u64 \<Rightarrow> ('d \<Rightarrow> u64) \<Rightarrow> (u64 \<Rightarrow> 'd \<Rightarrow> 'd) \<Rightarrow> 'd set \<Rightarrow> (u64 \<rightharpoonup> u64) \<Rightarrow> bool" where
  "copied old new n0 n1 key f D m \<longleftrightarrow>
     n0 \<le> n1 \<and> dom m = key ` D \<and> inj_on m (dom m) \<and> (\<forall>j \<in> ran m. n0 \<le> j \<and> j < n1) \<and>
     (\<forall>d \<in> D. \<exists>j. m (key d) = Some j \<and> new j = Some (f j d)) \<and> (\<forall>j. j \<notin> ran m \<longrightarrow> new j = old j)"

lemma copied_start: "copied old old n n key f {} Map.empty"
  by (simp add: copied_def)

lemma copied_step:
  assumes "copied old new n0 n1 key f D m" "key x \<notin> key ` D" "n1 < n1 + 1"
  shows "copied old (new(n1 \<mapsto> f n1 x)) n0 (n1 + 1) key f (insert x D) (m(key x \<mapsto> n1))"
proof -
  have m: "n0 \<le> n1" "dom m = key ` D" "inj_on m (dom m)" "\<forall>j \<in> ran m. n0 \<le> j \<and> j < n1"
      "\<forall>d \<in> D. \<exists>j. m (key d) = Some j \<and> new j = Some (f j d)" "\<forall>j. j \<notin> ran m \<longrightarrow> new j = old j"
    using assms(1) unfolding copied_def by blast+
  have fresh: "m (key x) = None" "n1 \<notin> ran m" using m(2,4) assms(2) by auto
  have ran: "ran (m(key x \<mapsto> n1)) = insert n1 (ran m)" using fresh(1) by (simp add: ran_map_upd)
  have "\<forall>j \<in> ran (m(key x \<mapsto> n1)). n0 \<le> j \<and> j < n1 + 1" using ran m(1,4) assms(3) by auto
  moreover have "inj_on (m(key x \<mapsto> n1)) (dom (m(key x \<mapsto> n1)))"
  proof (rule inj_onI)
    fix a b
    assume ab: "a \<in> dom (m(key x \<mapsto> n1))" "b \<in> dom (m(key x \<mapsto> n1))" "(m(key x \<mapsto> n1)) a = (m(key x \<mapsto> n1)) b"
    have "m c \<noteq> Some n1" for c using fresh(2) by (auto simp: ran_def)
    then show "a = b" using ab inj_onD [OF m(3), of a b] by (auto split: if_splits)
  qed
  moreover have "\<exists>j. (m(key x \<mapsto> n1)) (key d) = Some j \<and> (new(n1 \<mapsto> f n1 x)) j = Some (f j d)" if d: "d \<in> D" for d
  proof -
    obtain j where j: "m (key d) = Some j" "new j = Some (f j d)" using m(5) d by blast
    then have "j \<noteq> n1" "key d \<noteq> key x" using fresh by (auto simp: ran_def)
    then show ?thesis using j by simp
  qed
  ultimately show ?thesis using m(1,2,6) assms(3) ran unfolding copied_def by auto
qed

lemma copied_facts:
  assumes "copied old new n0 n1 key f D m" "\<forall>j \<in> dom old. j < n0"
  shows "ran m \<inter> dom old = {}" "\<forall>j d. old j = Some d \<longrightarrow> new j = Some d" "dom new = dom old \<union> ran m"
    "\<forall>j \<in> dom new. j < n1"
proof -
  have m: "n0 \<le> n1" "\<forall>j \<in> ran m. n0 \<le> j \<and> j < n1" "\<forall>j. j \<notin> ran m \<longrightarrow> new j = old j" "dom m = key ` D"
      "\<forall>d \<in> D. \<exists>j. m (key d) = Some j \<and> new j = Some (f j d)"
    using assms(1) unfolding copied_def by blast+
  show dis: "ran m \<inter> dom old = {}" using m(2) assms(2) by (auto simp: not_le [symmetric])
  then show "\<forall>j d. old j = Some d \<longrightarrow> new j = Some d" using m(3) by (metis IntI domI empty_iff)
  have "new j \<noteq> None" if j: "j \<in> ran m" for j
  proof -
    obtain i where i: "m i = Some j" using j by (auto simp: ran_def)
    then obtain d where "d \<in> D" "i = key d" using m(4) by blast
    then show ?thesis using m(5) i by fastforce
  qed
  then show dom: "dom new = dom old \<union> ran m" using m(3) dis by fastforce
  show "\<forall>j \<in> dom new. j < n1" using dom m(1,2) assms(2) by (auto intro: less_le_trans)
qed

section \<open>The loop over the nodes\<close>

lemma merge_node_spec:
  assumes "scg_ok s" "counters_ok s" "next_node_id s < next_node_id s + 1"
  shows "\<exists>s'. merge_node n (s, m) = (s', hm_insert (nd_id n) (next_node_id s) m) \<and> scg_ok s'
    \<and> get_node s' = (get_node s)(next_node_id s \<mapsto> n\<lparr>nd_id := next_node_id s\<rparr>) \<and> get_edge s' = get_edge s
    \<and> next_node_id s' = next_node_id s + 1 \<and> next_edge_id s' = next_edge_id s \<and> sg_regions s' = sg_regions s"
proof -
  let ?i = "next_node_id s"
  let ?d = "node_data ?i (nd_node_type n) (nd_payload n) (nd_program_point n)"
  define s1 where "s1 = insert_node (s\<lparr>next_node_id := ?i + 1\<rparr>) ?d"
  have a: "add_node s (nd_node_type n) (nd_payload n) (nd_program_point n) = (s1, ?i)"
    by (simp add: add_node_def alloc_node_id_def s1_def)
  have "get_node (s\<lparr>next_node_id := ?i + 1\<rparr>) (nd_id ?d) = None" using fresh_counter [OF assms(2)] by (simp add: node_data_def)
  from insert_node_spec [OF _ this] have s1: "scg_ok s1" "get_node s1 = (get_node s)(?i \<mapsto> ?d)" "get_edge s1 = get_edge s"
    using assms(1) by (simp_all add: s1_def node_data_def)
  have c: "next_node_id s1 = ?i + 1" "next_edge_id s1 = next_edge_id s" "sg_regions s1 = sg_regions s"
    by (simp_all add: s1_def insert_node_def split_beta)
  show ?thesis
  proof (cases "nd_annotation n")
    case None
    then have "?d = n\<lparr>nd_id := ?i\<rparr>" by (cases n) (simp add: node_data_def)
    then show ?thesis using None a s1 c by (simp add: merge_node_def)
  next
    case (Some ann)
    let ?s = "get_node_mut s1 ?i (nd_annotation_update (\<lambda>_. Some ann))"
    have "nd_annotation_update (\<lambda>_. Some ann) ?d = n\<lparr>nd_id := ?i\<rparr>" using Some by (cases n) (simp add: node_data_def)
    then have "get_node ?s = (get_node s)(?i \<mapsto> n\<lparr>nd_id := ?i\<rparr>)" "scg_ok ?s" "get_edge ?s = get_edge s"
      using get_node_mut_spec [OF s1(1), of "nd_annotation_update (\<lambda>_. Some ann)" ?i] s1(2,3) by simp_all
    moreover have "sg_regions ?s = sg_regions s" using c(3) by (simp add: get_node_mut_def split: option.splits)
    ultimately show ?thesis using Some a c by (simp add: merge_node_def)
  qed
qed

lemma merge_nodes_spec:
  assumes "scg_ok s" "counters_ok s" "copied old (get_node s) n0 (next_node_id s) nd_id (\<lambda>j d. d\<lparr>nd_id := j\<rparr>) D (hm_get m)"
    and "distinct (map nd_id ns)" "nd_id ` set ns \<inter> nd_id ` D = {}" "unat (next_node_id s) + length ns < 2 ^ 64"
    and "\<forall>j \<in> dom old. j < n0"
  shows "\<exists>s' m'. fold merge_node ns (s, m) = (s', m') \<and> scg_ok s' \<and> counters_ok s' \<and> get_edge s' = get_edge s
    \<and> next_edge_id s' = next_edge_id s \<and> sg_regions s' = sg_regions s
    \<and> copied old (get_node s') n0 (next_node_id s') nd_id (\<lambda>j d. d\<lparr>nd_id := j\<rparr>) (D \<union> set ns) (hm_get m')"
  using assms(1-6)
proof (induction ns arbitrary: s m D)
  case (Cons n ns)
  have u: "unat (next_node_id s + 1) = unat (next_node_id s) + 1" using Cons.prems(6) by (simp add: unat_word_ariths)
  then have up: "next_node_id s < next_node_id s + 1" by (simp add: word_less_nat_alt)
  from merge_node_spec [OF Cons.prems(1,2) up, of n m] obtain s1 where
      s1: "merge_node n (s, m) = (s1, hm_insert (nd_id n) (next_node_id s) m)" "scg_ok s1"
        "get_node s1 = (get_node s)(next_node_id s \<mapsto> n\<lparr>nd_id := next_node_id s\<rparr>)" "get_edge s1 = get_edge s"
        "next_node_id s1 = next_node_id s + 1" "next_edge_id s1 = next_edge_id s" "sg_regions s1 = sg_regions s"
    by blast
  have cp: "copied old (get_node s1) n0 (next_node_id s1) nd_id (\<lambda>j d. d\<lparr>nd_id := j\<rparr>) (insert n D)
      (hm_get (hm_insert (nd_id n) (next_node_id s) m))"
    unfolding s1 hm_get_insert using copied_step [OF Cons.prems(3) _ up, of n] Cons.prems(5) by auto
  have c: "counters_ok s1"
    using copied_facts(4) [OF cp assms(7)] Cons.prems(2) s1(4,6) by (auto simp: counters_ok_def dom_def)
  have "nd_id ` set ns \<inter> nd_id ` insert n D = {}" "unat (next_node_id s1) + length ns < 2 ^ 64"
    using Cons.prems(4-6) u s1(5) by auto
  from Cons.IH [OF s1(2) c cp _ this] Cons.prems(4) show ?case using s1 by auto
qed auto

section \<open>The loop over the edges\<close>

definition moved :: "(NodeId, NodeId) hmap \<Rightarrow> EdgeId \<Rightarrow> EdgeData \<Rightarrow> EdgeData" where
  "moved m j e = e\<lparr>ed_id := j, ed_source := remap m (ed_source e), ed_target := remap m (ed_target e)\<rparr>"

lemma merge_edge_spec:
  assumes "scg_ok s" "counters_ok s"
    and "get_node s (remap m (ed_source e)) \<noteq> None" "get_node s (remap m (ed_target e)) \<noteq> None"
  shows "scg_ok (merge_edge m e s) \<and> get_edge (merge_edge m e s) = (get_edge s)(next_edge_id s \<mapsto> moved m (next_edge_id s) e)
    \<and> get_node (merge_edge m e s) = get_node s \<and> next_edge_id (merge_edge m e s) = next_edge_id s + 1
    \<and> next_node_id (merge_edge m e s) = next_node_id s \<and> sg_regions (merge_edge m e s) = sg_regions s"
proof -
  let ?i = "next_edge_id s"
  let ?d = "edge_data ?i (remap m (ed_source e)) (remap m (ed_target e)) (ed_kind e)"
  obtain a b where ab: "hm_get (node_id_to_index s) (remap m (ed_source e)) = Some a" "hm_get (node_id_to_index s) (remap m (ed_target e)) = Some b"
    using endpoints_found [OF assms(1,3,4)] .
  define s1 where "s1 = insert_edge (s\<lparr>next_edge_id := ?i + 1\<rparr>) a b ?d"
  have r: "add_edge s (remap m (ed_source e)) (remap m (ed_target e)) (ed_kind e) = Inr (s1, ?i)"
    using ab by (simp add: add_edge_def alloc_edge_id_def s1_def)
  have s1: "scg_ok s1" "get_edge s1 = (get_edge s)(?i \<mapsto> ?d)" "get_node s1 = get_node s"
    using insert_edge_spec [of "s\<lparr>next_edge_id := ?i + 1\<rparr>" ?d a b] assms(1) ab fresh_counter(2) [OF assms(2)]
    by (simp_all add: s1_def edge_data_def)
  have c: "next_edge_id s1 = ?i + 1" "next_node_id s1 = next_node_id s" "sg_regions s1 = sg_regions s"
    by (simp_all add: s1_def insert_edge_def split_beta)
  show ?thesis
  proof (cases "ed_label e")
    case None
    then have "?d = moved m ?i e" by (cases e) (simp add: edge_data_def moved_def)
    then show ?thesis using None r s1 c by (simp add: merge_edge_def)
  next
    case (Some l)
    let ?s = "get_edge_mut s1 ?i (ed_label_update (\<lambda>_. Some l))"
    have "ed_label_update (\<lambda>_. Some l) ?d = moved m ?i e" using Some by (cases e) (simp add: edge_data_def moved_def)
    then have "get_edge ?s = (get_edge s)(?i \<mapsto> moved m ?i e)" "scg_ok ?s" "get_node ?s = get_node s"
      using get_edge_mut_spec [OF s1(1), of "ed_label_update (\<lambda>_. Some l)" ?i] s1(2,3) by simp_all
    moreover have "sg_regions ?s = sg_regions s" using c(3) by (simp add: get_edge_mut_def split: option.splits)
    ultimately show ?thesis using Some r c by (simp add: merge_edge_def)
  qed
qed

lemma merge_edges_spec:
  assumes "scg_ok s" "counters_ok s" "copied old (get_edge s) n0 (next_edge_id s) ed_id (moved m) D em"
    and "distinct (map ed_id es)" "ed_id ` set es \<inter> ed_id ` D = {}" "unat (next_edge_id s) + length es < 2 ^ 64"
    and "\<forall>e \<in> set es. get_node s (remap m (ed_source e)) \<noteq> None \<and> get_node s (remap m (ed_target e)) \<noteq> None"
    and "\<forall>j \<in> dom old. j < n0"
  shows "\<exists>em'. scg_ok (fold (merge_edge m) es s) \<and> counters_ok (fold (merge_edge m) es s)
    \<and> get_node (fold (merge_edge m) es s) = get_node s \<and> sg_regions (fold (merge_edge m) es s) = sg_regions s
    \<and> copied old (get_edge (fold (merge_edge m) es s)) n0 (next_edge_id (fold (merge_edge m) es s)) ed_id (moved m) (D \<union> set es) em'"
  using assms(1-7)
proof (induction es arbitrary: s D em)
  case (Cons e es)
  let ?s = "merge_edge m e s"
  have u: "unat (next_edge_id s + 1) = unat (next_edge_id s) + 1" using Cons.prems(6) by (simp add: unat_word_ariths)
  then have up: "next_edge_id s < next_edge_id s + 1" by (simp add: word_less_nat_alt)
  have s1: "scg_ok ?s" "get_edge ?s = (get_edge s)(next_edge_id s \<mapsto> moved m (next_edge_id s) e)" "get_node ?s = get_node s"
      "next_edge_id ?s = next_edge_id s + 1" "next_node_id ?s = next_node_id s" "sg_regions ?s = sg_regions s"
    using merge_edge_spec [OF Cons.prems(1,2), of m e] Cons.prems(7) by simp_all
  have cp: "copied old (get_edge ?s) n0 (next_edge_id ?s) ed_id (moved m) (insert e D) (em(ed_id e \<mapsto> next_edge_id s))"
    unfolding s1 using copied_step [OF Cons.prems(3) _ up, of e] Cons.prems(5) by auto
  have c: "counters_ok ?s"
    using copied_facts(4) [OF cp assms(8)] Cons.prems(2) s1(3,5) by (auto simp: counters_ok_def dom_def)
  have "ed_id ` set es \<inter> ed_id ` insert e D = {}" "unat (next_edge_id ?s) + length es < 2 ^ 64"
      "\<forall>e \<in> set es. get_node ?s (remap m (ed_source e)) \<noteq> None \<and> get_node ?s (remap m (ed_target e)) \<noteq> None"
    using Cons.prems(4-7) u s1(3,4) by auto
  from Cons.IH [OF s1(1) c cp _ this] Cons.prems(4) show ?case using s1 by auto
qed auto

section \<open>The loop over the regions\<close>

definition moved_region :: "(NodeId, NodeId) hmap \<Rightarrow> RegionId \<Rightarrow> SCGRegion \<Rightarrow> SCGRegion" where
  "moved_region m j r = r\<lparr>rg_id := j, rg_nodes := {i'. \<exists>i \<in> rg_nodes r. hm_get m i = Some i'}\<rparr>"

lemma fold_max: "fold max xs (a :: u64) = Max (insert a (set xs))"
  using Max.set_eq_fold [of a xs] by simp

lemma word_succ_less: "x + 1 \<noteq> 0 \<Longrightarrow> x < x + (1 :: u64)"
  using unatSuc [of x] by (simp add: word_less_nat_alt add.commute)

lemma next_region_fresh:
  assumes "next_region_id s \<noteq> 0" "get_region s i \<noteq> None"
  shows "i < next_region_id s"
proof -
  have "i \<in> set (hm_keys (sg_regions s))" using assms(2) map_of_eq_None_iff [of "sg_regions s" i] by (simp add: get_region_def)
  then have "i \<le> fold max (hm_keys (sg_regions s)) 0" by (simp add: fold_max)
  moreover have "fold max (hm_keys (sg_regions s)) 0 < next_region_id s"
    using assms(1) word_succ_less unfolding next_region_id_def by blast
  ultimately show ?thesis by simp
qed

lemma next_region_insert:
  assumes "next_region_id s \<noteq> 0"
  shows "next_region_id (add_region s (r\<lparr>rg_id := next_region_id s\<rparr>)) = next_region_id s + 1"
proof -
  let ?M = "fold max (hm_keys (sg_regions s)) 0"
  have "set (hm_keys (hm_insert k v m)) = insert k (set (hm_keys m))" for k :: RegionId and v :: SCGRegion and m by (induction m) auto
  then have "fold max (hm_keys (sg_regions (add_region s (r\<lparr>rg_id := ?M + 1\<rparr>)))) 0 = max (?M + 1) ?M"
    by (simp add: fold_max add_region_def insert_commute [of 0])
  also have "\<dots> = ?M + 1" using assms word_succ_less [of ?M] unfolding next_region_id_def by simp
  finally show ?thesis by (simp add: next_region_id_def)
qed

lemma merge_region_spec:
  assumes "scg_ok s" "next_region_id s \<noteq> 0"
  shows "scg_ok (merge_region m r s) \<and> get_node (merge_region m r s) = get_node s \<and> get_edge (merge_region m r s) = get_edge s
    \<and> get_region (merge_region m r s) = (get_region s)(next_region_id s \<mapsto> moved_region m (next_region_id s) r)
    \<and> next_region_id (merge_region m r s) = next_region_id s + 1
    \<and> next_node_id (merge_region m r s) = next_node_id s \<and> next_edge_id (merge_region m r s) = next_edge_id s"
proof -
  have "(\<lambda>i. the (hm_get m i)) ` Set.filter (\<lambda>i. hm_get m i \<noteq> None) (rg_nodes r) = {i'. \<exists>i \<in> rg_nodes r. hm_get m i = Some i'}"
    by force
  then have mr: "merge_region m r s = add_region s (moved_region m (next_region_id s) r)"
    by (cases r) (simp add: merge_region_def moved_region_def)
  have id: "moved_region m (next_region_id s) r = (moved_region m (next_region_id s) r)\<lparr>rg_id := next_region_id s\<rparr>"
    by (simp add: moved_region_def)
  have "get_region (merge_region m r s) = (get_region s)(next_region_id s \<mapsto> moved_region m (next_region_id s) r)"
    unfolding mr by (simp add: get_region_def [abs_def] add_region_def moved_region_def hm_get_insert)
  moreover have "next_region_id (merge_region m r s) = next_region_id s + 1"
    unfolding mr by (subst id) (rule next_region_insert [OF assms(2)])
  ultimately show ?thesis unfolding mr using add_region_ok [OF assms(1)] by (simp add: add_region_def)
qed

lemma merge_regions_spec:
  assumes "scg_ok s" "counters_ok s" "copied old (get_region s) n0 (next_region_id s) rg_id (moved_region m) D rm"
    and "distinct (map rg_id rs)" "rg_id ` set rs \<inter> rg_id ` D = {}" "unat (next_region_id s) + length rs < 2 ^ 64" "next_region_id s \<noteq> 0"
  shows "\<exists>rm'. scg_ok (fold (merge_region m) rs s) \<and> counters_ok (fold (merge_region m) rs s)
    \<and> get_node (fold (merge_region m) rs s) = get_node s \<and> get_edge (fold (merge_region m) rs s) = get_edge s
    \<and> copied old (get_region (fold (merge_region m) rs s)) n0 (next_region_id (fold (merge_region m) rs s)) rg_id (moved_region m) (D \<union> set rs) rm'"
  using assms
proof (induction rs arbitrary: s D rm)
  case (Cons r rs)
  let ?s = "merge_region m r s"
  have u: "unat (next_region_id s + 1) = unat (next_region_id s) + 1" using Cons.prems(6) by (simp add: unat_word_ariths)
  then have up: "next_region_id s < next_region_id s + 1" by (simp add: word_less_nat_alt)
  have s1: "scg_ok ?s" "get_node ?s = get_node s" "get_edge ?s = get_edge s"
      "get_region ?s = (get_region s)(next_region_id s \<mapsto> moved_region m (next_region_id s) r)"
      "next_region_id ?s = next_region_id s + 1" "next_node_id ?s = next_node_id s" "next_edge_id ?s = next_edge_id s"
    using merge_region_spec [OF Cons.prems(1,7), of m r] by simp_all
  have cp: "copied old (get_region ?s) n0 (next_region_id ?s) rg_id (moved_region m) (insert r D) (rm(rg_id r \<mapsto> next_region_id s))"
    unfolding s1 using copied_step [OF Cons.prems(3) _ up, of r] Cons.prems(5) by auto
  have c: "counters_ok ?s" using Cons.prems(2) s1 by (simp add: counters_ok_def)
  have "rg_id ` set rs \<inter> rg_id ` insert r D = {}" "unat (next_region_id ?s) + length rs < 2 ^ 64" "next_region_id ?s \<noteq> 0"
    using Cons.prems(4-6) u s1(5) by auto
  from Cons.IH [OF s1(1) c cp _ this] Cons.prems(4) show ?case using s1 by auto
qed auto

section \<open>The merged graph\<close>

lemma slot_Cons [simp]: "slot (x # xs) (Suc i) = slot xs i" "slot (x # xs) 0 = x"
  by (simp_all add: slot_def)

lemma distinct_slot_keys:
  assumes "\<And>i j a b. \<lbrakk>slot xs i = Some a; slot xs j = Some b; key a = key b\<rbrakk> \<Longrightarrow> i = j"
  shows "distinct (map key (List.map_filter (\<lambda>x. x) xs))"
  using assms
proof (induction xs)
  case (Cons x xs)
  have "i = j" if "slot xs i = Some a" "slot xs j = Some b" "key a = key b" for i j a b
    using Cons.prems [of "Suc i" a "Suc j" b] that by simp
  then have ih: "distinct (map key (List.map_filter (\<lambda>x. x) xs))" by (rule Cons.IH)
  show ?case
  proof (cases x)
    case (Some a)
    have "key a \<noteq> key b" if b: "Some b \<in> set xs" for b
    proof -
      obtain j where "slot xs j = Some b" using b mem_slot [of b xs] by blast
      then show ?thesis using Cons.prems [of 0 a "Suc j" b] Some by auto
    qed
    then show ?thesis using Some ih by (auto simp: List.map_filter_simps set_map_filter)
  qed (use ih in \<open>simp add: List.map_filter_simps\<close>)
qed (simp add: List.map_filter_simps)

lemma map_filter_map_option: "List.map_filter (map_option f) xs = map f (List.map_filter (\<lambda>x. x) xs)"
  by (induction xs) (auto simp: List.map_filter_simps split: option.splits)

lemma distinct_ids:
  assumes "scg_ok s"
  shows "distinct (map nd_id (nodes s))" "distinct (map ed_id (edges s))" "distinct (map rg_id (regions s))"
proof -
  note D = scg_okD [OF assms]
  show "distinct (map nd_id (nodes s))"
    unfolding nodes_def node_weights_def map_filter_map_option map_map
    by (rule distinct_slot_keys) (use ids_ok_inj [OF D(2)] in \<open>simp add: node_weight_def\<close>)
  show "distinct (map ed_id (edges s))"
    unfolding edges_def edge_weights_def map_filter_map_option map_map
    by (rule distinct_slot_keys) (use ids_ok_inj [OF D(3)] in \<open>simp add: edge_weight_def\<close>)
  have "map rg_id (regions s) = hm_keys (sg_regions s)" using assms by (auto simp: regions_def scg_ok_def)
  then show "distinct (map rg_id (regions s))" using assms by (simp add: scg_ok_def)
qed

lemma region_iff:
  assumes "scg_ok s"
  shows "get_region s i = Some r \<longleftrightarrow> r \<in> set (regions s) \<and> rg_id r = i"
proof -
  have "hm_ok (sg_regions s)" "\<forall>(i, r) \<in> set (sg_regions s). rg_id r = i" using assms by (simp_all add: scg_ok_def)
  then show ?thesis using hm_mem [of "sg_regions s" i r] by (force simp: get_region_def regions_def)
qed

text \<open>The copy of each node, edge or region of the second graph, and where to find it.\<close>

lemma copied_lookup:
  assumes "copied old new n0 n1 key f D m" "\<And>i d. get i = Some d \<longleftrightarrow> d \<in> D \<and> key d = i"
  shows "dom m = dom get" "\<forall>i d. get i = Some d \<longrightarrow> (\<exists>j. m i = Some j \<and> new j = Some (f j d))"
proof -
  have m: "dom m = key ` D" "\<forall>d \<in> D. \<exists>j. m (key d) = Some j \<and> new j = Some (f j d)"
    using assms(1) unfolding copied_def by blast+
  show "dom m = dom get" unfolding m(1) using assms(2) by (force simp: dom_def)
  show "\<forall>i d. get i = Some d \<longrightarrow> (\<exists>j. m i = Some j \<and> new j = Some (f j d))" using m(2) assms(2) by auto
qed

definition disjoint_copy :: "(u64 \<rightharpoonup> 'd) \<Rightarrow> (u64 \<rightharpoonup> 'd) \<Rightarrow> (u64 \<rightharpoonup> 'd) \<Rightarrow> (u64 \<Rightarrow> 'd \<Rightarrow> 'd) \<Rightarrow> (u64 \<rightharpoonup> u64) \<Rightarrow> bool" where
  "disjoint_copy old other new f m \<longleftrightarrow>
     dom m = dom other \<and> inj_on m (dom m) \<and> ran m \<inter> dom old = {} \<and> dom new = dom old \<union> ran m \<and>
     (\<forall>j d. old j = Some d \<longrightarrow> new j = Some d) \<and>
     (\<forall>i d. other i = Some d \<longrightarrow> (\<exists>j. m i = Some j \<and> new j = Some (f j d)))"

lemma disjoint_copyI:
  assumes "copied old new n0 n1 key f D m" "\<forall>j \<in> dom old. j < n0" "\<And>i d. get i = Some d \<longleftrightarrow> d \<in> D \<and> key d = i"
  shows "disjoint_copy old get new f m"
proof -
  have "inj_on m (dom m)" using assms(1) unfolding copied_def by blast
  then show ?thesis unfolding disjoint_copy_def using copied_facts [OF assms(1,2)] copied_lookup [OF assms(1,3)] by blast
qed

lemma remapped_exists:
  assumes "scg_ok other" "disjoint_copy old (get_node other) new f (hm_get m)" "e \<in> set (edges other)"
  shows "new (remap m (ed_source e)) \<noteq> None \<and> new (remap m (ed_target e)) \<noteq> None"
proof -
  have "get_node other (ed_source e) \<noteq> None" "get_node other (ed_target e) \<noteq> None"
    using get_edge_ends [OF assms(1)] mem_edges [OF assms(1)] assms(3) by blast+
  moreover have "new (remap m i) \<noteq> None" if i: "get_node other i \<noteq> None" for i
  proof -
    obtain d where d: "get_node other i = Some d" using i by auto
    then obtain j where "hm_get m i = Some j" "new j = Some (f j d)" using assms(2) unfolding disjoint_copy_def by blast
    then show ?thesis by (simp add: remap_def)
  qed
  ultimately show ?thesis by blast
qed

text \<open>
  C12: \<open>merge\<close> is a disjoint union: when identifiers do not run out, the merged graph keeps every node, edge and region of
  the first graph unchanged and holds one copy of every node, edge and region of the second under an identifier the first does not
  use, and nothing else. The returned map is the injective renaming of nodes; endpoints of copied edges and members of copied
  regions are renamed by it, and all invariants of the graph hold.
\<close>

theorem merge_disjoint_union:
  assumes "scg_ok s" "counters_ok s" "scg_ok other"
    and "unat (next_node_id s) + length (nodes other) < 2 ^ 64" "unat (next_edge_id s) + length (edges other) < 2 ^ 64"
    and "next_region_id s \<noteq> 0" "unat (next_region_id s) + length (regions other) < 2 ^ 64"
  shows "\<exists>s' m. merge s other = (s', m) \<and> scg_ok s' \<and> counters_ok s'
    \<and> disjoint_copy (get_node s) (get_node other) (get_node s') (\<lambda>j d. d\<lparr>nd_id := j\<rparr>) (hm_get m)
    \<and> (\<exists>em. disjoint_copy (get_edge s) (get_edge other) (get_edge s') (moved m) em)
    \<and> (\<exists>rm. disjoint_copy (get_region s) (get_region other) (get_region s') (moved_region m) rm)"
proof -
  note ids = distinct_ids [OF assms(3)]
  have below: "\<forall>j \<in> dom (get_node s). j < next_node_id s" "\<forall>j \<in> dom (get_edge s). j < next_edge_id s"
      "\<forall>j \<in> dom (get_region s). j < next_region_id s"
    using assms(2) next_region_fresh [OF assms(6)] by (auto simp: counters_ok_def dom_def)
  have get: "get_node other i = Some d \<longleftrightarrow> d \<in> set (nodes other) \<and> nd_id d = i"
      "get_edge other i = Some e \<longleftrightarrow> e \<in> set (edges other) \<and> ed_id e = i"
      "get_region other i = Some r \<longleftrightarrow> r \<in> set (regions other) \<and> rg_id r = i" for i d e r
    using mem_nodes [OF assms(3)] get_node_id [OF assms(3)] mem_edges [OF assms(3)] get_edge_id [OF assms(3)]
      region_iff [OF assms(3)] by blast+
  obtain s1 m where s1: "fold merge_node (nodes other) (s, []) = (s1, m)" "scg_ok s1" "counters_ok s1" "get_edge s1 = get_edge s"
      "next_edge_id s1 = next_edge_id s" "sg_regions s1 = sg_regions s"
      "copied (get_node s) (get_node s1) (next_node_id s) (next_node_id s1) nd_id (\<lambda>j d. d\<lparr>nd_id := j\<rparr>) (set (nodes other)) (hm_get m)"
    using merge_nodes_spec [OF assms(1,2) _ ids(1) _ assms(4) below(1), of "{}" "[]"] by (auto simp: copied_start)
  note n = disjoint_copyI [OF s1(7) below(1) get(1)]
  define s2 where "s2 = fold (merge_edge m) (edges other) s1"
  have "\<forall>e \<in> set (edges other). get_node s1 (remap m (ed_source e)) \<noteq> None \<and> get_node s1 (remap m (ed_target e)) \<noteq> None"
    using remapped_exists [OF assms(3) n] by blast
  then obtain em where s2: "scg_ok s2" "counters_ok s2" "get_node s2 = get_node s1" "sg_regions s2 = sg_regions s"
      "copied (get_edge s) (get_edge s2) (next_edge_id s) (next_edge_id s2) ed_id (moved m) (set (edges other)) em"
    using merge_edges_spec [OF s1(2,3) _ ids(2), of "get_edge s" "next_edge_id s" m "{}" Map.empty] below(2) assms(5) s1(4-6)
    by (auto simp: copied_start s2_def)
  note e = disjoint_copyI [OF s2(5) below(2) get(2)]
  have rg: "get_region s2 = get_region s" "next_region_id s2 = next_region_id s"
    using s2(4) by (simp_all add: get_region_def fun_eq_iff next_region_id_def)
  define s3 where "s3 = fold (merge_region m) (regions other) s2"
  obtain rm where s3: "scg_ok s3" "counters_ok s3" "get_node s3 = get_node s2" "get_edge s3 = get_edge s2"
      "copied (get_region s) (get_region s3) (next_region_id s) (next_region_id s3) rg_id (moved_region m) (set (regions other)) rm"
    using merge_regions_spec [OF s2(1,2) _ ids(3), of "get_region s" "next_region_id s" m "{}" Map.empty] assms(6,7) rg
    by (auto simp: copied_start s3_def)
  note r = disjoint_copyI [OF s3(5) below(3) get(3)]
  have "merge s other = (s3, m)" by (simp add: merge_def s1(1) s2_def s3_def)
  then show ?thesis using s3(1-4) s2(3) n e r by auto
qed

theorem merge_disjoint_union_witness:
  "\<exists>s' m. merge loop_scg leaky_scg = (s', m) \<and> scg_ok s' \<and> card (dom (get_node leaky_scg)) = 3"
proof -
  have "length (nodes leaky_scg) = 3" "length (edges leaky_scg) = 1" "length (regions leaky_scg) = 2" "next_node_id loop_scg = 4"
      "next_edge_id loop_scg = 4" "next_region_id loop_scg = 1" "scg_node_count leaky_scg = 3" by code_simp+
  then show ?thesis
    using merge_disjoint_union [OF loop_scg_ok loop_scg_counters leaky_scg_ok] node_count_dom [OF leaky_scg_ok] by auto
qed

text \<open>
  Identifiers inside payloads and edge kinds are not renamed. Merged into a graph with one node, a
  deallocation keeps the identifier its allocation had in its own graph, and a valid graph becomes invalid.
\<close>

definition freed_scg :: SCG where
  "freed_scg = fst (the (scg_run [OpAddNode NtAllocation (Allocation 8 8 0 None) here, OpAddNode NtDeallocation (Deallocation 0 0) here,
     OpAddEdge 0 1 (Call 0 1 0)] scg_new))"

definition anchor_scg :: SCG where
  "anchor_scg = fst (the (scg_run [OpAddNode NtPhantom (PhantomNode ''anchor'') here] scg_new))"

lemma merge_keeps_stale_ids:
  "validate freed_scg = validation_ok" "validate anchor_scg = validation_ok"
  "errors (validate (fst (merge anchor_scg freed_scg))) = [DanglingDeallocation 2 0]"
  "map (\<lambda>e. (ed_source e, ed_target e, ed_kind e)) (edges (fst (merge anchor_scg freed_scg))) = [(1, 2, Call 0 1 0)]"
  by code_simp+

end
