(* ===== verification/Scg_Serialize.thy ===== *)
theory Scg_Serialize
  imports Bd_Codec Scg_Merge
begin

text \<open>
  The binary format of the SCG (\<^verbatim>\<open>scg/src/serialize.rs\<close>): writers append bytes, readers consume them and stop at the
  first error. A vector is reserved before its elements are read, from a len the input chooses; whether the
  reservation succeeds is the parameter \<open>reserve\<close>, and a refused one (capacity overflow or no memory) ends the
  program, which is the outcome \<open>ReserveFailed\<close>. The iteration order of a region's node set is the
  parameter \<open>iter\<close>. The context strings of errors are left out.
\<close>

section \<open>Errors and primitives\<close>

datatype Inconsistency = GraphError SCGError | PayloadMismatch NodeType NodeType

datatype DeserializeError =
    DeInvalidMagic bytes bytes \<comment> \<open>expected, found\<close>
  | DeUnsupportedVersion u32 u32 \<comment> \<open>version, least supported\<close>
  | DeUnexpectedEof
  | DeInvalidValue u32
  | DeInvalidUtf8
  | DeConsistencyError Inconsistency

datatype Stop = Error DeserializeError | ReserveFailed

type_synonym 'a scg_reader = "(Stop, 'a) parser"

datatype VecOf = VNode | VEdge | VRegion | VId | VString | VBool | VField | VVariant | VArm | VPattern

type_synonym reserve = "VecOf \<Rightarrow> nat \<Rightarrow> bool"

definition read_bytes :: "nat \<Rightarrow> bytes scg_reader" where
  "read_bytes n bs = (if length bs < n then Inl (Error DeUnexpectedEof) else Inr (take n bs, drop n bs))"

definition read_byte :: "u8 scg_reader" where
  "read_byte = rbind (read_bytes 1) (\<lambda>bytes. rreturn (bytes ! 0))"

definition read_flag :: "bool scg_reader" where
  "read_flag = rbind read_byte (\<lambda>val. rreturn (val \<noteq> 0))"

definition read_u32_le :: "u32 scg_reader" where
  "read_u32_le = rbind (read_bytes 4) (\<lambda>bytes. rreturn (of_le_bytes bytes))"

definition read_u64_le :: "u64 scg_reader" where
  "read_u64_le = rbind (read_bytes 8) (\<lambda>bytes. rreturn (of_le_bytes bytes))"

definition read_text :: "string scg_reader" where
  "read_text = rbind read_u32_le (\<lambda>len.
     if len = 0 then rreturn []
     else rbind (read_bytes (unat len)) (\<lambda>bytes.
       if valid_utf8 bytes then rreturn (from_bytes bytes) else rfail (Error DeInvalidUtf8)))"

text \<open>\<^verbatim>\<open>read_optional_string\<close> and \<^verbatim>\<open>read_optional_u64\<close> differ in the reader of the value only.\<close>

definition read_optional :: "'a scg_reader \<Rightarrow> 'a option scg_reader" where
  "read_optional rd = rbind read_flag (\<lambda>has. if has then rbind rd (\<lambda>v. rreturn (Some v)) else rreturn None)"

definition read_list :: "reserve \<Rightarrow> VecOf \<Rightarrow> 'a scg_reader \<Rightarrow> nat \<Rightarrow> 'a list scg_reader" where
  "read_list reserve v rd len = (if reserve v len then read_items rd len else rfail ReserveFailed)"

definition read_list64 :: "reserve \<Rightarrow> VecOf \<Rightarrow> 'a scg_reader \<Rightarrow> 'a list scg_reader" where
  "read_list64 reserve v rd = rbind read_u64_le (\<lambda>len. read_list reserve v rd (unat len))"

definition write_flag :: "bool \<Rightarrow> bytes" where
  "write_flag val = [if val then 1 else 0]"

definition write_u32_le :: "u32 \<Rightarrow> bytes" where
  "write_u32_le val = le_bytes 4 val"

definition write_u64_le :: "u64 \<Rightarrow> bytes" where
  "write_u64_le val = le_bytes 8 val"

definition write_text :: "string \<Rightarrow> bytes" where
  "write_text s = write_u32_le (of_nat (length (as_bytes s))) @ as_bytes s"

definition write_optional :: "('a \<Rightarrow> bytes) \<Rightarrow> 'a option \<Rightarrow> bytes" where
  "write_optional wr opt = (case opt of Some v \<Rightarrow> write_flag True @ wr v | None \<Rightarrow> write_flag False)"

definition write_list64 :: "('a \<Rightarrow> bytes) \<Rightarrow> 'a list \<Rightarrow> bytes" where
  "write_list64 wr xs = write_u64_le (of_nat (length xs)) @ concat (map wr xs)"

lemma write_list64_cong [fundef_cong]:
  "xs = ys \<Longrightarrow> (\<And>x. x \<in> set ys \<Longrightarrow> wr x = wr' x) \<Longrightarrow> write_list64 wr xs = write_list64 wr' ys"
  unfolding write_list64_def by (metis map_cong)

section \<open>Tags\<close>

fun node_type_to_tag :: "NodeType \<Rightarrow> u32" where
  "node_type_to_tag NtComputation = 0"
| "node_type_to_tag NtAllocation = 1"
| "node_type_to_tag NtDeallocation = 2"
| "node_type_to_tag NtAccess = 3"
| "node_type_to_tag NtCast = 4"
| "node_type_to_tag NtEffect = 5"
| "node_type_to_tag NtControl = 6"
| "node_type_to_tag NtPhantom = 7"
| "node_type_to_tag NtVTable = 8"
| "node_type_to_tag NtClosureEnv = 9"
| "node_type_to_tag NtStructDef = 10"
| "node_type_to_tag NtEnumDef = 11"
| "node_type_to_tag NtMatch = 12"
| "node_type_to_tag NtConstantTime = 13"
| "node_type_to_tag NtSyscall = 14"
| "node_type_to_tag NtStateInit = 15"
| "node_type_to_tag NtStateRead = 16"
| "node_type_to_tag NtStateWrite = 17"
| "node_type_to_tag NtStateTransform = 18"
| "node_type_to_tag NtForeignConsume = 19"
| "node_type_to_tag NtArenaNew = 20"
| "node_type_to_tag NtArenaAlloc = 21"
| "node_type_to_tag NtArenaGrow = 22"
| "node_type_to_tag NtArenaFree = 23"
| "node_type_to_tag NtChannelOpen = 24"
| "node_type_to_tag NtChannelSend = 25"
| "node_type_to_tag NtChannelRecv = 26"
| "node_type_to_tag NtChannelClose = 27"

text \<open>A match over consecutive tags selects from the list of the results.\<close>

definition from_tag :: "'a list \<Rightarrow> u32 \<Rightarrow> 'a scg_reader" where
  "from_tag variants tag = (if unat tag < length variants then rreturn (variants ! unat tag) else rfail (Error (DeInvalidValue tag)))"

definition tag_to_node_type :: "u32 \<Rightarrow> NodeType scg_reader" where
  "tag_to_node_type = from_tag
     [NtComputation, NtAllocation, NtDeallocation, NtAccess, NtCast, NtEffect, NtControl, NtPhantom, NtVTable, NtClosureEnv,
      NtStructDef, NtEnumDef, NtMatch, NtConstantTime, NtSyscall, NtStateInit, NtStateRead, NtStateWrite, NtStateTransform,
      NtForeignConsume, NtArenaNew, NtArenaAlloc, NtArenaGrow, NtArenaFree, NtChannelOpen, NtChannelSend, NtChannelRecv,
      NtChannelClose]"

fun edge_kind_to_tag :: "EdgeKind \<Rightarrow> u32" where
  "edge_kind_to_tag DataFlow = 0"
| "edge_kind_to_tag ControlFlow = 1"
| "edge_kind_to_tag Derivation = 2"
| "edge_kind_to_tag Annotation = 3"
| "edge_kind_to_tag Dispatch = 4"
| "edge_kind_to_tag (Call _ _ _) = 5"
| "edge_kind_to_tag (Return _ _ _) = 6"
| "edge_kind_to_tag SyscallArg = 7"

definition tag_to_edge_kind :: "u32 \<Rightarrow> EdgeKind scg_reader" where
  "tag_to_edge_kind = from_tag [DataFlow, ControlFlow, Derivation, Annotation, Dispatch, Call 0 0 0, Return 0 0 [], SyscallArg]"

fun access_mode_to_tag :: "AccessMode \<Rightarrow> u32" where
  "access_mode_to_tag AmRead = 0"
| "access_mode_to_tag AmWrite = 1"
| "access_mode_to_tag AmReadWrite = 2"

definition tag_to_access_mode :: "u32 \<Rightarrow> AccessMode scg_reader" where
  "tag_to_access_mode = from_tag [AmRead, AmWrite, AmReadWrite]"

fun control_kind_to_tag :: "ControlKind \<Rightarrow> u32" where
  "control_kind_to_tag CkBranch = 0"
| "control_kind_to_tag CkLoopHeader = 1"
| "control_kind_to_tag CkLoopExit = 2"
| "control_kind_to_tag CkJoin = 3"
| "control_kind_to_tag CkFunctionEntry = 4"
| "control_kind_to_tag CkFunctionReturn = 5"
| "control_kind_to_tag CkJump = 6"
| "control_kind_to_tag CkSwitch = 7"
| "control_kind_to_tag CkSwitchCase = 8"
| "control_kind_to_tag CkClosureEntry = 9"
| "control_kind_to_tag CkClosureReturn = 10"
| "control_kind_to_tag CkFuturePoll = 11"
| "control_kind_to_tag CkWakerRegistration = 12"
| "control_kind_to_tag CkStateTransition = 13"

definition tag_to_control_kind :: "u32 \<Rightarrow> ControlKind scg_reader" where
  "tag_to_control_kind = from_tag
     [CkBranch, CkLoopHeader, CkLoopExit, CkJoin, CkFunctionEntry, CkFunctionReturn, CkJump, CkSwitch, CkSwitchCase,
      CkClosureEntry, CkClosureReturn, CkFuturePoll, CkWakerRegistration, CkStateTransition]"

fun deployment_target_to_tag :: "DeploymentTarget \<Rightarrow> u32" where
  "deployment_target_to_tag Heap = 0"
| "deployment_target_to_tag Stack = 1"
| "deployment_target_to_tag Gpu = 2"
| "deployment_target_to_tag Shared = 3"
| "deployment_target_to_tag Persisted = 4"
| "deployment_target_to_tag (Custom _) = 5"

definition tag_to_deployment_target :: "u32 \<Rightarrow> DeploymentTarget scg_reader" where
  "tag_to_deployment_target tag =
     (if tag = 5 then rbind read_text (\<lambda>name. rreturn (Custom name)) else from_tag [Heap, Stack, Gpu, Shared, Persisted] tag)"

section \<open>Writers\<close>

definition write_optional_bd_reference :: "BDReference option \<Rightarrow> bytes" where
  "write_optional_bd_reference = write_optional (\<lambda>bd. write_u64_le (bd_id bd) @ write_optional write_u64_le (bd_version bd))"

definition write_program_point :: "ProgramPoint \<Rightarrow> bytes" where
  "write_program_point pp = write_optional write_text (pp_file pp) @ write_optional write_u64_le (pp_line pp)
     @ write_optional write_u64_le (pp_column pp) @ write_optional write_u64_le (pp_offset pp)"

fun write_match_pattern :: "MatchPatternInfo \<Rightarrow> bytes" where
  "write_match_pattern MpWildcard = write_u32_le 0"
| "write_match_pattern (MpLit v) = write_u32_le 1 @ write_u64_le v"
| "write_match_pattern (MpIdent nm) = write_u32_le 2 @ write_text nm"
| "write_match_pattern (MpEnum variant binding) = write_u32_le 3 @ write_text variant @ write_optional write_text binding"
| "write_match_pattern (MpStruct nm flds) = write_u32_le 4 @ write_text nm @ write_list64 write_text flds"
| "write_match_pattern (MpOr patterns) = write_u32_le 5 @ write_list64 write_match_pattern patterns"

definition write_field :: "StructFieldInfo \<Rightarrow> bytes" where
  "write_field f = write_text (sf_name f) @ write_text (sf_type_name f) @ write_u64_le (sf_offset f) @ write_u64_le (sf_size f)"

definition write_enum_variant :: "EnumVariantInfo \<Rightarrow> bytes" where
  "write_enum_variant v = write_text (ev_name v) @ write_u64_le (ev_discriminant v)
     @ write_optional write_text (ev_payload_type v) @ write_u64_le (ev_payload_size v)"

definition write_arm :: "MatchArmInfo \<Rightarrow> bytes" where
  "write_arm arm = write_match_pattern (ma_pattern arm) @ write_optional write_text (ma_guard arm)
     @ write_list64 write_text (ma_body arm)"

fun write_payload :: "NodePayload \<Rightarrow> bytes" where
  "write_payload (Computation kind result_type _) =
     write_u32_le 0 @ write_text (kind_label kind) @ write_optional write_text result_type"
| "write_payload (Allocation sz align region_id type_name) =
     write_u32_le 1 @ write_u64_le sz @ write_u64_le align @ write_u64_le region_id @ write_optional write_text type_name"
| "write_payload (Deallocation allocation_node region_id) =
     write_u32_le 2 @ write_u64_le allocation_node @ write_u64_le region_id"
| "write_payload (Access mode region_id offset access_size) =
     write_u32_le 3 @ write_u32_le (access_mode_to_tag mode) @ write_u64_le region_id
     @ write_optional write_u64_le offset @ write_optional write_u64_le access_size"
| "write_payload (CastTo from_type to_type is_lossless) =
     write_u32_le 4 @ write_text from_type @ write_text to_type @ write_flag is_lossless"
| "write_payload (Effect effect_kind is_observable) = write_u32_le 5 @ write_text effect_kind @ write_flag is_observable"
| "write_payload (Control kind label) =
     write_u32_le 6 @ write_u32_le (control_kind_to_tag kind) @ write_optional write_text label"
| "write_payload (PhantomNode purpose) = write_u32_le 7 @ write_text purpose"
| "write_payload (VTable trait_name concrete_type method_entries) =
     write_u32_le 8 @ write_text trait_name @ write_text concrete_type @ write_list64 write_u64_le method_entries"
| "write_payload (ClosureEnv captured_vars capture_modes closure_entry) =
     write_u32_le 9 @ write_list64 write_text captured_vars @ write_list64 write_flag capture_modes
     @ write_optional write_u64_le closure_entry"
| "write_payload (StructDef nm flds total_size alignment) =
     write_u32_le 10 @ write_text nm @ write_list64 write_field flds @ write_u64_le total_size @ write_u64_le alignment"
| "write_payload (EnumDef nm variants tag_type tag_size max_payload_size total_size alignment) =
     write_u32_le 11 @ write_text nm @ write_list64 write_enum_variant variants @ write_text tag_type @ write_u64_le tag_size
     @ write_u64_le max_payload_size @ write_u64_le total_size @ write_u64_le alignment"
| "write_payload (MatchOn subject arms subject_type) =
     write_u32_le 12 @ write_text subject @ write_text subject_type @ write_list64 write_arm arms"
| "write_payload (ConstantTime op dst operands) =
     write_u32_le 13 @ write_u32_le (case op of CtSelect \<Rightarrow> 0 | CtEq \<Rightarrow> 1) @ write_text dst @ write_list64 write_text operands"
| "write_payload (Syscall nr dst args) =
     write_u32_le 14 @ write_u32_le nr
     @ (case dst of None \<Rightarrow> write_u32_le 0 | Some nm \<Rightarrow> write_u32_le 1 @ write_text nm) @ write_list64 write_text args"
| "write_payload (StateInit layout_name result_vreg) = write_u32_le 15 @ write_text layout_name @ write_u32_le result_vreg"
| "write_payload (StateRead state_vreg layout_name field_name result_vreg) =
     write_u32_le 16 @ write_u32_le state_vreg @ write_text layout_name @ write_text field_name @ write_u32_le result_vreg"
| "write_payload (StateWrite state_vreg layout_name field_name value_vreg) =
     write_u32_le 17 @ write_u32_le state_vreg @ write_text layout_name @ write_text field_name @ write_u32_le value_vreg"
| "write_payload (StateTransform input_vreg input_layout output_layout result_vreg) =
     write_u32_le 18 @ write_u32_le input_vreg @ write_text input_layout @ write_text output_layout @ write_u32_le result_vreg"
| "write_payload (ForeignConsume input_vreg layout_name) = write_u32_le 19 @ write_u32_le input_vreg @ write_text layout_name"
| "write_payload (ArenaNew capacity_vreg result_vreg) = write_u32_le 20 @ write_u32_le capacity_vreg @ write_u32_le result_vreg"
| "write_payload (ArenaAlloc arena_vreg layout_name result_arena_vreg result_state_vreg) =
     write_u32_le 21 @ write_u32_le arena_vreg @ write_text layout_name @ write_u32_le result_arena_vreg @ write_u32_le result_state_vreg"
| "write_payload (ArenaGrow arena_vreg min_capacity_vreg result_vreg) =
     write_u32_le 22 @ write_u32_le arena_vreg @ write_u32_le min_capacity_vreg @ write_u32_le result_vreg"
| "write_payload (ArenaFree arena_vreg) = write_u32_le 23 @ write_u32_le arena_vreg"
| "write_payload (ChannelOpen dst elem_type) = write_u32_le 24 @ write_text dst @ write_text elem_type"
| "write_payload (ChannelSend channel message ty) = write_u32_le 25 @ write_text channel @ write_text message @ write_text ty"
| "write_payload (ChannelRecv dst channel ty) = write_u32_le 26 @ write_text dst @ write_text channel @ write_text ty"
| "write_payload (ChannelClose channel) = write_u32_le 27 @ write_text channel"

definition write_node :: "NodeData \<Rightarrow> bytes" where
  "write_node node = write_u64_le (nd_id node) @ write_u32_le (node_type_to_tag (nd_node_type node))
     @ write_optional_bd_reference (nd_annotation node) @ write_program_point (nd_program_point node)
     @ write_payload (nd_payload node)"

definition write_edge :: "EdgeData \<Rightarrow> bytes" where
  "write_edge edge = write_u64_le (ed_id edge) @ write_u64_le (ed_source edge) @ write_u64_le (ed_target edge)
     @ write_u32_le (edge_kind_to_tag (ed_kind edge)) @ write_optional write_text (ed_label edge)"

definition write_region :: "(NodeId set \<Rightarrow> NodeId list) \<Rightarrow> SCGRegion \<Rightarrow> bytes" where
  "write_region iter region = write_u64_le (rg_id region) @ write_u32_le (of_nat (card (rg_nodes region)))
     @ concat (map write_u64_le (iter (rg_nodes region))) @ write_u32_le (rg_scope_level region)
     @ write_flag (rg_security_boundary region) @ write_u32_le (deployment_target_to_tag (rg_deployment_target region))
     @ (case rg_deployment_target region of Custom nm \<Rightarrow> write_text nm | _ \<Rightarrow> [])"

section \<open>Readers\<close>

definition read_optional_bd_reference :: "BDReference option scg_reader" where
  "read_optional_bd_reference = read_optional (rbind read_u64_le (\<lambda>bd_id. rbind (read_optional read_u64_le) (\<lambda>version.
     rreturn \<lparr>bd_id = bd_id, bd_version = version\<rparr>)))"

definition read_program_point :: "ProgramPoint scg_reader" where
  "read_program_point =
     rbind (read_optional read_text) (\<lambda>file.
     rbind (read_optional read_u64_le) (\<lambda>line.
     rbind (read_optional read_u64_le) (\<lambda>column.
     rbind (read_optional read_u64_le) (\<lambda>offset.
       rreturn \<lparr>pp_file = file, pp_line = line, pp_column = column, pp_offset = offset\<rparr>))))"

definition read_pattern_body :: "reserve \<Rightarrow> MatchPatternInfo scg_reader \<Rightarrow> MatchPatternInfo scg_reader" where
  "read_pattern_body reserve rd =
     rbind read_u32_le (\<lambda>tag.
       if tag = 0 then rreturn MpWildcard
       else if tag = 1 then rbind read_u64_le (\<lambda>v. rreturn (MpLit v))
       else if tag = 2 then rbind read_text (\<lambda>name. rreturn (MpIdent name))
       else if tag = 3 then rbind read_text (\<lambda>variant. rbind (read_optional read_text) (\<lambda>binding. rreturn (MpEnum variant binding)))
       else if tag = 4 then rbind read_text (\<lambda>name. rbind (read_list64 reserve VString read_text) (\<lambda>fields. rreturn (MpStruct name fields)))
       else if tag = 5 then rbind (read_list64 reserve VPattern rd) (\<lambda>patterns. rreturn (MpOr patterns))
       else rfail (Error (DeInvalidValue tag)))"

definition read_match_pattern :: "reserve \<Rightarrow> MatchPatternInfo scg_reader" where
  "read_match_pattern reserve = read_rec (read_pattern_body reserve) (Error DeUnexpectedEof)"

definition read_field :: "StructFieldInfo scg_reader" where
  "read_field = rbind read_text (\<lambda>name. rbind read_text (\<lambda>type_name. rbind read_u64_le (\<lambda>offset. rbind read_u64_le (\<lambda>size.
     rreturn \<lparr>sf_name = name, sf_type_name = type_name, sf_offset = offset, sf_size = size\<rparr>))))"

definition read_enum_variant :: "EnumVariantInfo scg_reader" where
  "read_enum_variant = rbind read_text (\<lambda>name. rbind read_u64_le (\<lambda>discriminant. rbind (read_optional read_text) (\<lambda>payload_type.
     rbind read_u64_le (\<lambda>payload_size.
       rreturn \<lparr>ev_name = name, ev_discriminant = discriminant, ev_payload_type = payload_type, ev_payload_size = payload_size\<rparr>))))"

definition read_arm :: "reserve \<Rightarrow> MatchArmInfo scg_reader" where
  "read_arm reserve = rbind (read_match_pattern reserve) (\<lambda>pattern. rbind (read_optional read_text) (\<lambda>guard.
     rbind (read_list64 reserve VString read_text) (\<lambda>body. rreturn \<lparr>ma_pattern = pattern, ma_guard = guard, ma_body = body\<rparr>)))"

text \<open>The arms of the match of \<^verbatim>\<open>read_payload\<close>.\<close>

fun read_payload_arm :: "reserve \<Rightarrow> NodeType \<Rightarrow> NodePayload scg_reader" where
  "read_payload_arm _ NtComputation = rbind read_text (\<lambda>operation. rbind (read_optional read_text) (\<lambda>result_type.
     rreturn (Computation (case from_label operation of Some k \<Rightarrow> KIntrinsic k | None \<Rightarrow> KOther operation) result_type False)))"
| "read_payload_arm _ NtAllocation = rbind read_u64_le (\<lambda>size. rbind read_u64_le (\<lambda>align. rbind read_u64_le (\<lambda>region_id.
     rbind (read_optional read_text) (\<lambda>type_name. rreturn (Allocation size align region_id type_name)))))"
| "read_payload_arm _ NtDeallocation = rbind read_u64_le (\<lambda>allocation_node. rbind read_u64_le (\<lambda>region_id.
     rreturn (Deallocation allocation_node region_id)))"
| "read_payload_arm _ NtAccess = rbind read_u32_le (\<lambda>mode_tag. rbind (tag_to_access_mode mode_tag) (\<lambda>mode. rbind read_u64_le (\<lambda>region_id.
     rbind (read_optional read_u64_le) (\<lambda>offset. rbind (read_optional read_u64_le) (\<lambda>access_size.
       rreturn (Access mode region_id offset access_size))))))"
| "read_payload_arm _ NtCast = rbind read_text (\<lambda>from_type. rbind read_text (\<lambda>to_type. rbind read_flag (\<lambda>is_lossless.
     rreturn (CastTo from_type to_type is_lossless))))"
| "read_payload_arm _ NtEffect = rbind read_text (\<lambda>effect_kind. rbind read_flag (\<lambda>is_observable.
     rreturn (Effect effect_kind is_observable)))"
| "read_payload_arm _ NtControl = rbind read_u32_le (\<lambda>kind_tag. rbind (tag_to_control_kind kind_tag) (\<lambda>kind.
     rbind (read_optional read_text) (\<lambda>label. rreturn (Control kind label))))"
| "read_payload_arm _ NtPhantom = rbind read_text (\<lambda>purpose. rreturn (PhantomNode purpose))"
| "read_payload_arm reserve NtVTable = rbind read_text (\<lambda>trait_name. rbind read_text (\<lambda>concrete_type.
     rbind (read_list64 reserve VId read_u64_le) (\<lambda>method_entries. rreturn (VTable trait_name concrete_type method_entries))))"
| "read_payload_arm reserve NtClosureEnv = rbind (read_list64 reserve VString read_text) (\<lambda>captured_vars.
     rbind (read_list64 reserve VBool read_flag) (\<lambda>capture_modes. rbind (read_optional read_u64_le) (\<lambda>closure_entry.
       rreturn (ClosureEnv captured_vars capture_modes closure_entry))))"
| "read_payload_arm reserve NtStructDef = rbind read_text (\<lambda>name. rbind (read_list64 reserve VField read_field) (\<lambda>fields.
     rbind read_u64_le (\<lambda>total_size. rbind read_u64_le (\<lambda>alignment. rreturn (StructDef name fields total_size alignment)))))"
| "read_payload_arm reserve NtEnumDef = rbind read_text (\<lambda>name. rbind (read_list64 reserve VVariant read_enum_variant) (\<lambda>variants.
     rbind read_text (\<lambda>tag_type. rbind read_u64_le (\<lambda>tag_size. rbind read_u64_le (\<lambda>max_payload_size.
     rbind read_u64_le (\<lambda>total_size. rbind read_u64_le (\<lambda>alignment.
       rreturn (EnumDef name variants tag_type tag_size max_payload_size total_size alignment))))))))"
| "read_payload_arm reserve NtMatch = rbind read_text (\<lambda>subject. rbind read_text (\<lambda>subject_type.
     rbind (read_list64 reserve VArm (read_arm reserve)) (\<lambda>arms. rreturn (MatchOn subject arms subject_type))))"
| "read_payload_arm reserve NtConstantTime = rbind read_u32_le (\<lambda>op_tag. rbind (from_tag [CtSelect, CtEq] op_tag) (\<lambda>op.
     rbind read_text (\<lambda>dst. rbind (read_list64 reserve VString read_text) (\<lambda>operands. rreturn (ConstantTime op dst operands)))))"
| "read_payload_arm reserve NtSyscall = rbind read_u32_le (\<lambda>nr. rbind read_u32_le (\<lambda>has_dst.
     rbind (if has_dst \<noteq> 0 then rbind read_text (\<lambda>name. rreturn (Some name)) else rreturn None) (\<lambda>dst.
     rbind (read_list64 reserve VString read_text) (\<lambda>args. rreturn (Syscall nr dst args)))))"
| "read_payload_arm _ NtStateInit = rbind read_text (\<lambda>layout_name. rbind read_u32_le (\<lambda>result_vreg.
     rreturn (StateInit layout_name result_vreg)))"
| "read_payload_arm _ NtStateRead = rbind read_u32_le (\<lambda>state_vreg. rbind read_text (\<lambda>layout_name. rbind read_text (\<lambda>field_name.
     rbind read_u32_le (\<lambda>result_vreg. rreturn (StateRead state_vreg layout_name field_name result_vreg)))))"
| "read_payload_arm _ NtStateWrite = rbind read_u32_le (\<lambda>state_vreg. rbind read_text (\<lambda>layout_name. rbind read_text (\<lambda>field_name.
     rbind read_u32_le (\<lambda>value_vreg. rreturn (StateWrite state_vreg layout_name field_name value_vreg)))))"
| "read_payload_arm _ NtStateTransform = rbind read_u32_le (\<lambda>input_vreg. rbind read_text (\<lambda>input_layout.
     rbind read_text (\<lambda>output_layout. rbind read_u32_le (\<lambda>result_vreg.
       rreturn (StateTransform input_vreg input_layout output_layout result_vreg)))))"
| "read_payload_arm _ NtForeignConsume = rbind read_u32_le (\<lambda>input_vreg. rbind read_text (\<lambda>layout_name.
     rreturn (ForeignConsume input_vreg layout_name)))"
| "read_payload_arm _ NtArenaNew = rbind read_u32_le (\<lambda>capacity_vreg. rbind read_u32_le (\<lambda>result_vreg.
     rreturn (ArenaNew capacity_vreg result_vreg)))"
| "read_payload_arm _ NtArenaAlloc = rbind read_u32_le (\<lambda>arena_vreg. rbind read_text (\<lambda>layout_name.
     rbind read_u32_le (\<lambda>result_arena_vreg. rbind read_u32_le (\<lambda>result_state_vreg.
       rreturn (ArenaAlloc arena_vreg layout_name result_arena_vreg result_state_vreg)))))"
| "read_payload_arm _ NtArenaGrow = rbind read_u32_le (\<lambda>arena_vreg. rbind read_u32_le (\<lambda>min_capacity_vreg.
     rbind read_u32_le (\<lambda>result_vreg. rreturn (ArenaGrow arena_vreg min_capacity_vreg result_vreg))))"
| "read_payload_arm _ NtArenaFree = rbind read_u32_le (\<lambda>arena_vreg. rreturn (ArenaFree arena_vreg))"
| "read_payload_arm _ NtChannelOpen = rbind read_text (\<lambda>dst. rbind read_text (\<lambda>elem_type. rreturn (ChannelOpen dst elem_type)))"
| "read_payload_arm _ NtChannelSend = rbind read_text (\<lambda>channel. rbind read_text (\<lambda>message. rbind read_text (\<lambda>ty.
     rreturn (ChannelSend channel message ty))))"
| "read_payload_arm _ NtChannelRecv = rbind read_text (\<lambda>dst. rbind read_text (\<lambda>channel. rbind read_text (\<lambda>ty.
     rreturn (ChannelRecv dst channel ty))))"
| "read_payload_arm _ NtChannelClose = rbind read_text (\<lambda>channel. rreturn (ChannelClose channel))"

definition read_payload :: "reserve \<Rightarrow> NodeType \<Rightarrow> NodePayload scg_reader" where
  "read_payload reserve expected_type = rbind read_u32_le (\<lambda>tag. rbind (tag_to_node_type tag) (\<lambda>payload_type.
     if payload_type \<noteq> expected_type then rfail (Error (DeConsistencyError (PayloadMismatch expected_type payload_type)))
     else read_payload_arm reserve payload_type))"

definition read_node :: "reserve \<Rightarrow> NodeData scg_reader" where
  "read_node reserve =
     rbind read_u64_le (\<lambda>i. rbind (rbind read_u32_le tag_to_node_type) (\<lambda>node_type.
     rbind read_optional_bd_reference (\<lambda>annotation. rbind read_program_point (\<lambda>program_point.
     rbind (read_payload reserve node_type) (\<lambda>payload.
       rreturn \<lparr>nd_id = i, nd_node_type = node_type, nd_annotation = annotation, nd_program_point = program_point,
                nd_payload = payload\<rparr>)))))"

definition read_edge :: "EdgeData scg_reader" where
  "read_edge =
     rbind read_u64_le (\<lambda>i. rbind read_u64_le (\<lambda>source. rbind read_u64_le (\<lambda>target.
     rbind (rbind read_u32_le tag_to_edge_kind) (\<lambda>kind. rbind (read_optional read_text) (\<lambda>label.
       rreturn \<lparr>ed_id = i, ed_source = source, ed_target = target, ed_kind = kind, ed_label = label\<rparr>)))))"

definition read_region :: "reserve \<Rightarrow> SCGRegion scg_reader" where
  "read_region reserve =
     rbind read_u64_le (\<lambda>i. rbind read_u32_le (\<lambda>node_count. rbind (read_list reserve VId read_u64_le (unat node_count)) (\<lambda>nids.
     rbind read_u32_le (\<lambda>scope_level. rbind read_flag (\<lambda>security_boundary. rbind (rbind read_u32_le tag_to_deployment_target) (\<lambda>target.
       rreturn \<lparr>rg_id = i, rg_nodes = fold insert nids {}, rg_scope_level = scope_level,
                rg_security_boundary = security_boundary, rg_deployment_target = target\<rparr>))))))"

section \<open>Whole graphs\<close>

record SerializedSCG =
  ser_nodes :: "NodeData list"
  ser_edges :: "EdgeData list"
  ser_regions :: "SCGRegion list"
  ser_next_node_id :: u64
  ser_next_edge_id :: u64

definition max_or_zero :: "u64 list \<Rightarrow> u64" where
  "max_or_zero xs = fold max xs 0"

definition scg_to_serialized :: "SCG \<Rightarrow> SerializedSCG" where
  "scg_to_serialized s = \<lparr>ser_nodes = nodes s, ser_edges = edges s, ser_regions = regions s,
     ser_next_node_id = max_or_zero (map (\<lambda>n. nd_id n + 1) (nodes s)),
     ser_next_edge_id = max_or_zero (map (\<lambda>e. ed_id e + 1) (edges s))\<rparr>"

fun restore_nodes :: "NodeData list \<Rightarrow> SCG \<Rightarrow> DeserializeError + SCG" where
  "restore_nodes [] s = Inr s"
| "restore_nodes (n # ns) s =
     (case add_node_with_id s (nd_id n) (nd_node_type n) (nd_payload n) (nd_program_point n) of
        Inl e \<Rightarrow> Inl (DeConsistencyError (GraphError e))
      | Inr (s1, _) \<Rightarrow>
          restore_nodes ns
            (case nd_annotation n of
               Some ann \<Rightarrow> get_node_mut s1 (nd_id n) (nd_annotation_update (\<lambda>_. Some ann))
             | None \<Rightarrow> s1))"

fun restore_edges :: "EdgeData list \<Rightarrow> SCG \<Rightarrow> DeserializeError + SCG" where
  "restore_edges [] s = Inr s"
| "restore_edges (e # es) s =
     (case add_edge_with_id s (ed_id e) (ed_source e) (ed_target e) (ed_kind e) of
        Inl err \<Rightarrow> Inl (DeConsistencyError (GraphError err))
      | Inr (s1, _) \<Rightarrow>
          restore_edges es
            (case ed_label e of
               Some label \<Rightarrow> get_edge_mut s1 (ed_id e) (ed_label_update (\<lambda>_. Some label))
             | None \<Rightarrow> s1))"

definition serialized_to_scg :: "SerializedSCG \<Rightarrow> DeserializeError + SCG" where
  "serialized_to_scg x =
     (case restore_nodes (ser_nodes x) scg_new of
        Inl e \<Rightarrow> Inl e
      | Inr s1 \<Rightarrow>
          (case restore_edges (ser_edges x) s1 of
             Inl e \<Rightarrow> Inl e
           | Inr s2 \<Rightarrow> Inr (fold (\<lambda>r s. add_region s r) (ser_regions x) s2)))"

definition MAGIC :: bytes where
  "MAGIC = as_bytes ''VSCG''"

definition serialize_scg :: "(NodeId set \<Rightarrow> NodeId list) \<Rightarrow> SCG \<Rightarrow> bytes" where
  "serialize_scg iter scg =
     (let s = scg_to_serialized scg in
      MAGIC @ write_u32_le 1 @ write_u64_le (ser_next_node_id s) @ write_u64_le (ser_next_edge_id s)
      @ write_u32_le (of_nat (length (ser_nodes s))) @ write_u32_le (of_nat (length (ser_edges s)))
      @ write_u32_le (of_nat (length (ser_regions s)))
      @ concat (map write_node (ser_nodes s)) @ concat (map write_edge (ser_edges s)) @ concat (map (write_region iter) (ser_regions s)))"

definition read_serialized :: "reserve \<Rightarrow> SerializedSCG scg_reader" where
  "read_serialized reserve =
     rbind (read_bytes 4) (\<lambda>magic.
     if magic \<noteq> MAGIC then rfail (Error (DeInvalidMagic MAGIC magic)) else
     rbind read_u32_le (\<lambda>version.
     if version < 1 then rfail (Error (DeUnsupportedVersion version 1)) else
     rbind read_u64_le (\<lambda>next_node_id. rbind read_u64_le (\<lambda>next_edge_id.
     rbind read_u32_le (\<lambda>node_count. rbind read_u32_le (\<lambda>edge_count. rbind read_u32_le (\<lambda>region_count.
     rbind (read_list reserve VNode (read_node reserve) (unat node_count)) (\<lambda>nodes.
     rbind (read_list reserve VEdge read_edge (unat edge_count)) (\<lambda>edges.
     rbind (read_list reserve VRegion (read_region reserve) (unat region_count)) (\<lambda>regions.
       rreturn \<lparr>ser_nodes = nodes, ser_edges = edges, ser_regions = regions,
                ser_next_node_id = next_node_id, ser_next_edge_id = next_edge_id\<rparr>))))))))))"

definition deserialize_scg :: "reserve \<Rightarrow> bytes \<Rightarrow> Stop + SCG" where
  "deserialize_scg reserve data =
     (case read_serialized reserve data of
        Inl e \<Rightarrow> Inl e
      | Inr (x, _) \<Rightarrow> (case serialized_to_scg x of Inl e \<Rightarrow> Inl (Error e) | Inr s \<Rightarrow> Inr s))"

end
