(* ===== verification/Scg_Roundtrip.thy ===== *)
theory Scg_Roundtrip
  imports Scg_Serialize
begin

text \<open>
  The readers of \<^verbatim>\<open>scg/src/serialize.rs\<close> against its writers. Every reader looks only at the bytes it consumes, and each
  pair of a reader and a writer is a codec on the values the format can represent; options and lists of a
  codec are codecs again (locale \<open>scg_codec\<close>). Nodes and edges come back up to what the format does not record: \<open>stored_payload\<close> and
  \<open>stored_kind\<close> say what is left of a computation and of a call or return edge.
\<close>

section \<open>Readers look only at what they consume\<close>

lemma reader_read_bytes: "reader (read_bytes n)"
proof
  fix bs x rest
  assume "read_bytes n bs = Inr (x, rest)"
  then have "bs = take n bs @ rest \<and> (\<forall>ext. read_bytes n (take n bs @ ext) = Inr (x, ext))"
    by (auto simp: read_bytes_def split: if_splits)
  then show "\<exists>used. bs = used @ rest \<and> (\<forall>ext. read_bytes n (used @ ext) = Inr (x, ext))" by blast
qed

lemma reader_flag: "reader read_flag"
  unfolding read_flag_def read_byte_def by (intro reader_intros reader_read_bytes)

lemma reader_u32_le: "reader read_u32_le" unfolding read_u32_le_def by (intro reader_intros reader_read_bytes)

lemma reader_u64_le: "reader read_u64_le" unfolding read_u64_le_def by (intro reader_intros reader_read_bytes)

lemma reader_text: "reader read_text" unfolding read_text_def by (intro reader_intros reader_read_bytes reader_u32_le)

lemma reader_optional: "reader rd \<Longrightarrow> reader (read_optional rd)"
  unfolding read_optional_def by (intro reader_intros reader_flag)

lemma reader_list: "reader rd \<Longrightarrow> reader (read_list reserve v rd n)"
  unfolding read_list_def by (intro reader_intros reader_items)

lemma reader_list64: "reader rd \<Longrightarrow> reader (read_list64 reserve v rd)"
  unfolding read_list64_def by (intro reader_intros reader_u64_le reader_list)

lemma reader_from_tag: "reader (from_tag vs tag)"
  unfolding from_tag_def by (intro reader_intros)

lemma reader_tags:
  "reader (tag_to_node_type t)" "reader (tag_to_edge_kind t)" "reader (tag_to_access_mode t)"
  "reader (tag_to_control_kind t)" "reader (tag_to_deployment_target t)"
  unfolding tag_to_node_type_def tag_to_edge_kind_def tag_to_access_mode_def tag_to_control_kind_def tag_to_deployment_target_def
  by (intro reader_intros reader_from_tag reader_text)+

lemmas scg_readers = reader_intros reader_read_bytes reader_flag reader_u32_le reader_u64_le reader_text reader_optional
  reader_list reader_list64 reader_from_tag reader_tags

lemma reader_pattern_body: "reader rd \<Longrightarrow> reader (read_pattern_body reserve rd)"
  unfolding read_pattern_body_def by (intro scg_readers)

lemma agree_list: "reader rd \<Longrightarrow> agree_upto n rd rd' \<Longrightarrow> agree_upto n (read_list64 reserve v rd) (read_list64 reserve v rd')"
  unfolding read_list64_def read_list_def by (intro agree_rbind agree_if agree_refl agree_items reader_u64_le)

lemma agree_tag32:
  assumes "\<And>t. agree_upto n (f t) (g t)"
  shows "agree_upto (Suc n) (rbind read_u32_le f) (rbind read_u32_le g)"
  unfolding agree_upto_def
proof (intro allI impI)
  fix bs :: bytes
  assume len: "length bs \<le> Suc n"
  have short: "length rest \<le> n" if "read_u32_le bs = Inr (t, rest)" for t rest
    using that len by (auto simp: read_u32_le_def rbind_def rreturn_def read_bytes_def split: if_splits)
  show "rbind read_u32_le f bs = rbind read_u32_le g bs"
    using assms short by (auto simp: rbind_def agree_upto_def split: sum.splits prod.splits)
qed

lemma agree_pattern_body:
  "reader rd \<Longrightarrow> agree_upto n rd rd' \<Longrightarrow> agree_upto (Suc n) (read_pattern_body reserve rd) (read_pattern_body reserve rd')"
  unfolding read_pattern_body_def by (intro agree_tag32 agree_if agree_rbind agree_refl agree_list scg_readers)

lemma pattern_body_empty: "read_pattern_body reserve rd [] = Inl (Error DeUnexpectedEof)"
  by (simp add: read_pattern_body_def rbind_def read_u32_le_def read_bytes_def)

interpretation pattern: recursive_reader "read_pattern_body reserve" "Error DeUnexpectedEof" for reserve
  by (rule recursive_reader.intro) (simp_all add: reader_pattern_body agree_pattern_body pattern_body_empty)

lemma reader_pattern: "reader (read_match_pattern reserve)"
  unfolding read_match_pattern_def by (rule pattern.reader_rec)

lemma reader_field: "reader read_field" unfolding read_field_def by (intro scg_readers)

lemma reader_enum_variant: "reader read_enum_variant" unfolding read_enum_variant_def by (intro scg_readers)

lemma reader_arm: "reader (read_arm reserve)" unfolding read_arm_def by (intro scg_readers reader_pattern)

lemma reader_payload_arm: "reader (read_payload_arm reserve t)"
  by (cases t; simp only: read_payload_arm.simps; intro scg_readers reader_field reader_enum_variant reader_arm)

lemma reader_node: "reader (read_node reserve)"
  unfolding read_node_def read_optional_bd_reference_def read_program_point_def read_payload_def
  by (intro scg_readers reader_payload_arm)

lemma reader_edge: "reader read_edge" unfolding read_edge_def by (intro scg_readers)

lemma reader_region: "reader (read_region reserve)" unfolding read_region_def by (intro scg_readers)

lemma reader_serialized: "reader (read_serialized reserve)"
  unfolding read_serialized_def by (intro scg_readers reader_node reader_edge reader_region)

section \<open>Codecs\<close>

lemma rbind_read_bytes: "length xs = n \<Longrightarrow> rbind (read_bytes n) f (xs @ rest) = f xs rest"
  by (simp add: rbind_def read_bytes_def)

lemma read_u32_le_write [simp]: "read_u32_le (write_u32_le v @ rest) = Inr (v, rest)"
  by (simp add: read_u32_le_def write_u32_le_def rbind_read_bytes rreturn_def of_le_bytes_le_bytes take_bit_word_eq_self)

lemma read_u64_le_write [simp]: "read_u64_le (write_u64_le v @ rest) = Inr (v, rest)"
  by (simp add: read_u64_le_def write_u64_le_def rbind_read_bytes rreturn_def of_le_bytes_le_bytes take_bit_word_eq_self)

lemma read_flag_write [simp]: "read_flag (write_flag v @ rest) = Inr (v, rest)"
  by (simp add: read_flag_def read_byte_def write_flag_def rbind_def read_bytes_def rreturn_def)

lemma read_text_write [simp]: "string_ok s \<Longrightarrow> read_text (write_text s @ rest) = Inr (s, rest)"
proof -
  assume ok: "string_ok s"
  have len: "length (as_bytes s) = length s" by (simp add: as_bytes_def)
  have u: "unat (of_nat (length s) :: u32) = length s" using ok by (simp add: string_ok_def unat_of_nat)
  show ?thesis
  proof (cases "s = []")
    case True
    then show ?thesis by (simp add: read_text_def write_text_def as_bytes_def rbind_def rreturn_def)
  next
    case False
    then have "(of_nat (length s) :: u32) \<noteq> 0" using u by (metis length_0_conv unat_0)
    then show ?thesis using ok u
      by (simp add: read_text_def write_text_def len rbind_def read_bytes_def rreturn_def string_ok_def)
  qed
qed

text \<open>A list the format can represent and a reader can reserve.\<close>

definition list_ok :: "reserve \<Rightarrow> VecOf \<Rightarrow> ('a \<Rightarrow> bool) \<Rightarrow> 'a list \<Rightarrow> bool" where
  "list_ok reserve v ok xs \<longleftrightarrow> length xs < 2 ^ 64 \<and> reserve v (length xs) \<and> list_all ok xs"

lemma list_ok_cong [fundef_cong]:
  "xs = ys \<Longrightarrow> (\<And>x. x \<in> set ys \<Longrightarrow> ok x = ok' x) \<Longrightarrow> list_ok reserve v ok xs = list_ok reserve v ok' ys"
  by (auto simp: list_ok_def list_all_iff)

lemma items_read:
  assumes "\<And>x rest. x \<in> set xs \<Longrightarrow> rd (wr x @ rest) = Inr (f x, rest)"
  shows "read_items rd (length xs) (concat (map wr xs) @ rest) = Inr (map f xs, rest)"
  using assms by (induction xs) (simp_all add: rbind_def rreturn_def)

locale scg_codec = codec rd wr ok for rd :: "'a scg_reader" and wr :: "'a \<Rightarrow> bytes" and ok :: "'a \<Rightarrow> bool"
begin

lemma optional_read: "pred_option ok v \<Longrightarrow> read_optional rd (write_optional wr v @ rest) = Inr (v, rest)"
  by (cases v) (simp_all add: read_optional_def write_optional_def rbind_def rreturn_def roundtrip)

lemma list64_read: "list_ok reserve v ok xs \<Longrightarrow> read_list64 reserve v rd (write_list64 wr xs @ rest) = Inr (xs, rest)"
  by (simp add: read_list64_def write_list64_def read_list_def list_ok_def rbind_def unat_of_nat items_roundtrip)

end

interpretation le32: scg_codec read_u32_le write_u32_le "\<lambda>_. True"
  by (intro scg_codec.intro codec.intro codec_axioms.intro reader_u32_le) simp

interpretation le64: scg_codec read_u64_le write_u64_le "\<lambda>_. True"
  by (intro scg_codec.intro codec.intro codec_axioms.intro reader_u64_le) simp

interpretation flag: scg_codec read_flag write_flag "\<lambda>_. True"
  by (intro scg_codec.intro codec.intro codec_axioms.intro reader_flag) simp

interpretation utf8: scg_codec read_text write_text string_ok
  by (intro scg_codec.intro codec.intro codec_axioms.intro reader_text) simp

lemma pred_option_True [simp]: "pred_option (\<lambda>_. True) v"
  by (cases v) simp_all

lemmas [simp] = le64.optional_read utf8.optional_read le64.list64_read flag.list64_read utf8.list64_read

fun pattern_ok :: "reserve \<Rightarrow> MatchPatternInfo \<Rightarrow> bool" where
  "pattern_ok reserve (MpIdent nm) = string_ok nm"
| "pattern_ok reserve (MpEnum variant binding) = (string_ok variant \<and> pred_option string_ok binding)"
| "pattern_ok reserve (MpStruct nm flds) = (string_ok nm \<and> list_ok reserve VString string_ok flds)"
| "pattern_ok reserve (MpOr patterns) = list_ok reserve VPattern (pattern_ok reserve) patterns"
| "pattern_ok reserve _ = True"

lemma read_pattern_tag:
  "read_match_pattern reserve (write_u32_le t @ bs) =
    (if t = 0 then rreturn MpWildcard
     else if t = 1 then rbind read_u64_le (\<lambda>v. rreturn (MpLit v))
     else if t = 2 then rbind read_text (\<lambda>name. rreturn (MpIdent name))
     else if t = 3 then rbind read_text (\<lambda>variant. rbind (read_optional read_text) (\<lambda>binding. rreturn (MpEnum variant binding)))
     else if t = 4 then rbind read_text (\<lambda>name. rbind (read_list64 reserve VString read_text) (\<lambda>fields. rreturn (MpStruct name fields)))
     else if t = 5 then rbind (read_list64 reserve VPattern (read_match_pattern reserve)) (\<lambda>patterns. rreturn (MpOr patterns))
     else rfail (Error (DeInvalidValue t))) bs"
  unfolding read_match_pattern_def by (subst pattern.unfold) (simp add: read_pattern_body_def rbind_def)

lemma read_pattern_write: "pattern_ok reserve p \<Longrightarrow> read_match_pattern reserve (write_match_pattern p @ rest) = Inr (p, rest)"
proof (induction p arbitrary: rest)
  case (MpOr ps)
  have "read_items (read_match_pattern reserve) (length ps) (concat (map write_match_pattern ps) @ rest) = Inr (map (\<lambda>p. p) ps, rest)"
    by (rule items_read) (use MpOr in \<open>auto simp: list_ok_def list_all_iff\<close>)
  then show ?case
    using MpOr.prems by (simp add: read_pattern_tag write_list64_def read_list64_def read_list_def list_ok_def rbind_def rreturn_def unat_of_nat)
qed (simp_all add: read_pattern_tag rbind_def rreturn_def)

interpretation pat: scg_codec "read_match_pattern reserve" write_match_pattern "pattern_ok reserve" for reserve
  by (intro scg_codec.intro codec.intro codec_axioms.intro reader_pattern read_pattern_write)

definition field_ok :: "StructFieldInfo \<Rightarrow> bool" where
  "field_ok f \<longleftrightarrow> string_ok (sf_name f) \<and> string_ok (sf_type_name f)"

definition variant_ok :: "EnumVariantInfo \<Rightarrow> bool" where
  "variant_ok v \<longleftrightarrow> string_ok (ev_name v) \<and> pred_option string_ok (ev_payload_type v)"

definition arm_ok :: "reserve \<Rightarrow> MatchArmInfo \<Rightarrow> bool" where
  "arm_ok reserve a \<longleftrightarrow> pattern_ok reserve (ma_pattern a) \<and> pred_option string_ok (ma_guard a) \<and> list_ok reserve VString string_ok (ma_body a)"

interpretation fld: scg_codec read_field write_field field_ok
  by (intro scg_codec.intro codec.intro codec_axioms.intro reader_field)
     (simp add: read_field_def write_field_def field_ok_def rbind_def rreturn_def)

interpretation vari: scg_codec read_enum_variant write_enum_variant variant_ok
  by (intro scg_codec.intro codec.intro codec_axioms.intro reader_enum_variant)
     (simp add: read_enum_variant_def write_enum_variant_def variant_ok_def rbind_def rreturn_def)

interpretation arm: scg_codec "read_arm reserve" write_arm "arm_ok reserve" for reserve
  by (intro scg_codec.intro codec.intro codec_axioms.intro reader_arm)
     (simp add: read_arm_def write_arm_def arm_ok_def rbind_def rreturn_def pat.roundtrip)

lemmas [simp] = fld.list64_read vari.list64_read arm.list64_read

section \<open>Payloads\<close>

fun payload_type :: "NodePayload \<Rightarrow> NodeType" where
  "payload_type (Computation _ _ _) = NtComputation"
| "payload_type (Allocation _ _ _ _) = NtAllocation"
| "payload_type (Deallocation _ _) = NtDeallocation"
| "payload_type (Access _ _ _ _) = NtAccess"
| "payload_type (CastTo _ _ _) = NtCast"
| "payload_type (Effect _ _) = NtEffect"
| "payload_type (Control _ _) = NtControl"
| "payload_type (PhantomNode _) = NtPhantom"
| "payload_type (VTable _ _ _) = NtVTable"
| "payload_type (ClosureEnv _ _ _) = NtClosureEnv"
| "payload_type (StructDef _ _ _ _) = NtStructDef"
| "payload_type (EnumDef _ _ _ _ _ _ _) = NtEnumDef"
| "payload_type (MatchOn _ _ _) = NtMatch"
| "payload_type (ConstantTime _ _ _) = NtConstantTime"
| "payload_type (Syscall _ _ _) = NtSyscall"
| "payload_type (StateInit _ _) = NtStateInit"
| "payload_type (StateRead _ _ _ _) = NtStateRead"
| "payload_type (StateWrite _ _ _ _) = NtStateWrite"
| "payload_type (StateTransform _ _ _ _) = NtStateTransform"
| "payload_type (ForeignConsume _ _) = NtForeignConsume"
| "payload_type (ArenaNew _ _) = NtArenaNew"
| "payload_type (ArenaAlloc _ _ _ _) = NtArenaAlloc"
| "payload_type (ArenaGrow _ _ _) = NtArenaGrow"
| "payload_type (ArenaFree _) = NtArenaFree"
| "payload_type (ChannelOpen _ _) = NtChannelOpen"
| "payload_type (ChannelSend _ _ _) = NtChannelSend"
| "payload_type (ChannelRecv _ _ _) = NtChannelRecv"
| "payload_type (ChannelClose _) = NtChannelClose"

fun payload_ok :: "reserve \<Rightarrow> NodePayload \<Rightarrow> bool" where
  "payload_ok _ (Computation kind result_type _) = (string_ok (kind_label kind) \<and> pred_option string_ok result_type)"
| "payload_ok _ (Allocation _ _ _ type_name) = pred_option string_ok type_name"
| "payload_ok _ (CastTo a b _) = (string_ok a \<and> string_ok b)"
| "payload_ok _ (Effect a _) = string_ok a"
| "payload_ok _ (Control _ label) = pred_option string_ok label"
| "payload_ok _ (PhantomNode a) = string_ok a"
| "payload_ok reserve (VTable a b ms) = (string_ok a \<and> string_ok b \<and> list_ok reserve VId (\<lambda>_. True) ms)"
| "payload_ok reserve (ClosureEnv vs ms _) = (list_ok reserve VString string_ok vs \<and> list_ok reserve VBool (\<lambda>_. True) ms)"
| "payload_ok reserve (StructDef a fs _ _) = (string_ok a \<and> list_ok reserve VField field_ok fs)"
| "payload_ok reserve (EnumDef a vs t _ _ _ _) = (string_ok a \<and> list_ok reserve VVariant variant_ok vs \<and> string_ok t)"
| "payload_ok reserve (MatchOn a arms t) = (string_ok a \<and> string_ok t \<and> list_ok reserve VArm (arm_ok reserve) arms)"
| "payload_ok reserve (ConstantTime _ a os) = (string_ok a \<and> list_ok reserve VString string_ok os)"
| "payload_ok reserve (Syscall _ d as) = (pred_option string_ok d \<and> list_ok reserve VString string_ok as)"
| "payload_ok _ (StateInit a _) = string_ok a"
| "payload_ok _ (StateRead _ a b _) = (string_ok a \<and> string_ok b)"
| "payload_ok _ (StateWrite _ a b _) = (string_ok a \<and> string_ok b)"
| "payload_ok _ (StateTransform _ a b _) = (string_ok a \<and> string_ok b)"
| "payload_ok _ (ForeignConsume _ a) = string_ok a"
| "payload_ok _ (ArenaAlloc _ a _ _) = string_ok a"
| "payload_ok _ (ChannelOpen a b) = (string_ok a \<and> string_ok b)"
| "payload_ok _ (ChannelSend a b c) = (string_ok a \<and> string_ok b \<and> string_ok c)"
| "payload_ok _ (ChannelRecv a b c) = (string_ok a \<and> string_ok b \<and> string_ok c)"
| "payload_ok _ (ChannelClose a) = string_ok a"
| "payload_ok _ _ = True"

text \<open>What the format keeps of a payload: of a computation only the label of its kind, and no tail call mark.\<close>

fun stored_payload :: "NodePayload \<Rightarrow> NodePayload" where
  "stored_payload (Computation kind result_type _) = Computation (from_op_name (kind_label kind)) result_type False"
| "stored_payload p = p"

lemma tag_node_type [simp]: "tag_to_node_type (node_type_to_tag t) bs = Inr (t, bs)"
  by (cases t) (simp_all add: tag_to_node_type_def from_tag_def rreturn_def)

lemma tag_access_mode [simp]: "tag_to_access_mode (access_mode_to_tag m) bs = Inr (m, bs)"
  by (cases m) (simp_all add: tag_to_access_mode_def from_tag_def rreturn_def)

lemma tag_control_kind [simp]: "tag_to_control_kind (control_kind_to_tag k) bs = Inr (k, bs)"
  by (cases k) (simp_all add: tag_to_control_kind_def from_tag_def rreturn_def)

lemma write_payload_tag: "\<exists>body. write_payload p = write_u32_le (node_type_to_tag (payload_type p)) @ body \<and>
    (payload_ok reserve p \<longrightarrow> (\<forall>rest. read_payload_arm reserve (payload_type p) (body @ rest) = Inr (stored_payload p, rest)))"
  by (cases p; simp add: rbind_def rreturn_def from_op_name_def from_tag_def split: option.splits ConstantTimeOp.splits)

section \<open>Nodes, edges and regions\<close>

definition point_ok :: "ProgramPoint \<Rightarrow> bool" where
  "point_ok p \<longleftrightarrow> pred_option string_ok (pp_file p)"

definition node_ok :: "reserve \<Rightarrow> NodeData \<Rightarrow> bool" where
  "node_ok reserve n \<longleftrightarrow> nd_node_type n = payload_type (nd_payload n) \<and> point_ok (nd_program_point n) \<and> payload_ok reserve (nd_payload n)"

definition stored_node :: "NodeData \<Rightarrow> NodeData" where
  "stored_node n = n\<lparr>nd_payload := stored_payload (nd_payload n)\<rparr>"

definition edge_ok :: "EdgeData \<Rightarrow> bool" where
  "edge_ok e \<longleftrightarrow> pred_option string_ok (ed_label e)"

text \<open>What the format keeps of an edge: the ends and values of a call or a return are replaced by zeros.\<close>

fun stored_kind :: "EdgeKind \<Rightarrow> EdgeKind" where
  "stored_kind (Call _ _ _) = Call 0 0 0"
| "stored_kind (Return _ _ _) = Return 0 0 []"
| "stored_kind k = k"

definition stored_edge :: "EdgeData \<Rightarrow> EdgeData" where
  "stored_edge e = e\<lparr>ed_kind := stored_kind (ed_kind e)\<rparr>"

fun target_ok :: "DeploymentTarget \<Rightarrow> bool" where
  "target_ok (Custom nm) = string_ok nm"
| "target_ok _ = True"

definition region_storable :: "reserve \<Rightarrow> SCGRegion \<Rightarrow> bool" where
  "region_storable reserve r \<longleftrightarrow> finite (rg_nodes r) \<and> card (rg_nodes r) < 2 ^ 32 \<and> reserve VId (card (rg_nodes r))
     \<and> target_ok (rg_deployment_target r)"

interpretation bdr: scg_codec "rbind read_u64_le (\<lambda>bd_id. rbind (read_optional read_u64_le) (\<lambda>version.
     rreturn \<lparr>bd_id = bd_id, bd_version = version\<rparr>))" "\<lambda>bd. write_u64_le (bd_id bd) @ write_optional write_u64_le (bd_version bd)" "\<lambda>_. True"
  by (intro scg_codec.intro codec.intro codec_axioms.intro scg_readers) (simp add: rbind_def rreturn_def)

lemma read_bd_reference_write [simp]:
  "read_optional_bd_reference (write_optional_bd_reference a @ rest) = Inr (a, rest)"
  by (simp add: read_optional_bd_reference_def write_optional_bd_reference_def bdr.optional_read)

lemma read_program_point_write [simp]:
  "point_ok p \<Longrightarrow> read_program_point (write_program_point p @ rest) = Inr (p, rest)"
  by (simp add: read_program_point_def write_program_point_def point_ok_def rbind_def rreturn_def)

lemma read_payload_write:
  assumes "payload_ok reserve p"
  shows "read_payload reserve (payload_type p) (write_payload p @ rest) = Inr (stored_payload p, rest)"
proof -
  obtain body where b: "write_payload p = write_u32_le (node_type_to_tag (payload_type p)) @ body"
      "\<forall>rest. read_payload_arm reserve (payload_type p) (body @ rest) = Inr (stored_payload p, rest)"
    using write_payload_tag [of p reserve] assms by auto
  then show ?thesis by (simp add: read_payload_def rbind_def)
qed

lemma read_node_write:
  "node_ok reserve n \<Longrightarrow> read_node reserve (write_node n @ rest) = Inr (stored_node n, rest)"
  by (simp add: read_node_def write_node_def node_ok_def stored_node_def rbind_def rreturn_def read_payload_write)

text \<open>A node whose type is not the type of its payload is written, and what is written is refused.\<close>

lemma read_node_mismatch:
  assumes "nd_node_type n \<noteq> payload_type (nd_payload n)" "point_ok (nd_program_point n)"
  shows "read_node reserve (write_node n @ rest)
    = Inl (Error (DeConsistencyError (PayloadMismatch (nd_node_type n) (payload_type (nd_payload n)))))"
proof -
  obtain body where b: "write_payload (nd_payload n) = write_u32_le (node_type_to_tag (payload_type (nd_payload n))) @ body"
    using write_payload_tag by blast
  show ?thesis using assms by (simp add: read_node_def write_node_def rbind_def rfail_def read_payload_def b)
qed

lemma tag_edge_kind [simp]: "tag_to_edge_kind (edge_kind_to_tag k) bs = Inr (stored_kind k, bs)"
  by (cases k) (simp_all add: tag_to_edge_kind_def from_tag_def rreturn_def)

lemma read_edge_write: "edge_ok e \<Longrightarrow> read_edge (write_edge e @ rest) = Inr (stored_edge e, rest)"
  by (simp add: read_edge_def write_edge_def edge_ok_def stored_edge_def rbind_def rreturn_def)

lemma tag_deployment_target:
  "target_ok t \<Longrightarrow> tag_to_deployment_target (deployment_target_to_tag t) ((case t of Custom nm \<Rightarrow> write_text nm | _ \<Rightarrow> []) @ rest)
     = Inr (t, rest)"
  by (cases t) (simp_all add: tag_to_deployment_target_def from_tag_def rreturn_def rbind_def)

lemma read_region_write:
  assumes "iterates iter" "region_storable reserve r"
  shows "read_region reserve (write_region iter r @ rest) = Inr (r, rest)"
proof -
  have it: "set (iter (rg_nodes r)) = rg_nodes r" "length (iter (rg_nodes r)) = card (rg_nodes r)"
    using assms by (simp_all add: iterates_def region_storable_def) (metis distinct_card)
  have ids: "read_items read_u64_le (card (rg_nodes r)) (concat (map write_u64_le (iter (rg_nodes r))) @ more) = Inr (iter (rg_nodes r), more)" for more
    using le64.items_roundtrip [of "iter (rg_nodes r)" more] it(2) by (simp add: list_all_iff)
  have "fold insert (iter (rg_nodes r)) {} = rg_nodes r" using it(1) by (simp add: union_set_fold [symmetric])
  then show ?thesis
    using assms(2) ids by (simp add: read_region_def write_region_def read_list_def region_storable_def rbind_def rreturn_def unat_len tag_deployment_target)
qed

section \<open>Whole graphs\<close>

definition storable :: "reserve \<Rightarrow> SerializedSCG \<Rightarrow> bool" where
  "storable reserve x \<longleftrightarrow>
     length (ser_nodes x) < 2 ^ 32 \<and> reserve VNode (length (ser_nodes x)) \<and> list_all (node_ok reserve) (ser_nodes x)
   \<and> length (ser_edges x) < 2 ^ 32 \<and> reserve VEdge (length (ser_edges x)) \<and> list_all edge_ok (ser_edges x)
   \<and> length (ser_regions x) < 2 ^ 32 \<and> reserve VRegion (length (ser_regions x)) \<and> list_all (region_storable reserve) (ser_regions x)"

definition stored :: "SerializedSCG \<Rightarrow> SerializedSCG" where
  "stored x = x\<lparr>ser_nodes := map stored_node (ser_nodes x), ser_edges := map stored_edge (ser_edges x)\<rparr>"

lemma read_serialized_write:
  assumes "iterates iter" "storable reserve (scg_to_serialized s)"
  shows "read_serialized reserve (serialize_scg iter s @ rest) = Inr (stored (scg_to_serialized s), rest)"
proof -
  let ?x = "scg_to_serialized s"
  have n: "read_items (read_node reserve) (length (ser_nodes ?x)) (concat (map write_node (ser_nodes ?x)) @ more)
      = Inr (map stored_node (ser_nodes ?x), more)" for more
    by (rule items_read, rule read_node_write) (use assms(2) in \<open>simp add: storable_def list_all_iff\<close>)
  have e: "read_items read_edge (length (ser_edges ?x)) (concat (map write_edge (ser_edges ?x)) @ more)
      = Inr (map stored_edge (ser_edges ?x), more)" for more
    by (rule items_read, rule read_edge_write) (use assms(2) in \<open>simp add: storable_def list_all_iff\<close>)
  have r: "read_items (read_region reserve) (length (ser_regions ?x)) (concat (map (write_region iter) (ser_regions ?x)) @ more)
      = Inr (map (\<lambda>r. r) (ser_regions ?x), more)" for more
    by (rule items_read, rule read_region_write [OF assms(1)]) (use assms(2) in \<open>simp add: storable_def list_all_iff\<close>)
  have magic: "length MAGIC = 4" by (simp add: MAGIC_def as_bytes_def)
  show ?thesis
    using assms(2) unfolding read_serialized_def serialize_scg_def Let_def append_assoc rbind_read_bytes [OF magic]
    by (simp add: storable_def read_list_def rbind_def rreturn_def unat_len n e r stored_def)
qed

section \<open>Restoring the graph\<close>

definition grows_by :: "('k \<rightharpoonup> 'v) \<Rightarrow> ('v \<Rightarrow> 'k) \<Rightarrow> 'v list \<Rightarrow> ('k \<rightharpoonup> 'v) \<Rightarrow> bool" where
  "grows_by f key xs g \<longleftrightarrow> (\<forall>i x. g i = Some x \<longleftrightarrow> f i = Some x \<or> x \<in> set xs \<and> key x = i)"

lemma grows_by_Nil [simp]: "grows_by f key [] g \<longleftrightarrow> g = f"
proof
  assume "grows_by f key [] g"
  then have "\<forall>i x. g i = Some x \<longleftrightarrow> f i = Some x" by (simp add: grows_by_def)
  then show "g = f" by (metis ext option.exhaust)
qed (simp add: grows_by_def)

lemma grows_by_Cons:
  "f (key x) = None \<Longrightarrow> grows_by (f(key x \<mapsto> x)) key xs g \<Longrightarrow> grows_by f key (x # xs) g"
  unfolding grows_by_def by (auto split: if_splits)

lemma fresh_keys:
  assumes "distinct (map key (x # xs))" "\<forall>y \<in> set (x # xs). f (key y) = None"
  shows "\<forall>y \<in> set xs. (f(key x \<mapsto> x)) (key y) = None"
proof
  fix y assume y: "y \<in> set xs"
  then have "key y \<noteq> key x" using assms(1) by (metis distinct.simps(2) image_eqI list.set_map list.simps(9))
  then show "(f(key x \<mapsto> x)) (key y) = None" using assms(2) y by simp
qed

lemma past_id_above: "(i :: u64) \<noteq> - 1 \<Longrightarrow> i < past_id i n \<and> n \<le> past_id i n"
proof -
  assume "i \<noteq> - 1"
  then have "unat (i + 1) = unat i + 1" using unatSuc [of i] by (simp add: add.commute add_eq_0_iff)
  then show ?thesis by (auto simp: past_id_def word_less_nat_alt word_le_nat_alt)
qed

lemma regions_kept [simp]:
  "sg_regions (insert_node s d) = sg_regions s" "sg_regions (insert_edge s a b e) = sg_regions s"
  "sg_regions (get_node_mut s i f) = sg_regions s" "sg_regions (get_edge_mut s j h) = sg_regions s"
  by (simp_all add: insert_node_def insert_edge_def get_node_mut_def get_edge_mut_def split_beta split: option.splits)

lemma restore_node:
  assumes "scg_ok s" "get_node s (nd_id n) = None"
  obtains s1 where "\<And>ns. restore_nodes (n # ns) s = restore_nodes ns s1" "scg_ok s1" "get_node s1 = (get_node s)(nd_id n \<mapsto> n)"
    "get_edge s1 = get_edge s" "sg_regions s1 = sg_regions s"
    "next_node_id s1 = past_id (nd_id n) (next_node_id s)" "next_edge_id s1 = next_edge_id s"
proof -
  let ?d = "node_data (nd_id n) (nd_node_type n) (nd_payload n) (nd_program_point n)"
  let ?a = "insert_node s ?d\<lparr>next_node_id := past_id (nd_id n) (next_node_id s)\<rparr>"
  let ?b = "case nd_annotation n of Some ann \<Rightarrow> get_node_mut ?a (nd_id n) (nd_annotation_update (\<lambda>_. Some ann)) | None \<Rightarrow> ?a"
  have "hm_get (node_id_to_index s) (nd_id n) = None" using get_node_None [OF assms(1)] assms(2) by simp
  then have "add_node_with_id s (nd_id n) (nd_node_type n) (nd_payload n) (nd_program_point n) = Inr (?a, nd_id n)"
    by (simp add: add_node_with_id_def past_id_def)
  then have r: "restore_nodes (n # ns) s = restore_nodes ns ?b" for ns by simp
  have a: "scg_ok ?a" "get_node ?a = (get_node s)(nd_id n \<mapsto> ?d)" "get_edge ?a = get_edge s"
    using insert_node_spec [OF assms(1), of ?d] assms(2) by (simp_all add: node_data_def)
  have "scg_ok ?b \<and> get_node ?b = (get_node s)(nd_id n \<mapsto> n) \<and> get_edge ?b = get_edge s"
    using a get_node_mut_spec [OF a(1), of "nd_annotation_update (\<lambda>_. nd_annotation n)" "nd_id n"]
    by (auto simp: node_data_def split: option.splits)
  then show ?thesis using that [OF r] by (auto split: option.splits)
qed

lemma restore_nodes_spec:
  assumes "scg_ok s" "distinct (map nd_id ns)" "\<forall>n \<in> set ns. get_node s (nd_id n) = None \<and> nd_id n \<noteq> - 1" "counters_ok s"
  shows "\<exists>s'. restore_nodes ns s = Inr s' \<and> scg_ok s' \<and> grows_by (get_node s) nd_id ns (get_node s') \<and> get_edge s' = get_edge s
    \<and> sg_regions s' = sg_regions s \<and> counters_ok s'"
  using assms
proof (induction ns arbitrary: s)
  case (Cons n ns)
  from restore_node [OF Cons.prems(1)] Cons.prems(3) obtain s1 where
      s1: "\<And>ns. restore_nodes (n # ns) s = restore_nodes ns s1" "scg_ok s1" "get_node s1 = (get_node s)(nd_id n \<mapsto> n)"
        "get_edge s1 = get_edge s" "sg_regions s1 = sg_regions s"
        "next_node_id s1 = past_id (nd_id n) (next_node_id s)" "next_edge_id s1 = next_edge_id s" by auto
  have "counters_ok s1"
    using Cons.prems(3,4) past_id_above [of "nd_id n" "next_node_id s"] unfolding counters_ok_def s1
    by (auto split: if_splits)
  moreover have "\<forall>m \<in> set ns. get_node s1 (nd_id m) = None \<and> nd_id m \<noteq> - 1"
    using fresh_keys [OF Cons.prems(2), of "get_node s"] Cons.prems(3) unfolding s1 by simp
  moreover have "distinct (map nd_id ns)" using Cons.prems(2) by simp
  ultimately obtain s' where
      "restore_nodes ns s1 = Inr s'" "scg_ok s'" "grows_by (get_node s1) nd_id ns (get_node s')" "get_edge s' = get_edge s1"
        "sg_regions s' = sg_regions s1" "counters_ok s'" using Cons.IH [OF s1(2)] by blast
  then show ?case using s1 grows_by_Cons [of "get_node s" nd_id n ns] Cons.prems(3) by auto
qed simp

lemma restore_edge:
  assumes "scg_ok s" "get_edge s (ed_id e) = None" "get_node s (ed_source e) \<noteq> None" "get_node s (ed_target e) \<noteq> None"
  obtains s1 where "\<And>es. restore_edges (e # es) s = restore_edges es s1" "scg_ok s1" "get_edge s1 = (get_edge s)(ed_id e \<mapsto> e)"
    "get_node s1 = get_node s" "sg_regions s1 = sg_regions s"
    "next_edge_id s1 = past_id (ed_id e) (next_edge_id s)" "next_node_id s1 = next_node_id s"
proof -
  let ?d = "edge_data (ed_id e) (ed_source e) (ed_target e) (ed_kind e)"
  obtain i j where ij: "hm_get (node_id_to_index s) (ed_source e) = Some i" "hm_get (node_id_to_index s) (ed_target e) = Some j"
    using endpoints_found [OF assms(1,3,4)] .
  let ?a = "insert_edge s i j ?d\<lparr>next_edge_id := past_id (ed_id e) (next_edge_id s)\<rparr>"
  let ?b = "case ed_label e of Some l \<Rightarrow> get_edge_mut ?a (ed_id e) (ed_label_update (\<lambda>_. Some l)) | None \<Rightarrow> ?a"
  have "hm_get (edge_id_to_index s) (ed_id e) = None" using get_edge_None [OF assms(1)] assms(2) by simp
  then have "add_edge_with_id s (ed_id e) (ed_source e) (ed_target e) (ed_kind e) = Inr (?a, ed_id e)"
    using ij by (simp add: add_edge_with_id_def past_id_def)
  then have r: "restore_edges (e # es) s = restore_edges es ?b" for es by simp
  have a: "scg_ok ?a" "get_edge ?a = (get_edge s)(ed_id e \<mapsto> ?d)" "get_node ?a = get_node s"
    using insert_edge_spec [OF assms(1), of ?d i j] assms(2) ij by (simp_all add: edge_data_def)
  have "scg_ok ?b \<and> get_edge ?b = (get_edge s)(ed_id e \<mapsto> e) \<and> get_node ?b = get_node s"
    using a get_edge_mut_spec [OF a(1), of "ed_label_update (\<lambda>_. ed_label e)" "ed_id e"]
    by (auto simp: edge_data_def split: option.splits)
  then show ?thesis using that [OF r] by (auto split: option.splits)
qed

lemma restore_edges_spec:
  assumes "scg_ok s" "distinct (map ed_id es)" "\<forall>e \<in> set es. get_edge s (ed_id e) = None \<and> ed_id e \<noteq> - 1" "counters_ok s"
    and "\<forall>e \<in> set es. get_node s (ed_source e) \<noteq> None \<and> get_node s (ed_target e) \<noteq> None"
  shows "\<exists>s'. restore_edges es s = Inr s' \<and> scg_ok s' \<and> grows_by (get_edge s) ed_id es (get_edge s') \<and> get_node s' = get_node s
    \<and> sg_regions s' = sg_regions s \<and> counters_ok s'"
  using assms
proof (induction es arbitrary: s)
  case (Cons e es)
  from restore_edge [OF Cons.prems(1)] Cons.prems(3,5) obtain s1 where
      s1: "\<And>es. restore_edges (e # es) s = restore_edges es s1" "scg_ok s1" "get_edge s1 = (get_edge s)(ed_id e \<mapsto> e)"
        "get_node s1 = get_node s" "sg_regions s1 = sg_regions s"
        "next_edge_id s1 = past_id (ed_id e) (next_edge_id s)" "next_node_id s1 = next_node_id s" by auto
  have "counters_ok s1"
    using Cons.prems(3,4) past_id_above [of "ed_id e" "next_edge_id s"] unfolding counters_ok_def s1
    by (auto split: if_splits)
  moreover have "\<forall>d \<in> set es. get_edge s1 (ed_id d) = None \<and> ed_id d \<noteq> - 1"
    using fresh_keys [OF Cons.prems(2), of "get_edge s"] Cons.prems(3) unfolding s1 by simp
  moreover have "distinct (map ed_id es)" using Cons.prems(2) by simp
  moreover have "\<forall>d \<in> set es. get_node s1 (ed_source d) \<noteq> None \<and> get_node s1 (ed_target d) \<noteq> None"
    using Cons.prems(5) unfolding s1 by simp
  ultimately obtain s' where
      "restore_edges es s1 = Inr s'" "scg_ok s'" "grows_by (get_edge s1) ed_id es (get_edge s')" "get_node s' = get_node s1"
        "sg_regions s' = sg_regions s1" "counters_ok s'" using Cons.IH [OF s1(2)] by blast
  then show ?case using s1 grows_by_Cons [of "get_edge s" ed_id e es] Cons.prems(3) by auto
qed simp

lemma add_regions_spec:
  assumes "scg_ok s" "distinct (map rg_id rs)" "\<forall>r \<in> set rs. get_region s (rg_id r) = None"
  shows "let s' = fold (\<lambda>r s. add_region s r) rs s in scg_ok s' \<and> grows_by (get_region s) rg_id rs (get_region s')
    \<and> get_node s' = get_node s \<and> get_edge s' = get_edge s \<and> next_node_id s' = next_node_id s \<and> next_edge_id s' = next_edge_id s"
  using assms
proof (induction rs arbitrary: s)
  case (Cons r rs)
  have g: "get_region (add_region s r) = (get_region s)(rg_id r \<mapsto> r)"
    by (simp add: get_region_def [abs_def] add_region_def hm_get_insert)
  have c: "next_node_id (add_region s r) = next_node_id s" "next_edge_id (add_region s r) = next_edge_id s"
    by (simp_all add: add_region_def)
  have "\<forall>q \<in> set rs. get_region (add_region s r) (rg_id q) = None" 
    using fresh_keys [OF Cons.prems(2), of "get_region s"] Cons.prems(3) unfolding g by simp
  then have ih: "let s' = fold (\<lambda>r s. add_region s r) rs (add_region s r)
      in scg_ok s' \<and> grows_by ((get_region s)(rg_id r \<mapsto> r)) rg_id rs (get_region s')
       \<and> get_node s' = get_node s \<and> get_edge s' = get_edge s \<and> next_node_id s' = next_node_id s \<and> next_edge_id s' = next_edge_id s"
    using Cons.IH [OF add_region_ok(1) [OF Cons.prems(1), of r], unfolded g c add_region_ok(2,3) [OF Cons.prems(1)]] Cons.prems(2)
    unfolding g by (simp add: fun_upd_def)
  show ?case using ih grows_by_Cons [of "get_region s" rg_id r rs] Cons.prems(3) by (auto simp: Let_def)
qed (simp add: grows_by_def)

lemma lookup_stored:
  assumes "\<And>i x. f i = Some x \<longleftrightarrow> x \<in> set xs \<and> key x = i" "\<And>x. key (h x) = key x" "grows_by (\<lambda>_. None) key (map h xs) g"
  shows "g = map_option h \<circ> f"
proof
  fix i
  have "g i = Some y \<longleftrightarrow> (\<exists>x. f i = Some x \<and> y = h x)" for y
    using assms by (auto simp: grows_by_def)
  then show "g i = (map_option h \<circ> f) i" by (cases "g i"; cases "f i") auto
qed

lemma scg_new_lookups [simp]:
  "get_node scg_new = (\<lambda>_. None)" "get_edge scg_new = (\<lambda>_. None)" "get_region scg_new = (\<lambda>_. None)"
  by (simp_all add: scg_new_def get_node_def [abs_def] get_edge_def [abs_def] get_region_def [abs_def])

lemma restore_stored:
  assumes "scg_ok s" "counters_ok s"
  shows "\<exists>s'. serialized_to_scg (stored (scg_to_serialized s)) = Inr s' \<and> scg_ok s' \<and> counters_ok s'
    \<and> get_node s' = map_option stored_node \<circ> get_node s \<and> get_edge s' = map_option stored_edge \<circ> get_edge s
    \<and> get_region s' = get_region s"
proof -
  let ?ns = "map stored_node (nodes s)" and ?es = "map stored_edge (edges s)"
  have id: "nd_id (stored_node n) = nd_id n" "ed_id (stored_edge e) = ed_id e" for n e by (simp_all add: stored_node_def stored_edge_def)
  have N: "get_node s i = Some n \<longleftrightarrow> n \<in> set (nodes s) \<and> nd_id n = i" for i n
    using mem_nodes [OF assms(1), of n] get_node_iff [OF assms(1), of i n] by auto
  have E: "get_edge s i = Some e \<longleftrightarrow> e \<in> set (edges s) \<and> ed_id e = i" for i e
    using mem_edges [OF assms(1), of e] get_edge_iff [OF assms(1), of i e] by auto
  have max: "\<forall>n \<in> set (nodes s). nd_id n \<noteq> - 1" "\<forall>e \<in> set (edges s). ed_id e \<noteq> - 1"
    using assms(2) N E unfolding counters_ok_def by (metis option.distinct(1) word_order.extremum_strict)+
  have ends: "get_node s (ed_source e) \<noteq> None" "get_node s (ed_target e) \<noteq> None" if "e \<in> set (edges s)" for e
    using get_edge_ends [OF assms(1)] mem_edges [OF assms(1)] that by blast+
  obtain s1 where s1: "restore_nodes ?ns scg_new = Inr s1" "scg_ok s1" "grows_by (\<lambda>_. None) nd_id ?ns (get_node s1)"
      "get_edge s1 = (\<lambda>_. None)" "sg_regions s1 = sg_regions scg_new" "counters_ok s1"
    using restore_nodes_spec [OF scg_new_ok(1), of ?ns] scg_new_ok(2) distinct_ids(1) [OF assms(1)] max(1) by (auto simp: id comp_def)
  have n1: "get_node s1 = map_option stored_node \<circ> get_node s" by (rule lookup_stored [OF N id(1) s1(3)])
  obtain s2 where s2: "restore_edges ?es s1 = Inr s2" "scg_ok s2" "grows_by (\<lambda>_. None) ed_id ?es (get_edge s2)"
      "get_node s2 = get_node s1" "sg_regions s2 = sg_regions s1" "counters_ok s2"
    using restore_edges_spec [OF s1(2), of ?es] s1(4,6) distinct_ids(2) [OF assms(1)] max(2) ends
    by (auto simp: id comp_def n1 stored_edge_def)
  have e2: "get_edge s2 = map_option stored_edge \<circ> get_edge s" by (rule lookup_stored [OF E id(2) s2(3)])
  let ?s = "fold (\<lambda>r s. add_region s r) (regions s) s2"
  have r2: "get_region s2 = (\<lambda>_. None)" using s1(5) s2(5) by (simp add: get_region_def [abs_def] scg_new_def)
  have s3: "scg_ok ?s" "grows_by (\<lambda>_. None) rg_id (regions s) (get_region ?s)" "get_node ?s = get_node s2" "get_edge ?s = get_edge s2"
      "next_node_id ?s = next_node_id s2" "next_edge_id ?s = next_edge_id s2"
    using add_regions_spec [OF s2(2) distinct_ids(3) [OF assms(1)]] r2 by (simp_all add: Let_def)
  have "get_region ?s = map_option (\<lambda>r. r) \<circ> get_region s"
    by (rule lookup_stored [OF region_iff [OF assms(1)]]) (use s3(2) in simp_all)
  moreover have "serialized_to_scg (stored (scg_to_serialized s)) = Inr ?s"
    using s1(1) s2(1) by (simp add: serialized_to_scg_def stored_def scg_to_serialized_def)
  moreover have "counters_ok ?s" using s2(6) s3 by (simp add: counters_ok_def)
  ultimately show ?thesis using s3 s2(4) n1 e2 by (auto simp: option.map_ident fun_eq_iff)
qed

section \<open>The round trip\<close>

text \<open>
  C13: A graph that fits the format (strings shorter than 4 GiB, counts below \<^verbatim>\<open>u32::MAX\<close>, node types that match their payloads,
  vectors the machine can reserve) is read back from the bytes it is written to, whatever follows them: reading
  succeeds, the restored graph satisfies the invariant of the graph and of its counters, has the same nodes, edges
  and regions under the same identifiers, and the data agrees in everything but what the format does not
  record (the tail call mark and the structure of a computation kind; the ends of calls and returns).
\<close>

theorem scg_serialize_roundtrip:
  assumes "iterates iter" "scg_ok s" "counters_ok s" "storable reserve (scg_to_serialized s)"
  shows "\<exists>s'. deserialize_scg reserve (serialize_scg iter s @ rest) = Inr s' \<and> scg_ok s' \<and> counters_ok s'
    \<and> get_node s' = map_option stored_node \<circ> get_node s \<and> get_edge s' = map_option stored_edge \<circ> get_edge s
    \<and> get_region s' = get_region s"
  using restore_stored [OF assms(2,3)] by (auto simp: deserialize_scg_def read_serialized_write [OF assms(1,4)])

lemma sorted_iterates: "iterates (sorted_list_of_set :: NodeId set \<Rightarrow> NodeId list)"
  by (simp add: iterates_def)

lemma leaky_counters: "counters_ok leaky_scg"
proof -
  have "next_node_id scg_new = 0" "next_edge_id scg_new = 0" by (simp_all add: scg_new_def)
  then show ?thesis
    using run_sim [OF scg_new_ok, of 0 "[OpAddNode NtAllocation (Allocation 8 8 0 None) here, OpAddNode NtEffect (Effect ''send'' True) here,
      OpAddNode NtDeallocation (Deallocation 1 0) here, OpAddEdge 0 1 DataFlow]"]
    by (auto simp: leaky_scg_def Let_def region_add_node_def region_new_def add_region_ok add_region_def counters_ok_def
        get_node_def get_edge_def simp del: scg_run.simps spec_run.simps)
qed

lemma leaky_storable: "storable (\<lambda>_ _. True) (scg_to_serialized leaky_scg)"
proof -
  have "nodes leaky_scg = [node_data 0 NtAllocation (Allocation 8 8 0 None) here, node_data 1 NtEffect (Effect ''send'' True) here,
      node_data 2 NtDeallocation (Deallocation 1 0) here]"
    "edges leaky_scg = [edge_data 0 0 1 DataFlow]" "map rg_deployment_target (regions leaky_scg) = [Heap, Heap]"
    "map rg_nodes (regions leaky_scg) = [{0}, {1}]"
    "valid_utf8 (as_bytes ''send'')" by code_simp+
  then show ?thesis
    by (auto simp: storable_def scg_to_serialized_def node_data_def edge_data_def node_ok_def edge_ok_def point_ok_def here_def
        string_ok_def region_storable_def)
qed

lemma leaky_restored: "\<exists>s. deserialize_scg (\<lambda>_ _. True) (serialize_scg sorted_list_of_set leaky_scg) = Inr s"
  using restore_stored [OF leaky_scg_ok leaky_counters] read_serialized_write [OF sorted_iterates leaky_storable, of "[]"]
  by (auto simp: deserialize_scg_def)

theorem scg_serialize_roundtrip_witness:
  "\<exists>s'. deserialize_scg (\<lambda>_ _. True) (serialize_scg sorted_list_of_set leaky_scg @ [0xFF]) = Inr s'
    \<and> get_node s' 0 = get_node leaky_scg 0 \<and> get_region s' = get_region leaky_scg"
proof -
  have "(map_option stored_node \<circ> get_node leaky_scg) 0 = get_node leaky_scg 0" by code_simp
  then show ?thesis
    using scg_serialize_roundtrip [OF sorted_iterates leaky_scg_ok leaky_counters leaky_storable, of "[0xFF]"] by metis
qed

text \<open>
  No proper prefix of a written graph is accepted: reading it ends with an error.
\<close>

theorem scg_truncated_rejected:
  assumes "iterates iter" "storable reserve (scg_to_serialized s)" "serialize_scg iter s = p @ q" "q \<noteq> []"
  shows "\<exists>e. deserialize_scg reserve p = Inl e"
proof (cases "read_serialized reserve p")
  case (Inr r)
  then obtain x left where "read_serialized reserve p = Inr (x, left)" by (cases r) auto
  then have "read_serialized reserve (p @ q) = Inr (x, left @ q)" by (rule reader.extension [OF reader_serialized])
  moreover have "read_serialized reserve (p @ q) = Inr (stored (scg_to_serialized s), [])"
    using read_serialized_write [OF assms(1,2), of "[]"] assms(3) by simp
  ultimately show ?thesis using assms(4) by simp
qed (simp add: deserialize_scg_def)

theorem scg_truncated_rejected_witness:
  "\<exists>e. deserialize_scg (\<lambda>_ _. True) (butlast (serialize_scg sorted_list_of_set leaky_scg)) = Inl e"
proof -
  have "serialize_scg sorted_list_of_set leaky_scg \<noteq> []" by (simp add: serialize_scg_def Scg_Serialize.MAGIC_def as_bytes_def Let_def)
  then have "serialize_scg sorted_list_of_set leaky_scg
      = butlast (serialize_scg sorted_list_of_set leaky_scg) @ [last (serialize_scg sorted_list_of_set leaky_scg)]" by simp
  then show ?thesis by (rule scg_truncated_rejected [OF sorted_iterates leaky_storable]) simp
qed

section \<open>Untrusted input\<close>

text \<open>
  The counts of the header are believed before anything is read: forty bytes that promise \<^verbatim>\<open>u32::MAX\<close> nodes make
  the reader reserve room for all of them.
\<close>

lemma hostile_header:
  assumes "\<not> reserve VNode (2 ^ 32 - 1)"
  shows "deserialize_scg reserve (MAGIC @ write_u32_le 1 @ write_u64_le 0 @ write_u64_le 0 @ write_u32_le (- 1)
    @ write_u32_le 0 @ write_u32_le 0) = Inl ReserveFailed"
proof -
  have magic: "length MAGIC = 4" by (simp add: MAGIC_def as_bytes_def)
  have m: "unat (- 1 :: u32) = 2 ^ 32 - 1" by (simp add: unsigned_minus_1_eq_mask mask_eq_exp_minus_1)
  have z: "read_u32_le (write_u32_le v) = Inr (v, [])" for v using read_u32_le_write [of v "[]"] by simp
  show ?thesis
    using assms unfolding deserialize_scg_def read_serialized_def append_assoc rbind_read_bytes [OF magic]
    by (simp add: rbind_def read_list_def rfail_def z m [simplified])
qed

lemma arm_typed: "read_payload_arm reserve t bs = Inr (p, rest) \<Longrightarrow> payload_type p = t"
  by (cases t) (auto simp: rbind_Inr rreturn_def)

lemma node_typed: "read_node reserve bs = Inr (n, rest) \<Longrightarrow> nd_node_type n = payload_type (nd_payload n)"
  by (auto simp: read_node_def read_payload_def rbind_Inr rreturn_def rfail_def dest!: arm_typed split: if_splits)

lemma items_all:
  assumes "\<And>bs x rest. rd bs = Inr (x, rest) \<Longrightarrow> P x" "read_items rd n bs = Inr (xs, rest)"
  shows "list_all P xs"
  using assms(2) by (induction n arbitrary: bs xs) (auto simp: rbind_Inr rreturn_def dest: assms(1))

lemma serialized_typed:
  assumes "read_serialized reserve bs = Inr (x, rest)"
  shows "list_all (\<lambda>n. nd_node_type n = payload_type (nd_payload n)) (ser_nodes x)"
proof -
  obtain n bs' more where "read_items (read_node reserve) n bs' = Inr (ser_nodes x, more)"
    using assms by (auto simp: read_serialized_def rbind_Inr rreturn_def rfail_def read_list_def split: if_splits)
  then show ?thesis by (rule items_all [rotated]) (rule node_typed)
qed

lemma restore_nodes_safe:
  assumes "restore_nodes ns s = Inr s'" "scg_ok s"
  shows "scg_ok s' \<and> grows_by (get_node s) nd_id ns (get_node s') \<and> get_edge s' = get_edge s"
  using assms
proof (induction ns arbitrary: s)
  case (Cons n ns)
  have "get_node s (nd_id n) = None"
    using Cons.prems get_node_None [of s "nd_id n"] by (auto simp: add_node_with_id_def split: if_splits)
  from restore_node [OF Cons.prems(2) this] obtain s1 where
      s1: "\<And>ns. restore_nodes (n # ns) s = restore_nodes ns s1" "scg_ok s1" "get_node s1 = (get_node s)(nd_id n \<mapsto> n)"
        "get_edge s1 = get_edge s" by blast
  have "scg_ok s' \<and> grows_by (get_node s1) nd_id ns (get_node s') \<and> get_edge s' = get_edge s1"
    using Cons.IH [OF _ s1(2)] Cons.prems(1) unfolding s1(1) by blast
  then show ?case
    using grows_by_Cons [of "get_node s" nd_id n ns, OF \<open>get_node s (nd_id n) = None\<close>] s1(3,4) by metis
qed simp

lemma restore_edges_safe:
  assumes "restore_edges es s = Inr s'" "scg_ok s"
  shows "scg_ok s' \<and> get_node s' = get_node s"
  using assms
proof (induction es arbitrary: s)
  case (Cons e es)
  have "get_edge s (ed_id e) = None \<and> get_node s (ed_source e) \<noteq> None \<and> get_node s (ed_target e) \<noteq> None"
    using Cons.prems get_edge_None [of s "ed_id e"] get_node_None [of s "ed_source e"] get_node_None [of s "ed_target e"]
    by (auto simp: add_edge_with_id_def split: if_splits option.splits)
  then obtain s1 where "\<And>es. restore_edges (e # es) s = restore_edges es s1" "scg_ok s1" "get_node s1 = get_node s"
    using restore_edge [OF Cons.prems(2)] by metis
  with Cons.IH [of s1] Cons.prems(1) show ?case by simp
qed simp

lemma add_regions_ok:
  "scg_ok s \<Longrightarrow> scg_ok (fold (\<lambda>r s. add_region s r) rs s) \<and> get_node (fold (\<lambda>r s. add_region s r) rs s) = get_node s"
proof (induction rs arbitrary: s)
  case (Cons r rs)
  then show ?case using add_region_ok [OF Cons.prems, of r] by simp
qed simp

text \<open>
  C14: Whatever bytes are read, a graph that comes out of them is well formed: its index maps are mutually inverse, its
  edges connect nodes of the graph, and every node carries the payload of its node type.
\<close>

theorem deserialized_well_typed:
  assumes "deserialize_scg reserve bs = Inr s"
  shows "scg_ok s \<and> (\<forall>i n. get_node s i = Some n \<longrightarrow> nd_id n = i \<and> nd_node_type n = payload_type (nd_payload n))"
proof -
  obtain x left where x: "read_serialized reserve bs = Inr (x, left)" "serialized_to_scg x = Inr s"
    using assms by (auto simp: deserialize_scg_def split: sum.splits prod.splits)
  obtain s1 s2 where r: "restore_nodes (ser_nodes x) scg_new = Inr s1" "restore_edges (ser_edges x) s1 = Inr s2"
      "s = fold (\<lambda>r s. add_region s r) (ser_regions x) s2"
    using x(2) by (auto simp: serialized_to_scg_def split: sum.splits)
  have s1: "scg_ok s1" "grows_by (\<lambda>_. None) nd_id (ser_nodes x) (get_node s1)"
    using restore_nodes_safe [OF r(1) scg_new_ok(1)] by simp_all
  have s2: "scg_ok s2" "get_node s2 = get_node s1" using restore_edges_safe [OF r(2) s1(1)] by simp_all
  have "scg_ok s" "get_node s = get_node s1" using add_regions_ok [OF s2(1)] s2(2) r(3) by simp_all
  then show ?thesis using s1(2) serialized_typed [OF x(1)] by (simp add: grows_by_def list_all_iff)
qed

theorem deserialized_well_typed_witness:
  "\<exists>s. deserialize_scg (\<lambda>_ _. True) (serialize_scg sorted_list_of_set leaky_scg) = Inr s \<and> scg_ok s"
  using leaky_restored deserialized_well_typed by blast

end
