(* ===== verification/Dominators.thy ===== *)
theory Dominators
  imports Vuma_Prelude
begin

text \<open>
  Dominance in a flow graph, by paths, and the theory of semidominators on a depth-first spanning tree. The locale \<open>dfs_tree\<close> is
  the interface between a depth-first numbering and the dominator algorithm: what a numbering promises
  is its assumptions, what the algorithm needs are its lemmas.
\<close>

section \<open>Paths and dominance\<close>

definition walks :: "('a \<times> 'a) set \<Rightarrow> 'a \<Rightarrow> 'a list \<Rightarrow> 'a \<Rightarrow> bool" where
  "walks E a xs b \<longleftrightarrow> xs \<noteq> [] \<and> hd xs = a \<and> last xs = b \<and> successively (\<lambda>x y. (x, y) \<in> E) xs"

text \<open>\<open>dom_of E r a b\<close>: every path from \<open>r\<close> to \<open>b\<close> goes through \<open>a\<close>.\<close>

definition dom_of :: "('a \<times> 'a) set \<Rightarrow> 'a \<Rightarrow> 'a \<Rightarrow> 'a \<Rightarrow> bool" where
  "dom_of E r a b \<longleftrightarrow> (\<forall>xs. walks E r xs b \<longrightarrow> a \<in> set xs)"

text \<open>The immediate dominator: the strict dominator every other one dominates.\<close>

definition idom_of :: "('a \<times> 'a) set \<Rightarrow> 'a \<Rightarrow> 'a \<Rightarrow> 'a \<Rightarrow> bool" where
  "idom_of E r d w \<longleftrightarrow> d \<noteq> w \<and> dom_of E r d w \<and> (\<forall>a. a \<noteq> w \<and> dom_of E r a w \<longrightarrow> dom_of E r a d)"

lemma walks_Nil [simp]: "\<not> walks E a [] b"
  by (simp add: walks_def)

lemma walks_single [simp]: "walks E a [x] b \<longleftrightarrow> x = a \<and> x = b"
  by (auto simp: walks_def)

lemma walks_Cons: "walks E a (x # y # xs) b \<longleftrightarrow> x = a \<and> (a, y) \<in> E \<and> walks E y (y # xs) b"
  by (auto simp: walks_def)

lemma walks_ends: "walks E a xs b \<Longrightarrow> a \<in> set xs \<and> b \<in> set xs"
  by (auto simp: walks_def intro: hd_in_set last_in_set)

lemma walks_append: "walks E a (xs @ [m]) m \<Longrightarrow> walks E m (m # ys) b \<Longrightarrow> walks E a (xs @ m # ys) b"
proof (induction xs arbitrary: a)
  case (Cons x xs)
  then show ?case by (cases xs) (auto simp: walks_Cons)
qed auto

lemma walks_split: "walks E a (xs @ m # ys) b \<Longrightarrow> walks E a (xs @ [m]) m \<and> walks E m (m # ys) b"
proof (induction xs arbitrary: a)
  case (Cons x xs)
  then show ?case by (cases xs) (auto simp: walks_Cons)
qed (auto simp: walks_def)

lemma walks_snoc: "walks E a xs v \<Longrightarrow> (v, w) \<in> E \<Longrightarrow> walks E a (xs @ [w]) w"
  by (auto simp: walks_def successively_append_iff)

lemma walks_join: "walks E a xs m \<Longrightarrow> walks E m ys b \<Longrightarrow> \<exists>zs. walks E a zs b \<and> set zs = set xs \<union> set ys"
proof -
  assume xs: "walks E a xs m" and ys: "walks E m ys b"
  obtain us where us: "xs = us @ [m]" using xs unfolding walks_def by (metis append_butlast_last_id)
  obtain vs where vs: "ys = m # vs" using ys unfolding walks_def by (metis list.collapse)
  show ?thesis using walks_append [of E a us m vs b] xs ys us vs by (intro exI [of _ "us @ m # vs"]) auto
qed

lemma walks_reach: "walks E a xs b \<Longrightarrow> x \<in> set xs \<Longrightarrow> (a, x) \<in> E\<^sup>*"
proof (induction xs arbitrary: a)
  case (Cons y xs)
  then show ?case
    by (cases xs) (auto simp: walks_Cons intro: converse_rtrancl_into_rtrancl)
qed simp

lemma reach_walks: "(a, b) \<in> E\<^sup>* \<longleftrightarrow> (\<exists>xs. walks E a xs b)"
proof
  assume "(a, b) \<in> E\<^sup>*"
  then show "\<exists>xs. walks E a xs b"
  proof (induction rule: converse_rtrancl_induct)
    case base show ?case by (rule exI [of _ "[b]"]) simp
  next
    case (step x y)
    then obtain ys where "walks E y ys b" by blast
    then have "walks E x (x # ys) b" using step(1) by (cases ys) (auto simp: walks_Cons walks_def)
    then show ?case by blast
  qed
next
  assume "\<exists>xs. walks E a xs b"
  then show "(a, b) \<in> E\<^sup>*" using walks_reach walks_ends by metis
qed

lemma dom_refl: "dom_of E r a a"
  by (auto simp: dom_of_def dest: walks_ends)

lemma dom_entry: "dom_of E r r a"
  by (auto simp: dom_of_def dest: walks_ends)

lemma dom_trans:
  assumes "dom_of E r a b" "dom_of E r b c"
  shows "dom_of E r a c"
  unfolding dom_of_def
proof (intro allI impI)
  fix xs assume w: "walks E r xs c"
  then obtain us vs where "xs = us @ b # vs" using assms(2) by (meson dom_of_def split_list)
  then show "a \<in> set xs" using walks_split [of E r us b vs c] w assms(1) by (force simp: dom_of_def)
qed

lemma dom_reach: "dom_of E r a w \<Longrightarrow> (r, w) \<in> E\<^sup>* \<Longrightarrow> (r, a) \<in> E\<^sup>*"
  unfolding reach_walks [of r w] dom_of_def by (blast intro: walks_reach)

lemma dom_antisym:
  assumes "dom_of E r a b" "dom_of E r b a" "(r, a) \<in> E\<^sup>*"
  shows "a = b"
proof (rule ccontr)
  assume "a \<noteq> b"
  obtain xs where xs: "walks E r xs a" using assms(3) reach_walks by metis
  then have "a \<in> set xs" by (simp add: walks_ends)
  then obtain us vs where u: "xs = us @ a # vs" "a \<notin> set us" using split_list_first by metis
  have w: "walks E r (us @ [a]) a" using walks_split xs u(1) by metis
  then have "b \<in> set us" using assms(2) \<open>a \<noteq> b\<close> by (auto simp: dom_of_def)
  then obtain ps qs where p: "us = ps @ b # qs" by (meson split_list)
  then have "walks E r (ps @ [b]) b" using walks_split [of E r ps b "qs @ [a]" a] w by simp
  then show False using assms(1) u(2) p \<open>a \<noteq> b\<close> by (auto simp: dom_of_def)
qed

text \<open>The strict dominators of a node; their number is its depth in the dominator tree.\<close>

definition sdoms :: "('a \<times> 'a) set \<Rightarrow> 'a \<Rightarrow> 'a \<Rightarrow> 'a set" where
  "sdoms E r w = {a. a \<noteq> w \<and> dom_of E r a w}"

lemma dom_idom: "idom_of E r d w \<Longrightarrow> dom_of E r a w \<longleftrightarrow> a = w \<or> dom_of E r a d"
  using dom_trans dom_refl unfolding idom_of_def by metis

lemma sdoms_idom:
  assumes "idom_of E r d w" "(r, w) \<in> E\<^sup>*"
  shows "sdoms E r w = insert d (sdoms E r d)"
proof -
  have "\<not> dom_of E r w d" using dom_antisym [OF _ _ assms(2)] assms(1) by (auto simp: idom_of_def)
  then show ?thesis using dom_idom [OF assms(1)] dom_refl [of E r d] by (auto simp: sdoms_def)
qed

lemma sdoms_finite: "(r, w) \<in> E\<^sup>* \<Longrightarrow> finite (sdoms E r w)"
  unfolding reach_walks sdoms_def dom_of_def by (auto intro: finite_subset [OF _ finite_set])

lemma depth_idom: "idom_of E r d w \<Longrightarrow> (r, w) \<in> E\<^sup>* \<Longrightarrow> card (sdoms E r w) = Suc (card (sdoms E r d))"
proof -
  assume d: "idom_of E r d w" and w: "(r, w) \<in> E\<^sup>*"
  have "(r, d) \<in> E\<^sup>*" using dom_reach d w by (metis idom_of_def)
  then show ?thesis using sdoms_idom [OF d w] sdoms_finite [of r d E] by (simp add: sdoms_def)
qed

lemma sdoms_entry: "sdoms E r r = {}"
proof -
  have "walks E r [r] r" by simp
  then have "a = r" if "dom_of E r a r" for a using that unfolding dom_of_def by (metis empty_iff empty_set set_ConsD)
  then show ?thesis by (auto simp: sdoms_def)
qed

text \<open>The first of the smallest elements of a list.\<close>

lemma first_min:
  assumes "xs \<noteq> []"
  obtains us z vs where "xs = us @ z # vs" "\<forall>u \<in> set us. (f z :: nat) < f u" "\<forall>v \<in> set vs. f z \<le> f v"
proof -
  have "\<exists>z \<in> set xs. \<forall>x \<in> set xs. f z \<le> f x"
    using ex_min_if_finite [of "f ` set xs"] assms by (simp add: not_less)
  then obtain us z vs where s: "xs = us @ z # vs" "\<forall>x \<in> set xs. f z \<le> f x" "\<forall>u \<in> set us. \<not> (\<forall>x \<in> set xs. f u \<le> f x)"
    using split_list_first_prop [of xs "\<lambda>z. \<forall>x \<in> set xs. f z \<le> f x"] by metis
  have "f z < f u" if "u \<in> set us" for u
    using s(2,3) that by (meson le_trans not_le)
  then show ?thesis using that s by auto
qed

section \<open>Semidominators\<close>

text \<open>A path from \<open>v\<close> to \<open>w\<close> whose inner nodes are numbered above \<open>w\<close>, and the lowest node such a path starts from.\<close>

definition semi_path :: "('a \<times> 'a) set \<Rightarrow> ('a \<Rightarrow> nat) \<Rightarrow> 'a \<Rightarrow> 'a \<Rightarrow> bool" where
  "semi_path E num v w \<longleftrightarrow> (\<exists>xs. walks E v (v # xs @ [w]) w \<and> (\<forall>z \<in> set xs. num w < num z))"

definition is_semi :: "('a \<times> 'a) set \<Rightarrow> 'a set \<Rightarrow> ('a \<Rightarrow> nat) \<Rightarrow> 'a \<Rightarrow> 'a \<Rightarrow> bool" where
  "is_semi E V num d w \<longleftrightarrow> d \<in> V \<and> semi_path E num d w \<and> (\<forall>v \<in> V. semi_path E num v w \<longrightarrow> num d \<le> num v)"

locale dfs_tree =
  fixes E :: "('a \<times> 'a) set" and r :: 'a and V :: "'a set" and num :: "'a \<Rightarrow> nat" and tree :: "('a \<times> 'a) set"
  assumes root: "r \<in> V"
    and closed: "x \<in> V \<Longrightarrow> (x, y) \<in> E \<Longrightarrow> y \<in> V"
    and inj: "inj_on num V"
    and tree_edge: "(p, c) \<in> tree \<Longrightarrow> (p, c) \<in> E \<and> p \<in> V \<and> c \<in> V \<and> num p < num c"
    and parent_unique: "(p, c) \<in> tree \<Longrightarrow> (q, c) \<in> tree \<Longrightarrow> p = q"
    and spans: "c \<in> V \<Longrightarrow> (r, c) \<in> tree\<^sup>*"
    and forward: "a \<in> V \<Longrightarrow> (a, b) \<in> E \<Longrightarrow> num a < num b \<Longrightarrow> (a, b) \<in> tree\<^sup>*"
    and interval: "(a, c) \<in> tree\<^sup>* \<Longrightarrow> b \<in> V \<Longrightarrow> num a \<le> num b \<Longrightarrow> num b \<le> num c \<Longrightarrow> (a, b) \<in> tree\<^sup>*"
begin

lemma anc_num: "(a, b) \<in> tree\<^sup>* \<Longrightarrow> num a \<le> num b"
  by (induction rule: rtrancl_induct) (auto dest: tree_edge intro: le_trans less_imp_le)

lemma anc_in: "(a, b) \<in> tree\<^sup>* \<Longrightarrow> a \<in> V \<longleftrightarrow> b \<in> V"
  by (induction rule: rtrancl_induct) (auto dest: tree_edge)

lemma anc_less: "(a, b) \<in> tree\<^sup>* \<Longrightarrow> a \<noteq> b \<Longrightarrow> num a < num b"
  by (metis anc_num rtranclE tree_edge le_less_trans)

lemma anc_in_V: "(a, b) \<in> tree\<^sup>* \<Longrightarrow> b \<in> V \<Longrightarrow> a \<in> V"
  by (simp add: anc_in)

lemma anc_chain: "(a, c) \<in> tree\<^sup>* \<Longrightarrow> (b, c) \<in> tree\<^sup>* \<Longrightarrow> c \<in> V \<Longrightarrow> num a \<le> num b \<Longrightarrow> (a, b) \<in> tree\<^sup>*"
  by (rule interval [of a c b]) (simp_all add: anc_num anc_in_V [of b c])

lemma num_eq: "a \<in> V \<Longrightarrow> b \<in> V \<Longrightarrow> num a = num b \<longleftrightarrow> a = b"
  using inj by (auto dest: inj_onD)

lemma reach_V: "x \<in> V \<Longrightarrow> (x, y) \<in> E\<^sup>* \<Longrightarrow> y \<in> V"
proof -
  assume "(x, y) \<in> E\<^sup>*" "x \<in> V"
  then show ?thesis by (induction rule: rtrancl_induct) (auto intro: closed)
qed

lemma walk_V: "walks E x xs y \<Longrightarrow> x \<in> V \<Longrightarrow> set xs \<subseteq> V"
  by (metis subsetI walks_reach reach_V)

lemma tree_walk: "(a, b) \<in> tree\<^sup>* \<Longrightarrow> \<exists>xs. walks E a xs b \<and> (\<forall>z \<in> set xs. (a, z) \<in> tree\<^sup>* \<and> (z, b) \<in> tree\<^sup>*)"
proof (induction rule: converse_rtrancl_induct)
  case base show ?case by (rule exI [of _ "[b]"]) simp
next
  case (step x y)
  then obtain ys where ys: "walks E y ys b" "\<forall>z \<in> set ys. (y, z) \<in> tree\<^sup>* \<and> (z, b) \<in> tree\<^sup>*" by blast
  have "walks E x (x # ys) b" using ys(1) tree_edge [OF step(1)] by (cases ys) (auto simp: walks_Cons walks_def)
  moreover have "\<forall>z \<in> set (x # ys). (x, z) \<in> tree\<^sup>* \<and> (z, b) \<in> tree\<^sup>*"
    using ys(2) step(1,2) by (auto intro: converse_rtrancl_into_rtrancl)
  ultimately show ?case by blast
qed

text \<open>A path that never goes below the number of its first node stays in the subtree of that node.\<close>

lemma stays_below:
  assumes "walks E x xs y" "(a, x) \<in> tree\<^sup>*" "x \<in> V" "\<forall>z \<in> set xs. num a \<le> num z" "z \<in> set xs"
  shows "(a, z) \<in> tree\<^sup>*"
  using assms
proof (induction xs arbitrary: x)
  case (Cons u xs)
  show ?case
  proof (cases xs)
    case Nil
    then show ?thesis using Cons.prems by auto
  next
    case (Cons v vs)
    then have w: "u = x" "(x, v) \<in> E" "walks E v xs y" using Cons.prems(1) by (auto simp: walks_Cons)
    have v: "v \<in> V" using closed w(2) Cons.prems(3) by blast
    have "(a, v) \<in> tree\<^sup>*"
    proof (cases "num x < num v")
      case True
      then show ?thesis using forward [OF Cons.prems(3) w(2)] Cons.prems(2) by (meson rtrancl_trans)
    next
      case False
      then show ?thesis using interval [OF Cons.prems(2) v] Cons.prems(4) Cons by simp
    qed
    then show ?thesis using Cons.IH [OF w(3) _ v] Cons.prems(2,4,5) w(1) by auto
  qed
qed simp

lemma dom_anc: "dom_of E r a w \<Longrightarrow> w \<in> V \<Longrightarrow> (a, w) \<in> tree\<^sup>*"
  using tree_walk [OF spans] unfolding dom_of_def by blast

text \<open>Dominance is inherited by the tree nodes in between.\<close>

lemma dom_between:
  assumes "dom_of E r a w" "(a, d) \<in> tree\<^sup>*" "(d, w) \<in> tree\<^sup>*" "w \<in> V"
  shows "dom_of E r a d"
  unfolding dom_of_def
proof (intro allI impI)
  fix xs assume xs: "walks E r xs d"
  obtain ys where ys: "walks E d ys w" "\<forall>z \<in> set ys. (d, z) \<in> tree\<^sup>*" using tree_walk [OF assms(3)] by blast
  obtain zs where zs: "walks E r zs w" "set zs = set xs \<union> set ys" using walks_join [OF xs ys(1)] by blast
  then have "a \<in> set xs \<union> set ys" using assms(1) by (auto simp: dom_of_def)
  moreover have "a = d" if "a \<in> set ys" 
    using ys(2) that anc_less [OF assms(2)] anc_num [of d a] by force
  ultimately show "a \<in> set xs" using walks_ends [OF xs] by auto
qed

lemma parent_semi: "(p, w) \<in> tree \<Longrightarrow> semi_path E num p w"
  unfolding semi_path_def by (rule exI [of _ "[]"]) (auto simp: walks_Cons dest: tree_edge)

lemma semi_anc:
  assumes "semi_path E num v w" "v \<in> V" "num v < num w"
  shows "(v, w) \<in> tree\<^sup>*"
proof -
  obtain xs where xs: "walks E v (v # xs @ [w]) w" "\<forall>z \<in> set xs. num w < num z" using assms(1) by (auto simp: semi_path_def)
  have "\<forall>z \<in> set (v # xs @ [w]). num v \<le> num z" using xs(2) assms(3) by fastforce
  from stays_below [OF xs(1) _ assms(2) this] show ?thesis by simp
qed

lemma is_semi_proper:
  assumes "is_semi E V num d w" "w \<in> V" "w \<noteq> r"
  shows "(d, w) \<in> tree\<^sup>*" "num d < num w" "d \<noteq> w"
proof -
  obtain p where p: "(p, w) \<in> tree" using spans [OF assms(2)] assms(3) by (metis rtranclE)
  have "num d \<le> num p" using assms(1) parent_semi [OF p] tree_edge [OF p] by (auto simp: is_semi_def)
  then show d: "num d < num w" using tree_edge [OF p] by simp
  then show "(d, w) \<in> tree\<^sup>*" "d \<noteq> w" using semi_anc assms(1) by (auto simp: is_semi_def)
qed

text \<open>Every strict dominator is at or above the semidominator.\<close>

lemma dom_above_semi:
  assumes "is_semi E V num d w" "w \<in> V" "w \<noteq> r" "dom_of E r a w" "a \<noteq> w"
  shows "(a, d) \<in> tree\<^sup>*"
proof -
  note d = is_semi_proper [OF assms(1-3)]
  obtain xs where xs: "walks E d (d # xs @ [w]) w" "\<forall>z \<in> set xs. num w < num z"
    using assms(1) by (auto simp: is_semi_def semi_path_def)
  obtain ys where ys: "walks E r ys d" "\<forall>z \<in> set ys. (z, d) \<in> tree\<^sup>*"
    using tree_walk [OF spans] assms(1) by (fastforce simp: is_semi_def)
  obtain zs where "walks E r zs w" "set zs = set ys \<union> set (d # xs @ [w])" using walks_join [OF ys(1) xs(1)] by blast
  then have "a \<in> set ys \<union> set (d # xs @ [w])" using assms(4) by (auto simp: dom_of_def)
  moreover have "a \<notin> set xs"
    using anc_num [OF dom_anc [OF assms(4,2)]] xs(2) by force
  ultimately show ?thesis using ys(2) assms(5) by auto
qed

text \<open>A path to \<open>w\<close> around a tree ancestor \<open>e\<close> enters the tree path below \<open>e\<close> from a node above \<open>e\<close>.\<close>

lemma around:
  assumes "walks E r xs w" "e \<notin> set xs" "(e, w) \<in> tree\<^sup>*" "w \<in> V"
  obtains x y where "(e, y) \<in> tree\<^sup>*" "y \<noteq> e" "(y, w) \<in> tree\<^sup>*" "x \<in> V" "semi_path E num x y" "num x < num e" "\<not> dom_of E r e y"
proof -
  have eV: "e \<in> V" using anc_in_V assms(3,4) by blast
  have V: "set xs \<subseteq> V" using walk_V [OF assms(1) root] .
  have "r \<in> set xs" using walks_ends [OF assms(1)] by simp
  moreover have "num r < num e" using anc_less [OF spans [OF eV]] assms(2) calculation by auto
  ultimately obtain us x ts where x: "xs = us @ x # ts" "num x < num e" "\<forall>t \<in> set ts. \<not> num t < num e"
    using split_list_last_prop [of xs "\<lambda>z. num z < num e"] by auto
  have "w = last xs" using assms(1) by (simp add: walks_def)
  moreover have "\<not> num w < num e" using anc_num [OF assms(3)] by simp
  ultimately have "w \<in> set ts" using x by (cases ts rule: rev_cases) auto
  then obtain as y bs where y: "ts = as @ y # bs" "(y, w) \<in> tree\<^sup>*" "\<forall>a \<in> set as. (a, w) \<notin> tree\<^sup>*"
    using split_list_first_prop [of ts "\<lambda>t. (t, w) \<in> tree\<^sup>*"] by auto
  have ey: "(e, y) \<in> tree\<^sup>*" using anc_chain [OF assms(3) y(2) assms(4)] x(3) y(1) by simp
  have ne: "y \<noteq> e" using assms(2) x(1) y(1) by auto
  have full: "walks E r ((us @ x # as) @ [y]) y" using walks_split [of E r "us @ x # as" y bs w] assms(1) x(1) y(1) by simp
  then have step: "walks E x (x # as @ [y]) y" using walks_split [of E r us x "as @ [y]" y] by simp
  have low: "\<forall>z \<in> set as. num y < num z"
  proof -
    obtain ps z qs where z: "as @ [y] = ps @ z # qs" "\<forall>u \<in> set ps. num z < num u" "\<forall>v \<in> set qs. num z \<le> num v"
      using first_min [of "as @ [y]" num] by auto
    have "walks E z (z # qs) y" using walks_split [of E x "x # ps" z qs y] step z(1) by simp
    moreover have "z \<in> V" using V x(1) y(1) z(1) by (metis UnCI append_Cons append_assoc in_mono in_set_conv_decomp append_Nil set_append list.set_intros)
    ultimately have "(z, y) \<in> tree\<^sup>*" using stays_below [of z "z # qs" y z y] z(3) walks_ends [of E z "z # qs" y] by auto
    then have "(z, w) \<in> tree\<^sup>*" using y(2) by (rule rtrancl_trans)
    then have "z \<notin> set as" using y(3) by auto
    then have "qs = []" using z(1) by (cases qs rule: rev_cases) auto
    then show ?thesis using z by auto
  qed
  have "semi_path E num x y" using step low by (auto simp: semi_path_def)
  moreover have "\<not> dom_of E r e y" using full assms(2) ne x(1) y(1) unfolding dom_of_def by (intro notI) (drule spec, drule mp, assumption, auto)
  moreover have "x \<in> V" using V x(1) by auto
  ultimately show ?thesis using that ey ne y(2) x(2) by blast
qed

text \<open>If no node below the semidominator has a lower one, the semidominator is the immediate dominator.\<close>

theorem semi_is_idom:
  assumes "is_semi E V num d w" "w \<in> V" "w \<noteq> r"
    and "\<And>u s. (d, u) \<in> tree\<^sup>* \<Longrightarrow> u \<noteq> d \<Longrightarrow> (u, w) \<in> tree\<^sup>* \<Longrightarrow> is_semi E V num s u \<Longrightarrow> num d \<le> num s"
    and semi: "\<And>u. u \<in> V \<Longrightarrow> u \<noteq> r \<Longrightarrow> \<exists>s. is_semi E V num s u"
  shows "idom_of E r d w"
proof -
  note d = is_semi_proper [OF assms(1-3)]
  have "dom_of E r d w" unfolding dom_of_def
  proof (intro allI impI, rule ccontr)
    fix xs assume "walks E r xs w" "d \<notin> set xs"
    from around [OF this d(1) assms(2)] obtain x y where xy: "(d, y) \<in> tree\<^sup>*" "y \<noteq> d" "(y, w) \<in> tree\<^sup>*" "x \<in> V"
      "semi_path E num x y" "num x < num d" by metis
    have "y \<in> V" using anc_in_V xy(3) assms(2) by blast
    moreover have "y \<noteq> r" using anc_less [OF xy(1)] anc_num [OF spans] xy(2) assms(1) by (force simp: is_semi_def)
    ultimately obtain s where s: "is_semi E V num s y" using semi by blast
    then have "num s \<le> num x" using xy(4,5) by (simp add: is_semi_def)
    then show False using assms(4) [OF xy(1-3) s] xy(6) by simp
  qed
  moreover have "dom_of E r a d" if "a \<noteq> w" "dom_of E r a w" for a
    using dom_between [OF that(2) dom_above_semi [OF assms(1-3) that(2,1)] d(1) assms(2)] .
  ultimately show ?thesis using d(3) by (auto simp: idom_of_def)
qed

text \<open>Otherwise a node between them with the lowest semidominator has the same immediate dominator.\<close>

theorem same_idom:
  assumes "is_semi E V num d w" "w \<in> V" "w \<noteq> r" "(d, u) \<in> tree\<^sup>*" "u \<noteq> d" "(u, w) \<in> tree\<^sup>*"
    and u: "is_semi E V num t u" "num t < num d" "idom_of E r e u"
    and "\<And>y s. (d, y) \<in> tree\<^sup>* \<Longrightarrow> y \<noteq> d \<Longrightarrow> (y, w) \<in> tree\<^sup>* \<Longrightarrow> is_semi E V num s y \<Longrightarrow> num t \<le> num s"
    and semi: "\<And>u. u \<in> V \<Longrightarrow> u \<noteq> r \<Longrightarrow> \<exists>s. is_semi E V num s u"
  shows "idom_of E r e w"
proof -
  note d = is_semi_proper [OF assms(1-3)]
  have uV: "u \<in> V" using anc_in_V assms(2,6) by blast
  have ur: "u \<noteq> r" using anc_less [OF assms(4)] anc_num [OF spans] assms(1,5) by (force simp: is_semi_def)
  have e: "e \<noteq> u" "dom_of E r e u" "\<And>a. a \<noteq> u \<Longrightarrow> dom_of E r a u \<Longrightarrow> dom_of E r a e" using u(3) by (auto simp: idom_of_def)
  have et: "(e, t) \<in> tree\<^sup>*" using dom_above_semi [OF u(1) uV ur e(2,1)] .
  have eu: "(e, u) \<in> tree\<^sup>*" using dom_anc [OF e(2) uV] .
  have ew: "(e, w) \<in> tree\<^sup>*" using eu assms(6) by (rule rtrancl_trans)
  have ed: "num e < num d" using anc_num [OF et] u(2) by simp
  have "dom_of E r e w" unfolding dom_of_def
  proof (intro allI impI, rule ccontr)
    fix xs assume "walks E r xs w" "e \<notin> set xs"
    from around [OF this ew assms(2)] obtain x y where xy: "(e, y) \<in> tree\<^sup>*" "y \<noteq> e" "(y, w) \<in> tree\<^sup>*" "x \<in> V"
      "semi_path E num x y" "num x < num e" "\<not> dom_of E r e y" by metis
    have yV: "y \<in> V" using anc_in_V xy(3) assms(2) by blast
    have "y \<noteq> r" using anc_less [OF xy(1)] anc_num [OF spans [OF anc_in_V [OF eu uV]]] xy(2) by force
    then obtain s where s: "is_semi E V num s y" using semi yV by blast
    then have "num s < num t" using xy(4,5,6) anc_num [OF et] by (force simp: is_semi_def)
    then have "\<not> ((d, y) \<in> tree\<^sup>* \<and> y \<noteq> d)" using assms(10) [OF _ _ xy(3) s] by force
    then have "(y, d) \<in> tree\<^sup>*" using anc_chain [OF d(1) xy(3) assms(2)] anc_chain [OF xy(3) d(1) assms(2)] by (metis nat_le_linear rtrancl.rtrancl_refl)
    then have "(y, u) \<in> tree\<^sup>*" using assms(4) by (rule rtrancl_trans)
    then show False using dom_between [OF e(2) xy(1) _ uV] xy(7) by blast
  qed
  moreover have "dom_of E r a e" if "a \<noteq> w" "dom_of E r a w" for a
  proof -
    have ad: "(a, d) \<in> tree\<^sup>*" using dom_above_semi [OF assms(1-3) that(2,1)] .
    then have au: "(a, u) \<in> tree\<^sup>*" using assms(4) by (rule rtrancl_trans)
    have "a \<noteq> u" using anc_num [OF ad] anc_less [OF assms(4)] assms(5) by force
    then show ?thesis using e(3) dom_between [OF that(2) au assms(6,2)] by blast
  qed
  ultimately show ?thesis using ed anc_num [OF d(1)] by (auto simp: idom_of_def)
qed

text \<open>The candidates for the semidominator of \<open>w\<close>, once those of all higher nodes are known.\<close>

lemma candidate_edge: "(v, w) \<in> E \<Longrightarrow> semi_path E num v w"
  unfolding semi_path_def by (rule exI [of _ "[]"]) (simp add: walks_Cons)

lemma candidate_up:
  assumes "(v, w) \<in> E" "(u, v) \<in> tree\<^sup>*" "num w < num u" "semi_path E num s u"
  shows "semi_path E num s w"
proof -
  obtain xs where xs: "walks E s (s # xs @ [u]) u" "\<forall>z \<in> set xs. num u < num z" using assms(4) by (auto simp: semi_path_def)
  obtain ys where ys: "walks E u ys v" "\<forall>z \<in> set ys. (u, z) \<in> tree\<^sup>*" using tree_walk [OF assms(2)] by blast
  obtain zs where zs: "ys = u # zs" using ys(1) by (cases ys) (auto simp: walks_def)
  have "walks E s ((s # xs) @ u # zs) v" using walks_append [of E s "s # xs" u zs v] xs(1) ys(1) zs by simp
  then have "walks E s (s # (xs @ u # zs) @ [w]) w" using walks_snoc [OF _ assms(1)] by fastforce
  moreover have "num w < num z" if "z \<in> set (xs @ u # zs)" for z
    using that xs(2) ys(2) zs assms(3) anc_num [of u z] by force
  ultimately show ?thesis unfolding semi_path_def by blast
qed

lemma candidate_complete:
  assumes "semi_path E num v w" "v \<in> V" "w \<in> V" "num v < num w"
  shows "(v, w) \<in> E \<or> (\<exists>u x. (x, w) \<in> E \<and> x \<in> V \<and> (u, x) \<in> tree\<^sup>* \<and> num w < num u \<and> semi_path E num v u)"
proof -
  obtain xs where xs: "walks E v (v # xs @ [w]) w" "\<forall>z \<in> set xs. num w < num z" using assms(1) by (auto simp: semi_path_def)
  show ?thesis
  proof (cases "xs = []")
    case True
    then show ?thesis using xs(1) by (simp add: walks_Cons)
  next
    case False
    obtain us z vs where z: "xs = us @ z # vs" "\<forall>u \<in> set us. num z < num u" "\<forall>x \<in> set vs. num z \<le> num x"
      using first_min [OF False, of num] by auto
    let ?x = "last (z # vs)"
    have a: "walks E v ((v # us) @ [z]) z" "walks E z (z # vs @ [w]) w"
      using walks_split [of E v "v # us" z "vs @ [w]" w] xs(1) z(1) by simp_all
    have zv: "z # vs @ [w] = butlast (z # vs) @ ?x # [w]" by (metis append_Cons append_butlast_last_id append_assoc append_Nil list.distinct(1))
    have b: "walks E z (z # vs) ?x" "(?x, w) \<in> E"
      using walks_split [of E z "butlast (z # vs)" ?x "[w]" w] a(2) zv by (simp_all add: walks_Cons)
    have zV: "z \<in> V" using walk_V [OF a(1) assms(2)] by simp
    have "(z, ?x) \<in> tree\<^sup>*" using stays_below [OF b(1) _ zV, of z ?x] z(3) by simp
    moreover have "?x \<in> V" using walk_V [OF b(1) zV] walks_ends [OF b(1)] by blast
    moreover have "semi_path E num v z" using a(1) z(2) by (auto simp: semi_path_def)
    moreover have "num w < num z" using xs(2) z(1) by simp
    ultimately show ?thesis using b(2) by blast
  qed
qed

lemma semi_exists: "w \<in> V \<Longrightarrow> w \<noteq> r \<Longrightarrow> \<exists>s. is_semi E V num s w"
proof -
  assume w: "w \<in> V" "w \<noteq> r"
  then obtain p where p: "(p, w) \<in> tree" using spans [OF w(1)] by (metis rtranclE)
  let ?P = "\<lambda>v. v \<in> V \<and> semi_path E num v w"
  have "?P p" using parent_semi [OF p] tree_edge [OF p] by simp
  then have "?P (arg_min num ?P)" "\<forall>v. ?P v \<longrightarrow> num (arg_min num ?P) \<le> num v"
    using arg_min_nat_lemma [of ?P p num] by auto
  then show ?thesis by (auto simp: is_semi_def)
qed

lemma is_semi_unique: "is_semi E V num s w \<Longrightarrow> is_semi E V num t w \<Longrightarrow> s = t"
  unfolding is_semi_def by (metis le_antisym num_eq)

end

end
