(* ===== verification/Scg_Dominance.thy ===== *)
theory Scg_Dominance
  imports Scg_Order Dominators "HOL-Library.Monad_Syntax"
begin

text \<open>
  Dominance analysis on the SCG (\<^verbatim>\<open>scg/src/dominance.rs\<close>): the Lengauer-Tarjan algorithm, once along the edges and once
  against them, and the queries on the tree it builds. The two copies of the algorithm in the source differ only
  in the direction of the edges, which is a parameter here. A missing key of an indexed map and an index
  out of range are panics, that is \<open>None\<close>; so is a walk that does not end.
\<close>

section \<open>The dominator tree\<close>

record DominatorTree =
  dt_entry :: NodeId
  dt_idom :: "(NodeId, NodeId) hmap"
  dt_depth :: "(NodeId, u32) hmap"
  dt_nodes :: "NodeId set"

definition idom :: "DominatorTree \<Rightarrow> NodeId \<Rightarrow> NodeId option" where
  "idom t node = hm_get (dt_idom t) node"

definition depth :: "DominatorTree \<Rightarrow> NodeId \<Rightarrow> u32 option" where
  "depth t node = hm_get (dt_depth t) node"

definition children :: "DominatorTree \<Rightarrow> NodeId \<Rightarrow> NodeId list" where
  "children t node = List.map_filter (\<lambda>(child, parent). if parent = node then Some child else None) (dt_idom t)"

partial_function (option) dominates_walk :: "DominatorTree \<Rightarrow> NodeId \<Rightarrow> NodeId \<Rightarrow> bool option" where
  "dominates_walk t a current =
     (case idom t current of
        None \<Rightarrow> Some False
      | Some parent \<Rightarrow> if parent = a then Some True else dominates_walk t a parent)"

definition dominates :: "DominatorTree \<Rightarrow> NodeId \<Rightarrow> NodeId \<Rightarrow> bool option" where
  "dominates t a b =
     (if a = b then Some True
      else if a \<notin> dt_nodes t \<or> b \<notin> dt_nodes t then Some False
      else dominates_walk t a b)"

definition strictly_dominates :: "DominatorTree \<Rightarrow> NodeId \<Rightarrow> NodeId \<Rightarrow> bool option" where
  "strictly_dominates t a b = (if a \<noteq> b then dominates t a b else Some False)"

section \<open>The Lengauer-Tarjan algorithm\<close>

record LengauerTarjan =
  lt_dfs_num :: "(NodeId, u32) hmap"
  lt_vertex :: "NodeId list"
  lt_parent :: "(NodeId, NodeId) hmap"
  lt_semi :: "(NodeId, u32) hmap"
  lt_label :: "(NodeId, NodeId) hmap"
  lt_ancestor :: "(NodeId, NodeId option) hmap"
  lt_bucket :: "(u32, NodeId list) hmap"
  lt_idom :: "(NodeId, NodeId) hmap"
  lt_n :: u32

definition lt_new :: LengauerTarjan where
  "lt_new = \<lparr>lt_dfs_num = [], lt_vertex = [0], lt_parent = [], lt_semi = [], lt_label = [], lt_ancestor = [],
     lt_bucket = [], lt_idom = [], lt_n = 0\<rparr>"

text \<open>The edges the search follows, and the ones it looks back along.\<close>

fun flow :: "SCG \<Rightarrow> Direction \<Rightarrow> NodeId \<Rightarrow> NodeId list option" where
  "flow s Outgoing = successors s"
| "flow s Incoming = predecessors s"

fun against :: "Direction \<Rightarrow> Direction" where
  "against Outgoing = Incoming"
| "against Incoming = Outgoing"

definition number_node :: "NodeId \<Rightarrow> NodeId option \<Rightarrow> LengauerTarjan \<Rightarrow> LengauerTarjan" where
  "number_node node parent lt =
     (let dfs_number = lt_n lt + 1 in
      lt\<lparr>lt_n := dfs_number, lt_dfs_num := hm_insert node dfs_number (lt_dfs_num lt), lt_vertex := lt_vertex lt @ [node],
         lt_semi := hm_insert node dfs_number (lt_semi lt), lt_label := hm_insert node node (lt_label lt),
         lt_ancestor := hm_insert node None (lt_ancestor lt),
         lt_parent := (case parent of Some p \<Rightarrow> hm_insert node p (lt_parent lt) | None \<Rightarrow> lt_parent lt)\<rparr>)"

definition push_next :: "NodeId \<Rightarrow> NodeId set \<Rightarrow> NodeId list option \<Rightarrow> (NodeId \<times> NodeId option) list \<Rightarrow> (NodeId \<times> NodeId option) list" where
  "push_next node seen next stack =
     (case next of
        None \<Rightarrow> stack
      | Some succs \<Rightarrow> fold (\<lambda>succ st. if succ \<notin> seen then (succ, Some node) # st else st) (rev succs) stack)"

lemma flow_None: "node \<notin> set (hm_keys (node_id_to_index s)) \<Longrightarrow> flow s dir node = None"
  by (cases dir) (simp_all add: successors_def predecessors_def map_of_eq_None_iff image_comp)

text \<open>The loop of the search. A node that is not in the graph has no successors, so the search ends.\<close>

function dfs_loop :: "SCG \<Rightarrow> Direction \<Rightarrow> (NodeId \<times> NodeId option) list \<Rightarrow> NodeId set \<Rightarrow> LengauerTarjan \<Rightarrow> LengauerTarjan" where
  "dfs_loop s dir [] seen lt = lt"
| "dfs_loop s dir ((node, parent) # stack) seen lt =
     (if node \<in> seen then dfs_loop s dir stack seen lt
      else let seen' = insert node seen
           in dfs_loop s dir (push_next node seen' (flow s dir node) stack) seen' (number_node node parent lt))"
  by pat_completeness auto

termination
proof (relation "(\<lambda>(s, dir, stack, seen, lt). card (set (hm_keys (node_id_to_index s)) - seen)) <*mlex*> measure (\<lambda>(s, dir, stack, seen, lt). length stack)")
  fix s :: SCG and dir node parent stack lt and seen :: "NodeId set" and seen' :: "NodeId set"
  assume new: "node \<notin> seen" "seen' = insert node seen"
  let ?R = "(\<lambda>(s, dir, stack, seen, lt). card (set (hm_keys (node_id_to_index s)) - seen)) <*mlex*> measure (\<lambda>(s, dir, stack, seen, lt). length stack)"
  let ?K = "set (hm_keys (node_id_to_index s))"
  show "((s, dir, push_next node seen' (flow s dir node) stack, seen', number_node node parent lt), s, dir, (node, parent) # stack, seen, lt) \<in> ?R"
  proof (cases "node \<in> ?K")
    case True
    then have "?K - seen' \<subset> ?K - seen" using new by auto
    then have "card (?K - seen') < card (?K - seen)" by (rule psubset_card_mono [rotated]) simp
    then show ?thesis by (auto simp: mlex_prod_def)
  next
    case False
    then have "?K - seen' = ?K - seen" using new by auto
    then show ?thesis by (auto simp: flow_None [OF False] push_next_def intro: mlex_leq)
  qed
qed (auto simp: wf_mlex intro: mlex_leq)

definition lt_dfs :: "SCG \<Rightarrow> Direction \<Rightarrow> NodeId \<Rightarrow> LengauerTarjan \<Rightarrow> LengauerTarjan" where
  "lt_dfs s dir entry lt = dfs_loop s dir [(entry, None)] {} lt"

definition linked_to :: "LengauerTarjan \<Rightarrow> NodeId \<Rightarrow> NodeId option" where
  "linked_to lt v = Option.bind (hm_get (lt_ancestor lt) v) (\<lambda>a. a)"

partial_function (option) compress :: "NodeId \<Rightarrow> LengauerTarjan \<Rightarrow> LengauerTarjan option" where
  "compress v lt =
     (case linked_to lt v of
        None \<Rightarrow> Some lt
      | Some ancestor_v \<Rightarrow>
          (case linked_to lt ancestor_v of
             None \<Rightarrow> Some lt
           | Some ancestor_of_ancestor \<Rightarrow> do {
               lt1 \<leftarrow> compress ancestor_v lt;
               label_ancestor \<leftarrow> hm_get (lt_label lt1) ancestor_v;
               label_v \<leftarrow> hm_get (lt_label lt1) v;
               semi_label_ancestor \<leftarrow> hm_get (lt_semi lt1) label_ancestor;
               semi_label_v \<leftarrow> hm_get (lt_semi lt1) label_v;
               let lt2 = (if semi_label_ancestor < semi_label_v
                          then lt1\<lparr>lt_label := hm_insert v label_ancestor (lt_label lt1)\<rparr> else lt1);
               Some (lt2\<lparr>lt_ancestor := hm_insert v (Some ancestor_of_ancestor) (lt_ancestor lt2)\<rparr>) }))"

definition eval_label :: "NodeId \<Rightarrow> LengauerTarjan \<Rightarrow> (LengauerTarjan \<times> NodeId) option" where
  "eval_label v lt =
     (case linked_to lt v of
        None \<Rightarrow> map_option (\<lambda>l. (lt, l)) (hm_get (lt_label lt) v)
      | Some _ \<Rightarrow> do { lt1 \<leftarrow> compress v lt; l \<leftarrow> hm_get (lt_label lt1) v; Some (lt1, l) })"

definition link :: "NodeId \<Rightarrow> NodeId \<Rightarrow> LengauerTarjan \<Rightarrow> LengauerTarjan" where
  "link v w lt = lt\<lparr>lt_ancestor := hm_insert v (Some w) (lt_ancestor lt)\<rparr>"

text \<open>Step 2: the semidominator of \<open>w\<close> from the nodes with an edge to it.\<close>

fun lower_semi :: "NodeId \<Rightarrow> NodeId list \<Rightarrow> LengauerTarjan \<Rightarrow> LengauerTarjan option" where
  "lower_semi w [] lt = Some lt"
| "lower_semi w (v # preds) lt =
     (if hm_get (lt_dfs_num lt) v = None then lower_semi w preds lt
      else do {
        (lt1, u) \<leftarrow> eval_label v lt;
        semi_u \<leftarrow> hm_get (lt_semi lt1) u;
        semi_w \<leftarrow> hm_get (lt_semi lt1) w;
        lower_semi w preds (if semi_u < semi_w then lt1\<lparr>lt_semi := hm_insert w semi_u (lt_semi lt1)\<rparr> else lt1) })"

definition push_bucket :: "u32 \<Rightarrow> NodeId \<Rightarrow> LengauerTarjan \<Rightarrow> LengauerTarjan" where
  "push_bucket k w lt = lt\<lparr>lt_bucket := hm_insert k ((case hm_get (lt_bucket lt) k of Some items \<Rightarrow> items | None \<Rightarrow> []) @ [w]) (lt_bucket lt)\<rparr>"

text \<open>Step 3: the nodes of the bucket of \<open>parent\<close>.\<close>

fun empty_bucket :: "NodeId \<Rightarrow> NodeId list \<Rightarrow> LengauerTarjan \<Rightarrow> LengauerTarjan option" where
  "empty_bucket parent [] lt = Some lt"
| "empty_bucket parent (v # items) lt = do {
     (lt1, u) \<leftarrow> eval_label v lt;
     semi_u \<leftarrow> hm_get (lt_semi lt1) u;
     semi_v \<leftarrow> hm_get (lt_semi lt1) v;
     empty_bucket parent items (lt1\<lparr>lt_idom := hm_insert v (if semi_u < semi_v then u else parent) (lt_idom lt1)\<rparr>) }"

definition lt_step :: "SCG \<Rightarrow> Direction \<Rightarrow> nat \<Rightarrow> LengauerTarjan \<Rightarrow> LengauerTarjan option" where
  "lt_step s dir i lt = do {
     w \<leftarrow> at (lt_vertex lt) i;
     lt1 \<leftarrow> (case flow s (against dir) w of Some preds \<Rightarrow> lower_semi w preds lt | None \<Rightarrow> Some lt);
     semi_w \<leftarrow> hm_get (lt_semi lt1) w;
     let lt2 = push_bucket semi_w w lt1;
     case hm_get (lt_parent lt2) w of
       None \<Rightarrow> Some lt2
     | Some parent \<Rightarrow> do {
         let lt3 = link w parent lt2;
         dfs_parent \<leftarrow> hm_get (lt_dfs_num lt3) parent;
         let bucket_items = (case hm_get (lt_bucket lt3) dfs_parent of Some items \<Rightarrow> items | None \<Rightarrow> []);
         empty_bucket parent bucket_items (lt3\<lparr>lt_bucket := hm_remove dfs_parent (lt_bucket lt3)\<rparr>) } }"

fun lt_steps :: "SCG \<Rightarrow> Direction \<Rightarrow> nat list \<Rightarrow> LengauerTarjan \<Rightarrow> LengauerTarjan option" where
  "lt_steps s dir [] lt = Some lt"
| "lt_steps s dir (i # is) lt = do { lt1 \<leftarrow> lt_step s dir i lt; lt_steps s dir is lt1 }"

text \<open>Step 4, in the order of the numbers.\<close>

fun finalize_idoms :: "nat list \<Rightarrow> LengauerTarjan \<Rightarrow> LengauerTarjan option" where
  "finalize_idoms [] lt = Some lt"
| "finalize_idoms (i # is) lt = do {
     w \<leftarrow> at (lt_vertex lt) i;
     case hm_get (lt_idom lt) w of
       None \<Rightarrow> finalize_idoms is lt
     | Some idom_w \<Rightarrow> do {
         semi_w \<leftarrow> hm_get (lt_semi lt) w;
         finalize_idoms is
           (if hm_get (lt_dfs_num lt) idom_w \<noteq> Some semi_w
            then (case hm_get (lt_idom lt) idom_w of
                    Some final_idom \<Rightarrow> lt\<lparr>lt_idom := hm_insert w final_idom (lt_idom lt)\<rparr>
                  | None \<Rightarrow> lt)
            else lt) } }"

fun tree_depths :: "LengauerTarjan \<Rightarrow> nat list \<Rightarrow> (NodeId, u32) hmap \<Rightarrow> (NodeId, u32) hmap option" where
  "tree_depths lt [] depths = Some depths"
| "tree_depths lt (i # is) depths = do {
     w \<leftarrow> at (lt_vertex lt) i;
     tree_depths lt is
       (case hm_get (lt_idom lt) w of
          Some idom_w \<Rightarrow> hm_insert w ((case hm_get depths idom_w of Some d \<Rightarrow> d | None \<Rightarrow> 0) + 1) depths
        | None \<Rightarrow> depths) }"

definition lt_run :: "SCG \<Rightarrow> Direction \<Rightarrow> NodeId \<Rightarrow> LengauerTarjan \<Rightarrow> DominatorTree option" where
  "lt_run s dir entry lt0 =
     (let lt1 = lt_dfs s dir entry lt0; n = unat (lt_n lt1) in do {
       lt2 \<leftarrow> lt_steps s dir (rev [2..<Suc n]) lt1;
       lt3 \<leftarrow> finalize_idoms [2..<Suc n] lt2;
       vs \<leftarrow> those (map (at (lt_vertex lt3)) [1..<Suc n]);
       depths \<leftarrow> tree_depths lt3 [2..<Suc n] [(entry, 0)];
       Some \<lparr>dt_entry = entry, dt_idom = lt_idom lt3, dt_depth = depths, dt_nodes = set (entry # vs)\<rparr> })"

definition empty_tree :: "NodeId \<Rightarrow> DominatorTree" where
  "empty_tree entry = \<lparr>dt_entry = entry, dt_idom = [], dt_depth = [], dt_nodes = {}\<rparr>"

definition compute_dominators :: "SCG \<Rightarrow> NodeId \<Rightarrow> DominatorTree option" where
  "compute_dominators s entry =
     (if get_node s entry = None then Some (empty_tree entry) else lt_run s Outgoing entry lt_new)"

definition compute_post_dominators :: "SCG \<Rightarrow> NodeId \<Rightarrow> DominatorTree option" where
  "compute_post_dominators s exit =
     (if get_node s exit = None then Some (empty_tree exit) else lt_run s Incoming exit lt_new)"

section \<open>Queries\<close>

definition add_frontier :: "NodeId \<Rightarrow> NodeId \<Rightarrow> (NodeId, NodeId set) hmap \<Rightarrow> (NodeId, NodeId set) hmap" where
  "add_frontier current node df = hm_insert current (insert node (case hm_get df current of Some A \<Rightarrow> A | None \<Rightarrow> {})) df"

partial_function (option) frontier_walk ::
    "DominatorTree \<Rightarrow> NodeId \<Rightarrow> NodeId \<Rightarrow> (NodeId, NodeId set) hmap \<Rightarrow> (NodeId, NodeId set) hmap option" where
  "frontier_walk t node current df =
     (if idom t node = Some current then Some df
      else case idom t current of
        Some parent \<Rightarrow> frontier_walk t node parent (add_frontier current node df)
      | None \<Rightarrow> Some (add_frontier current node df))"

fun frontier_preds :: "DominatorTree \<Rightarrow> NodeId \<Rightarrow> NodeId list \<Rightarrow> (NodeId, NodeId set) hmap \<Rightarrow> (NodeId, NodeId set) hmap option" where
  "frontier_preds t node [] df = Some df"
| "frontier_preds t node (runner # preds) df =
     (if runner \<notin> dt_nodes t then frontier_preds t node preds df
      else do { df1 \<leftarrow> frontier_walk t node runner df; frontier_preds t node preds df1 })"

fun frontier_nodes :: "SCG \<Rightarrow> DominatorTree \<Rightarrow> NodeId list \<Rightarrow> (NodeId, NodeId set) hmap \<Rightarrow> (NodeId, NodeId set) hmap option" where
  "frontier_nodes s t [] df = Some df"
| "frontier_nodes s t (node # rest) df =
     (case predecessors s node of
        Some preds \<Rightarrow>
          if length preds \<ge> 2 then do { df1 \<leftarrow> frontier_preds t node preds df; frontier_nodes s t rest df1 }
          else frontier_nodes s t rest df
      | None \<Rightarrow> frontier_nodes s t rest df)"

text \<open>\<open>iter\<close> is the order in which the hash set of nodes is iterated.\<close>

definition find_dominance_frontier :: "(NodeId set \<Rightarrow> NodeId list) \<Rightarrow> SCG \<Rightarrow> DominatorTree \<Rightarrow> (NodeId, NodeId set) hmap option" where
  "find_dominance_frontier iter s t = frontier_nodes s t (iter (dt_nodes t)) []"

fun climb :: "DominatorTree \<Rightarrow> nat \<Rightarrow> NodeId \<Rightarrow> NodeId option" where
  "climb t 0 v = Some v"
| "climb t (Suc k) v = Option.bind (idom t v) (climb t k)"

partial_function (option) meet_walk :: "DominatorTree \<Rightarrow> NodeId \<Rightarrow> NodeId \<Rightarrow> NodeId option option" where
  "meet_walk t a_curr b_curr =
     (if a_curr = b_curr then Some (Some a_curr)
      else case idom t a_curr of
        None \<Rightarrow> Some None
      | Some a' \<Rightarrow> (case idom t b_curr of None \<Rightarrow> Some None | Some b' \<Rightarrow> meet_walk t a' b'))"

text \<open>The inner option is the result of the function, the outer one that it returns.\<close>

definition nearest_common_dominator :: "DominatorTree \<Rightarrow> NodeId \<Rightarrow> NodeId \<Rightarrow> NodeId option option" where
  "nearest_common_dominator t a b =
     (if a \<notin> dt_nodes t \<or> b \<notin> dt_nodes t then Some None
      else if a = b then Some (Some a)
      else
        (case depth t a of
           None \<Rightarrow> Some None
         | Some a_depth \<Rightarrow>
             (case depth t b of
                None \<Rightarrow> Some None
              | Some b_depth \<Rightarrow>
                  (case (if a_depth > b_depth then climb t (unat (a_depth - b_depth)) a else Some a) of
                     None \<Rightarrow> Some None
                   | Some a_curr \<Rightarrow>
                       (case (if b_depth > a_depth then climb t (unat (b_depth - a_depth)) b else Some b) of
                          None \<Rightarrow> Some None
                        | Some b_curr \<Rightarrow> meet_walk t a_curr b_curr)))))"

partial_function (option) postorder_loop :: "DominatorTree \<Rightarrow> (NodeId \<times> bool) list \<Rightarrow> NodeId list \<Rightarrow> NodeId list option" where
  "postorder_loop t stack result =
     (case stack of
        [] \<Rightarrow> Some result
      | entry # rest \<Rightarrow>
          if snd entry then postorder_loop t rest (result @ [fst entry])
          else postorder_loop t (fold (\<lambda>child st. (child, False) # st) (children t (fst entry)) ((fst entry, True) # rest)) result)"

definition dom_tree_postorder :: "DominatorTree \<Rightarrow> NodeId list option" where
  "dom_tree_postorder t = postorder_loop t [(dt_entry t, False)] []"

partial_function (option) subtree_loop :: "DominatorTree \<Rightarrow> NodeId list \<Rightarrow> NodeId set \<Rightarrow> NodeId set option" where
  "subtree_loop t stack result =
     (case stack of
        [] \<Rightarrow> Some result
      | n # rest \<Rightarrow>
          if n \<in> result then subtree_loop t rest result
          else subtree_loop t (fold (#) (children t n) rest) (insert n result))"

definition dominated_by :: "DominatorTree \<Rightarrow> NodeId \<Rightarrow> NodeId set option" where
  "dominated_by t node = (if node \<notin> dt_nodes t then Some {} else subtree_loop t [node] {})"

partial_function (option) dominators_loop :: "DominatorTree \<Rightarrow> NodeId \<Rightarrow> NodeId set \<Rightarrow> NodeId set option" where
  "dominators_loop t current result =
     (case idom t current of
        Some parent \<Rightarrow> dominators_loop t parent (insert current result)
      | None \<Rightarrow> Some (insert current result))"

definition dominators_of :: "DominatorTree \<Rightarrow> NodeId \<Rightarrow> NodeId set option" where
  "dominators_of t node = (if node \<notin> dt_nodes t then Some {} else dominators_loop t node {})"

definition always_executes_after :: "DominatorTree \<Rightarrow> NodeId \<Rightarrow> NodeId \<Rightarrow> bool option" where
  "always_executes_after post_dom_tree start_node cleanup_node = dominates post_dom_tree cleanup_node start_node"

definition write_precedes_read :: "DominatorTree \<Rightarrow> NodeId \<Rightarrow> NodeId \<Rightarrow> bool option" where
  "write_precedes_read t write_node read_node = strictly_dominates t write_node read_node"

partial_function (option) path_loop :: "DominatorTree \<Rightarrow> NodeId \<Rightarrow> NodeId list \<Rightarrow> NodeId list option" where
  "path_loop t current path =
     (case idom t current of
        Some parent \<Rightarrow> path_loop t parent (path @ [current])
      | None \<Rightarrow> Some (path @ [current]))"

definition guaranteed_execution_path :: "DominatorTree \<Rightarrow> NodeId \<Rightarrow> NodeId list option" where
  "guaranteed_execution_path t target = (if target \<notin> dt_nodes t then Some [] else map_option rev (path_loop t target []))"

end
