(* ===== verification/Scg_Lengauer.thy ===== *)
theory Scg_Lengauer
  imports Scg_Dominance Scg_Validate
begin

text \<open>
  Correctness of the Lengauer-Tarjan algorithm of \<^verbatim>\<open>scg/src/dominance.rs\<close>: the depth-first search yields a numbered spanning tree (an
  interpretation of \<open>dfs_tree\<close>), the link-eval forest answers the minimum over the linked part of a tree path, and the steps
  compute semidominators and then immediate dominators. No map is indexed at a missing key.
\<close>

section \<open>Depth-first search\<close>

definition flow_edges :: "SCG \<Rightarrow> Direction \<Rightarrow> (NodeId \<times> NodeId) set" where
  "flow_edges s dir = {(a, b). \<exists>bs. flow s dir a = Some bs \<and> b \<in> set bs}"

definition dfs_number :: "'a list \<Rightarrow> 'a \<Rightarrow> nat" where
  "dfs_number order x = Suc (length (takeWhile (\<lambda>y. y \<noteq> x) order))"

definition par_rel :: "('a \<times> 'a) list \<Rightarrow> ('a \<times> 'a) set" where
  "par_rel parents = {(p, c). map_of parents c = Some p}"

lemma dfs_number_old [simp]: "x \<in> set order \<Longrightarrow> dfs_number (order @ ys) x = dfs_number order x"
  by (simp add: dfs_number_def takeWhile_append1)

lemma dfs_number_new: "c \<notin> set order \<Longrightarrow> dfs_number (order @ c # ys) c = Suc (length order)"
proof -
  assume "c \<notin> set order"
  then have "takeWhile (\<lambda>y. y \<noteq> c) (order @ c # ys) = order @ takeWhile (\<lambda>y. y \<noteq> c) (c # ys)" by (intro takeWhile_append2) auto
  then show ?thesis by (simp add: dfs_number_def)
qed

lemma dfs_number_absent: "c \<notin> set order \<Longrightarrow> dfs_number order c = Suc (length order)"
  by (induction order) (auto simp: dfs_number_def)

lemma dfs_number_bound: "x \<in> set order \<Longrightarrow> dfs_number order x \<le> length order"
proof (induction order rule: rev_induct)
  case (snoc c order)
  show ?case
  proof (cases "x \<in> set order")
    case True
    then show ?thesis using snoc by simp
  next
    case False
    then show ?thesis using snoc.prems dfs_number_new [of c order "[]"] by simp
  qed
qed simp

lemma dfs_number_nth: "x \<in> set order \<Longrightarrow> order ! (dfs_number order x - 1) = x"
proof -
  assume x: "x \<in> set order"
  then have "length (takeWhile (\<lambda>y. y \<noteq> x) order) < length order" using dfs_number_bound [OF x] by (simp add: dfs_number_def)
  then show ?thesis using nth_length_takeWhile [of "\<lambda>y. y \<noteq> x" order] by (simp add: dfs_number_def)
qed

text \<open>The state of the search: nodes in the order of their numbers, parents, and the stack.\<close>

definition dfs_inv :: "('a \<times> 'a) set \<Rightarrow> 'a \<Rightarrow> 'a list \<Rightarrow> ('a \<times> 'a) list \<Rightarrow> ('a \<times> 'a option) list \<Rightarrow> bool" where
  "dfs_inv E r order parents stack \<longleftrightarrow>
     distinct order \<and> (if order = [] then stack = [(r, None)] \<and> parents = [] else r \<in> set order)
   \<and> (\<forall>p c. (p, c) \<in> par_rel parents \<longrightarrow> (p, c) \<in> E \<and> p \<in> set order \<and> c \<in> set order \<and> dfs_number order p < dfs_number order c)
   \<and> (\<forall>c \<in> set order. (r, c) \<in> (par_rel parents)\<^sup>*)
   \<and> (order \<noteq> [] \<longrightarrow> (\<forall>(x, q) \<in> set stack. \<exists>p \<in> set order. q = Some p \<and> (p, x) \<in> E \<and> (p, last order) \<in> (par_rel parents)\<^sup>*))
   \<and> (\<forall>a \<in> set order. \<forall>b. (a, b) \<in> E \<longrightarrow> b \<in> set order \<or> (b, Some a) \<in> set stack)
   \<and> sorted_wrt (\<lambda>x y. \<forall>p q. snd x = Some p \<longrightarrow> snd y = Some q \<longrightarrow> (q, p) \<in> (par_rel parents)\<^sup>*) stack
   \<and> (\<forall>a \<in> set order. \<forall>b \<in> set order. (a, b) \<in> E \<longrightarrow> dfs_number order a < dfs_number order b \<longrightarrow> (a, b) \<in> (par_rel parents)\<^sup>*)
   \<and> (\<forall>a b c. (a, c) \<in> (par_rel parents)\<^sup>* \<longrightarrow> b \<in> set order \<longrightarrow> c \<in> set order \<longrightarrow>
        dfs_number order a \<le> dfs_number order b \<longrightarrow> dfs_number order b \<le> dfs_number order c \<longrightarrow> (a, b) \<in> (par_rel parents)\<^sup>*)"

lemma dfs_invD:
  assumes "dfs_inv E r order parents stack"
  shows "distinct order" "if order = [] then stack = [(r, None)] \<and> parents = [] else r \<in> set order"
    "(p, c) \<in> par_rel parents \<Longrightarrow> (p, c) \<in> E \<and> p \<in> set order \<and> c \<in> set order \<and> dfs_number order p < dfs_number order c"
    "c \<in> set order \<Longrightarrow> (r, c) \<in> (par_rel parents)\<^sup>*"
    "order \<noteq> [] \<Longrightarrow> (x, q) \<in> set stack \<Longrightarrow> \<exists>p \<in> set order. q = Some p \<and> (p, x) \<in> E \<and> (p, last order) \<in> (par_rel parents)\<^sup>*"
    "a \<in> set order \<Longrightarrow> (a, b) \<in> E \<Longrightarrow> b \<in> set order \<or> (b, Some a) \<in> set stack"
    "sorted_wrt (\<lambda>x y. \<forall>p q. snd x = Some p \<longrightarrow> snd y = Some q \<longrightarrow> (q, p) \<in> (par_rel parents)\<^sup>*) stack"
    "a \<in> set order \<Longrightarrow> b \<in> set order \<Longrightarrow> (a, b) \<in> E \<Longrightarrow> dfs_number order a < dfs_number order b \<Longrightarrow> (a, b) \<in> (par_rel parents)\<^sup>*"
    "(a, c) \<in> (par_rel parents)\<^sup>* \<Longrightarrow> b \<in> set order \<Longrightarrow> c \<in> set order \<Longrightarrow> dfs_number order a \<le> dfs_number order b
      \<Longrightarrow> dfs_number order b \<le> dfs_number order c \<Longrightarrow> (a, b) \<in> (par_rel parents)\<^sup>*"
  using assms unfolding dfs_inv_def by blast+

lemma par_rel_insert:
  assumes "map_of parents c = None"
  shows "par_rel (hm_insert c p parents) = insert (p, c) (par_rel parents)"
  using assms by (auto simp: par_rel_def hm_get_insert split: if_splits)

lemma dfs_inv_start:
  assumes "\<And>b. (r, b) \<in> E \<longleftrightarrow> b \<in> set succs"
  shows "dfs_inv E r [r] [] (map (\<lambda>x. (x, Some r)) (filter (\<lambda>x. x \<noteq> r) succs))"
  using assms by (auto simp: dfs_inv_def par_rel_def sorted_wrt_map)

lemma new_leaf:
  assumes "\<And>y. (c, y) \<notin> T"
  shows "(a, b) \<in> (insert (p, c) T)\<^sup>* \<longleftrightarrow> (a, b) \<in> T\<^sup>* \<or> b = c \<and> (a, p) \<in> T\<^sup>*"
proof -
  have "(c, y) \<in> T\<^sup>* \<longleftrightarrow> y = c" for y using assms by (auto elim: converse_rtranclE)
  then show ?thesis by (auto simp: rtrancl_insert)
qed

text \<open>Visiting the node on top of the stack keeps the invariant.\<close>

lemma dfs_inv_visit:
  assumes J: "dfs_inv E r order parents ((c, q) # stack)" and new: "c \<notin> set order" and ne: "order \<noteq> []"
    and succs: "\<And>b. (c, b) \<in> E \<longleftrightarrow> b \<in> set succs"
  shows "\<exists>p. q = Some p \<and> dfs_inv E r (order @ [c]) (hm_insert c p parents)
    (map (\<lambda>x. (x, Some c)) (filter (\<lambda>x. x \<notin> set (order @ [c])) succs) @ stack)"
proof -
  note D = dfs_invD [OF J]
  from D(5) [OF ne, of c q] obtain p where p: "q = Some p" "p \<in> set order" "(p, c) \<in> E" "(p, last order) \<in> (par_rel parents)\<^sup>*" by auto
  let ?T = "par_rel parents" and ?o = "order @ [c]" and ?n = "dfs_number (order @ [c])"
  let ?stack = "map (\<lambda>x. (x, Some c)) (filter (\<lambda>x. x \<notin> set ?o) succs) @ stack"
  have "map_of parents c = None" using D(3) [of "the (map_of parents c)" c] new by (cases "map_of parents c") (auto simp: par_rel_def)
  then have T': "par_rel (hm_insert c p parents) = insert (p, c) ?T" by (rule par_rel_insert)
  have leaf: "(c, y) \<notin> ?T" for y using D(3) new by blast
  note L = new_leaf [of c ?T _ _ p, OF leaf]
  have old: "?n x = dfs_number order x" if "x \<in> set order" for x using that by simp
  have nc: "?n c = Suc (length order)" using dfs_number_new [OF new, of "[]"] .
  have no_in: "a = c" if "(a, c) \<in> ?T\<^sup>*" for a using that D(3) new by (auto elim: rtranclE)
  have less: "?n x < ?n c" if "x \<in> set order" for x using dfs_number_bound [OF that] old [OF that] nc by simp
  have src: "a \<in> set order" if "(a, b) \<in> ?T\<^sup>*" "b \<in> set order" for a b
    using that by (induction rule: converse_rtrancl_induct) (auto dest: D(3))
  have late: "(a, b) \<in> ?T\<^sup>*" if "(a, p) \<in> ?T\<^sup>*" "b \<in> set order" "?n a \<le> ?n b" for a b
  proof -
    have a: "a \<in> set order" using src that(1) p(2) by blast
    have "dfs_number order b \<le> dfs_number order (last order)"
    proof -
      have "order = butlast order @ [last order]" "last order \<notin> set (butlast order)" using ne D(1) by (simp, metis append_butlast_last_id distinct_append not_distinct_conv_prefix distinct.simps(2) distinct_butlast disjoint_insert(1) list.set(2))
      then have "dfs_number order (last order) = length order" using dfs_number_new [of "last order" "butlast order" "[]"] by (metis Suc_pred' length_butlast length_greater_0_conv ne)
      then show ?thesis using dfs_number_bound [OF that(2)] by simp
    qed
    then show ?thesis using D(9) [of a "last order" b] that p(4) a old ne by (auto intro: rtrancl_trans)
  qed
  let ?below = "\<lambda>T x y. \<forall>p' q. snd x = Some p' \<longrightarrow> snd y = Some q \<longrightarrow> (q, p') \<in> T\<^sup>*"
  have up: "(q', p) \<in> ?T\<^sup>*" if "y \<in> set stack" "snd y = Some q'" for y q' using D(7) that p(1) by fastforce
  have S: "sorted_wrt (?below (insert (p, c) ?T)) ?stack"
  proof -
    have "sorted_wrt (?below ?T) stack" using D(7) by simp
    then have "sorted_wrt (?below (insert (p, c) ?T)) stack" by (rule sorted_wrt_mono_rel [rotated]) (simp add: L)
    moreover have "sorted_wrt (?below (insert (p, c) ?T)) (map (\<lambda>x. (x, Some c)) xs)" for xs by (induction xs) auto
    ultimately show ?thesis using up by (fastforce simp: sorted_wrt_append L)
  qed
  have K: "\<forall>(x, q') \<in> set ?stack. \<exists>p' \<in> set ?o. q' = Some p' \<and> (p', x) \<in> E \<and> (p', last ?o) \<in> (insert (p, c) ?T)\<^sup>*"
  proof -
    have "\<exists>p' \<in> set order. q' = Some p' \<and> (p', x) \<in> E \<and> (p', p) \<in> ?T\<^sup>*" if "(x, q') \<in> set stack" for x q'
      using D(5) [OF ne, of x q'] D(7) that p(1) by fastforce
    then show ?thesis using succs by (fastforce simp: L)
  qed
  have M: "\<forall>a \<in> set ?o. \<forall>b. (a, b) \<in> E \<longrightarrow> b \<in> set ?o \<or> (b, Some a) \<in> set ?stack"
    using D(6) succs by auto
  have F: "(a, b) \<in> (insert (p, c) ?T)\<^sup>*" if "a \<in> set ?o" "b \<in> set ?o" "(a, b) \<in> E" "?n a < ?n b" for a b
  proof (cases "b = c")
    case True
    then have a: "a \<in> set order" using that(1,4) by auto
    then have "(c, Some a) \<in> set ((c, q) # stack)" using D(6) [of a c] that(3) True new by auto
    then have "a = p \<or> (a, p) \<in> ?T\<^sup>*" using D(7) p(1) by fastforce
    then show ?thesis using True by (auto simp: L)
  next
    case False
    then have "b \<in> set order" using that(2) by simp
    moreover have "a \<in> set order" using less [OF calculation] that(1,4) by auto
    ultimately show ?thesis using D(8) [of a b] that(3,4) old by (simp add: L)
  qed
  have I: "(a, b) \<in> (insert (p, c) ?T)\<^sup>*"
    if "(a, d) \<in> (insert (p, c) ?T)\<^sup>*" "b \<in> set ?o" "d \<in> set ?o" "?n a \<le> ?n b" "?n b \<le> ?n d" for a b d
  proof (cases "b = c")
    case True
    then have "d = c" using less [of d] that(3,5) by auto
    then show ?thesis using that(1) True by simp
  next
    case False
    then have b: "b \<in> set order" using that(2) by simp
    show ?thesis
    proof (cases "d = c")
      case True
      then have "a = c \<or> (a, p) \<in> ?T\<^sup>*" using that(1) no_in by (auto simp: L)
      then show ?thesis using late [of a b] b that(4) less [OF b] by (auto simp: L)
    next
      case False
      then have d: "d \<in> set order" using that(3) by simp
      then have "(a, d) \<in> ?T\<^sup>*" using that(1) False by (simp add: L)
      then show ?thesis using D(9) [of a d b] b d src [of a d] old that(4,5) by (simp add: L)
    qed
  qed
  have P: "(p', c') \<in> E \<and> p' \<in> set ?o \<and> c' \<in> set ?o \<and> ?n p' < ?n c'" if "(p', c') \<in> insert (p, c) ?T" for p' c'
    using that D(3) [of p' c'] p less [of p'] old by auto
  have R: "\<forall>x \<in> set ?o. (r, x) \<in> (insert (p, c) ?T)\<^sup>*" using D(4) p(2) by (auto simp: L)
  have "dfs_inv E r ?o (hm_insert c p parents) ?stack"
    unfolding dfs_inv_def T'
  proof (intro conjI)
    show "distinct ?o" using D(1) new by simp
    show "if ?o = [] then ?stack = [(r, None)] \<and> hm_insert c p parents = [] else r \<in> set ?o" using D(2) ne by simp
    show "\<forall>p' c'. (p', c') \<in> insert (p, c) ?T \<longrightarrow> (p', c') \<in> E \<and> p' \<in> set ?o \<and> c' \<in> set ?o \<and> ?n p' < ?n c'" using P by blast
    show "\<forall>a b d. (a, d) \<in> (insert (p, c) ?T)\<^sup>* \<longrightarrow> b \<in> set ?o \<longrightarrow> d \<in> set ?o \<longrightarrow> ?n a \<le> ?n b \<longrightarrow> ?n b \<le> ?n d \<longrightarrow> (a, b) \<in> (insert (p, c) ?T)\<^sup>*"
      using I by blast
    show "\<forall>a \<in> set ?o. \<forall>b \<in> set ?o. (a, b) \<in> E \<longrightarrow> ?n a < ?n b \<longrightarrow> (a, b) \<in> (insert (p, c) ?T)\<^sup>*" using F by blast
  qed (use K M R S in blast)+
  then show ?thesis using p(1) by blast
qed

lemma dfs_inv_skip:
  assumes "dfs_inv E r order parents ((c, q) # stack)" "c \<in> set order"
  shows "dfs_inv E r order parents stack"
  using assms unfolding dfs_inv_def by (cases "order = []") (auto split: if_splits)

text \<open>The tables after the search: every reached node has its number, is its own label and is not linked.\<close>

definition numbered :: "NodeId list \<Rightarrow> LengauerTarjan \<Rightarrow> bool" where
  "numbered order lt \<longleftrightarrow> lt_vertex lt = 0 # order \<and> lt_n lt = of_nat (length order)
   \<and> hm_get (lt_dfs_num lt) = (\<lambda>x. if x \<in> set order then Some (of_nat (dfs_number order x)) else None)
   \<and> hm_get (lt_semi lt) = hm_get (lt_dfs_num lt)
   \<and> hm_get (lt_label lt) = (\<lambda>x. if x \<in> set order then Some x else None)
   \<and> hm_get (lt_ancestor lt) = (\<lambda>x. if x \<in> set order then Some None else None)
   \<and> lt_bucket lt = [] \<and> lt_idom lt = []"

lemma numbered_visit:
  assumes "numbered order lt" "c \<notin> set order"
  shows "numbered (order @ [c]) (number_node c q lt)"
proof -
  have "dfs_number (order @ [c]) x = dfs_number order x" if "x \<in> set order" for x using that by simp
  moreover have "dfs_number (order @ [c]) c = Suc (length order)" using dfs_number_new [OF assms(2), of "[]"] .
  ultimately show ?thesis
    using assms by (auto simp: numbered_def number_node_def hm_get_insert fun_eq_iff Let_def add.commute)
qed

definition next_nodes :: "SCG \<Rightarrow> Direction \<Rightarrow> NodeId \<Rightarrow> NodeId list" where
  "next_nodes s dir c = (case flow s dir c of Some bs \<Rightarrow> bs | None \<Rightarrow> [])"

lemma flow_edges_next: "(c, b) \<in> flow_edges s dir \<longleftrightarrow> b \<in> set (next_nodes s dir c)"
  by (cases "flow s dir c") (auto simp: flow_edges_def next_nodes_def)

lemma push_next_eq:
  "push_next c seen (flow s dir c) stack = map (\<lambda>x. (x, Some c)) (filter (\<lambda>x. x \<notin> seen) (next_nodes s dir c)) @ stack"
proof -
  have "fold (\<lambda>succ st. if succ \<notin> seen then (succ, Some c) # st else st) (rev succs) stack
      = map (\<lambda>x. (x, Some c)) (filter (\<lambda>x. x \<notin> seen) succs) @ stack" for succs
    by (induction succs arbitrary: stack) (simp_all add: fold_append)
  then show ?thesis by (auto simp: push_next_def next_nodes_def split: option.splits)
qed

lemma number_node_parent [simp]:
  "lt_parent (number_node c (Some p) lt) = hm_insert c p (lt_parent lt)" "lt_parent (number_node c None lt) = lt_parent lt"
  by (simp_all add: number_node_def Let_def)

lemma dfs_loop_inv:
  assumes "dfs_inv (flow_edges s dir) r order (lt_parent lt) stack" "numbered order lt" "seen = set order"
  shows "\<exists>order'. numbered order' (dfs_loop s dir stack seen lt)
    \<and> dfs_inv (flow_edges s dir) r order' (lt_parent (dfs_loop s dir stack seen lt)) []"
  using assms
proof (induction s dir stack seen lt arbitrary: order rule: dfs_loop.induct)
  case (2 s dir c q stack seen lt)
  show ?case
  proof (cases "c \<in> seen")
    case True
    then show ?thesis using 2 dfs_inv_skip [OF "2.prems"(1)] by simp
  next
    case False
    let ?stack = "map (\<lambda>x. (x, Some c)) (filter (\<lambda>x. x \<notin> set (order @ [c])) (next_nodes s dir c)) @ stack"
    have "dfs_inv (flow_edges s dir) r (order @ [c]) (lt_parent (number_node c q lt)) ?stack"
    proof (cases "order = []")
      case True
      then have "c = r" "q = None" "stack = []" "lt_parent lt = []" using dfs_invD(2) [OF "2.prems"(1)] by simp_all
      then show ?thesis using True dfs_inv_start [of r "flow_edges s dir" "next_nodes s dir r", OF flow_edges_next] by simp
    next
      case ne: False
      have "c \<notin> set order" using False "2.prems"(3) by simp
      from dfs_inv_visit [OF "2.prems"(1) this ne flow_edges_next] show ?thesis by auto
    qed
    moreover have "push_next c (insert c seen) (flow s dir c) stack = ?stack" by (simp add: push_next_eq "2.prems"(3))
    moreover have "numbered (order @ [c]) (number_node c q lt)" using numbered_visit "2.prems"(2,3) False by simp
    ultimately show ?thesis using "2.IH"(2) [OF False refl, of "order @ [c]"] False "2.prems"(3) by (simp add: Let_def)
  qed
qed auto

definition dfs_result :: "SCG \<Rightarrow> Direction \<Rightarrow> NodeId \<Rightarrow> LengauerTarjan" where
  "dfs_result s dir r = lt_dfs s dir r lt_new"

definition dfs_order :: "SCG \<Rightarrow> Direction \<Rightarrow> NodeId \<Rightarrow> NodeId list" where
  "dfs_order s dir r = tl (lt_vertex (dfs_result s dir r))"

lemma dfs_done:
  "numbered (dfs_order s dir r) (dfs_result s dir r)"
  "dfs_inv (flow_edges s dir) r (dfs_order s dir r) (lt_parent (dfs_result s dir r)) []"
proof -
  have "dfs_inv (flow_edges s dir) r [] (lt_parent lt_new) [(r, None)]" "numbered [] lt_new"
    by (simp_all add: dfs_inv_def par_rel_def lt_new_def numbered_def)
  from dfs_loop_inv [OF this] obtain order where "numbered order (dfs_result s dir r)"
      "dfs_inv (flow_edges s dir) r order (lt_parent (dfs_result s dir r)) []"
    by (auto simp: dfs_result_def lt_dfs_def)
  then show "numbered (dfs_order s dir r) (dfs_result s dir r)"
    "dfs_inv (flow_edges s dir) r (dfs_order s dir r) (lt_parent (dfs_result s dir r)) []"
    by (auto simp: dfs_order_def numbered_def)
qed

lemma dfs_number_inj: "inj_on (dfs_number order) (set order)"
  by (rule inj_onI) (metis dfs_number_nth)

interpretation dfs: dfs_tree "flow_edges s dir" r "set (dfs_order s dir r)" "dfs_number (dfs_order s dir r)"
    "par_rel (lt_parent (dfs_result s dir r))" for s dir r
proof -
  note D = dfs_invD [OF dfs_done(2) [of s dir r]]
  have ne: "dfs_order s dir r \<noteq> []" using D(2) by auto
  show "dfs_tree (flow_edges s dir) r (set (dfs_order s dir r)) (dfs_number (dfs_order s dir r)) (par_rel (lt_parent (dfs_result s dir r)))"
  proof (rule dfs_tree.intro)
    show "r \<in> set (dfs_order s dir r)" using D(2) ne by simp
    show closed: "y \<in> set (dfs_order s dir r)" if "x \<in> set (dfs_order s dir r)" "(x, y) \<in> flow_edges s dir" for x y
      using D(6) [OF that] by simp
    show "inj_on (dfs_number (dfs_order s dir r)) (set (dfs_order s dir r))" by (rule dfs_number_inj)
    show "p = q" if "(p, c) \<in> par_rel (lt_parent (dfs_result s dir r))" "(q, c) \<in> par_rel (lt_parent (dfs_result s dir r))" for p q c
      using that by (simp add: par_rel_def)
    show "(a, b) \<in> (par_rel (lt_parent (dfs_result s dir r)))\<^sup>*"
      if "a \<in> set (dfs_order s dir r)" "(a, b) \<in> flow_edges s dir" "dfs_number (dfs_order s dir r) a < dfs_number (dfs_order s dir r) b" for a b
      using D(8) [OF that(1) closed [OF that(1,2)] that(2,3)] .
    show "(a, b) \<in> (par_rel (lt_parent (dfs_result s dir r)))\<^sup>*"
      if "(a, c) \<in> (par_rel (lt_parent (dfs_result s dir r)))\<^sup>*" "b \<in> set (dfs_order s dir r)"
        "dfs_number (dfs_order s dir r) a \<le> dfs_number (dfs_order s dir r) b"
        "dfs_number (dfs_order s dir r) b \<le> dfs_number (dfs_order s dir r) c" for a b c
    proof (cases "c \<in> set (dfs_order s dir r)")
      case True
      then show ?thesis using D(9) that by blast
    next
      case False
      then have "a = c" using that(1) D(3) by (auto elim: rtranclE)
      then have "dfs_number (dfs_order s dir r) b = dfs_number (dfs_order s dir r) c" using that(3,4) by simp
      moreover have "dfs_number (dfs_order s dir r) c = Suc (length (dfs_order s dir r))"
        by (rule dfs_number_absent [OF False])
      ultimately show ?thesis using dfs_number_bound [OF that(2)] by simp
    qed
  qed (use D in blast)+
qed

definition idom_keys :: "LengauerTarjan \<Rightarrow> bool" where
  "idom_keys lt \<longleftrightarrow> hm_ok (lt_idom lt)"

section \<open>The link-eval forest\<close>

locale semi_tree = dfs_tree E r V num tree
  for E :: "(NodeId \<times> NodeId) set" and r :: NodeId and V :: "NodeId set" and num :: "NodeId \<Rightarrow> nat" and tree :: "(NodeId \<times> NodeId) set"
begin

definition sd :: "NodeId \<Rightarrow> NodeId" where
  "sd w = (THE d. is_semi E V num d w)"

lemma sd: "w \<in> V \<Longrightarrow> w \<noteq> r \<Longrightarrow> is_semi E V num (sd w) w"
  unfolding sd_def using semi_exists is_semi_unique by (metis theI)

lemma sd_eq: "is_semi E V num d w \<Longrightarrow> sd w = d"
  unfolding sd_def using is_semi_unique by blast

lemma sd_V: "w \<in> V \<Longrightarrow> w \<noteq> r \<Longrightarrow> sd w \<in> V"
  using sd by (auto simp: is_semi_def)

lemma num_r: "w \<in> V \<Longrightarrow> num r \<le> num w"
  using anc_num [OF spans] .

text \<open>\<open>l\<close> is an ancestor of \<open>v\<close> with the lowest semidominator among those numbered above \<open>k\<close>.\<close>

definition full_min :: "nat \<Rightarrow> NodeId \<Rightarrow> NodeId \<Rightarrow> bool" where
  "full_min k v l \<longleftrightarrow> (l, v) \<in> tree\<^sup>* \<and> k < num l \<and> (\<forall>x. (x, v) \<in> tree\<^sup>* \<longrightarrow> k < num x \<longrightarrow> num (sd l) \<le> num (sd x))"

text \<open>
  The nodes numbered above \<open>k\<close> are linked to an ancestor; the label of a node has the lowest semidominator on the way
  there, and possibly lies further up.
\<close>

definition linked_ok :: "nat \<Rightarrow> LengauerTarjan \<Rightarrow> NodeId \<Rightarrow> NodeId \<Rightarrow> NodeId \<Rightarrow> bool" where
  "linked_ok k lt v a l \<longleftrightarrow> hm_get (lt_ancestor lt) v = Some (Some a) \<and> hm_get (lt_label lt) v = Some l
     \<and> (a, v) \<in> tree\<^sup>* \<and> a \<noteq> v \<and> (l, v) \<in> tree\<^sup>* \<and> k < num l
     \<and> (\<forall>x. (a, x) \<in> tree\<^sup>* \<longrightarrow> x \<noteq> a \<longrightarrow> (x, v) \<in> tree\<^sup>* \<longrightarrow> k < num x \<and> num (sd l) \<le> num (sd x))"

definition forest :: "nat \<Rightarrow> LengauerTarjan \<Rightarrow> bool" where
  "forest k lt \<longleftrightarrow> num r \<le> k
     \<and> (\<forall>v \<in> V. num v \<le> k \<longrightarrow> hm_get (lt_ancestor lt) v = Some None \<and> hm_get (lt_label lt) v = Some v)
     \<and> (\<forall>v \<in> V. k < num v \<longrightarrow> hm_get (lt_semi lt) v = Some (of_nat (num (sd v))) \<and> (\<exists>a l. linked_ok k lt v a l))"

definition relabelled :: "LengauerTarjan \<Rightarrow> LengauerTarjan \<Rightarrow> bool" where
  "relabelled lt lt' \<longleftrightarrow> (\<exists>L A. lt' = lt\<lparr>lt_label := L, lt_ancestor := A\<rparr>)"

lemma relabelled_refl [simp]: "relabelled lt lt"
  unfolding relabelled_def by (intro exI [of _ "lt_label lt"] exI [of _ "lt_ancestor lt"]) simp

lemma relabelled_trans: "relabelled lt lt1 \<Longrightarrow> relabelled lt1 lt2 \<Longrightarrow> relabelled lt lt2"
  unfolding relabelled_def by (elim exE) (simp, blast)

lemma relabelledD:
  "relabelled lt lt' \<Longrightarrow> lt_semi lt' = lt_semi lt \<and> lt_dfs_num lt' = lt_dfs_num lt \<and> lt_vertex lt' = lt_vertex lt \<and> lt_parent lt' = lt_parent lt
    \<and> lt_bucket lt' = lt_bucket lt \<and> lt_idom lt' = lt_idom lt \<and> lt_n lt' = lt_n lt"
  by (auto simp: relabelled_def)

definition small :: bool where
  "small \<longleftrightarrow> (\<forall>x \<in> V. num x < 2 ^ 32)"

lemma less_of_nat:
  assumes "small" "x \<in> V" "y \<in> V"
  shows "(of_nat (num x) :: u32) < of_nat (num y) \<longleftrightarrow> num x < num y" "(of_nat (num x) :: u32) = of_nat (num y) \<longleftrightarrow> x = y"
proof -
  have u: "unat (of_nat (num z) :: u32) = num z" if "z \<in> V" for z using assms(1) that by (simp add: small_def unat_of_nat)
  show "(of_nat (num x) :: u32) < of_nat (num y) \<longleftrightarrow> num x < num y" using u assms(2,3) by (simp add: word_less_nat_alt)
  show "(of_nat (num x) :: u32) = of_nat (num y) \<longleftrightarrow> x = y" using u [OF assms(2)] u [OF assms(3)] num_eq [OF assms(2,3)] by metis
qed

lemma forestD:
  assumes "forest k lt" "v \<in> V"
  shows "num r \<le> k" "num v \<le> k \<Longrightarrow> linked_to lt v = None" "num v \<le> k \<Longrightarrow> hm_get (lt_label lt) v = Some v"
    "k < num v \<Longrightarrow> hm_get (lt_semi lt) v = Some (of_nat (num (sd v)))" "k < num v \<Longrightarrow> \<exists>a l. linked_ok k lt v a l" "k < num v \<Longrightarrow> v \<noteq> r"
  using assms by (auto simp: forest_def linked_to_def)

text \<open>Setting the label and the ancestor of one linked node to others that are right for it keeps the forest.\<close>

lemma forest_update:
  assumes "forest k lt" "linked_ok k lt' v a l" "relabelled lt lt'" "k < num v"
    and "\<And>x. x \<noteq> v \<Longrightarrow> hm_get (lt_label lt') x = hm_get (lt_label lt) x \<and> hm_get (lt_ancestor lt') x = hm_get (lt_ancestor lt) x"
  shows "forest k lt'"
proof -
  have "\<exists>a l. linked_ok k lt' x a l" if "x \<in> V" "k < num x" for x
    using assms(2,5) forestD(5) [OF assms(1) that] by (cases "x = v") (auto simp: linked_ok_def)
  then show ?thesis using assms(1,4,5) relabelledD [OF assms(3)] unfolding forest_def by (metis not_le)
qed

lemma compress_spec:
  assumes "small" "forest k lt" "v \<in> V"
  shows "\<exists>lt'. compress v lt = Some lt' \<and> forest k lt' \<and> relabelled lt lt'
    \<and> (\<forall>x \<in> V. num v < num x \<longrightarrow> hm_get (lt_label lt') x = hm_get (lt_label lt) x \<and> hm_get (lt_ancestor lt') x = hm_get (lt_ancestor lt) x)
    \<and> (k < num v \<longrightarrow> (\<exists>l. hm_get (lt_label lt') v = Some l \<and> full_min k v l))"
  using assms
proof (induction "num v" arbitrary: v lt rule: less_induct)
  case less
  note F = forestD [OF less.prems(2,3)]
  show ?case
  proof (cases "num v \<le> k")
    case True
    then have "compress v lt = Some lt" by (simp add: compress.simps F(2))
    then show ?thesis using less.prems(2) True by auto
  next
    case False
    then obtain a l where v: "linked_ok k lt v a l" using F(5) by force
    then have la: "linked_to lt v = Some a" and av: "(a, v) \<in> tree\<^sup>*" "a \<noteq> v" and aV: "a \<in> V"
      using anc_in_V less.prems(3) by (auto simp: linked_ok_def linked_to_def)
    note A = forestD [OF less.prems(2) aV]
    have chain: "(a, x) \<in> tree\<^sup>* \<and> x \<noteq> a \<or> (x, a) \<in> tree\<^sup>*" if "(x, v) \<in> tree\<^sup>*" for x
      using anc_chain [OF av(1) that less.prems(3)] anc_chain [OF that av(1) less.prems(3)] by (metis nat_le_linear)
    show ?thesis
    proof (cases "num a \<le> k")
      case True
      have "full_min k v l"
        using v chain True anc_num [of _ a] unfolding full_min_def linked_ok_def by (meson le_trans not_le)
      moreover have "compress v lt = Some lt" by (simp add: compress.simps [of v] la A(2) [OF True])
      ultimately show ?thesis using less.prems(2) v by (auto simp: linked_ok_def)
    next
      case nk: False
      then obtain aa al where a: "linked_ok k lt a aa al" using A(5) by force
      then have laa: "linked_to lt a = Some aa" by (simp add: linked_ok_def linked_to_def)
      from less.hyps [OF anc_less [OF av] less.prems(1,2) aV] obtain lt1 l1 where
          c: "compress a lt = Some lt1" "forest k lt1" "relabelled lt lt1"
          and keep: "\<forall>x \<in> V. num a < num x \<longrightarrow> hm_get (lt_label lt1) x = hm_get (lt_label lt) x \<and> hm_get (lt_ancestor lt1) x = hm_get (lt_ancestor lt) x"
          and l1: "hm_get (lt_label lt1) a = Some l1" "full_min k a l1"
        using nk by (metis not_le)
      have lv: "hm_get (lt_label lt1) v = Some l" using keep anc_less [OF av] less.prems(3) v by (auto simp: linked_ok_def)
      have V: "l1 \<in> V" "l \<in> V" "k < num l1" "k < num l" "(l1, a) \<in> tree\<^sup>*"
        using l1(2) v aV less.prems(3) anc_in_V by (auto simp: full_min_def linked_ok_def)
      then have sV: "sd l1 \<in> V" "sd l \<in> V" using sd_V forestD(6) [OF c(2)] by auto
      have sm: "hm_get (lt_semi lt1) l1 = Some (of_nat (num (sd l1)))" "hm_get (lt_semi lt1) l = Some (of_nat (num (sd l)))"
        using forestD(4) [OF c(2)] V by auto
      define m where "m = (if num (sd l1) < num (sd l) then l1 else l)"
      define lt' where "lt' = (if num (sd l1) < num (sd l) then lt1\<lparr>lt_label := hm_insert v l1 (lt_label lt1)\<rparr> else lt1)
          \<lparr>lt_ancestor := hm_insert v (Some aa) (lt_ancestor lt1)\<rparr>"
      have res: "compress v lt = Some lt'"
        by (simp add: compress.simps [of v] la laa c(1) l1(1) lv sm less_of_nat(1) [OF less.prems(1) sV] lt'_def Let_def)
      have m: "full_min k v m"
      proof -
        have "num (sd m) \<le> num (sd x)" if "(x, v) \<in> tree\<^sup>*" "k < num x" for x
          using chain [OF that(1)] l1(2) v that unfolding m_def full_min_def linked_ok_def by (fastforce split: if_splits)
        moreover have "(m, v) \<in> tree\<^sup>*" "k < num m" using V v av(1) by (auto simp: m_def linked_ok_def)
        ultimately show ?thesis by (simp add: full_min_def)
      qed
      have lab: "hm_get (lt_label lt') v = Some m" "hm_get (lt_ancestor lt') v = Some (Some aa)"
        using lv by (auto simp: lt'_def m_def hm_get_insert)
      have rel: "relabelled lt1 lt'"
        unfolding relabelled_def lt'_def
        by (intro exI [of _ "if num (sd l1) < num (sd l) then hm_insert v l1 (lt_label lt1) else lt_label lt1"] exI [of _ "hm_insert v (Some aa) (lt_ancestor lt1)"]) simp
      have same: "hm_get (lt_label lt') x = hm_get (lt_label lt1) x \<and> hm_get (lt_ancestor lt') x = hm_get (lt_ancestor lt1) x" if "x \<noteq> v" for x
        using that by (simp add: lt'_def hm_get_insert)
      have "linked_ok k lt' v aa m"
      proof -
        have "(aa, v) \<in> tree\<^sup>*" "aa \<noteq> v" using a av anc_less [OF av] anc_num [of aa a] by (auto simp: linked_ok_def intro: rtrancl_trans)
        moreover have "k < num x" if "(aa, x) \<in> tree\<^sup>*" "x \<noteq> aa" "(x, v) \<in> tree\<^sup>*" for x
          using chain [OF that(3)] that a v by (auto simp: linked_ok_def)
        ultimately show ?thesis using m lab by (auto simp: linked_ok_def full_min_def)
      qed
      from forest_update [OF c(2) this rel] False same have "forest k lt'" by simp
      moreover have "hm_get (lt_label lt') x = hm_get (lt_label lt) x \<and> hm_get (lt_ancestor lt') x = hm_get (lt_ancestor lt) x"
        if "x \<in> V" "num v < num x" for x
        using same [of x] keep that anc_less [OF av] by force
      ultimately show ?thesis using res lab(1) m relabelled_trans [OF c(3) rel] by blast
    qed
  qed
qed

lemma eval_spec:
  assumes "small" "forest k lt" "v \<in> V"
  shows "\<exists>lt' u. eval_label v lt = Some (lt', u) \<and> forest k lt' \<and> relabelled lt lt' \<and> (if num v \<le> k then u = v else full_min k v u)"
proof (cases "num v \<le> k")
  case True
  then show ?thesis using forestD(2,3) [OF assms(2,3)] assms(2) by (auto simp: eval_label_def)
next
  case False
  then obtain a l where "linked_ok k lt v a l" using forestD(5) [OF assms(2,3)] by force
  then have "linked_to lt v = Some a" by (simp add: linked_ok_def linked_to_def)
  moreover obtain lt' u where "compress v lt = Some lt'" "forest k lt'" "relabelled lt lt'" "hm_get (lt_label lt') v = Some u" "full_min k v u"
    using compress_spec [OF assms] False by auto
  ultimately show ?thesis using False by (auto simp: eval_label_def)
qed

section \<open>Semidominators\<close>

definition tables :: "LengauerTarjan \<Rightarrow> bool" where
  "tables lt \<longleftrightarrow> hm_get (lt_dfs_num lt) = (\<lambda>x. if x \<in> V then Some (of_nat (num x)) else None)
     \<and> (\<forall>x \<in> V. at (lt_vertex lt) (num x) = Some x) \<and> (\<forall>p c. hm_get (lt_parent lt) c = Some p \<longleftrightarrow> (p, c) \<in> tree)"

definition resemied :: "LengauerTarjan \<Rightarrow> LengauerTarjan \<Rightarrow> bool" where
  "resemied lt lt' \<longleftrightarrow> (\<exists>L A S. lt' = lt\<lparr>lt_label := L, lt_ancestor := A, lt_semi := S\<rparr>)"

lemma resemiedD:
  "resemied lt lt' \<Longrightarrow> lt_dfs_num lt' = lt_dfs_num lt \<and> lt_vertex lt' = lt_vertex lt \<and> lt_parent lt' = lt_parent lt
    \<and> lt_bucket lt' = lt_bucket lt \<and> lt_idom lt' = lt_idom lt \<and> lt_n lt' = lt_n lt"
  by (auto simp: resemied_def)

lemma forest_semi: "forest k lt \<Longrightarrow> num w \<le> k \<Longrightarrow> forest k (lt\<lparr>lt_semi := hm_insert w x (lt_semi lt)\<rparr>)"
  unfolding forest_def linked_ok_def by (auto simp: hm_get_insert)

text \<open>The smallest candidate so far, \<open>d\<close>, and the candidates an incoming edge from \<open>v\<close> contributes.\<close>

definition candidate :: "NodeId \<Rightarrow> NodeId \<Rightarrow> bool" where
  "candidate w d \<longleftrightarrow> d \<in> V \<and> (d = w \<or> semi_path E num d w)"

definition beats :: "nat \<Rightarrow> NodeId \<Rightarrow> NodeId \<Rightarrow> bool" where
  "beats k d v \<longleftrightarrow> (num v < k \<longrightarrow> num d \<le> num v) \<and> (k < num v \<longrightarrow> (\<forall>u. (u, v) \<in> tree\<^sup>* \<longrightarrow> k < num u \<longrightarrow> num d \<le> num (sd u)))"

lemma beats_mono: "beats k d v \<Longrightarrow> num d' \<le> num d \<Longrightarrow> beats k d' v"
  unfolding beats_def by (meson le_trans)

lemma eval_candidate:
  assumes "small" "forest k lt" "v \<in> V" "(v, w) \<in> E" "num w = k" "w \<in> V"
    and "\<forall>x \<in> V. num x < k \<longrightarrow> hm_get (lt_semi lt) x = Some (of_nat (num x))"
    and "hm_get (lt_semi lt) w = Some (of_nat (num d))" "candidate w d"
  shows "\<exists>lt' u c. eval_label v lt = Some (lt', u) \<and> forest k lt' \<and> relabelled lt lt' \<and> hm_get (lt_semi lt) u = Some (of_nat (num c))
    \<and> candidate w c \<and> beats k c v"
proof -
  obtain lt' u where e: "eval_label v lt = Some (lt', u)" "forest k lt'" "relabelled lt lt'" "if num v \<le> k then u = v else full_min k v u"
    using eval_spec [OF assms(1-3)] by blast
  consider "v = w" | "num v < k" | "k < num v" using assms(3,5,6) num_eq by (metis linorder_neqE_nat)
  then have "\<exists>c. hm_get (lt_semi lt) u = Some (of_nat (num c)) \<and> candidate w c \<and> beats k c v"
  proof cases
    case 1
    then show ?thesis using e(4) assms(5,8,9) by (auto simp: beats_def)
  next
    case 2
    then show ?thesis using e(4) assms(3,4,7) candidate_edge by (auto simp: beats_def candidate_def)
  next
    case 3
    then have u: "full_min k v u" using e(4) by simp
    then have uV: "u \<in> V" "k < num u" using anc_in_V assms(3) by (auto simp: full_min_def)
    then have ne: "u \<noteq> r" using forestD(6) [OF assms(2)] by blast
    have "semi_path E num (sd u) w"
      using candidate_up [OF assms(4)] u sd [OF uV(1) ne] uV(2) assms(5) by (auto simp: full_min_def is_semi_def)
    moreover have "beats k (sd u) v" using u 3 by (auto simp: beats_def full_min_def)
    ultimately show ?thesis using forestD(4) [OF assms(2) uV(1,2)] sd_V [OF uV(1) ne] by (auto simp: candidate_def)
  qed
  then show ?thesis using e by blast
qed

lemma lower_semi_spec:
  assumes "small" "num w = k" "w \<in> V" "set preds \<subseteq> {v. (v, w) \<in> E}"
    and "forest k lt" "tables lt" "\<forall>x \<in> V. num x < k \<longrightarrow> hm_get (lt_semi lt) x = Some (of_nat (num x))"
    and "hm_get (lt_semi lt) w = Some (of_nat (num d))" "candidate w d"
  shows "\<exists>lt' d'. lower_semi w preds lt = Some lt' \<and> forest k lt' \<and> resemied lt lt'
    \<and> hm_get (lt_semi lt') = (hm_get (lt_semi lt))(w \<mapsto> of_nat (num d')) \<and> candidate w d' \<and> num d' \<le> num d \<and> (\<forall>v \<in> set preds \<inter> V. beats k d' v)"
  using assms(4-9)
proof (induction preds arbitrary: lt d)
  case Nil
  have "resemied lt lt" unfolding resemied_def by (intro exI [of _ "lt_label lt"] exI [of _ "lt_ancestor lt"] exI [of _ "lt_semi lt"]) simp
  moreover have "hm_get (lt_semi lt) = (hm_get (lt_semi lt))(w \<mapsto> of_nat (num d))" using Nil by (simp add: fun_upd_idem)
  ultimately show ?case using Nil by (intro exI [of _ lt] exI [of _ d]) simp
next
  case (Cons v preds)
  show ?case
  proof (cases "v \<in> V")
    case False
    then show ?thesis using Cons by (simp add: tables_def)
  next
    case True
    obtain lt1 u c where e: "eval_label v lt = Some (lt1, u)" "forest k lt1" "relabelled lt lt1"
        "hm_get (lt_semi lt) u = Some (of_nat (num c))" "candidate w c" "beats k c v"
      using eval_candidate [OF assms(1) Cons.prems(2) True _ assms(2,3) Cons.prems(4,5,6)] Cons.prems(1) by auto
    note s1 = relabelledD [OF e(3)]
    have cd: "c \<in> V" "d \<in> V" using e(5) Cons.prems(6) by (auto simp: candidate_def)
    have sub: "set preds \<subseteq> {v. (v, w) \<in> E}" using Cons.prems(1) by simp
    define d1 where "d1 = (if num c < num d then c else d)"
    define lt2 where "lt2 = (if num c < num d then lt1\<lparr>lt_semi := hm_insert w (of_nat (num c)) (lt_semi lt1)\<rparr> else lt1)"
    have low: "lower_semi w (v # preds) lt = lower_semi w preds lt2"
      using Cons.prems(3,5) True e(1,4) s1 by (simp add: tables_def less_of_nat(1) [OF assms(1) cd] lt2_def)
    have s2: "hm_get (lt_semi lt2) = (hm_get (lt_semi lt))(w \<mapsto> of_nat (num d1))"
      using s1 Cons.prems(5) by (auto simp: lt2_def d1_def hm_get_insert)
    obtain L A where "lt1 = lt\<lparr>lt_label := L, lt_ancestor := A\<rparr>" using e(3) by (auto simp: relabelled_def)
    then have "lt2 = lt\<lparr>lt_label := L, lt_ancestor := A, lt_semi := lt_semi lt2\<rparr>" by (simp add: lt2_def)
    then have r2: "resemied lt lt2" unfolding resemied_def by blast
    have "forest k lt2" using e(2) assms(2) forest_semi by (simp add: lt2_def)
    moreover have "tables lt2" using Cons.prems(3) resemiedD [OF r2] by (simp add: tables_def)
    moreover have "\<forall>x \<in> V. num x < k \<longrightarrow> hm_get (lt_semi lt2) x = Some (of_nat (num x))" using Cons.prems(4) s2 assms(2) by auto
    moreover have "hm_get (lt_semi lt2) w = Some (of_nat (num d1))" using s2 by simp
    moreover have "candidate w d1" using e(5) Cons.prems(6) by (simp add: d1_def)
    ultimately obtain lt' d' where r: "lower_semi w preds lt2 = Some lt'" "forest k lt'" "resemied lt2 lt'"
        "hm_get (lt_semi lt') = (hm_get (lt_semi lt2))(w \<mapsto> of_nat (num d'))" "candidate w d'" "num d' \<le> num d1" "\<forall>v \<in> set preds \<inter> V. beats k d' v"
      using Cons.IH [OF sub, of lt2 d1] by blast
    have "resemied lt lt'" using r2 r(3) unfolding resemied_def by (elim exE) (simp, blast)
    moreover have "hm_get (lt_semi lt') = (hm_get (lt_semi lt))(w \<mapsto> of_nat (num d'))" using r(4) s2 by simp
    moreover have "beats k d' v" using beats_mono [OF e(6)] r(6) by (auto simp: d1_def split: if_splits)
    moreover have "num d' \<le> num d" using r(6) by (auto simp: d1_def split: if_splits)
    ultimately show ?thesis using r low by (intro exI [of _ lt'] exI [of _ d']) auto
  qed
qed

text \<open>After all incoming edges the candidate is the semidominator.\<close>

lemma best_candidate:
  assumes "w \<in> V" "w \<noteq> r" "candidate w d" "num d \<le> num w" "\<forall>v. (v, w) \<in> E \<longrightarrow> v \<in> V \<longrightarrow> beats (num w) d v"
  shows "d = sd w"
proof -
  note s = sd [OF assms(1,2)]
  have sV: "sd w \<in> V" "semi_path E num (sd w) w" "num (sd w) < num w"
    using s is_semi_proper [OF s assms(1,2)] by (auto simp: is_semi_def)
  have "num d \<le> num (sd w)"
    using candidate_complete [OF sV(2,1) assms(1) sV(3)]
  proof (elim disjE exE conjE)
    assume "(sd w, w) \<in> E"
    then show ?thesis using assms(5) sV by (auto simp: beats_def)
  next
    fix u x assume u: "(x, w) \<in> E" "x \<in> V" "(u, x) \<in> tree\<^sup>*" "num w < num u" "semi_path E num (sd w) u"
    have uV: "u \<in> V" using anc_in_V u(2,3) by blast
    have "u \<noteq> r" using num_r [OF assms(1)] u(4) by auto
    from sd [OF uV this] have "num (sd u) \<le> num (sd w)" using u(5) sV(1) by (simp add: is_semi_def)
    moreover have "num d \<le> num (sd u)"
      using assms(5) u anc_num [OF u(3)] by (auto simp: beats_def)
    ultimately show ?thesis by simp
  qed
  then have "d \<noteq> w" using sV(3) by auto
  then have "num (sd w) \<le> num d" using s assms(3) by (auto simp: candidate_def is_semi_def)
  then show ?thesis using \<open>num d \<le> num (sd w)\<close> num_eq [of d "sd w"] assms(3) sV(1) by (simp add: candidate_def)
qed

section \<open>Buckets\<close>

text \<open>The child of \<open>d\<close> towards \<open>v\<close> is numbered above \<open>k\<close>.\<close>

definition passed :: "nat \<Rightarrow> NodeId \<Rightarrow> NodeId \<Rightarrow> bool" where
  "passed k d v \<longleftrightarrow> (\<exists>c. (d, c) \<in> tree \<and> (c, v) \<in> tree\<^sup>* \<and> k < num c)"

lemma child_above: "(p, w) \<in> tree \<Longrightarrow> (x, w) \<in> tree\<^sup>* \<Longrightarrow> x \<noteq> w \<Longrightarrow> (x, p) \<in> tree\<^sup>*"
  by (metis rtranclE parent_unique)

lemma between:
  assumes "(p, w) \<in> tree" "(w, v) \<in> tree\<^sup>*" "(x, v) \<in> tree\<^sup>*" "v \<in> V"
  shows "(p, x) \<in> tree\<^sup>* \<and> x \<noteq> p \<longleftrightarrow> num w \<le> num x"
proof
  assume px: "(p, x) \<in> tree\<^sup>* \<and> x \<noteq> p"
  show "num w \<le> num x"
  proof (rule ccontr)
    assume "\<not> num w \<le> num x"
    then have "(x, w) \<in> tree\<^sup>*" "x \<noteq> w" using anc_chain [OF assms(3,2,4)] by auto
    from child_above [OF assms(1) this] show False using px anc_less [of p x] anc_num [of x p] by force
  qed
next
  assume "num w \<le> num x"
  then have "(w, x) \<in> tree\<^sup>*" using anc_chain [OF assms(2,3,4)] by simp
  moreover have "num p < num w" using tree_edge [OF assms(1)] by simp
  ultimately show "(p, x) \<in> tree\<^sup>* \<and> x \<noteq> p" using assms(1) anc_num [of w x] by (auto intro: converse_rtrancl_into_rtrancl)
qed

text \<open>Of the children of \<open>p\<close>, none numbered below \<open>w\<close> is above a node numbered from \<open>w\<close> on.\<close>

lemma child_not_below:
  assumes "(p, w) \<in> tree" "(p, c) \<in> tree" "(c, v) \<in> tree\<^sup>*" "v \<in> V" "num w \<le> num v"
  shows "num w \<le> num c"
proof (rule ccontr)
  assume n: "\<not> num w \<le> num c"
  have "w \<in> V" using tree_edge [OF assms(1)] by simp
  then have "(c, w) \<in> tree\<^sup>*" using interval [OF assms(3), of w] n assms(5) by simp
  moreover have "c \<noteq> w" using n by auto
  ultimately have "(c, p) \<in> tree\<^sup>*" using child_above [OF assms(1)] by blast
  then show False using anc_num tree_edge [OF assms(2)] by force
qed

lemma sd_child:
  assumes "v \<in> V" "v \<noteq> r"
  obtains c where "(sd v, c) \<in> tree" "(c, v) \<in> tree\<^sup>*"
  using is_semi_proper [OF sd [OF assms] assms] by (metis converse_rtranclE)

lemma pending_below:
  assumes "v \<in> V" "v \<noteq> r" "(sd v, w) \<in> tree" "num w \<le> num v" "\<not> passed (num w) (sd v) v"
  shows "(w, v) \<in> tree\<^sup>*"
proof -
  obtain c where c: "(sd v, c) \<in> tree" "(c, v) \<in> tree\<^sup>*" using sd_child [OF assms(1,2)] .
  have "num w \<le> num c" using child_not_below [OF assms(3) c assms(1,4)] .
  moreover have "num c \<le> num w" using assms(5) c by (auto simp: passed_def)
  ultimately have "num c = num w" by simp
  then have "c = w" using num_eq [of c w] tree_edge [OF c(1)] tree_edge [OF assms(3)] by blast
  then show ?thesis using c(2) by simp
qed

text \<open>The entry step 3 makes for \<open>v\<close>: the semidominator, or the node below it that has the lowest one.\<close>

definition first_idom :: "NodeId \<Rightarrow> NodeId \<Rightarrow> bool" where
  "first_idom v e \<longleftrightarrow> (\<exists>u. (sd v, u) \<in> tree\<^sup>* \<and> u \<noteq> sd v \<and> (u, v) \<in> tree\<^sup>*
     \<and> (\<forall>x. (sd v, x) \<in> tree\<^sup>* \<longrightarrow> x \<noteq> sd v \<longrightarrow> (x, v) \<in> tree\<^sup>* \<longrightarrow> num (sd u) \<le> num (sd x))
     \<and> e = (if num (sd u) < num (sd v) then u else sd v))"

lemma first_idom_min:
  assumes "full_min j v u" "(sd v, w) \<in> tree" "(w, v) \<in> tree\<^sup>*" "num w = Suc j" "v \<in> V"
  shows "first_idom v (if num (sd u) < num (sd v) then u else sd v)"
proof -
  have "(sd v, x) \<in> tree\<^sup>* \<and> x \<noteq> sd v \<longleftrightarrow> j < num x" if "(x, v) \<in> tree\<^sup>*" for x
    using between [OF assms(2,3) that assms(5)] assms(4) by auto
  then show ?thesis using assms(1) unfolding first_idom_def full_min_def by (intro exI [of _ u]) auto
qed

definition reidomed :: "LengauerTarjan \<Rightarrow> LengauerTarjan \<Rightarrow> bool" where
  "reidomed lt lt' \<longleftrightarrow> (\<exists>L A I. lt' = lt\<lparr>lt_label := L, lt_ancestor := A, lt_idom := I\<rparr>)"

lemma reidomedD:
  "reidomed lt lt' \<Longrightarrow> lt_dfs_num lt' = lt_dfs_num lt \<and> lt_vertex lt' = lt_vertex lt \<and> lt_parent lt' = lt_parent lt
    \<and> lt_bucket lt' = lt_bucket lt \<and> lt_semi lt' = lt_semi lt \<and> lt_n lt' = lt_n lt"
  by (auto simp: reidomed_def)

lemma forest_idom [simp]: "forest k (lt\<lparr>lt_idom := I\<rparr>) = forest k lt" "forest k (lt\<lparr>lt_bucket := B\<rparr>) = forest k lt"
  by (simp_all add: forest_def linked_ok_def)

lemma empty_bucket_spec:
  assumes "small" "num w = Suc j" "(p, w) \<in> tree"
    and "forest j lt" "\<forall>v \<in> set items. v \<in> V \<and> sd v = p \<and> (w, v) \<in> tree\<^sup>*"
  shows "\<exists>lt'. empty_bucket p items lt = Some lt' \<and> forest j lt' \<and> reidomed lt lt'
    \<and> (\<forall>v \<in> set items. \<exists>e. hm_get (lt_idom lt') v = Some e \<and> first_idom v e)
    \<and> (\<forall>v. v \<notin> set items \<longrightarrow> hm_get (lt_idom lt') v = hm_get (lt_idom lt) v)
    \<and> (idom_keys lt \<longrightarrow> idom_keys lt')"
  using assms(4,5)
proof (induction items arbitrary: lt)
  case Nil
  have "reidomed lt lt" unfolding reidomed_def by (intro exI [of _ "lt_label lt"] exI [of _ "lt_ancestor lt"] exI [of _ "lt_idom lt"]) simp
  then show ?case using Nil by simp
next
  case (Cons v items)
  have v: "v \<in> V" "sd v = p" "(w, v) \<in> tree\<^sup>*" using Cons.prems(2) by simp_all
  have nv: "j < num v" using anc_num [OF v(3)] assms(2) by simp
  obtain lt1 u where e: "eval_label v lt = Some (lt1, u)" "forest j lt1" "relabelled lt lt1" "full_min j v u"
    using eval_spec [OF assms(1) Cons.prems(1) v(1)] nv by auto
  have u: "u \<in> V" "j < num u" using e(4) v(1) anc_in_V by (auto simp: full_min_def)
  have ne: "u \<noteq> r" "v \<noteq> r" using forestD(6) [OF e(2)] u v(1) nv by blast+
  have sm: "hm_get (lt_semi lt1) u = Some (of_nat (num (sd u)))" "hm_get (lt_semi lt1) v = Some (of_nat (num (sd v)))"
    using forestD(4) [OF e(2)] u v(1) nv by blast+
  let ?e = "if num (sd u) < num (sd v) then u else p"
  let ?lt = "lt1\<lparr>lt_idom := hm_insert v ?e (lt_idom lt1)\<rparr>"
  have step: "empty_bucket p (v # items) lt = empty_bucket p items ?lt"
    using e(1) sm less_of_nat(1) [OF assms(1) sd_V [OF u(1) ne(1)] sd_V [OF v(1) ne(2)]] by simp
  have fst: "first_idom v ?e" using first_idom_min [OF e(4) _ v(3) assms(2) v(1), unfolded v(2), OF assms(3)] v(2) by simp
  have "forest j ?lt" using e(2) by simp
  with Cons.IH [of ?lt] Cons.prems(2) obtain lt' where r: "empty_bucket p items ?lt = Some lt'" "forest j lt'" "reidomed ?lt lt'"
      "\<forall>v \<in> set items. \<exists>e. hm_get (lt_idom lt') v = Some e \<and> first_idom v e"
      "\<forall>v. v \<notin> set items \<longrightarrow> hm_get (lt_idom lt') v = hm_get (lt_idom ?lt) v" "idom_keys ?lt \<longrightarrow> idom_keys lt'" by auto
  have "reidomed lt lt'" using e(3) r(3) unfolding relabelled_def reidomed_def by (elim exE) (simp, blast)
  moreover have "\<forall>x \<in> set (v # items). \<exists>e. hm_get (lt_idom lt') x = Some e \<and> first_idom x e"
    using r(4,5) fst by (cases "v \<in> set items") (auto simp: hm_get_insert)
  moreover have "\<forall>x. x \<notin> set (v # items) \<longrightarrow> hm_get (lt_idom lt') x = hm_get (lt_idom lt) x"
    using r(5) relabelledD [OF e(3)] by (auto simp: hm_get_insert)
  moreover have "idom_keys lt \<longrightarrow> idom_keys lt'" using r(6) relabelledD [OF e(3)] by (simp add: idom_keys_def hm_ok_insert)
  ultimately show ?case using r(1,2) step by auto
qed

definition bucket_of :: "LengauerTarjan \<Rightarrow> NodeId \<Rightarrow> NodeId list" where
  "bucket_of lt d = (case hm_get (lt_bucket lt) (of_nat (num d)) of Some items \<Rightarrow> items | None \<Rightarrow> [])"

definition pending :: "nat \<Rightarrow> NodeId \<Rightarrow> NodeId set" where
  "pending k d = {v \<in> V. k < num v \<and> sd v = d \<and> \<not> passed k d v}"

definition idoms :: "nat \<Rightarrow> LengauerTarjan \<Rightarrow> bool" where
  "idoms k lt \<longleftrightarrow> idom_keys lt \<and> (\<forall>v. hm_get (lt_idom lt) v \<noteq> None \<longrightarrow> v \<in> V \<and> v \<noteq> r)
     \<and> (\<forall>v \<in> V. k < num v \<longrightarrow> passed k (sd v) v \<longrightarrow> (\<exists>e. hm_get (lt_idom lt) v = Some e \<and> first_idom v e))"

definition stage :: "nat \<Rightarrow> LengauerTarjan \<Rightarrow> bool" where
  "stage k lt \<longleftrightarrow> forest k lt \<and> tables lt \<and> (\<forall>d \<in> V. set (bucket_of lt d) = pending k d) \<and> idoms k lt
     \<and> (\<forall>x \<in> V. num x \<le> k \<longrightarrow> hm_get (lt_semi lt) x = Some (of_nat (num x)))"

lemma forest_link:
  assumes "forest (Suc j) lt" "num w = Suc j" "(p, w) \<in> tree" "hm_get (lt_semi lt) w = Some (of_nat (num (sd w)))"
  shows "forest j (link w p lt)"
proof -
  have w: "w \<in> V" "num p < num w" using tree_edge [OF assms(3)] by simp_all
  have "num r \<le> j" using num_r [of p] tree_edge [OF assms(3)] assms(2) by simp
  moreover have "\<exists>a l. linked_ok j (link w p lt) v a l" if v: "v \<in> V" "j < num v" for v
  proof (cases "v = w")
    case True
    have "j < num x \<and> num (sd w) \<le> num (sd x)" if "(p, x) \<in> tree\<^sup>*" "x \<noteq> p" "(x, w) \<in> tree\<^sup>*" for x
    proof -
      have "x = w" using child_above [OF assms(3) that(3)] anc_less [OF that(1)] anc_num [of x p] that(2) by force
      then show ?thesis using assms(2) by simp
    qed
    then have "linked_ok j (link w p lt) w p w"
      using forestD(3) [OF assms(1) w(1)] assms(2,3) w(2) by (auto simp: linked_ok_def link_def hm_get_insert)
    then show ?thesis using True by blast
  next
    case False
    then have "Suc j < num v" using v num_eq [OF w(1) v(1)] assms(2) by simp
    then obtain a l where "linked_ok (Suc j) lt v a l" using forestD(5) [OF assms(1) v(1)] by blast
    then show ?thesis using False by (fastforce simp: linked_ok_def link_def hm_get_insert)
  qed
  moreover have "hm_get (lt_semi lt) v = Some (of_nat (num (sd v)))" if v: "v \<in> V" "j < num v" for v
    using forestD(4) [OF assms(1) v(1)] num_eq [OF w(1) v(1)] assms(2,4) v(2) by (cases "v = w") auto
  ultimately show ?thesis using assms(1,2) unfolding forest_def by (auto simp: link_def hm_get_insert)
qed

lemma passed_step:
  assumes "(p, w) \<in> tree" "num w = Suc j" "passed j d v" "\<not> passed (Suc j) d v"
  shows "d = p \<and> (w, v) \<in> tree\<^sup>*"
proof -
  obtain c where c: "(d, c) \<in> tree" "(c, v) \<in> tree\<^sup>*" "num c = num w"
    using assms(2-4) unfolding passed_def by (metis Suc_lessI)
  then have "c = w" using num_eq [of c w] tree_edge [OF c(1)] tree_edge [OF assms(1)] by blast
  then show ?thesis using c parent_unique assms(1) by blast
qed

text \<open>What moves from the buckets when \<open>w\<close> with parent \<open>p\<close> is processed.\<close>

lemma pending_step:
  assumes "(p, w) \<in> tree" "num w = Suc j" "w \<in> V" "w \<noteq> r" "num r \<le> j"
  shows "pending j p = {}" "d \<noteq> p \<Longrightarrow> pending j d = (if sd w = d then insert w (pending (Suc j) d) else pending (Suc j) d)"
proof -
  have mono: "passed j d v" if "passed (Suc j) d v" for d v using that by (auto simp: passed_def)
  show "pending j p = {}"
  proof (rule ccontr)
    assume "pending j p \<noteq> {}"
    then obtain v where v: "v \<in> V" "j < num v" "sd v = p" "\<not> passed j p v" by (auto simp: pending_def)
    have vr: "v \<noteq> r" using v(2) assms(5) by auto
    obtain c where c: "(p, c) \<in> tree" "(c, v) \<in> tree\<^sup>*" using sd_child [OF v(1) vr] v(3) by blast
    have "num w \<le> num c" using child_not_below [OF assms(1) c v(1)] v(2) assms(2) by simp
    then show False using v(4) c assms(2) by (auto simp: passed_def)
  qed
  show "pending j d = (if sd w = d then insert w (pending (Suc j) d) else pending (Suc j) d)" if "d \<noteq> p"
  proof -
    have same: "passed j d v = passed (Suc j) d v" for v using passed_step [OF assms(1,2)] mono that by blast
    have "\<not> passed (Suc j) d w" using anc_num [of _ w] assms(2) by (force simp: passed_def)
    moreover have "j < num v \<longleftrightarrow> v = w \<or> Suc j < num v" if "v \<in> V" for v using num_eq [OF assms(3) that] assms(2) by auto
    ultimately show ?thesis using assms(3) by (auto simp: pending_def same)
  qed
qed

lemma bucket_push:
  assumes "small" "d \<in> V" "e \<in> V"
  shows "bucket_of (push_bucket (of_nat (num d)) w lt) e = (if d = e then bucket_of lt e @ [w] else bucket_of lt e)"
  using less_of_nat(2) [OF assms] by (auto simp: bucket_of_def push_bucket_def hm_get_insert)

lemma bucket_removed:
  assumes "small" "d \<in> V" "e \<in> V"
  shows "bucket_of (lt\<lparr>lt_bucket := hm_remove (of_nat (num d)) (lt_bucket lt)\<rparr>) e = (if d = e then [] else bucket_of lt e)"
  using less_of_nat(2) [OF assms] by (auto simp: bucket_of_def hm_get_remove)

lemma idoms_step:
  assumes "idoms (Suc j) lt" "(p, w) \<in> tree" "num w = Suc j" "w \<in> V" "w \<noteq> r" "num r \<le> j"
    and items: "items = (if sd w = p then insert w (pending (Suc j) p) else pending (Suc j) p)"
    and new: "\<forall>v \<in> items. \<exists>e. hm_get (lt_idom lt') v = Some e \<and> first_idom v e"
    and old: "\<forall>v. v \<notin> items \<longrightarrow> hm_get (lt_idom lt') v = hm_get (lt_idom lt) v" and ok: "idom_keys lt'"
  shows "idoms j lt'"
proof -
  have "\<exists>e. hm_get (lt_idom lt') v = Some e \<and> first_idom v e" if v: "v \<in> V" "j < num v" "passed j (sd v) v" for v
  proof (cases "v \<in> items")
    case False
    have "v \<noteq> w"
    proof
      assume "v = w"
      then have "\<not> passed (Suc j) (sd v) v" using anc_num [of _ w] assms(3) by (force simp: passed_def)
      then have "sd w = p" using passed_step [OF assms(2,3) v(3)] \<open>v = w\<close> by simp
      then show False using False items \<open>v = w\<close> by simp
    qed
    then have n: "Suc j < num v" using num_eq [OF assms(4) v(1)] v(2) assms(3) by simp
    have "passed (Suc j) (sd v) v"
    proof (rule ccontr)
      assume np: "\<not> passed (Suc j) (sd v) v"
      then have "sd v = p" using passed_step [OF assms(2,3) v(3)] by simp
      then have "v \<in> pending (Suc j) p" using v(1) n np by (simp add: pending_def)
      then show False using False items by (simp split: if_splits)
    qed
    then show ?thesis using assms(1) v(1) n old False by (simp add: idoms_def)
  qed (use new in blast)
  moreover have "v \<in> V \<and> v \<noteq> r" if "hm_get (lt_idom lt') v \<noteq> None" for v
  proof (cases "v \<in> items")
    case True
    then show ?thesis using items assms(4,5,6) by (auto simp: pending_def split: if_splits)
  next
    case False
    then show ?thesis using old that assms(1) by (simp add: idoms_def)
  qed
  ultimately show ?thesis using ok by (simp add: idoms_def)
qed

lemma items_below:
  assumes "(p, w) \<in> tree" "num w = Suc j" "w \<in> V" "num r \<le> j"
    and "v \<in> (if sd w = p then insert w (pending (Suc j) p) else pending (Suc j) p)"
  shows "v \<in> V \<and> sd v = p \<and> (w, v) \<in> tree\<^sup>*"
proof (cases "v = w \<and> sd w = p")
  case False
  then have "v \<in> pending (Suc j) p" using assms(5) by (auto split: if_splits)
  then have v: "v \<in> V" "Suc j < num v" "sd v = p" "\<not> passed (Suc j) p v" by (auto simp: pending_def)
  have "v \<noteq> r" using v(2) assms(4) by auto
  then have "(w, v) \<in> tree\<^sup>*" using pending_below [OF v(1), of w] v assms(1,2) by simp
  then show ?thesis using v by simp
qed (use assms(3) in simp)

lemma lt_step_spec:
  assumes "small" "stage (Suc j) lt" "w \<in> V" "w \<noteq> r" "num w = Suc j"
    and "flow s (against dir) w = Some preds" "set preds = {v. (v, w) \<in> E}"
  shows "\<exists>lt'. lt_step s dir (Suc j) lt = Some lt' \<and> stage j lt'"
proof -
  have st: "forest (Suc j) lt" "tables lt" "\<And>d. d \<in> V \<Longrightarrow> set (bucket_of lt d) = pending (Suc j) d" "idoms (Suc j) lt"
    "\<forall>x \<in> V. num x \<le> Suc j \<longrightarrow> hm_get (lt_semi lt) x = Some (of_nat (num x))" using assms(2) by (auto simp: stage_def)
  obtain p where p: "(p, w) \<in> tree" using spans [OF assms(3)] assms(4) by (metis rtranclE)
  have pV: "p \<in> V" "num p < Suc j" "num r \<le> j" using tree_edge [OF p] num_r [of p] assms(5) by auto
  have at: "at (lt_vertex lt) (Suc j) = Some w" using st(2) assms(3,5) by (auto simp: tables_def)
  obtain lt1 d where l: "lower_semi w preds lt = Some lt1" "forest (Suc j) lt1" "resemied lt lt1"
      "hm_get (lt_semi lt1) = (hm_get (lt_semi lt))(w \<mapsto> of_nat (num d))" "candidate w d" "num d \<le> num w" "\<forall>v \<in> set preds \<inter> V. beats (Suc j) d v"
    using lower_semi_spec [OF assms(1,5,3) _ st(1,2), of preds w] st(5) assms(3,5,7) by (auto simp: candidate_def)
  have d: "d = sd w" using best_candidate [OF assms(3,4) l(5,6)] l(7) assms(5,7) by auto
  note s1 = resemiedD [OF l(3)]
  have sV: "sd w \<in> V" using sd_V [OF assms(3,4)] .
  let ?lt2 = "push_bucket (of_nat (num (sd w))) w lt1"
  let ?lt3 = "link w p ?lt2"
  let ?lt4 = "?lt3\<lparr>lt_bucket := hm_remove (of_nat (num p)) (lt_bucket ?lt3)\<rparr>"
  define items where "items = (if sd w = p then insert w (pending (Suc j) p) else pending (Suc j) p)"
  have b1: "bucket_of lt1 e = bucket_of lt e" for e using s1 by (simp add: bucket_of_def)
  have b3: "bucket_of ?lt3 e = bucket_of ?lt2 e" for e by (simp add: bucket_of_def link_def)
  have it: "set (bucket_of ?lt3 p) = items"
    using bucket_push [OF assms(1) sV pV(1)] st(3) [OF pV(1)] by (simp add: b1 b3 items_def)
  have "forest (Suc j) ?lt2" using l(2) by (simp add: push_bucket_def)
  then have f3: "forest j ?lt3" by (rule forest_link) (simp_all add: assms(5) p push_bucket_def l(4) d)
  have f4: "forest j ?lt4" using f3 by simp
  have bel: "\<forall>v \<in> set (bucket_of ?lt3 p). v \<in> V \<and> sd v = p \<and> (w, v) \<in> tree\<^sup>*"
    using items_below [OF p assms(5,3) pV(3)] unfolding it items_def by blast
  obtain lt' where e: "empty_bucket p (bucket_of ?lt3 p) ?lt4 = Some lt'" "forest j lt'" "reidomed ?lt4 lt'"
      "\<forall>v \<in> items. \<exists>e. hm_get (lt_idom lt') v = Some e \<and> first_idom v e"
      "\<forall>v. v \<notin> items \<longrightarrow> hm_get (lt_idom lt') v = hm_get (lt_idom ?lt4) v" "idom_keys ?lt4 \<longrightarrow> idom_keys lt'"
    using empty_bucket_spec [OF assms(1,5) p f4 bel] unfolding it by blast
  note s4 = reidomedD [OF e(3)]
  have keep: "lt_dfs_num ?lt4 = lt_dfs_num lt" "lt_vertex ?lt4 = lt_vertex lt" "lt_parent ?lt4 = lt_parent lt" "lt_idom ?lt4 = lt_idom lt"
      "lt_semi ?lt4 = lt_semi lt1" using s1 by (simp_all add: link_def push_bucket_def)
  have "hm_get (lt_parent ?lt2) w = Some p" "hm_get (lt_dfs_num ?lt3) p = Some (of_nat (num p))"
    using st(2) p pV(1) s1 by (simp_all add: tables_def push_bucket_def link_def)
  then have "lt_step s dir (Suc j) lt = Some lt'"
    using e(1) l(1,4) d unfolding lt_step_def at by (simp add: assms(6) bucket_of_def Let_def)
  moreover have "tables lt'" using st(2) s4 keep by (simp add: tables_def)
  moreover have "set (bucket_of lt' e) = pending j e" if "e \<in> V" for e
  proof -
    have "bucket_of lt' e = bucket_of ?lt4 e" using s4 by (simp add: bucket_of_def)
    then show ?thesis
      using bucket_removed [OF assms(1) pV(1) that, of ?lt3] bucket_push [OF assms(1) sV that] st(3) [OF that]
        pending_step [OF p assms(5,3,4) pV(3)] by (auto simp: b1 b3 split: if_splits)
  qed
  moreover have "idoms j lt'"
  proof (rule idoms_step [OF st(4) p assms(5,3,4) pV(3) items_def e(4)])
    show "\<forall>v. v \<notin> items \<longrightarrow> hm_get (lt_idom lt') v = hm_get (lt_idom lt) v" using e(5) keep(4) by simp
    have "idom_keys ?lt4" using st(4) unfolding idoms_def idom_keys_def keep(4) by blast
    then show "idom_keys lt'" using e(6) by blast
  qed
  moreover have "\<forall>x \<in> V. num x \<le> j \<longrightarrow> hm_get (lt_semi lt') x = Some (of_nat (num x))" using st(5) s4 keep(5) l(4) assms(5) by auto
  ultimately show ?thesis using e(2) by (auto simp: stage_def)
qed

lemma lt_steps_spec:
  assumes "small" "m \<le> n" "num r = 1" "\<forall>i. 2 \<le> i \<and> i \<le> n \<longrightarrow> (\<exists>w \<in> V. num w = i)"
    and "\<And>w. w \<in> V \<Longrightarrow> \<exists>preds. flow s (against dir) w = Some preds \<and> set preds = {v. (v, w) \<in> E}"
    and "stage m lt" "1 \<le> m"
  shows "\<exists>lt'. lt_steps s dir (rev [2..<Suc m]) lt = Some lt' \<and> stage 1 lt'"
  using assms(2,6,7)
proof (induction m arbitrary: lt)
  case (Suc j)
  show ?case
  proof (cases "j = 0")
    case True
    then show ?thesis using Suc.prems by simp
  next
    case False
    then obtain w where w: "w \<in> V" "num w = Suc j" using assms(4) Suc.prems(1) by (metis One_nat_def Suc_leI not_gr_zero numeral_2_eq_2 Suc_le_mono)
    have wr: "w \<noteq> r" using w(2) assms(3) False by auto
    obtain preds where "flow s (against dir) w = Some preds" "set preds = {v. (v, w) \<in> E}" using assms(5) w(1) by blast
    from lt_step_spec [OF assms(1) Suc.prems(2) w(1) wr w(2) this] obtain lt1 where s1: "lt_step s dir (Suc j) lt = Some lt1" "stage j lt1" by blast
    have "rev [2..<Suc (Suc j)] = Suc j # rev [2..<Suc j]" using False by simp
    moreover obtain lt' where "lt_steps s dir (rev [2..<Suc j]) lt1 = Some lt'" "stage 1 lt'"
      using Suc.IH [OF _ s1(2)] Suc.prems(1) False by auto
    ultimately show ?thesis using s1(1) by (simp del: upt.simps)
  qed
qed simp

lemma stage_end:
  assumes "stage 1 lt" "num r = 1" "v \<in> V" "v \<noteq> r"
  shows "\<exists>e. hm_get (lt_idom lt) v = Some e \<and> first_idom v e" "hm_get (lt_semi lt) v = Some (of_nat (num (sd v)))"
proof -
  have n: "1 < num v" using num_r [OF assms(3)] num_eq [OF root assms(3)] assms(2,4) by auto
  obtain c where c: "(sd v, c) \<in> tree" "(c, v) \<in> tree\<^sup>*" using sd_child [OF assms(3,4)] .
  have "1 < num c" using tree_edge [OF c(1)] num_r [of "sd v"] assms(2) by auto
  then have "passed 1 (sd v) v" using c by (auto simp: passed_def)
  then show "\<exists>e. hm_get (lt_idom lt) v = Some e \<and> first_idom v e" using assms(1,3) n by (simp add: stage_def idoms_def)
  show "hm_get (lt_semi lt) v = Some (of_nat (num (sd v)))" using assms(1) forestD(4) [of 1 lt v] assms(3) n by (simp add: stage_def)
qed

section \<open>Immediate dominators\<close>

definition final_idoms :: "nat \<Rightarrow> LengauerTarjan \<Rightarrow> bool" where
  "final_idoms i lt \<longleftrightarrow> tables lt \<and> idom_keys lt \<and> (\<forall>v. hm_get (lt_idom lt) v \<noteq> None \<longrightarrow> v \<in> V \<and> v \<noteq> r)
     \<and> (\<forall>v \<in> V. v \<noteq> r \<longrightarrow> hm_get (lt_semi lt) v = Some (of_nat (num (sd v)))
        \<and> (\<exists>e. hm_get (lt_idom lt) v = Some e \<and> (if num v < i then idom_of E r e v else first_idom v e)))"

lemma between_not_root: "(d, u) \<in> tree\<^sup>* \<Longrightarrow> u \<noteq> d \<Longrightarrow> d \<in> V \<Longrightarrow> u \<noteq> r"
  using anc_less [of d u] num_r [of d] by force

lemma first_idom_final:
  assumes "w \<in> V" "w \<noteq> r" "(sd w, u) \<in> tree\<^sup>*" "u \<noteq> sd w" "(u, w) \<in> tree\<^sup>*"
    and min: "\<forall>x. (sd w, x) \<in> tree\<^sup>* \<longrightarrow> x \<noteq> sd w \<longrightarrow> (x, w) \<in> tree\<^sup>* \<longrightarrow> num (sd u) \<le> num (sd x)"
  shows "\<not> num (sd u) < num (sd w) \<Longrightarrow> idom_of E r (sd w) w"
    "num (sd u) < num (sd w) \<Longrightarrow> idom_of E r f u \<Longrightarrow> idom_of E r f w"
proof -
  note s = sd [OF assms(1,2)]
  have uV: "u \<in> V" "u \<noteq> r" using anc_in_V [OF assms(5,1)] between_not_root [OF assms(3,4) sd_V [OF assms(1,2)]] by auto
  have low: "num (sd u) \<le> num t" if "(sd w, y) \<in> tree\<^sup>*" "y \<noteq> sd w" "(y, w) \<in> tree\<^sup>*" "is_semi E V num t y" for y t
    using min that sd_eq by blast
  show "idom_of E r (sd w) w" if n: "\<not> num (sd u) < num (sd w)"
  proof (rule semi_is_idom [OF s assms(1,2) _ semi_exists])
    fix y t assume "(sd w, y) \<in> tree\<^sup>*" "y \<noteq> sd w" "(y, w) \<in> tree\<^sup>*" "is_semi E V num t y"
    from low [OF this] n show "num (sd w) \<le> num t" by simp
  qed
  show "idom_of E r f w" if "num (sd u) < num (sd w)" "idom_of E r f u"
    by (rule same_idom [OF s assms(1-5) sd [OF uV] that low semi_exists])
qed

lemma final_idoms_Suc:
  assumes "final_idoms (num w) lt" "w \<in> V" "w \<noteq> r" "hm_get (lt_idom lt') = (hm_get (lt_idom lt))(w \<mapsto> f)" "idom_of E r f w"
    and "tables lt'" "lt_semi lt' = lt_semi lt" "idom_keys lt'"
  shows "final_idoms (Suc (num w)) lt'"
proof -
  have "\<exists>e. hm_get (lt_idom lt') v = Some e \<and> (if num v < Suc (num w) then idom_of E r e v else first_idom v e)" if v: "v \<in> V" "v \<noteq> r" for v
  proof (cases "v = w")
    case False
    then have "num v < Suc (num w) \<longleftrightarrow> num v < num w" using num_eq [OF v(1) assms(2)] by auto
    then show ?thesis using assms(1,4) v False by (simp add: final_idoms_def)
  qed (use assms(4,5) in simp)
  then show ?thesis using assms by (auto simp: final_idoms_def)
qed

lemma finalize_step:
  assumes "small" "final_idoms (num w) lt" "w \<in> V" "w \<noteq> r"
  shows "\<exists>lt'. final_idoms (Suc (num w)) lt' \<and> lt_vertex lt' = lt_vertex lt \<and> (\<forall>is. finalize_idoms (num w # is) lt = finalize_idoms is lt')"
proof -
  have st: "tables lt" "\<And>v. v \<in> V \<Longrightarrow> v \<noteq> r \<Longrightarrow> hm_get (lt_semi lt) v = Some (of_nat (num (sd v)))
      \<and> (\<exists>e. hm_get (lt_idom lt) v = Some e \<and> (if num v < num w then idom_of E r e v else first_idom v e))"
    using assms(2) by (auto simp: final_idoms_def)
  have at: "at (lt_vertex lt) (num w) = Some w" using st(1) assms(3) by (simp add: tables_def)
  obtain e where e: "hm_get (lt_idom lt) w = Some e" "first_idom w e" using st(2) [OF assms(3,4)] by auto
  then obtain u where u: "(sd w, u) \<in> tree\<^sup>*" "u \<noteq> sd w" "(u, w) \<in> tree\<^sup>*"
      "\<forall>x. (sd w, x) \<in> tree\<^sup>* \<longrightarrow> x \<noteq> sd w \<longrightarrow> (x, w) \<in> tree\<^sup>* \<longrightarrow> num (sd u) \<le> num (sd x)"
      "e = (if num (sd u) < num (sd w) then u else sd w)" by (auto simp: first_idom_def)
  note fin = first_idom_final [OF assms(3,4) u(1-4)]
  have V: "u \<in> V" "u \<noteq> r" "sd w \<in> V"
    using anc_in_V [OF u(3) assms(3)] between_not_root [OF u(1,2)] sd_V [OF assms(3,4)] by auto
  have num: "hm_get (lt_dfs_num lt) x = Some (of_nat (num x))" if "x \<in> V" for x using st(1) that by (simp add: tables_def)
  show ?thesis
  proof (cases "num (sd u) < num (sd w)")
    case False
    then have "idom_of E r e w" using fin(1) u(5) by simp
    moreover have "finalize_idoms (num w # is) lt = finalize_idoms is lt" for "is"
      using at e(1) False u(5) num [OF V(3)] st(2) [OF assms(3,4)] by simp
    moreover have "final_idoms (Suc (num w)) lt"
      using final_idoms_Suc [OF assms(2-4) _ calculation(1) st(1) refl] e(1) assms(2) by (simp add: fun_upd_idem final_idoms_def)
    ultimately show ?thesis by blast
  next
    case True
    then have "u \<noteq> w" by auto
    then have "num u < num w" using anc_less [OF u(3)] by simp
    then obtain f where f: "hm_get (lt_idom lt) u = Some f" "idom_of E r f u" using st(2) [OF V(1,2)] by auto
    let ?lt = "lt\<lparr>lt_idom := hm_insert w f (lt_idom lt)\<rparr>"
    have "idom_of E r f w" using fin(2) [OF True f(2)] .
    moreover have "finalize_idoms (num w # is) lt = finalize_idoms is ?lt" for "is"
      using at e(1) True u(5) num [OF V(1)] st(2) [OF assms(3,4)] less_of_nat(2) [OF assms(1) V(1,3)] u(2) f(1) by simp
    moreover have "final_idoms (Suc (num w)) ?lt"
    proof (rule final_idoms_Suc [OF assms(2-4) _ calculation(1)])
      have "hm_ok (lt_idom lt)" using assms(2) unfolding final_idoms_def idom_keys_def by blast
      then show "idom_keys ?lt" unfolding idom_keys_def by (simp add: hm_ok_insert)
    qed (use st(1) in \<open>simp_all add: tables_def hm_get_insert\<close>)
    moreover have "lt_vertex ?lt = lt_vertex lt" by simp
    ultimately show ?thesis by blast
  qed
qed

lemma finalize_spec:
  assumes "small" "num r = 1" "\<forall>i. 2 \<le> i \<and> i \<le> n \<longrightarrow> (\<exists>w \<in> V. num w = i)" "final_idoms i lt" "2 \<le> i"
  shows "\<exists>lt'. finalize_idoms [i..<Suc n] lt = Some lt' \<and> lt_vertex lt' = lt_vertex lt \<and> final_idoms (max i (Suc n)) lt'"
  using assms(4,5)
proof (induction "Suc n - i" arbitrary: i lt)
  case 0
  then have "[i..<Suc n] = []" "max i (Suc n) = i" by auto
  then show ?case using 0 by simp
next
  case (Suc m)
  then have le: "i \<le> n" by simp
  then obtain w where w: "w \<in> V" "num w = i" using assms(3) Suc.prems(2) by blast
  have "w \<noteq> r" using w(2) assms(2) Suc.prems(2) by auto
  from finalize_step [OF assms(1) _ w(1) this] Suc.prems(1) w(2) obtain lt1 where
      l: "final_idoms (Suc i) lt1" "lt_vertex lt1 = lt_vertex lt" "\<forall>is. finalize_idoms (i # is) lt = finalize_idoms is lt1" by auto
  have "m = Suc n - Suc i" "2 \<le> Suc i" using Suc.hyps(2) Suc.prems(2) by simp_all
  from Suc.hyps(1) [OF this(1) l(1) this(2)] obtain lt' where
      r: "finalize_idoms [Suc i..<Suc n] lt1 = Some lt'" "lt_vertex lt' = lt_vertex lt1" "final_idoms (max (Suc i) (Suc n)) lt'" by blast
  have "[i..<Suc n] = i # [Suc i..<Suc n]" using le by (simp add: upt_rec)
  moreover have "max i (Suc n) = max (Suc i) (Suc n)" using le by simp
  ultimately show ?case using r l by (auto simp del: upt.simps)
qed

text \<open>The depth of a node in the dominator tree is the number of its strict dominators.\<close>

lemma reachable: "w \<in> V \<Longrightarrow> (r, w) \<in> E\<^sup>*"
  using tree_walk [OF spans] reach_walks by metis

lemma idom_below:
  assumes "idom_of E r d w" "w \<in> V"
  shows "d \<in> V" "num d < num w"
  using assms dom_anc [of d w] anc_in_V anc_less by (auto simp: idom_of_def)

lemma tree_depths_spec:
  assumes "num r = 1" "\<forall>i. 2 \<le> i \<and> i \<le> n \<longrightarrow> (\<exists>w \<in> V. num w = i)" "final_idoms (Suc n) lt" "2 \<le> i" "\<forall>v \<in> V. num v \<le> n"
    and "hm_get depths = (\<lambda>x. if x \<in> V \<and> num x < i then Some (of_nat (card (sdoms E r x))) else None)"
  shows "\<exists>depths'. tree_depths lt [i..<Suc n] depths = Some depths'
    \<and> hm_get depths' = (\<lambda>x. if x \<in> V \<and> num x < max i (Suc n) then Some (of_nat (card (sdoms E r x))) else None)"
  using assms(4,6)
proof (induction "Suc n - i" arbitrary: i depths)
  case 0
  then have "[i..<Suc n] = []" "max i (Suc n) = i" by auto
  then show ?case using 0 by simp
next
  case (Suc m)
  then have le: "i \<le> n" by simp
  then obtain w where w: "w \<in> V" "num w = i" using assms(2) Suc.prems(1) by blast
  have wr: "w \<noteq> r" using w(2) assms(1) Suc.prems(1) by auto
  obtain d where d: "hm_get (lt_idom lt) w = Some d" "idom_of E r d w" 
    using assms(3) w wr le unfolding final_idoms_def by auto
  note b = idom_below [OF d(2) w(1)]
  have at: "at (lt_vertex lt) i = Some w" using assms(3) w by (auto simp: final_idoms_def tables_def)
  let ?depths = "hm_insert w (of_nat (card (sdoms E r w))) depths"
  have "hm_get depths d = Some (of_nat (card (sdoms E r d)))" using Suc.prems(2) b w(2) by simp
  then have step: "tree_depths lt (i # is) depths = tree_depths lt is ?depths" for "is"
    using at d(1) depth_idom [OF d(2) reachable [OF w(1)]] by (simp add: add.commute)
  have "hm_get ?depths = (\<lambda>x. if x \<in> V \<and> num x < Suc i then Some (of_nat (card (sdoms E r x))) else None)"
  proof
    fix x show "hm_get ?depths x = (if x \<in> V \<and> num x < Suc i then Some (of_nat (card (sdoms E r x))) else None)"
      using num_eq [of x w] w by (cases "x = w") (auto simp: hm_get_insert Suc.prems(2))
  qed
  moreover have "m = Suc n - Suc i" "2 \<le> Suc i" using Suc.hyps(2) Suc.prems(1) by simp_all
  ultimately obtain depths' where "tree_depths lt [Suc i..<Suc n] ?depths = Some depths'"
      "hm_get depths' = (\<lambda>x. if x \<in> V \<and> num x < max (Suc i) (Suc n) then Some (of_nat (card (sdoms E r x))) else None)"
    using Suc.hyps(1) by blast
  moreover have "[i..<Suc n] = i # [Suc i..<Suc n]" using le by (simp add: upt_rec)
  moreover have "max i (Suc n) = max (Suc i) (Suc n)" using le by simp
  ultimately show ?case using step by (simp del: upt.simps)
qed

end

interpretation lt: semi_tree "flow_edges s dir" r "set (dfs_order s dir r)" "dfs_number (dfs_order s dir r)"
    "par_rel (lt_parent (dfs_result s dir r))" for s dir r
  by (rule semi_tree.intro, rule dfs.dfs_tree_axioms)

section \<open>The whole run\<close>

lemma dfs_reaches: "set (dfs_order s dir r) = (flow_edges s dir)\<^sup>* `` {r}"
proof
  show "set (dfs_order s dir r) \<subseteq> (flow_edges s dir)\<^sup>* `` {r}"
    using dfs.tree_walk [OF dfs.spans] reach_walks by fastforce
  show "(flow_edges s dir)\<^sup>* `` {r} \<subseteq> set (dfs_order s dir r)"
    using dfs.reach_V [OF dfs.root] by blast
qed

lemma dfs_tables: "lt.tables s dir r (dfs_result s dir r)"
proof -
  note N = dfs_done(1) [of s dir r, unfolded numbered_def]
  have "at (lt_vertex (dfs_result s dir r)) (dfs_number (dfs_order s dir r) x) = Some x" if "x \<in> set (dfs_order s dir r)" for x
    using N dfs_number_nth [OF that] dfs_number_bound [OF that] by (simp add: at_def) (simp add: dfs_number_def)
  then show ?thesis unfolding lt.tables_def using N by (simp add: par_rel_def)
qed

lemma dfs_order_ne: "dfs_order s dir r \<noteq> []"
  using dfs.root [of r s dir] by auto

lemma dfs_root_number: "dfs_number (dfs_order s dir r) r = 1"
proof -
  let ?o = "dfs_order s dir r"
  have h: "hd ?o \<in> set ?o" using dfs_order_ne [of s dir r] by simp
  have "dfs_number ?o (hd ?o) = 1" using dfs_order_ne [of s dir r] by (cases ?o) (auto simp: dfs_number_def)
  then have "dfs_number ?o r \<le> 1" using dfs.anc_num [OF dfs.spans [OF h]] by simp
  then show ?thesis by (simp add: dfs_number_def)
qed

lemma dfs_number_at:
  assumes "i < length (dfs_order s dir r)"
  shows "dfs_number (dfs_order s dir r) (dfs_order s dir r ! i) = Suc i"
proof -
  let ?o = "dfs_order s dir r"
  let ?k = "dfs_number ?o (?o ! i) - 1"
  have w: "?o ! i \<in> set ?o" using assms by simp
  have "?k < length ?o" using dfs_number_bound [OF w] assms by (simp add: dfs_number_def)
  moreover have "?o ! ?k = ?o ! i" by (rule dfs_number_nth [OF w])
  moreover have "distinct ?o" by (rule dfs_invD(1) [OF dfs_done(2)])
  ultimately have "?k = i" using assms nth_eq_iff_index_eq [of ?o ?k i] by simp
  then show ?thesis by (simp add: dfs_number_def)
qed

lemma dfs_number_onto: "1 \<le> i \<Longrightarrow> i \<le> length (dfs_order s dir r) \<Longrightarrow> \<exists>w \<in> set (dfs_order s dir r). dfs_number (dfs_order s dir r) w = i"
  using dfs_number_at [of "i - 1" s dir r] by (intro bexI [of _ "dfs_order s dir r ! (i - 1)"]) auto

lemma those_Some: "those (map Some xs) = Some xs"
  by (induction xs) simp_all

lemma vertices_of_tables:
  assumes "lt.tables s dir r lt"
  shows "those (map (at (lt_vertex lt)) [1..<Suc (length (dfs_order s dir r))]) = Some (dfs_order s dir r)"
proof -
  let ?o = "dfs_order s dir r"
  have "at (lt_vertex lt) (Suc i) = Some (?o ! i)" if "i < length ?o" for i
    using assms dfs_number_at [OF that] nth_mem [OF that] unfolding lt.tables_def by metis
  then have "map (at (lt_vertex lt)) [1..<Suc (length ?o)] = map Some ?o"
    by (intro nth_equalityI) (auto simp: nth_append simp del: upt.simps)
  then show ?thesis by (simp only: those_Some)
qed

lemma start_stage: "lt.stage s dir r (length (dfs_order s dir r)) (dfs_result s dir r)"
proof -
  note N = dfs_done(1) [of s dir r, unfolded numbered_def]
  let ?n = "length (dfs_order s dir r)"
  have le: "dfs_number (dfs_order s dir r) v \<le> ?n" if "v \<in> set (dfs_order s dir r)" for v using dfs_number_bound [OF that] .
  then have "lt.pending s dir r ?n d = {}" for d by (force simp: lt.pending_def)
  moreover have "lt.forest s dir r ?n (dfs_result s dir r)" unfolding lt.forest_def using le dfs.root N by force
  moreover have "lt.idoms s dir r ?n (dfs_result s dir r)" 
  proof -
    have "lt_idom (dfs_result s dir r) = []" using N by simp
    then show ?thesis unfolding lt.idoms_def idom_keys_def using le [THEN leD] by auto
  qed
  ultimately show ?thesis using N dfs_tables unfolding lt.stage_def lt.bucket_of_def by simp
qed

lemma idom_unique:
  assumes "idom_of (flow_edges s dir) r d w" "idom_of (flow_edges s dir) r d' w" "w \<in> set (dfs_order s dir r)"
  shows "d = d'"
  using assms dom_antisym [of "flow_edges s dir" r d d'] lt.idom_below(1) lt.reachable by (auto simp: idom_of_def)

text \<open>What the algorithm promises of its result.\<close>

definition dominator_tree :: "(NodeId \<times> NodeId) set \<Rightarrow> NodeId \<Rightarrow> DominatorTree \<Rightarrow> bool" where
  "dominator_tree E r t \<longleftrightarrow> dt_entry t = r \<and> dt_nodes t = E\<^sup>* `` {r} \<and> hm_ok (dt_idom t)
     \<and> (\<forall>w d. idom t w = Some d \<longleftrightarrow> w \<in> E\<^sup>* `` {r} \<and> w \<noteq> r \<and> idom_of E r d w)
     \<and> (\<forall>w \<in> E\<^sup>* `` {r}. w \<noteq> r \<longrightarrow> idom t w \<noteq> None)
     \<and> (\<forall>w. depth t w = (if w \<in> E\<^sup>* `` {r} then Some (of_nat (card (sdoms E r w))) else None))"

lemma lt_run_spec:
  assumes "length (dfs_order s dir r) < 2 ^ 32"
    and preds: "\<And>w. w \<in> set (dfs_order s dir r) \<Longrightarrow> \<exists>preds. flow s (against dir) w = Some preds \<and> set preds = {v. (v, w) \<in> flow_edges s dir}"
  shows "\<exists>t. lt_run s dir r lt_new = Some t \<and> dominator_tree (flow_edges s dir) r t"
proof -
  let ?o = "dfs_order s dir r" and ?lt = "dfs_result s dir r" and ?E = "flow_edges s dir"
  let ?n = "length ?o"
  have small: "lt.small s dir r" using assms(1) dfs_number_bound [of _ ?o] unfolding lt.small_def by (meson le_less_trans)
  have onto: "\<forall>i. 2 \<le> i \<and> i \<le> ?n \<longrightarrow> (\<exists>w \<in> set ?o. dfs_number ?o w = i)" using dfs_number_onto by auto
  have one: "1 \<le> ?n" using dfs_order_ne [of s dir r] by (cases ?o) auto
  have n: "unat (lt_n ?lt) = ?n" using dfs_done(1) [of s dir r] assms(1) by (simp add: numbered_def unat_of_nat)
  obtain lt2 where l2: "lt_steps s dir (rev [2..<Suc ?n]) ?lt = Some lt2" "lt.stage s dir r 1 lt2"
    using lt.lt_steps_spec [OF small order_refl dfs_root_number onto preds start_stage one] by blast
  have "lt.final_idoms s dir r 2 lt2"
  proof -
    have "\<not> dfs_number ?o v < 2" if "v \<in> set ?o" "v \<noteq> r" for v
      using dfs.num_eq [OF that(1) dfs.root] dfs_root_number [of s dir r] that(2) by (simp add: dfs_number_def)
    then show ?thesis
      using l2(2) lt.stage_end [OF l2(2) dfs_root_number] unfolding lt.final_idoms_def lt.stage_def lt.idoms_def by auto
  qed
  from lt.finalize_spec [OF small dfs_root_number onto this order_refl] obtain lt3 where
      l3: "finalize_idoms [2..<Suc ?n] lt2 = Some lt3" "lt_vertex lt3 = lt_vertex lt2" "lt.final_idoms s dir r (Suc ?n) lt3"
    using one by (auto simp: max_def split: if_splits simp del: upt.simps)
  have fin: "\<exists>e. hm_get (lt_idom lt3) v = Some e \<and> idom_of ?E r e v" if "v \<in> set ?o" "v \<noteq> r" for v
    using l3(3) that dfs_number_bound [OF that(1)] unfolding lt.final_idoms_def by (metis le_imp_less_Suc)
  have dom: "v \<in> set ?o \<and> v \<noteq> r" if "hm_get (lt_idom lt3) v \<noteq> None" for v using l3(3) that unfolding lt.final_idoms_def by blast
  have "hm_get [(r, 0 :: u32)] = (\<lambda>x. if x \<in> set ?o \<and> dfs_number ?o x < 2 then Some (of_nat (card (sdoms ?E r x))) else None)"
  proof
    fix x
    have "x \<in> set ?o \<and> dfs_number ?o x < 2 \<longleftrightarrow> x = r"
      using dfs.num_eq [of x s dir r r] dfs.root [of r s dir] dfs_root_number [of s dir r] by (auto simp: dfs_number_def)
    then show "hm_get [(r, 0 :: u32)] x = (if x \<in> set ?o \<and> dfs_number ?o x < 2 then Some (of_nat (card (sdoms ?E r x))) else None)"
      using sdoms_entry [of ?E r] by simp
  qed
  moreover have bound: "\<forall>v \<in> set ?o. dfs_number ?o v \<le> ?n" using dfs_number_bound [of _ ?o] by blast
  ultimately obtain depths where
      dp: "tree_depths lt3 [2..<Suc ?n] [(r, 0)] = Some depths"
        "hm_get depths = (\<lambda>x. if x \<in> set ?o \<and> dfs_number ?o x < max 2 (Suc ?n) then Some (of_nat (card (sdoms ?E r x))) else None)"
    using lt.tree_depths_spec [OF dfs_root_number onto l3(3) order_refl] by blast
  have dpt: "hm_get depths = (\<lambda>x. if x \<in> set ?o then Some (of_nat (card (sdoms ?E r x))) else None)"
  proof
    fix x show "hm_get depths x = (if x \<in> set ?o then Some (of_nat (card (sdoms ?E r x))) else None)"
      using bound unfolding dp(2) by (auto simp: less_max_iff_disj less_Suc_eq_le)
  qed
  have vs: "those (map (at (lt_vertex lt3)) [1..<Suc ?n]) = Some ?o"
    by (rule vertices_of_tables) (use l3(3) in \<open>simp only: lt.final_idoms_def\<close>)
  let ?t = "\<lparr>dt_entry = r, dt_idom = lt_idom lt3, dt_depth = depths, dt_nodes = set (r # ?o)\<rparr>"
  have "lt_run s dir r lt_new = Some ?t"
    using l2(1) l3(1) dp(1) vs n unfolding lt_run_def dfs_result_def [symmetric] by (simp add: Let_def del: upt.simps)
  moreover have "dominator_tree ?E r ?t"
  proof -
    have nodes: "set (r # ?o) = ?E\<^sup>* `` {r}" using dfs_reaches [of s dir r] dfs.root [of r s dir] by auto
    have "idom ?t w = Some d \<longleftrightarrow> w \<in> set ?o \<and> w \<noteq> r \<and> idom_of ?E r d w" for w d
      using fin [of w] dom [of w] idom_unique [of s dir r] by (fastforce simp: idom_def)
    then have i: "\<forall>w d. idom ?t w = Some d \<longleftrightarrow> w \<in> ?E\<^sup>* `` {r} \<and> w \<noteq> r \<and> idom_of ?E r d w" using dfs_reaches by blast
    have "idom_keys lt3" using l3(3) unfolding lt.final_idoms_def by blast
    then have keys: "hm_ok (dt_idom ?t)" unfolding idom_keys_def by simp
    show ?thesis unfolding dominator_tree_def
    proof (intro conjI)
      show "\<forall>w \<in> ?E\<^sup>* `` {r}. w \<noteq> r \<longrightarrow> idom ?t w \<noteq> None" using fin unfolding dfs_reaches [symmetric] idom_def by fastforce
      show "\<forall>w. depth ?t w = (if w \<in> ?E\<^sup>* `` {r} then Some (of_nat (card (sdoms ?E r w))) else None)"
        unfolding depth_def dfs_reaches [symmetric] using dpt by simp
    qed (use nodes i keys in simp_all)
  qed
  ultimately show ?thesis by blast
qed

section \<open>Dominators and post-dominators of the SCG\<close>

lemma flow_edges_id:
  assumes "scg_ok s"
  shows "flow_edges s Outgoing = id_rel s" "flow_edges s Incoming = (id_rel s)\<inverse>"
proof -
  have ends: "get_node s a \<noteq> None \<and> get_node s b \<noteq> None" if "(a, b) \<in> id_rel s" for a b
    using that get_edge_ends [OF assms] by (auto simp: id_rel_def)
  have iff: "(a, b) \<in> flow_edges s dir \<longleftrightarrow> (case map_option set (flow s dir a) of Some bs \<Rightarrow> b \<in> bs | None \<Rightarrow> False)" for a b dir
    by (cases "flow s dir a") (auto simp: flow_edges_def)
  have "(a, b) \<in> flow_edges s Outgoing \<longleftrightarrow> (a, b) \<in> id_rel s" "(a, b) \<in> flow_edges s Incoming \<longleftrightarrow> (b, a) \<in> id_rel s" for a b
    using ends [of a b] ends [of b a] by (auto simp: iff neighbour_sets [OF assms])
  then show "flow_edges s Outgoing = id_rel s" "flow_edges s Incoming = (id_rel s)\<inverse>" by auto
qed

lemma back_edges:
  assumes "scg_ok s" "get_node s w \<noteq> None"
  shows "\<exists>preds. flow s (against dir) w = Some preds \<and> set preds = {v. (v, w) \<in> flow_edges s dir}"
proof -
  have "map_option set (flow s (against dir) w) = Some {v. (v, w) \<in> flow_edges s dir}"
    using neighbour_sets [OF assms(1), of w] flow_edges_id [OF assms(1)] assms(2) by (cases dir) auto
  then show ?thesis by (cases "flow s (against dir) w") auto
qed

lemma reached_nodes:
  assumes "scg_ok s" "get_node s r \<noteq> None" "w \<in> set (dfs_order s dir r)"
  shows "get_node s w \<noteq> None"
proof -
  have "(r, w) \<in> (flow_edges s dir)\<^sup>*" using assms(3) dfs_reaches by blast
  moreover have "get_node s b \<noteq> None" if "(a, b) \<in> flow_edges s dir" for a b
    using that flow_edges_id [OF assms(1)] get_edge_ends [OF assms(1)] by (cases dir) (auto simp: id_rel_def)
  ultimately show ?thesis using assms(2) by (metis rtranclE)
qed

lemma lt_run_graph:
  assumes "scg_ok s" "get_node s r \<noteq> None" "scg_node_count s < 2 ^ 32"
  shows "\<exists>t. lt_run s dir r lt_new = Some t \<and> dominator_tree (flow_edges s dir) r t"
proof (rule lt_run_spec)
  have "length (dfs_order s dir r) = card (set (dfs_order s dir r))"
    using dfs_invD(1) [OF dfs_done(2) [of s dir r]] by (simp add: distinct_card)
  also have "\<dots> \<le> card (dom (get_node s))"
  proof (rule card_mono)
    show "finite (dom (get_node s))"
      using finite_dom_map_of [of "node_id_to_index s"] get_node_None [OF assms(1)] by (simp add: dom_def)
    show "set (dfs_order s dir r) \<subseteq> dom (get_node s)" using reached_nodes [OF assms(1,2)] by blast
  qed
  finally show "length (dfs_order s dir r) < 2 ^ 32" using assms(3) node_count_dom [OF assms(1)] by simp
  show "\<exists>preds. flow s (against dir) w = Some preds \<and> set preds = {v. (v, w) \<in> flow_edges s dir}" if "w \<in> set (dfs_order s dir r)" for w
    by (rule back_edges [OF assms(1) reached_nodes [OF assms(1,2) that]])
qed

end
