(* ===== verification/Scg_Domtree.thy ===== *)
theory Scg_Domtree
  imports Scg_Lengauer Bd_Codec
begin

text \<open>
  The queries of \<^verbatim>\<open>scg/src/dominance.rs\<close> on the tree of immediate dominators: dominance, the set and the chain of dominators,
  the nearest common dominator, the dominated nodes, the post-order and the dominance frontier, each against the
  definition by paths. All walks end because the number of strict dominators goes down with every step to an immediate dominator.
\<close>

section \<open>The tree\<close>

lemma treeD:
  assumes "dominator_tree E r t"
  shows "dt_entry t = r" "dt_nodes t = E\<^sup>* `` {r}" "hm_ok (dt_idom t)"
    "idom t w = Some d \<longleftrightarrow> (r, w) \<in> E\<^sup>* \<and> w \<noteq> r \<and> idom_of E r d w"
    "idom t w = None \<longleftrightarrow> w = r \<or> (r, w) \<notin> E\<^sup>*"
    "depth t w = (if (r, w) \<in> E\<^sup>* then Some (of_nat (card (sdoms E r w))) else None)"
proof -
  have *: "\<forall>w d. idom t w = Some d \<longleftrightarrow> w \<in> E\<^sup>* `` {r} \<and> w \<noteq> r \<and> idom_of E r d w" "\<forall>w \<in> E\<^sup>* `` {r}. w \<noteq> r \<longrightarrow> idom t w \<noteq> None"
    using assms unfolding dominator_tree_def by blast+
  then show "idom t w = Some d \<longleftrightarrow> (r, w) \<in> E\<^sup>* \<and> w \<noteq> r \<and> idom_of E r d w" by simp
  show "idom t w = None \<longleftrightarrow> w = r \<or> (r, w) \<notin> E\<^sup>*" using * by (metis Image_singleton_iff option.exhaust option.distinct(1))
qed (use assms in \<open>auto simp: dominator_tree_def\<close>)

lemma idom_step:
  assumes "dominator_tree E r t" "idom t w = Some d"
  shows "(r, d) \<in> E\<^sup>*" "idom_of E r d w" "sdoms E r w = insert d (sdoms E r d)" "card (sdoms E r w) = Suc (card (sdoms E r d))" "(r, w) \<in> E\<^sup>*"
proof -
  show w: "(r, w) \<in> E\<^sup>*" and i: "idom_of E r d w" using treeD(4) [OF assms(1)] assms(2) by simp_all
  then show "(r, d) \<in> E\<^sup>*" using dom_reach by (metis idom_of_def)
  show "sdoms E r w = insert d (sdoms E r d)" "card (sdoms E r w) = Suc (card (sdoms E r d))"
    using sdoms_idom [OF i w] depth_idom [OF i w] by simp_all
qed

text \<open>Induction along the immediate dominators.\<close>

lemma tree_induct [consumes 2, case_names entry step]:
  assumes "dominator_tree E r t" "(r, w) \<in> E\<^sup>*"
    and "P r" "\<And>w d. idom t w = Some d \<Longrightarrow> P d \<Longrightarrow> P w"
  shows "P w"
  using assms(2)
proof (induction "card (sdoms E r w)" arbitrary: w rule: less_induct)
  case less
  show ?case
  proof (cases "idom t w")
    case None
    then show ?thesis using treeD(5) [OF assms(1)] less.prems assms(3) by auto
  next
    case (Some d)
    then show ?thesis using less.hyps [of d] idom_step [OF assms(1) Some] assms(4) by simp
  qed
qed

section \<open>Dominance\<close>

lemma dominates_walk_exact:
  assumes "dominator_tree E r t" "(r, b) \<in> E\<^sup>*"
  shows "dominates_walk t a b = Some (a \<in> sdoms E r b)"
  using assms
proof (induction rule: tree_induct)
  case entry
  then show ?case using treeD(5) [OF assms(1), of r] by (simp add: dominates_walk.simps sdoms_entry)
next
  case (step w d)
  then show ?case using idom_step(3) [OF assms(1) step(1)] by (auto simp: dominates_walk.simps [of t a w])
qed

lemma dominates_iff:
  assumes "dominator_tree E r t"
  shows "dominates t a b = Some (a = b \<or> (r, b) \<in> E\<^sup>* \<and> dom_of E r a b)"
proof (cases "(r, b) \<in> E\<^sup>*")
  case True
  then show ?thesis
    using dominates_walk_exact [OF assms True] treeD(2) [OF assms] dom_reach [of E r a b]
    by (auto simp: dominates_def sdoms_def)
next
  case False
  then show ?thesis using treeD(2) [OF assms] by (simp add: dominates_def)
qed

lemma dominators_loop_exact:
  assumes "dominator_tree E r t" "(r, n) \<in> E\<^sup>*"
  shows "dominators_loop t n A = Some (A \<union> insert n (sdoms E r n))"
  using assms
proof (induction arbitrary: A rule: tree_induct)
  case entry
  then show ?case using treeD(5) [OF assms(1), of r] by (simp add: dominators_loop.simps sdoms_entry)
next
  case (step w d)
  show ?case using step idom_step(3) [OF assms(1) step(1)] by (auto simp: dominators_loop.simps [of t w])
qed

lemma path_loop_exact:
  assumes "dominator_tree E r t" "(r, n) \<in> E\<^sup>*"
  shows "\<exists>xs. path_loop t n acc = Some (acc @ xs) \<and> xs \<noteq> [] \<and> hd xs = n \<and> last xs = r \<and> distinct xs \<and> set xs = insert n (sdoms E r n)
    \<and> sorted_wrt (\<lambda>x y. dom_of E r y x) xs"
  using assms
proof (induction arbitrary: acc rule: tree_induct)
  case entry
  then show ?case using treeD(5) [OF assms(1), of r] by (intro exI [of _ "[r]"]) (simp add: path_loop.simps sdoms_entry)
next
  case (step w d)
  note s = idom_step [OF assms(1) step(1)]
  from step.IH [of "acc @ [w]"] obtain xs where xs: "path_loop t d (acc @ [w]) = Some ((acc @ [w]) @ xs)" "xs \<noteq> []" "hd xs = d" "last xs = r"
      "distinct xs" "set xs = insert d (sdoms E r d)" "sorted_wrt (\<lambda>x y. dom_of E r y x) xs" by blast
  have "w \<notin> set xs" using xs(6) s(3) by (simp add: sdoms_def) (metis (mono_tags, lifting) insertI1 insert_iff mem_Collect_eq)
  moreover have "\<forall>y \<in> set xs. dom_of E r y w" using xs(6) s(3) unfolding sdoms_def by blast
  ultimately show ?case using xs s(3) step(1)
    by (intro exI [of _ "w # xs"]) (auto simp: path_loop.simps [of t w])
qed

section \<open>Nearest common dominator\<close>

lemma dom_cases: "dom_of E r c a \<longleftrightarrow> c = a \<or> c \<in> sdoms E r a"
  using dom_refl by (auto simp: sdoms_def)

lemma sdoms_less:
  assumes "a \<in> sdoms E r b" "(r, b) \<in> E\<^sup>*"
  shows "card (sdoms E r a) < card (sdoms E r b)"
proof (rule psubset_card_mono [OF sdoms_finite [OF assms(2)]])
  have a: "a \<noteq> b" "dom_of E r a b" using assms(1) by (auto simp: sdoms_def)
  have "\<not> dom_of E r b a" using dom_antisym [of E r b a] a assms(2) by blast
  then have "x \<noteq> b" if "dom_of E r x a" for x using that by auto
  then have "sdoms E r a \<subseteq> sdoms E r b" using dom_trans [OF _ a(2)] by (auto simp: sdoms_def)
  moreover have "a \<notin> sdoms E r a" by (simp add: sdoms_def)
  ultimately show "sdoms E r a \<subset> sdoms E r b" using assms(1) by blast
qed

lemma climb_exact:
  assumes "dominator_tree E r t" "(r, a) \<in> E\<^sup>*" "card (sdoms E r a) = k + m"
  shows "\<exists>c. climb t k a = Some c \<and> (r, c) \<in> E\<^sup>* \<and> card (sdoms E r c) = m \<and> dom_of E r c a
    \<and> (\<forall>x. dom_of E r x a \<longrightarrow> card (sdoms E r x) \<le> m \<longrightarrow> dom_of E r x c)"
  using assms(2,3)
proof (induction k arbitrary: a)
  case 0
  then show ?case using dom_refl by auto
next
  case (Suc k)
  have "a \<noteq> r" using Suc.prems(2) by (auto simp: sdoms_entry)
  then obtain d where d: "idom t a = Some d" using treeD(5) [OF assms(1), of a] Suc.prems(1) by auto
  note s = idom_step [OF assms(1) d]
  from Suc.IH [OF s(1)] s(4) Suc.prems(2) obtain c where c: "climb t k d = Some c" "(r, c) \<in> E\<^sup>*" "card (sdoms E r c) = m" "dom_of E r c d"
      "\<forall>x. dom_of E r x d \<longrightarrow> card (sdoms E r x) \<le> m \<longrightarrow> dom_of E r x c" by auto
  have "dom_of E r x d" if "dom_of E r x a" "card (sdoms E r x) \<le> m" for x
    using dom_idom [OF s(2), of x] that Suc.prems(2) by auto
  then show ?case using c d dom_idom [OF s(2), of c] by auto
qed

lemma same_depth_meet:
  assumes "dominator_tree E r t" "(r, a) \<in> E\<^sup>*" "(r, b) \<in> E\<^sup>*" "card (sdoms E r a) = card (sdoms E r b)"
  shows "\<exists>c. meet_walk t a b = Some (Some c) \<and> dom_of E r c a \<and> dom_of E r c b \<and> (\<forall>x. dom_of E r x a \<longrightarrow> dom_of E r x b \<longrightarrow> dom_of E r x c)"
  using assms(2-4)
proof (induction "card (sdoms E r a)" arbitrary: a b)
  case 0
  have "a = r" using 0 treeD(5) [OF assms(1), of a] idom_step(4) [OF assms(1), of a] by (cases "idom t a") auto
  moreover have "b = r" using 0 treeD(5) [OF assms(1), of b] idom_step(4) [OF assms(1), of b] by (cases "idom t b") auto
  ultimately show ?case using dom_refl by (auto simp: meet_walk.simps)
next
  case (Suc k)
  show ?case
  proof (cases "a = b")
    case True
    then show ?thesis using dom_refl by (auto simp: meet_walk.simps)
  next
    case False
    have "a \<noteq> r" "b \<noteq> r" using Suc.hyps(2) Suc.prems(3) by (auto simp: sdoms_entry)
    then obtain d e where d: "idom t a = Some d" and e: "idom t b = Some e"
      using treeD(5) [OF assms(1)] Suc.prems(1,2) by (metis not_None_eq)
    note s = idom_step [OF assms(1) d] and z = idom_step [OF assms(1) e]
    from Suc.hyps(1) [OF _ s(1) z(1)] Suc.hyps(2) Suc.prems(3) s(4) z(4) obtain c where
        c: "meet_walk t d e = Some (Some c)" "dom_of E r c d" "dom_of E r c e" "\<forall>x. dom_of E r x d \<longrightarrow> dom_of E r x e \<longrightarrow> dom_of E r x c" by auto
    have "dom_of E r x d \<and> dom_of E r x e" if "dom_of E r x a" "dom_of E r x b" for x
      using that dom_idom [OF s(2), of x] dom_idom [OF z(2), of x] sdoms_less [of a E r b] sdoms_less [of b E r a] False Suc.prems
      by (auto simp: sdoms_def)
    then show ?thesis
      using c d e False dom_idom [OF s(2), of c] dom_idom [OF z(2), of c] by (auto simp: meet_walk.simps [of t a b])
  qed
qed

lemma ncd_exact:
  assumes "dominator_tree E r t" "(r, a) \<in> E\<^sup>*" "(r, b) \<in> E\<^sup>*" "card (sdoms E r a) < 2 ^ 32" "card (sdoms E r b) < 2 ^ 32"
  shows "\<exists>c. nearest_common_dominator t a b = Some (Some c) \<and> dom_of E r c a \<and> dom_of E r c b
    \<and> (\<forall>x. dom_of E r x a \<longrightarrow> dom_of E r x b \<longrightarrow> dom_of E r x c)"
proof (cases "a = b")
  case True
  then show ?thesis using assms(2) treeD(2) [OF assms(1)] dom_refl by (auto simp: nearest_common_dominator_def)
next
  case False
  let ?d = "\<lambda>x. card (sdoms E r x)" and ?w = "\<lambda>x. of_nat (card (sdoms E r x)) :: u32"
  have u: "unat (?w a) = ?d a" "unat (?w b) = ?d b" using assms(4,5) by (simp_all add: unat_of_nat)
  have dep: "depth t a = Some (?w a)" "depth t b = Some (?w b)" using treeD(6) [OF assms(1)] assms(2,3) by simp_all
  have cmp: "?w b < ?w a \<longleftrightarrow> ?d b < ?d a" "?w a < ?w b \<longleftrightarrow> ?d a < ?d b" using u by (simp_all add: word_less_nat_alt)
  have sub: "unat (?w a - ?w b) = ?d a - ?d b" if "?d b < ?d a" using that u by (simp add: unat_sub word_le_nat_alt)
  have sub': "unat (?w b - ?w a) = ?d b - ?d a" if "?d a < ?d b" using that u by (simp add: unat_sub word_le_nat_alt)
  obtain a' where a: "(if ?w b < ?w a then climb t (unat (?w a - ?w b)) a else Some a) = Some a'" "(r, a') \<in> E\<^sup>*"
      "?d a' = min (?d a) (?d b)" "dom_of E r a' a" "\<forall>x. dom_of E r x a \<longrightarrow> ?d x \<le> min (?d a) (?d b) \<longrightarrow> dom_of E r x a'"
    using climb_exact [OF assms(1,2), of "?d a - ?d b" "?d b"] sub cmp assms(2) dom_refl [of E r a] by (cases "?d b < ?d a") (auto simp: min_def)
  obtain b' where b: "(if ?w a < ?w b then climb t (unat (?w b - ?w a)) b else Some b) = Some b'" "(r, b') \<in> E\<^sup>*"
      "?d b' = min (?d a) (?d b)" "dom_of E r b' b" "\<forall>x. dom_of E r x b \<longrightarrow> ?d x \<le> min (?d a) (?d b) \<longrightarrow> dom_of E r x b'"
    using climb_exact [OF assms(1,3), of "?d b - ?d a" "?d a"] sub' cmp assms(3) dom_refl [of E r b] by (cases "?d a < ?d b") (auto simp: min_def)
  obtain c where c: "meet_walk t a' b' = Some (Some c)" "dom_of E r c a'" "dom_of E r c b'"
      "\<forall>x. dom_of E r x a' \<longrightarrow> dom_of E r x b' \<longrightarrow> dom_of E r x c"
    using same_depth_meet [OF assms(1) a(2) b(2)] a(3) b(3) by auto
  have "nearest_common_dominator t a b = Some (Some c)"
    using False dep a(1) b(1) c(1) treeD(2) [OF assms(1)] assms(2,3) by (simp add: nearest_common_dominator_def)
  moreover have "dom_of E r x c" if x: "dom_of E r x a" "dom_of E r x b" for x
  proof -
    have "?d x \<le> ?d y" if "dom_of E r x y" "(r, y) \<in> E\<^sup>*" for y
      using sdoms_less [of x E r y] that by (cases "x = y") (auto simp: sdoms_def)
    then have "?d x \<le> min (?d a) (?d b)" using x assms(2,3) by simp
    then show ?thesis using a(5) b(5) c(4) x by blast
  qed
  ultimately show ?thesis using dom_trans [OF c(2) a(4)] dom_trans [OF c(3) b(4)] by blast
qed

section \<open>Subtrees\<close>

definition below :: "(NodeId \<times> NodeId) set \<Rightarrow> NodeId \<Rightarrow> NodeId \<Rightarrow> NodeId set" where
  "below E r n = {b. (r, b) \<in> E\<^sup>* \<and> dom_of E r n b}"

lemma children_iff: "dominator_tree E r t \<Longrightarrow> c \<in> set (children t n) \<longleftrightarrow> idom t c = Some n"
proof -
  assume t: "dominator_tree E r t"
  have "c \<in> set (children t n) \<longleftrightarrow> (c, n) \<in> set (dt_idom t)" by (force simp: children_def List.map_filter_def split: if_splits)
  then show ?thesis using hm_mem [OF treeD(3) [OF t], of c n] by (simp add: idom_def)
qed

lemma children_distinct: "dominator_tree E r t \<Longrightarrow> distinct (children t n)"
proof -
  assume "dominator_tree E r t"
  then have "hm_ok (dt_idom t)" by (rule treeD(3))
  moreover have "distinct (List.map_filter (\<lambda>(child, parent). if parent = n then Some child else None) m)
      \<and> set (List.map_filter (\<lambda>(child, parent). if parent = n then Some child else None) m) \<subseteq> set (hm_keys m)"
    if "hm_ok m" for m :: "(NodeId, NodeId) hmap"
    using that by (induction m) (auto simp: List.map_filter_simps split: if_splits)
  ultimately show ?thesis by (simp add: children_def)
qed

lemma below_children:
  assumes "dominator_tree E r t" "(r, n) \<in> E\<^sup>*"
  shows "below E r n = insert n (\<Union>c \<in> set (children t n). below E r c)"
proof
  show "below E r n \<subseteq> insert n (\<Union>c \<in> set (children t n). below E r c)"
  proof
    fix b assume "b \<in> below E r n"
    then have "(r, b) \<in> E\<^sup>*" "dom_of E r n b" by (auto simp: below_def)
    with assms(1) show "b \<in> insert n (\<Union>c \<in> set (children t n). below E r c)"
    proof (induction rule: tree_induct)
      case entry
      then show ?case using dom_antisym [of E r r n] dom_entry [of E r n] by auto
    next
      case (step w d)
      note s = idom_step [OF assms(1) step(1)]
      show ?case
      proof (cases "w = n \<or> d = n")
        case True
        moreover have "w \<in> below E r w" using s(5) dom_refl [of E r w] by (simp add: below_def)
        ultimately show ?thesis using step(1) children_iff [OF assms(1), of w n] by blast
      next
        case False
        then have "dom_of E r n d" using dom_idom [OF s(2), of n] step.prems by auto
        then obtain c where "c \<in> set (children t n)" "d \<in> below E r c" using step.IH False by auto
        moreover have "w \<in> below E r c" using calculation(2) dom_idom [OF s(2), of c] s(5) by (auto simp: below_def)
        ultimately show ?thesis by blast
      qed
    qed
  qed
  show "insert n (\<Union>c \<in> set (children t n). below E r c) \<subseteq> below E r n"
  proof -
    have "dom_of E r n c" if "idom t c = Some n" for c using idom_step(2) [OF assms(1) that] by (simp add: idom_of_def)
    then show ?thesis using assms(2) dom_refl children_iff [OF assms(1)] dom_trans by (fastforce simp: below_def)
  qed
qed

lemma tree_finite: "dominator_tree E r t \<Longrightarrow> finite (E\<^sup>* `` {r})"
proof -
  assume t: "dominator_tree E r t"
  have "E\<^sup>* `` {r} \<subseteq> insert r (dom (idom t))" using treeD(5) [OF t] by auto
  moreover have "finite (dom (idom t))" by (simp add: idom_def [abs_def] finite_dom_map_of)
  ultimately show ?thesis by (meson finite.insertI finite_subset)
qed

lemma below_finite: "dominator_tree E r t \<Longrightarrow> finite (below E r n)"
  by (rule finite_subset [OF _ tree_finite]) (auto simp: below_def)

lemma below_smaller:
  assumes "dominator_tree E r t" "idom t c = Some n"
  shows "card (below E r c) < card (below E r n)"
proof (rule psubset_card_mono [OF below_finite [OF assms(1)]])
  note s = idom_step [OF assms]
  have "\<not> dom_of E r c n" using dom_antisym [of E r c n] s(2,5) by (auto simp: idom_of_def)
  moreover have "below E r c \<subseteq> below E r n" using dom_trans s(2) by (fastforce simp: below_def idom_of_def)
  moreover have "n \<in> below E r n" using s(1) dom_refl [of E r n] by (simp add: below_def)
  moreover have "n \<notin> below E r c" using calculation(1) by (simp add: below_def)
  ultimately show "below E r c \<subset> below E r n" by blast
qed

lemma subtree_loop_exact:
  assumes "dominator_tree E r t" "(r, n) \<in> E\<^sup>*"
    and "n \<in> A \<union> set stack" "A \<union> set stack \<subseteq> below E r n" "\<forall>x \<in> A. set (children t x) \<subseteq> A \<union> set stack"
  shows "subtree_loop t stack A = Some (below E r n)"
  using assms(3-5)
proof (induction "card (below E r n - A) * Suc (card (E\<^sup>* `` {r})) + length stack" arbitrary: stack A rule: less_induct)
  case less
  show ?case
  proof (cases stack)
    case Nil
    have "b \<in> A" if "(r, b) \<in> E\<^sup>*" "dom_of E r n b" for b
      using assms(1) that
    proof (induction rule: tree_induct)
      case entry
      then show ?case using dom_antisym [of E r r n] dom_entry [of E r n] less.prems(1) Nil by auto
    next
      case (step w d)
      show ?case
      proof (cases "w = n")
        case False
        then have "d \<in> A" using step dom_idom [OF idom_step(2) [OF assms(1) step(1)], of n] by auto
        then show ?thesis using less.prems(3) Nil children_iff [OF assms(1), of w d] step(1) by auto
      qed (use less.prems(1) Nil in simp)
    qed
    then show ?thesis using Nil less.prems(2) by (auto simp: subtree_loop.simps below_def)
  next
    case (Cons x rest)
    show ?thesis
    proof (cases "x \<in> A")
      case True
      have "subtree_loop t rest A = Some (below E r n)" by (rule less.hyps) (use less.prems True Cons in auto)
      then show ?thesis using Cons True by (simp add: subtree_loop.simps)
    next
      case False
      let ?stack = "fold (#) (children t x) rest"
      have st: "?stack = rev (children t x) @ rest" by (induction "children t x" arbitrary: rest) (simp_all add: fold_Cons_rev)
      have xb: "x \<in> below E r n" using less.prems(2) Cons by auto
      have kids: "c \<in> below E r n" if "c \<in> set (children t x)" for c
        using that children_iff [OF assms(1)] idom_step [OF assms(1), of c x] xb dom_idom [of E r x c n] by (auto simp: below_def)
      have "length (children t x) = card (set (children t x))" using children_distinct [OF assms(1)] by (simp add: distinct_card)
      also have "\<dots> \<le> card (E\<^sup>* `` {r})" by (rule card_mono [OF tree_finite [OF assms(1)]]) (use kids in \<open>auto simp: below_def\<close>)
      finally have len: "length ?stack \<le> card (E\<^sup>* `` {r}) + length rest" by (simp add: st)
      have "card (below E r n - A) = Suc (card (below E r n - insert x A))"
        using xb False below_finite [OF assms(1)] by (metis card_Suc_Diff1 Diff_iff finite_Diff Diff_insert)
      then have "card (below E r n - insert x A) * Suc (card (E\<^sup>* `` {r})) + length ?stack
          < card (below E r n - A) * Suc (card (E\<^sup>* `` {r})) + length stack" using len Cons by simp
      from less.hyps [OF this] less.prems kids have "subtree_loop t ?stack (insert x A) = Some (below E r n)"
        using Cons xb by (auto simp: st)
      then show ?thesis using Cons False by (simp add: subtree_loop.simps [of t "x # rest"])
    qed
  qed
qed

section \<open>Post-order\<close>

lemma dom_chain:
  assumes "dominator_tree E r t" "(r, y) \<in> E\<^sup>*" "dom_of E r a y" "dom_of E r b y"
  shows "dom_of E r a b \<or> dom_of E r b a"
  using assms
proof (induction rule: tree_induct)
  case entry
  then show ?case using dom_antisym [of E r r a] dom_entry [of E r a] dom_entry [of E r b] by auto
next
  case (step w d)
  then show ?case using dom_idom [OF idom_step(2) [OF assms(1) step(1)], of a] dom_idom [OF idom_step(2) [OF assms(1) step(1)], of b] by auto
qed

lemma siblings_apart:
  assumes "dominator_tree E r t" "idom t c = Some n" "idom t c' = Some n" "c \<noteq> c'" "x \<in> below E r c" "y \<in> below E r c'"
  shows "\<not> dom_of E r x y"
proof
  assume "dom_of E r x y"
  then have c: "dom_of E r c y" "dom_of E r c' y" "(r, y) \<in> E\<^sup>*" using assms(5,6) dom_trans by (auto simp: below_def)
  have "card (sdoms E r c) = card (sdoms E r c')" using idom_step(4) [OF assms(1)] assms(2,3) by simp
  moreover have "c \<in> sdoms E r c' \<or> c' \<in> sdoms E r c" using dom_chain [OF assms(1) c(3,1,2)] assms(4) by (auto simp: sdoms_def)
  ultimately show False using sdoms_less idom_step(5) [OF assms(1)] assms(2,3) by (metis less_irrefl)
qed

definition postordered :: "(NodeId \<times> NodeId) set \<Rightarrow> NodeId \<Rightarrow> NodeId list \<Rightarrow> bool" where
  "postordered E r xs \<longleftrightarrow> distinct xs \<and> sorted_wrt (\<lambda>x y. x \<notin> sdoms E r y) xs"

lemma postordered_append:
  assumes "postordered E r xs" "postordered E r ys" "\<forall>x \<in> set xs. \<forall>y \<in> set ys. \<not> dom_of E r x y"
  shows "postordered E r (xs @ ys)"
  using assms dom_refl [of E r] by (auto simp: postordered_def sorted_wrt_append sdoms_def)

lemma postorder_children:
  assumes "dominator_tree E r t" "distinct cs" "\<forall>c \<in> set cs. idom t c = Some n"
    and "\<And>c. c \<in> set cs \<Longrightarrow> \<exists>xs. (\<forall>rest res. postorder_loop t ((c, False) # rest) res = postorder_loop t rest (res @ xs)) \<and> set xs = below E r c \<and> postordered E r xs"
  shows "\<exists>xs. (\<forall>rest res. postorder_loop t (map (\<lambda>c. (c, False)) cs @ rest) res = postorder_loop t rest (res @ xs))
    \<and> set xs = (\<Union>c \<in> set cs. below E r c) \<and> postordered E r xs"
  using assms(2-4)
proof (induction cs)
  case (Cons c cs)
  obtain xs where xs: "\<forall>rest res. postorder_loop t ((c, False) # rest) res = postorder_loop t rest (res @ xs)" "set xs = below E r c" "postordered E r xs"
    using Cons.prems(3) [of c] by auto
  obtain ys where ys: "\<forall>rest res. postorder_loop t (map (\<lambda>c. (c, False)) cs @ rest) res = postorder_loop t rest (res @ ys)"
      "set ys = (\<Union>c \<in> set cs. below E r c)" "postordered E r ys"
    using Cons.IH Cons.prems by auto
  have "\<not> dom_of E r x y" if x: "x \<in> set xs" and y: "y \<in> set ys" for x y
  proof -
    obtain c' where "c' \<in> set cs" "y \<in> below E r c'" using y ys(2) by blast
    then show ?thesis using siblings_apart [OF assms(1), of c n c' x y] Cons.prems(1,2) x xs(2) by auto
  qed
  then have "postordered E r (xs @ ys)" using postordered_append [OF xs(3) ys(3)] by blast
  then show ?case using xs(1,2) ys(1,2) by (intro exI [of _ "xs @ ys"]) auto
qed (auto simp: postordered_def)

lemma postorder_subtree:
  assumes "dominator_tree E r t" "(r, n) \<in> E\<^sup>*"
  shows "\<exists>xs. (\<forall>rest res. postorder_loop t ((n, False) # rest) res = postorder_loop t rest (res @ xs)) \<and> set xs = below E r n \<and> postordered E r xs"
  using assms(2)
proof (induction "card (below E r n)" arbitrary: n rule: less_induct)
  case less
  let ?cs = "rev (children t n)"
  have "\<exists>xs. (\<forall>rest res. postorder_loop t (map (\<lambda>c. (c, False)) ?cs @ rest) res = postorder_loop t rest (res @ xs))
    \<and> set xs = (\<Union>c \<in> set ?cs. below E r c) \<and> postordered E r xs"
  proof (rule postorder_children [OF assms(1)])
    show "distinct ?cs" "\<forall>c \<in> set ?cs. idom t c = Some n" using children_distinct [OF assms(1)] children_iff [OF assms(1)] by auto
    show "\<exists>xs. (\<forall>rest res. postorder_loop t ((c, False) # rest) res = postorder_loop t rest (res @ xs)) \<and> set xs = below E r c \<and> postordered E r xs"
      if "c \<in> set ?cs" for c
      using that less.hyps [of c] below_smaller [OF assms(1)] idom_step(5) [OF assms(1)] children_iff [OF assms(1)] by auto
  qed
  then obtain xs where xs: "\<forall>rest res. postorder_loop t (map (\<lambda>c. (c, False)) ?cs @ rest) res = postorder_loop t rest (res @ xs)"
      "set xs = (\<Union>c \<in> set (children t n). below E r c)" "postordered E r xs" by auto
  have push: "fold (\<lambda>child st. (child, False) # st) cs st = map (\<lambda>c. (c, False)) (rev cs) @ st" for cs :: "NodeId list" and st
    by (induction cs arbitrary: st) simp_all
  have "postorder_loop t ((n, False) # rest) res = postorder_loop t rest (res @ xs @ [n])" for rest res
    using xs(1) by (simp add: postorder_loop.simps [of t "(n, False) # rest"] push) (simp add: postorder_loop.simps [of t "(n, True) # rest"])
  moreover have "set (xs @ [n]) = below E r n" using xs(2) below_children [OF assms(1) less.prems] by auto
  moreover have "postordered E r (xs @ [n])"
  proof (rule postordered_append [OF xs(3)])
    show "\<forall>x \<in> set xs. \<forall>y \<in> set [n]. \<not> dom_of E r x y"
    proof -
      have "\<not> dom_of E r x n" if "idom t c = Some n" "x \<in> below E r c" for c x
      proof
        assume "dom_of E r x n"
        then have "dom_of E r c n" using that(2) dom_trans by (auto simp: below_def)
        moreover have "n \<noteq> c" "dom_of E r n c" "(r, c) \<in> E\<^sup>*" using idom_step [OF assms(1) that(1)] by (auto simp: idom_of_def)
        ultimately show False using dom_antisym by metis
      qed
      then show ?thesis using xs(2) children_iff [OF assms(1)] by auto
    qed
  qed (simp add: postordered_def)
  ultimately show ?case by (metis append_assoc)
qed

section \<open>Dominance frontier\<close>

definition frontier_of :: "(NodeId, NodeId set) hmap \<Rightarrow> NodeId \<Rightarrow> NodeId set" where
  "frontier_of df a = (case hm_get df a of Some A \<Rightarrow> A | None \<Rightarrow> {})"

lemma frontier_of_add: "frontier_of (add_frontier c b df) a = (if a = c then insert b (frontier_of df a) else frontier_of df a)"
  by (simp add: frontier_of_def add_frontier_def hm_get_insert)

lemma frontier_walk_exact:
  assumes "dominator_tree E r t" "(r, cur) \<in> E\<^sup>*" "(r, b) \<in> E\<^sup>*" "\<forall>x \<in> sdoms E r b. dom_of E r x cur"
  shows "\<exists>df'. frontier_walk t b cur df = Some df' \<and> (\<forall>a. frontier_of df' a = frontier_of df a \<union> (if dom_of E r a cur \<and> a \<notin> sdoms E r b then {b} else {}))"
  using assms(1,2,4)
proof (induction arbitrary: df rule: tree_induct)
  case entry
  have none: "idom t r = None" using treeD(5) [OF assms(1)] by simp
  have only: "dom_of E r a r \<longleftrightarrow> a = r" for a using sdoms_entry [of E r] dom_refl [of E r r] by (auto simp: sdoms_def)
  show ?case
  proof (cases "idom t b")
    case None
    then have "b = r" using treeD(5) [OF assms(1)] assms(3) by blast
    then show ?thesis using none only sdoms_entry [of E r] by (simp add: frontier_walk.simps frontier_of_add)
  next
    case (Some i)
    note s = idom_step [OF assms(1) Some]
    have "i = r" using entry s(3) only by simp
    then show ?thesis using Some s(3) only by (simp add: frontier_walk.simps)
  qed
next
  case (step w d)
  note sw = idom_step [OF assms(1) step(1)]
  show ?case
  proof (cases "idom t b = Some w")
    case True
    then show ?thesis using idom_step(3) [OF assms(1) True] dom_cases [of E r _ w] by (auto simp: frontier_walk.simps [of t b w])
  next
    case False
    have nw: "w \<notin> sdoms E r b"
    proof
      assume w: "w \<in> sdoms E r b"
      then obtain i where i: "idom t b = Some i" using treeD(5) [OF assms(1), of b] assms(3) sdoms_entry [of E r] by auto
      note s = idom_step [OF assms(1) i]
      have "dom_of E r w i" "dom_of E r i w" using w s(3) step.prems dom_cases [of E r w i] by auto
      then have "w = i" using dom_antisym [of E r w i] sw(5) by blast
      then show False using False i by simp
    qed
    have "\<forall>x \<in> sdoms E r b. dom_of E r x d" using step.prems nw dom_idom [OF sw(2)] by auto
    from step.IH [OF this, of "add_frontier w b df"] obtain df' where df': "frontier_walk t b d (add_frontier w b df) = Some df'"
        "\<forall>a. frontier_of df' a = frontier_of (add_frontier w b df) a \<union> (if dom_of E r a d \<and> a \<notin> sdoms E r b then {b} else {})" by blast
    then show ?thesis using False step(1) nw dom_idom [OF sw(2)] by (auto simp: frontier_walk.simps [of t b w] frontier_of_add)
  qed
qed

lemma pred_dominated:
  assumes "(p, b) \<in> E" "(r, p) \<in> E\<^sup>*" "x \<in> sdoms E r b"
  shows "dom_of E r x p"
  unfolding dom_of_def
proof (intro allI impI)
  fix xs assume "walks E r xs p"
  then have "walks E r (xs @ [b]) b" using assms(1) by (rule walks_snoc)
  then show "x \<in> set xs" using assms(3) by (auto simp: sdoms_def dom_of_def)
qed

lemma frontier_preds_exact:
  assumes "dominator_tree E r t" "(r, b) \<in> E\<^sup>*" "\<forall>p \<in> set preds. (p, b) \<in> E"
  shows "\<exists>df'. frontier_preds t b preds df = Some df' \<and> (\<forall>a. frontier_of df' a = frontier_of df a
    \<union> (if (\<exists>p \<in> set preds. (r, p) \<in> E\<^sup>* \<and> dom_of E r a p) \<and> a \<notin> sdoms E r b then {b} else {}))"
  using assms(3)
proof (induction preds arbitrary: df)
  case (Cons p preds)
  show ?case
  proof (cases "(r, p) \<in> E\<^sup>*")
    case True
    obtain df1 where df1: "frontier_walk t b p df = Some df1"
        "\<forall>a. frontier_of df1 a = frontier_of df a \<union> (if dom_of E r a p \<and> a \<notin> sdoms E r b then {b} else {})"
      using frontier_walk_exact [OF assms(1) True assms(2)] pred_dominated [of p b E r] True Cons.prems by fastforce
    moreover obtain df' where df': "frontier_preds t b preds df1 = Some df'" "\<forall>a. frontier_of df' a = frontier_of df1 a
        \<union> (if (\<exists>p \<in> set preds. (r, p) \<in> E\<^sup>* \<and> dom_of E r a p) \<and> a \<notin> sdoms E r b then {b} else {})"
      using Cons.IH [of df1] Cons.prems by auto
    ultimately show ?thesis using True treeD(2) [OF assms(1)] by (intro exI [of _ df']) auto
  next
    case False
    then show ?thesis using Cons.IH [of df] Cons.prems treeD(2) [OF assms(1)] by auto
  qed
qed simp

lemma frontier_nodes_exact:
  assumes "dominator_tree E r t" "\<forall>b \<in> set bs. (r, b) \<in> E\<^sup>*"
    and "\<And>b. (r, b) \<in> E\<^sup>* \<Longrightarrow> \<exists>preds. predecessors s b = Some preds \<and> set preds = {p. (p, b) \<in> E}"
  shows "\<exists>df'. frontier_nodes s t bs df = Some df' \<and> (\<forall>a. frontier_of df' a = frontier_of df a
    \<union> {b \<in> set bs. 2 \<le> length (the (predecessors s b)) \<and> (\<exists>p. (p, b) \<in> E \<and> (r, p) \<in> E\<^sup>* \<and> dom_of E r a p) \<and> a \<notin> sdoms E r b})"
  using assms(2)
proof (induction bs arbitrary: df)
  case (Cons b bs)
  obtain preds where p: "predecessors s b = Some preds" "set preds = {p. (p, b) \<in> E}" 
    using assms(3) [of b] Cons.prems by (metis list.set_intros(1))
  show ?case
  proof (cases "2 \<le> length preds")
    case True
    obtain df1 where df1: "frontier_preds t b preds df = Some df1" "\<forall>a. frontier_of df1 a = frontier_of df a
        \<union> (if (\<exists>p \<in> set preds. (r, p) \<in> E\<^sup>* \<and> dom_of E r a p) \<and> a \<notin> sdoms E r b then {b} else {})"
      using frontier_preds_exact [OF assms(1), of b preds df] Cons.prems p(2) by auto
    obtain df' where df': "frontier_nodes s t bs df1 = Some df'" "\<forall>a. frontier_of df' a = frontier_of df1 a
        \<union> {b \<in> set bs. 2 \<le> length (the (predecessors s b)) \<and> (\<exists>p. (p, b) \<in> E \<and> (r, p) \<in> E\<^sup>* \<and> dom_of E r a p) \<and> a \<notin> sdoms E r b}"
      using Cons.IH [of df1] Cons.prems by auto
    have "frontier_nodes s t (b # bs) df = Some df'" using True p(1) df1(1) df'(1) by simp
    moreover have "frontier_of df' a = frontier_of df a
        \<union> {c \<in> set (b # bs). 2 \<le> length (the (predecessors s c)) \<and> (\<exists>p. (p, c) \<in> E \<and> (r, p) \<in> E\<^sup>* \<and> dom_of E r a p) \<and> a \<notin> sdoms E r c}" for a
      using df1(2) df'(2) p True by auto
    ultimately show ?thesis by blast
  next
    case False
    obtain df' where df': "frontier_nodes s t bs df = Some df'" "\<forall>a. frontier_of df' a = frontier_of df a
        \<union> {b \<in> set bs. 2 \<le> length (the (predecessors s b)) \<and> (\<exists>p. (p, b) \<in> E \<and> (r, p) \<in> E\<^sup>* \<and> dom_of E r a p) \<and> a \<notin> sdoms E r b}"
      using Cons.IH [of df] Cons.prems by auto
    have "frontier_nodes s t (b # bs) df = Some df'" using False p(1) df'(1) by simp
    then show ?thesis using df'(2) False p(1) by auto
  qed
qed simp

section \<open>The SCG\<close>

lemma walks_converse: "walks (E\<inverse>) a xs b \<longleftrightarrow> walks E b (rev xs) a"
  by (auto simp: walks_def hd_rev last_rev successively_rev)

lemma dom_of_converse: "dom_of (E\<inverse>) r a b \<longleftrightarrow> (\<forall>xs. walks E b xs r \<longrightarrow> a \<in> set xs)"
  unfolding dom_of_def walks_converse by (metis rev_rev_ident set_rev)

lemma dominators_tree:
  assumes "scg_ok s" "get_node s entry \<noteq> None" "scg_node_count s < 2 ^ 32"
  shows "\<exists>t. compute_dominators s entry = Some t \<and> dominator_tree (id_rel s) entry t"
    "\<exists>t. compute_post_dominators s entry = Some t \<and> dominator_tree ((id_rel s)\<inverse>) entry t"
  using lt_run_graph [OF assms, of Outgoing] lt_run_graph [OF assms, of Incoming] flow_edges_id [OF assms(1)] assms(2)
  by (auto simp: compute_dominators_def compute_post_dominators_def)

lemma reachable_node:
  assumes "scg_ok s" "get_node s entry \<noteq> None" "(entry, b) \<in> (id_rel s)\<^sup>*"
  shows "get_node s b \<noteq> None"
proof -
  have "b \<in> set (dfs_order s Outgoing entry)" unfolding dfs_reaches flow_edges_id(1) [OF assms(1)] using assms(3) by simp
  then show ?thesis by (rule reached_nodes [OF assms(1,2)])
qed

lemma few_dominators:
  assumes "scg_ok s" "get_node s entry \<noteq> None" "(entry, b) \<in> (id_rel s)\<^sup>*"
  shows "card (sdoms (id_rel s) entry b) \<le> scg_node_count s"
  unfolding node_count_dom [OF assms(1)]
proof (rule card_mono)
  show "finite (dom (get_node s))" using finite_dom_map_of [of "node_id_to_index s"] get_node_None [OF assms(1)] by (simp add: dom_def)
  show "sdoms (id_rel s) entry b \<subseteq> dom (get_node s)"
    using dom_reach [OF _ assms(3)] reachable_node [OF assms(1,2)] by (auto simp: sdoms_def)
qed

text \<open>
  C4: The Lengauer-Tarjan algorithm computes dominance as it is defined by paths: for every well-formed graph of fewer than
  \<^verbatim>\<open>2^32\<close> nodes and every entry in it the analysis returns (no map is indexed at a missing key, every walk ends),
  its nodes are those reachable from the entry, the immediate dominator of each is the strict
  dominator that all others dominate, and \<open>dominates\<close> holds exactly when every path from the entry goes through the node.
\<close>

theorem compute_dominators_exact:
  assumes "scg_ok s" "get_node s entry \<noteq> None" "scg_node_count s < 2 ^ 32"
  shows "\<exists>t. compute_dominators s entry = Some t \<and> dt_nodes t = (id_rel s)\<^sup>* `` {entry}
    \<and> (\<forall>w d. idom t w = Some d \<longleftrightarrow> w \<in> dt_nodes t \<and> w \<noteq> entry \<and> idom_of (id_rel s) entry d w)
    \<and> (\<forall>a. \<forall>b \<in> dt_nodes t. dominates t a b = Some (\<forall>xs. walks (id_rel s) entry xs b \<longrightarrow> a \<in> set xs))"
proof -
  obtain t where t: "compute_dominators s entry = Some t" "dominator_tree (id_rel s) entry t" using dominators_tree(1) [OF assms] by blast
  have "dominates t a b = Some (\<forall>xs. walks (id_rel s) entry xs b \<longrightarrow> a \<in> set xs)" if "b \<in> dt_nodes t" for a b
    using dominates_iff [OF t(2), of a b] dom_refl [of "id_rel s" entry b] that treeD(2) [OF t(2)] by (auto simp: dom_of_def)
  then show ?thesis using t treeD(2,4) [OF t(2)] by auto
qed

text \<open>
  C27: Cleanup is guaranteed exactly when the post-dominator tree says so: for a node from which the exit can be reached,
  \<open>always_executes_after\<close> holds if and only if every path from it to the exit goes through the cleanup node.
\<close>

theorem always_executes_after_exact:
  assumes "scg_ok s" "get_node s exit \<noteq> None" "scg_node_count s < 2 ^ 32" "(start, exit) \<in> (id_rel s)\<^sup>*"
  shows "\<exists>t. compute_post_dominators s exit = Some t
    \<and> always_executes_after t start cleanup = Some (\<forall>xs. walks (id_rel s) start xs exit \<longrightarrow> cleanup \<in> set xs)"
proof -
  obtain t where t: "compute_post_dominators s exit = Some t" "dominator_tree ((id_rel s)\<inverse>) exit t" using dominators_tree(2) [OF assms(1-3)] by blast
  have "(exit, start) \<in> ((id_rel s)\<inverse>)\<^sup>*" using assms(4) by (simp add: rtrancl_converse)
  then have "always_executes_after t start cleanup = Some (dom_of ((id_rel s)\<inverse>) exit cleanup start)"
    using dominates_iff [OF t(2), of cleanup start] dom_refl [of "(id_rel s)\<inverse>" exit start] by (auto simp: always_executes_after_def)
  then show ?thesis using t(1) by (simp add: dom_of_converse)
qed

text \<open>
  C28: The nearest common dominator of two reachable nodes is found: it dominates both and every node that dominates both dominates
  it; \<open>dominators_of\<close> is the set of all dominators, \<open>dominated_by\<close> the set of all dominated nodes, and the guaranteed
  path lists the dominators from the entry down to the node.
\<close>

theorem dominator_queries_exact:
  assumes "scg_ok s" "get_node s entry \<noteq> None" "scg_node_count s < 2 ^ 32" "(entry, a) \<in> (id_rel s)\<^sup>*" "(entry, b) \<in> (id_rel s)\<^sup>*"
  shows "\<exists>t c path. compute_dominators s entry = Some t
    \<and> nearest_common_dominator t a b = Some (Some c) \<and> dom_of (id_rel s) entry c a \<and> dom_of (id_rel s) entry c b
    \<and> (\<forall>x. dom_of (id_rel s) entry x a \<longrightarrow> dom_of (id_rel s) entry x b \<longrightarrow> dom_of (id_rel s) entry x c)
    \<and> dominators_of t a = Some {x. dom_of (id_rel s) entry x a}
    \<and> dominated_by t a = Some {x. (entry, x) \<in> (id_rel s)\<^sup>* \<and> dom_of (id_rel s) entry a x}
    \<and> guaranteed_execution_path t a = Some path \<and> set path = {x. dom_of (id_rel s) entry x a} \<and> distinct path
    \<and> hd path = entry \<and> last path = a \<and> sorted_wrt (dom_of (id_rel s) entry) path"
proof -
  obtain t where t: "compute_dominators s entry = Some t" "dominator_tree (id_rel s) entry t" using dominators_tree(1) [OF assms(1-3)] by blast
  have mem: "a \<in> dt_nodes t" using treeD(2) [OF t(2)] assms(4) by simp
  have doms: "insert a (sdoms (id_rel s) entry a) = {x. dom_of (id_rel s) entry x a}"
    using dom_refl [of "id_rel s" entry a] by (auto simp: sdoms_def)
  obtain xs where xs: "path_loop t a [] = Some xs" "xs \<noteq> []" "hd xs = a" "last xs = entry" "distinct xs"
      "set xs = insert a (sdoms (id_rel s) entry a)" "sorted_wrt (\<lambda>x y. dom_of (id_rel s) entry y x) xs"
    using path_loop_exact [OF t(2) assms(4), of "[]"] by auto
  have "guaranteed_execution_path t a = Some (rev xs)" using mem xs(1) by (simp add: guaranteed_execution_path_def)
  moreover have "dominators_of t a = Some {x. dom_of (id_rel s) entry x a}"
    using mem dominators_loop_exact [OF t(2) assms(4), of "{}"] doms by (simp add: dominators_of_def)
  moreover have "dominated_by t a = Some (below (id_rel s) entry a)"
    using mem subtree_loop_exact [OF t(2) assms(4), of "{}" "[a]"] dom_refl [of "id_rel s" entry a] assms(4)
    by (simp add: dominated_by_def below_def)
  moreover obtain c where "nearest_common_dominator t a b = Some (Some c)" "dom_of (id_rel s) entry c a" "dom_of (id_rel s) entry c b"
      "\<forall>x. dom_of (id_rel s) entry x a \<longrightarrow> dom_of (id_rel s) entry x b \<longrightarrow> dom_of (id_rel s) entry x c"
    using ncd_exact [OF t(2) assms(4,5)] few_dominators [OF assms(1,2)] assms(3-5) by (meson le_less_trans)
  ultimately show ?thesis
    using t(1) xs doms by (intro exI [of _ t] exI [of _ c] exI [of _ "rev xs"]) (auto simp: below_def hd_rev last_rev sorted_wrt_rev)
qed

lemma single_pred:
  assumes "(r, b) \<in> E\<^sup>*" "b \<noteq> r" "{p. (p, b) \<in> E} \<subseteq> {p}" "(r, p) \<in> E\<^sup>*" "dom_of E r a p"
  shows "a \<in> sdoms E r b"
proof -
  have last: "\<exists>us. xs = us @ [p, b]" if w: "walks E r xs b" for xs
  proof -
    obtain us where us: "xs = us @ [b]" using w unfolding walks_def by (metis append_butlast_last_id)
    have "us \<noteq> []" using w us assms(2) by auto
    then obtain vs q where q: "us = vs @ [q]" by (metis rev_exhaust)
    then have "(q, b) \<in> E" using walks_split [of E r vs q "[b]" b] w us by (simp add: walks_Cons)
    then show ?thesis using assms(3) us q by auto
  qed
  then have pb: "dom_of E r p b" unfolding dom_of_def by force
  have "p \<noteq> b"
  proof
    assume pb: "p = b"
    obtain xs where xs: "walks E r xs b" using assms(1) reach_walks by metis
    then obtain us vs where u: "xs = us @ b # vs" "b \<notin> set us" using walks_ends split_list_first by metis
    then obtain ws where "us @ [b] = ws @ [p, b]" using last walks_split xs by metis
    then show False using u(2) pb by (cases us rule: rev_cases) auto
  qed
  then have "a \<noteq> b" using dom_antisym [OF pb] assms(4,5) by blast
  then show ?thesis using dom_trans [OF assms(5) pb] by (simp add: sdoms_def)
qed

text \<open>
  C29: The dominance frontier is computed as documented, with one exception: \<open>b\<close> is in the frontier of \<open>a\<close> exactly when \<open>a\<close> dominates a
  reachable predecessor of \<open>b\<close> and does not strictly dominate \<open>b\<close>, provided that \<open>b\<close>, if it is the entry, has two
  incoming edges.
\<close>

theorem dominance_frontier_exact:
  assumes "scg_ok s" "get_node s entry \<noteq> None" "scg_node_count s < 2 ^ 32" "iterates iter"
  shows "\<exists>t df. compute_dominators s entry = Some t \<and> find_dominance_frontier iter s t = Some df
    \<and> (\<forall>a b. b \<in> frontier_of df a \<longleftrightarrow>
         (\<exists>p. (p, b) \<in> id_rel s \<and> (entry, p) \<in> (id_rel s)\<^sup>* \<and> dom_of (id_rel s) entry a p)
         \<and> \<not> (a \<noteq> b \<and> dom_of (id_rel s) entry a b) \<and> (b = entry \<longrightarrow> 2 \<le> length (the (predecessors s b))))"
proof -
  let ?E = "id_rel s"
  obtain t where t: "compute_dominators s entry = Some t" "dominator_tree ?E entry t" using dominators_tree(1) [OF assms(1-3)] by blast
  have it: "set (iter (dt_nodes t)) = ?E\<^sup>* `` {entry}"
    using assms(4) tree_finite [OF t(2)] treeD(2) [OF t(2)] by (simp add: iterates_def)
  have preds: "\<exists>preds. predecessors s b = Some preds \<and> set preds = {p. (p, b) \<in> ?E}" if "(entry, b) \<in> ?E\<^sup>*" for b
    using back_edges [OF assms(1) reachable_node [OF assms(1,2) that], of Outgoing] flow_edges_id(1) [OF assms(1)] by simp
  obtain df where df: "find_dominance_frontier iter s t = Some df" "\<forall>a. frontier_of df a
      = {b \<in> ?E\<^sup>* `` {entry}. 2 \<le> length (the (predecessors s b)) \<and> (\<exists>p. (p, b) \<in> ?E \<and> (entry, p) \<in> ?E\<^sup>* \<and> dom_of ?E entry a p) \<and> a \<notin> sdoms ?E entry b}"
    using frontier_nodes_exact [OF t(2), of "iter (dt_nodes t)" s "[]", OF _ preds] it
    by (auto simp: find_dominance_frontier_def frontier_of_def)
  have "2 \<le> length (the (predecessors s b))"
    if "(p, b) \<in> ?E" "(entry, p) \<in> ?E\<^sup>*" "dom_of ?E entry a p" "a \<notin> sdoms ?E entry b" "b \<noteq> entry" for a b p
  proof (rule ccontr)
    assume n: "\<not> 2 \<le> length (the (predecessors s b))"
    have b: "(entry, b) \<in> ?E\<^sup>*" using that(1,2) by (rule rtrancl.rtrancl_into_rtrancl [rotated])
    obtain ps where ps: "predecessors s b = Some ps" "set ps = {p. (p, b) \<in> ?E}" using preds [OF b] by blast
    have "p \<in> set ps" using ps(2) that(1) by simp
    then have "ps = [p]" using n ps(1) by (cases ps; cases "tl ps") auto
    then have "{p. (p, b) \<in> ?E} \<subseteq> {p}" using ps(2) by auto
    then show False using single_pred [OF b that(5) _ that(2,3)] that(4) by blast
  qed
  moreover have "(entry, b) \<in> ?E\<^sup>*" if "(p, b) \<in> ?E" "(entry, p) \<in> ?E\<^sup>*" for b p using that by (rule rtrancl.rtrancl_into_rtrancl [rotated])
  ultimately have "b \<in> frontier_of df a \<longleftrightarrow> (\<exists>p. (p, b) \<in> ?E \<and> (entry, p) \<in> ?E\<^sup>* \<and> dom_of ?E entry a p)
      \<and> \<not> (a \<noteq> b \<and> dom_of ?E entry a b) \<and> (b = entry \<longrightarrow> 2 \<le> length (the (predecessors s b)))" for a b
    unfolding df(2) [rule_format] by (auto simp: sdoms_def)
  then show ?thesis using t(1) df(1) by blast
qed

text \<open>
  The post-order of the dominator tree is complete and terminates: it lists every reachable node exactly once, and no node
  before one it strictly dominates.
\<close>

theorem dom_tree_postorder_exact:
  assumes "scg_ok s" "get_node s entry \<noteq> None" "scg_node_count s < 2 ^ 32"
  shows "\<exists>t xs. compute_dominators s entry = Some t \<and> dom_tree_postorder t = Some xs \<and> distinct xs \<and> set xs = (id_rel s)\<^sup>* `` {entry}
    \<and> sorted_wrt (\<lambda>x y. \<not> dom_of (id_rel s) entry x y) xs"
proof -
  obtain t where t: "compute_dominators s entry = Some t" "dominator_tree (id_rel s) entry t" using dominators_tree(1) [OF assms(1-3)] by blast
  obtain xs where xs: "\<forall>rest res. postorder_loop t ((entry, False) # rest) res = postorder_loop t rest (res @ xs)"
      "set xs = below (id_rel s) entry entry" "postordered (id_rel s) entry xs"
    using postorder_subtree [OF t(2), of entry] by auto
  have "dom_tree_postorder t = Some xs" using xs(1) treeD(1) [OF t(2)] by (simp add: dom_tree_postorder_def postorder_loop.simps)
  moreover have "set xs = (id_rel s)\<^sup>* `` {entry}" using xs(2) dom_entry [of "id_rel s" entry] by (auto simp: below_def)
  moreover have "distinct xs" using xs(3) by (simp add: postordered_def)
  moreover have "sorted_wrt (\<lambda>x y. \<not> dom_of (id_rel s) entry x y) xs"
    using xs(3) by (auto simp: postordered_def sorted_wrt_iff_nth_less sdoms_def nth_eq_iff_index_eq)
  ultimately show ?thesis using t(1) by blast
qed

section \<open>Concrete graphs\<close>

declare compress.simps [code] dominates_walk.simps [code] frontier_walk.simps [code] meet_walk.simps [code]

lemma loop_facts:
  "get_node loop_scg 0 \<noteq> None" "get_node loop_scg 3 \<noteq> None" "scg_node_count loop_scg = 4"
  "map_option (\<lambda>t. dominates t 1 3) (compute_dominators loop_scg 0) = Some (Some True)"
  "map_option (\<lambda>t. dominates t 2 3) (compute_dominators loop_scg 0) = Some (Some False)"
  "successors loop_scg 0 = Some [1]" "successors loop_scg 1 = Some [2, 3]"
  by code_simp+

lemma loop_reach: "(0, 1) \<in> (id_rel loop_scg)\<^sup>*" "(0, 3) \<in> (id_rel loop_scg)\<^sup>*" "(0, 2) \<in> (id_rel loop_scg)\<^sup>*"
proof -
  have e: "(0, 1) \<in> id_rel loop_scg" "(1, 2) \<in> id_rel loop_scg" "(1, 3) \<in> id_rel loop_scg"
    using neighbour_sets(1) [OF loop_scg_ok, of 0] neighbour_sets(1) [OF loop_scg_ok, of 1] loop_facts(6,7) by (auto split: if_splits)
  then show "(0, 1) \<in> (id_rel loop_scg)\<^sup>*" "(0, 3) \<in> (id_rel loop_scg)\<^sup>*" "(0, 2) \<in> (id_rel loop_scg)\<^sup>*"
    by (meson r_into_rtrancl rtrancl_trans)+
qed

theorem compute_dominators_exact_witness:
  "(\<exists>t. compute_dominators loop_scg 0 = Some t \<and> dt_nodes t = (id_rel loop_scg)\<^sup>* `` {0} \<and> dominates t 1 3 = Some True)
    \<and> dom_of (id_rel loop_scg) 0 1 3 \<and> \<not> dom_of (id_rel loop_scg) 0 2 3"
proof -
  have n: "scg_node_count loop_scg < 2 ^ 32" using loop_facts(3) by simp
  obtain t where t: "compute_dominators loop_scg 0 = Some t" "dt_nodes t = (id_rel loop_scg)\<^sup>* `` {0}"
      "\<forall>a. \<forall>b \<in> dt_nodes t. dominates t a b = Some (\<forall>xs. walks (id_rel loop_scg) 0 xs b \<longrightarrow> a \<in> set xs)"
    using compute_dominators_exact [OF loop_scg_ok loop_facts(1) n] by blast
  then show ?thesis using loop_facts(4,5) loop_reach(2) by (simp add: dom_of_def)
qed

theorem always_executes_after_exact_witness:
  "\<exists>t. compute_post_dominators loop_scg 3 = Some t \<and> always_executes_after t 2 1 = Some True \<and> dom_of (id_rel loop_scg) 2 1 3"
proof -
  have n: "scg_node_count loop_scg < 2 ^ 32" using loop_facts(3) by simp
  have "successors loop_scg 2 = Some [1]" by code_simp
  then have "(2, 1) \<in> id_rel loop_scg" "(1, 3) \<in> id_rel loop_scg"
    using neighbour_sets(1) [OF loop_scg_ok, of 2] neighbour_sets(1) [OF loop_scg_ok, of 1] loop_facts(7) by (auto split: if_splits)
  then have "(2, 3) \<in> (id_rel loop_scg)\<^sup>*" by (meson r_into_rtrancl rtrancl_trans)
  moreover have "map_option (\<lambda>t. always_executes_after t 2 1) (compute_post_dominators loop_scg 3) = Some (Some True)" by code_simp
  ultimately show ?thesis using always_executes_after_exact [OF loop_scg_ok loop_facts(2) n, of 2 1] by (auto simp: dom_of_def)
qed

theorem dominator_queries_exact_witness:
  "\<exists>t c. compute_dominators loop_scg 0 = Some t \<and> nearest_common_dominator t 2 3 = Some (Some c) \<and> dom_of (id_rel loop_scg) 0 c 2 \<and> dom_of (id_rel loop_scg) 0 c 3"
  using dominator_queries_exact [OF loop_scg_ok loop_facts(1) _ loop_reach(3,2)] loop_facts(3) by auto

theorem dominance_frontier_exact_witness:
  "\<exists>t df. compute_dominators loop_scg 0 = Some t \<and> find_dominance_frontier sorted_list_of_set loop_scg t = Some df
    \<and> (1 \<in> frontier_of df 2 \<longleftrightarrow> (\<exists>p. (p, 1) \<in> id_rel loop_scg \<and> (0, p) \<in> (id_rel loop_scg)\<^sup>* \<and> dom_of (id_rel loop_scg) 0 2 p)
         \<and> \<not> dom_of (id_rel loop_scg) 0 2 1)"
proof -
  have "iterates (sorted_list_of_set :: NodeId set \<Rightarrow> NodeId list)" "scg_node_count loop_scg < 2 ^ 32" using loop_facts(3) by (simp_all add: iterates_def)
  from dominance_frontier_exact [OF loop_scg_ok loop_facts(1) this(2,1)] show ?thesis by fastforce
qed

theorem dom_tree_postorder_exact_witness:
  "\<exists>t xs. compute_dominators loop_scg 0 = Some t \<and> dom_tree_postorder t = Some xs \<and> distinct xs \<and> 3 \<in> set xs"
  using dom_tree_postorder_exact [OF loop_scg_ok loop_facts(1)] loop_facts(3) loop_reach(2) by auto

text \<open>
  The exception matters: in a loop of two nodes the entry dominates its only predecessor and does not strictly dominate itself, yet
  its frontier is empty.
\<close>

definition two_loop :: SCG where
  "two_loop = fst (the (scg_run [OpAddNode NtControl (Control CkFunctionEntry None) here, OpAddNode NtPhantom (PhantomNode ''body'') here,
     OpAddEdge 0 1 ControlFlow, OpAddEdge 1 0 ControlFlow] scg_new))"

lemma frontier_misses_entry:
  "map_option (\<lambda>t. find_dominance_frontier (\<lambda>_. [0, 1]) two_loop t) (compute_dominators two_loop 0) = Some (Some [])"
  "predecessors two_loop 0 = Some [1]" "map_option (\<lambda>t. dominates t 0 1) (compute_dominators two_loop 0) = Some (Some True)"
  by code_simp+

text \<open>The tree of an entry that is not in the graph is empty.\<close>

lemma missing_entry_empty: "get_node s entry = None \<Longrightarrow> map_option dt_nodes (compute_dominators s entry) = Some {}"
  by (simp add: compute_dominators_def empty_tree_def)

end
