(* ===== verification/Scg_Liveness.thy ===== *)
theory Scg_Liveness
  imports Scg_Validate "HOL-Library.Monad_Syntax"
begin

text \<open>
  Liveness analysis on the SCG (\<^verbatim>\<open>scg/src/liveness.rs\<close>): the iterated sweeps over the data-flow equations with their bound of ten
  thousand, and the searches for dead code, uninitialised reads, uses after a deallocation and dead allocations.
  A missing key of an indexed map is a panic, that is \<open>None\<close>.
\<close>

section \<open>The analysis\<close>

record LivenessInfo =
  live_in :: "NodeId set"
  live_out :: "NodeId set"

definition liveness_empty :: LivenessInfo where
  "liveness_empty = \<lparr>live_in = {}, live_out = {}\<rparr>"

record LivenessAnalysis =
  la_liveness :: "(NodeId, LivenessInfo) hmap"
  la_iterations :: u64
  la_converged :: bool

definition MAX_ITERATIONS :: u64 where
  "MAX_ITERATIONS = 10000"

fun carries :: "EdgeKind \<Rightarrow> bool" where
  "carries DataFlow = True"
| "carries Derivation = True"
| "carries _ = False"

fun propagates :: "EdgeKind \<Rightarrow> bool" where
  "propagates ControlFlow = True"
| "propagates DataFlow = True"
| "propagates Derivation = True"
| "propagates _ = False"

definition compute_use_set :: "SCG \<Rightarrow> NodeId \<Rightarrow> NodeId set" where
  "compute_use_set s node_id = set (map ed_source (filter (\<lambda>e. ed_target e = node_id \<and> carries (ed_kind e)) (edges s)))"

fun relevant_succs :: "SCG \<Rightarrow> NodeId \<Rightarrow> NodeId set \<Rightarrow> NodeId list \<Rightarrow> NodeId list" where
  "relevant_succs s node_id seen [] = []"
| "relevant_succs s node_id seen (succ # rest) =
     (if succ \<in> seen then relevant_succs s node_id seen rest
      else (if list_ex (\<lambda>e. ed_source e = node_id \<and> ed_target e = succ \<and> propagates (ed_kind e)) (edges s) then [succ] else [])
        @ relevant_succs s node_id (insert succ seen) rest)"

definition compute_successor_set :: "SCG \<Rightarrow> NodeId \<Rightarrow> NodeId list" where
  "compute_successor_set s node_id = (case successors s node_id of None \<Rightarrow> [] | Some all_succs \<Rightarrow> relevant_succs s node_id {} all_succs)"

definition live_out_of :: "(NodeId, LivenessInfo) hmap \<Rightarrow> NodeId list \<Rightarrow> NodeId set" where
  "live_out_of liveness succs =
     fold (\<lambda>succ acc. case hm_get liveness succ of Some succ_info \<Rightarrow> acc \<union> live_in succ_info | None \<Rightarrow> acc) succs {}"

text \<open>One node of a sweep, and a sweep. The flag is \<^verbatim>\<open>converged\<close>.\<close>

definition update_node ::
    "(NodeId, NodeId set) hmap \<Rightarrow> (NodeId, NodeId list) hmap \<Rightarrow> NodeId \<Rightarrow> (NodeId, LivenessInfo) hmap \<times> bool
      \<Rightarrow> ((NodeId, LivenessInfo) hmap \<times> bool) option" where
  "update_node use_sets successor_sets node_id st = do {
     use_set \<leftarrow> hm_get use_sets node_id;
     succs \<leftarrow> hm_get successor_sets node_id;
     let new_live_out = live_out_of (fst st) succs;
     let new_live_in = use_set \<union> {v \<in> new_live_out. v \<noteq> node_id};
     info \<leftarrow> hm_get (fst st) node_id;
     Some (if live_in info \<noteq> new_live_in \<or> live_out info \<noteq> new_live_out
           then (hm_insert node_id (info\<lparr>live_in := new_live_in, live_out := new_live_out\<rparr>) (fst st), False)
           else st) }"

fun sweep ::
    "(NodeId, NodeId set) hmap \<Rightarrow> (NodeId, NodeId list) hmap \<Rightarrow> NodeId list \<Rightarrow> (NodeId, LivenessInfo) hmap \<times> bool
      \<Rightarrow> ((NodeId, LivenessInfo) hmap \<times> bool) option" where
  "sweep use_sets successor_sets [] st = Some st"
| "sweep use_sets successor_sets (node_id # rest) st = do {
     st1 \<leftarrow> update_node use_sets successor_sets node_id st;
     sweep use_sets successor_sets rest st1 }"

function liveness_loop ::
    "(NodeId, NodeId set) hmap \<Rightarrow> (NodeId, NodeId list) hmap \<Rightarrow> NodeId list \<Rightarrow> u64 \<Rightarrow> (NodeId, LivenessInfo) hmap \<times> bool
      \<Rightarrow> LivenessAnalysis option" where
  "liveness_loop use_sets successor_sets all_node_ids iterations st =
     (if \<not> snd st \<and> iterations < MAX_ITERATIONS
      then do {
        st1 \<leftarrow> sweep use_sets successor_sets all_node_ids (fst st, True);
        liveness_loop use_sets successor_sets all_node_ids (iterations + 1) st1 }
      else Some \<lparr>la_liveness = fst st, la_iterations = iterations, la_converged = snd st\<rparr>)"
  by pat_completeness auto

termination
proof (relation "measure (\<lambda>(_, _, _, iterations, _). unat MAX_ITERATIONS - unat iterations)")
  fix iterations :: u64 and st :: "(NodeId, LivenessInfo) hmap \<times> bool" and st1 :: "(NodeId, LivenessInfo) hmap \<times> bool"
    and us :: "(NodeId, NodeId set) hmap" and ss :: "(NodeId, NodeId list) hmap" and ids :: "NodeId list"
  assume "\<not> snd st \<and> iterations < MAX_ITERATIONS"
  then show "((us, ss, ids, iterations + 1, st1), (us, ss, ids, iterations, st)) \<in> measure (\<lambda>(_, _, _, iterations, _). unat MAX_ITERATIONS - unat iterations)"
    by (auto simp: MAX_ITERATIONS_def unat_word_ariths word_less_nat_alt)
qed simp

definition compute_liveness_inner :: "SCG \<Rightarrow> LivenessAnalysis option" where
  "compute_liveness_inner s =
     (let all_node_ids = node_ids s in
      if all_node_ids = [] then Some \<lparr>la_liveness = [], la_iterations = 0, la_converged = True\<rparr>
      else liveness_loop (fold (\<lambda>i. hm_insert i (compute_use_set s i)) all_node_ids [])
        (fold (\<lambda>i. hm_insert i (compute_successor_set s i)) all_node_ids []) all_node_ids 0
        (fold (\<lambda>i. hm_insert i liveness_empty) all_node_ids [], False))"

definition compute_liveness :: "SCG \<Rightarrow> (NodeId, LivenessInfo) hmap option" where
  "compute_liveness s = map_option la_liveness (compute_liveness_inner s)"

definition is_live_in :: "LivenessAnalysis \<Rightarrow> NodeId \<Rightarrow> NodeId \<Rightarrow> bool" where
  "is_live_in la node v = (case hm_get (la_liveness la) node of Some info \<Rightarrow> v \<in> live_in info | None \<Rightarrow> False)"

definition is_live_out :: "LivenessAnalysis \<Rightarrow> NodeId \<Rightarrow> NodeId \<Rightarrow> bool" where
  "is_live_out la node v = (case hm_get (la_liveness la) node of Some info \<Rightarrow> v \<in> live_out info | None \<Rightarrow> False)"

definition all_live_values :: "LivenessAnalysis \<Rightarrow> NodeId set" where
  "all_live_values la = fold (\<lambda>(_, info) acc. acc \<union> live_in info \<union> live_out info) (la_liveness la) {}"

section \<open>The data-flow equations\<close>

text \<open>
  A graph with the values each node uses. A value is alive at a node from which some path leads to a use, none of the nodes before
  the use being the one that defines it.
\<close>

locale flow_graph =
  fixes N :: "'a set" and R :: "('a \<times> 'a) set" and U :: "'a \<Rightarrow> 'a set"
  assumes finite_N: "finite N" and R_N: "R \<subseteq> N \<times> N"
begin

definition alive :: "'a \<Rightarrow> 'a set" where
  "alive n = {v. \<exists>m \<in> N. (n, m) \<in> (R \<inter> {(a, b). a \<noteq> v})\<^sup>* \<and> v \<in> U m}"

definition alive_after :: "'a \<Rightarrow> 'a set" where
  "alive_after n = (\<Union>b \<in> R `` {n}. alive b)"

text \<open>The nodes at which a use is at most \<open>k\<close> steps away.\<close>

primrec near :: "'a \<Rightarrow> nat \<Rightarrow> 'a set" where
  "near v 0 = {n \<in> N. v \<in> U n}"
| "near v (Suc k) = near v k \<union> {n \<in> N. n \<noteq> v \<and> (\<exists>b \<in> near v k. (n, b) \<in> R)}"

lemma near_N: "near v k \<subseteq> N"
  by (induction k) auto

lemma near_alive: "n \<in> near v k \<Longrightarrow> v \<in> alive n"
proof (induction k arbitrary: n)
  case (Suc k)
  show ?case
  proof (cases "n \<in> near v k")
    case False
    then obtain b where b: "n \<noteq> v" "b \<in> near v k" "(n, b) \<in> R" using Suc.prems by auto
    then obtain m where "m \<in> N" "(b, m) \<in> (R \<inter> {(a, b). a \<noteq> v})\<^sup>*" "v \<in> U m" using Suc.IH by (auto simp: alive_def)
    moreover have "(n, b) \<in> R \<inter> {(a, b). a \<noteq> v}" using b by simp
    ultimately show ?thesis by (auto simp: alive_def intro: converse_rtrancl_into_rtrancl)
  qed (use Suc.IH in simp)
qed (auto simp: alive_def)

lemma alive_near:
  assumes "v \<in> alive n" "n \<in> N"
  shows "\<exists>k. n \<in> near v k"
proof -
  obtain m where m: "m \<in> N" "(n, m) \<in> (R \<inter> {(a, b). a \<noteq> v})\<^sup>*" "v \<in> U m" using assms(1) by (auto simp: alive_def)
  from m(2) show ?thesis
  proof (induction rule: converse_rtrancl_induct)
    case base
    then show ?case using m by (intro exI [of _ 0]) simp
  next
    case (step a b)
    then obtain k where "b \<in> near v k" by auto
    then have "a \<in> near v (Suc k)" using step(1) R_N by auto
    then show ?case by blast
  qed
qed

lemma near_mono: "k \<le> l \<Longrightarrow> near v k \<subseteq> near v l"
  by (rule lift_Suc_mono_le [of "near v"]) auto

lemma near_card: "near v (card N) = {n \<in> N. v \<in> alive n}"
proof -
  have "near v (card N) = (\<Union>k. near v k)"
  proof (rule finite_mono_strict_prefix_implies_finite_fixpoint [OF near_N finite_N])
    show "\<exists>K. (\<forall>n\<le>K. \<forall>m\<le>K. m < n \<longrightarrow> near v m \<subset> near v n) \<and> (\<forall>n\<ge>K. near v K = near v n)"
    proof (rule finite_mono_remains_stable_implies_strict_prefix)
      have "range (near v) \<subseteq> Pow N" using near_N by blast
      then show "finite (range (near v))" using finite_N by (meson finite_Pow_iff finite_subset)
      show "mono (near v)" using near_mono by (simp add: monoI)
      show "\<forall>n. near v n = near v (Suc n) \<longrightarrow> near v (Suc n) = near v (Suc (Suc n))" by simp
    qed
  qed
  moreover have "n \<in> (\<Union>k. near v k) \<longleftrightarrow> n \<in> N \<and> v \<in> alive n" for n
    using near_N [of v] near_alive [of n v] alive_near [of v n] by auto
  ultimately show ?thesis by auto
qed

definition outs :: "('a \<Rightarrow> 'a set \<times> 'a set) \<Rightarrow> 'a \<Rightarrow> 'a set" where
  "outs L n = (\<Union>b \<in> R `` {n}. fst (L b))"

definition ins :: "('a \<Rightarrow> 'a set \<times> 'a set) \<Rightarrow> 'a \<Rightarrow> 'a set" where
  "ins L n = U n \<union> (outs L n - {n})"

definition balanced :: "('a \<Rightarrow> 'a set \<times> 'a set) \<Rightarrow> 'a \<Rightarrow> bool" where
  "balanced L n \<longleftrightarrow> L n = (ins L n, outs L n)"

definition below_alive :: "('a \<Rightarrow> 'a set \<times> 'a set) \<Rightarrow> bool" where
  "below_alive L \<longleftrightarrow> (\<forall>n \<in> N. fst (L n) \<subseteq> alive n \<and> snd (L n) \<subseteq> alive_after n)"

definition covers :: "nat \<Rightarrow> ('a \<Rightarrow> 'a set \<times> 'a set) \<Rightarrow> 'a \<Rightarrow> bool" where
  "covers k L n \<longleftrightarrow> (\<forall>i < k. \<forall>v. n \<in> near v i \<longrightarrow> v \<in> fst (L n))"

definition exact :: "('a \<Rightarrow> 'a set \<times> 'a set) \<Rightarrow> 'a \<Rightarrow> bool" where
  "exact L n \<longleftrightarrow> L n = (alive n, alive_after n)"

lemma alive_use: "n \<in> N \<Longrightarrow> U n \<subseteq> alive n"
  by (auto simp: alive_def)

lemma alive_step: "(n, b) \<in> R \<Longrightarrow> alive b - {n} \<subseteq> alive n"
  by (auto simp: alive_def intro: converse_rtrancl_into_rtrancl)

lemma alive_unfold:
  assumes "n \<in> N"
  shows "alive n = U n \<union> (alive_after n - {n})"
proof
  show "U n \<union> (alive_after n - {n}) \<subseteq> alive n" using alive_use [OF assms] alive_step [of n] by (auto simp: alive_after_def)
  show "alive n \<subseteq> U n \<union> (alive_after n - {n})"
  proof
    fix v assume "v \<in> alive n"
    then obtain m where "m \<in> N" "(n, m) \<in> (R \<inter> {(a, b). a \<noteq> v})\<^sup>*" "v \<in> U m" by (auto simp: alive_def)
    from this(2,1,3) show "v \<in> U n \<union> (alive_after n - {n})"
      by (cases rule: converse_rtranclE) (auto simp: alive_after_def alive_def)
  qed
qed

lemma below_alive_step:
  assumes "below_alive L" "n \<in> N"
  shows "below_alive (L(n := (ins L n, outs L n)))"
proof -
  have "outs L n \<subseteq> alive_after n" using assms(1) R_N by (fastforce simp: outs_def alive_after_def below_alive_def)
  moreover from this have "ins L n \<subseteq> alive n" using alive_unfold [OF assms(2)] by (auto simp: ins_def)
  ultimately show ?thesis using assms(1) by (auto simp: below_alive_def)
qed

lemma covers_mono: "covers k L n \<Longrightarrow> l \<le> k \<Longrightarrow> covers l L n"
  unfolding covers_def by (meson less_le_trans)

lemma covers_step:
  assumes "\<forall>b \<in> N. covers k L b" "n \<in> N" "L' n = (ins L n, outs L n)"
  shows "covers (Suc k) L' n"
  unfolding covers_def
proof (intro allI impI)
  fix i v assume i: "i < Suc k" "n \<in> near v i"
  show "v \<in> fst (L' n)"
  proof (cases "v \<in> U n")
    case False
    then obtain j b where j: "j < i" "n \<noteq> v" "b \<in> near v j" "(n, b) \<in> R"
      using i(2) by (induction i) (auto intro: less_SucI)
    moreover have "b \<in> N" "j < k" using j(1,4) i(1) R_N by auto
    ultimately have "v \<in> fst (L b)" using assms(1) unfolding covers_def by blast
    then show ?thesis using j assms(3) by (auto simp: ins_def outs_def)
  qed (simp add: assms(3) ins_def)
qed

lemma covers_alive:
  assumes "covers k L n" "card N < k" "n \<in> N"
  shows "alive n \<subseteq> fst (L n)"
  using assms near_card unfolding covers_def by blast

lemma outs_exact:
  assumes "below_alive L" "\<forall>b \<in> N. covers k L b" "card N < k" "n \<in> N"
  shows "outs L n = alive_after n" "ins L n = alive n"
proof -
  have "fst (L b) = alive b" if "b \<in> N" for b
    using that assms(1) covers_alive [of k L b] assms(2,3) unfolding below_alive_def by blast
  then show "outs L n = alive_after n" using R_N by (fastforce simp: outs_def alive_after_def)
  then show "ins L n = alive n" using alive_unfold [OF assms(4)] by (simp add: ins_def)
qed

text \<open>A solution of the equations that reports only values that are alive reports all of them.\<close>

lemma balanced_exact:
  assumes "below_alive L" "\<forall>n \<in> N. balanced L n" "n \<in> N"
  shows "exact L n"
proof -
  have all: "covers k L b" if "b \<in> N" for k b
    using that
  proof (induction k arbitrary: b)
    case 0
    then show ?case by (simp add: covers_def)
  next
    case (Suc k)
    then have "\<forall>b \<in> N. covers k L b" by blast
    moreover have "L b = (ins L b, outs L b)" using assms(2) Suc.prems by (simp add: balanced_def)
    ultimately show ?case using covers_step [of k L b L] Suc.prems by blast
  qed
  then have "outs L n = alive_after n" "ins L n = alive n" using outs_exact [OF assms(1) _ _ assms(3), of "Suc (card N)"] by auto
  then show ?thesis using assms(2,3) by (simp add: exact_def balanced_def)
qed

text \<open>A sweep replaces the sets of one node after the other.\<close>

definition settle :: "'a \<Rightarrow> ('a \<Rightarrow> 'a set \<times> 'a set) \<Rightarrow> 'a \<Rightarrow> 'a set \<times> 'a set" where
  "settle n L = L(n := (ins L n, outs L n))"

lemma settle_balanced: "balanced L n \<longleftrightarrow> settle n L = L"
  by (auto simp: balanced_def settle_def fun_upd_idem_iff)

lemma fold_settle_below: "set ns \<subseteq> N \<Longrightarrow> below_alive L \<Longrightarrow> below_alive (fold settle ns L)"
  by (induction ns arbitrary: L) (simp_all add: settle_def below_alive_step)

lemma fold_settle_covers:
  assumes "set ns \<subseteq> N" "\<forall>b \<in> N. covers k L b" "\<forall>b \<in> D \<inter> N. covers (Suc k) L b"
  shows "\<forall>b \<in> N. covers (if b \<in> set ns \<or> b \<in> D then Suc k else k) (fold settle ns L) b"
  using assms
proof (induction ns arbitrary: L D)
  case (Cons n ns)
  have n: "covers (Suc k) (settle n L) n" using covers_step [OF Cons.prems(2), of n] Cons.prems(1) by (simp add: settle_def)
  have other: "covers j (settle n L) b = covers j L b" if "b \<noteq> n" for j b using that by (simp add: covers_def settle_def)
  have "\<forall>b \<in> N. covers (if b \<in> set ns \<or> b \<in> insert n D then Suc k else k) (fold settle ns (settle n L)) b"
  proof (rule Cons.IH)
    show "set ns \<subseteq> N" using Cons.prems(1) by simp
    show "\<forall>b \<in> N. covers k (settle n L) b" using n other covers_mono [of "Suc k" _ _ k] Cons.prems(2) by (metis le_SucI order_refl)
    show "\<forall>b \<in> insert n D \<inter> N. covers (Suc k) (settle n L) b"
    proof
      fix b assume "b \<in> insert n D \<inter> N"
      then show "covers (Suc k) (settle n L) b" using n other [of b] Cons.prems(3) by (cases "b = n") auto
    qed
  qed
  then show ?case by (auto split: if_splits)
qed auto

lemma fold_settle_exact:
  assumes "set ns \<subseteq> N" "below_alive L" "\<forall>b \<in> N. covers k L b" "card N < k" "n \<in> set ns \<or> exact L n"
  shows "exact (fold settle ns L) n"
  using assms
proof (induction ns arbitrary: L)
  case (Cons m ns)
  have m: "exact (settle m L) m" using outs_exact [OF Cons.prems(2,3,4), of m] Cons.prems(1) by (simp add: exact_def settle_def)
  have other: "exact (settle m L) b = exact L b" if "b \<noteq> m" for b using that by (simp add: exact_def settle_def)
  have "\<forall>b \<in> N. covers k (settle m L) b"
    using fold_settle_covers [of "[m]" k L "{}"] Cons.prems(1,3) covers_mono [of "Suc k" _ _ k] by (auto split: if_splits)
  moreover have "below_alive (settle m L)" using below_alive_step [OF Cons.prems(2), of m] Cons.prems(1) by (simp add: settle_def)
  ultimately have "exact (fold settle ns (settle m L)) n"
    using Cons.IH [of "settle m L"] Cons.prems(1,4,5) m other [of n] by (cases "n = m") auto
  then show ?case by simp
qed simp

lemma exact_balanced:
  assumes "\<forall>b \<in> N. exact L b" "n \<in> N"
  shows "balanced L n"
proof -
  have "fst (L b) = alive b" if "(n, b) \<in> R" for b using that assms(1) R_N unfolding exact_def by auto
  then have "outs L n = alive_after n" by (auto simp: outs_def alive_after_def)
  then show ?thesis using assms alive_unfold [OF assms(2)] by (simp add: balanced_def exact_def ins_def)
qed

text \<open>What holds of the sets after \<open>i\<close> sweeps.\<close>

definition swept :: "nat \<Rightarrow> ('a \<Rightarrow> 'a set \<times> 'a set) \<Rightarrow> bool" where
  "swept i L \<longleftrightarrow> below_alive L \<and> (\<forall>b \<in> N. covers i L b) \<and> (card N + 2 \<le> i \<longrightarrow> (\<forall>b \<in> N. exact L b))"

lemma swept_0: "swept 0 (\<lambda>_. ({}, {}))"
  by (simp add: swept_def below_alive_def covers_def)

lemma swept_Suc:
  assumes "swept i L" "set ns = N"
  shows "swept (Suc i) (fold settle ns L)"
proof -
  have L: "below_alive L" "\<forall>b \<in> N. covers i L b" using assms(1) by (simp_all add: swept_def)
  have "\<forall>b \<in> N. covers (Suc i) (fold settle ns L) b" using fold_settle_covers [of ns i L "{}"] L(2) assms(2) by simp
  moreover have "exact (fold settle ns L) b" if "card N + 2 \<le> Suc i" "b \<in> N" for b
    using fold_settle_exact [OF _ L, of ns b] that assms(2) by simp
  ultimately show ?thesis using fold_settle_below [OF _ L(1), of ns] assms(2) by (simp add: swept_def)
qed

end

section \<open>The sweeps of the analysis\<close>

definition live_rel :: "SCG \<Rightarrow> (NodeId \<times> NodeId) set" where
  "live_rel s = {(a, b). a \<in> set (node_ids s) \<and> b \<in> set (node_ids s) \<and> b \<in> set (compute_successor_set s a)}"

interpretation lv: flow_graph "set (node_ids s)" "live_rel s" "compute_use_set s" for s
  by unfold_locales (auto simp: live_rel_def)

definition view :: "(NodeId, LivenessInfo) hmap \<Rightarrow> NodeId \<Rightarrow> NodeId set \<times> NodeId set" where
  "view l n = (case hm_get l n of Some info \<Rightarrow> (live_in info, live_out info) | None \<Rightarrow> ({}, {}))"

definition table :: "(NodeId \<Rightarrow> 'b) \<Rightarrow> NodeId list \<Rightarrow> (NodeId, 'b) hmap" where
  "table f ids = fold (\<lambda>i. hm_insert i (f i)) ids []"

lemma table_get: "hm_get (table f ids) i = (if i \<in> set ids then Some (f i) else None)"
proof -
  have "hm_get (fold (\<lambda>i. hm_insert i (f i)) ids m) i = (if i \<in> set ids then Some (f i) else hm_get m i)" for m
    by (induction ids arbitrary: m) (auto simp: hm_get_insert)
  then show ?thesis by (simp add: table_def)
qed

definition keyed :: "SCG \<Rightarrow> (NodeId, LivenessInfo) hmap \<Rightarrow> bool" where
  "keyed s l \<longleftrightarrow> (\<forall>i. hm_get l i \<noteq> None \<longleftrightarrow> i \<in> set (node_ids s))"

lemma live_out_of_view:
  assumes "keyed s l" "n \<in> set (node_ids s)"
  shows "live_out_of l (compute_successor_set s n) = lv.outs s (view l) n"
proof -
  have "fold (\<lambda>succ acc. case hm_get l succ of Some succ_info \<Rightarrow> acc \<union> live_in succ_info | None \<Rightarrow> acc) bs A
      = A \<union> (\<Union>b \<in> {b \<in> set bs. b \<in> set (node_ids s)}. fst (view l b))" for bs A
  proof (induction bs arbitrary: A)
    case (Cons b bs)
    show ?case
    proof (cases "hm_get l b")
      case None
      then have "b \<notin> set (node_ids s)" using assms(1) unfolding keyed_def by blast
      then have "{x \<in> set (b # bs). x \<in> set (node_ids s)} = {x \<in> set bs. x \<in> set (node_ids s)}" by auto
      then show ?thesis using None Cons by simp
    next
      case (Some info)
      then have "b \<in> set (node_ids s)" using assms(1) unfolding keyed_def by blast
      then have "{x \<in> set (b # bs). x \<in> set (node_ids s)} = insert b {x \<in> set bs. x \<in> set (node_ids s)}" by auto
      moreover have "fst (view l b) = live_in info" using Some by (simp add: view_def)
      ultimately show ?thesis using Some Cons by auto
    qed
  qed simp
  moreover have "{b \<in> set (compute_successor_set s n). b \<in> set (node_ids s)} = live_rel s `` {n}" using assms(2) by (auto simp: live_rel_def)
  ultimately show ?thesis by (simp add: live_out_of_def lv.outs_def)
qed

abbreviation tables_sweep :: "SCG \<Rightarrow> NodeId list \<Rightarrow> (NodeId, LivenessInfo) hmap \<times> bool \<Rightarrow> ((NodeId, LivenessInfo) hmap \<times> bool) option" where
  "tables_sweep s \<equiv> sweep (table (compute_use_set s) (node_ids s)) (table (compute_successor_set s) (node_ids s))"

lemma update_node_view:
  assumes "keyed s l" "n \<in> set (node_ids s)"
  shows "\<exists>l'. update_node (table (compute_use_set s) (node_ids s)) (table (compute_successor_set s) (node_ids s)) n (l, c)
      = Some (l', c \<and> lv.balanced s (view l) n)
    \<and> (keyed s l') \<and> view l' = lv.settle s n (view l)"
proof -
  obtain info where info: "hm_get l n = Some info" using assms unfolding keyed_def by blast
  let ?out = "lv.outs s (view l) n" and ?in = "lv.ins s (view l) n"
  have i: "compute_use_set s n \<union> {v \<in> ?out. v \<noteq> n} = ?in" by (auto simp: lv.ins_def)
  have b: "lv.balanced s (view l) n \<longleftrightarrow> live_in info = ?in \<and> live_out info = ?out" using info by (auto simp: lv.balanced_def view_def)
  show ?thesis
  proof (cases "lv.balanced s (view l) n")
    case True
    then have "view l = lv.settle s n (view l)" using lv.settle_balanced [of s "view l" n] by simp
    then show ?thesis using assms True b i info
      by (auto simp: update_node_def table_get live_out_of_view Let_def simp del: set_map)
  next
    case False
    let ?l = "hm_insert n (info\<lparr>live_in := ?in, live_out := ?out\<rparr>) l"
    have "view ?l = lv.settle s n (view l)" by (auto simp: view_def lv.settle_def hm_get_insert fun_eq_iff)
    moreover have "keyed s ?l" using assms by (simp add: hm_get_insert keyed_def)
    ultimately show ?thesis using assms False b i info
      by (auto simp: update_node_def table_get live_out_of_view Let_def simp del: set_map)
  qed
qed

lemma sweep_view:
  assumes "keyed s l" "set ns \<subseteq> set (node_ids s)"
  shows "\<exists>l' c'. tables_sweep s ns (l, c) = Some (l', c') \<and> (keyed s l')
    \<and> view l' = fold (lv.settle s) ns (view l)
    \<and> (c' \<longleftrightarrow> c \<and> (\<forall>n \<in> set ns. lv.balanced s (view l) n)) \<and> (c' \<longrightarrow> view l' = view l)"
  using assms
proof (induction ns arbitrary: l c)
  case (Cons n ns)
  obtain l1 where l1: "update_node (table (compute_use_set s) (node_ids s)) (table (compute_successor_set s) (node_ids s)) n (l, c)
        = Some (l1, c \<and> lv.balanced s (view l) n)"
      "keyed s l1" "view l1 = lv.settle s n (view l)"
    using update_node_view [OF Cons.prems(1), of n c] Cons.prems(2) by auto
  obtain l' c' where l': "tables_sweep s ns (l1, c \<and> lv.balanced s (view l) n) = Some (l', c')"
      "keyed s l'" "view l' = fold (lv.settle s) ns (view l1)"
      "c' \<longleftrightarrow> (c \<and> lv.balanced s (view l) n) \<and> (\<forall>n \<in> set ns. lv.balanced s (view l1) n)" "c' \<longrightarrow> view l' = view l1"
    using Cons.IH [OF l1(2), of "c \<and> lv.balanced s (view l) n"] Cons.prems(2) by auto
  have "view l1 = view l" if "lv.balanced s (view l) n" using that l1(3) lv.settle_balanced [of s "view l" n] by simp
  then show ?case using l' l1 by auto
qed auto

lemma liveness_loop_spec:
  assumes "keyed s (fst st)" "lv.swept s (unat iterations) (view (fst st))" "unat iterations \<le> 10000"
    "snd st \<Longrightarrow> \<forall>n \<in> set (node_ids s). lv.balanced s (view (fst st)) n"
    "\<not> snd st \<Longrightarrow> unat iterations \<le> card (set (node_ids s)) + 2" "unat iterations \<le> card (set (node_ids s)) + 3"
  shows "\<exists>la. liveness_loop (table (compute_use_set s) (node_ids s)) (table (compute_successor_set s) (node_ids s)) (node_ids s) iterations st = Some la
    \<and> keyed s (la_liveness la) \<and> lv.below_alive s (view (la_liveness la))
    \<and> (la_converged la \<longrightarrow> (\<forall>n \<in> set (node_ids s). lv.balanced s (view (la_liveness la)) n))
    \<and> (la_converged la \<or> la_iterations la = 10000 \<and> 9998 \<le> card (set (node_ids s)))
    \<and> unat (la_iterations la) \<le> card (set (node_ids s)) + 3"
  using assms
proof (induction "10000 - unat iterations" arbitrary: iterations st rule: less_induct)
  case less
  let ?N = "card (set (node_ids s))"
  show ?case
  proof (cases "\<not> snd st \<and> iterations < MAX_ITERATIONS")
    case True
    then have i: "unat iterations < 10000" "unat (iterations + 1) = Suc (unat iterations)"
      by (auto simp: MAX_ITERATIONS_def word_less_nat_alt unat_word_ariths)
    obtain l' c' where l': "tables_sweep s (node_ids s) (fst st, True) = Some (l', c')" "keyed s l'"
        "view l' = fold (lv.settle s) (node_ids s) (view (fst st))"
        "c' \<longleftrightarrow> (\<forall>n \<in> set (node_ids s). lv.balanced s (view (fst st)) n)" "c' \<longrightarrow> view l' = view (fst st)"
      using sweep_view [OF less.prems(1), of "node_ids s" True] by auto
    have "c'" if "?N + 2 \<le> unat iterations"
      using that less.prems(2) l'(4) lv.exact_balanced [of s "view (fst st)"] by (simp add: lv.swept_def)
    then have "\<exists>la. liveness_loop (table (compute_use_set s) (node_ids s)) (table (compute_successor_set s) (node_ids s)) (node_ids s) (iterations + 1) (l', c') = Some la
      \<and> keyed s (la_liveness la) \<and> lv.below_alive s (view (la_liveness la))
      \<and> (la_converged la \<longrightarrow> (\<forall>n \<in> set (node_ids s). lv.balanced s (view (la_liveness la)) n))
      \<and> (la_converged la \<or> la_iterations la = 10000 \<and> 9998 \<le> ?N) \<and> unat (la_iterations la) \<le> ?N + 3"
      using less.hyps [of "iterations + 1" "(l', c')"] i l' less.prems(5) True lv.swept_Suc [OF less.prems(2), of "node_ids s"]
      by fastforce
    then show ?thesis using True l'(1) by (subst liveness_loop.simps) simp
  next
    case False
    have "snd st \<or> iterations = 10000 \<and> 9998 \<le> ?N"
      using False less.prems(3,5) by (auto simp: MAX_ITERATIONS_def word_less_nat_alt word_unat_eq_iff)
    moreover have "liveness_loop (table (compute_use_set s) (node_ids s)) (table (compute_successor_set s) (node_ids s)) (node_ids s) iterations st
        = Some \<lparr>la_liveness = fst st, la_iterations = iterations, la_converged = snd st\<rparr>"
      by (subst liveness_loop.simps) (simp only: False if_False)
    ultimately show ?thesis using less.prems by (simp add: lv.swept_def)
  qed
qed

section \<open>Live values by paths\<close>

definition value_paths :: "SCG \<Rightarrow> NodeId \<Rightarrow> (NodeId \<times> NodeId) set" where
  "value_paths s v = {(ed_source e, ed_target e) |i e. get_edge s i = Some e \<and> propagates (ed_kind e) \<and> ed_source e \<noteq> v}"

definition used_by :: "SCG \<Rightarrow> NodeId \<Rightarrow> NodeId \<Rightarrow> bool" where
  "used_by s v m \<longleftrightarrow> (\<exists>i e. get_edge s i = Some e \<and> ed_source e = v \<and> ed_target e = m \<and> carries (ed_kind e))"

definition live_at :: "SCG \<Rightarrow> NodeId \<Rightarrow> NodeId set" where
  "live_at s n = {v. \<exists>m. (n, m) \<in> (value_paths s v)\<^sup>* \<and> used_by s v m}"

definition live_after :: "SCG \<Rightarrow> NodeId \<Rightarrow> NodeId set" where
  "live_after s n = {v. \<exists>i e. get_edge s i = Some e \<and> ed_source e = n \<and> propagates (ed_kind e) \<and> v \<in> live_at s (ed_target e)}"

lemma edges_iff: "scg_ok s \<Longrightarrow> e \<in> set (edges s) \<longleftrightarrow> (\<exists>i. get_edge s i = Some e)"
  using get_edge_iff [of s] by (auto simp: mem_edges)

lemma node_ids_iff: "scg_ok s \<Longrightarrow> n \<in> set (node_ids s) \<longleftrightarrow> get_node s n \<noteq> None"
  using get_node_None [of s n] by (simp add: node_ids_def map_of_eq_None_iff)

lemma use_set_iff: "scg_ok s \<Longrightarrow> v \<in> compute_use_set s m \<longleftrightarrow> used_by s v m"
  by (auto simp: compute_use_set_def used_by_def edges_iff)

lemma relevant_succs_iff:
  "b \<in> set (relevant_succs s n seen bs) \<longleftrightarrow> b \<in> set bs - seen \<and> (\<exists>e \<in> set (edges s). ed_source e = n \<and> ed_target e = b \<and> propagates (ed_kind e))"
  by (induction bs arbitrary: seen) (auto simp: list_ex_iff)

lemma successor_set_iff:
  assumes "scg_ok s"
  shows "b \<in> set (compute_successor_set s n) \<longleftrightarrow> (\<exists>i e. get_edge s i = Some e \<and> ed_source e = n \<and> ed_target e = b \<and> propagates (ed_kind e))"
proof -
  have "b \<in> set xs" if "successors s n = Some xs" "get_edge s i = Some e" "ed_source e = n" "ed_target e = b" for xs i e
    using that neighbour_sets(1) [OF assms, of n] by (auto simp: id_rel_def split: if_splits)
  moreover have "successors s n \<noteq> None" if "get_edge s i = Some e" "ed_source e = n" for i e
    using that neighbour_sets(1) [OF assms, of n] get_edge_ends [OF assms that(1)] by auto
  ultimately have "b \<in> set (compute_successor_set s n) \<longleftrightarrow> (\<exists>e \<in> set (edges s). ed_source e = n \<and> ed_target e = b \<and> propagates (ed_kind e))"
    unfolding compute_successor_set_def using edges_iff [OF assms] by (cases "successors s n") (fastforce simp: relevant_succs_iff)+
  then show ?thesis using edges_iff [OF assms] by blast
qed

lemma live_rel_iff:
  assumes "scg_ok s"
  shows "(a, b) \<in> live_rel s \<longleftrightarrow> (\<exists>i e. get_edge s i = Some e \<and> ed_source e = a \<and> ed_target e = b \<and> propagates (ed_kind e))"
  using get_edge_ends [OF assms] by (auto simp: live_rel_def successor_set_iff [OF assms] node_ids_iff [OF assms])

lemma alive_live_at:
  assumes "scg_ok s"
  shows "lv.alive s n = live_at s n" "lv.alive_after s n = live_after s n"
proof -
  have "(a, b) \<in> live_rel s \<inter> {(a, b). a \<noteq> v} \<longleftrightarrow> (a, b) \<in> value_paths s v" for v a b
    unfolding value_paths_def using live_rel_iff [OF assms, of a b] by blast
  then have "live_rel s \<inter> {(a, b). a \<noteq> v} = value_paths s v" for v by (intro subset_antisym subrelI) simp_all
  moreover have "m \<in> set (node_ids s)" if "used_by s v m" for v m
    using that get_edge_ends [OF assms] by (auto simp: used_by_def node_ids_iff [OF assms])
  ultimately show a: "lv.alive s n = live_at s n" for n by (auto simp: lv.alive_def live_at_def use_set_iff [OF assms])
  show "lv.alive_after s n = live_after s n" unfolding lv.alive_after_def live_after_def a using live_rel_iff [OF assms] by fastforce
qed

text \<open>What the analysis returns.\<close>

definition liveness_result :: "SCG \<Rightarrow> LivenessAnalysis \<Rightarrow> bool" where
  "liveness_result s la \<longleftrightarrow> keyed s (la_liveness la) \<and> lv.below_alive s (view (la_liveness la))
    \<and> (la_converged la \<longrightarrow> (\<forall>n \<in> set (node_ids s). lv.balanced s (view (la_liveness la)) n))
    \<and> (la_converged la \<or> la_iterations la = 10000 \<and> 9998 \<le> card (set (node_ids s)))
    \<and> unat (la_iterations la) \<le> card (set (node_ids s)) + 3"

lemma liveness_returns: "\<exists>la. compute_liveness_inner s = Some la \<and> liveness_result s la"
proof (cases "node_ids s = []")
  case True
  have "lv.below_alive s (view [])" unfolding lv.below_alive_def using True by simp
  then show ?thesis using True by (simp add: compute_liveness_inner_def liveness_result_def keyed_def)
next
  case False
  let ?l = "table (\<lambda>i. liveness_empty) (node_ids s)"
  have "view ?l = (\<lambda>_. ({}, {}))" by (auto simp: view_def table_get liveness_empty_def)
  moreover have "keyed s ?l" by (simp add: keyed_def table_get)
  ultimately obtain la where
      "liveness_loop (table (compute_use_set s) (node_ids s)) (table (compute_successor_set s) (node_ids s)) (node_ids s) 0 (?l, False) = Some la"
      "liveness_result s la"
    unfolding liveness_result_def using liveness_loop_spec [of s "(?l, False)" 0] lv.swept_0 [of s] by auto
  then show ?thesis using False by (simp add: compute_liveness_inner_def table_def)
qed

lemma node_count_ids:
  assumes "scg_ok s"
  shows "scg_node_count s = card (set (node_ids s))"
proof -
  have "set (node_ids s) = dom (get_node s)" using node_ids_iff [OF assms] by blast
  then show ?thesis using node_count_dom [OF assms] by simp
qed

lemma result_sets:
  assumes "scg_ok s" "liveness_result s la"
  shows "hm_get (la_liveness la) n \<noteq> None \<longleftrightarrow> get_node s n \<noteq> None"
    "hm_get (la_liveness la) n = Some info \<Longrightarrow> live_in info \<subseteq> live_at s n \<and> live_out info \<subseteq> live_after s n"
    "la_converged la \<Longrightarrow> hm_get (la_liveness la) n = Some info \<Longrightarrow> live_in info = live_at s n \<and> live_out info = live_after s n"
    "scg_node_count s \<le> 9997 \<Longrightarrow> la_converged la"
proof -
  note R = assms(2) [unfolded liveness_result_def]
  have in_view: "view (la_liveness la) n = (live_in info, live_out info) \<and> n \<in> set (node_ids s)" if "hm_get (la_liveness la) n = Some info"
    using that R unfolding view_def keyed_def by auto
  show "hm_get (la_liveness la) n \<noteq> None \<longleftrightarrow> get_node s n \<noteq> None" using R node_ids_iff [OF assms(1), of n] unfolding keyed_def by blast
  show "live_in info \<subseteq> live_at s n \<and> live_out info \<subseteq> live_after s n" if "hm_get (la_liveness la) n = Some info"
    using in_view [OF that] R alive_live_at [OF assms(1), of n] unfolding lv.below_alive_def by fastforce
  show "live_in info = live_at s n \<and> live_out info = live_after s n" if "la_converged la" "hm_get (la_liveness la) n = Some info"
    using in_view [OF that(2)] lv.balanced_exact [of s "view (la_liveness la)" n] R that(1) alive_live_at [OF assms(1), of n]
    by (simp add: lv.exact_def)
  show "la_converged la" if "scg_node_count s \<le> 9997" using R that node_count_ids [OF assms(1)] by linarith
qed

text \<open>
  C6: Liveness analysis returns on every well-formed graph, after at most three sweeps more than there are nodes, and never calls a
  value live that is not. When it converged (and it does for up to 9997 nodes) the sets of every node are
  exact: a value is live at the entry of a node if and only if a path of control-flow, data-flow or derivation edges leads from the
  node to a use of it without passing through its definition before, and live at the exit if it is live at
  the entry of a successor.
\<close>

theorem liveness_exact:
  assumes "scg_ok s"
  shows "\<exists>la. compute_liveness_inner s = Some la
    \<and> (\<forall>n. hm_get (la_liveness la) n \<noteq> None \<longleftrightarrow> get_node s n \<noteq> None)
    \<and> (\<forall>n info. hm_get (la_liveness la) n = Some info \<longrightarrow> live_in info \<subseteq> live_at s n \<and> live_out info \<subseteq> live_after s n)
    \<and> (la_converged la \<longrightarrow> (\<forall>n info. hm_get (la_liveness la) n = Some info \<longrightarrow> live_in info = live_at s n \<and> live_out info = live_after s n))
    \<and> (scg_node_count s \<le> 9997 \<longrightarrow> la_converged la) \<and> unat (la_iterations la) \<le> scg_node_count s + 3"
proof -
  obtain la where la: "compute_liveness_inner s = Some la" "liveness_result s la" using liveness_returns by blast
  moreover have "unat (la_iterations la) \<le> scg_node_count s + 3" using la(2) node_count_ids [OF assms] by (simp add: liveness_result_def)
  ultimately show ?thesis using result_sets [OF assms la(2)] by blast
qed

section \<open>A concrete graph\<close>

text \<open>An allocation that is freed and then read, with an unrelated computation between.\<close>

definition stale_program :: "scg_op list" where
  "stale_program = [OpAddNode NtAllocation (Allocation 8 8 1 None) here, OpAddNode NtDeallocation (Deallocation 0 1) here,
     OpAddNode NtComputation (Computation (KOther ''pad'') None False) here, OpAddNode NtAccess (Access AmRead 1 None None) here,
     OpAddEdge 0 1 Derivation, OpAddEdge 1 2 ControlFlow, OpAddEdge 2 3 ControlFlow, OpAddEdge 0 3 DataFlow]"

definition stale_scg :: SCG where
  "stale_scg = fst (the (scg_run stale_program scg_new))"

lemma stale_scg_ok: "scg_ok stale_scg"
proof -
  have "next_node_id scg_new = 0" "next_edge_id scg_new = 0" by (simp_all add: scg_new_def)
  then show ?thesis
    using run_sim [OF scg_new_ok, of 0 stale_program] by (auto simp: stale_scg_def stale_program_def simp del: scg_run.simps spec_run.simps)
qed

lemma stale_facts: "scg_node_count stale_scg = 4"
  "map_option (\<lambda>l. map_option live_out (hm_get l 1)) (compute_liveness stale_scg) = Some (Some {0})"
  by code_simp+

theorem liveness_exact_witness:
  "\<exists>la info. compute_liveness_inner stale_scg = Some la \<and> la_converged la \<and> hm_get (la_liveness la) 1 = Some info
    \<and> live_out info = {0} \<and> live_after stale_scg 1 = {0}"
proof -
  obtain la where la: "compute_liveness_inner stale_scg = Some la"
      "la_converged la \<longrightarrow> (\<forall>n info. hm_get (la_liveness la) n = Some info \<longrightarrow> live_in info = live_at stale_scg n \<and> live_out info = live_after stale_scg n)"
      "scg_node_count stale_scg \<le> 9997 \<longrightarrow> la_converged la"
    using liveness_exact [OF stale_scg_ok] by blast
  obtain info where info: "hm_get (la_liveness la) 1 = Some info" "live_out info = {0}"
    using stale_facts(2) la(1) by (auto simp: compute_liveness_def)
  then have "live_after stale_scg 1 = {0}" "la_converged la" using la(2,3) stale_facts(1) by auto
  then show ?thesis using la(1) info by blast
qed

end
