(* ===== verification/Scg_Uses.thy ===== *)
theory Scg_Uses
  imports Scg_Liveness Scg_Merge
begin

text \<open>
  The queries of \<^verbatim>\<open>scg/src/liveness.rs\<close>: dead code, reads of uninitialised memory, uses after a deallocation and dead
  allocations. The searches that take the liveness result without reading it are modelled without that argument.
\<close>

section \<open>Dead code\<close>

fun is_pure_node :: "NodeType \<Rightarrow> bool" where
  "is_pure_node NtComputation = True"
| "is_pure_node NtCast = True"
| "is_pure_node NtPhantom = True"
| "is_pure_node _ = False"

definition essential_nodes :: "SCG \<Rightarrow> NodeId set" where
  "essential_nodes s = set (map nd_id (filter (\<lambda>n. \<not> is_pure_node (nd_node_type n)) (nodes s)))"

text \<open>One pass over the edges; the flag is \<^verbatim>\<open>changed\<close>.\<close>

fun mark_needed :: "EdgeData list \<Rightarrow> NodeId set \<times> bool \<Rightarrow> NodeId set \<times> bool" where
  "mark_needed [] st = st"
| "mark_needed (e # es) (needed, changed) =
     mark_needed es (if carries (ed_kind e) \<and> ed_target e \<in> needed \<and> ed_source e \<notin> needed
                     then (insert (ed_source e) needed, True) else (needed, changed))"

lemma mark_needed_grows:
  "fst (mark_needed es (A, c)) \<supseteq> A" "fst (mark_needed es (A, c)) \<subseteq> A \<union> ed_source ` set es"
  "snd (mark_needed es (A, c)) \<longleftrightarrow> c \<or> fst (mark_needed es (A, c)) \<noteq> A"
proof -
  have "A \<subseteq> fst (mark_needed es (A, c)) \<and> fst (mark_needed es (A, c)) \<subseteq> A \<union> ed_source ` set es
      \<and> (snd (mark_needed es (A, c)) \<longleftrightarrow> c \<or> fst (mark_needed es (A, c)) \<noteq> A)"
  proof (induction es arbitrary: A c)
    case (Cons e es)
    show ?case
    proof (cases "carries (ed_kind e) \<and> ed_target e \<in> A \<and> ed_source e \<notin> A")
      case True
      then show ?thesis using Cons.IH [of "insert (ed_source e) A" True] by auto
    next
      case False
      then have "mark_needed (e # es) (A, c) = mark_needed es (A, c)" by (simp only: mark_needed.simps if_False)
      then show ?thesis using Cons.IH [of A c] by auto
    qed
  qed simp
  then show "fst (mark_needed es (A, c)) \<supseteq> A" "fst (mark_needed es (A, c)) \<subseteq> A \<union> ed_source ` set es"
    "snd (mark_needed es (A, c)) \<longleftrightarrow> c \<or> fst (mark_needed es (A, c)) \<noteq> A" by blast+
qed

function needed_loop :: "SCG \<Rightarrow> NodeId set \<Rightarrow> NodeId set" where
  "needed_loop s needed =
     (let st = mark_needed (edges s) (needed, False) in if snd st then needed_loop s (fst st) else fst st)"
  by pat_completeness auto

termination
proof (relation "measure (\<lambda>(s, needed). card (ed_source ` set (edges s) - needed))")
  fix s needed and st :: "NodeId set \<times> bool"
  assume "st = mark_needed (edges s) (needed, False)" "snd st"
  then have "needed \<subset> fst st" "fst st \<subseteq> needed \<union> ed_source ` set (edges s)"
    using mark_needed_grows [where es = "edges s" and A = needed and c = False] by auto
  then have "ed_source ` set (edges s) - fst st \<subset> ed_source ` set (edges s) - needed" by blast
  then have "card (ed_source ` set (edges s) - fst st) < card (ed_source ` set (edges s) - needed)" by (rule psubset_card_mono [rotated]) simp
  then show "((s, fst st), (s, needed)) \<in> measure (\<lambda>(s, needed). card (ed_source ` set (edges s) - needed))" by simp
qed simp

definition find_dead_code :: "SCG \<Rightarrow> NodeId list" where
  "find_dead_code s =
     (let needed = needed_loop s (essential_nodes s)
      in sort (map nd_id (filter (\<lambda>n. is_pure_node (nd_node_type n) \<and> nd_id n \<notin> needed) (nodes s))))"

definition value_rel :: "SCG \<Rightarrow> (NodeId \<times> NodeId) set" where
  "value_rel s = {(ed_source e, ed_target e) |i e. get_edge s i = Some e \<and> carries (ed_kind e)}"

lemma mark_needed_closed:
  assumes "fst (mark_needed es (A, False)) = A" "e \<in> set es" "carries (ed_kind e)" "ed_target e \<in> A"
  shows "ed_source e \<in> A"
  using assms
proof (induction es)
  case (Cons d es)
  have d: "\<not> (carries (ed_kind d) \<and> ed_target d \<in> A \<and> ed_source d \<notin> A)"
  proof
    assume "carries (ed_kind d) \<and> ed_target d \<in> A \<and> ed_source d \<notin> A"
    then have "insert (ed_source d) A \<subseteq> A" using mark_needed_grows(1) [of "insert (ed_source d) A" es True] Cons.prems(1) by simp
    then show False using \<open>carries (ed_kind d) \<and> ed_target d \<in> A \<and> ed_source d \<notin> A\<close> by blast
  qed
  then have "mark_needed (d # es) (A, False) = mark_needed es (A, False)" by (simp only: mark_needed.simps if_False)
  then show ?case using Cons d by auto
qed simp

definition needs :: "SCG \<Rightarrow> NodeId set \<Rightarrow> NodeId set" where
  "needs s B = {x. \<exists>m \<in> B. (x, m) \<in> (value_rel s)\<^sup>*}"

lemma needs_edge:
  assumes "scg_ok s" "e \<in> set (edges s)" "carries (ed_kind e)" "ed_target e \<in> needs s B"
  shows "ed_source e \<in> needs s B"
proof -
  have "(ed_source e, ed_target e) \<in> value_rel s" using assms(2,3) edges_iff [OF assms(1), of e] by (auto simp: value_rel_def)
  then show ?thesis using assms(4) by (auto simp: needs_def intro: converse_rtrancl_into_rtrancl)
qed

lemma mark_needed_sound:
  assumes "scg_ok s" "set es \<subseteq> set (edges s)" "A \<subseteq> needs s B"
  shows "fst (mark_needed es (A, c)) \<subseteq> needs s B"
  using assms(2,3)
proof (induction es arbitrary: A c)
  case (Cons e es)
  have "ed_source e \<in> needs s B" if "carries (ed_kind e)" "ed_target e \<in> A"
    using that Cons.prems needs_edge [OF assms(1), of e B] by auto
  then show ?case using Cons.IH [of "insert (ed_source e) A" True] Cons.IH [of A c] Cons.prems by simp
qed simp

lemma closed_needs:
  assumes "\<And>a b. (a, b) \<in> value_rel s \<Longrightarrow> b \<in> A \<Longrightarrow> a \<in> A" "B \<subseteq> A"
  shows "needs s B \<subseteq> A"
proof
  fix x assume "x \<in> needs s B"
  then obtain m where "(x, m) \<in> (value_rel s)\<^sup>*" "m \<in> A" using assms(2) by (auto simp: needs_def)
  then show "x \<in> A" by (induction rule: converse_rtrancl_induct) (auto intro: assms(1))
qed

lemma needed_loop_exact: "scg_ok s \<Longrightarrow> A \<subseteq> needs s B \<Longrightarrow> B \<subseteq> A \<Longrightarrow> needed_loop s A = needs s B"
proof (induction s A rule: needed_loop.induct)
  case (1 s A)
  let ?st = "mark_needed (edges s) (A, False)"
  have grow: "A \<subseteq> fst ?st" "fst ?st \<subseteq> needs s B"
    using mark_needed_grows(1) [of A "edges s" False] mark_needed_sound [OF 1(2) subset_refl 1(3), of False] by auto
  show ?case
  proof (cases "snd ?st")
    case True
    then show ?thesis using 1(1) [OF refl True 1(2) grow(2)] grow(1) 1(4) by (subst needed_loop.simps) (simp add: Let_def)
  next
    case False
    then have eq: "fst ?st = A" using mark_needed_grows(3) [of "edges s" A False] by simp
    have "needs s B \<subseteq> A"
    proof (rule closed_needs [OF _ 1(4)])
      fix a b assume "(a, b) \<in> value_rel s" "b \<in> A"
      then show "a \<in> A" using mark_needed_closed [OF eq] edges_iff [OF 1(2)] by (auto simp: value_rel_def)
    qed
    then have "needs s B = A" using 1(3) by blast
    then show ?thesis using False eq by (subst needed_loop.simps) (simp add: Let_def)
  qed
qed

lemma sorted_ids:
  assumes "scg_ok s"
  shows "distinct (sort (map nd_id (filter P (nodes s))))" "sorted (sort (map nd_id (filter P (nodes s))))"
    "i \<in> set (sort (map nd_id (filter P (nodes s)))) \<longleftrightarrow> (\<exists>n. get_node s i = Some n \<and> P n)"
proof -
  have "i \<in> set (map nd_id (filter P (nodes s))) \<longleftrightarrow> (\<exists>n. get_node s i = Some n \<and> P n)"
    using mem_nodes [OF assms] get_node_iff [OF assms] by auto
  then show "i \<in> set (sort (map nd_id (filter P (nodes s)))) \<longleftrightarrow> (\<exists>n. get_node s i = Some n \<and> P n)" by simp
  show "distinct (sort (map nd_id (filter P (nodes s))))"
    using distinct_ids(1) [OF assms] by (simp add: distinct_map_filter)
qed simp

text \<open>
  C40: Dead code is found exactly: for every well-formed graph the search ends, and a node is listed, once and in the order of the
  identifiers, if and only if it is pure and its value reaches no node with a side effect through any chain of data-flow and
  derivation edges.
\<close>

theorem dead_code_exact:
  assumes "scg_ok s"
  shows "sorted (find_dead_code s) \<and> distinct (find_dead_code s)
    \<and> set (find_dead_code s) = {i. \<exists>n. get_node s i = Some n \<and> is_pure_node (nd_node_type n)
        \<and> \<not> (\<exists>j m. get_node s j = Some m \<and> \<not> is_pure_node (nd_node_type m) \<and> (i, j) \<in> (value_rel s)\<^sup>*)}"
proof -
  have ess: "essential_nodes s = {j. \<exists>m. get_node s j = Some m \<and> \<not> is_pure_node (nd_node_type m)}"
    unfolding essential_nodes_def using mem_nodes [OF assms] get_node_iff [OF assms] by force
  have "essential_nodes s \<subseteq> needs s (essential_nodes s)" by (auto simp: needs_def)
  then have "needed_loop s (essential_nodes s) = needs s (essential_nodes s)" using needed_loop_exact [OF assms] by blast
  moreover have "nd_id n = i" if "get_node s i = Some n" for i n using that get_node_iff [OF assms] by blast
  ultimately have "i \<in> set (find_dead_code s) \<longleftrightarrow> (\<exists>n. get_node s i = Some n \<and> is_pure_node (nd_node_type n) \<and> i \<notin> needs s (essential_nodes s))" for i
    unfolding find_dead_code_def Let_def using sorted_ids(3) [OF assms, of i] by auto
  then have "set (find_dead_code s) = {i. \<exists>n. get_node s i = Some n \<and> is_pure_node (nd_node_type n)
        \<and> \<not> (\<exists>j m. get_node s j = Some m \<and> \<not> is_pure_node (nd_node_type m) \<and> (i, j) \<in> (value_rel s)\<^sup>*)}"
    unfolding needs_def ess by blast
  then show ?thesis unfolding find_dead_code_def Let_def using sorted_ids(1,2) [OF assms] by blast
qed

section \<open>Reads of uninitialised memory\<close>

fun any_some :: "('a \<Rightarrow> bool option) \<Rightarrow> 'a list \<Rightarrow> bool option" where
  "any_some P [] = Some False"
| "any_some P (x # xs) = do { b \<leftarrow> P x; if b then Some True else any_some P xs }"

fun filter_some :: "('a \<Rightarrow> bool option) \<Rightarrow> 'a list \<Rightarrow> 'a list option" where
  "filter_some P [] = Some []"
| "filter_some P (x # xs) = do { b \<leftarrow> P x; ys \<leftarrow> filter_some P xs; Some (if b then x # ys else ys) }"

fun region_of_read :: "NodePayload \<Rightarrow> RegionId option" where
  "region_of_read (Access AmRead r _ _) = Some r"
| "region_of_read (Access AmReadWrite r _ _) = Some r"
| "region_of_read _ = None"

fun region_of_write :: "NodePayload \<Rightarrow> RegionId option" where
  "region_of_write (Access AmWrite r _ _) = Some r"
| "region_of_write (Access AmReadWrite r _ _) = Some r"
| "region_of_write _ = None"

fun region_of_alloc :: "NodePayload \<Rightarrow> RegionId option" where
  "region_of_alloc (Allocation _ _ r _) = Some r"
| "region_of_alloc _ = None"

definition reaches :: "SCG \<Rightarrow> NodeId \<Rightarrow> NodeId \<Rightarrow> bool option" where
  "reaches s a b = map_option (\<lambda>r. r = Some True) (find_path s a b)"

definition reaching_def :: "SCG \<Rightarrow> NodeData \<Rightarrow> RegionId \<Rightarrow> NodeData \<Rightarrow> bool option" where
  "reaching_def s node region other =
     (if nd_id other = nd_id node then Some False
      else if \<not> (region_of_alloc (nd_payload other) \<noteq> None \<or> region_of_write (nd_payload other) = Some region) then Some False
      else do {
        path \<leftarrow> reaches s (nd_id other) (nd_id node);
        Some (path \<or> region_of_alloc (nd_payload other) \<noteq> None \<or> nd_id other < nd_id node) })"

definition uninitialized :: "SCG \<Rightarrow> NodeData \<Rightarrow> bool option" where
  "uninitialized s node =
     (case region_of_read (nd_payload node) of
        None \<Rightarrow> Some False
      | Some region \<Rightarrow> map_option Not (any_some (reaching_def s node region) (nodes s)))"

definition find_uninitialized_reads :: "SCG \<Rightarrow> NodeId list option" where
  "find_uninitialized_reads s = map_option (\<lambda>ns. sort (map nd_id ns)) (filter_some (uninitialized s) (nodes s))"

section \<open>Uses after a deallocation\<close>

record UseAfterFree =
  uaf_allocation :: NodeId
  uaf_deallocation :: NodeId
  uaf_violating_uses :: "NodeId set"

text \<open>The loop over the successors, shared by the two functions of the source, with the recursive call for each new node.\<close>

partial_function (option) collect_uses ::
    "SCG \<Rightarrow> NodeId \<Rightarrow> (NodeId, LivenessInfo) hmap \<Rightarrow> NodeId list \<Rightarrow> NodeId set \<Rightarrow> NodeId set option" where
  "collect_uses s alloc_id liveness succs result =
     (case succs of
        [] \<Rightarrow> Some result
      | succ # rest \<Rightarrow>
          if (case hm_get liveness succ of Some info \<Rightarrow> alloc_id \<in> live_in info | None \<Rightarrow> False) \<and> succ \<notin> result
          then do {
            result1 \<leftarrow> (case successors s succ of
                          Some next \<Rightarrow> collect_uses s alloc_id liveness next (insert succ result)
                        | None \<Rightarrow> Some (insert succ result));
            collect_uses s alloc_id liveness rest result1 }
          else collect_uses s alloc_id liveness rest result)"

definition collect_violating_uses ::
    "SCG \<Rightarrow> NodeId \<Rightarrow> NodeId \<Rightarrow> (NodeId, LivenessInfo) hmap \<Rightarrow> NodeId set \<Rightarrow> NodeId set option" where
  "collect_violating_uses s dealloc_id alloc_id liveness result =
     (case successors s dealloc_id of
        Some succs \<Rightarrow> collect_uses s alloc_id liveness succs result
      | None \<Rightarrow> Some result)"

definition check_dealloc :: "SCG \<Rightarrow> (NodeId, LivenessInfo) hmap \<Rightarrow> NodeData \<Rightarrow> UseAfterFree list option" where
  "check_dealloc s liveness node =
     (case nd_payload node of
        Deallocation alloc_id _ \<Rightarrow>
          (case hm_get liveness (nd_id node) of
             Some info \<Rightarrow>
               if alloc_id \<in> live_out info
               then map_option (\<lambda>u. [\<lparr>uaf_allocation = alloc_id, uaf_deallocation = nd_id node, uaf_violating_uses = u\<rparr>])
                 (collect_violating_uses s (nd_id node) alloc_id liveness {})
               else Some []
           | None \<Rightarrow> Some [])
      | _ \<Rightarrow> Some [])"

definition find_use_after_free :: "SCG \<Rightarrow> (NodeId, LivenessInfo) hmap \<Rightarrow> UseAfterFree list option" where
  "find_use_after_free s liveness = map_option (\<lambda>vs. sort_key uaf_deallocation (concat vs)) (those (map (check_dealloc s liveness) (nodes s)))"

section \<open>Dead allocations\<close>

definition region_read :: "SCG \<Rightarrow> NodeId \<Rightarrow> RegionId \<Rightarrow> NodeData \<Rightarrow> bool option" where
  "region_read s alloc_id region_id other =
     (if nd_id other = alloc_id then Some False
      else if region_of_read (nd_payload other) \<noteq> Some region_id then Some False
      else reaches s alloc_id (nd_id other))"

definition dataflow_use :: "SCG \<Rightarrow> NodeId \<Rightarrow> EdgeData \<Rightarrow> bool" where
  "dataflow_use s alloc_id e \<longleftrightarrow> ed_source e = alloc_id \<and> ed_kind e = DataFlow
     \<and> map_option nd_node_type (get_node s (ed_target e)) \<noteq> Some NtDeallocation"

definition dead_allocation :: "SCG \<Rightarrow> NodeData \<Rightarrow> bool option" where
  "dead_allocation s node =
     (if nd_node_type node \<noteq> NtAllocation then Some False
      else case region_of_alloc (nd_payload node) of
        None \<Rightarrow> Some False
      | Some region_id \<Rightarrow> do {
          has_read_access \<leftarrow> any_some (region_read s (nd_id node) region_id) (nodes s);
          Some (\<not> has_read_access \<and> \<not> list_ex (dataflow_use s (nd_id node)) (edges s)) })"

definition find_dead_allocations :: "SCG \<Rightarrow> NodeId list option" where
  "find_dead_allocations s = map_option (\<lambda>ns. sort (map nd_id ns)) (filter_some (dead_allocation s) (nodes s))"

section \<open>What the searches find\<close>

lemma any_some_total: "(\<And>x. x \<in> set xs \<Longrightarrow> P x = Some (Q x)) \<Longrightarrow> any_some P xs = Some (\<exists>x \<in> set xs. Q x)"
  by (induction xs) auto

lemma filter_some_total: "(\<And>x. x \<in> set xs \<Longrightarrow> P x = Some (Q x)) \<Longrightarrow> filter_some P xs = Some (filter Q xs)"
  by (induction xs) auto

lemma reaches_exact:
  assumes "scg_ok s" "n \<in> set (nodes s)" "m \<in> set (nodes s)"
  shows "reaches s (nd_id n) (nd_id m) = Some ((nd_id n, nd_id m) \<in> (id_rel s)\<^sup>*)"
  using find_path_exact [OF assms(1), of "nd_id n" "nd_id m"] mem_nodes [OF assms(1)] assms(2,3) by (simp add: reaches_def)

lemma ex_nodes: "scg_ok s \<Longrightarrow> (\<exists>m \<in> set (nodes s). P (nd_id m) m) \<longleftrightarrow> (\<exists>j m. get_node s j = Some m \<and> P j m)"
  using mem_nodes [of s] get_node_iff [of s] by metis

lemma search_exact:
  assumes "scg_ok s" "\<And>n. n \<in> set (nodes s) \<Longrightarrow> P n = Some (Q (nd_id n) n)"
  shows "\<exists>xs. map_option (\<lambda>ns. sort (map nd_id ns)) (filter_some P (nodes s)) = Some xs \<and> sorted xs \<and> distinct xs
    \<and> set xs = {i. \<exists>n. get_node s i = Some n \<and> Q i n}"
proof -
  let ?Q = "\<lambda>n. Q (nd_id n) n"
  have "filter_some P (nodes s) = Some (filter ?Q (nodes s))" using filter_some_total [of "nodes s" P ?Q] assms(2) by simp
  moreover have "set (sort (map nd_id (filter ?Q (nodes s)))) = {i. \<exists>n. get_node s i = Some n \<and> Q i n}"
    using sorted_ids(3) [OF assms(1), where P = ?Q] get_node_id [OF assms(1)] by blast
  ultimately show ?thesis using sorted_ids(1,2) [OF assms(1), of ?Q] by simp
qed

text \<open>A node other than the read that the code takes for a definition: any allocation, or a write to the region with a path to the read or a smaller identifier.\<close>

definition initialised :: "SCG \<Rightarrow> NodeId \<Rightarrow> RegionId \<Rightarrow> bool" where
  "initialised s i region \<longleftrightarrow> (\<exists>j m. get_node s j = Some m \<and> j \<noteq> i \<and> (region_of_alloc (nd_payload m) \<noteq> None
     \<or> region_of_write (nd_payload m) = Some region \<and> ((j, i) \<in> (id_rel s)\<^sup>* \<or> j < i)))"

lemma uninitialized_exact:
  assumes "scg_ok s" "n \<in> set (nodes s)"
  shows "uninitialized s n = Some (\<exists>region. region_of_read (nd_payload n) = Some region \<and> \<not> initialised s (nd_id n) region)"
proof (cases "region_of_read (nd_payload n)")
  case (Some region)
  define Q where "Q j m \<longleftrightarrow> j \<noteq> nd_id n \<and> (region_of_alloc (nd_payload m) \<noteq> None
        \<or> region_of_write (nd_payload m) = Some region \<and> ((j, nd_id n) \<in> (id_rel s)\<^sup>* \<or> j < nd_id n))" for j and m :: NodeData
  have "reaching_def s n region m = Some (Q (nd_id m) m)" if "m \<in> set (nodes s)" for m
    using reaches_exact [OF assms(1) that assms(2)] by (auto simp: reaching_def_def Q_def)
  then have "any_some (reaching_def s n region) (nodes s) = Some (\<exists>j m. get_node s j = Some m \<and> Q j m)"
    using any_some_total [of "nodes s" "reaching_def s n region" "\<lambda>m. Q (nd_id m) m"] ex_nodes [OF assms(1), of Q] by simp
  then show ?thesis using Some by (simp add: uninitialized_def Q_def initialised_def)
qed (simp add: uninitialized_def)

lemma uninitialized_reads_exact:
  assumes "scg_ok s"
  shows "\<exists>xs. find_uninitialized_reads s = Some xs \<and> sorted xs \<and> distinct xs
    \<and> set xs = {i. \<exists>n. get_node s i = Some n \<and> (\<exists>region. region_of_read (nd_payload n) = Some region \<and> \<not> initialised s i region)}"
  unfolding find_uninitialized_reads_def
  using search_exact [OF assms, of "uninitialized s" "\<lambda>i n. \<exists>region. region_of_read (nd_payload n) = Some region \<and> \<not> initialised s i region"]
    uninitialized_exact [OF assms] by blast

definition consumed :: "SCG \<Rightarrow> NodeId \<Rightarrow> RegionId \<Rightarrow> bool" where
  "consumed s i region \<longleftrightarrow> (\<exists>j m. get_node s j = Some m \<and> j \<noteq> i \<and> region_of_read (nd_payload m) = Some region \<and> (i, j) \<in> (id_rel s)\<^sup>*)
     \<or> (\<exists>k e. get_edge s k = Some e \<and> dataflow_use s i e)"

lemma dead_allocation_exact:
  assumes "scg_ok s" "n \<in> set (nodes s)"
  shows "dead_allocation s n = Some (nd_node_type n = NtAllocation
    \<and> (\<exists>region. region_of_alloc (nd_payload n) = Some region \<and> \<not> consumed s (nd_id n) region))"
proof (cases "nd_node_type n = NtAllocation \<and> region_of_alloc (nd_payload n) \<noteq> None")
  case True
  then obtain region where r: "region_of_alloc (nd_payload n) = Some region" by blast
  define Q where "Q j m \<longleftrightarrow> j \<noteq> nd_id n \<and> region_of_read (nd_payload m) = Some region \<and> (nd_id n, j) \<in> (id_rel s)\<^sup>*" for j and m :: NodeData
  have "region_read s (nd_id n) region m = Some (Q (nd_id m) m)" if "m \<in> set (nodes s)" for m
    using reaches_exact [OF assms(1,2) that] by (auto simp: region_read_def Q_def)
  then have "any_some (region_read s (nd_id n) region) (nodes s) = Some (\<exists>j m. get_node s j = Some m \<and> Q j m)"
    using any_some_total [of "nodes s" "region_read s (nd_id n) region" "\<lambda>m. Q (nd_id m) m"] ex_nodes [OF assms(1), of Q] by simp
  moreover have "list_ex (dataflow_use s (nd_id n)) (edges s) \<longleftrightarrow> (\<exists>k e. get_edge s k = Some e \<and> dataflow_use s (nd_id n) e)"
    unfolding list_ex_iff using edges_iff [OF assms(1)] by blast
  ultimately show ?thesis using True r by (simp add: dead_allocation_def Q_def consumed_def)
qed (auto simp: dead_allocation_def)

lemma dead_allocations_exact:
  assumes "scg_ok s"
  shows "\<exists>xs. find_dead_allocations s = Some xs \<and> sorted xs \<and> distinct xs
    \<and> set xs = {i. \<exists>n. get_node s i = Some n \<and> nd_node_type n = NtAllocation
        \<and> (\<exists>region. region_of_alloc (nd_payload n) = Some region \<and> \<not> consumed s i region)}"
  unfolding find_dead_allocations_def
  using search_exact [OF assms, of "dead_allocation s" "\<lambda>i n. nd_node_type n = NtAllocation
    \<and> (\<exists>region. region_of_alloc (nd_payload n) = Some region \<and> \<not> consumed s i region)"] dead_allocation_exact [OF assms] by blast

section \<open>The uses after a deallocation\<close>

definition collected :: "SCG \<Rightarrow> NodeId set \<Rightarrow> NodeId list \<Rightarrow> NodeId set \<Rightarrow> NodeId set \<Rightarrow> bool" where
  "collected s A xs res res' \<longleftrightarrow> res \<subseteq> res' \<and> set xs \<inter> A \<subseteq> res' \<and> (\<forall>x \<in> res' - res. \<forall>y \<in> A. (x, y) \<in> id_rel s \<longrightarrow> y \<in> res')
     \<and> (\<forall>S. set xs \<inter> A \<subseteq> S \<longrightarrow> (\<forall>x \<in> S. \<forall>y \<in> A. (x, y) \<in> id_rel s \<longrightarrow> y \<in> S) \<longrightarrow> res' \<subseteq> res \<union> S)"

lemma collectedD:
  assumes "collected s A xs res res'"
  shows "res \<subseteq> res'" "set xs \<inter> A \<subseteq> res'" "x \<in> res' - res \<Longrightarrow> y \<in> A \<Longrightarrow> (x, y) \<in> id_rel s \<Longrightarrow> y \<in> res'"
    "set xs \<inter> A \<subseteq> S \<Longrightarrow> \<forall>x \<in> S. \<forall>y \<in> A. (x, y) \<in> id_rel s \<longrightarrow> y \<in> S \<Longrightarrow> res' \<subseteq> res \<union> S"
  using assms unfolding collected_def by simp_all

lemma collected_Cons:
  assumes C: "collected s A next (insert x res) r1" "collected s A rest r1 r2" and x: "set next = id_rel s `` {x}" "x \<in> A"
  shows "collected s A (x # rest) res r2"
proof -
  have sub: "insert x res \<subseteq> r1" "r1 \<subseteq> r2" using collectedD(1) [OF C(1)] collectedD(1) [OF C(2)] by simp_all
  have "y \<in> r2" if z: "z \<in> r2 - res" "y \<in> A" "(z, y) \<in> id_rel s" for z y
  proof (cases "z \<in> r1")
    case True
    have "y \<in> r1"
    proof (cases "z = x")
      case True
      then show ?thesis using z collectedD(2) [OF C(1)] x(1) by auto
    qed (use True z collectedD(3) [OF C(1), of z y] in simp)
    then show ?thesis using sub by blast
  qed (use z collectedD(3) [OF C(2), of z y] in simp)
  moreover have "r2 \<subseteq> res \<union> S" if S: "set (x # rest) \<inter> A \<subseteq> S" "\<forall>x \<in> S. \<forall>y \<in> A. (x, y) \<in> id_rel s \<longrightarrow> y \<in> S" for S
  proof -
    have "x \<in> S" using S(1) x(2) by auto
    then have "set next \<inter> A \<subseteq> S" using S(2) x(1) by auto
    then have "r1 \<subseteq> insert x res \<union> S" using collectedD(4) [OF C(1) _ S(2)] by simp
    moreover have "r2 \<subseteq> r1 \<union> S" using collectedD(4) [OF C(2) _ S(2)] S(1) by auto
    ultimately show ?thesis using \<open>x \<in> S\<close> by blast
  qed
  moreover have "set (x # rest) \<inter> A \<subseteq> r2" "res \<subseteq> r2" using sub collectedD(2) [OF C(2)] by auto
  ultimately show ?thesis unfolding collected_def by blast
qed

lemma collected_skip:
  assumes "collected s A rest res r2" "x \<notin> A \<or> x \<in> res"
  shows "collected s A (x # rest) res r2"
proof -
  have "set (x # rest) \<inter> A \<subseteq> r2" using assms(2) collectedD(1,2) [OF assms(1)] by auto
  moreover have "r2 \<subseteq> res \<union> S" if "set (x # rest) \<inter> A \<subseteq> S" "\<forall>x \<in> S. \<forall>y \<in> A. (x, y) \<in> id_rel s \<longrightarrow> y \<in> S" for S
    using collectedD(4) [OF assms(1) _ that(2)] that(1) by auto
  ultimately show ?thesis unfolding collected_def using collectedD(1,3) [OF assms(1)] by blast
qed

lemma collect_uses_total:
  assumes "scg_ok s" "A = {x. case hm_get liveness x of Some info \<Rightarrow> alloc_id \<in> live_in info | None \<Rightarrow> False}"
  shows "\<exists>res'. collect_uses s alloc_id liveness xs res = Some res' \<and> collected s A xs res res'"
proof -
  have "A \<subseteq> set (hm_keys liveness)" using assms(2) by (auto split: option.splits dest!: map_of_SomeD intro: rev_image_eqI)
  then have fin: "finite A" by (rule finite_subset) simp
  show ?thesis
  proof (induction "card (A - res)" arbitrary: xs res rule: less_induct)
    case less
    have "\<exists>res'. collect_uses s alloc_id liveness ys r = Some res' \<and> collected s A ys r res'" if "res \<subseteq> r" for ys r
      using that
    proof (induction ys arbitrary: r)
      case Nil
      then show ?case by (simp add: collect_uses.simps collected_def)
    next
      case (Cons x rest)
      show ?case
      proof (cases "x \<in> A \<and> x \<notin> r")
        case False
        obtain res' where "collect_uses s alloc_id liveness rest r = Some res'" "collected s A rest r res'" using Cons by blast
        then show ?thesis using False collected_skip [of s A rest r res' x] assms(2)
          by (subst collect_uses.simps) auto
      next
        case True
        let ?next = "case successors s x of Some next \<Rightarrow> next | None \<Rightarrow> []"
        have nxt: "set ?next = id_rel s `` {x}"
          using neighbour_sets(1) [OF assms(1), of x] get_edge_ends [OF assms(1)] by (fastforce simp: id_rel_def split: option.splits if_splits)
        have "A - insert x r \<subset> A - res" using True Cons.prems by blast
        then have "card (A - insert x r) < card (A - res)" using fin by (meson finite_Diff psubset_card_mono)
        then obtain r1 where r1: "collect_uses s alloc_id liveness ?next (insert x r) = Some r1" "collected s A ?next (insert x r) r1"
          using less.hyps by blast
        then have "res \<subseteq> r1" using Cons.prems by (auto simp: collected_def)
        then obtain r2 where r2: "collect_uses s alloc_id liveness rest r1 = Some r2" "collected s A rest r1 r2" using Cons.IH by blast
        have "(case successors s x of Some next \<Rightarrow> collect_uses s alloc_id liveness next (insert x r) | None \<Rightarrow> Some (insert x r)) = Some r1"
          using r1(1) by (auto simp: collect_uses.simps [of s alloc_id liveness "[]"] split: option.splits)
        then have "collect_uses s alloc_id liveness (x # rest) r = Some r2"
          using True assms(2) r2(1) by (subst collect_uses.simps) simp
        then show ?thesis using collected_Cons [OF r1(2) r2(2) nxt] True by blast
      qed
    qed
    then show ?case by blast
  qed
qed

definition freed_uses :: "SCG \<Rightarrow> NodeId \<Rightarrow> NodeId \<Rightarrow> NodeId set" where
  "freed_uses s a d = {m. (d, m) \<in> {(x, y) \<in> id_rel s. a \<in> live_at s y}\<^sup>+}"

lemma violating_uses_exact:
  assumes "scg_ok s" "get_node s d \<noteq> None"
    and A: "{x. case hm_get l x of Some info \<Rightarrow> a \<in> live_in info | None \<Rightarrow> False} = {x. a \<in> live_at s x \<and> get_node s x \<noteq> None}" (is "?A = _")
  shows "collect_violating_uses s d a l {} = Some (freed_uses s a d)"
proof -
  let ?R = "{(x, y) \<in> id_rel s. a \<in> live_at s y}"
  obtain succs where succs: "successors s d = Some succs" "set succs = {y. (d, y) \<in> id_rel s}"
    using neighbour_sets(1) [OF assms(1), of d] assms(2) by auto
  obtain res where res: "collect_uses s a l succs {} = Some res" "collected s ?A succs {} res"
    using collect_uses_total [OF assms(1) refl] by blast
  have step: "y \<in> ?A" if "(x, y) \<in> ?R" for x y using that get_edge_ends [OF assms(1)] unfolding A by (auto simp: id_rel_def)
  have "m \<in> res" if "(d, m) \<in> ?R\<^sup>+" for m
    using that
  proof (induction rule: trancl_induct)
    case (base y)
    then show ?case using collectedD(2) [OF res(2)] step [of d y] succs(2) by auto
  next
    case (step y z)
    then show ?case using collectedD(3) [OF res(2), of y z] \<open>\<And>x y. (x, y) \<in> ?R \<Longrightarrow> y \<in> ?A\<close> [of y z] by auto
  qed
  moreover have "res \<subseteq> {} \<union> {m. (d, m) \<in> ?R\<^sup>+}"
  proof (rule collectedD(4) [OF res(2)])
    show "set succs \<inter> ?A \<subseteq> {m. (d, m) \<in> ?R\<^sup>+}" using succs(2) unfolding A by auto
    show "\<forall>x \<in> {m. (d, m) \<in> ?R\<^sup>+}. \<forall>y \<in> ?A. (x, y) \<in> id_rel s \<longrightarrow> y \<in> {m. (d, m) \<in> ?R\<^sup>+}"
      unfolding A by (auto intro: trancl_into_trancl)
  qed
  ultimately have "res = freed_uses s a d" unfolding freed_uses_def by blast
  then show ?thesis using succs(1) res(1) by (simp add: collect_violating_uses_def)
qed

definition dealloc_report :: "SCG \<Rightarrow> NodeData \<Rightarrow> UseAfterFree list" where
  "dealloc_report s n =
     (case nd_payload n of
        Deallocation a _ \<Rightarrow>
          if a \<in> live_after s (nd_id n)
          then [\<lparr>uaf_allocation = a, uaf_deallocation = nd_id n, uaf_violating_uses = freed_uses s a (nd_id n)\<rparr>] else []
      | _ \<Rightarrow> [])"

lemma check_dealloc_exact:
  assumes "scg_ok s" "liveness_result s la" "la_converged la" "n \<in> set (nodes s)"
  shows "check_dealloc s (la_liveness la) n = Some (dealloc_report s n)"
proof -
  note R = result_sets [OF assms(1,2)]
  have g: "get_node s (nd_id n) \<noteq> None" using assms(4) mem_nodes [OF assms(1)] by simp
  then obtain info where info: "hm_get (la_liveness la) (nd_id n) = Some info" "live_out info = live_after s (nd_id n)"
    using R(1) [of "nd_id n"] R(3) [OF assms(3)] by blast
  have "(case hm_get (la_liveness la) x of Some info \<Rightarrow> a \<in> live_in info | None \<Rightarrow> False) \<longleftrightarrow> a \<in> live_at s x \<and> get_node s x \<noteq> None" for a x
    using R(1) [of x] R(3) [OF assms(3), of x] by (cases "hm_get (la_liveness la) x") auto
  then have "collect_violating_uses s (nd_id n) a (la_liveness la) {} = Some (freed_uses s a (nd_id n))" for a
    using violating_uses_exact [OF assms(1) g] by simp
  then show ?thesis using info by (simp add: check_dealloc_def dealloc_report_def split: NodePayload.splits)
qed

lemma those_total: "(\<And>x. x \<in> set xs \<Longrightarrow> f x = Some (g x)) \<Longrightarrow> those (map f xs) = Some (map g xs)"
  by (induction xs) auto

lemma reports_ids: "distinct (map nd_id ns) \<Longrightarrow> distinct (map uaf_deallocation (concat (map (dealloc_report s) ns)))"
proof (induction ns)
  case (Cons n ns)
  have "set (map uaf_deallocation (concat (map (dealloc_report s) ns))) \<subseteq> nd_id ` set ns"
    by (auto simp: dealloc_report_def split: NodePayload.splits if_splits)
  then have "nd_id n \<notin> set (map uaf_deallocation (concat (map (dealloc_report s) ns)))" using Cons.prems by auto
  then show ?case using Cons by (auto simp: dealloc_report_def split: NodePayload.splits)
qed simp


section \<open>A concrete graph\<close>

declare collect_uses.simps [code]

lemma stale_runs:
  "map_option (find_use_after_free stale_scg) (compute_liveness stale_scg)
    = Some (Some [\<lparr>uaf_allocation = 0, uaf_deallocation = 1, uaf_violating_uses = {2, 3}\<rparr>])"
  "find_dead_code stale_scg = [2]"
  by code_simp+

theorem dead_code_exact_witness:
  "\<exists>n. get_node stale_scg 2 = Some n \<and> is_pure_node (nd_node_type n)
    \<and> \<not> (\<exists>j m. get_node stale_scg j = Some m \<and> \<not> is_pure_node (nd_node_type m) \<and> (2, j) \<in> (value_rel stale_scg)\<^sup>*)"
  using dead_code_exact [OF stale_scg_ok] stale_runs(2) by auto


text \<open>
  The reported nodes need not use the freed value: the computation between the deallocation and the read is reported
  although no edge carries the value to it.
\<close>

lemma reported_without_use: "\<not> used_by stale_scg 0 2" "2 \<in> freed_uses stale_scg 0 1"
proof -
  have "compute_use_set stale_scg 2 = {}" by code_simp
  then show "\<not> used_by stale_scg 0 2" using use_set_iff [OF stale_scg_ok, of 0 2] by simp
  have run: "compute_use_set stale_scg 3 = {0}" "compute_successor_set stale_scg 2 = [3]" "successors stale_scg 1 = Some [2]" by code_simp+
  have "used_by stale_scg 0 3" using run(1) use_set_iff [OF stale_scg_ok, of 0 3] by simp
  moreover obtain i e where "get_edge stale_scg i = Some e" "ed_source e = 2" "ed_target e = 3" "propagates (ed_kind e)"
    using run(2) successor_set_iff [OF stale_scg_ok, of 3 2] by auto
  then have "(2, 3) \<in> value_paths stale_scg 0" unfolding value_paths_def by force
  ultimately have "0 \<in> live_at stale_scg 2" by (auto simp: live_at_def)
  moreover have "(1, 2) \<in> id_rel stale_scg" using run(3) neighbour_sets(1) [OF stale_scg_ok, of 1] by (auto split: if_splits)
  ultimately show "2 \<in> freed_uses stale_scg 0 1" by (auto simp: freed_uses_def)
qed

text \<open>An allocation in another region silences the search for uninitialised reads.\<close>

lemma foreign_allocation_initialises:
  assumes "get_node s j = Some m" "region_of_alloc (nd_payload m) = Some r'" "j \<noteq> i"
  shows "initialised s i r"
  using assms by (auto simp: initialised_def)

end
