(* ===== verification/Scg_Loops.thy ===== *)
theory Scg_Loops
  imports Scg_Merge "HOL-Library.Monad_Syntax"
begin

text \<open>
  Loop detection on the control flow of the SCG (\<^verbatim>\<open>scg/src/loop_detection.rs\<close>): the iterative dominator computation of Cooper, Harvey and
  Kennedy, the back edges, the bodies and exits of the natural loops, the nesting of loops, loops without exit and
  loop-invariant nodes. A missing key of an indexed map is a panic, that is \<open>None\<close>; so is a loop that does not end.
\<close>

section \<open>The control-flow view\<close>

definition cf_edges :: "SCG \<Rightarrow> (NodeId \<times> NodeId) list" where
  "cf_edges s = map (\<lambda>e. (ed_source e, ed_target e)) (filter (\<lambda>e. ed_kind e = ControlFlow) (edges s))"

definition entry_nodes :: "SCG \<Rightarrow> NodeId list" where
  "entry_nodes s =
     (let entries = map nd_id (filter (\<lambda>n. control_kind (nd_payload n) = Some CkFunctionEntry) (nodes s)) in
      if entries = [] then map nd_id (filter (\<lambda>n. nd_id n \<notin> snd ` set (cf_edges s)) (nodes s)) else entries)"

definition push_at :: "'k \<Rightarrow> 'v \<Rightarrow> ('k, 'v list) hmap \<Rightarrow> ('k, 'v list) hmap" where
  "push_at k v m = hm_insert k ((case hm_get m k of Some vs \<Rightarrow> vs | None \<Rightarrow> []) @ [v]) m"

definition build_adjacency :: "('n \<times> 'n) list \<Rightarrow> ('n, 'n list) hmap \<times> ('n, 'n list) hmap" where
  "build_adjacency es = fold (\<lambda>(s, t) (succs, preds). (push_at s t succs, push_at t s preds)) es ([], [])"

record NaturalLoop =
  nl_header :: NodeId
  nl_backedge_source :: NodeId
  nl_body :: "NodeId set"
  nl_exits :: "NodeId set"
  nl_depth :: u32

definition natural_loop_new :: "NodeId \<Rightarrow> NodeId \<Rightarrow> NaturalLoop" where
  "natural_loop_new header source = \<lparr>nl_header = header, nl_backedge_source = source, nl_body = {}, nl_exits = {}, nl_depth = 0\<rparr>"

definition has_exit :: "NaturalLoop \<Rightarrow> bool" where
  "has_exit l \<longleftrightarrow> nl_exits l \<noteq> {}"

section \<open>Dominators on the control flow\<close>

type_synonym adj_map = "(NodeId, NodeId list) hmap"

partial_function (option) cfg_reachable :: "adj_map \<Rightarrow> NodeId list \<Rightarrow> NodeId set \<Rightarrow> NodeId set option" where
  "cfg_reachable cf_succs stack seen =
     (case stack of
        [] \<Rightarrow> Some seen
      | node # rest \<Rightarrow>
          if node \<in> seen then cfg_reachable cf_succs rest seen
          else cfg_reachable cf_succs
            (fold (\<lambda>succ st. if succ \<in> insert node seen then st else succ # st)
               (case hm_get cf_succs node of Some succ_list \<Rightarrow> succ_list | None \<Rightarrow> []) rest) (insert node seen))"

text \<open>The flag of a stack entry is \<^verbatim>\<open>processed\<close>.\<close>

partial_function (option) rpo_loop ::
    "adj_map \<Rightarrow> NodeId set \<Rightarrow> (NodeId \<times> bool) list \<Rightarrow> NodeId set \<Rightarrow> NodeId list \<Rightarrow> NodeId list option" where
  "rpo_loop cf_succs reachable stack seen post_order =
     (case stack of
        [] \<Rightarrow> Some (rev post_order)
      | entry # rest \<Rightarrow>
          if snd entry then rpo_loop cf_succs reachable rest seen (post_order @ [fst entry])
          else if fst entry \<notin> reachable \<or> fst entry \<in> seen then rpo_loop cf_succs reachable rest seen post_order
          else rpo_loop cf_succs reachable
            (fold (\<lambda>succ st. if succ \<notin> insert (fst entry) seen \<and> succ \<in> reachable then (succ, False) # st else st)
               (rev (case hm_get cf_succs (fst entry) of Some succ_list \<Rightarrow> succ_list | None \<Rightarrow> [])) ((fst entry, True) # rest))
            (insert (fst entry) seen) post_order)"

definition reverse_postorder :: "adj_map \<Rightarrow> NodeId \<Rightarrow> NodeId set \<Rightarrow> NodeId list option" where
  "reverse_postorder cf_succs entry reachable = rpo_loop cf_succs reachable [(entry, False)] {} []"

definition rpo_index :: "NodeId list \<Rightarrow> (NodeId, nat) hmap" where
  "rpo_index rpo = fold (\<lambda>(i, node). hm_insert node i) (enumerate 0 rpo) []"

partial_function (option) intersect :: "(NodeId, NodeId) hmap \<Rightarrow> (NodeId, nat) hmap \<Rightarrow> NodeId \<Rightarrow> NodeId \<Rightarrow> NodeId option" where
  "intersect dom_of_node rpo_idx finger1 finger2 =
     (let idx1 = (case hm_get rpo_idx finger1 of Some i \<Rightarrow> i | None \<Rightarrow> 0);
          idx2 = (case hm_get rpo_idx finger2 of Some i \<Rightarrow> i | None \<Rightarrow> 0) in
      if idx1 > idx2 then do { up \<leftarrow> hm_get dom_of_node finger1; intersect dom_of_node rpo_idx up finger2 }
      else if idx2 > idx1 then do { up \<leftarrow> hm_get dom_of_node finger2; intersect dom_of_node rpo_idx finger1 up }
      else Some finger1)"

fun intersect_all :: "(NodeId, NodeId) hmap \<Rightarrow> (NodeId, nat) hmap \<Rightarrow> NodeId \<Rightarrow> NodeId list \<Rightarrow> NodeId option" where
  "intersect_all dom_of_node rpo_idx new_idom [] = Some new_idom"
| "intersect_all dom_of_node rpo_idx new_idom (pred # preds) = do {
     met \<leftarrow> intersect dom_of_node rpo_idx new_idom pred;
     intersect_all dom_of_node rpo_idx met preds }"

text \<open>One node of a pass, and a pass; the flag is \<^verbatim>\<open>changed\<close>.\<close>

definition chk_node ::
    "adj_map \<Rightarrow> NodeId \<Rightarrow> (NodeId, nat) hmap \<Rightarrow> NodeId \<Rightarrow> (NodeId, NodeId) hmap \<times> bool \<Rightarrow> ((NodeId, NodeId) hmap \<times> bool) option" where
  "chk_node cf_preds entry rpo_idx node st =
     (if node = entry then Some st
      else
        (case (case hm_get cf_preds node of Some ps \<Rightarrow> filter (\<lambda>p. hm_get (fst st) p \<noteq> None) ps | None \<Rightarrow> []) of
           [] \<Rightarrow> Some st
         | first # rest \<Rightarrow> do {
             new_idom \<leftarrow> intersect_all (fst st) rpo_idx first rest;
             Some (if hm_get (fst st) node \<noteq> Some new_idom then (hm_insert node new_idom (fst st), True) else st) }))"

fun chk_pass ::
    "adj_map \<Rightarrow> NodeId \<Rightarrow> (NodeId, nat) hmap \<Rightarrow> NodeId list \<Rightarrow> (NodeId, NodeId) hmap \<times> bool \<Rightarrow> ((NodeId, NodeId) hmap \<times> bool) option" where
  "chk_pass cf_preds entry rpo_idx [] st = Some st"
| "chk_pass cf_preds entry rpo_idx (node # rest) st = do {
     st1 \<leftarrow> chk_node cf_preds entry rpo_idx node st;
     chk_pass cf_preds entry rpo_idx rest st1 }"

partial_function (option) chk_loop ::
    "adj_map \<Rightarrow> NodeId \<Rightarrow> (NodeId, nat) hmap \<Rightarrow> NodeId list \<Rightarrow> (NodeId, NodeId) hmap \<Rightarrow> (NodeId, NodeId) hmap option" where
  "chk_loop cf_preds entry rpo_idx rpo dom_of_node = do {
     st \<leftarrow> chk_pass cf_preds entry rpo_idx rpo (dom_of_node, False);
     if snd st then chk_loop cf_preds entry rpo_idx rpo (fst st) else Some (fst st) }"

record CfgDomTree =
  cd_entry :: NodeId
  cd_idom :: "(NodeId, NodeId) hmap"

definition compute_cfg_dominators :: "adj_map \<Rightarrow> adj_map \<Rightarrow> NodeId \<Rightarrow> CfgDomTree option" where
  "compute_cfg_dominators cf_succs cf_preds entry = do {
     reachable \<leftarrow> cfg_reachable cf_succs [entry] {};
     if reachable = {} then Some \<lparr>cd_entry = entry, cd_idom = []\<rparr>
     else do {
       rpo \<leftarrow> reverse_postorder cf_succs entry reachable;
       dom_of_node \<leftarrow> chk_loop cf_preds entry (rpo_index rpo) rpo [(entry, entry)];
       Some \<lparr>cd_entry = entry, cd_idom = hm_remove entry dom_of_node\<rparr> } }"

partial_function (option) cfg_dominates_walk :: "CfgDomTree \<Rightarrow> NodeId \<Rightarrow> NodeId \<Rightarrow> bool option" where
  "cfg_dominates_walk t a current =
     (case hm_get (cd_idom t) current of
        None \<Rightarrow> Some False
      | Some parent \<Rightarrow> if parent = a then Some True else cfg_dominates_walk t a parent)"

definition cfg_dominates :: "CfgDomTree \<Rightarrow> NodeId \<Rightarrow> NodeId \<Rightarrow> bool option" where
  "cfg_dominates t a b = (if a = b then Some True else cfg_dominates_walk t a b)"

section \<open>Natural loops\<close>

fun back_targets :: "CfgDomTree \<Rightarrow> NodeId \<Rightarrow> NodeId list \<Rightarrow> (NodeId \<times> NodeId) list option" where
  "back_targets t source [] = Some []"
| "back_targets t source (target # rest) = do {
     back \<leftarrow> cfg_dominates t target source;
     more \<leftarrow> back_targets t source rest;
     Some (if back then (source, target) # more else more) }"

fun find_back_edges :: "CfgDomTree \<Rightarrow> adj_map \<Rightarrow> (NodeId \<times> NodeId) list option" where
  "find_back_edges t [] = Some []"
| "find_back_edges t ((source, succs) # rest) = do {
     here \<leftarrow> back_targets t source succs;
     more \<leftarrow> find_back_edges t rest;
     Some (here @ more) }"

fun add_preds :: "NodeId list \<Rightarrow> NodeId set \<times> NodeId list \<Rightarrow> NodeId set \<times> NodeId list" where
  "add_preds [] st = st"
| "add_preds (pred # preds) (body, stack) = add_preds preds (if pred \<in> body then (body, stack) else (insert pred body, pred # stack))"

partial_function (option) body_loop :: "adj_map \<Rightarrow> NodeId list \<Rightarrow> NodeId set \<Rightarrow> NodeId set option" where
  "body_loop cf_preds stack body =
     (case stack of
        [] \<Rightarrow> Some body
      | node # rest \<Rightarrow>
          (let st = add_preds (case hm_get cf_preds node of Some preds \<Rightarrow> preds | None \<Rightarrow> []) (body, rest)
           in body_loop cf_preds (snd st) (fst st)))"

definition loop_exits :: "adj_map \<Rightarrow> NodeId set \<Rightarrow> NodeId set" where
  "loop_exits cf_succs body =
     {node \<in> body. case hm_get cf_succs node of Some succs \<Rightarrow> list_ex (\<lambda>succ. succ \<notin> body) succs | None \<Rightarrow> False}"

fun collect_loops :: "adj_map \<Rightarrow> adj_map \<Rightarrow> (NodeId \<times> NodeId) list \<Rightarrow> NaturalLoop list \<Rightarrow> NaturalLoop list option" where
  "collect_loops cf_succs cf_preds [] loops = Some loops"
| "collect_loops cf_succs cf_preds ((source, header) # rest) loops =
     (if list_ex (\<lambda>l. nl_header l = header \<and> nl_backedge_source l = source) loops then collect_loops cf_succs cf_preds rest loops
      else do {
        body \<leftarrow> body_loop cf_preds [source] (insert source (insert header {}));
        let l = (natural_loop_new header source)\<lparr>nl_body := body, nl_exits := loop_exits cf_succs body\<rparr>;
        collect_loops cf_succs cf_preds rest (loops @ [l]) })"

definition detect_natural_loops_on :: "(NodeId \<times> NodeId) list \<Rightarrow> NodeId list \<Rightarrow> NaturalLoop list option" where
  "detect_natural_loops_on es entries =
     (case entries of
        [] \<Rightarrow> Some []
      | entry # _ \<Rightarrow>
          (case build_adjacency es of (cf_succs, cf_preds) \<Rightarrow> do {
             dom_tree \<leftarrow> compute_cfg_dominators cf_succs cf_preds entry;
             back_edges \<leftarrow> find_back_edges dom_tree cf_succs;
             collect_loops cf_succs cf_preds back_edges [] }))"

definition detect_natural_loops :: "SCG \<Rightarrow> NaturalLoop list option" where
  "detect_natural_loops s = detect_natural_loops_on (cf_edges s) (entry_nodes s)"

definition detect_infinite_loops :: "SCG \<Rightarrow> NodeId list option" where
  "detect_infinite_loops s = map_option (\<lambda>loops. map nl_header (filter (\<lambda>l. \<not> has_exit l) loops)) (detect_natural_loops s)"

section \<open>Nesting\<close>

record LoopNestingTree =
  ln_loops :: "NaturalLoop list"
  ln_parent :: "(nat, nat option) hmap"

definition better_parent :: "NaturalLoop list \<Rightarrow> nat \<Rightarrow> nat \<Rightarrow> nat option \<times> u64 \<Rightarrow> nat option \<times> u64" where
  "better_parent loops i j best =
     (if i \<noteq> j \<and> nl_header (loops ! i) \<in> nl_body (loops ! j) \<and> of_nat (card (nl_body (loops ! j))) < snd best
      then (Some j, of_nat (card (nl_body (loops ! j)))) else best)"

definition nest_loop :: "nat \<Rightarrow> NaturalLoop list \<times> (nat, nat option) hmap \<Rightarrow> NaturalLoop list \<times> (nat, nat option) hmap" where
  "nest_loop i st =
     (case st of (loops, parents) \<Rightarrow>
        let best = fst (fold (better_parent loops i) [0..<length loops] (None, - 1)) in
        (case best of
           Some p \<Rightarrow> loops[i := (loops ! i)\<lparr>nl_depth := nl_depth (loops ! p) + 1\<rparr>]
         | None \<Rightarrow> loops,
         hm_insert i best parents))"

definition detect_loop_nesting :: "SCG \<Rightarrow> LoopNestingTree option" where
  "detect_loop_nesting s =
     map_option (\<lambda>natural_loops.
        case fold nest_loop [0..<length natural_loops] (map (nl_depth_update (\<lambda>_. 0)) natural_loops, []) of
          (loops, parents) \<Rightarrow> \<lparr>ln_loops = loops, ln_parent = parents\<rparr>) (detect_natural_loops s)"

definition root_loops :: "LoopNestingTree \<Rightarrow> NaturalLoop list" where
  "root_loops t = map snd (filter (\<lambda>(i, _). hm_get (ln_parent t) i = Some None) (enumerate 0 (ln_loops t)))"

definition nested_loops :: "LoopNestingTree \<Rightarrow> nat \<Rightarrow> nat list" where
  "nested_loops t loop_idx = map fst (filter (\<lambda>(_, parent). parent = Some loop_idx) (ln_parent t))"

definition loop_depth :: "LoopNestingTree \<Rightarrow> nat \<Rightarrow> u32" where
  "loop_depth t loop_idx = (if loop_idx < length (ln_loops t) then nl_depth (ln_loops t ! loop_idx) else 0)"

section \<open>Loop-invariant nodes\<close>

fun has_effect :: "NodeType \<Rightarrow> bool" where
  "has_effect NtEffect = True"
| "has_effect NtAllocation = True"
| "has_effect NtDeallocation = True"
| "has_effect NtAccess = True"
| "has_effect NtControl = True"
| "has_effect NtPhantom = True"
| "has_effect NtVTable = True"
| "has_effect NtClosureEnv = True"
| "has_effect _ = False"

definition defined_outside :: "SCG \<Rightarrow> NodeId set \<Rightarrow> NodeId \<Rightarrow> bool" where
  "defined_outside s body node_id =
     (case predecessors s node_id of
        None \<Rightarrow> True
      | Some preds \<Rightarrow> \<not> list_ex (\<lambda>pred. list_ex (\<lambda>e. ed_source e = pred \<and> ed_target e = node_id \<and> ed_kind e = DataFlow) (edges s)
          \<and> pred \<in> body) preds)"

text \<open>\<open>iter\<close> is the order in which the hash set of the body is iterated.\<close>

definition loop_invariant_nodes :: "(NodeId set \<Rightarrow> NodeId list) \<Rightarrow> NaturalLoop \<Rightarrow> SCG \<Rightarrow> NodeId list" where
  "loop_invariant_nodes iter l s =
     filter (\<lambda>node_id. case get_node s node_id of
         None \<Rightarrow> False
       | Some node \<Rightarrow> \<not> has_effect (nd_node_type node) \<and> defined_outside s (nl_body l) node_id) (iter (nl_body l))"

end
