(* ===== verification/Cfg_Dominators.thy ===== *)
theory Cfg_Dominators
  imports Dominators
begin

text \<open>
  The iterative dominator algorithm of Cooper, Harvey and Kennedy on an abstract flow graph. The locale \<open>rpo_graph\<close> is its
  interface to the numbering: nodes are numbered apart, and every node but the root has a predecessor with a smaller number.
  A pass visits the nodes by number and replaces the parent of a node by the meet of its predecessors in the
  current tree. The invariant shows that parents only move up, so the passes end, and that no dominator is lost on the
  way; a tree that a pass leaves unchanged is the dominator tree.
\<close>

locale rpo_graph =
  fixes E :: "('a \<times> 'a) set" and r :: 'a and num :: "'a \<Rightarrow> nat" and par :: "'a \<Rightarrow> 'a"
  assumes finite_V: "finite (E\<^sup>* `` {r})"
    and num_inj: "inj_on num (E\<^sup>* `` {r})"
    and par_edge: "\<lbrakk>(r, v) \<in> E\<^sup>*; v \<noteq> r\<rbrakk> \<Longrightarrow> (par v, v) \<in> E \<and> (r, par v) \<in> E\<^sup>* \<and> num (par v) < num v"
begin

definition V :: "'a set" where
  "V = E\<^sup>* `` {r}"

definition up :: "('a \<Rightarrow> 'a option) \<Rightarrow> ('a \<times> 'a) set" where
  "up f = {(v, u). f v = Some u \<and> v \<noteq> r}"

definition chain :: "('a \<Rightarrow> 'a option) \<Rightarrow> 'a \<Rightarrow> 'a set" where
  "chain f v = (up f)\<^sup>* `` {v}"

definition ok :: "('a \<Rightarrow> 'a option) \<Rightarrow> bool" where
  "ok f \<longleftrightarrow> f r = Some r \<and> dom f \<subseteq> V \<and> (\<forall>v u. f v = Some u \<and> v \<noteq> r \<longrightarrow> u \<in> dom f \<and> num u < num v)"

lemma r_V: "r \<in> V"
  by (simp add: V_def)

lemma num_eq: "\<lbrakk>a \<in> V; b \<in> V; num a = num b\<rbrakk> \<Longrightarrow> a = b"
  using num_inj by (auto simp: V_def dest: inj_onD)

lemma V_edge: "v \<in> V \<Longrightarrow> (v, w) \<in> E \<Longrightarrow> w \<in> V"
  by (auto simp: V_def)

lemma okD: "ok f \<Longrightarrow> f r = Some r" "ok f \<Longrightarrow> v \<in> dom f \<Longrightarrow> v \<in> V"
  "\<lbrakk>ok f; f v = Some u; v \<noteq> r\<rbrakk> \<Longrightarrow> u \<in> dom f \<and> num u < num v"
  by (auto simp: ok_def)

lemma chain_self [simp]: "v \<in> chain f v"
  by (simp add: chain_def)

lemma chain_root [simp]: "chain f r = {r}"
proof -
  have "x = r" if "(r, x) \<in> (up f)\<^sup>*" for x using that by (cases rule: converse_rtranclE) (auto simp: up_def)
  then show ?thesis by (auto simp: chain_def)
qed

lemma chain_None: "f v = None \<Longrightarrow> chain f v = {v}"
  by (auto simp: chain_def up_def elim: converse_rtranclE)

lemma chain_unfold: "\<lbrakk>f v = Some u; v \<noteq> r\<rbrakk> \<Longrightarrow> chain f v = insert v (chain f u)"
  by (auto simp: chain_def up_def elim: converse_rtranclE intro: converse_rtrancl_into_rtrancl)

lemma chain_trans: "x \<in> chain f v \<Longrightarrow> chain f x \<subseteq> chain f v"
  by (auto simp: chain_def)

lemma chain_num:
  assumes "ok f" "v \<in> dom f" "x \<in> chain f v"
  shows "x \<in> dom f" "num x \<le> num v" "x \<noteq> v \<Longrightarrow> num x < num v"
proof -
  have "(v, x) \<in> (up f)\<^sup>*" using assms(3) by (simp add: chain_def)
  then have "x \<in> dom f \<and> num x \<le> num v \<and> (x \<noteq> v \<longrightarrow> num x < num v)"
  proof (induction rule: rtrancl_induct)
    case (step y z)
    then show ?case using okD(3) [OF assms(1), of y z] by (auto simp: up_def)
  qed (use assms(2) in simp)
  then show "x \<in> dom f" "num x \<le> num v" "x \<noteq> v \<Longrightarrow> num x < num v" by blast+
qed

text \<open>The finger with the larger number is not above the other one.\<close>

lemma meet_step:
  assumes "ok f" "a \<in> dom f" "b \<in> dom f" "num b < num a"
  shows "\<exists>u. f a = Some u \<and> u \<in> dom f \<and> num u < num a \<and> chain f a \<inter> chain f b = chain f u \<inter> chain f b"
proof -
  obtain u where u: "f a = Some u" using assms(2) by blast
  have "a \<noteq> r"
  proof
    assume "a = r"
    then have "b \<noteq> r" using assms(4) by auto
    moreover have "b \<in> V" using okD(2) [OF assms(1,3)] .
    ultimately have "num r < num b"
    proof (induction "num b" arbitrary: b rule: less_induct)
      case less
      then have "num (par b) < num b" "par b \<in> V" using par_edge [of b] by (auto simp: V_def)
      then show ?case using less.hyps [of "par b"] by (cases "par b = r") auto
    qed
    then show False using assms(4) \<open>a = r\<close> by simp
  qed
  moreover have "a \<notin> chain f b" using chain_num(2) [OF assms(1,3), of a] assms(4) by auto
  ultimately show ?thesis using u okD(3) [OF assms(1) u] chain_unfold [where f = f, OF u] by auto
qed

lemma chain_upd:
  assumes "ok f" "x \<noteq> r" "l \<in> dom f" "num l < num x" "y \<in> dom f \<or> y = x"
  shows "chain (f(x \<mapsto> l)) y = (if x \<in> chain f y then chain f y - chain f x \<union> insert x (chain f l) else chain f y)"
  using assms(5)
proof (induction "num y" arbitrary: y rule: less_induct)
  case less
  have xl: "x \<notin> chain f l" using chain_num(2) [OF assms(1,3), of x] assms(4) by auto
  show ?case
  proof (cases "y = x")
    case True
    have "chain (f(x \<mapsto> l)) x = insert x (chain (f(x \<mapsto> l)) l)" by (rule chain_unfold) (use assms(2) in simp_all)
    moreover have "chain (f(x \<mapsto> l)) l = chain f l" using less.hyps [of l] True assms(3,4) xl by simp
    ultimately show ?thesis using True by simp
  next
    case False
    show ?thesis
    proof (cases "y = r")
      case True
      then show ?thesis using assms(2) by simp
    next
      case yr: False
      obtain u where u: "f y = Some u" using less.prems False by blast
      have un: "u \<in> dom f" "num u < num y" using okD(3) [OF assms(1) u yr] by simp_all
      have eq: "chain f y = insert y (chain f u)" "chain (f(x \<mapsto> l)) y = insert y (chain (f(x \<mapsto> l)) u)"
        using chain_unfold [where f = f, OF u yr] chain_unfold [of "f(x \<mapsto> l)" y u] u yr False by simp_all
      have "y \<notin> chain f x" if "x \<in> chain f u"
      proof -
        have "x \<in> dom f" "num x \<le> num u" using chain_num(1,2) [OF assms(1) un(1) that] by simp_all
        then show ?thesis using chain_num(2) [OF assms(1), of x y] un(2) by auto
      qed
      then show ?thesis using less.hyps [OF un(2)] un(1) eq False by auto
    qed
  qed
qed

text \<open>What holds when the node numbered \<open>i\<close> is about to be visited.\<close>

definition keeps :: "('a \<Rightarrow> 'a option) \<Rightarrow> 'a \<Rightarrow> bool" where
  "keeps f v \<longleftrightarrow> (\<forall>d. d \<noteq> v \<and> dom_of E r d v \<longrightarrow> dom_of E r d (the (f v)))"

definition preds_of :: "('a \<Rightarrow> 'a option) \<Rightarrow> 'a \<Rightarrow> 'a set" where
  "preds_of f v = {p \<in> dom f. (p, v) \<in> E}"

definition common :: "('a \<Rightarrow> 'a option) \<Rightarrow> 'a \<Rightarrow> 'a set" where
  "common f v = (\<Inter>p \<in> preds_of f v. chain f p)"

definition inv_at :: "nat \<Rightarrow> ('a \<Rightarrow> 'a option) \<Rightarrow> 'a \<Rightarrow> bool" where
  "inv_at i f v \<longleftrightarrow> par v \<in> dom f \<and> keeps f v \<and> common f v \<subseteq> chain f (the (f v))
     \<and> (num v < i \<or> i \<le> Suc (num (the (f v))) \<longrightarrow> the (f v) \<in> chain f (par v))"

definition inv :: "nat \<Rightarrow> ('a \<Rightarrow> 'a option) \<Rightarrow> bool" where
  "inv i f \<longleftrightarrow> ok f \<and> (\<forall>v \<in> V. num v < i \<longrightarrow> v \<in> dom f) \<and> (\<forall>v \<in> dom f. v \<noteq> r \<longrightarrow> inv_at i f v)"

lemma inv_start: "inv 0 [r \<mapsto> r]"
  by (auto simp: inv_def ok_def r_V)

lemma inv_root: "inv (num r) f \<Longrightarrow> inv (Suc (num r)) f"
proof -
  assume I: "inv (num r) f"
  then have ok: "ok f" by (simp add: inv_def)
  have less: "num v < num r" if "num v < Suc (num r)" "v \<noteq> r" "v \<in> V" for v
    using that num_eq [OF that(3) r_V] by (cases "num v = num r") auto
  have "inv_at (Suc (num r)) f v" if "v \<in> dom f" "v \<noteq> r" for v
    using I that less [of v] okD(2) [OF ok that(1)] unfolding inv_def inv_at_def by auto
  moreover have "v \<in> dom f" if "v \<in> V" "num v < Suc (num r)" for v
    using I that less [of v] okD(1) [OF ok] unfolding inv_def by (cases "v = r") auto
  ultimately show ?thesis using ok by (simp add: inv_def)
qed

lemma inv_restart: "\<lbrakk>inv i f; \<forall>v \<in> V. num v < i\<rbrakk> \<Longrightarrow> dom f = V \<and> inv 0 f"
proof -
  assume I: "inv i f" and i: "\<forall>v \<in> V. num v < i"
  have ok: "ok f" using I by (simp add: inv_def)
  have "dom f = V" using I i okD(2) [OF ok] by (auto simp: inv_def)
  moreover have "inv_at 0 f v" if "v \<in> dom f" "v \<noteq> r" for v
    using I i that okD(2) [OF ok that(1)] unfolding inv_def inv_at_def by auto
  ultimately show ?thesis using ok by (simp add: inv_def)
qed

text \<open>Dominators stay on the chain.\<close>

lemma dom_on_chain:
  assumes "inv i f" "v \<in> dom f" "dom_of E r d v"
  shows "d \<in> chain f v"
  using assms(2,3)
proof (induction "num v" arbitrary: v rule: less_induct)
  case less
  have ok: "ok f" using assms(1) by (simp add: inv_def)
  show ?case
  proof (cases "d = v \<or> v = r")
    case True
    moreover have "d = r" if "v = r" using less.prems(2) that by (auto simp: dom_of_def dest: spec [of _ "[r]"])
    ultimately show ?thesis by auto
  next
    case False
    obtain u where u: "f v = Some u" using less.prems(1) by blast
    have "dom_of E r d u" using assms(1) less.prems False u by (auto simp: inv_def inv_at_def keeps_def)
    then have "d \<in> chain f u" using less.hyps okD(3) [OF ok u] False by blast
    then show ?thesis using chain_unfold [where f = f, OF u] False by simp
  qed
qed

lemma dom_above:
  assumes "inv i f" "p \<in> dom f" "dom_of E r d p" "x \<in> chain f p" "d \<in> chain f x"
  shows "dom_of E r d x"
proof -
  have ok: "ok f" using assms(1) by (simp add: inv_def)
  have "(p, x) \<in> (up f)\<^sup>*" using assms(4) by (simp add: chain_def)
  then show ?thesis using assms(5)
  proof (induction rule: rtrancl_induct)
    case (step y z)
    then have y: "f y = Some z" "y \<noteq> r" by (auto simp: up_def)
    have yd: "y \<in> dom f" using y(1) by blast
    have "d \<in> chain f y" using step(4) chain_unfold [where f = f, OF y] by simp
    then have "dom_of E r d y" by (rule step.IH)
    moreover have "d \<noteq> y" using chain_num(2) [OF ok _ step(4)] okD(3) [OF ok y] by auto
    ultimately show ?case using assms(1) yd y by (auto simp: inv_def inv_at_def keeps_def)
  qed (rule assms(3))
qed

lemma dom_pred:
  assumes "dom_of E r d v" "d \<noteq> v" "(p, v) \<in> E"
  shows "dom_of E r d p"
  unfolding dom_of_def
proof (intro allI impI)
  fix xs assume "walks E r xs p"
  then have "walks E r (xs @ [v]) v" using assms(3) by (rule walks_snoc)
  then show "d \<in> set xs" using assms(1,2) by (auto simp: dom_of_def)
qed

text \<open>One visit: the new parent is the meet of the predecessors.\<close>

lemma visit:
  assumes I: "inv (num x) f" and x: "x \<in> V" "x \<noteq> r" and l: "l \<in> dom f" "chain f l = common f x"
  shows "inv (Suc (num x)) (f(x \<mapsto> l))" "num l < num x" "x \<in> dom f \<Longrightarrow> f x \<noteq> Some l \<Longrightarrow> num l < num (the (f x))"
proof -
  let ?f = "f(x \<mapsto> l)"
  have ok: "ok f" and at: "\<And>v. v \<in> dom f \<Longrightarrow> v \<noteq> r \<Longrightarrow> inv_at (num x) f v" using I by (simp_all add: inv_def)
  have par: "(par x, x) \<in> E" "par x \<in> V" "num (par x) < num x" using par_edge [of x] x by (auto simp: V_def)
  then have pd: "par x \<in> dom f" using I by (auto simp: inv_def)
  then have parx: "par x \<in> preds_of f x" using par(1) by (simp add: preds_of_def)
  have lpar: "l \<in> chain f (par x)" using l(2) chain_self [of l f] parx unfolding common_def by blast
  then show nl: "num l < num x" using chain_num(2) [OF ok pd lpar] par(3) by simp
  have upd: "chain ?f y = (if x \<in> chain f y then chain f y - chain f x \<union> insert x (chain f l) else chain f y)" if "y \<in> dom f \<or> y = x" for y
    using chain_upd [OF ok x(2) l(1) nl that] .
  have low: "x \<notin> chain f y" if "y \<in> dom f" "num y < num x" for y using chain_num(2) [OF ok that(1), of x] that(2) by auto
  have up_l: "chain f l \<subseteq> chain f (the (f x))" if "x \<in> dom f" using at [OF that x(2)] l(2) by (simp add: inv_at_def)
  have shrink: "chain ?f y \<subseteq> chain f y" if "y \<in> dom f" for y
  proof (cases "x \<in> chain f y")
    case True
    then have xd: "x \<in> dom f" using chain_num(1) [OF ok that] by blast
    then obtain u where u: "f x = Some u" by blast
    then have "chain f l \<subseteq> chain f x" using up_l [OF xd] chain_unfold [where f = f, OF u x(2)] by auto
    then show ?thesis using True chain_trans [OF True] upd that by auto
  qed (use upd that in simp)
  show "num l < num (the (f x))" if c: "x \<in> dom f" "f x \<noteq> Some l"
  proof -
    obtain u where u: "f x = Some u" using c(1) by blast
    then have "l \<in> chain f u" "l \<noteq> u" using up_l [OF c(1)] c(2) by auto
    then show ?thesis using chain_num(3) [OF ok, of u l] okD(3) [OF ok u x(2)] u by simp
  qed
  have ok': "ok ?f" using ok l(1) nl x okD(3) [OF ok] unfolding ok_def by auto
  have preds: "preds_of f v \<subseteq> preds_of ?f v" "preds_of ?f v \<subseteq> insert x (preds_of f v)" for v by (auto simp: preds_of_def)
  have common': "common ?f v \<subseteq> common f v" for v
    unfolding common_def
  proof (rule INT_anti_mono [OF preds(1)])
    fix p assume "p \<in> preds_of f v"
    then show "chain ?f p \<subseteq> chain f p" using shrink [of p] by (simp add: preds_of_def)
  qed
  have keep_x: "keeps ?f x"
    unfolding keeps_def
  proof (intro allI impI)
    fix d assume d: "d \<noteq> x \<and> dom_of E r d x"
    have "d \<in> chain f p" if "p \<in> preds_of f x" for p
      using that d dom_on_chain [OF I, of p d] dom_pred [of d x p] by (auto simp: preds_of_def)
    then have "d \<in> chain f l" using l(2) by (auto simp: common_def)
    then have "dom_of E r d l" using dom_above [OF I pd _ lpar] dom_pred [of d x "par x"] d par(1) by blast
    then show "dom_of E r d (the (?f x))" by simp
  qed
  have at_x: "inv_at (Suc (num x)) ?f x"
  proof -
    have "chain ?f l = chain f l" using upd [of l] l(1) low [OF l(1) nl] by simp
    moreover have "l \<in> chain ?f (par x)" using upd [of "par x"] pd low [OF pd par(3)] lpar by simp
    ultimately show ?thesis using keep_x common' [of x] l(2) pd par(3) by (auto simp: inv_at_def)
  qed
  have at_v: "inv_at (Suc (num x)) ?f v" if v: "v \<in> dom f" "v \<noteq> r" "v \<noteq> x" for v
  proof -
    note A = at [OF v(1,2), unfolded inv_at_def]
    obtain a where a: "f v = Some a" using v(1) by blast
    have av: "a \<in> dom f" "num a < num v" using okD(3) [OF ok a v(2)] by simp_all
    have pv: "par v \<in> dom f" "(par v, v) \<in> E" "num (par v) < num v" using A par_edge [of v] okD(2) [OF ok v(1)] v(2) by (auto simp: V_def)
    have "a \<in> chain ?f (par v)" if "num v < Suc (num x) \<or> Suc (num x) \<le> Suc (num a)"
    proof (cases "num v < Suc (num x)")
      case True
      then have "num v < num x" using num_eq [OF okD(2) [OF ok v(1)] x(1)] v(3) by (cases "num v = num x") auto
      then have "x \<notin> chain f (par v)" "a \<in> chain f (par v)" using low [OF pv(1)] pv(3) A a by auto
      then show ?thesis using upd [of "par v"] pv(1) by simp
    next
      case False
      then have "num x \<le> num a" using that by simp
      then have ac: "a \<in> chain f (par v)" using A a by auto
      moreover have "a \<notin> chain f x \<or> a = x" if "x \<in> chain f (par v)"
      proof -
        have "x \<in> dom f" using chain_num(1) [OF ok pv(1) that] .
        then show ?thesis using chain_num(3) [OF ok, of x a] \<open>num x \<le> num a\<close> by auto
      qed
      ultimately show ?thesis using upd [of "par v"] pv(1) by auto
    qed
    moreover have "common ?f v \<subseteq> chain ?f a"
    proof
      fix z assume z: "z \<in> common ?f v"
      then have zc: "z \<in> chain f a" using common' [of v] A a by auto
      show "z \<in> chain ?f a"
      proof (cases "x \<in> chain f a")
        case True
        have "num x \<le> num a" using chain_num(2) [OF ok av(1) True] .
        then have ac: "a \<in> chain f (par v)" using A a by auto
        then have xc: "x \<in> chain f (par v)" using True chain_trans [OF ac] by blast
        have "z \<in> chain ?f (par v)" using z pv(1,2) unfolding common_def preds_of_def by auto
        then show ?thesis using upd [of "par v"] pv(1) xc upd [of a] av(1) True zc by auto
      qed (use zc upd [of a] av(1) in simp)
    qed
    moreover have "keeps ?f v" using A v(3) by (simp add: keeps_def)
    ultimately show ?thesis using a v(3) pv(1) by (auto simp: inv_at_def)
  qed
  have "v \<in> dom ?f" if "v \<in> V" "num v < Suc (num x)" for v
    using I that num_eq [OF that(1) x(1)] unfolding inv_def by (cases "num v = num x") auto
  then show "inv (Suc (num x)) ?f" using ok' at_x at_v by (auto simp: inv_def)
qed

text \<open>A tree that no visit changes.\<close>

lemma fixed_point:
  assumes "inv i f" "dom f = V" "\<And>v. v \<in> V \<Longrightarrow> v \<noteq> r \<Longrightarrow> chain f (the (f v)) = common f v" "v \<in> V"
  shows "chain f v = {d. dom_of E r d v}"
proof -
  have "a \<in> set xs" if "walks E r xs w" "a \<in> chain f w" for a xs w
    using that
  proof (induction xs arbitrary: w rule: rev_induct)
    case (snoc y ys)
    have y: "y = w" using snoc.prems(1) by (simp add: walks_def)
    show ?case
    proof (cases "a = w")
      case False
      have wr: "w \<noteq> r" using False snoc.prems(2) by auto
      then have "ys \<noteq> []" using snoc.prems(1) y by (auto simp: walks_def)
      then obtain p zs where ys: "ys = zs @ [p]" by (metis rev_exhaust)
      then have wp: "walks E r (zs @ [p]) p" and e: "(p, w) \<in> E" using snoc.prems(1) y walks_split [of E r zs p "[w]" w] by (auto simp: walks_Cons)
      have pV: "p \<in> V" using walks_reach [OF wp, of p] by (simp add: V_def)
      have wV: "w \<in> V" using V_edge [OF pV e] .
      then obtain u where u: "f w = Some u" using assms(2) by blast
      then have "a \<in> chain f u" using snoc.prems(2) chain_unfold [where f = f, OF u wr] False by auto
      then have "a \<in> common f w" using assms(3) [OF wV wr] u by simp
      then have "a \<in> chain f p" using pV e assms(2) by (auto simp: common_def preds_of_def)
      then show ?thesis using snoc.IH [of p] wp ys by auto
    qed (use y in simp)
  qed simp
  then show ?thesis using dom_on_chain [OF assms(1)] assms(2,4) by (auto simp: dom_of_def)
qed

text \<open>The weight of a tree: what a visit that changes something lowers.\<close>

definition weight :: "('a \<Rightarrow> 'a option) \<Rightarrow> nat" where
  "weight f = (\<Sum>v \<in> V. case f v of Some u \<Rightarrow> num u | None \<Rightarrow> Suc (Max (num ` V)))"

lemma weight_visit:
  assumes "inv (num x) f" "x \<in> V" "x \<noteq> r" "l \<in> dom f" "chain f l = common f x" "f x \<noteq> Some l"
  shows "weight (f(x \<mapsto> l)) < weight f"
proof -
  note V = visit [OF assms(1-5)]
  have fin: "finite V" using finite_V by (simp add: V_def)
  let ?g = "\<lambda>f v. case f v of Some u \<Rightarrow> num u | None \<Rightarrow> Suc (Max (num ` V))"
  have "num l < Suc (Max (num ` V))" using V(2) fin assms(2) by (meson Max_ge finite_imageI imageI less_Suc_eq_le less_imp_le order_trans)
  then have "num l < ?g f x" using V(3) assms(6) by (cases "f x") auto
  moreover have "(\<Sum>v \<in> V - {x}. ?g (f(x \<mapsto> l)) v) = (\<Sum>v \<in> V - {x}. ?g f v)" by (rule sum.cong) auto
  ultimately show ?thesis unfolding weight_def using sum.remove [OF fin assms(2), of "?g f"] sum.remove [OF fin assms(2), of "?g (f(x \<mapsto> l))"] by simp
qed

end

end
