(* ===== verification/Scg_Loopcheck.thy ===== *)
theory Scg_Loopcheck
  imports Scg_Loops Cfg_Dominators
begin

text \<open>
  Correctness of loop detection: the reverse post-order yields a numbering (an interpretation of \<open>rpo_graph\<close>), the passes end with
  the dominator tree of the control flow, and the loops are those of the back edges.
\<close>

section \<open>Adjacency\<close>

definition adj_list :: "('n, 'n list) hmap \<Rightarrow> 'n \<Rightarrow> 'n list" where
  "adj_list m k = (case hm_get m k of Some vs \<Rightarrow> vs | None \<Rightarrow> [])"

lemma adj_push: "adj_list (push_at k v m) x = (if x = k then adj_list m k @ [v] else adj_list m x)"
  by (simp add: adj_list_def push_at_def hm_get_insert)

lemma hm_ok_push: "hm_ok m \<Longrightarrow> hm_ok (push_at k v m)"
  by (simp add: push_at_def hm_ok_insert)

lemma push_keys: "hm_get (push_at k v m) x \<noteq> None \<longleftrightarrow> x = k \<or> hm_get m x \<noteq> None"
  by (simp add: push_at_def hm_get_insert)

lemma adjacency_exact:
  "adj_list (fst (build_adjacency es)) a = map snd (filter (\<lambda>e. fst e = a) es)"
  "adj_list (snd (build_adjacency es)) a = map fst (filter (\<lambda>e. snd e = a) es)"
  "hm_ok (fst (build_adjacency es))" "hm_get (fst (build_adjacency es)) a = None \<longleftrightarrow> a \<notin> fst ` set es"
proof -
  have "(\<forall>a. adj_list (fst (build_adjacency es)) a = map snd (filter (\<lambda>e. fst e = a) es))
    \<and> (\<forall>a. adj_list (snd (build_adjacency es)) a = map fst (filter (\<lambda>e. snd e = a) es))
    \<and> hm_ok (fst (build_adjacency es)) \<and> (\<forall>a. hm_get (fst (build_adjacency es)) a = None \<longleftrightarrow> a \<notin> fst ` set es)"
  proof (induction es rule: rev_induct)
    case Nil
    show ?case by (simp add: build_adjacency_def adj_list_def)
  next
    case (snoc e es)
    obtain s t where e: "e = (s, t)" by force
    have "build_adjacency (es @ [e]) = (push_at s t (fst (build_adjacency es)), push_at t s (snd (build_adjacency es)))"
      by (simp add: build_adjacency_def e split: prod.split)
    then show ?case using snoc e push_keys [of s t "fst (build_adjacency es)"] by (auto simp: adj_push hm_ok_push simp del: not_None_eq)
  qed
  then show "adj_list (fst (build_adjacency es)) a = map snd (filter (\<lambda>e. fst e = a) es)"
    "adj_list (snd (build_adjacency es)) a = map fst (filter (\<lambda>e. snd e = a) es)"
    "hm_ok (fst (build_adjacency es))" "hm_get (fst (build_adjacency es)) a = None \<longleftrightarrow> a \<notin> fst ` set es" by blast+
qed

lemma adj_sets:
  "set (adj_list (fst (build_adjacency es)) a) = {b. (a, b) \<in> set es}"
  "set (adj_list (snd (build_adjacency es)) b) = {a. (a, b) \<in> set es}"
  by (force simp: adjacency_exact)+

section \<open>Searches\<close>

text \<open>The nodes of the edges and the entry bound every search.\<close>

lemma reach_bound: "(set es)\<^sup>* `` {r} \<subseteq> insert r (snd ` set es)"
proof
  fix x assume "x \<in> (set es)\<^sup>* `` {r}"
  then have "(r, x) \<in> (set es)\<^sup>*" by simp
  then show "x \<in> insert r (snd ` set es)" by (cases rule: rtranclE) force+
qed

lemma finite_reach: "finite ((set es)\<^sup>* `` {r})"
  by (rule finite_subset [OF reach_bound]) simp

lemma push_unseen: "fold (\<lambda>succ st. if succ \<in> A then st else succ # st) xs st = rev (filter (\<lambda>x. x \<notin> A) xs) @ st"
  by (induction xs arbitrary: st) auto

lemma cfg_reachable_exact:
  assumes "\<And>x. set (adj_list succs x) = E `` {x}" "finite W" "E `` W \<subseteq> W"
    and "seen \<union> set stack \<subseteq> W" "\<forall>x \<in> seen. E `` {x} \<subseteq> seen \<union> set stack"
  shows "cfg_reachable succs stack seen = Some (E\<^sup>* `` (seen \<union> set stack))"
  using assms(4,5)
proof (induction "card (W - seen)" arbitrary: stack seen rule: less_induct)
  case less
  show ?case
    using less.prems
  proof (induction stack)
    case Nil
    have "y \<in> seen" if "(x, y) \<in> E\<^sup>*" "x \<in> seen" for x y using that Nil(2) by (induction rule: rtrancl_induct) auto
    then show ?case by (auto simp: cfg_reachable.simps)
  next
    case (Cons node rest)
    show ?case
    proof (cases "node \<in> seen")
      case True
      then have "set (node # rest) \<union> seen = seen \<union> set rest" by auto
      moreover have "cfg_reachable succs (node # rest) seen = cfg_reachable succs rest seen" using True by (simp add: cfg_reachable.simps [of succs "node # rest"])
      ultimately show ?thesis using Cons True by (simp add: sup_commute)
    next
      case False
      let ?stack = "rev (filter (\<lambda>x. x \<notin> insert node seen) (adj_list succs node)) @ rest"
      have step: "cfg_reachable succs (node # rest) seen = cfg_reachable succs ?stack (insert node seen)"
        by (subst cfg_reachable.simps) (simp only: list.case False if_False push_unseen adj_list_def)
      have set_stack: "insert node seen \<union> set ?stack = insert node seen \<union> E `` {node} \<union> set rest" using assms(1) [of node] by auto
      have "W - insert node seen \<subset> W - seen" using False Cons.prems(1) by auto
      then have "card (W - insert node seen) < card (W - seen)" using assms(2) by (meson finite_Diff psubset_card_mono)
      moreover have "insert node seen \<union> set ?stack \<subseteq> W" unfolding set_stack using Cons.prems(1) assms(3) by auto
      moreover have "\<forall>x \<in> insert node seen. E `` {x} \<subseteq> insert node seen \<union> set ?stack" unfolding set_stack using Cons.prems(2) by auto
      ultimately have "cfg_reachable succs ?stack (insert node seen) = Some (E\<^sup>* `` (insert node seen \<union> set ?stack))" by (rule less.hyps)
      moreover have "E\<^sup>* `` (insert node seen \<union> set ?stack) = E\<^sup>* `` (seen \<union> set (node # rest))"
        unfolding set_stack by (auto intro: converse_rtrancl_into_rtrancl)
      ultimately show ?thesis using step by simp
    qed
  qed
qed

lemma cfg_reachable_entry: "cfg_reachable (fst (build_adjacency es)) [r] {} = Some ((set es)\<^sup>* `` {r})"
proof -
  have "set (adj_list (fst (build_adjacency es)) x) = set es `` {x}" for x using adj_sets(1) [of es x] by auto
  from cfg_reachable_exact [OF this, of "insert r (snd ` set es)" "{}" "[r]"] show ?thesis by force
qed

section \<open>The reverse post-order\<close>

fun grounded :: "(NodeId \<times> NodeId) set \<Rightarrow> NodeId \<Rightarrow> (NodeId \<times> bool) list \<Rightarrow> bool" where
  "grounded E r [] = True"
| "grounded E r ((n, _) # rest) \<longleftrightarrow> (n = r \<or> (\<exists>p. (p, n) \<in> E \<and> (p, True) \<in> set rest)) \<and> grounded E r rest"

text \<open>The successors of an open node are visited or wait above its mark.\<close>

fun pending :: "(NodeId \<times> NodeId) set \<Rightarrow> NodeId set \<Rightarrow> NodeId set \<Rightarrow> (NodeId \<times> bool) list \<Rightarrow> bool" where
  "pending E seen A [] = True"
| "pending E seen A ((n, done) # rest) \<longleftrightarrow> (if done then E `` {n} \<subseteq> seen \<union> A \<and> pending E seen A rest else pending E seen (insert n A) rest)"

definition later :: "NodeId list \<Rightarrow> NodeId \<Rightarrow> NodeId \<Rightarrow> bool" where
  "later post n p \<longleftrightarrow> (\<exists>xs ys. post = xs @ n # ys \<and> p \<in> set ys)"

definition marks :: "(NodeId \<times> bool) list \<Rightarrow> NodeId list" where
  "marks stack = map fst (filter snd stack)"

definition rpo_inv :: "(NodeId \<times> NodeId) set \<Rightarrow> NodeId \<Rightarrow> (NodeId \<times> bool) list \<Rightarrow> NodeId set \<Rightarrow> NodeId list \<Rightarrow> bool" where
  "rpo_inv E r stack seen post \<longleftrightarrow> distinct (post @ marks stack) \<and> seen = set (post @ marks stack)
     \<and> fst ` set stack \<subseteq> E\<^sup>* `` {r} \<and> seen \<subseteq> E\<^sup>* `` {r} \<and> grounded E r stack \<and> pending E seen {} stack
     \<and> (\<forall>n \<in> set post. E `` {n} \<subseteq> seen) \<and> (r \<in> seen \<or> (r, False) \<in> set stack)
     \<and> (\<forall>n \<in> set post. n = r \<or> (\<exists>p. (p, n) \<in> E \<and> (later post n p \<or> p \<in> set (marks stack))))"

lemma rpo_invD:
  assumes "rpo_inv E r stack seen post"
  shows "distinct (post @ marks stack)" "seen = set (post @ marks stack)" "fst ` set stack \<subseteq> E\<^sup>* `` {r}" "seen \<subseteq> E\<^sup>* `` {r}"
    "grounded E r stack" "pending E seen {} stack" "\<forall>n \<in> set post. E `` {n} \<subseteq> seen" "r \<in> seen \<or> (r, False) \<in> set stack"
    "\<forall>n \<in> set post. n = r \<or> (\<exists>p. (p, n) \<in> E \<and> (later post n p \<or> p \<in> set (marks stack)))"
  using assms unfolding rpo_inv_def by blast+

lemma marks_simps [simp]: "marks [] = []" "marks ((n, True) # st) = n # marks st" "marks ((n, False) # st) = marks st"
  by (simp_all add: marks_def)

lemma marks_mem: "(p, True) \<in> set st \<longleftrightarrow> p \<in> set (marks st)"
  by (force simp: marks_def)

lemma pending_mono: "pending E seen A st \<Longrightarrow> seen \<union> A \<subseteq> seen' \<union> A' \<Longrightarrow> pending E seen' A' st"
proof (induction st arbitrary: A A')
  case (Cons x st)
  obtain n d where x: "x = (n, d)" by force
  show ?case
  proof (cases d)
    case True
    then show ?thesis using Cons x by auto
  next
    case False
    have "seen \<union> insert n A \<subseteq> seen' \<union> insert n A'" using Cons.prems(2) by auto
    then show ?thesis using Cons.IH [of "insert n A" "insert n A'"] Cons.prems(1) x False by simp
  qed
qed simp

lemma push_waiting:
  "fold (\<lambda>succ st. if succ \<notin> A \<and> succ \<in> B then (succ, False) # st else st) xs st = map (\<lambda>x. (x, False)) (rev (filter (\<lambda>x. x \<notin> A \<and> x \<in> B) xs)) @ st"
  by (induction xs arbitrary: st) auto

lemma grounded_push: "grounded E r (map (\<lambda>x. (x, False)) ws @ st) \<longleftrightarrow> (\<forall>w \<in> set ws. w = r \<or> (\<exists>p. (p, w) \<in> E \<and> (p, True) \<in> set st)) \<and> grounded E r st"
  by (induction ws) auto

lemma pending_push: "pending E seen A (map (\<lambda>x. (x, False)) ws @ st) \<longleftrightarrow> pending E seen (set ws \<union> A) st"
  by (induction ws arbitrary: A) auto

lemma marks_push: "marks (map (\<lambda>x. (x, False)) ws @ st) = marks st"
  by (induction ws) auto

lemma later_snoc: "later post n p \<Longrightarrow> later (post @ [m]) n p" "n \<in> set post \<Longrightarrow> later (post @ [m]) n m"
  by (fastforce simp: later_def dest: split_list)+

lemma rpo_finish:
  assumes I: "rpo_inv E r ((n, True) # rest) seen post"
  shows "rpo_inv E r rest seen (post @ [n])"
proof -
  note D = rpo_invD [OF I]
  have n: "E `` {n} \<subseteq> seen" "n = r \<or> (\<exists>p. (p, n) \<in> E \<and> p \<in> set (marks rest))" using D(5,6) by (simp_all add: marks_mem)
  have "m = r \<or> (\<exists>p. (p, m) \<in> E \<and> (later (post @ [n]) m p \<or> p \<in> set (marks rest)))" if "m \<in> set (post @ [n])" for m
  proof (cases "m \<in> set post")
    case True
    then have "m = r \<or> (\<exists>p. (p, m) \<in> E \<and> (later post m p \<or> p = n \<or> p \<in> set (marks rest)))" using D(9) by auto
    then show ?thesis using later_snoc(1) [of post m _ n] later_snoc(2) [OF True, of n] by blast
  qed (use that n(2) in auto)
  moreover have "distinct ((post @ [n]) @ marks rest)" "seen = set ((post @ [n]) @ marks rest)" using D(1,2) by auto
  moreover have "\<forall>m \<in> set (post @ [n]). E `` {m} \<subseteq> seen" using D(7) n(1) by simp
  moreover have "fst ` set rest \<subseteq> E\<^sup>* `` {r}" "grounded E r rest" "pending E seen {} rest" "r \<in> seen \<or> (r, False) \<in> set rest"
    using D(3,5,6,8) by simp_all
  ultimately show ?thesis using D(4) unfolding rpo_inv_def by blast
qed

lemma rpo_skip:
  assumes I: "rpo_inv E r ((n, False) # rest) seen post" and n: "n \<in> seen"
  shows "rpo_inv E r rest seen post"
proof -
  note D = rpo_invD [OF I]
  have "pending E seen {} rest" using D(6) n pending_mono [of E seen "{n}" rest seen "{}"] by simp
  moreover have "fst ` set rest \<subseteq> E\<^sup>* `` {r}" "grounded E r rest" "marks ((n, False) # rest) = marks rest" "r \<in> seen \<or> (r, False) \<in> set rest"
    using D(3,5,8) n by auto
  ultimately show ?thesis using D(1,2,4,7,9) unfolding rpo_inv_def by metis
qed

lemma rpo_open:
  assumes I: "rpo_inv E r ((n, False) # rest) seen post" "n \<notin> seen" and ws: "set ws = E `` {n} - insert n seen"
  shows "rpo_inv E r (map (\<lambda>x. (x, False)) ws @ (n, True) # rest) (insert n seen) post"
proof -
  note D = rpo_invD [OF I(1)]
  have n: "(r, n) \<in> E\<^sup>*" using D(3) by simp
  have "pending E (insert n seen) (set ws) rest" using D(6) pending_mono [of E seen "{n}" rest "insert n seen" "set ws"] by auto
  then have "pending E (insert n seen) {} (map (\<lambda>x. (x, False)) ws @ (n, True) # rest)" using ws by (auto simp: pending_push)
  moreover have "grounded E r (map (\<lambda>x. (x, False)) ws @ (n, True) # rest)" using D(5) ws by (auto simp: grounded_push)
  moreover have "fst ` set (map (\<lambda>x. (x, False)) ws @ (n, True) # rest) \<subseteq> E\<^sup>* `` {r}"
    using D(3) n ws by (auto intro: rtrancl_into_rtrancl)
  moreover have "r \<in> insert n seen \<or> (r, False) \<in> set (map (\<lambda>x. (x, False)) ws @ (n, True) # rest)" using D(8) by auto
  moreover have "\<forall>m \<in> set post. E `` {m} \<subseteq> insert n seen" using D(7) by blast
  moreover have "\<forall>m \<in> set post. m = r \<or> (\<exists>p. (p, m) \<in> E \<and> (later post m p \<or> p \<in> set (n # marks rest)))" using D(9) by auto
  moreover have "distinct (post @ n # marks rest)" "insert n seen = set (post @ n # marks rest)" using D(1,2) I(2) by auto
  moreover have "insert n seen \<subseteq> E\<^sup>* `` {r}" using D(4) n by simp
  ultimately show ?thesis unfolding rpo_inv_def marks_push marks_simps by blast
qed

lemma rpo_loop_spec:
  assumes succs: "\<And>x. set (adj_list succs x) = E `` {x}" and fin: "finite (E\<^sup>* `` {r})"
    and "rpo_inv E r stack seen post"
  shows "\<exists>post'. rpo_loop succs (E\<^sup>* `` {r}) stack seen post = Some (rev post') \<and> rpo_inv E r [] (set post') post'"
  using assms(3)
proof (induction "card (E\<^sup>* `` {r} - seen)" arbitrary: stack seen post rule: less_induct)
  case less
  let ?V = "E\<^sup>* `` {r}"
  have "\<exists>post'. rpo_loop succs ?V st sn ps = Some (rev post') \<and> rpo_inv E r [] (set post') post'"
    if "rpo_inv E r st sn ps" "seen \<subseteq> sn" for st sn ps
    using that
  proof (induction st arbitrary: ps)
    case Nil
    then have "sn = set ps" by (simp add: rpo_inv_def)
    then show ?case using Nil by (intro exI [of _ ps]) (simp add: rpo_loop.simps)
  next
    case (Cons x rest)
    obtain n d where x: "x = (n, d)" by force
    show ?case
    proof (cases d)
      case True
      then show ?thesis using Cons x rpo_finish [of E r n rest sn ps] by (simp add: rpo_loop.simps [of succs _ "(n, True) # rest"])
    next
      case nd: False
      show ?thesis
      proof (cases "n \<in> sn")
        case True
        then show ?thesis using Cons x nd rpo_skip [of E r n rest sn ps] by (simp add: rpo_loop.simps [of succs _ "(n, False) # rest"])
      next
        case False
        have n: "n \<in> ?V" using rpo_invD(3) [OF Cons.prems(1)] x by auto
        let ?ws = "filter (\<lambda>x. x \<notin> insert n sn \<and> x \<in> ?V) (adj_list succs n)"
        have "set ?ws = E `` {n} - insert n sn" using succs [of n] n by (auto intro: rtrancl_into_rtrancl)
        then have inv: "rpo_inv E r (map (\<lambda>x. (x, False)) ?ws @ (n, True) # rest) (insert n sn) ps"
          using rpo_open [of E r n rest sn ps ?ws] Cons.prems(1) x nd False by simp
        have "?V - insert n sn \<subset> ?V - seen" using n False Cons.prems(2) by blast
        then have "card (?V - insert n sn) < card (?V - seen)" using fin by (meson finite_Diff psubset_card_mono)
        then obtain post' where "rpo_loop succs ?V (map (\<lambda>x. (x, False)) ?ws @ (n, True) # rest) (insert n sn) ps = Some (rev post')"
            "rpo_inv E r [] (set post') post'" using less.hyps inv by blast
        moreover have "rpo_loop succs ?V (x # rest) sn ps = rpo_loop succs ?V (map (\<lambda>x. (x, False)) ?ws @ (n, True) # rest) (insert n sn) ps"
          using n False nd unfolding x
          by (subst rpo_loop.simps) (simp only: list.case fst_conv snd_conv simp_thms if_False push_waiting adj_list_def rev_filter rev_rev_ident)
        ultimately show ?thesis by auto
      qed
    qed
  qed
  then show ?case using less.prems by blast
qed

text \<open>The order: every reachable node once, each after one of its predecessors, the entry apart.\<close>

definition rpo_list :: "(NodeId \<times> NodeId) list \<Rightarrow> NodeId \<Rightarrow> NodeId list" where
  "rpo_list es r = the (reverse_postorder (fst (build_adjacency es)) r ((set es)\<^sup>* `` {r}))"

lemma rpo_list_spec:
  "reverse_postorder (fst (build_adjacency es)) r ((set es)\<^sup>* `` {r}) = Some (rpo_list es r)"
  "distinct (rpo_list es r)" "set (rpo_list es r) = (set es)\<^sup>* `` {r}"
  "(r, v) \<in> (set es)\<^sup>* \<Longrightarrow> v \<noteq> r \<Longrightarrow> \<exists>p xs ys. (p, v) \<in> set es \<and> rpo_list es r = xs @ v # ys \<and> p \<in> set xs"
proof -
  let ?E = "set es"
  have succs: "set (adj_list (fst (build_adjacency es)) x) = ?E `` {x}" for x using adj_sets(1) [of es x] by auto
  have "rpo_inv ?E r [(r, False)] {} []" by (simp add: rpo_inv_def)
  from rpo_loop_spec [OF succs finite_reach this] obtain post where
    post: "reverse_postorder (fst (build_adjacency es)) r (?E\<^sup>* `` {r}) = Some (rev post)" "rpo_inv ?E r [] (set post) post"
    by (auto simp: reverse_postorder_def)
  note D = rpo_invD [OF post(2)]
  have eq: "rpo_list es r = rev post" using post(1) by (simp add: rpo_list_def)
  then show "reverse_postorder (fst (build_adjacency es)) r (?E\<^sup>* `` {r}) = Some (rpo_list es r)" using post(1) by simp
  show "distinct (rpo_list es r)" using D(1) eq by simp
  have "y \<in> set post" if "(r, y) \<in> ?E\<^sup>*" for y using that D(7,8) by (induction rule: rtrancl_induct) auto
  then show V: "set (rpo_list es r) = ?E\<^sup>* `` {r}" using D(4) eq by auto
  show "\<exists>p xs ys. (p, v) \<in> ?E \<and> rpo_list es r = xs @ v # ys \<and> p \<in> set xs" if v: "(r, v) \<in> ?E\<^sup>*" "v \<noteq> r"
  proof -
    have "v \<in> set post" using V eq v(1) by simp
    then obtain p where "(p, v) \<in> ?E" "later post v p" using D(9) v(2) by auto
    then obtain xs ys where "post = xs @ v # ys" "p \<in> set ys" by (auto simp: later_def)
    then have "rpo_list es r = rev ys @ v # rev xs" "p \<in> set (rev ys)" using eq by simp_all
    then show ?thesis using \<open>(p, v) \<in> ?E\<close> by blast
  qed
qed

lemma rpo_index_get: "distinct rpo \<Longrightarrow> hm_get (rpo_index rpo) v = Some i \<longleftrightarrow> i < length rpo \<and> rpo ! i = v"
proof (induction rpo arbitrary: i rule: rev_induct)
  case (snoc x xs)
  have "rpo_index (xs @ [x]) = hm_insert x (length xs) (rpo_index xs)" by (simp add: rpo_index_def enumerate_append_eq)
  then have get: "hm_get (rpo_index (xs @ [x])) v = (if v = x then Some (length xs) else hm_get (rpo_index xs) v)" by (simp add: hm_get_insert)
  have "x \<notin> set xs" "distinct xs" using snoc.prems by auto
  then show ?case unfolding get using snoc.IH [of i] by (cases "v = x") (auto simp: nth_append less_Suc_eq)
qed (simp add: rpo_index_def)

definition rpo_num :: "(NodeId \<times> NodeId) list \<Rightarrow> NodeId \<Rightarrow> NodeId \<Rightarrow> nat" where
  "rpo_num es r v = (case hm_get (rpo_index (rpo_list es r)) v of Some i \<Rightarrow> i | None \<Rightarrow> 0)"

lemma rpo_num_nth: "i < length (rpo_list es r) \<Longrightarrow> rpo_num es r (rpo_list es r ! i) = i"
  using rpo_index_get [OF rpo_list_spec(2) [of es r], of "rpo_list es r ! i" i] by (simp add: rpo_num_def)

lemma rpo_num_split: "rpo_list es r = xs @ v # ys \<Longrightarrow> rpo_num es r v = length xs"
  using rpo_num_nth [of "length xs" es r] by simp

definition rpo_par :: "(NodeId \<times> NodeId) list \<Rightarrow> NodeId \<Rightarrow> NodeId \<Rightarrow> NodeId" where
  "rpo_par es r v = (SOME p. (p, v) \<in> set es \<and> (r, p) \<in> (set es)\<^sup>* \<and> rpo_num es r p < rpo_num es r v)"

interpretation chk: rpo_graph "set es" r "rpo_num es r" "rpo_par es r" for es r
proof
  show "finite ((set es)\<^sup>* `` {r})" by (rule finite_reach)
  show "inj_on (rpo_num es r) ((set es)\<^sup>* `` {r})"
    unfolding rpo_list_spec(3) [of es r, symmetric] by (rule inj_onI) (metis in_set_conv_nth rpo_num_nth)
  show "(rpo_par es r v, v) \<in> set es \<and> (r, rpo_par es r v) \<in> (set es)\<^sup>* \<and> rpo_num es r (rpo_par es r v) < rpo_num es r v"
    if v: "(r, v) \<in> (set es)\<^sup>*" "v \<noteq> r" for v
  proof -
    obtain p xs ys where p: "(p, v) \<in> set es" "rpo_list es r = xs @ v # ys" "p \<in> set xs" using rpo_list_spec(4) [OF v] by blast
    then obtain us vs where us: "xs = us @ p # vs" by (meson split_list)
    have "rpo_num es r p < rpo_num es r v" using rpo_num_split [of es r us p "vs @ v # ys"] rpo_num_split [OF p(2)] p(2) us by simp
    moreover have "(r, p) \<in> (set es)\<^sup>*" using rpo_list_spec(3) [of es r] p(2,3) by auto
    ultimately show ?thesis unfolding rpo_par_def using p(1) by (intro someI [of "\<lambda>p. (p, v) \<in> set es \<and> (r, p) \<in> (set es)\<^sup>* \<and> rpo_num es r p < rpo_num es r v"]) blast
  qed
qed

section \<open>The passes\<close>

lemma intersect_meet:
  assumes "chk.ok es r (hm_get m)" "hm_get m a \<noteq> None" "hm_get m b \<noteq> None"
  shows "\<exists>c. intersect m (rpo_index (rpo_list es r)) a b = Some c \<and> hm_get m c \<noteq> None
    \<and> chk.chain r (hm_get m) c = chk.chain r (hm_get m) a \<inter> chk.chain r (hm_get m) b"
  using assms(2,3)
proof (induction "rpo_num es r a + rpo_num es r b" arbitrary: a b rule: less_induct)
  case less
  let ?f = "hm_get m" and ?idx = "rpo_index (rpo_list es r)"
  have ab: "a \<in> dom ?f" "b \<in> dom ?f" using less.prems by auto
  note unfold = intersect.simps [of m ?idx a b, folded rpo_num_def, unfolded Let_def]
  consider "rpo_num es r b < rpo_num es r a" | "rpo_num es r a < rpo_num es r b" | "rpo_num es r a = rpo_num es r b" by linarith
  then show ?case
  proof cases
    case 1
    from chk.meet_step [OF assms(1) ab 1] obtain u where u: "?f a = Some u" "u \<in> dom ?f" "rpo_num es r u < rpo_num es r a"
        "chk.chain r ?f a \<inter> chk.chain r ?f b = chk.chain r ?f u \<inter> chk.chain r ?f b" by blast
    then obtain c where "intersect m ?idx u b = Some c" "?f c \<noteq> None" "chk.chain r ?f c = chk.chain r ?f u \<inter> chk.chain r ?f b"
      using less.hyps [of u b] less.prems(2) by auto
    then show ?thesis using unfold 1 u(1,4) by simp
  next
    case 2
    from chk.meet_step [OF assms(1) ab(2,1) 2] obtain u where u: "?f b = Some u" "u \<in> dom ?f" "rpo_num es r u < rpo_num es r b"
        "chk.chain r ?f b \<inter> chk.chain r ?f a = chk.chain r ?f u \<inter> chk.chain r ?f a" by blast
    then obtain c where "intersect m ?idx a u = Some c" "?f c \<noteq> None" "chk.chain r ?f c = chk.chain r ?f a \<inter> chk.chain r ?f u"
      using less.hyps [of a u] less.prems(1) by auto
    then show ?thesis using unfold 2 u(1,4) by (simp add: Int_commute)
  next
    case 3
    then have "a = b" using chk.num_eq [of a es r b] chk.okD(2) [OF assms(1)] ab by blast
    then show ?thesis using unfold less.prems by simp
  qed
qed

lemma intersect_all_meet:
  assumes "chk.ok es r (hm_get m)" "hm_get m a \<noteq> None" "\<forall>p \<in> set ps. hm_get m p \<noteq> None"
  shows "\<exists>c. intersect_all m (rpo_index (rpo_list es r)) a ps = Some c \<and> hm_get m c \<noteq> None
    \<and> chk.chain r (hm_get m) c = (\<Inter>p \<in> insert a (set ps). chk.chain r (hm_get m) p)"
  using assms(2,3)
proof (induction ps arbitrary: a)
  case (Cons p ps)
  obtain c where c: "intersect m (rpo_index (rpo_list es r)) a p = Some c" "hm_get m c \<noteq> None"
      "chk.chain r (hm_get m) c = chk.chain r (hm_get m) a \<inter> chk.chain r (hm_get m) p"
    using intersect_meet [OF assms(1), of a p] Cons.prems by auto
  then obtain d where "intersect_all m (rpo_index (rpo_list es r)) c ps = Some d" "hm_get m d \<noteq> None"
      "chk.chain r (hm_get m) d = (\<Inter>q \<in> insert c (set ps). chk.chain r (hm_get m) q)"
    using Cons.IH [of c] Cons.prems(2) by auto
  then show ?case using c by (auto simp: Int_assoc)
qed simp

text \<open>What a visit of the node \<open>x\<close> does to the tree.\<close>

lemma chk_node_spec:
  assumes I: "chk.inv es r (rpo_num es r x) (hm_get m)" and x: "(r, x) \<in> (set es)\<^sup>*"
  shows "\<exists>m' c'. chk_node (snd (build_adjacency es)) r (rpo_index (rpo_list es r)) x (m, c) = Some (m', c')
    \<and> chk.inv es r (Suc (rpo_num es r x)) (hm_get m')
    \<and> (c' \<and> chk.weight es r (hm_get m') < chk.weight es r (hm_get m)
       \<or> c' = c \<and> m' = m \<and> (x = r \<or> chk.chain r (hm_get m) (the (hm_get m x)) = chk.common es r (hm_get m) x))"
proof (cases "x = r")
  case True
  then show ?thesis using chk.inv_root [of es r "hm_get m"] I by (simp add: chk_node_def)
next
  case False
  let ?f = "hm_get m" and ?idx = "rpo_index (rpo_list es r)"
  have ok: "chk.ok es r ?f" using I by (simp add: chk.inv_def)
  have xV: "x \<in> chk.V es r" using x by (simp add: chk.V_def)
  let ?ps = "filter (\<lambda>p. ?f p \<noteq> None) (adj_list (snd (build_adjacency es)) x)"
  have ps: "set ?ps = chk.preds_of es ?f x" using adj_sets(2) [of es x] by (auto simp: chk.preds_of_def)
  have "rpo_par es r x \<in> set ?ps" unfolding ps
    using chk.par_edge [OF x False] I by (auto simp: chk.inv_def chk.preds_of_def chk.V_def)
  then have "?ps \<noteq> []" by (metis empty_iff list.set(1))
  then obtain first rest where fr: "?ps = first # rest" by (meson list.exhaust)
  have all: "\<forall>p \<in> set ?ps. ?f p \<noteq> None" by simp
  then obtain l where l: "intersect_all m ?idx first rest = Some l" "?f l \<noteq> None" "chk.chain r ?f l = (\<Inter>p \<in> insert first (set rest). chk.chain r ?f p)"
    using intersect_all_meet [OF ok, of first rest] unfolding fr by auto
  have "insert first (set rest) = chk.preds_of es ?f x" using ps unfolding fr by simp
  then have common: "chk.chain r ?f l = chk.common es r ?f x" using l(3) by (simp add: chk.common_def)
  have ld: "l \<in> dom ?f" using l(2) by blast
  note visit = chk.visit [OF I xV False ld common]
  have node: "chk_node (snd (build_adjacency es)) r ?idx x (m, c) = Some (if ?f x \<noteq> Some l then (hm_insert x l m, True) else (m, c))"
  proof -
    have "(case hm_get (snd (build_adjacency es)) x of Some ps \<Rightarrow> filter (\<lambda>p. ?f p \<noteq> None) ps | None \<Rightarrow> []) = first # rest"
      using fr by (cases "hm_get (snd (build_adjacency es)) x") (simp_all only: adj_list_def option.case filter.simps)
    then show ?thesis using False l(1) unfolding chk_node_def fst_conv by simp
  qed
  show ?thesis
  proof (cases "?f x = Some l")
    case True
    then have "?f(x \<mapsto> l) = ?f" by auto
    then show ?thesis using node True visit(1) common by simp
  next
    case ne: False
    then show ?thesis using node visit(1) chk.weight_visit [OF I xV False ld common]
      by (intro exI [of _ "hm_insert x l m"] exI [of _ True]) (simp add: hm_get_insert)
  qed
qed

lemma chk_pass_spec:
  assumes "chk.inv es r i (hm_get m)" "i \<le> length (rpo_list es r)"
  shows "\<exists>m' c'. chk_pass (snd (build_adjacency es)) r (rpo_index (rpo_list es r)) (drop i (rpo_list es r)) (m, c) = Some (m', c')
    \<and> chk.inv es r (length (rpo_list es r)) (hm_get m')
    \<and> (c' \<and> chk.weight es r (hm_get m') < chk.weight es r (hm_get m)
       \<or> c' = c \<and> m' = m \<and> (\<forall>x \<in> set (drop i (rpo_list es r)). x = r \<or> chk.chain r (hm_get m) (the (hm_get m x)) = chk.common es r (hm_get m) x))"
  using assms
proof (induction "length (rpo_list es r) - i" arbitrary: i m c)
  case 0
  then show ?case by simp
next
  case (Suc k)
  let ?rpo = "rpo_list es r" and ?pass = "chk_pass (snd (build_adjacency es)) r (rpo_index (rpo_list es r))"
  have i: "i < length ?rpo" using Suc.hyps(2) by simp
  let ?x = "?rpo ! i"
  have dr: "drop i ?rpo = ?x # drop (Suc i) ?rpo" using i by (simp add: Cons_nth_drop_Suc)
  have "?x \<in> set ?rpo" using i by simp
  then have x: "(r, ?x) \<in> (set es)\<^sup>*" using rpo_list_spec(3) [of es r] by auto
  obtain m1 c1 where n: "chk_node (snd (build_adjacency es)) r (rpo_index ?rpo) ?x (m, c) = Some (m1, c1)"
      "chk.inv es r (Suc i) (hm_get m1)"
      "c1 \<and> chk.weight es r (hm_get m1) < chk.weight es r (hm_get m)
       \<or> c1 = c \<and> m1 = m \<and> (?x = r \<or> chk.chain r (hm_get m) (the (hm_get m ?x)) = chk.common es r (hm_get m) ?x)"
    using chk_node_spec [of es r ?x m c] x Suc.prems(1) rpo_num_nth [OF i] by auto
  have k: "k = length ?rpo - Suc i" using Suc.hyps(2) by simp
  obtain m2 c2 where p: "?pass (drop (Suc i) ?rpo) (m1, c1) = Some (m2, c2)" "chk.inv es r (length ?rpo) (hm_get m2)"
      "c2 \<and> chk.weight es r (hm_get m2) < chk.weight es r (hm_get m1)
       \<or> c2 = c1 \<and> m2 = m1 \<and> (\<forall>x \<in> set (drop (Suc i) ?rpo). x = r \<or> chk.chain r (hm_get m1) (the (hm_get m1 x)) = chk.common es r (hm_get m1) x)"
    using Suc.hyps(1) [OF k n(2) Suc_leI [OF i], of c1] by blast
  have "?pass (drop i ?rpo) (m, c) = Some (m2, c2)" using n(1) p(1) unfolding dr by simp
  then show ?case unfolding dr using p(2,3) n(3) by auto
qed

lemma chk_loop_spec:
  assumes "chk.inv es r 0 (hm_get m)"
  shows "\<exists>m'. chk_loop (snd (build_adjacency es)) r (rpo_index (rpo_list es r)) (rpo_list es r) m = Some m'
    \<and> dom (hm_get m') = (set es)\<^sup>* `` {r} \<and> chk.ok es r (hm_get m')
    \<and> (\<forall>v. (r, v) \<in> (set es)\<^sup>* \<longrightarrow> chk.chain r (hm_get m') v = {d. dom_of (set es) r d v})"
  using assms
proof (induction "chk.weight es r (hm_get m)" arbitrary: m rule: less_induct)
  case less
  let ?rpo = "rpo_list es r"
  obtain m1 c1 where p: "chk_pass (snd (build_adjacency es)) r (rpo_index ?rpo) ?rpo (m, False) = Some (m1, c1)"
      "chk.inv es r (length ?rpo) (hm_get m1)"
      "c1 \<and> chk.weight es r (hm_get m1) < chk.weight es r (hm_get m)
       \<or> \<not> c1 \<and> m1 = m \<and> (\<forall>x \<in> set ?rpo. x = r \<or> chk.chain r (hm_get m) (the (hm_get m x)) = chk.common es r (hm_get m) x)"
    using chk_pass_spec [OF less.prems, of False] by auto
  have "rpo_num es r v < length ?rpo" if "v \<in> chk.V es r" for v
  proof -
    have "v \<in> set ?rpo" using that rpo_list_spec(3) [of es r] by (simp add: chk.V_def)
    then show ?thesis using rpo_num_nth [of _ es r] by (metis in_set_conv_nth)
  qed
  then have V: "dom (hm_get m1) = chk.V es r" "chk.inv es r 0 (hm_get m1)" using chk.inv_restart [OF p(2)] by auto
  have unfold: "chk_loop (snd (build_adjacency es)) r (rpo_index ?rpo) ?rpo m
      = (if c1 then chk_loop (snd (build_adjacency es)) r (rpo_index ?rpo) ?rpo m1 else Some m1)"
    by (subst chk_loop.simps) (simp add: p(1))
  show ?case
  proof (cases c1)
    case True
    then show ?thesis using less.hyps [OF _ V(2)] p(3) unfold by simp
  next
    case False
    then have fix_all: "chk.chain r (hm_get m1) (the (hm_get m1 v)) = chk.common es r (hm_get m1) v" if "v \<in> chk.V es r" "v \<noteq> r" for v
      using p(3) that rpo_list_spec(3) [of es r] by (auto simp: chk.V_def)
    have "chk.chain r (hm_get m1) v = {d. dom_of (set es) r d v}" if "(r, v) \<in> (set es)\<^sup>*" for v
      using chk.fixed_point [OF V(2,1) fix_all, of v] that by (simp add: chk.V_def)
    then show ?thesis using unfold False V by (auto simp: chk.V_def chk.inv_def)
  qed
qed

lemma cfg_dominators_exact:
  obtains t where "compute_cfg_dominators (fst (build_adjacency es)) (snd (build_adjacency es)) r = Some t"
    "\<And>a b. cfg_dominates t a b = Some (a = b \<or> (r, b) \<in> (set es)\<^sup>* \<and> dom_of (set es) r a b)"
proof -
  have start: "hm_get [(r, r)] = [r \<mapsto> r]" by auto
  have "chk.inv es r 0 (hm_get [(r, r)])" unfolding start by (rule chk.inv_start)
  then obtain m where m: "chk_loop (snd (build_adjacency es)) r (rpo_index (rpo_list es r)) (rpo_list es r) [(r, r)] = Some m"
      "dom (hm_get m) = (set es)\<^sup>* `` {r}" "chk.ok es r (hm_get m)"
      "\<forall>v. (r, v) \<in> (set es)\<^sup>* \<longrightarrow> chk.chain r (hm_get m) v = {d. dom_of (set es) r d v}"
    using chk_loop_spec by blast
  let ?t = "\<lparr>cd_entry = r, cd_idom = hm_remove r m\<rparr>"
  have t: "compute_cfg_dominators (fst (build_adjacency es)) (snd (build_adjacency es)) r = Some ?t"
    using cfg_reachable_entry [of es r] rpo_list_spec(1) [of es r] m(1) by (auto simp: compute_cfg_dominators_def)
  have walk: "cfg_dominates_walk ?t a b = Some (a \<in> chk.chain r (hm_get m) b \<and> a \<noteq> b)" if "b \<in> dom (hm_get m)" for a b
    using that
  proof (induction "rpo_num es r b" arbitrary: b rule: less_induct)
    case less
    show ?case
    proof (cases "b = r")
      case True
      then show ?thesis by (simp add: cfg_dominates_walk.simps [of ?t a r] hm_get_remove)
    next
      case False
      obtain u where u: "hm_get m b = Some u" using less.prems by blast
      have ud: "u \<in> dom (hm_get m)" "rpo_num es r u < rpo_num es r b" using chk.okD(3) [OF m(3) u False] by auto
      have ch: "chk.chain r (hm_get m) b = insert b (chk.chain r (hm_get m) u)" using chk.chain_unfold [of "hm_get m" b u r] u False by simp
      have "b \<notin> chk.chain r (hm_get m) u" using chk.chain_num(2) [OF m(3) ud(1), of b] ud(2) by auto
      moreover have "u \<in> chk.chain r (hm_get m) u" by simp
      ultimately show ?thesis using less.hyps [OF ud(2,1)] ch u False
        by (subst cfg_dominates_walk.simps) (auto simp: hm_get_remove)
    qed
  qed
  have "cfg_dominates ?t a b = Some (a = b \<or> (r, b) \<in> (set es)\<^sup>* \<and> dom_of (set es) r a b)" for a b
  proof (cases "(r, b) \<in> (set es)\<^sup>*")
    case True
    then show ?thesis using walk [of b a] m(2,4) by (auto simp: cfg_dominates_def)
  next
    case False
    then have "hm_get m b = None" "b \<noteq> r" using m(2) by auto
    then show ?thesis using False by (auto simp: cfg_dominates_def cfg_dominates_walk.simps [of ?t a b] hm_get_remove)
  qed
  then show ?thesis using that t by blast
qed

section \<open>Back edges and bodies\<close>

definition back_edge :: "(NodeId \<times> NodeId) set \<Rightarrow> NodeId \<Rightarrow> NodeId \<Rightarrow> NodeId \<Rightarrow> bool" where
  "back_edge E r b h \<longleftrightarrow> (b, h) \<in> E \<and> (h = b \<or> (r, b) \<in> E\<^sup>* \<and> dom_of E r h b)"

lemma back_targets_exact:
  assumes "\<And>a b. cfg_dominates t a b = Some (D a b)"
  shows "back_targets t source ts = Some (map (Pair source) (filter (\<lambda>h. D h source) ts))"
  by (induction ts) (simp_all add: assms)

lemma find_back_edges_exact:
  assumes "\<And>a b. cfg_dominates t a b = Some (D a b)"
  shows "\<exists>bs. find_back_edges t m = Some bs \<and> set bs = {(b, h). \<exists>ts. (b, ts) \<in> set m \<and> h \<in> set ts \<and> D h b}"
proof (induction m)
  case (Cons x m)
  obtain source ts where x: "x = (source, ts)" by force
  then show ?case using Cons back_targets_exact [OF assms, of source ts] by auto
qed simp

lemma adj_mem: "(\<exists>ts. (b, ts) \<in> set (fst (build_adjacency es)) \<and> h \<in> set ts) \<longleftrightarrow> (b, h) \<in> set es"
proof -
  have "(\<exists>ts. (b, ts) \<in> set (fst (build_adjacency es)) \<and> h \<in> set ts) \<longleftrightarrow> h \<in> set (adj_list (fst (build_adjacency es)) b)"
    using hm_mem [OF adjacency_exact(3), of b _ es] by (cases "hm_get (fst (build_adjacency es)) b") (auto simp: adj_list_def)
  then show ?thesis using adj_sets(1) [of es b] by auto
qed

text \<open>The nodes that reach the source of the back edge without passing through the header; for a back edge from the header to itself the walk is not stopped.\<close>

definition loop_body :: "(NodeId \<times> NodeId) set \<Rightarrow> NodeId \<Rightarrow> NodeId \<Rightarrow> NodeId set" where
  "loop_body E b h = insert h {x. (x, b) \<in> {(y, z) \<in> E. z \<noteq> h \<or> h = b}\<^sup>*}"

lemma add_preds_spec:
  "\<exists>new. add_preds ps (body, st) = (body \<union> set ps, new @ st) \<and> set new = set ps - body \<and> distinct new"
proof (induction ps arbitrary: body st)
  case (Cons p ps)
  show ?case
  proof (cases "p \<in> body")
    case True
    then show ?thesis using Cons.IH [of body st] by auto
  next
    case False
    obtain new where "add_preds ps (insert p body, p # st) = (insert p body \<union> set ps, new @ p # st)" "set new = set ps - insert p body" "distinct new"
      using Cons.IH [of "insert p body" "p # st"] by blast
    then show ?thesis using False by (intro exI [of _ "new @ [p]"]) auto
  qed
qed simp

definition body_inv :: "(NodeId \<times> NodeId) set \<Rightarrow> NodeId \<Rightarrow> NodeId \<Rightarrow> NodeId list \<Rightarrow> NodeId set \<Rightarrow> bool" where
  "body_inv E b h stack body \<longleftrightarrow> {h, b} \<subseteq> body \<and> body \<subseteq> loop_body E b h \<and> set stack \<subseteq> body - (if h = b then {} else {h})
     \<and> (\<forall>x \<in> body - set stack. x \<noteq> h \<or> h = b \<longrightarrow> {y. (y, x) \<in> E} \<subseteq> body)"

lemma body_step:
  assumes "body_inv E b h (x # rest) body" "set new = {y. (y, x) \<in> E} - body"
  shows "body_inv E b h (new @ rest) (body \<union> {y. (y, x) \<in> E})"
proof -
  let ?R = "{(y, z) \<in> E. z \<noteq> h \<or> h = b}"
  have xh: "x \<noteq> h \<or> h = b" "x \<in> body" using assms(1) by (auto simp: body_inv_def split: if_splits)
  then have "(x, b) \<in> ?R\<^sup>*" using assms(1) by (auto simp: body_inv_def loop_body_def)
  moreover have "(y, x) \<in> ?R" if "(y, x) \<in> E" for y using that xh(1) by simp
  ultimately have "{y. (y, x) \<in> E} \<subseteq> loop_body E b h" unfolding loop_body_def by (blast intro: converse_rtrancl_into_rtrancl)
  then show ?thesis using assms unfolding body_inv_def by auto
qed

lemma body_done: "body_inv E b h [] body \<Longrightarrow> body = loop_body E b h"
proof -
  assume I: "body_inv E b h [] body"
  have "x \<in> body" if "(x, b) \<in> {(y, z) \<in> E. z \<noteq> h \<or> h = b}\<^sup>*" for x
    using that I by (induction rule: converse_rtrancl_induct) (auto simp: body_inv_def)
  then show ?thesis using I by (auto simp: body_inv_def loop_body_def)
qed

lemma body_loop_exact:
  assumes preds: "\<And>x. set (adj_list cf_preds x) = {y. (y, x) \<in> E}" and fin: "finite E" and "body_inv E b h stack body"
  shows "body_loop cf_preds stack body = Some (loop_body E b h)"
  using assms(3)
proof (induction "2 * card (fst ` E - body) + length stack" arbitrary: stack body rule: less_induct)
  case less
  show ?case
  proof (cases stack)
    case Nil
    then show ?thesis using body_done [of E b h body] less.prems by (simp add: body_loop.simps)
  next
    case (Cons x rest)
    let ?P = "{y. (y, x) \<in> E}"
    obtain new where new: "add_preds (adj_list cf_preds x) (body, rest) = (body \<union> ?P, new @ rest)" "set new = ?P - body" "distinct new"
      using add_preds_spec [of "adj_list cf_preds x" body rest] preds by auto
    have "length new = card (?P - body)" using new(2,3) distinct_card by metis
    moreover have "card (fst ` E - body) = card (fst ` E - (body \<union> ?P)) + card (?P - body)"
    proof -
      have "fst ` E - body = (fst ` E - (body \<union> ?P)) \<union> (?P - body)" by force
      moreover have "?P - body \<subseteq> fst ` E" by force
      then have "finite (?P - body)" using fin by (meson finite_imageI finite_subset)
      ultimately show ?thesis using fin card_Un_disjoint [of "fst ` E - (body \<union> ?P)" "?P - body"] by auto
    qed
    ultimately have "2 * card (fst ` E - (body \<union> ?P)) + length (new @ rest) < 2 * card (fst ` E - body) + length stack" using Cons by simp
    moreover have "body_inv E b h (new @ rest) (body \<union> ?P)" using body_step [OF _ new(2)] less.prems Cons by simp
    ultimately have "body_loop cf_preds (new @ rest) (body \<union> ?P) = Some (loop_body E b h)" by (rule less.hyps)
    then show ?thesis using new(1) Cons by (simp add: body_loop.simps [of cf_preds "x # rest"] adj_list_def)
  qed
qed

definition exits_of :: "(NodeId \<times> NodeId) set \<Rightarrow> NodeId set \<Rightarrow> NodeId set" where
  "exits_of E B = {x \<in> B. \<exists>y. (x, y) \<in> E \<and> y \<notin> B}"

definition loop_of :: "(NodeId \<times> NodeId) set \<Rightarrow> NodeId \<times> NodeId \<Rightarrow> NaturalLoop" where
  "loop_of E e = (case e of (b, h) \<Rightarrow> \<lparr>nl_header = h, nl_backedge_source = b, nl_body = loop_body E b h,
     nl_exits = exits_of E (loop_body E b h), nl_depth = 0\<rparr>)"

abbreviation loop_edge :: "NaturalLoop \<Rightarrow> NodeId \<times> NodeId" where
  "loop_edge l \<equiv> (nl_backedge_source l, nl_header l)"

lemma loop_exits_exact: "loop_exits (fst (build_adjacency es)) B = exits_of (set es) B"
proof -
  have "(case hm_get (fst (build_adjacency es)) x of Some succs \<Rightarrow> list_ex (\<lambda>y. y \<notin> B) succs | None \<Rightarrow> False) \<longleftrightarrow> (\<exists>y. (x, y) \<in> set es \<and> y \<notin> B)" for x
    using adj_sets(1) [of es x] by (cases "hm_get (fst (build_adjacency es)) x") (auto simp: adj_list_def list_ex_iff)
  then show ?thesis by (simp add: loop_exits_def exits_of_def)
qed

lemma collect_loops_exact:
  assumes "\<forall>l \<in> set acc. l = loop_of (set es) (loop_edge l)" "distinct (map loop_edge acc)"
  shows "\<exists>loops. collect_loops (fst (build_adjacency es)) (snd (build_adjacency es)) bs acc = Some loops
    \<and> set loops = set acc \<union> loop_of (set es) ` set bs \<and> distinct (map loop_edge loops)"
  using assms
proof (induction bs arbitrary: acc)
  case (Cons e bs)
  obtain b h where e: "e = (b, h)" by force
  show ?case
  proof (cases "(b, h) \<in> loop_edge ` set acc")
    case True
    then have "loop_of (set es) e \<in> set acc" using Cons.prems(1) e by auto
    moreover have "list_ex (\<lambda>l. nl_header l = h \<and> nl_backedge_source l = b) acc" using True by (auto simp: list_ex_iff)
    ultimately show ?thesis using Cons.IH [OF Cons.prems] e by (auto simp: insert_absorb)
  next
    case False
    have "body_inv (set es) b h [b] (insert b (insert h {}))"
      by (auto simp: body_inv_def loop_body_def)
    then have "body_loop (snd (build_adjacency es)) [b] (insert b (insert h {})) = Some (loop_body (set es) b h)"
      using body_loop_exact [OF adj_sets(2) [of es]] by simp
    moreover have "\<not> list_ex (\<lambda>l. nl_header l = h \<and> nl_backedge_source l = b) acc" using False by (auto simp: list_ex_iff)
    ultimately have "collect_loops (fst (build_adjacency es)) (snd (build_adjacency es)) (e # bs) acc
        = collect_loops (fst (build_adjacency es)) (snd (build_adjacency es)) bs (acc @ [loop_of (set es) e])"
      using e by (simp add: natural_loop_new_def loop_of_def loop_exits_exact)
    moreover have "loop_edge (loop_of (set es) e) = e" using e by (simp add: loop_of_def)
    then have "\<forall>l \<in> set (acc @ [loop_of (set es) e]). l = loop_of (set es) (loop_edge l)" "distinct (map loop_edge (acc @ [loop_of (set es) e]))"
      using Cons.prems False e by auto
    ultimately show ?thesis using Cons.IH [of "acc @ [loop_of (set es) e]"] by auto
  qed
qed auto

lemma natural_loops_on:
  "\<exists>loops. detect_natural_loops_on es (r # rest) = Some loops \<and> distinct (map loop_edge loops)
    \<and> set loops = loop_of (set es) ` {(b, h). back_edge (set es) r b h}"
proof -
  obtain t where t: "compute_cfg_dominators (fst (build_adjacency es)) (snd (build_adjacency es)) r = Some t"
      "\<And>a b. cfg_dominates t a b = Some (a = b \<or> (r, b) \<in> (set es)\<^sup>* \<and> dom_of (set es) r a b)"
    using cfg_dominators_exact [of es r] by metis
  obtain bs where bs: "find_back_edges t (fst (build_adjacency es)) = Some bs"
      "set bs = {(b, h). \<exists>ts. (b, ts) \<in> set (fst (build_adjacency es)) \<and> h \<in> set ts \<and> (h = b \<or> (r, b) \<in> (set es)\<^sup>* \<and> dom_of (set es) r h b)}"
    using find_back_edges_exact [OF t(2)] by blast
  have "set bs = {(b, h). back_edge (set es) r b h}" unfolding bs(2) back_edge_def using adj_mem [of _ es] by blast
  then show ?thesis using collect_loops_exact [of "[]" es bs] t(1) bs(1)
    by (cases "build_adjacency es") (auto simp: detect_natural_loops_on_def)
qed

section \<open>The loops of a graph\<close>


lemma header_dominates:
  assumes "back_edge E r b h" "b \<noteq> h" "x \<in> loop_body E b h"
  shows "dom_of E r h x"
proof (cases "x = h")
  case False
  have b: "dom_of E r h b" using assms(1,2) by (auto simp: back_edge_def)
  have "(x, b) \<in> {(y, z) \<in> E. z \<noteq> h \<or> h = b}\<^sup>*" using assms(3) False by (auto simp: loop_body_def)
  then have "\<exists>ys. walks E x ys b \<and> h \<notin> set ys - {x}"
  proof (induction rule: converse_rtrancl_induct)
    case base
    show ?case by (rule exI [of _ "[b]"]) simp
  next
    case (step y z)
    then obtain ys where ys: "walks E z ys b" "h \<notin> set ys - {z}" by blast
    have "walks E y [y, z] z" using step(1) by (simp add: walks_Cons)
    then obtain zs where "walks E y zs b" "set zs = set [y, z] \<union> set ys" using walks_join [OF _ ys(1)] by blast
    then show ?case using step(1) ys(2) assms(2) by (intro exI [of _ zs]) auto
  qed
  then obtain ys where ys: "walks E x ys b" "h \<notin> set ys" using False by auto
  show ?thesis unfolding dom_of_def
  proof (intro allI impI)
    fix xs assume "walks E r xs x"
    then obtain zs where "walks E r zs b" "set zs = set xs \<union> set ys" using walks_join [OF _ ys(1)] by blast
    then show "h \<in> set xs" using b ys(2) by (auto simp: dom_of_def)
  qed
qed (simp add: dom_refl)

text \<open>
  A loop reported as infinite is never left: whatever edges execution follows from the header, it stays in the body of the loop; and in every
  loop whose back edge is not an edge of the header to itself, the header dominates every node of the body.
\<close>

theorem infinite_loops_sound:
  assumes "entry_nodes s = r # rest" "detect_natural_loops s = Some loops" "detect_infinite_loops s = Some hs"
  shows "(\<forall>h \<in> set hs. \<exists>l \<in> set loops. nl_header l = h \<and> (set (cf_edges s))\<^sup>* `` {h} \<subseteq> nl_body l)
    \<and> (\<forall>l \<in> set loops. nl_header l \<noteq> nl_backedge_source l \<longrightarrow> (\<forall>x \<in> nl_body l. dom_of (set (cf_edges s)) r (nl_header l) x))"
proof -
  let ?E = "set (cf_edges s)"
  have loops: "set loops = loop_of ?E ` {(b, h). back_edge ?E r b h}"
    using natural_loops_on [of "cf_edges s" r rest] assms(1,2) by (simp add: detect_natural_loops_def)
  have "\<exists>l \<in> set loops. nl_header l = h \<and> ?E\<^sup>* `` {h} \<subseteq> nl_body l" if h: "h \<in> set hs" for h
  proof -
    obtain l where l: "l \<in> set loops" "nl_header l = h" "nl_exits l = {}" using h assms(2,3) by (auto simp: detect_infinite_loops_def has_exit_def)
    then obtain b where b: "l = loop_of ?E (b, h)" using loops by (auto simp: loop_of_def)
    have "y \<in> nl_body l" if "(h, y) \<in> ?E\<^sup>*" for y
      using that
    proof (induction rule: rtrancl_induct)
      case base
      show ?case using b by (simp add: loop_of_def loop_body_def)
    next
      case (step y z)
      then show ?case using l(3) b by (auto simp: loop_of_def exits_of_def)
    qed
    then show ?thesis using l by blast
  qed
  moreover have "dom_of ?E r (nl_header l) x" if "l \<in> set loops" "nl_header l \<noteq> nl_backedge_source l" "x \<in> nl_body l" for l x
    using that loops header_dominates [of ?E r "nl_backedge_source l" "nl_header l" x] by (auto simp: loop_of_def)
  ultimately show ?thesis by blast
qed

section \<open>Concrete graphs\<close>

declare cfg_reachable.simps [code] rpo_loop.simps [code] intersect.simps [code] chk_loop.simps [code]
  cfg_dominates_walk.simps [code] body_loop.simps [code]

definition cfg_scg :: "nat \<Rightarrow> (NodeId \<times> NodeId) list \<Rightarrow> SCG" where
  "cfg_scg n es = fst (the (scg_run (OpAddNode NtControl (Control CkFunctionEntry None) here
     # replicate n (OpAddNode NtPhantom (PhantomNode ''block'') here) @ map (\<lambda>(a, b). OpAddEdge a b ControlFlow) es) scg_new))"

text \<open>A node that jumps to itself: its loop contains the nodes before it, which no path from it reaches.\<close>

lemma self_loop_body:
  "map_option (map nl_body) (detect_natural_loops (cfg_scg 2 [(0, 1), (1, 1), (1, 2)])) = Some [{0, 1}]"
  by code_simp

text \<open>A loop with two jumps to its header gives two loops that are parents of each other: the nesting has no root.\<close>

lemma nesting_cycle:
  "map_option (\<lambda>t. (ln_parent t, length (root_loops t))) (detect_loop_nesting (cfg_scg 4 [(0, 1), (1, 2), (2, 1), (1, 3), (3, 1), (1, 4)]))
    = Some ([(0, Some 1), (1, Some 0)], 0)"
  by code_simp

text \<open>Three nested loops, the innermost first: its depth is computed before the depth of the loop around it.\<close>

lemma nesting_depth_order:
  "map_option (\<lambda>t. map (\<lambda>l. (nl_header l, nl_depth l)) (ln_loops t))
     (detect_loop_nesting (cfg_scg 7 [(4, 3), (5, 2), (6, 1), (0, 1), (1, 2), (2, 3), (3, 4), (4, 5), (5, 6), (6, 7)]))
    = Some [(3, 1), (2, 1), (1, 0)]"
  by code_simp

text \<open>A system call in a loop counts as loop-invariant.\<close>

lemma syscall_hoisted:
  "(let s = fst (the (scg_run [OpAddNode NtSyscall (Syscall 1 None [''buf'']) here] scg_new))
    in loop_invariant_nodes (\<lambda>_. [0]) ((natural_loop_new 0 0)\<lparr>nl_body := {0}\<rparr>) s) = [0]"
  by code_simp

theorem infinite_loops_sound_witness:
  "\<exists>l :: NaturalLoop. nl_header l = 1 \<and> (set (cf_edges (cfg_scg 3 [(0, 1), (1, 2), (2, 1), (0, 3)])))\<^sup>* `` {1} \<subseteq> nl_body l"
proof -
  let ?s = "cfg_scg 3 [(0, 1), (1, 2), (2, 1), (0, 3)]"
  have run: "entry_nodes ?s = [0]" "detect_infinite_loops ?s = Some [1]" by code_simp+
  obtain loops where "detect_natural_loops ?s = Some loops" using run(2) by (auto simp: detect_infinite_loops_def)
  from infinite_loops_sound [OF run(1) this run(2)]
  have "\<exists>l \<in> set loops. nl_header l = 1 \<and> (set (cf_edges ?s))\<^sup>* `` {1} \<subseteq> nl_body l" by simp
  then show ?thesis by blast
qed

end
