(* ===== verification/Scg_Callgraph.thy ===== *)
theory Scg_Callgraph
  imports Scg_Loops
begin

text \<open>
  The call graph of an SCG (\<^verbatim>\<open>scg/src/callgraph.rs\<close>): its construction from the call edges, the search for the enclosing
  function, the test for recursion and the bottom-up order of the functions. The functions form a \<^verbatim>\<open>HashSet\<close>, whose iteration
  order is a parameter of the bottom-up order.
\<close>

section \<open>The enclosing function\<close>

type_synonym FunctionId = NodeId

definition is_kind :: "ControlKind \<Rightarrow> NodeData \<Rightarrow> bool" where
  "is_kind kind node \<longleftrightarrow> nd_node_type node = NtControl \<and> control_kind (nd_payload node) = Some kind"

definition is_entry :: "SCG \<Rightarrow> NodeId \<Rightarrow> bool" where
  "is_entry s current = (case get_node s current of Some node \<Rightarrow> is_kind CkFunctionEntry node | None \<Rightarrow> False)"

definition visit_pred :: "NodeId \<Rightarrow> NodeId set \<times> NodeId list \<Rightarrow> NodeId set \<times> NodeId list" where
  "visit_pred pred st = (if pred \<in> fst st then st else (insert pred (fst st), snd st @ [pred]))"

definition preds_of :: "SCG \<Rightarrow> NodeId \<Rightarrow> NodeId list" where
  "preds_of s current = (case predecessors s current of Some preds \<Rightarrow> preds | None \<Rightarrow> [])"

lemma visit_preds_measure:
  assumes "set preds \<subseteq> T" "finite T"
  shows "card (T - fst (fold visit_pred preds st)) + length (snd (fold visit_pred preds st)) = card (T - fst st) + length (snd st)
    \<and> length (snd st) \<le> length (snd (fold visit_pred preds st))"
  using assms(1)
proof (induction preds arbitrary: st)
  case (Cons p preds)
  have "Suc (card (T - insert p (fst st))) = card (T - fst st)" if "p \<notin> fst st"
  proof -
    have "T - insert p (fst st) = T - fst st - {p}" by blast
    then show ?thesis using card_Suc_Diff1 [of "T - fst st" p] Cons.prems that assms(2) by simp
  qed
  then show ?case using Cons.IH [of "visit_pred p st"] Cons.prems by (auto simp: visit_pred_def)
qed simp

lemma preds_of_bound: "set (preds_of s current) \<subseteq> snd ` set (node_index_to_id s)"
  by (force simp: preds_of_def predecessors_def set_map_filter dest: map_of_SomeD split: option.splits)

function enclosing_search :: "SCG \<Rightarrow> NodeId set \<Rightarrow> NodeId list \<Rightarrow> NodeId option" where
  "enclosing_search s seen [] = None"
| "enclosing_search s seen (current # queue) =
     (if is_entry s current then Some current
      else case fold visit_pred (preds_of s current) (seen, queue) of (seen', queue') \<Rightarrow> enclosing_search s seen' queue')"
  by pat_completeness auto
termination
proof (relation "measure (\<lambda>(s, seen, queue). 2 * card (snd ` set (node_index_to_id s) - seen) + length queue)")
  fix s seen current queue seen' queue'
  assume "(seen', queue') = fold visit_pred (preds_of s current) (seen, queue)"
  then have "fold visit_pred (preds_of s current) (seen, queue) = (seen', queue')" by simp
  then show "((s, seen', queue'), s, seen, current # queue)
      \<in> measure (\<lambda>(s, seen, queue). 2 * card (snd ` set (node_index_to_id s) - seen) + length queue)"
    using visit_preds_measure [OF preds_of_bound [of s current] finite_imageI [OF finite_set], of "(seen, queue)"] by simp
qed simp

definition find_enclosing_function :: "SCG \<Rightarrow> NodeId \<Rightarrow> NodeId option" where
  "find_enclosing_function s node_id = enclosing_search s {node_id} [node_id]"

section \<open>Construction\<close>

record CallGraphEdge =
  cge_caller :: FunctionId
  cge_callee :: FunctionId
  cge_source :: NodeId
  cge_region :: RegionId

record CallGraph =
  cg_functions :: "FunctionId set"
  cg_call_edges :: "(FunctionId, CallGraphEdge list) hmap"
  cg_reverse_edges :: "(FunctionId, FunctionId list) hmap"
  cg_function_returns :: "(FunctionId, NodeId) hmap"
  cg_function_labels :: "(FunctionId, string) hmap"

definition cg_empty :: CallGraph where
  "cg_empty = \<lparr>cg_functions = {}, cg_call_edges = [], cg_reverse_edges = [], cg_function_returns = [], cg_function_labels = []\<rparr>"

fun ctrl_label :: "NodePayload \<Rightarrow> string option" where
  "ctrl_label (Control _ label) = label"
| "ctrl_label _ = None"

definition register_entry :: "NodeData \<Rightarrow> CallGraph \<Rightarrow> CallGraph" where
  "register_entry node cg =
     (if is_kind CkFunctionEntry node then
        (let cg1 = cg\<lparr>cg_functions := insert (nd_id node) (cg_functions cg)\<rparr> in
         case ctrl_label (nd_payload node) of
           Some label \<Rightarrow> cg1\<lparr>cg_function_labels := hm_insert (nd_id node) label (cg_function_labels cg1)\<rparr>
         | None \<Rightarrow> cg1)
      else cg)"

definition register_return :: "SCG \<Rightarrow> NodeData \<Rightarrow> CallGraph \<Rightarrow> CallGraph" where
  "register_return s node cg =
     (if is_kind CkFunctionReturn node then
        (case find_enclosing_function s (nd_id node) of
           Some entry_id \<Rightarrow> cg\<lparr>cg_function_returns := hm_insert entry_id (nd_id node) (cg_function_returns cg)\<rparr>
         | None \<Rightarrow> cg)
      else cg)"

definition register_call :: "SCG \<Rightarrow> EdgeData \<Rightarrow> CallGraph \<Rightarrow> CallGraph" where
  "register_call s edge cg =
     (case ed_kind edge of
        Call from_node to_node caller_region \<Rightarrow>
          (case find_enclosing_function s from_node of
             Some entry_id \<Rightarrow>
               (let cge = \<lparr>cge_caller = entry_id, cge_callee = to_node, cge_source = from_node, cge_region = caller_region\<rparr> in
                cg\<lparr>cg_call_edges := push_at entry_id cge (cg_call_edges cg),
                   cg_reverse_edges := push_at to_node entry_id (cg_reverse_edges cg),
                   cg_functions := insert to_node (insert entry_id (cg_functions cg))\<rparr>)
           | None \<Rightarrow> cg)
      | _ \<Rightarrow> cg)"

definition build :: "SCG \<Rightarrow> CallGraph" where
  "build s = fold (register_call s) (edges s) (fold (register_return s) (nodes s) (fold register_entry (nodes s) cg_empty))"

section \<open>Queries\<close>

definition function_count :: "CallGraph \<Rightarrow> nat" where
  "function_count cg = card (cg_functions cg)"

definition callees :: "CallGraph \<Rightarrow> FunctionId \<Rightarrow> CallGraphEdge list" where
  "callees cg fid = (case hm_get (cg_call_edges cg) fid of Some v \<Rightarrow> v | None \<Rightarrow> [])"

definition callers :: "CallGraph \<Rightarrow> FunctionId \<Rightarrow> FunctionId list" where
  "callers cg fid = (case hm_get (cg_reverse_edges cg) fid of Some v \<Rightarrow> v | None \<Rightarrow> [])"

definition function_return :: "CallGraph \<Rightarrow> FunctionId \<Rightarrow> NodeId option" where
  "function_return cg fid = hm_get (cg_function_returns cg) fid"

definition function_label :: "CallGraph \<Rightarrow> FunctionId \<Rightarrow> string option" where
  "function_label cg fid = hm_get (cg_function_labels cg) fid"

text \<open>The head of the list is the top of the stack.\<close>

function recursion_search :: "CallGraph \<Rightarrow> FunctionId \<Rightarrow> FunctionId set \<Rightarrow> FunctionId list \<Rightarrow> bool" where
  "recursion_search cg fid seen [] = False"
| "recursion_search cg fid seen (current # stack) =
     (if current = fid \<and> seen \<noteq> {} then True
      else if current \<in> seen then recursion_search cg fid seen stack
      else recursion_search cg fid (insert current seen) (rev (map cge_callee (callees cg current)) @ stack))"
  by pat_completeness auto
termination
proof (relation "measures [\<lambda>(cg, fid, seen, stack). card (fst ` set (cg_call_edges cg) - seen), \<lambda>(cg, fid, seen, stack). length stack]")
  fix cg :: CallGraph and fid seen current stack
  assume new: "current \<notin> (seen :: FunctionId set)"
  let ?K = "fst ` set (cg_call_edges cg)"
  have fin: "finite (?K - seen)" by simp
  show "((cg, fid, insert current seen, rev (map cge_callee (callees cg current)) @ stack), cg, fid, seen, current # stack)
    \<in> measures [\<lambda>(cg, fid, seen, stack). card (fst ` set (cg_call_edges cg) - seen), \<lambda>(cg, fid, seen, stack). length stack]"
  proof (cases "current \<in> ?K")
    case True
    then have "?K - insert current seen \<subset> ?K - seen" using new by blast
    then show ?thesis using psubset_card_mono [OF fin] by simp
  next
    case False
    then have "?K - insert current seen = ?K - seen" "callees cg current = []"
      by (auto simp: callees_def map_of_eq_None_iff split: option.splits dest!: map_of_SomeD)
        (metis fst_conv image_eqI)
    then show ?thesis by simp
  qed
qed simp_all

definition is_recursive :: "CallGraph \<Rightarrow> FunctionId \<Rightarrow> bool" where
  "is_recursive cg fid = recursion_search cg fid {} [fid]"

text \<open>
  The depth-first search of the bottom-up order, on the state (\<^verbatim>\<open>visited\<close>, \<^verbatim>\<open>in_stack\<close>, \<^verbatim>\<open>result\<close>). The first argument bounds
  the depth of the recursion; \<^verbatim>\<open>function_count\<close> is enough.
\<close>

type_synonym dfs_state = "FunctionId set \<times> FunctionId set \<times> FunctionId list"

fun try_each :: "('a \<Rightarrow> 's \<Rightarrow> 's option) \<Rightarrow> 'a list \<Rightarrow> 's \<Rightarrow> 's option" where
  "try_each f [] st = Some st"
| "try_each f (x # xs) st = do { st1 \<leftarrow> f x st; try_each f xs st1 }"

primrec dfs_postorder :: "nat \<Rightarrow> CallGraph \<Rightarrow> FunctionId \<Rightarrow> dfs_state \<Rightarrow> dfs_state option" where
  "dfs_postorder 0 cg fid st = None"
| "dfs_postorder (Suc depth) cg fid st =
     (case st of (seen, in_stack, result) \<Rightarrow>
        if fid \<in> seen then Some st
        else if fid \<in> in_stack then Some st
        else do {
          st1 \<leftarrow> try_each (\<lambda>edge. dfs_postorder depth cg (cge_callee edge)) (callees cg fid) (seen, insert fid in_stack, result);
          (case st1 of (seen1, in_stack1, result1) \<Rightarrow> Some (insert fid seen1, in_stack1 - {fid}, result1 @ [fid])) })"

definition bottom_up_order :: "FunctionId list \<Rightarrow> CallGraph \<Rightarrow> FunctionId list option" where
  "bottom_up_order order cg =
     map_option (\<lambda>(seen, in_stack, result). result)
       (try_each (dfs_postorder (Suc (function_count cg)) cg) order ({}, {}, []))"


section \<open>The enclosing function is an entry that leads to the node\<close>

lemma visit_preds_spec:
  "fst (fold visit_pred preds st) = fst st \<union> set preds" "set (snd (fold visit_pred preds st)) = set (snd st) \<union> (set preds - fst st)"
proof (induction preds arbitrary: st)
  case (Cons p preds)
  { case 1 show ?case using Cons(1) [of "visit_pred p st"] by (auto simp: visit_pred_def) }
  { case 2 show ?case using Cons(2) [of "visit_pred p st"] by (auto simp: visit_pred_def) }
qed simp_all

definition enclosing_inv :: "SCG \<Rightarrow> NodeId \<Rightarrow> NodeId set \<Rightarrow> NodeId list \<Rightarrow> bool" where
  "enclosing_inv s i seen queue \<longleftrightarrow> i \<in> seen \<and> set queue \<subseteq> seen \<and> (\<forall>v \<in> seen. (v, i) \<in> (id_rel s)\<^sup>*)
     \<and> (\<forall>v \<in> seen - set queue. \<not> is_entry s v \<and> (\<forall>u. (u, v) \<in> id_rel s \<longrightarrow> u \<in> seen))"

definition found_entry :: "SCG \<Rightarrow> NodeId \<Rightarrow> NodeId option \<Rightarrow> bool" where
  "found_entry s i res \<longleftrightarrow> (case res of
       Some f \<Rightarrow> is_entry s f \<and> (f, i) \<in> (id_rel s)\<^sup>*
     | None \<Rightarrow> \<forall>f. (f, i) \<in> (id_rel s)\<^sup>* \<longrightarrow> \<not> is_entry s f)"

lemma preds_of_set:
  assumes "scg_ok s"
  shows "set (preds_of s i) = {j. (j, i) \<in> id_rel s}"
proof (cases "get_node s i")
  case None
  then have "(j, i) \<notin> id_rel s" for j using id_rel_image [OF assms] slots_rel [OF assms] name_image [OF assms] by blast
  then show ?thesis using None neighbour_sets(2) [OF assms, of i] by (auto simp: preds_of_def)
next
  case (Some d)
  then show ?thesis using neighbour_sets(2) [OF assms, of i] by (auto simp: preds_of_def)
qed

lemma enclosing_search_correct:
  assumes "scg_ok s" "enclosing_inv s i seen queue"
  shows "found_entry s i (enclosing_search s seen queue)"
  using assms
proof (induction s seen queue rule: enclosing_search.induct)
  case (1 s seen)
  note inv = this
  have closed: "u \<in> seen" if "(u, v) \<in> id_rel s" "v \<in> seen" for u v using inv(2) that by (simp add: enclosing_inv_def)
  have "f \<in> seen" if "(f, i) \<in> (id_rel s)\<^sup>*" for f
    using that
  proof (induction rule: converse_rtrancl_induct)
    case base
    show ?case using inv(2) by (simp add: enclosing_inv_def)
  qed (rule closed)
  moreover have "\<not> is_entry s f" if "f \<in> seen" for f using inv(2) that by (simp add: enclosing_inv_def)
  ultimately show ?case by (auto simp: found_entry_def)
next
  case (2 s seen c queue)
  show ?case
  proof (cases "is_entry s c")
    case True
    then show ?thesis using 2(3) by (auto simp: found_entry_def enclosing_inv_def)
  next
    case False
    obtain seen' queue' where st: "fold visit_pred (preds_of s c) (seen, queue) = (seen', queue')" by fastforce
    have new: "seen' = seen \<union> {j. (j, c) \<in> id_rel s}" "set queue' = set queue \<union> ({j. (j, c) \<in> id_rel s} - seen)"
      using visit_preds_spec [of "preds_of s c" "(seen, queue)"] preds_of_set [OF 2(2)] by (simp_all add: st)
    have "enclosing_inv s i seen' queue'"
      using 2(3) False unfolding enclosing_inv_def new by (auto intro: converse_rtrancl_into_rtrancl)
    from 2(1) [OF False st [symmetric] 2(2) this] show ?thesis using False st by simp
  qed
qed

lemma find_enclosing_function_exact:
  assumes "scg_ok s"
  shows "found_entry s i (find_enclosing_function s i)"
  unfolding find_enclosing_function_def by (rule enclosing_search_correct [OF assms]) (simp add: enclosing_inv_def)

section \<open>What the graph holds\<close>

text \<open>The calls of the SCG in the order of its edges: each call edge whose source has an enclosing function.\<close>

definition call_of :: "SCG \<Rightarrow> EdgeData \<Rightarrow> CallGraphEdge option" where
  "call_of s edge =
     (case ed_kind edge of
        Call from_node to_node caller_region \<Rightarrow>
          map_option (\<lambda>entry_id. \<lparr>cge_caller = entry_id, cge_callee = to_node, cge_source = from_node, cge_region = caller_region\<rparr>)
            (find_enclosing_function s from_node)
      | _ \<Rightarrow> None)"

definition calls :: "SCG \<Rightarrow> CallGraphEdge list" where
  "calls s = List.map_filter (call_of s) (edges s)"

definition call_rel :: "SCG \<Rightarrow> (FunctionId \<times> FunctionId) set" where
  "call_rel s = (\<lambda>c. (cge_caller c, cge_callee c)) ` set (calls s)"

lemma push_at_default:
  "(case hm_get (push_at k v m) x of Some vs \<Rightarrow> vs | None \<Rightarrow> []) = (case hm_get m x of Some vs \<Rightarrow> vs | None \<Rightarrow> []) @ (if x = k then [v] else [])"
  by (simp add: push_at_def hm_get_insert)

lemma register_call_of:
  "register_call s e cg =
     (case call_of s e of
        Some c \<Rightarrow> cg\<lparr>cg_call_edges := push_at (cge_caller c) c (cg_call_edges cg),
          cg_reverse_edges := push_at (cge_callee c) (cge_caller c) (cg_reverse_edges cg),
          cg_functions := insert (cge_callee c) (insert (cge_caller c) (cg_functions cg))\<rparr>
      | None \<Rightarrow> cg)"
  by (simp add: register_call_def call_of_def split: EdgeKind.split option.split)

lemma register_call_step:
  "callees (register_call s e cg) f = callees cg f @ (case call_of s e of Some c \<Rightarrow> if cge_caller c = f then [c] else [] | None \<Rightarrow> [])"
  "callers (register_call s e cg) f
     = callers cg f @ (case call_of s e of Some c \<Rightarrow> if cge_callee c = f then [cge_caller c] else [] | None \<Rightarrow> [])"
  "cg_functions (register_call s e cg)
     = cg_functions cg \<union> (case call_of s e of Some c \<Rightarrow> {cge_caller c, cge_callee c} | None \<Rightarrow> {})"
  "cg_function_returns (register_call s e cg) = cg_function_returns cg"
  "cg_function_labels (register_call s e cg) = cg_function_labels cg"
  unfolding register_call_of callees_def callers_def by (cases "call_of s e"; auto simp: push_at_default)+

lemma register_calls:
  fixes es s cg
  defines "cs \<equiv> List.map_filter (call_of s) es"
  shows "callees (fold (register_call s) es cg) f = callees cg f @ filter (\<lambda>c. cge_caller c = f) cs"
    and "callers (fold (register_call s) es cg) f = callers cg f @ map cge_caller (filter (\<lambda>c. cge_callee c = f) cs)"
    and "cg_functions (fold (register_call s) es cg) = cg_functions cg \<union> cge_caller ` set cs \<union> cge_callee ` set cs"
    and "cg_function_returns (fold (register_call s) es cg) = cg_function_returns cg"
    and "cg_function_labels (fold (register_call s) es cg) = cg_function_labels cg"
  unfolding cs_def
  by (induction es arbitrary: cg) (auto simp: register_call_step List.map_filter_simps split: option.split)

lemma register_returns:
  "cg_functions (fold (register_return s) ns cg) = cg_functions cg" "cg_call_edges (fold (register_return s) ns cg) = cg_call_edges cg"
  "cg_reverse_edges (fold (register_return s) ns cg) = cg_reverse_edges cg"
  "cg_function_labels (fold (register_return s) ns cg) = cg_function_labels cg"
  by (induction ns arbitrary: cg) (auto simp: register_return_def split: option.splits)

lemma register_entries:
  "cg_functions (fold register_entry ns cg) = cg_functions cg \<union> nd_id ` {n \<in> set ns. is_kind CkFunctionEntry n}"
  "cg_call_edges (fold register_entry ns cg) = cg_call_edges cg"
  "cg_reverse_edges (fold register_entry ns cg) = cg_reverse_edges cg"
  "cg_function_returns (fold register_entry ns cg) = cg_function_returns cg"
  by (induction ns arbitrary: cg) (auto simp: register_entry_def Let_def split: option.splits)

lemma build_exact:
  "callees (build s) f = filter (\<lambda>c. cge_caller c = f) (calls s)"
  "callers (build s) f = map cge_caller (filter (\<lambda>c. cge_callee c = f) (calls s))"
  "cg_functions (build s) = nd_id ` {n \<in> set (nodes s). is_kind CkFunctionEntry n} \<union> fst ` call_rel s \<union> snd ` call_rel s"
proof -
  let ?cg = "fold (register_return s) (nodes s) (fold register_entry (nodes s) cg_empty)"
  have cg: "callees ?cg f = []" "callers ?cg f = []" "cg_functions ?cg = nd_id ` {n \<in> set (nodes s). is_kind CkFunctionEntry n}"
    by (simp_all add: callees_def callers_def register_returns register_entries) (simp_all add: cg_empty_def)
  show "callees (build s) f = filter (\<lambda>c. cge_caller c = f) (calls s)"
    "callers (build s) f = map cge_caller (filter (\<lambda>c. cge_callee c = f) (calls s))"
    "cg_functions (build s) = nd_id ` {n \<in> set (nodes s). is_kind CkFunctionEntry n} \<union> fst ` call_rel s \<union> snd ` call_rel s"
    unfolding build_def register_calls cg by (simp_all add: calls_def call_rel_def image_image)
qed

lemma callees_rel: "cge_callee ` set (callees (build s) f) = call_rel s `` {f}"
  by (auto simp: build_exact call_rel_def)

lemma finite_functions: "finite (cg_functions (build s))"
  by (simp add: build_exact call_rel_def)


section \<open>Recursion\<close>

text \<open>
  After the start every visited function is reached from \<open>f\<close>, every stacked one by at least one call, and a callee of a visited
  function is stacked or visited; \<open>f\<close> itself is not counted as visited.
\<close>

definition recursion_inv :: "SCG \<Rightarrow> FunctionId \<Rightarrow> FunctionId set \<Rightarrow> FunctionId list \<Rightarrow> bool" where
  "recursion_inv s f seen stack \<longleftrightarrow> f \<in> seen \<and> seen \<subseteq> (call_rel s)\<^sup>* `` {f} \<and> set stack \<subseteq> (call_rel s)\<^sup>+ `` {f}
     \<and> call_rel s `` seen \<subseteq> seen - {f} \<union> set stack"

lemma recursion_search_exact:
  assumes "recursion_inv s f seen stack"
  shows "recursion_search (build s) f seen stack \<longleftrightarrow> (f, f) \<in> (call_rel s)\<^sup>+"
  using assms
proof (induction "build s" f seen stack rule: recursion_search.induct)
  case (1 f seen)
  have "g \<in> seen - {f}" if "(f, g) \<in> (call_rel s)\<^sup>+" for g
    using that 1 by (induction rule: trancl_induct) (auto simp: recursion_inv_def)
  then show ?case by auto
next
  case (2 f seen c stack)
  have c: "(f, c) \<in> (call_rel s)\<^sup>+" and f: "f \<in> seen" using 2(3) by (auto simp: recursion_inv_def)
  consider "c = f" | "c \<noteq> f" "c \<in> seen" | "c \<noteq> f" "c \<notin> seen" by blast
  then show ?case
  proof cases
    case 1
    then show ?thesis using c f by auto
  next
    case hyp: 2
    then have "recursion_inv s f seen stack" using 2(3) by (auto simp: recursion_inv_def)
    then show ?thesis using 2(1) hyp by simp
  next
    case 3
    have "set (rev (map cge_callee (callees (build s) c)) @ stack) = call_rel s `` {c} \<union> set stack" using callees_rel [of s c] by simp
    then have "recursion_inv s f (insert c seen) (rev (map cge_callee (callees (build s) c)) @ stack)"
      using 2(3) c 3 unfolding recursion_inv_def by (auto intro: trancl_into_trancl trancl_into_rtrancl)
    then show ?thesis using 2(2) 3 by simp
  qed
qed

section \<open>The bottom-up order\<close>

text \<open>Every call leads to an earlier function, unless the callee leads back to the caller.\<close>

definition callees_first :: "('f \<times> 'f) set \<Rightarrow> 'f list \<Rightarrow> bool" where
  "callees_first E r \<longleftrightarrow> (\<forall>xs f ys g. r = xs @ f # ys \<and> (f, g) \<in> E \<longrightarrow> g \<in> set xs \<or> (g, f) \<in> E\<^sup>*)"

lemma callees_first_snoc:
  assumes "callees_first E r" "\<And>g. (f, g) \<in> E \<Longrightarrow> g \<in> set r \<or> (g, f) \<in> E\<^sup>*"
  shows "callees_first E (r @ [f])"
  unfolding callees_first_def
proof (intro allI impI)
  fix xs f' ys g
  assume eq: "r @ [f] = xs @ f' # ys \<and> (f', g) \<in> E"
  show "g \<in> set xs \<or> (g, f') \<in> E\<^sup>*"
  proof (cases ys rule: rev_cases)
    case Nil
    then show ?thesis using eq assms(2) by auto
  next
    case (snoc zs z)
    then have "r = xs @ f' # zs" using eq by simp
    then show ?thesis using eq assms(1) unfolding callees_first_def by blast
  qed
qed

text \<open>The state between two calls, and what a call adds to it.\<close>

definition dfs_ok :: "('f \<times> 'f) set \<Rightarrow> 'f set \<times> 'f set \<times> 'f list \<Rightarrow> bool" where
  "dfs_ok E = (\<lambda>(seen, path, r). seen = set r \<and> distinct r \<and> seen \<inter> path = {} \<and> callees_first E r)"

definition dfs_ext :: "'f set \<Rightarrow> 'f set \<times> 'f set \<times> 'f list \<Rightarrow> 'f set \<times> 'f set \<times> 'f list \<Rightarrow> bool" where
  "dfs_ext F = (\<lambda>(seen, path, r) (seen', path', r'). path' = path \<and> seen \<subseteq> seen' \<and> seen' \<subseteq> seen \<union> F)"

lemma dfs_postorder_spec:
  assumes "finite F" "call_rel s `` F \<subseteq> F"
  shows "f \<in> F \<Longrightarrow> card (F - fst (snd st)) < depth \<Longrightarrow> dfs_ok (call_rel s) st \<Longrightarrow> fst (snd st) \<subseteq> {g. (g, f) \<in> (call_rel s)\<^sup>*} \<Longrightarrow>
    \<exists>st'. dfs_postorder depth (build s) f st = Some st' \<and> dfs_ok (call_rel s) st' \<and> dfs_ext F st st' \<and> f \<in> fst st' \<union> fst (snd st)"
proof (induction depth arbitrary: f st)
  case (Suc depth)
  let ?E = "call_rel s"
  obtain seen path r where st: "st = (seen, path, r)" by (cases st)
  consider "f \<in> seen \<union> path" | "f \<notin> seen" "f \<notin> path" by blast
  then show ?case
  proof cases
    case 1
    then show ?thesis using st Suc.prems by (auto simp: dfs_ext_def)
  next
    case 2
    have "F - insert f path \<subset> F - path" using 2 Suc.prems(1) by blast
    then have "card (F - insert f path) < card (F - path)" using assms(1) by (meson finite_Diff psubset_card_mono)
    then have d: "card (F - insert f path) < depth" using Suc.prems(2) st by simp
    have reach: "insert f path \<subseteq> {g. (g, h) \<in> ?E\<^sup>*}" if "(f, h) \<in> ?E" for h
      using Suc.prems(4) st that by (auto intro: rtrancl_into_rtrancl)
    have each: "\<exists>st'. try_each (\<lambda>edge. dfs_postorder depth (build s) (cge_callee edge)) es st1 = Some st' \<and> dfs_ok ?E st'
        \<and> dfs_ext F st1 st' \<and> cge_callee ` set es \<subseteq> fst st' \<union> insert f path"
      if "dfs_ok ?E st1" "fst (snd st1) = insert f path" "cge_callee ` set es \<subseteq> ?E `` {f}" for es st1
      using that
    proof (induction es arbitrary: st1)
      case Nil
      then show ?case by (auto simp: dfs_ext_def)
    next
      case (Cons e es)
      then have e: "(f, cge_callee e) \<in> ?E" by auto
      then have "cge_callee e \<in> F" using assms(2) Suc.prems(1) by blast
      then obtain st2 where s2: "dfs_postorder depth (build s) (cge_callee e) st1 = Some st2" "dfs_ok ?E st2" "dfs_ext F st1 st2"
          "cge_callee e \<in> fst st2 \<union> insert f path"
        using Suc.IH [of "cge_callee e" st1] d reach [OF e] Cons.prems by auto
      then have "fst (snd st2) = insert f path" using Cons.prems(2) by (auto simp: dfs_ext_def split: prod.splits)
      then obtain st3 where "try_each (\<lambda>edge. dfs_postorder depth (build s) (cge_callee edge)) es st2 = Some st3" "dfs_ok ?E st3"
          "dfs_ext F st2 st3" "cge_callee ` set es \<subseteq> fst st3 \<union> insert f path"
        using Cons.IH [of st2] s2(2) Cons.prems(3) by auto
      moreover have "dfs_ext F st1 st3" "fst st2 \<subseteq> fst st3" using s2(3) calculation(3) by (auto simp: dfs_ext_def split: prod.splits)
      ultimately show ?case using s2(1,4) by auto
    qed
    have "dfs_ok ?E (seen, insert f path, r)" using Suc.prems(3) st 2 by (auto simp: dfs_ok_def)
    then obtain st' where "try_each (\<lambda>edge. dfs_postorder depth (build s) (cge_callee edge)) (callees (build s) f) (seen, insert f path, r) = Some st'"
        "dfs_ok ?E st'" "dfs_ext F (seen, insert f path, r) st'" "?E `` {f} \<subseteq> fst st' \<union> insert f path"
      using each [of "(seen, insert f path, r)" "callees (build s) f"] callees_rel [of s f] by auto
    then obtain seen' r' where t: "try_each (\<lambda>edge. dfs_postorder depth (build s) (cge_callee edge)) (callees (build s) f) (seen, insert f path, r)
          = Some (seen', insert f path, r')" "dfs_ok ?E (seen', insert f path, r')" "seen \<subseteq> seen'" "seen' \<subseteq> seen \<union> F"
        "?E `` {f} \<subseteq> seen' \<union> insert f path" by (cases st') (auto simp: dfs_ext_def)
    have "g \<in> set r' \<or> (g, f) \<in> ?E\<^sup>*" if "(f, g) \<in> ?E" for g
      using t(2,5) that Suc.prems(4) st by (auto simp: dfs_ok_def)
    then have "dfs_ok ?E (insert f seen', path, r' @ [f])" using t(2) 2 callees_first_snoc [of ?E r' f] by (auto simp: dfs_ok_def)
    moreover have "dfs_postorder (Suc depth) (build s) f st = Some (insert f seen', path, r' @ [f])" using st 2 t(1) by auto
    ultimately show ?thesis using st t(3,4) Suc.prems(1) by (auto simp: dfs_ext_def)
  qed
qed simp


lemma functions_closed: "call_rel s `` cg_functions (build s) \<subseteq> cg_functions (build s)"
  by (force simp: build_exact)

lemma bottom_up_spec:
  assumes "function_count (build s) < depth"
    and "set order \<subseteq> cg_functions (build s)" "dfs_ok (call_rel s) st" "fst (snd st) = {}" "fst st \<subseteq> cg_functions (build s)"
  shows "\<exists>r. try_each (dfs_postorder depth (build s)) order st = Some (set r, {}, r)
    \<and> dfs_ok (call_rel s) (set r, {}, r) \<and> set order \<union> fst st \<subseteq> set r \<and> set r \<subseteq> cg_functions (build s)"
  using assms(2-)
proof (induction order arbitrary: st)
  case Nil
  then show ?case by (cases st) (auto simp: dfs_ok_def)
next
  case (Cons f order)
  have "card (cg_functions (build s) - fst (snd st)) < depth" using Cons.prems(3) assms(1) by (simp add: function_count_def)
  then obtain st' where st': "dfs_postorder depth (build s) f st = Some st'" "dfs_ok (call_rel s) st'"
      "dfs_ext (cg_functions (build s)) st st'" "f \<in> fst st'"
    using dfs_postorder_spec [OF finite_functions functions_closed, of f s st depth] Cons.prems by auto
  then have e: "fst (snd st') = {}" "fst st \<subseteq> fst st'" "fst st' \<subseteq> cg_functions (build s)"
    using Cons.prems(3,4) by (auto simp: dfs_ext_def split: prod.splits)
  then obtain r where "try_each (dfs_postorder depth (build s)) order st' = Some (set r, {}, r)" "dfs_ok (call_rel s) (set r, {}, r)"
      "set order \<union> fst st' \<subseteq> set r" "set r \<subseteq> cg_functions (build s)"
    using Cons.IH [of st'] st'(2) Cons.prems(1) by auto
  then show ?case using st'(1,4) e(2) by (intro exI [of _ r]) auto
qed

lemma callees_first_split:
  assumes "callees_first E r" "f \<in> set r" "(f, g) \<in> E" "(g, f) \<notin> E\<^sup>*"
  shows "\<exists>xs ys zs. r = xs @ g # ys @ f # zs"
proof -
  obtain us zs where r: "r = us @ f # zs" using assms(2) by (meson split_list)
  then have "g \<in> set us" using assms unfolding callees_first_def by blast
  then obtain xs ys where "us = xs @ g # ys" by (meson split_list)
  then show ?thesis using r by auto
qed


text \<open>
  C23: the bottom-up order terminates for every iteration order of the function set and lists every function once, and a callee stands
  before its caller unless the callee leads back to the caller through calls; \<open>is_recursive\<close> holds exactly for the functions that
  lead back to themselves through calls.
\<close>

theorem bottom_up_order_exact:
  assumes "set order = cg_functions (build s)"
  shows "(\<exists>r. bottom_up_order order (build s) = Some r \<and> distinct r \<and> set r = cg_functions (build s)
      \<and> (\<forall>f g. (f, g) \<in> call_rel s \<and> (g, f) \<notin> (call_rel s)\<^sup>* \<longrightarrow> (\<exists>xs ys zs. r = xs @ g # ys @ f # zs)))
    \<and> (is_recursive (build s) f \<longleftrightarrow> (f, f) \<in> (call_rel s)\<^sup>+)"
proof
  have "dfs_ok (call_rel s) ({}, {}, [])" by (simp add: dfs_ok_def callees_first_def)
  then obtain r where r: "try_each (dfs_postorder (Suc (function_count (build s))) (build s)) order ({}, {}, []) = Some (set r, {}, r)"
      "dfs_ok (call_rel s) (set r, {}, r)" "set order \<subseteq> set r" "set r \<subseteq> cg_functions (build s)"
    using bottom_up_spec [of s "Suc (function_count (build s))" order "({}, {}, [])"] assms
    by (auto simp del: dfs_postorder.simps)
  have "f \<in> set r" if "(f, g) \<in> call_rel s" for f g using that r(3) assms by (force simp: build_exact)
  then show "\<exists>r. bottom_up_order order (build s) = Some r \<and> distinct r \<and> set r = cg_functions (build s)
      \<and> (\<forall>f g. (f, g) \<in> call_rel s \<and> (g, f) \<notin> (call_rel s)\<^sup>* \<longrightarrow> (\<exists>xs ys zs. r = xs @ g # ys @ f # zs))"
    using r assms callees_first_split [of "call_rel s" r] by (intro exI [of _ r]) (auto simp: bottom_up_order_def dfs_ok_def simp del: dfs_postorder.simps)
  have "recursion_inv s f {f} (rev (map cge_callee (callees (build s) f)))"
    using callees_rel [of s f] by (auto simp: recursion_inv_def)
  then show "is_recursive (build s) f \<longleftrightarrow> (f, f) \<in> (call_rel s)\<^sup>+"
    using recursion_search_exact by (simp add: is_recursive_def)
qed

section \<open>Concrete graphs\<close>

definition fn_entry :: "string \<Rightarrow> scg_op" where
  "fn_entry label = OpAddNode NtControl (Control CkFunctionEntry (Some label)) here"

definition site :: scg_op where
  "site = OpAddNode NtPhantom (PhantomNode ''site'') here"

definition calls_program :: "scg_op list" where
  "calls_program = [fn_entry ''main'', site, fn_entry ''walk'', site, fn_entry ''leaf'',
     OpAddEdge 0 1 ControlFlow, OpAddEdge 1 2 (Call 1 2 0), OpAddEdge 2 3 ControlFlow,
     OpAddEdge 3 2 (Call 3 2 0), OpAddEdge 3 4 (Call 3 4 0)]"

definition calls_scg :: SCG where
  "calls_scg = fst (the (scg_run calls_program scg_new))"

theorem bottom_up_order_exact_witness:
  "bottom_up_order [0, 2, 4] (build calls_scg) = Some [4, 2, 0] \<and> (2, 2) \<in> (call_rel calls_scg)\<^sup>+ \<and> (0, 0) \<notin> (call_rel calls_scg)\<^sup>+"
proof -
  have c: "set [0, 2, 4] = cg_functions (build calls_scg)" "bottom_up_order [0, 2, 4] (build calls_scg) = Some [4, 2, 0]"
      "is_recursive (build calls_scg) 2" "\<not> is_recursive (build calls_scg) 0" by code_simp+
  show ?thesis using bottom_up_order_exact [OF c(1)] c(2-4) by blast
qed


lemma calls_scg_ok: "scg_ok calls_scg"
proof -
  have "next_node_id scg_new = 0" "next_edge_id scg_new = 0" by (simp_all add: scg_new_def)
  then obtain s rs where "scg_run calls_program scg_new = Some (s, rs)" "scg_ok s"
    using run_sim [OF scg_new_ok, of 0 calls_program]
    by (auto simp: calls_program_def fn_entry_def site_def simp del: scg_run.simps spec_run.simps)
  then show ?thesis by (simp add: calls_scg_def)
qed


text \<open>
  The documentation of \<open>find_enclosing_function\<close> speaks of control flow edges; the code follows every edge backwards, return edges
  included. Here \<^verbatim>\<open>main\<close> calls \<^verbatim>\<open>work\<close> at node 2 and, after the return, \<^verbatim>\<open>log\<close> at node 3. The entry of \<^verbatim>\<open>work\<close> is nearer to node 3 than
  the one of \<^verbatim>\<open>main\<close>, so that the call of \<^verbatim>\<open>log\<close> is booked on \<^verbatim>\<open>work\<close>, although control flow leads to node 3 from \<^verbatim>\<open>main\<close> only.
\<close>

definition return_program :: "scg_op list" where
  "return_program = [fn_entry ''main'', site, site, site, fn_entry ''work'', OpAddNode NtControl (Control CkFunctionReturn None) here, fn_entry ''log'',
     OpAddEdge 0 1 ControlFlow, OpAddEdge 1 2 ControlFlow, OpAddEdge 2 3 ControlFlow, OpAddEdge 2 4 (Call 2 4 0), OpAddEdge 4 5 ControlFlow,
     OpAddEdge 5 3 (Return 5 3 []), OpAddEdge 3 6 (Call 3 6 0)]"

definition return_scg :: SCG where
  "return_scg = fst (the (scg_run return_program scg_new))"

lemma call_booked_on_callee:
  "map cge_callee (callees (build return_scg) 0) = [4]" "map cge_callee (callees (build return_scg) 4) = [6]"
  "cf_edges return_scg = [(0, 1), (1, 2), (2, 3), (4, 5)]"
  by code_simp+

end
