(* ===== verification/Rv64_Instr.thy ===== *)
theory Rv64_Instr
  imports Bd_Codec
begin

text \<open>
  Registers, instructions and machine code of the RV64 back end (\<^verbatim>\<open>codegen/src/riscv64/mod.rs\<close>): the register enums, the
  encoders of the six instruction formats and \<^verbatim>\<open>Instruction::encode\<close>. The enum \<^verbatim>\<open>Instruction\<close> has 146 variants; it is split at its
  section comments into seven datatypes with the variants of the source, and \<open>Instruction\<close> is their sum. An \<^verbatim>\<open>i32\<close> is a word that
  is read as a signed number.
\<close>

type_synonym i32 = "32 word"

section \<open>Registers\<close>

datatype Gpr =
    Zero | Ra | Sp | Gp | Tp | T0 | T1 | T2 | S0 | S1 | A0 | A1 | A2 | A3 | A4 | A5
  | A6 | A7 | S2 | S3 | S4 | S5 | S6 | S7 | S8 | S9 | S10 | S11 | T3 | T4 | T5 | T6

definition gprs :: "Gpr list" where
  "gprs = [Zero, Ra, Sp, Gp, Tp, T0, T1, T2, S0, S1, A0, A1, A2, A3, A4, A5,
     A6, A7, S2, S3, S4, S5, S6, S7, S8, S9, S10, S11, T3, T4, T5, T6]"

primrec gpr_encoding :: "Gpr \<Rightarrow> u32" where
    "gpr_encoding Zero = 0"
  | "gpr_encoding Ra = 1"
  | "gpr_encoding Sp = 2"
  | "gpr_encoding Gp = 3"
  | "gpr_encoding Tp = 4"
  | "gpr_encoding T0 = 5"
  | "gpr_encoding T1 = 6"
  | "gpr_encoding T2 = 7"
  | "gpr_encoding S0 = 8"
  | "gpr_encoding S1 = 9"
  | "gpr_encoding A0 = 10"
  | "gpr_encoding A1 = 11"
  | "gpr_encoding A2 = 12"
  | "gpr_encoding A3 = 13"
  | "gpr_encoding A4 = 14"
  | "gpr_encoding A5 = 15"
  | "gpr_encoding A6 = 16"
  | "gpr_encoding A7 = 17"
  | "gpr_encoding S2 = 18"
  | "gpr_encoding S3 = 19"
  | "gpr_encoding S4 = 20"
  | "gpr_encoding S5 = 21"
  | "gpr_encoding S6 = 22"
  | "gpr_encoding S7 = 23"
  | "gpr_encoding S8 = 24"
  | "gpr_encoding S9 = 25"
  | "gpr_encoding S10 = 26"
  | "gpr_encoding S11 = 27"
  | "gpr_encoding T3 = 28"
  | "gpr_encoding T4 = 29"
  | "gpr_encoding T5 = 30"
  | "gpr_encoding T6 = 31"

text \<open>The arms of the \<^verbatim>\<open>match\<close> in their order.\<close>

definition gpr_from_encoding :: "u32 \<Rightarrow> Gpr option" where
  "gpr_from_encoding idx = (if unat idx < 32 then Some (gprs ! unat idx) else None)"

definition is_allocatable :: "Gpr \<Rightarrow> bool" where
  "is_allocatable r \<longleftrightarrow> r \<notin> {Zero, Sp, Gp, Tp}"

definition gpr_is_callee_saved :: "Gpr \<Rightarrow> bool" where
  "gpr_is_callee_saved r \<longleftrightarrow> r \<in> {S0, S1, S2, S3, S4, S5, S6, S7, S8, S9, S10, S11}"

definition gpr_is_arg_reg :: "Gpr \<Rightarrow> bool" where
  "gpr_is_arg_reg r \<longleftrightarrow> r \<in> {A0, A1, A2, A3, A4, A5, A6, A7}"

definition arg_register :: "nat \<Rightarrow> Gpr option" where
  "arg_register index = (if index < 8 then Some ([A0, A1, A2, A3, A4, A5, A6, A7] ! index) else None)"

datatype Fpr =
    F0 | F1 | F2 | F3 | F4 | F5 | F6 | F7 | F8 | F9 | F10 | F11 | F12 | F13 | F14 | F15
  | F16 | F17 | F18 | F19 | F20 | F21 | F22 | F23 | F24 | F25 | F26 | F27 | F28 | F29 | F30 | F31

definition fprs :: "Fpr list" where
  "fprs = [F0, F1, F2, F3, F4, F5, F6, F7, F8, F9, F10, F11, F12, F13, F14, F15,
     F16, F17, F18, F19, F20, F21, F22, F23, F24, F25, F26, F27, F28, F29, F30, F31]"

primrec fpr_encoding :: "Fpr \<Rightarrow> u32" where
    "fpr_encoding F0 = 0"
  | "fpr_encoding F1 = 1"
  | "fpr_encoding F2 = 2"
  | "fpr_encoding F3 = 3"
  | "fpr_encoding F4 = 4"
  | "fpr_encoding F5 = 5"
  | "fpr_encoding F6 = 6"
  | "fpr_encoding F7 = 7"
  | "fpr_encoding F8 = 8"
  | "fpr_encoding F9 = 9"
  | "fpr_encoding F10 = 10"
  | "fpr_encoding F11 = 11"
  | "fpr_encoding F12 = 12"
  | "fpr_encoding F13 = 13"
  | "fpr_encoding F14 = 14"
  | "fpr_encoding F15 = 15"
  | "fpr_encoding F16 = 16"
  | "fpr_encoding F17 = 17"
  | "fpr_encoding F18 = 18"
  | "fpr_encoding F19 = 19"
  | "fpr_encoding F20 = 20"
  | "fpr_encoding F21 = 21"
  | "fpr_encoding F22 = 22"
  | "fpr_encoding F23 = 23"
  | "fpr_encoding F24 = 24"
  | "fpr_encoding F25 = 25"
  | "fpr_encoding F26 = 26"
  | "fpr_encoding F27 = 27"
  | "fpr_encoding F28 = 28"
  | "fpr_encoding F29 = 29"
  | "fpr_encoding F30 = 30"
  | "fpr_encoding F31 = 31"

definition fpr_from_encoding :: "u32 \<Rightarrow> Fpr option" where
  "fpr_from_encoding idx = (if unat idx < 32 then Some (fprs ! unat idx) else None)"

definition fpr_is_callee_saved :: "Fpr \<Rightarrow> bool" where
  "fpr_is_callee_saved r \<longleftrightarrow> r \<in> {F8, F9, F18, F19, F20, F21, F22, F23, F24, F25, F26, F27}"

definition fpr_is_arg_reg :: "Fpr \<Rightarrow> bool" where
  "fpr_is_arg_reg r \<longleftrightarrow> r \<in> {F10, F11, F12, F13, F14, F15, F16, F17}"

section \<open>Formats\<close>

definition encode_r_type :: "u32 \<Rightarrow> u32 \<Rightarrow> u32 \<Rightarrow> u32 \<Rightarrow> u32 \<Rightarrow> u32 \<Rightarrow> bytes" where
  "encode_r_type funct7 rs2 rs1 funct3 rd opcode = le_bytes 4 (push_bit 25 (funct7 AND 0x7F) OR push_bit 20 (rs2 AND 0x1F)
     OR push_bit 15 (rs1 AND 0x1F) OR push_bit 12 (funct3 AND 0x7) OR push_bit 7 (rd AND 0x1F) OR (opcode AND 0x7F))"

definition encode_i_type :: "u32 \<Rightarrow> u32 \<Rightarrow> u32 \<Rightarrow> u32 \<Rightarrow> u32 \<Rightarrow> bytes" where
  "encode_i_type imm rs1 funct3 rd opcode = le_bytes 4 (push_bit 20 (imm AND 0xFFF) OR push_bit 15 (rs1 AND 0x1F)
     OR push_bit 12 (funct3 AND 0x7) OR push_bit 7 (rd AND 0x1F) OR (opcode AND 0x7F))"

definition encode_s_type :: "u32 \<Rightarrow> u32 \<Rightarrow> u32 \<Rightarrow> u32 \<Rightarrow> u32 \<Rightarrow> bytes" where
  "encode_s_type imm rs2 rs1 funct3 opcode =
     (let imm_lo = imm AND 0x1F; imm_hi = drop_bit 5 imm AND 0x7F in
      le_bytes 4 (push_bit 25 imm_hi OR push_bit 20 (rs2 AND 0x1F) OR push_bit 15 (rs1 AND 0x1F)
        OR push_bit 12 (funct3 AND 0x7) OR push_bit 7 imm_lo OR (opcode AND 0x7F)))"

definition encode_b_type :: "i32 \<Rightarrow> u32 \<Rightarrow> u32 \<Rightarrow> u32 \<Rightarrow> u32 \<Rightarrow> bytes" where
  "encode_b_type imm rs2 rs1 funct3 opcode = le_bytes 4 (push_bit 31 (drop_bit 12 imm AND 0x1) OR push_bit 25 (drop_bit 5 imm AND 0x3F)
     OR push_bit 20 (rs2 AND 0x1F) OR push_bit 15 (rs1 AND 0x1F) OR push_bit 12 (funct3 AND 0x7)
     OR push_bit 8 (drop_bit 1 imm AND 0xF) OR push_bit 7 (drop_bit 11 imm AND 0x1) OR (opcode AND 0x7F))"

definition encode_u_type :: "u32 \<Rightarrow> u32 \<Rightarrow> u32 \<Rightarrow> bytes" where
  "encode_u_type imm rd opcode = le_bytes 4 ((imm AND 0xFFFFF000) OR push_bit 7 (rd AND 0x1F) OR (opcode AND 0x7F))"

definition encode_j_type :: "i32 \<Rightarrow> u32 \<Rightarrow> u32 \<Rightarrow> bytes" where
  "encode_j_type imm rd opcode = le_bytes 4 (push_bit 31 (drop_bit 20 imm AND 0x1) OR push_bit 21 (drop_bit 1 imm AND 0x3FF)
     OR push_bit 20 (drop_bit 11 imm AND 0x1) OR push_bit 12 (drop_bit 12 imm AND 0xFF) OR push_bit 7 (rd AND 0x1F) OR (opcode AND 0x7F))"

section \<open>Instructions\<close>

text \<open>Upper immediates, jumps, branches, loads, stores.\<close>

datatype BaseInstr =
    Lui Gpr u32 | Auipc Gpr u32 | Jal Gpr i32 | Jalr Gpr Gpr i32 | Beq Gpr Gpr i32 | Bne Gpr Gpr i32
  | Blt Gpr Gpr i32 | Bge Gpr Gpr i32 | Bltu Gpr Gpr i32 | Bgeu Gpr Gpr i32 | Lb Gpr Gpr i32 | Lh Gpr Gpr i32
  | Lw Gpr Gpr i32 | Ld Gpr Gpr i32 | Lbu Gpr Gpr i32 | Lhu Gpr Gpr i32 | Lwu Gpr Gpr i32 | Sb Gpr Gpr i32
  | Sh Gpr Gpr i32 | Sw Gpr Gpr i32 | Sd Gpr Gpr i32

text \<open>Immediate, register and word-level arithmetic.\<close>

datatype ArithInstr =
    Addi Gpr Gpr i32 | Slti Gpr Gpr i32 | Sltiu Gpr Gpr i32 | Xori Gpr Gpr i32 | Ori Gpr Gpr i32 | Andi Gpr Gpr i32
  | Slli Gpr Gpr u32 | Srli Gpr Gpr u32 | Srai Gpr Gpr u32 | Add Gpr Gpr Gpr | Sub Gpr Gpr Gpr | Sll Gpr Gpr Gpr
  | Slt Gpr Gpr Gpr | Sltu Gpr Gpr Gpr | Xor Gpr Gpr Gpr | Srl Gpr Gpr Gpr | Sra Gpr Gpr Gpr | Or Gpr Gpr Gpr
  | And Gpr Gpr Gpr | Addw Gpr Gpr Gpr | Subw Gpr Gpr Gpr | Sllw Gpr Gpr Gpr | Srlw Gpr Gpr Gpr | Sraw Gpr Gpr Gpr
  | Addiw Gpr Gpr i32 | Slliw Gpr Gpr u32 | Srliw Gpr Gpr u32 | Sraiw Gpr Gpr u32

text \<open>M extension.\<close>

datatype MInstr =
    Mul Gpr Gpr Gpr | Mulh Gpr Gpr Gpr | Mulhsu Gpr Gpr Gpr | Mulhu Gpr Gpr Gpr | Div Gpr Gpr Gpr | Divu Gpr Gpr Gpr
  | Rem Gpr Gpr Gpr | Remu Gpr Gpr Gpr

text \<open>F/D extension: loads, stores, arithmetic.\<close>

datatype FpInstr =
    Flw Fpr Gpr i32 | Fld Fpr Gpr i32 | Fsw Gpr Fpr i32 | Fsd Gpr Fpr i32 | FaddD Fpr Fpr Fpr | FsubD Fpr Fpr Fpr
  | FmulD Fpr Fpr Fpr | FdivD Fpr Fpr Fpr | FmvD Fpr Fpr | FaddS Fpr Fpr Fpr | FsubS Fpr Fpr Fpr | FmulS Fpr Fpr Fpr
  | FdivS Fpr Fpr Fpr | FsqrtS Fpr Fpr | FminS Fpr Fpr Fpr | FmaxS Fpr Fpr Fpr | FsgnjS Fpr Fpr Fpr
  | FsgnjnS Fpr Fpr Fpr | FsgnjxS Fpr Fpr Fpr | FclassS Gpr Fpr | FmvS Fpr Fpr | FsqrtD Fpr Fpr | FminD Fpr Fpr Fpr
  | FmaxD Fpr Fpr Fpr | FsgnjD Fpr Fpr Fpr | FsgnjnD Fpr Fpr Fpr | FsgnjxD Fpr Fpr Fpr | FclassD Gpr Fpr

text \<open>F/D extension: comparison and conversion.\<close>

datatype FpConvInstr =
    FeqD Gpr Fpr Fpr | FltD Gpr Fpr Fpr | FleD Gpr Fpr Fpr | FeqS Gpr Fpr Fpr | FltS Gpr Fpr Fpr | FleS Gpr Fpr Fpr
  | FcvtSW Fpr Gpr | FcvtSWU Fpr Gpr | FcvtSL Fpr Gpr | FcvtSLU Fpr Gpr | FcvtDW Fpr Gpr | FcvtDWU Fpr Gpr
  | FcvtDL Fpr Gpr | FcvtDLU Fpr Gpr | FcvtWS Gpr Fpr | FcvtWUS Gpr Fpr | FcvtLS Gpr Fpr | FcvtLUS Gpr Fpr
  | FcvtWD Gpr Fpr | FcvtWUD Gpr Fpr | FcvtLD Gpr Fpr | FcvtLUD Gpr Fpr | FcvtDS Fpr Fpr | FcvtSD Fpr Fpr
  | FmvXW Gpr Fpr | FmvWX Fpr Gpr | FmvXD Gpr Fpr | FmvDX Fpr Gpr

text \<open>Zicsr, Zifencei, system.\<close>

datatype SysInstr =
    Csrrw Gpr u32 Gpr | Csrrs Gpr u32 Gpr | Csrrc Gpr u32 Gpr | Csrrwi Gpr u32 u32 | Csrrsi Gpr u32 u32
  | Csrrci Gpr u32 u32 | FenceI | Ecall | Ebreak | Fence u32 u32 | Nop

text \<open>A extension.\<close>

datatype AtomicInstr =
    LrD Gpr Gpr | ScD Gpr Gpr Gpr | LrW Gpr Gpr | ScW Gpr Gpr Gpr | AmoaddW Gpr Gpr Gpr | AmoaddD Gpr Gpr Gpr
  | AmoswapW Gpr Gpr Gpr | AmoswapD Gpr Gpr Gpr | AmoxorW Gpr Gpr Gpr | AmoxorD Gpr Gpr Gpr | AmoandW Gpr Gpr Gpr
  | AmoandD Gpr Gpr Gpr | AmoorW Gpr Gpr Gpr | AmoorD Gpr Gpr Gpr | AmomaxW Gpr Gpr Gpr | AmomaxD Gpr Gpr Gpr
  | AmominW Gpr Gpr Gpr | AmominD Gpr Gpr Gpr | AmomaxWu Gpr Gpr Gpr | AmomaxDu Gpr Gpr Gpr | AmominWu Gpr Gpr Gpr
  | AmominDu Gpr Gpr Gpr

datatype Instruction =
    Base BaseInstr | Arith ArithInstr | MulDiv MInstr | Fp FpInstr | FpConv FpConvInstr | Sys SysInstr | Atomic AtomicInstr

abbreviation (input) OP_LUI :: u32 where
  "OP_LUI \<equiv> 0b0110111"

abbreviation (input) OP_AUIPC :: u32 where
  "OP_AUIPC \<equiv> 0b0010111"

abbreviation (input) OP_JAL :: u32 where
  "OP_JAL \<equiv> 0b1101111"

abbreviation (input) OP_JALR :: u32 where
  "OP_JALR \<equiv> 0b1100111"

abbreviation (input) OP_BRANCH :: u32 where
  "OP_BRANCH \<equiv> 0b1100011"

abbreviation (input) OP_LOAD :: u32 where
  "OP_LOAD \<equiv> 0b0000011"

abbreviation (input) OP_STORE :: u32 where
  "OP_STORE \<equiv> 0b0100011"

abbreviation (input) OP_IMM :: u32 where
  "OP_IMM \<equiv> 0b0010011"

abbreviation (input) OP_REG :: u32 where
  "OP_REG \<equiv> 0b0110011"

abbreviation (input) OP_IMM32 :: u32 where
  "OP_IMM32 \<equiv> 0b0011011"

abbreviation (input) OP_REG32 :: u32 where
  "OP_REG32 \<equiv> 0b0111011"

abbreviation (input) OP_SYSTEM :: u32 where
  "OP_SYSTEM \<equiv> 0b1110011"

abbreviation (input) OP_MISC_MEM :: u32 where
  "OP_MISC_MEM \<equiv> 0b0001111"

abbreviation (input) OP_FP :: u32 where
  "OP_FP \<equiv> 0b1010011"

abbreviation (input) OP_LOAD_FP :: u32 where
  "OP_LOAD_FP \<equiv> 0b0000111"

abbreviation (input) OP_STORE_FP :: u32 where
  "OP_STORE_FP \<equiv> 0b0100111"

primrec encode_base :: "BaseInstr \<Rightarrow> bytes" where
  "encode_base (Lui rd imm) = encode_u_type imm (gpr_encoding rd) OP_LUI"
| "encode_base (Auipc rd imm) = encode_u_type imm (gpr_encoding rd) OP_AUIPC"
| "encode_base (Jal rd offset) = encode_j_type offset (gpr_encoding rd) OP_JAL"
| "encode_base (Jalr rd rs1 imm) = encode_i_type (imm AND 0xFFF) (gpr_encoding rs1) 0b000 (gpr_encoding rd) OP_JALR"
| "encode_base (Beq rs1 rs2 offset) = encode_b_type offset (gpr_encoding rs2) (gpr_encoding rs1) 0b000 OP_BRANCH"
| "encode_base (Bne rs1 rs2 offset) = encode_b_type offset (gpr_encoding rs2) (gpr_encoding rs1) 0b001 OP_BRANCH"
| "encode_base (Blt rs1 rs2 offset) = encode_b_type offset (gpr_encoding rs2) (gpr_encoding rs1) 0b100 OP_BRANCH"
| "encode_base (Bge rs1 rs2 offset) = encode_b_type offset (gpr_encoding rs2) (gpr_encoding rs1) 0b101 OP_BRANCH"
| "encode_base (Bltu rs1 rs2 offset) = encode_b_type offset (gpr_encoding rs2) (gpr_encoding rs1) 0b110 OP_BRANCH"
| "encode_base (Bgeu rs1 rs2 offset) = encode_b_type offset (gpr_encoding rs2) (gpr_encoding rs1) 0b111 OP_BRANCH"
| "encode_base (Lb rd rs1 imm) = encode_i_type (imm AND 0xFFF) (gpr_encoding rs1) 0b000 (gpr_encoding rd) OP_LOAD"
| "encode_base (Lh rd rs1 imm) = encode_i_type (imm AND 0xFFF) (gpr_encoding rs1) 0b001 (gpr_encoding rd) OP_LOAD"
| "encode_base (Lw rd rs1 imm) = encode_i_type (imm AND 0xFFF) (gpr_encoding rs1) 0b010 (gpr_encoding rd) OP_LOAD"
| "encode_base (Ld rd rs1 imm) = encode_i_type (imm AND 0xFFF) (gpr_encoding rs1) 0b011 (gpr_encoding rd) OP_LOAD"
| "encode_base (Lbu rd rs1 imm) = encode_i_type (imm AND 0xFFF) (gpr_encoding rs1) 0b100 (gpr_encoding rd) OP_LOAD"
| "encode_base (Lhu rd rs1 imm) = encode_i_type (imm AND 0xFFF) (gpr_encoding rs1) 0b101 (gpr_encoding rd) OP_LOAD"
| "encode_base (Lwu rd rs1 imm) = encode_i_type (imm AND 0xFFF) (gpr_encoding rs1) 0b110 (gpr_encoding rd) OP_LOAD"
| "encode_base (Sb rs1 rs2 imm) = encode_s_type (imm AND 0xFFF) (gpr_encoding rs2) (gpr_encoding rs1) 0b000 OP_STORE"
| "encode_base (Sh rs1 rs2 imm) = encode_s_type (imm AND 0xFFF) (gpr_encoding rs2) (gpr_encoding rs1) 0b001 OP_STORE"
| "encode_base (Sw rs1 rs2 imm) = encode_s_type (imm AND 0xFFF) (gpr_encoding rs2) (gpr_encoding rs1) 0b010 OP_STORE"
| "encode_base (Sd rs1 rs2 imm) = encode_s_type (imm AND 0xFFF) (gpr_encoding rs2) (gpr_encoding rs1) 0b011 OP_STORE"

primrec encode_arith :: "ArithInstr \<Rightarrow> bytes" where
  "encode_arith (Addi rd rs1 imm) = encode_i_type (imm AND 0xFFF) (gpr_encoding rs1) 0b000 (gpr_encoding rd) OP_IMM"
| "encode_arith (Slti rd rs1 imm) = encode_i_type (imm AND 0xFFF) (gpr_encoding rs1) 0b010 (gpr_encoding rd) OP_IMM"
| "encode_arith (Sltiu rd rs1 imm) = encode_i_type (imm AND 0xFFF) (gpr_encoding rs1) 0b011 (gpr_encoding rd) OP_IMM"
| "encode_arith (Xori rd rs1 imm) = encode_i_type (imm AND 0xFFF) (gpr_encoding rs1) 0b100 (gpr_encoding rd) OP_IMM"
| "encode_arith (Ori rd rs1 imm) = encode_i_type (imm AND 0xFFF) (gpr_encoding rs1) 0b110 (gpr_encoding rd) OP_IMM"
| "encode_arith (Andi rd rs1 imm) = encode_i_type (imm AND 0xFFF) (gpr_encoding rs1) 0b111 (gpr_encoding rd) OP_IMM"
| "encode_arith (Slli rd rs1 shamt) = le_bytes 4 (push_bit 20 (shamt AND 0x3F) OR push_bit 15 (gpr_encoding rs1) OR push_bit 12 0b001 OR push_bit 7 (gpr_encoding rd) OR OP_IMM)"
| "encode_arith (Srli rd rs1 shamt) = le_bytes 4 (push_bit 20 (shamt AND 0x3F) OR push_bit 15 (gpr_encoding rs1) OR push_bit 12 0b101 OR push_bit 7 (gpr_encoding rd) OR OP_IMM)"
| "encode_arith (Srai rd rs1 shamt) = le_bytes 4 (push_bit 25 0b0100000 OR push_bit 20 (shamt AND 0x3F) OR push_bit 15 (gpr_encoding rs1) OR push_bit 12 0b101 OR push_bit 7 (gpr_encoding rd) OR OP_IMM)"
| "encode_arith (Add rd rs1 rs2) = encode_r_type 0b0000000 (gpr_encoding rs2) (gpr_encoding rs1) 0b000 (gpr_encoding rd) OP_REG"
| "encode_arith (Sub rd rs1 rs2) = encode_r_type 0b0100000 (gpr_encoding rs2) (gpr_encoding rs1) 0b000 (gpr_encoding rd) OP_REG"
| "encode_arith (Sll rd rs1 rs2) = encode_r_type 0b0000000 (gpr_encoding rs2) (gpr_encoding rs1) 0b001 (gpr_encoding rd) OP_REG"
| "encode_arith (Slt rd rs1 rs2) = encode_r_type 0b0000000 (gpr_encoding rs2) (gpr_encoding rs1) 0b010 (gpr_encoding rd) OP_REG"
| "encode_arith (Sltu rd rs1 rs2) = encode_r_type 0b0000000 (gpr_encoding rs2) (gpr_encoding rs1) 0b011 (gpr_encoding rd) OP_REG"
| "encode_arith (Xor rd rs1 rs2) = encode_r_type 0b0000000 (gpr_encoding rs2) (gpr_encoding rs1) 0b100 (gpr_encoding rd) OP_REG"
| "encode_arith (Srl rd rs1 rs2) = encode_r_type 0b0000000 (gpr_encoding rs2) (gpr_encoding rs1) 0b101 (gpr_encoding rd) OP_REG"
| "encode_arith (Sra rd rs1 rs2) = encode_r_type 0b0100000 (gpr_encoding rs2) (gpr_encoding rs1) 0b101 (gpr_encoding rd) OP_REG"
| "encode_arith (Or rd rs1 rs2) = encode_r_type 0b0000000 (gpr_encoding rs2) (gpr_encoding rs1) 0b110 (gpr_encoding rd) OP_REG"
| "encode_arith (And rd rs1 rs2) = encode_r_type 0b0000000 (gpr_encoding rs2) (gpr_encoding rs1) 0b111 (gpr_encoding rd) OP_REG"
| "encode_arith (Addw rd rs1 rs2) = encode_r_type 0b0000000 (gpr_encoding rs2) (gpr_encoding rs1) 0b000 (gpr_encoding rd) OP_REG32"
| "encode_arith (Subw rd rs1 rs2) = encode_r_type 0b0100000 (gpr_encoding rs2) (gpr_encoding rs1) 0b000 (gpr_encoding rd) OP_REG32"
| "encode_arith (Sllw rd rs1 rs2) = encode_r_type 0b0000000 (gpr_encoding rs2) (gpr_encoding rs1) 0b001 (gpr_encoding rd) OP_REG32"
| "encode_arith (Srlw rd rs1 rs2) = encode_r_type 0b0000000 (gpr_encoding rs2) (gpr_encoding rs1) 0b101 (gpr_encoding rd) OP_REG32"
| "encode_arith (Sraw rd rs1 rs2) = encode_r_type 0b0100000 (gpr_encoding rs2) (gpr_encoding rs1) 0b101 (gpr_encoding rd) OP_REG32"
| "encode_arith (Addiw rd rs1 imm) = encode_i_type (imm AND 0xFFF) (gpr_encoding rs1) 0b000 (gpr_encoding rd) OP_IMM32"
| "encode_arith (Slliw rd rs1 shamt) = le_bytes 4 (push_bit 20 (shamt AND 0x1F) OR push_bit 15 (gpr_encoding rs1) OR push_bit 12 0b001 OR push_bit 7 (gpr_encoding rd) OR OP_IMM32)"
| "encode_arith (Srliw rd rs1 shamt) = le_bytes 4 (push_bit 20 (shamt AND 0x1F) OR push_bit 15 (gpr_encoding rs1) OR push_bit 12 0b101 OR push_bit 7 (gpr_encoding rd) OR OP_IMM32)"
| "encode_arith (Sraiw rd rs1 shamt) = le_bytes 4 (push_bit 25 0b0100000 OR push_bit 20 (shamt AND 0x1F) OR push_bit 15 (gpr_encoding rs1) OR push_bit 12 0b101 OR push_bit 7 (gpr_encoding rd) OR OP_IMM32)"

primrec encode_muldiv :: "MInstr \<Rightarrow> bytes" where
  "encode_muldiv (Mul rd rs1 rs2) = encode_r_type 0b0000001 (gpr_encoding rs2) (gpr_encoding rs1) 0b000 (gpr_encoding rd) OP_REG"
| "encode_muldiv (Mulh rd rs1 rs2) = encode_r_type 0b0000001 (gpr_encoding rs2) (gpr_encoding rs1) 0b001 (gpr_encoding rd) OP_REG"
| "encode_muldiv (Mulhsu rd rs1 rs2) = encode_r_type 0b0000001 (gpr_encoding rs2) (gpr_encoding rs1) 0b010 (gpr_encoding rd) OP_REG"
| "encode_muldiv (Mulhu rd rs1 rs2) = encode_r_type 0b0000001 (gpr_encoding rs2) (gpr_encoding rs1) 0b011 (gpr_encoding rd) OP_REG"
| "encode_muldiv (Div rd rs1 rs2) = encode_r_type 0b0000001 (gpr_encoding rs2) (gpr_encoding rs1) 0b100 (gpr_encoding rd) OP_REG"
| "encode_muldiv (Divu rd rs1 rs2) = encode_r_type 0b0000001 (gpr_encoding rs2) (gpr_encoding rs1) 0b101 (gpr_encoding rd) OP_REG"
| "encode_muldiv (Rem rd rs1 rs2) = encode_r_type 0b0000001 (gpr_encoding rs2) (gpr_encoding rs1) 0b110 (gpr_encoding rd) OP_REG"
| "encode_muldiv (Remu rd rs1 rs2) = encode_r_type 0b0000001 (gpr_encoding rs2) (gpr_encoding rs1) 0b111 (gpr_encoding rd) OP_REG"

primrec encode_fp :: "FpInstr \<Rightarrow> bytes" where
  "encode_fp (Flw rd rs1 imm) = encode_i_type (imm AND 0xFFF) (gpr_encoding rs1) 0b010 (fpr_encoding rd) OP_LOAD_FP"
| "encode_fp (Fld rd rs1 imm) = encode_i_type (imm AND 0xFFF) (gpr_encoding rs1) 0b011 (fpr_encoding rd) OP_LOAD_FP"
| "encode_fp (Fsw rs1 rs2 imm) = encode_s_type (imm AND 0xFFF) (fpr_encoding rs2) (gpr_encoding rs1) 0b010 OP_STORE_FP"
| "encode_fp (Fsd rs1 rs2 imm) = encode_s_type (imm AND 0xFFF) (fpr_encoding rs2) (gpr_encoding rs1) 0b011 OP_STORE_FP"
| "encode_fp (FaddD rd rs1 rs2) = encode_r_type 0b0000001 (fpr_encoding rs2) (fpr_encoding rs1) 0b111 (fpr_encoding rd) OP_FP"
| "encode_fp (FsubD rd rs1 rs2) = encode_r_type 0b0000101 (fpr_encoding rs2) (fpr_encoding rs1) 0b111 (fpr_encoding rd) OP_FP"
| "encode_fp (FmulD rd rs1 rs2) = encode_r_type 0b0001001 (fpr_encoding rs2) (fpr_encoding rs1) 0b111 (fpr_encoding rd) OP_FP"
| "encode_fp (FdivD rd rs1 rs2) = encode_r_type 0b0001101 (fpr_encoding rs2) (fpr_encoding rs1) 0b111 (fpr_encoding rd) OP_FP"
| "encode_fp (FmvD rd rs1) = encode_r_type 0b0010001 (fpr_encoding rs1) (fpr_encoding rs1) 0b000 (fpr_encoding rd) OP_FP"
| "encode_fp (FaddS rd rs1 rs2) = encode_r_type 0b0000000 (fpr_encoding rs2) (fpr_encoding rs1) 0b111 (fpr_encoding rd) OP_FP"
| "encode_fp (FsubS rd rs1 rs2) = encode_r_type 0b0000100 (fpr_encoding rs2) (fpr_encoding rs1) 0b111 (fpr_encoding rd) OP_FP"
| "encode_fp (FmulS rd rs1 rs2) = encode_r_type 0b0001000 (fpr_encoding rs2) (fpr_encoding rs1) 0b111 (fpr_encoding rd) OP_FP"
| "encode_fp (FdivS rd rs1 rs2) = encode_r_type 0b0001100 (fpr_encoding rs2) (fpr_encoding rs1) 0b111 (fpr_encoding rd) OP_FP"
| "encode_fp (FsqrtS rd rs1) = encode_r_type 0b0101100 0b00000 (fpr_encoding rs1) 0b111 (fpr_encoding rd) OP_FP"
| "encode_fp (FminS rd rs1 rs2) = encode_r_type 0b0010100 (fpr_encoding rs2) (fpr_encoding rs1) 0b000 (fpr_encoding rd) OP_FP"
| "encode_fp (FmaxS rd rs1 rs2) = encode_r_type 0b0010100 (fpr_encoding rs2) (fpr_encoding rs1) 0b001 (fpr_encoding rd) OP_FP"
| "encode_fp (FsgnjS rd rs1 rs2) = encode_r_type 0b0010000 (fpr_encoding rs2) (fpr_encoding rs1) 0b000 (fpr_encoding rd) OP_FP"
| "encode_fp (FsgnjnS rd rs1 rs2) = encode_r_type 0b0010000 (fpr_encoding rs2) (fpr_encoding rs1) 0b001 (fpr_encoding rd) OP_FP"
| "encode_fp (FsgnjxS rd rs1 rs2) = encode_r_type 0b0010000 (fpr_encoding rs2) (fpr_encoding rs1) 0b010 (fpr_encoding rd) OP_FP"
| "encode_fp (FclassS rd rs1) = encode_r_type 0b1110000 0b00000 (fpr_encoding rs1) 0b001 (gpr_encoding rd) OP_FP"
| "encode_fp (FmvS rd rs1) = encode_r_type 0b0010000 (fpr_encoding rs1) (fpr_encoding rs1) 0b000 (fpr_encoding rd) OP_FP"
| "encode_fp (FsqrtD rd rs1) = encode_r_type 0b0101101 0b00000 (fpr_encoding rs1) 0b111 (fpr_encoding rd) OP_FP"
| "encode_fp (FminD rd rs1 rs2) = encode_r_type 0b0010101 (fpr_encoding rs2) (fpr_encoding rs1) 0b000 (fpr_encoding rd) OP_FP"
| "encode_fp (FmaxD rd rs1 rs2) = encode_r_type 0b0010101 (fpr_encoding rs2) (fpr_encoding rs1) 0b001 (fpr_encoding rd) OP_FP"
| "encode_fp (FsgnjD rd rs1 rs2) = encode_r_type 0b0010001 (fpr_encoding rs2) (fpr_encoding rs1) 0b000 (fpr_encoding rd) OP_FP"
| "encode_fp (FsgnjnD rd rs1 rs2) = encode_r_type 0b0010001 (fpr_encoding rs2) (fpr_encoding rs1) 0b001 (fpr_encoding rd) OP_FP"
| "encode_fp (FsgnjxD rd rs1 rs2) = encode_r_type 0b0010001 (fpr_encoding rs2) (fpr_encoding rs1) 0b010 (fpr_encoding rd) OP_FP"
| "encode_fp (FclassD rd rs1) = encode_r_type 0b1110001 0b00000 (fpr_encoding rs1) 0b001 (gpr_encoding rd) OP_FP"

primrec encode_fpconv :: "FpConvInstr \<Rightarrow> bytes" where
  "encode_fpconv (FeqD rd rs1 rs2) = encode_r_type 0b1010001 (fpr_encoding rs2) (fpr_encoding rs1) 0b010 (gpr_encoding rd) OP_FP"
| "encode_fpconv (FltD rd rs1 rs2) = encode_r_type 0b1010001 (fpr_encoding rs2) (fpr_encoding rs1) 0b001 (gpr_encoding rd) OP_FP"
| "encode_fpconv (FleD rd rs1 rs2) = encode_r_type 0b1010001 (fpr_encoding rs2) (fpr_encoding rs1) 0b000 (gpr_encoding rd) OP_FP"
| "encode_fpconv (FeqS rd rs1 rs2) = encode_r_type 0b1010000 (fpr_encoding rs2) (fpr_encoding rs1) 0b010 (gpr_encoding rd) OP_FP"
| "encode_fpconv (FltS rd rs1 rs2) = encode_r_type 0b1010000 (fpr_encoding rs2) (fpr_encoding rs1) 0b001 (gpr_encoding rd) OP_FP"
| "encode_fpconv (FleS rd rs1 rs2) = encode_r_type 0b1010000 (fpr_encoding rs2) (fpr_encoding rs1) 0b000 (gpr_encoding rd) OP_FP"
| "encode_fpconv (FcvtSW rd rs1) = encode_r_type 0b1101000 0b00000 (gpr_encoding rs1) 0b111 (fpr_encoding rd) OP_FP"
| "encode_fpconv (FcvtSWU rd rs1) = encode_r_type 0b1101000 0b00001 (gpr_encoding rs1) 0b111 (fpr_encoding rd) OP_FP"
| "encode_fpconv (FcvtSL rd rs1) = encode_r_type 0b1101000 0b00010 (gpr_encoding rs1) 0b111 (fpr_encoding rd) OP_FP"
| "encode_fpconv (FcvtSLU rd rs1) = encode_r_type 0b1101000 0b00011 (gpr_encoding rs1) 0b111 (fpr_encoding rd) OP_FP"
| "encode_fpconv (FcvtDW rd rs1) = encode_r_type 0b1101001 0b00000 (gpr_encoding rs1) 0b111 (fpr_encoding rd) OP_FP"
| "encode_fpconv (FcvtDWU rd rs1) = encode_r_type 0b1101001 0b00001 (gpr_encoding rs1) 0b111 (fpr_encoding rd) OP_FP"
| "encode_fpconv (FcvtDL rd rs1) = encode_r_type 0b1101001 0b00010 (gpr_encoding rs1) 0b111 (fpr_encoding rd) OP_FP"
| "encode_fpconv (FcvtDLU rd rs1) = encode_r_type 0b1101001 0b00011 (gpr_encoding rs1) 0b111 (fpr_encoding rd) OP_FP"
| "encode_fpconv (FcvtWS rd rs1) = encode_r_type 0b1100000 0b00000 (fpr_encoding rs1) 0b111 (gpr_encoding rd) OP_FP"
| "encode_fpconv (FcvtWUS rd rs1) = encode_r_type 0b1100000 0b00001 (fpr_encoding rs1) 0b111 (gpr_encoding rd) OP_FP"
| "encode_fpconv (FcvtLS rd rs1) = encode_r_type 0b1100000 0b00010 (fpr_encoding rs1) 0b001 (gpr_encoding rd) OP_FP"
| "encode_fpconv (FcvtLUS rd rs1) = encode_r_type 0b1100000 0b00011 (fpr_encoding rs1) 0b001 (gpr_encoding rd) OP_FP"
| "encode_fpconv (FcvtWD rd rs1) = encode_r_type 0b1100001 0b00000 (fpr_encoding rs1) 0b111 (gpr_encoding rd) OP_FP"
| "encode_fpconv (FcvtWUD rd rs1) = encode_r_type 0b1100001 0b00001 (fpr_encoding rs1) 0b111 (gpr_encoding rd) OP_FP"
| "encode_fpconv (FcvtLD rd rs1) = encode_r_type 0b1100001 0b00010 (fpr_encoding rs1) 0b001 (gpr_encoding rd) OP_FP"
| "encode_fpconv (FcvtLUD rd rs1) = encode_r_type 0b1100001 0b00011 (fpr_encoding rs1) 0b001 (gpr_encoding rd) OP_FP"
| "encode_fpconv (FcvtDS rd rs1) = encode_r_type 0b0100001 0b00000 (fpr_encoding rs1) 0b000 (fpr_encoding rd) OP_FP"
| "encode_fpconv (FcvtSD rd rs1) = encode_r_type 0b0100000 0b00001 (fpr_encoding rs1) 0b000 (fpr_encoding rd) OP_FP"
| "encode_fpconv (FmvXW rd rs1) = encode_r_type 0b1110000 0b00000 (fpr_encoding rs1) 0b000 (gpr_encoding rd) OP_FP"
| "encode_fpconv (FmvWX rd rs1) = encode_r_type 0b1111000 0b00000 (gpr_encoding rs1) 0b000 (fpr_encoding rd) OP_FP"
| "encode_fpconv (FmvXD rd rs1) = encode_r_type 0b1110001 0b00000 (fpr_encoding rs1) 0b000 (gpr_encoding rd) OP_FP"
| "encode_fpconv (FmvDX rd rs1) = encode_r_type 0b1111001 0b00000 (gpr_encoding rs1) 0b000 (fpr_encoding rd) OP_FP"

primrec encode_sys :: "SysInstr \<Rightarrow> bytes" where
  "encode_sys (Csrrw rd csr rs1) = encode_i_type csr (gpr_encoding rs1) 0b001 (gpr_encoding rd) OP_SYSTEM"
| "encode_sys (Csrrs rd csr rs1) = encode_i_type csr (gpr_encoding rs1) 0b010 (gpr_encoding rd) OP_SYSTEM"
| "encode_sys (Csrrc rd csr rs1) = encode_i_type csr (gpr_encoding rs1) 0b011 (gpr_encoding rd) OP_SYSTEM"
| "encode_sys (Csrrwi rd csr uimm) = encode_i_type csr (uimm AND 0x1F) 0b101 (gpr_encoding rd) OP_SYSTEM"
| "encode_sys (Csrrsi rd csr uimm) = encode_i_type csr (uimm AND 0x1F) 0b110 (gpr_encoding rd) OP_SYSTEM"
| "encode_sys (Csrrci rd csr uimm) = encode_i_type csr (uimm AND 0x1F) 0b111 (gpr_encoding rd) OP_SYSTEM"
| "encode_sys FenceI = encode_i_type 0 0 0b001 0 OP_MISC_MEM"
| "encode_sys Ecall = le_bytes 4 (0x00000073 :: u32)"
| "encode_sys Ebreak = le_bytes 4 (0x00100073 :: u32)"
| "encode_sys (Fence pred succ) = encode_i_type (push_bit 4 (pred AND 0xF) OR (succ AND 0xF)) 0 0b000 0 OP_MISC_MEM"
| "encode_sys Nop = encode_i_type 0 0 0b000 0 OP_IMM"

primrec encode_atomic :: "AtomicInstr \<Rightarrow> bytes" where
  "encode_atomic (LrD rd rs1) = encode_r_type 0b0001010 0 (gpr_encoding rs1) 0b010 (gpr_encoding rd) 0b0101111"
| "encode_atomic (ScD rd rs1 rs2) = encode_r_type 0b0001100 (gpr_encoding rs2) (gpr_encoding rs1) 0b010 (gpr_encoding rd) 0b0101111"
| "encode_atomic (LrW rd rs1) = encode_r_type 0b0001010 0 (gpr_encoding rs1) 0b010 (gpr_encoding rd) 0b0101111"
| "encode_atomic (ScW rd rs1 rs2) = encode_r_type 0b0001100 (gpr_encoding rs2) (gpr_encoding rs1) 0b010 (gpr_encoding rd) 0b0101111"
| "encode_atomic (AmoaddW rd rs1 rs2) = encode_r_type 0b0000010 (gpr_encoding rs2) (gpr_encoding rs1) 0b010 (gpr_encoding rd) 0b0101111"
| "encode_atomic (AmoaddD rd rs1 rs2) = encode_r_type 0b0000010 (gpr_encoding rs2) (gpr_encoding rs1) 0b011 (gpr_encoding rd) 0b0101111"
| "encode_atomic (AmoswapW rd rs1 rs2) = encode_r_type 0b0000110 (gpr_encoding rs2) (gpr_encoding rs1) 0b010 (gpr_encoding rd) 0b0101111"
| "encode_atomic (AmoswapD rd rs1 rs2) = encode_r_type 0b0000110 (gpr_encoding rs2) (gpr_encoding rs1) 0b011 (gpr_encoding rd) 0b0101111"
| "encode_atomic (AmoxorW rd rs1 rs2) = encode_r_type 0b0010010 (gpr_encoding rs2) (gpr_encoding rs1) 0b010 (gpr_encoding rd) 0b0101111"
| "encode_atomic (AmoxorD rd rs1 rs2) = encode_r_type 0b0010010 (gpr_encoding rs2) (gpr_encoding rs1) 0b011 (gpr_encoding rd) 0b0101111"
| "encode_atomic (AmoandW rd rs1 rs2) = encode_r_type 0b0110010 (gpr_encoding rs2) (gpr_encoding rs1) 0b010 (gpr_encoding rd) 0b0101111"
| "encode_atomic (AmoandD rd rs1 rs2) = encode_r_type 0b0110010 (gpr_encoding rs2) (gpr_encoding rs1) 0b011 (gpr_encoding rd) 0b0101111"
| "encode_atomic (AmoorW rd rs1 rs2) = encode_r_type 0b0100010 (gpr_encoding rs2) (gpr_encoding rs1) 0b010 (gpr_encoding rd) 0b0101111"
| "encode_atomic (AmoorD rd rs1 rs2) = encode_r_type 0b0100010 (gpr_encoding rs2) (gpr_encoding rs1) 0b011 (gpr_encoding rd) 0b0101111"
| "encode_atomic (AmomaxW rd rs1 rs2) = encode_r_type 0b1000010 (gpr_encoding rs2) (gpr_encoding rs1) 0b010 (gpr_encoding rd) 0b0101111"
| "encode_atomic (AmomaxD rd rs1 rs2) = encode_r_type 0b1000010 (gpr_encoding rs2) (gpr_encoding rs1) 0b011 (gpr_encoding rd) 0b0101111"
| "encode_atomic (AmominW rd rs1 rs2) = encode_r_type 0b1000011 (gpr_encoding rs2) (gpr_encoding rs1) 0b010 (gpr_encoding rd) 0b0101111"
| "encode_atomic (AmominD rd rs1 rs2) = encode_r_type 0b1000011 (gpr_encoding rs2) (gpr_encoding rs1) 0b011 (gpr_encoding rd) 0b0101111"
| "encode_atomic (AmomaxWu rd rs1 rs2) = encode_r_type 0b1110010 (gpr_encoding rs2) (gpr_encoding rs1) 0b010 (gpr_encoding rd) 0b0101111"
| "encode_atomic (AmomaxDu rd rs1 rs2) = encode_r_type 0b1110010 (gpr_encoding rs2) (gpr_encoding rs1) 0b011 (gpr_encoding rd) 0b0101111"
| "encode_atomic (AmominWu rd rs1 rs2) = encode_r_type 0b1110011 (gpr_encoding rs2) (gpr_encoding rs1) 0b010 (gpr_encoding rd) 0b0101111"
| "encode_atomic (AmominDu rd rs1 rs2) = encode_r_type 0b1110011 (gpr_encoding rs2) (gpr_encoding rs1) 0b011 (gpr_encoding rd) 0b0101111"

primrec encode :: "Instruction \<Rightarrow> bytes" where
  "encode (Base i) = encode_base i"
| "encode (Arith i) = encode_arith i"
| "encode (MulDiv i) = encode_muldiv i"
| "encode (Fp i) = encode_fp i"
| "encode (FpConv i) = encode_fpconv i"
| "encode (Sys i) = encode_sys i"
| "encode (Atomic i) = encode_atomic i"

end
