(* ===== verification/Rv64_Decode.thy ===== *)
theory Rv64_Decode
  imports Rv64_Instr "HOL-Library.Monad_Syntax"
begin

text \<open>
  The decoder of the RV64 back end (\<^verbatim>\<open>Instruction::decode\<close> of \<^verbatim>\<open>codegen/src/riscv64/mod.rs\<close>) and what it makes of the code the
  encoder emits. A \<^verbatim>\<open>match\<close> on literals is a lookup in the table of its arms; a shift of an \<^verbatim>\<open>i32\<close> to the right is \<open>signed_drop_bit\<close>.
\<close>

section \<open>Fields\<close>

definition fld_opcode :: "u32 \<Rightarrow> u32" where
  "fld_opcode word = word AND 0x7F"

definition fld_rd :: "u32 \<Rightarrow> u32" where
  "fld_rd word = drop_bit 7 word AND 0x1F"

definition fld_funct3 :: "u32 \<Rightarrow> u32" where
  "fld_funct3 word = drop_bit 12 word AND 0x7"

definition fld_rs1 :: "u32 \<Rightarrow> u32" where
  "fld_rs1 word = drop_bit 15 word AND 0x1F"

definition fld_rs2 :: "u32 \<Rightarrow> u32" where
  "fld_rs2 word = drop_bit 20 word AND 0x1F"

definition fld_funct7 :: "u32 \<Rightarrow> u32" where
  "fld_funct7 word = drop_bit 25 word AND 0x7F"

definition imm_i :: "u32 \<Rightarrow> i32" where
  "imm_i word = signed_drop_bit 20 (push_bit 20 (drop_bit 20 word))"

definition imm_s :: "u32 \<Rightarrow> i32" where
  "imm_s word =
     (let imm_lo = drop_bit 7 word AND 0x1F; imm_hi = drop_bit 25 word AND 0x7F; imm_raw = push_bit 5 imm_hi OR imm_lo in
      signed_drop_bit 20 (push_bit 20 imm_raw))"

definition imm_b :: "u32 \<Rightarrow> i32" where
  "imm_b word =
     (let imm12 = push_bit 12 (drop_bit 31 word AND 1) OR push_bit 11 (drop_bit 7 word AND 1) OR push_bit 5 (drop_bit 25 word AND 0x3F)
        OR push_bit 1 (drop_bit 8 word AND 0xF) in
      signed_drop_bit 19 (push_bit 19 imm12))"

definition imm_u :: "u32 \<Rightarrow> u32" where
  "imm_u word = word AND 0xFFFFF000"

definition imm_j :: "u32 \<Rightarrow> i32" where
  "imm_j word =
     (let imm20 = push_bit 20 (drop_bit 31 word AND 1) OR push_bit 12 (drop_bit 12 word AND 0xFF) OR push_bit 11 (drop_bit 20 word AND 1)
        OR push_bit 1 (drop_bit 21 word AND 0x3FF) in
      signed_drop_bit 11 (push_bit 11 imm20))"

section \<open>The arms of the decoder\<close>

text \<open>As in the source, a decoded integer destination is looked up and dropped, and \<^verbatim>\<open>ra\<close> takes its place.\<close>

definition decode_branch :: "u32 \<Rightarrow> Instruction option" where
  "decode_branch word = do {
     rs1_reg \<leftarrow> gpr_from_encoding (fld_rs1 word);
     rs2_reg \<leftarrow> gpr_from_encoding (fld_rs2 word);
     let offset = imm_b word;
     map_of
       [(0b000, Base (Beq rs1_reg rs2_reg offset)), (0b001, Base (Bne rs1_reg rs2_reg offset)),
        (0b100, Base (Blt rs1_reg rs2_reg offset)), (0b101, Base (Bge rs1_reg rs2_reg offset)),
        (0b110, Base (Bltu rs1_reg rs2_reg offset)), (0b111, Base (Bgeu rs1_reg rs2_reg offset))] (fld_funct3 word) }"

definition decode_load :: "u32 \<Rightarrow> Instruction option" where
  "decode_load word = do {
     _ \<leftarrow> gpr_from_encoding (fld_rd word);
     rs1_reg \<leftarrow> gpr_from_encoding (fld_rs1 word);
     let imm = imm_i word;
     map_of
       [(0b000, Base (Lb Ra rs1_reg imm)), (0b001, Base (Lh Ra rs1_reg imm)), (0b010, Base (Lw Ra rs1_reg imm)),
        (0b011, Base (Ld Ra rs1_reg imm)), (0b100, Base (Lbu Ra rs1_reg imm)), (0b101, Base (Lhu Ra rs1_reg imm)),
        (0b110, Base (Lwu Ra rs1_reg imm))] (fld_funct3 word) }"

definition decode_store :: "u32 \<Rightarrow> Instruction option" where
  "decode_store word = do {
     rs1_reg \<leftarrow> gpr_from_encoding (fld_rs1 word);
     rs2_reg \<leftarrow> gpr_from_encoding (fld_rs2 word);
     let imm = imm_s word;
     map_of
       [(0b000, Base (Sb rs1_reg rs2_reg imm)), (0b001, Base (Sh rs1_reg rs2_reg imm)),
        (0b010, Base (Sw rs1_reg rs2_reg imm)), (0b011, Base (Sd rs1_reg rs2_reg imm))] (fld_funct3 word) }"

definition decode_load_fp :: "u32 \<Rightarrow> Instruction option" where
  "decode_load_fp word = do {
     rd_fpr \<leftarrow> fpr_from_encoding (fld_rd word);
     rs1_reg \<leftarrow> gpr_from_encoding (fld_rs1 word);
     let imm = imm_i word;
     map_of [(0b010, Fp (Flw rd_fpr rs1_reg imm)), (0b011, Fp (Fld rd_fpr rs1_reg imm))] (fld_funct3 word) }"

definition decode_store_fp :: "u32 \<Rightarrow> Instruction option" where
  "decode_store_fp word = do {
     rs1_reg \<leftarrow> gpr_from_encoding (fld_rs1 word);
     rs2_fpr \<leftarrow> fpr_from_encoding (fld_rs2 word);
     let imm = imm_s word;
     map_of [(0b010, Fp (Fsw rs1_reg rs2_fpr imm)), (0b011, Fp (Fsd rs1_reg rs2_fpr imm))] (fld_funct3 word) }"

definition decode_op_imm :: "u32 \<Rightarrow> Instruction option" where
  "decode_op_imm word = do {
     _ \<leftarrow> gpr_from_encoding (fld_rd word);
     rs1_reg \<leftarrow> gpr_from_encoding (fld_rs1 word);
     let imm = imm_i word;
     let shamt = drop_bit 20 word AND 0x3F;
     map_of
       [(0b000, Arith (Addi Ra rs1_reg imm)), (0b010, Arith (Slti Ra rs1_reg imm)), (0b011, Arith (Sltiu Ra rs1_reg imm)),
        (0b100, Arith (Xori Ra rs1_reg imm)), (0b110, Arith (Ori Ra rs1_reg imm)), (0b111, Arith (Andi Ra rs1_reg imm)),
        (0b001, Arith (Slli Ra rs1_reg shamt)),
        (0b101, if fld_funct7 word = 0b0100000 then Arith (Srai Ra rs1_reg shamt) else Arith (Srli Ra rs1_reg shamt))] (fld_funct3 word) }"

definition decode_op :: "u32 \<Rightarrow> Instruction option" where
  "decode_op word = do {
     _ \<leftarrow> gpr_from_encoding (fld_rd word);
     rs1_reg \<leftarrow> gpr_from_encoding (fld_rs1 word);
     rs2_reg \<leftarrow> gpr_from_encoding (fld_rs2 word);
     map_of
       [((0b0000000, 0b000), Arith (Add Ra rs1_reg rs2_reg)), ((0b0100000, 0b000), Arith (Sub Ra rs1_reg rs2_reg)),
        ((0b0000000, 0b001), Arith (Sll Ra rs1_reg rs2_reg)), ((0b0000000, 0b010), Arith (Slt Ra rs1_reg rs2_reg)),
        ((0b0000000, 0b011), Arith (Sltu Ra rs1_reg rs2_reg)), ((0b0000000, 0b100), Arith (Xor Ra rs1_reg rs2_reg)),
        ((0b0000000, 0b101), Arith (Srl Ra rs1_reg rs2_reg)), ((0b0100000, 0b101), Arith (Sra Ra rs1_reg rs2_reg)),
        ((0b0000000, 0b110), Arith (Or Ra rs1_reg rs2_reg)), ((0b0000000, 0b111), Arith (And Ra rs1_reg rs2_reg)),
        ((0b0000001, 0b000), MulDiv (Mul Ra rs1_reg rs2_reg)), ((0b0000001, 0b001), MulDiv (Mulh Ra rs1_reg rs2_reg)),
        ((0b0000001, 0b010), MulDiv (Mulhsu Ra rs1_reg rs2_reg)), ((0b0000001, 0b011), MulDiv (Mulhu Ra rs1_reg rs2_reg)),
        ((0b0000001, 0b100), MulDiv (Div Ra rs1_reg rs2_reg)), ((0b0000001, 0b101), MulDiv (Divu Ra rs1_reg rs2_reg)),
        ((0b0000001, 0b110), MulDiv (Rem Ra rs1_reg rs2_reg)), ((0b0000001, 0b111), MulDiv (Remu Ra rs1_reg rs2_reg))] (fld_funct7 word, fld_funct3 word) }"

definition decode_op_imm_32 :: "u32 \<Rightarrow> Instruction option" where
  "decode_op_imm_32 word = do {
     _ \<leftarrow> gpr_from_encoding (fld_rd word);
     rs1_reg \<leftarrow> gpr_from_encoding (fld_rs1 word);
     let imm = imm_i word;
     let shamt = drop_bit 20 word AND 0x1F;
     map_of
       [(0b000, Arith (Addiw Ra rs1_reg imm)), (0b001, Arith (Slliw Ra rs1_reg shamt)),
        (0b101, if fld_funct7 word = 0b0100000 then Arith (Sraiw Ra rs1_reg shamt) else Arith (Srliw Ra rs1_reg shamt))] (fld_funct3 word) }"

definition decode_op_32 :: "u32 \<Rightarrow> Instruction option" where
  "decode_op_32 word = do {
     _ \<leftarrow> gpr_from_encoding (fld_rd word);
     rs1_reg \<leftarrow> gpr_from_encoding (fld_rs1 word);
     rs2_reg \<leftarrow> gpr_from_encoding (fld_rs2 word);
     map_of
       [((0b0000000, 0b000), Arith (Addw Ra rs1_reg rs2_reg)), ((0b0100000, 0b000), Arith (Subw Ra rs1_reg rs2_reg)),
        ((0b0000000, 0b001), Arith (Sllw Ra rs1_reg rs2_reg)), ((0b0000000, 0b101), Arith (Srlw Ra rs1_reg rs2_reg)),
        ((0b0100000, 0b101), Arith (Sraw Ra rs1_reg rs2_reg))] (fld_funct7 word, fld_funct3 word) }"

definition decode_system :: "u32 \<Rightarrow> Instruction option" where
  "decode_system word =
     (if word = 0x00000073 then Some (Sys Ecall)
      else if word = 0x00100073 then Some (Sys Ebreak)
      else do {
        let csr = drop_bit 20 word AND 0xFFF;
        _ \<leftarrow> gpr_from_encoding (fld_rd word);
        rs1_reg \<leftarrow> gpr_from_encoding (fld_rs1 word);
        let rs1 = fld_rs1 word;
        map_of
          [(0b001, Sys (Csrrw Ra csr rs1_reg)), (0b010, Sys (Csrrs Ra csr rs1_reg)), (0b011, Sys (Csrrc Ra csr rs1_reg)),
           (0b101, Sys (Csrrwi Ra csr rs1)), (0b110, Sys (Csrrsi Ra csr rs1)), (0b111, Sys (Csrrci Ra csr rs1))] (fld_funct3 word) })"

definition decode_misc_mem :: "u32 \<Rightarrow> Instruction option" where
  "decode_misc_mem word =
     (if fld_funct3 word = 0b001 then Some (Sys FenceI)
      else (let imm = drop_bit 20 word AND 0xFF in Some (Sys (Fence (drop_bit 4 imm AND 0xF) (imm AND 0xF)))))"

text \<open>One arm of the conversion table: both registers are looked up, the destination first.\<close>

definition fp_arm :: "'a option \<Rightarrow> 'b option \<Rightarrow> ('a \<Rightarrow> 'b \<Rightarrow> FpConvInstr) \<Rightarrow> Instruction option" where
  "fp_arm rd rs1 c = do { rd_reg \<leftarrow> rd; rs1_reg \<leftarrow> rs1; Some (FpConv (c rd_reg rs1_reg)) }"

definition decode_fp_arith :: "u32 \<Rightarrow> Instruction option" where
  "decode_fp_arith word = do {
     rd_fpr \<leftarrow> fpr_from_encoding (fld_rd word);
     rs1_fpr \<leftarrow> fpr_from_encoding (fld_rs1 word);
     rs2_fpr \<leftarrow> fpr_from_encoding (fld_rs2 word);
     (if (fld_funct7 word, fld_funct3 word) = (0b0010001, 0b000) \<and> fld_rs1 word = fld_rs2 word then Some (Fp (FmvD rd_fpr rs1_fpr))
      else map_of
       [((0b0000001, 0b111), Fp (FaddD rd_fpr rs1_fpr rs2_fpr)), ((0b0000101, 0b111), Fp (FsubD rd_fpr rs1_fpr rs2_fpr)),
        ((0b0001001, 0b111), Fp (FmulD rd_fpr rs1_fpr rs2_fpr)), ((0b0001101, 0b111), Fp (FdivD rd_fpr rs1_fpr rs2_fpr))] (fld_funct7 word, fld_funct3 word)) }"

definition decode_fp :: "u32 \<Rightarrow> Instruction option" where
  "decode_fp word =
     (let rd = fld_rd word; rs1 = fld_rs1 word in
      case map_of
       [((0b1101000, 0b00000, 0b111), fp_arm (fpr_from_encoding rd) (gpr_from_encoding rs1) FcvtSW),
        ((0b1101000, 0b00001, 0b111), fp_arm (fpr_from_encoding rd) (gpr_from_encoding rs1) FcvtSWU),
        ((0b1101000, 0b00010, 0b111), fp_arm (fpr_from_encoding rd) (gpr_from_encoding rs1) FcvtSL),
        ((0b1101000, 0b00011, 0b111), fp_arm (fpr_from_encoding rd) (gpr_from_encoding rs1) FcvtSLU),
        ((0b1101001, 0b00000, 0b111), fp_arm (fpr_from_encoding rd) (gpr_from_encoding rs1) FcvtDW),
        ((0b1101001, 0b00001, 0b111), fp_arm (fpr_from_encoding rd) (gpr_from_encoding rs1) FcvtDWU),
        ((0b1101001, 0b00010, 0b111), fp_arm (fpr_from_encoding rd) (gpr_from_encoding rs1) FcvtDL),
        ((0b1101001, 0b00011, 0b111), fp_arm (fpr_from_encoding rd) (gpr_from_encoding rs1) FcvtDLU),
        ((0b1100000, 0b00000, 0b111), fp_arm (gpr_from_encoding rd) (fpr_from_encoding rs1) FcvtWS),
        ((0b1100000, 0b00001, 0b111), fp_arm (gpr_from_encoding rd) (fpr_from_encoding rs1) FcvtWUS),
        ((0b1100000, 0b00010, 0b111), fp_arm (gpr_from_encoding rd) (fpr_from_encoding rs1) FcvtLS),
        ((0b1100000, 0b00011, 0b111), fp_arm (gpr_from_encoding rd) (fpr_from_encoding rs1) FcvtLUS),
        ((0b1100001, 0b00000, 0b111), fp_arm (gpr_from_encoding rd) (fpr_from_encoding rs1) FcvtWD),
        ((0b1100001, 0b00001, 0b111), fp_arm (gpr_from_encoding rd) (fpr_from_encoding rs1) FcvtWUD),
        ((0b1100001, 0b00010, 0b111), fp_arm (gpr_from_encoding rd) (fpr_from_encoding rs1) FcvtLD),
        ((0b1100001, 0b00011, 0b111), fp_arm (gpr_from_encoding rd) (fpr_from_encoding rs1) FcvtLUD),
        ((0b0100001, 0b00000, 0b000), fp_arm (fpr_from_encoding rd) (fpr_from_encoding rs1) FcvtDS),
        ((0b0100000, 0b00001, 0b000), fp_arm (fpr_from_encoding rd) (fpr_from_encoding rs1) FcvtSD)] (fld_funct7 word, fld_rs2 word, fld_funct3 word) of
        Some arm \<Rightarrow> arm
      | None \<Rightarrow> decode_fp_arith word)"

definition decode_amo :: "u32 \<Rightarrow> Instruction option" where
  "decode_amo word = do {
     _ \<leftarrow> gpr_from_encoding (fld_rd word);
     rs1_reg \<leftarrow> gpr_from_encoding (fld_rs1 word);
     let funct5 = drop_bit 2 (fld_funct7 word);
     (if (funct5, fld_funct3 word) = (0b00010, 0b010) then Some (Atomic (LrD Ra rs1_reg))
      else if (funct5, fld_funct3 word) = (0b00011, 0b010) then do {
        rs2_reg \<leftarrow> gpr_from_encoding (fld_rs2 word);
        Some (Atomic (ScD Ra rs1_reg rs2_reg)) }
      else None) }"

definition decode :: "u32 \<Rightarrow> Instruction option" where
  "decode word =
     (let opcode = fld_opcode word; rd = fld_rd word; rs1 = fld_rs1 word in
      if opcode = 0b0110111 then do { _ \<leftarrow> gpr_from_encoding rd; Some (Base (Lui Ra (imm_u word))) }
      else if opcode = 0b0010111 then do { _ \<leftarrow> gpr_from_encoding rd; Some (Base (Auipc Ra (imm_u word))) }
      else if opcode = 0b1101111 then do { _ \<leftarrow> gpr_from_encoding rd; Some (Base (Jal Ra (imm_j word))) }
      else if opcode = 0b1100111 then do {
        _ \<leftarrow> gpr_from_encoding rd;
        rs1_reg \<leftarrow> gpr_from_encoding rs1;
        Some (Base (Jalr Ra rs1_reg (imm_i word))) }
      else if opcode = 0b1100011 then decode_branch word
      else if opcode = 0b0000011 then decode_load word
      else if opcode = 0b0100011 then decode_store word
      else if opcode = 0b0000111 then decode_load_fp word
      else if opcode = 0b0100111 then decode_store_fp word
      else if opcode = 0b0010011 then decode_op_imm word
      else if opcode = 0b0110011 then decode_op word
      else if opcode = 0b0011011 then decode_op_imm_32 word
      else if opcode = 0b0111011 then decode_op_32 word
      else if opcode = 0b1110011 then decode_system word
      else if opcode = 0b0001111 then decode_misc_mem word
      else if opcode = 0b1010011 then decode_fp word
      else if opcode = 0b0101111 then decode_amo word
      else None)"


section \<open>The fields of an encoded instruction\<close>

lemma masks:
  "(x :: u32) AND 1 = take_bit 1 x" "x AND 0x7 = take_bit 3 x" "x AND 0xF = take_bit 4 x" "x AND 0x1F = take_bit 5 x"
  "x AND 0x3F = take_bit 6 x" "x AND 0x7F = take_bit 7 x" "x AND 0xFF = take_bit 8 x" "x AND 0x3FF = take_bit 10 x"
  "x AND 0xFFF = take_bit 12 x" "x AND 0xFFFFF000 = push_bit 12 (drop_bit 12 x)"
proof -
  have m: "mask 1 = (1 :: u32)" "mask 3 = (0x7 :: u32)" "mask 4 = (0xF :: u32)" "mask 5 = (0x1F :: u32)" "mask 6 = (0x3F :: u32)"
    "mask 7 = (0x7F :: u32)" "mask 8 = (0xFF :: u32)" "mask 10 = (0x3FF :: u32)" "mask 12 = (0xFFF :: u32)"
    by (simp_all add: mask_eq_exp_minus_1)
  show "x AND 1 = take_bit 1 x" "x AND 0x7 = take_bit 3 x" "x AND 0xF = take_bit 4 x" "x AND 0x1F = take_bit 5 x"
    "x AND 0x3F = take_bit 6 x" "x AND 0x7F = take_bit 7 x" "x AND 0xFF = take_bit 8 x" "x AND 0x3FF = take_bit 10 x"
    "x AND 0xFFF = take_bit 12 x" by (simp_all only: take_bit_eq_mask m)
  have h: "(0xFFFFF000 :: u32) = NOT (mask 12)" by (simp add: m)
  show "x AND 0xFFFFF000 = push_bit 12 (drop_bit 12 x)"
    unfolding h by (rule bit_word_eqI) (auto simp: bit_simps)
qed

lemma of_le_word: "of_le_bytes (le_bytes 4 (w :: u32)) = w"
  by (simp add: of_le_bytes_le_bytes take_bit_word_eq_self)

lemmas fields = fld_opcode_def fld_rd_def fld_funct3_def fld_rs1_def fld_rs2_def fld_funct7_def

lemma r_type_fields:
  fixes funct7 rs2 rs1 funct3 rd opcode
  defines "w \<equiv> of_le_bytes (encode_r_type funct7 rs2 rs1 funct3 rd opcode)"
  shows "fld_opcode w = take_bit 7 opcode" "fld_rd w = take_bit 5 rd" "fld_funct3 w = take_bit 3 funct3" "fld_rs1 w = take_bit 5 rs1"
    "fld_rs2 w = take_bit 5 rs2" "fld_funct7 w = take_bit 7 funct7"
  unfolding w_def encode_r_type_def of_le_word fields masks by (rule bit_word_eqI; auto simp: bit_simps)+

lemma i_type_fields:
  fixes imm rs1 funct3 rd opcode
  defines "w \<equiv> of_le_bytes (encode_i_type imm rs1 funct3 rd opcode)"
  shows "fld_opcode w = take_bit 7 opcode" "fld_rd w = take_bit 5 rd" "fld_funct3 w = take_bit 3 funct3" "fld_rs1 w = take_bit 5 rs1"
    "drop_bit 20 w = take_bit 12 imm" 
  unfolding w_def encode_i_type_def of_le_word fields masks by (rule bit_word_eqI; auto simp: bit_simps)+


text \<open>Where the sign bit is spread, the bits are compared one by one.\<close>

lemma u32_eqI:
  assumes "list_all (\<lambda>n. bit x n \<longleftrightarrow> bit y n)
    [0, 1, 2, 3, 4, 5, 6, 7, 8, 9, 10, 11, 12, 13, 14, 15, 16, 17, 18, 19, 20, 21, 22, 23, 24, 25, 26, 27, 28, 29, 30, 31]"
  shows "x = (y :: u32)"
proof (rule bit_word_eqI)
  fix n
  assume "n < LENGTH(32)"
  then have "n \<in> set [0..<32]" by simp
  also have "[0..<32] = [0, 1, 2, 3, 4, 5, 6, 7, 8, 9, 10, 11, 12, 13, 14, 15, 16, 17, 18, 19, 20, 21, 22, 23, 24, 25, 26, 27, 28, 29, 30, 31]"
    by (simp add: upt_rec)
  finally show "bit x n \<longleftrightarrow> bit y n" using assms unfolding list_all_iff by blast
qed

lemma i_type_imm: "imm_i (of_le_bytes (encode_i_type imm rs1 funct3 rd opcode)) = signed_take_bit 11 imm"
  unfolding imm_i_def i_type_fields by (rule u32_eqI) (simp add: bit_simps)

lemma s_type_fields:
  fixes imm rs2 rs1 funct3 opcode
  defines "w \<equiv> of_le_bytes (encode_s_type imm rs2 rs1 funct3 opcode)"
  shows "fld_opcode w = take_bit 7 opcode" "fld_funct3 w = take_bit 3 funct3" "fld_rs1 w = take_bit 5 rs1" "fld_rs2 w = take_bit 5 rs2"
  unfolding w_def encode_s_type_def Let_def of_le_word fields masks by (rule bit_word_eqI; auto simp: bit_simps)+

lemma s_type_imm: "imm_s (of_le_bytes (encode_s_type imm rs2 rs1 funct3 opcode)) = signed_take_bit 11 imm"
  unfolding encode_s_type_def Let_def of_le_word imm_s_def masks by (rule u32_eqI) (simp add: bit_simps)

lemma b_type_fields:
  fixes imm rs2 rs1 funct3 opcode
  defines "w \<equiv> of_le_bytes (encode_b_type imm rs2 rs1 funct3 opcode)"
  shows "fld_opcode w = take_bit 7 opcode" "fld_funct3 w = take_bit 3 funct3" "fld_rs1 w = take_bit 5 rs1" "fld_rs2 w = take_bit 5 rs2"
  unfolding w_def encode_b_type_def Let_def of_le_word fields masks by (rule bit_word_eqI; auto simp: bit_simps)+

lemma b_type_imm: "imm_b (of_le_bytes (encode_b_type imm rs2 rs1 funct3 opcode)) = push_bit 1 (drop_bit 1 (signed_take_bit 12 imm))"
  unfolding encode_b_type_def Let_def of_le_word imm_b_def masks by (rule u32_eqI) (simp add: bit_simps del: One_nat_def)

lemma u_type_fields:
  fixes imm rd opcode
  defines "w \<equiv> of_le_bytes (encode_u_type imm rd opcode)"
  shows "fld_opcode w = take_bit 7 opcode" "fld_rd w = take_bit 5 rd" "imm_u w = push_bit 12 (drop_bit 12 imm)"
  unfolding w_def encode_u_type_def of_le_word fields imm_u_def masks by (rule bit_word_eqI; auto simp: bit_simps)+

lemma j_type_fields:
  fixes imm rd opcode
  defines "w \<equiv> of_le_bytes (encode_j_type imm rd opcode)"
  shows "fld_opcode w = take_bit 7 opcode" "fld_rd w = take_bit 5 rd"
  unfolding w_def encode_j_type_def Let_def of_le_word fields masks by (rule bit_word_eqI; auto simp: bit_simps)+

lemma j_type_imm: "imm_j (of_le_bytes (encode_j_type imm rd opcode)) = push_bit 1 (drop_bit 1 (signed_take_bit 20 imm))"
  unfolding encode_j_type_def Let_def of_le_word imm_j_def masks by (rule u32_eqI) (simp add: bit_simps del: One_nat_def)


lemma i_type_funct7: "fld_funct7 (of_le_bytes (encode_i_type imm rs1 funct3 rd opcode)) = drop_bit 5 (take_bit 12 imm)"
  unfolding encode_i_type_def of_le_word fields masks by (rule bit_word_eqI) (auto simp: bit_simps)

section \<open>Registers and immediates\<close>

lemma gpr_round [simp]: "gpr_from_encoding (take_bit 5 (gpr_encoding r)) = Some r"
  by (cases r) (simp_all add: gpr_from_encoding_def gprs_def)

lemma fpr_round [simp]: "fpr_from_encoding (take_bit 5 (fpr_encoding r)) = Some r"
  by (cases r) (simp_all add: fpr_from_encoding_def fprs_def)

lemma gpr_encoding_small: "take_bit 5 (gpr_encoding r) = gpr_encoding r"
  by (cases r) simp_all

text \<open>An immediate of \<open>n + 1\<close> bits, the sign included.\<close>

definition simm :: "nat \<Rightarrow> i32 \<Rightarrow> bool" where
  "simm n imm \<longleftrightarrow> - (2 ^ n) \<le> sint imm \<and> sint imm < 2 ^ n"

lemma simm_signed_take_bit: "simm n imm \<Longrightarrow> signed_take_bit n imm = imm"
proof -
  assume "simm n imm"
  then have "signed_take_bit n (sint imm) = sint imm" by (simp add: simm_def signed_take_bit_int_eq_self)
  moreover have "signed_take_bit n (of_int (sint imm) :: i32) = of_int (signed_take_bit n (sint imm))" by (rule signed_take_bit_of_int)
  moreover have "of_int (sint imm) = imm" by simp
  ultimately show ?thesis by simp
qed

lemma simm_even:
  assumes "simm n imm" "\<not> bit imm 0"
  shows "push_bit 1 (drop_bit 1 (signed_take_bit n imm)) = imm"
  unfolding simm_signed_take_bit [OF assms(1)]
proof (rule bit_word_eqI)
  fix k
  assume "k < LENGTH(32)"
  then show "bit (push_bit 1 (drop_bit 1 imm)) k \<longleftrightarrow> bit imm k" using assms(2) by (cases k) (simp_all only: bit_simps, auto)
qed

lemma b_type_offset: "simm 12 imm \<Longrightarrow> \<not> bit imm 0 \<Longrightarrow> imm_b (of_le_bytes (encode_b_type imm rs2 rs1 funct3 opcode)) = imm"
  unfolding b_type_imm by (rule simm_even)

lemma j_type_offset: "simm 20 imm \<Longrightarrow> \<not> bit imm 0 \<Longrightarrow> imm_j (of_le_bytes (encode_j_type imm rd opcode)) = imm"
  unfolding j_type_imm by (rule simm_even)

section \<open>What the decoder makes of the encoder's code\<close>

text \<open>The destination register replaced by \<^verbatim>\<open>ra\<close>.\<close>

primrec ra_base :: "BaseInstr \<Rightarrow> BaseInstr" where
  "ra_base (Lui rd imm) = Lui Ra imm"
| "ra_base (Auipc rd imm) = Auipc Ra imm"
| "ra_base (Jal rd offset) = Jal Ra offset"
| "ra_base (Jalr rd rs1 imm) = Jalr Ra rs1 imm"
| "ra_base (Beq rs1 rs2 offset) = Beq rs1 rs2 offset"
| "ra_base (Bne rs1 rs2 offset) = Bne rs1 rs2 offset"
| "ra_base (Blt rs1 rs2 offset) = Blt rs1 rs2 offset"
| "ra_base (Bge rs1 rs2 offset) = Bge rs1 rs2 offset"
| "ra_base (Bltu rs1 rs2 offset) = Bltu rs1 rs2 offset"
| "ra_base (Bgeu rs1 rs2 offset) = Bgeu rs1 rs2 offset"
| "ra_base (Lb rd rs1 imm) = Lb Ra rs1 imm"
| "ra_base (Lh rd rs1 imm) = Lh Ra rs1 imm"
| "ra_base (Lw rd rs1 imm) = Lw Ra rs1 imm"
| "ra_base (Ld rd rs1 imm) = Ld Ra rs1 imm"
| "ra_base (Lbu rd rs1 imm) = Lbu Ra rs1 imm"
| "ra_base (Lhu rd rs1 imm) = Lhu Ra rs1 imm"
| "ra_base (Lwu rd rs1 imm) = Lwu Ra rs1 imm"
| "ra_base (Sb rs1 rs2 imm) = Sb rs1 rs2 imm"
| "ra_base (Sh rs1 rs2 imm) = Sh rs1 rs2 imm"
| "ra_base (Sw rs1 rs2 imm) = Sw rs1 rs2 imm"
| "ra_base (Sd rs1 rs2 imm) = Sd rs1 rs2 imm"

primrec ra_arith :: "ArithInstr \<Rightarrow> ArithInstr" where
  "ra_arith (Addi rd rs1 imm) = Addi Ra rs1 imm"
| "ra_arith (Slti rd rs1 imm) = Slti Ra rs1 imm"
| "ra_arith (Sltiu rd rs1 imm) = Sltiu Ra rs1 imm"
| "ra_arith (Xori rd rs1 imm) = Xori Ra rs1 imm"
| "ra_arith (Ori rd rs1 imm) = Ori Ra rs1 imm"
| "ra_arith (Andi rd rs1 imm) = Andi Ra rs1 imm"
| "ra_arith (Slli rd rs1 shamt) = Slli Ra rs1 shamt"
| "ra_arith (Srli rd rs1 shamt) = Srli Ra rs1 shamt"
| "ra_arith (Srai rd rs1 shamt) = Srai Ra rs1 shamt"
| "ra_arith (Add rd rs1 rs2) = Add Ra rs1 rs2"
| "ra_arith (Sub rd rs1 rs2) = Sub Ra rs1 rs2"
| "ra_arith (Sll rd rs1 rs2) = Sll Ra rs1 rs2"
| "ra_arith (Slt rd rs1 rs2) = Slt Ra rs1 rs2"
| "ra_arith (Sltu rd rs1 rs2) = Sltu Ra rs1 rs2"
| "ra_arith (Xor rd rs1 rs2) = Xor Ra rs1 rs2"
| "ra_arith (Srl rd rs1 rs2) = Srl Ra rs1 rs2"
| "ra_arith (Sra rd rs1 rs2) = Sra Ra rs1 rs2"
| "ra_arith (Or rd rs1 rs2) = Or Ra rs1 rs2"
| "ra_arith (And rd rs1 rs2) = And Ra rs1 rs2"
| "ra_arith (Addw rd rs1 rs2) = Addw Ra rs1 rs2"
| "ra_arith (Subw rd rs1 rs2) = Subw Ra rs1 rs2"
| "ra_arith (Sllw rd rs1 rs2) = Sllw Ra rs1 rs2"
| "ra_arith (Srlw rd rs1 rs2) = Srlw Ra rs1 rs2"
| "ra_arith (Sraw rd rs1 rs2) = Sraw Ra rs1 rs2"
| "ra_arith (Addiw rd rs1 imm) = Addiw Ra rs1 imm"
| "ra_arith (Slliw rd rs1 shamt) = Slliw Ra rs1 shamt"
| "ra_arith (Srliw rd rs1 shamt) = Srliw Ra rs1 shamt"
| "ra_arith (Sraiw rd rs1 shamt) = Sraiw Ra rs1 shamt"

primrec ra_muldiv :: "MInstr \<Rightarrow> MInstr" where
  "ra_muldiv (Mul rd rs1 rs2) = Mul Ra rs1 rs2"
| "ra_muldiv (Mulh rd rs1 rs2) = Mulh Ra rs1 rs2"
| "ra_muldiv (Mulhsu rd rs1 rs2) = Mulhsu Ra rs1 rs2"
| "ra_muldiv (Mulhu rd rs1 rs2) = Mulhu Ra rs1 rs2"
| "ra_muldiv (Div rd rs1 rs2) = Div Ra rs1 rs2"
| "ra_muldiv (Divu rd rs1 rs2) = Divu Ra rs1 rs2"
| "ra_muldiv (Rem rd rs1 rs2) = Rem Ra rs1 rs2"
| "ra_muldiv (Remu rd rs1 rs2) = Remu Ra rs1 rs2"

primrec ra_sys :: "SysInstr \<Rightarrow> SysInstr" where
  "ra_sys (Csrrw rd csr rs1) = Csrrw Ra csr rs1"
| "ra_sys (Csrrs rd csr rs1) = Csrrs Ra csr rs1"
| "ra_sys (Csrrc rd csr rs1) = Csrrc Ra csr rs1"
| "ra_sys (Csrrwi rd csr uimm) = Csrrwi Ra csr uimm"
| "ra_sys (Csrrsi rd csr uimm) = Csrrsi Ra csr uimm"
| "ra_sys (Csrrci rd csr uimm) = Csrrci Ra csr uimm"
| "ra_sys FenceI = FenceI"
| "ra_sys Ecall = Ecall"
| "ra_sys Ebreak = Ebreak"
| "ra_sys (Fence pred succ) = Fence pred succ"
| "ra_sys Nop = Nop"



text \<open>The operands fit their fields.\<close>

definition base_ok :: "BaseInstr \<Rightarrow> bool" where
  "base_ok i = (case i of
       Lui _ imm \<Rightarrow> imm AND 0xFFF = 0 | Auipc _ imm \<Rightarrow> imm AND 0xFFF = 0
     | Jal _ offset \<Rightarrow> simm 20 offset \<and> \<not> bit offset 0 | Jalr _ _ imm \<Rightarrow> simm 11 imm
     | Beq _ _ offset \<Rightarrow> simm 12 offset \<and> \<not> bit offset 0 | Bne _ _ offset \<Rightarrow> simm 12 offset \<and> \<not> bit offset 0
     | Blt _ _ offset \<Rightarrow> simm 12 offset \<and> \<not> bit offset 0 | Bge _ _ offset \<Rightarrow> simm 12 offset \<and> \<not> bit offset 0
     | Bltu _ _ offset \<Rightarrow> simm 12 offset \<and> \<not> bit offset 0 | Bgeu _ _ offset \<Rightarrow> simm 12 offset \<and> \<not> bit offset 0
     | Lb _ _ imm \<Rightarrow> simm 11 imm | Lh _ _ imm \<Rightarrow> simm 11 imm | Lw _ _ imm \<Rightarrow> simm 11 imm | Ld _ _ imm \<Rightarrow> simm 11 imm
     | Lbu _ _ imm \<Rightarrow> simm 11 imm | Lhu _ _ imm \<Rightarrow> simm 11 imm | Lwu _ _ imm \<Rightarrow> simm 11 imm
     | Sb _ _ imm \<Rightarrow> simm 11 imm | Sh _ _ imm \<Rightarrow> simm 11 imm | Sw _ _ imm \<Rightarrow> simm 11 imm | Sd _ _ imm \<Rightarrow> simm 11 imm)"

definition arith_ok :: "ArithInstr \<Rightarrow> bool" where
  "arith_ok i = (case i of
       Addi _ _ imm \<Rightarrow> simm 11 imm | Slti _ _ imm \<Rightarrow> simm 11 imm | Sltiu _ _ imm \<Rightarrow> simm 11 imm | Xori _ _ imm \<Rightarrow> simm 11 imm
     | Ori _ _ imm \<Rightarrow> simm 11 imm | Andi _ _ imm \<Rightarrow> simm 11 imm | Addiw _ _ imm \<Rightarrow> simm 11 imm
     | Slli _ _ shamt \<Rightarrow> shamt < 64 | Srli _ _ shamt \<Rightarrow> shamt < 64 | Srai _ _ shamt \<Rightarrow> shamt < 64
     | Slliw _ _ shamt \<Rightarrow> shamt < 32 | Srliw _ _ shamt \<Rightarrow> shamt < 32 | Sraiw _ _ shamt \<Rightarrow> shamt < 32
     | _ \<Rightarrow> True)"

definition fp_ok :: "FpInstr \<Rightarrow> bool" where
  "fp_ok i = (case i of Flw _ _ imm \<Rightarrow> simm 11 imm | Fld _ _ imm \<Rightarrow> simm 11 imm | Fsw _ _ imm \<Rightarrow> simm 11 imm | Fsd _ _ imm \<Rightarrow> simm 11 imm
     | _ \<Rightarrow> True)"

definition sys_ok :: "SysInstr \<Rightarrow> bool" where
  "sys_ok i = (case i of
       Csrrw _ csr _ \<Rightarrow> csr < 0x1000 | Csrrs _ csr _ \<Rightarrow> csr < 0x1000 | Csrrc _ csr _ \<Rightarrow> csr < 0x1000
     | Csrrwi _ csr uimm \<Rightarrow> csr < 0x1000 \<and> uimm < 32 | Csrrsi _ csr uimm \<Rightarrow> csr < 0x1000 \<and> uimm < 32
     | Csrrci _ csr uimm \<Rightarrow> csr < 0x1000 \<and> uimm < 32
     | Fence pred succ \<Rightarrow> pred < 16 \<and> succ < 16 | _ \<Rightarrow> True)"

primrec operands_ok :: "Instruction \<Rightarrow> bool" where
  "operands_ok (Base i) = base_ok i"
| "operands_ok (Arith i) = arith_ok i"
| "operands_ok (MulDiv i) = True"
| "operands_ok (Fp i) = fp_ok i"
| "operands_ok (FpConv i) = True"
| "operands_ok (Sys i) = sys_ok i"
| "operands_ok (Atomic i) = True"

text \<open>The result of the decoder on the code of an instruction.\<close>

definition decoded_fp :: "FpInstr \<Rightarrow> Instruction option" where
  "decoded_fp i = (case i of
       FsgnjD rd rs1 rs2 \<Rightarrow> if rs1 = rs2 then Some (Fp (FmvD rd rs1)) else None
     | FaddS _ _ _ \<Rightarrow> None | FsubS _ _ _ \<Rightarrow> None | FmulS _ _ _ \<Rightarrow> None | FdivS _ _ _ \<Rightarrow> None | FsqrtS _ _ \<Rightarrow> None | FminS _ _ _ \<Rightarrow> None
     | FmaxS _ _ _ \<Rightarrow> None | FsgnjS _ _ _ \<Rightarrow> None | FsgnjnS _ _ _ \<Rightarrow> None | FsgnjxS _ _ _ \<Rightarrow> None | FclassS _ _ \<Rightarrow> None | FmvS _ _ \<Rightarrow> None
     | FsqrtD _ _ \<Rightarrow> None | FminD _ _ _ \<Rightarrow> None | FmaxD _ _ _ \<Rightarrow> None | FsgnjnD _ _ _ \<Rightarrow> None | FsgnjxD _ _ _ \<Rightarrow> None | FclassD _ _ \<Rightarrow> None
     | _ \<Rightarrow> Some (Fp i))"

definition decoded_fpconv :: "FpConvInstr \<Rightarrow> Instruction option" where
  "decoded_fpconv i = (case i of
       FeqD _ _ _ \<Rightarrow> None | FltD _ _ _ \<Rightarrow> None | FleD _ _ _ \<Rightarrow> None | FeqS _ _ _ \<Rightarrow> None | FltS _ _ _ \<Rightarrow> None | FleS _ _ _ \<Rightarrow> None
     | FcvtLS _ _ \<Rightarrow> None | FcvtLUS _ _ \<Rightarrow> None | FcvtLD _ _ \<Rightarrow> None | FcvtLUD _ _ \<Rightarrow> None
     | FmvXW _ _ \<Rightarrow> None | FmvWX _ _ \<Rightarrow> None | FmvXD _ _ \<Rightarrow> None | FmvDX _ _ \<Rightarrow> None
     | _ \<Rightarrow> Some (FpConv i))"

definition decoded_atomic :: "AtomicInstr \<Rightarrow> Instruction option" where
  "decoded_atomic i = (case i of
       LrD _ rs1 \<Rightarrow> Some (Atomic (LrD Ra rs1)) | LrW _ rs1 \<Rightarrow> Some (Atomic (LrD Ra rs1))
     | ScD _ rs1 rs2 \<Rightarrow> Some (Atomic (ScD Ra rs1 rs2)) | ScW _ rs1 rs2 \<Rightarrow> Some (Atomic (ScD Ra rs1 rs2))
     | _ \<Rightarrow> None)"

definition decoded_arith :: "ArithInstr \<Rightarrow> Instruction option" where
  "decoded_arith i = (case i of Srai _ rs1 shamt \<Rightarrow> Some (Arith (if shamt < 32 then Srai Ra rs1 shamt else Srli Ra rs1 shamt))
     | _ \<Rightarrow> Some (Arith (ra_arith i)))"

primrec decoded :: "Instruction \<Rightarrow> Instruction option" where
  "decoded (Base i) = Some (Base (ra_base i))"
| "decoded (Arith i) = decoded_arith i"
| "decoded (MulDiv i) = Some (MulDiv (ra_muldiv i))"
| "decoded (Fp i) = decoded_fp i"
| "decoded (FpConv i) = decoded_fpconv i"
| "decoded (Sys i) = Some (if i = Nop then Arith (Addi Ra Zero 0) else Sys (ra_sys i))"
| "decoded (Atomic i) = decoded_atomic i"

lemmas type_fields = r_type_fields i_type_fields s_type_fields b_type_fields u_type_fields j_type_fields
  i_type_imm s_type_imm i_type_funct7

lemma lui_imm: "imm AND 0xFFF = 0 \<Longrightarrow> push_bit 12 (drop_bit 12 (imm :: u32)) = imm"
  unfolding masks by (metis bits_ident add.right_neutral)

lemma muldiv_decoded: "decode (of_le_bytes (encode_muldiv i)) = Some (MulDiv (ra_muldiv i))"
  by (cases i) (simp_all add: decode_def type_fields decode_op_def)

lemma imm_masked: "simm 11 imm \<Longrightarrow> signed_take_bit 11 (imm AND 0xFFF) = imm"
  using simm_signed_take_bit [of 11 imm] by (simp add: masks signed_take_bit_take_bit)

lemma base_decoded: "base_ok i \<Longrightarrow> decode (of_le_bytes (encode_base i)) = Some (Base (ra_base i))"
  by (cases i)
    (simp_all add: base_ok_def decode_def type_fields decode_branch_def decode_load_def decode_store_def b_type_offset j_type_offset lui_imm
      imm_masked)

lemma atomic_decoded: "decode (of_le_bytes (encode_atomic i)) = decoded_atomic i"
  by (cases i) (simp_all add: decode_def type_fields decode_amo_def decoded_atomic_def)

lemma fpr_encoding_inj: "take_bit 5 (fpr_encoding a) = take_bit 5 (fpr_encoding b) \<longleftrightarrow> a = b"
  by (metis fpr_round option.inject)

lemma fp_decoded: "fp_ok i \<Longrightarrow> decode (of_le_bytes (encode_fp i)) = decoded_fp i"
  by (cases i) (simp_all add: fp_ok_def decode_def type_fields decode_load_fp_def decode_store_fp_def decode_fp_def decode_fp_arith_def decoded_fp_def
      fpr_encoding_inj imm_masked)

lemma fpconv_decoded: "decode (of_le_bytes (encode_fpconv i)) = decoded_fpconv i"
  by (cases i) (simp_all add: decode_def type_fields decode_fp_def fp_arm_def decode_fp_arith_def decoded_fpconv_def)


lemma small_operands:
  fixes w :: u32
  shows "w < 16 \<Longrightarrow> take_bit 4 w = w" "w < 32 \<Longrightarrow> take_bit 5 w = w" "w < 64 \<Longrightarrow> take_bit 6 w = w" "w < 0x1000 \<Longrightarrow> take_bit 12 w = w"
  by (simp_all add: word_unat_eq_iff unsigned_take_bit_eq take_bit_nat_eq_self word_less_nat_alt)

text \<open>The shifts by an immediate are instructions of the I format.\<close>

lemma shift_code:
  assumes "sh AND 0xFFF = sh" "f3 AND 0x7 = f3" "op AND 0x7F = op"
  shows "le_bytes 4 (push_bit 20 sh OR push_bit 15 (gpr_encoding rs1) OR push_bit 12 f3 OR push_bit 7 (gpr_encoding rd) OR op)
    = encode_i_type sh (gpr_encoding rs1) f3 (gpr_encoding rd) op"
  by (simp add: encode_i_type_def assms masks(4) gpr_encoding_small)

lemma shift_masks:
  "(sh AND 0x3F) AND 0xFFF = (sh AND 0x3F :: u32)" "(sh AND 0x1F) AND 0xFFF = (sh AND 0x1F :: u32)"
  "(0x400 OR (sh AND 0x3F)) AND 0xFFF = (0x400 OR (sh AND 0x3F) :: u32)" "(0x400 OR (sh AND 0x1F)) AND 0xFFF = (0x400 OR (sh AND 0x1F) :: u32)"
  by (simp_all add: and.assoc bit.conj_disj_distrib2)

lemma shift_top: "push_bit 25 (0b0100000 :: u32) OR (push_bit 20 sh OR r) = push_bit 20 (0x400 OR sh) OR r"
  by (simp add: push_bit_or or.assoc)

lemma shifts_i_type:
  "encode_arith (Slli rd rs1 sh) = encode_i_type (sh AND 0x3F) (gpr_encoding rs1) 0b001 (gpr_encoding rd) OP_IMM"
  "encode_arith (Srli rd rs1 sh) = encode_i_type (sh AND 0x3F) (gpr_encoding rs1) 0b101 (gpr_encoding rd) OP_IMM"
  "encode_arith (Srai rd rs1 sh) = encode_i_type (0x400 OR (sh AND 0x3F)) (gpr_encoding rs1) 0b101 (gpr_encoding rd) OP_IMM"
  "encode_arith (Slliw rd rs1 sh) = encode_i_type (sh AND 0x1F) (gpr_encoding rs1) 0b001 (gpr_encoding rd) OP_IMM32"
  "encode_arith (Srliw rd rs1 sh) = encode_i_type (sh AND 0x1F) (gpr_encoding rs1) 0b101 (gpr_encoding rd) OP_IMM32"
  "encode_arith (Sraiw rd rs1 sh) = encode_i_type (0x400 OR (sh AND 0x1F)) (gpr_encoding rs1) 0b101 (gpr_encoding rd) OP_IMM32"
  unfolding encode_arith.simps or.assoc shift_top by (rule shift_code; simp add: shift_masks)+

lemma shift_fields:
  fixes sh :: u32
  assumes "sh < 64"
  shows "sh AND 0x3F = sh" "take_bit 12 sh = sh" "(0x400 OR sh) AND 0x3F = sh" "drop_bit 5 sh = (if sh < 32 then 0 else 1)"
proof -
  show s: "sh AND 0x3F = sh" "take_bit 12 sh = sh" using assms by (simp_all add: masks small_operands word_less_nat_alt)
  show "(0x400 OR sh) AND 0x3F = sh" using s(1) by (simp add: bit.conj_disj_distrib2)
  have "unat sh div 32 = (if unat sh < 32 then 0 else 1)" using assms by (auto simp: word_less_nat_alt)
  then show "drop_bit 5 sh = (if sh < 32 then 0 else 1)"
    unfolding word_unat_eq_iff unat_drop_bit_eq drop_bit_nat_def word_less_nat_alt by simp
qed

lemma shift_fields_32:
  fixes sh :: u32
  assumes "sh < 32"
  shows "sh AND 0x1F = sh" "(0x400 OR sh) AND 0x1F = sh" "take_bit 12 sh = sh" "drop_bit 5 sh = 0"
proof -
  have "sh < 64" using assms by (simp add: word_less_nat_alt)
  then show s: "sh AND 0x1F = sh" "take_bit 12 sh = sh" "drop_bit 5 sh = 0"
    using assms by (simp_all add: masks small_operands shift_fields)
  show "(0x400 OR sh) AND 0x1F = sh" using s(1) by (simp add: bit.conj_disj_distrib2)
qed

lemma arith_decoded: "arith_ok i \<Longrightarrow> decode (of_le_bytes (encode_arith i)) = decoded_arith i"
  by (cases i; simp_all only: shifts_i_type)
    (simp_all add: arith_ok_def decode_def type_fields decode_op_def decode_op_imm_def decode_op_32_def decode_op_imm_32_def imm_masked
      shift_fields shift_fields_32 decoded_arith_def)

lemma not_a_call:
  assumes "take_bit 3 f3 \<noteq> 0"
  shows "of_le_bytes (encode_i_type c r f3 d op) \<noteq> (0x73 :: u32)" "of_le_bytes (encode_i_type c r f3 d op) \<noteq> (0x100073 :: u32)"
proof -
  have "fld_funct3 0x73 = 0" "fld_funct3 0x100073 = 0" by (simp_all add: fld_funct3_def)
  then show "of_le_bytes (encode_i_type c r f3 d op) \<noteq> (0x73 :: u32)" "of_le_bytes (encode_i_type c r f3 d op) \<noteq> (0x100073 :: u32)"
    using assms i_type_fields(3) [of c r f3 d op] by auto
qed

lemma gpr_found: "x < 32 \<Longrightarrow> gpr_from_encoding x = Some (gprs ! unat x)"
  by (simp add: gpr_from_encoding_def word_less_nat_alt)

lemma fence_fields:
  fixes x :: u32
  assumes "x < 16"
  shows "take_bit 4 (drop_bit 4 (take_bit 8 (push_bit 4 x))) = x" "take_bit 4 (drop_bit 4 (take_bit 8 x)) = 0" "take_bit 4 (push_bit 4 x) = 0"
proof -
  have x: "x = take_bit 4 x" using small_operands(1) [OF assms] by simp
  show "take_bit 4 (drop_bit 4 (take_bit 8 (push_bit 4 x))) = x" "take_bit 4 (drop_bit 4 (take_bit 8 x)) = 0" "take_bit 4 (push_bit 4 x) = 0"
    by (subst x, rule bit_word_eqI, auto simp: bit_simps)+
qed

lemma call_opcodes: "fld_opcode 0x73 = 0x73" "fld_opcode 0x100073 = 0x73"
  by (simp_all add: fld_opcode_def)

lemma sys_decoded: "sys_ok i \<Longrightarrow> decode (of_le_bytes (encode_sys i)) = Some (if i = Nop then Arith (Addi Ra Zero 0) else Sys (ra_sys i))"
  by (cases i)
    (simp_all add: sys_ok_def decode_def type_fields decode_system_def decode_misc_mem_def decode_op_imm_def masks small_operands not_a_call
      gpr_found fence_fields of_le_word call_opcodes gprs_def)



section \<open>Instructions the machine code confuses\<close>

text \<open>The decoder drops the destination and takes a long arithmetic shift for a logical one.\<close>

lemma decode_loses_rd: "decode (of_le_bytes (encode (Arith (Addi T0 S0 16)))) = Some (Arith (Addi Ra S0 16))"
  by code_simp

lemma decode_long_srai: "decode (of_le_bytes (encode (Arith (Srai Ra T0 40)))) = Some (Arith (Srli Ra T0 40))"
  by code_simp

text \<open>Doubleword and word-sized reservations have the same code, that of the word-sized ones (\<^verbatim>\<open>funct3\<close> is \<^verbatim>\<open>0b010\<close>).\<close>

lemma reservation_width_lost: "encode_atomic (LrD rd rs1) = encode_atomic (LrW rd rs1)" "encode_atomic (ScD rd rs1 rs2) = encode_atomic (ScW rd rs1 rs2)"
  by simp_all

text \<open>
  The operation of an atomic instruction is \<^verbatim>\<open>funct5\<close>, the upper five bits of \<^verbatim>\<open>funct7\<close>; the maximum and the minimum share it, and
  differ in the ordering bits only.
\<close>

definition funct5 :: "u32 \<Rightarrow> u32" where
  "funct5 word = drop_bit 2 (fld_funct7 word)"

lemma amo_min_is_max:
  "funct5 (of_le_bytes (encode_atomic (AmomaxW rd rs1 rs2))) = funct5 (of_le_bytes (encode_atomic (AmominW rd rs1 rs2)))"
  "funct5 (of_le_bytes (encode_atomic (AmomaxD rd rs1 rs2))) = funct5 (of_le_bytes (encode_atomic (AmominD rd rs1 rs2)))"
  "funct5 (of_le_bytes (encode_atomic (AmomaxWu rd rs1 rs2))) = funct5 (of_le_bytes (encode_atomic (AmominWu rd rs1 rs2)))"
  "funct5 (of_le_bytes (encode_atomic (AmomaxDu rd rs1 rs2))) = funct5 (of_le_bytes (encode_atomic (AmominDu rd rs1 rs2)))"
  by (simp_all add: funct5_def type_fields)

end
