(* ===== verification/Rv64_Machine.thy ===== *)
theory Rv64_Machine
  imports Rv64_Decode
begin

text \<open>
  A reference machine for the code the RV64 back end emits: the integer instructions of the RISC-V unprivileged ISA that the helper
  sequences use, read off the 32-bit words of the code. The machine takes every field from the word, independent of the decoder of the
  back end, whose results it does not use. The program counter is a byte offset into the code.
\<close>

section \<open>Machine\<close>

record mach =
  m_pc :: nat
  m_regs :: "Gpr \<Rightarrow> u64"
  m_mem :: "u64 \<Rightarrow> u8"

definition rget :: "mach \<Rightarrow> Gpr \<Rightarrow> u64" where
  "rget m r = (if r = Zero then 0 else m_regs m r)"

definition rset :: "Gpr \<Rightarrow> u64 \<Rightarrow> mach \<Rightarrow> mach" where
  "rset r v m = m\<lparr>m_regs := (m_regs m)(r := v)\<rparr>"

definition next_pc :: "mach \<Rightarrow> mach" where
  "next_pc m = m\<lparr>m_pc := m_pc m + 4\<rparr>"

definition jump :: "i32 \<Rightarrow> mach \<Rightarrow> mach option" where
  "jump offset m = (let t = int (m_pc m) + sint offset in if 0 \<le> t then Some (m\<lparr>m_pc := nat t\<rparr>) else None)"

definition load64 :: "(u64 \<Rightarrow> u8) \<Rightarrow> u64 \<Rightarrow> u64" where
  "load64 mem a = of_le_bytes (map (\<lambda>k. mem (a + of_nat k)) [0..<8])"

definition store64 :: "u64 \<Rightarrow> u64 \<Rightarrow> (u64 \<Rightarrow> u8) \<Rightarrow> u64 \<Rightarrow> u8" where
  "store64 a v mem = (\<lambda>b. if unat (b - a) < 8 then le_bytes 8 v ! unat (b - a) else mem b)"

definition truth :: "bool \<Rightarrow> u64" where
  "truth b = (if b then 1 else 0)"

definition op_imm :: "u32 \<Rightarrow> u64 \<Rightarrow> u64 option" where
  "op_imm word x =
     (let imm = scast (imm_i word) :: u64; shamt = unat (drop_bit 20 word AND 0x3F); funct6 = drop_bit 1 (fld_funct7 word) in
      if fld_funct3 word = 0b000 then Some (x + imm)
      else if fld_funct3 word = 0b010 then Some (truth (x <s imm))
      else if fld_funct3 word = 0b011 then Some (truth (x < imm))
      else if fld_funct3 word = 0b100 then Some (x XOR imm)
      else if fld_funct3 word = 0b110 then Some (x OR imm)
      else if fld_funct3 word = 0b111 then Some (x AND imm)
      else if fld_funct3 word = 0b001 \<and> funct6 = 0 then Some (push_bit shamt x)
      else if fld_funct3 word = 0b101 \<and> funct6 = 0 then Some (drop_bit shamt x)
      else if fld_funct3 word = 0b101 \<and> funct6 = 0b010000 then Some (signed_drop_bit shamt x)
      else None)"

definition op_reg :: "u32 \<Rightarrow> u64 \<Rightarrow> u64 \<Rightarrow> u64 option" where
  "op_reg word x y =
     (let f = (fld_funct7 word, fld_funct3 word); sh = unat (y AND 0x3F) in
      if f = (0b0000000, 0b000) then Some (x + y)
      else if f = (0b0100000, 0b000) then Some (x - y)
      else if f = (0b0000000, 0b001) then Some (push_bit sh x)
      else if f = (0b0000000, 0b010) then Some (truth (x <s y))
      else if f = (0b0000000, 0b011) then Some (truth (x < y))
      else if f = (0b0000000, 0b100) then Some (x XOR y)
      else if f = (0b0000000, 0b101) then Some (drop_bit sh x)
      else if f = (0b0100000, 0b101) then Some (signed_drop_bit sh x)
      else if f = (0b0000000, 0b110) then Some (x OR y)
      else if f = (0b0000000, 0b111) then Some (x AND y)
      else if f = (0b0000001, 0b000) then Some (x * y)
      else None)"

definition reg :: "u32 \<Rightarrow> Gpr" where
  "reg idx = gprs ! unat idx"

text \<open>One word. A word outside the part of the instruction set that is described stops the machine.\<close>

definition exec :: "u32 \<Rightarrow> mach \<Rightarrow> mach option" where
  "exec word m =
     (let rd = reg (fld_rd word); x = rget m (reg (fld_rs1 word)); y = rget m (reg (fld_rs2 word)) in
      if fld_opcode word = 0b0110111 then Some (next_pc (rset rd (scast (imm_u word)) m))
      else if fld_opcode word = 0b0010011 then map_option (\<lambda>v. next_pc (rset rd v m)) (op_imm word x)
      else if fld_opcode word = 0b0110011 then map_option (\<lambda>v. next_pc (rset rd v m)) (op_reg word x y)
      else if fld_opcode word = 0b1101111 then jump (imm_j word) (rset rd (of_nat (m_pc m) + 4) m)
      else if fld_opcode word = 0b1100011 \<and> fld_funct3 word = 0b000 then (if x = y then jump (imm_b word) m else Some (next_pc m))
      else if fld_opcode word = 0b0000011 \<and> fld_funct3 word = 0b011 then
        Some (next_pc (rset rd (load64 (m_mem m) (x + scast (imm_i word))) m))
      else if fld_opcode word = 0b0100011 \<and> fld_funct3 word = 0b011 then
        Some (next_pc (m\<lparr>m_mem := store64 (x + scast (imm_s word)) y (m_mem m)\<rparr>))
      else None)"

definition fetch :: "bytes \<Rightarrow> nat \<Rightarrow> u32 option" where
  "fetch code pc = (if pc + 4 \<le> length code then Some (of_le_bytes (take 4 (drop pc code))) else None)"

text \<open>Runs until the program counter is just behind the code; \<open>None\<close> when the fuel is used up, or a fetch or an instruction fails.\<close>

fun run :: "nat \<Rightarrow> bytes \<Rightarrow> mach \<Rightarrow> mach option" where
  "run 0 code m = (if m_pc m = length code then Some m else None)"
| "run (Suc n) code m = (if m_pc m = length code then Some m else do { word \<leftarrow> fetch code (m_pc m); m1 \<leftarrow> exec word m; run n code m1 })"


section \<open>The effect of the instructions\<close>

definition ex :: "Instruction \<Rightarrow> mach \<Rightarrow> mach option" where
  "ex i = exec (of_le_bytes (encode i))"

definition write_reg :: "Gpr \<Rightarrow> u64 \<Rightarrow> mach \<Rightarrow> mach" where
  "write_reg r v m = next_pc (rset r v m)"

lemma reg_round [simp]: "reg (take_bit 5 (gpr_encoding r)) = r"
  by (cases r) (simp_all add: reg_def gprs_def)

lemma imm_masked_take: "signed_take_bit 11 (imm AND 0xFFF) = signed_take_bit 11 (imm :: u32)"
  by (simp add: masks signed_take_bit_take_bit)

lemmas ex_defs = ex_def exec_def type_fields op_imm_def op_reg_def write_reg_def

lemma ex_lui: "ex (Base (Lui rd imm)) m = Some (write_reg rd (scast (push_bit 12 (drop_bit 12 imm))) m)"
  by (simp add: ex_defs)

lemma ex_jal: "simm 20 off \<Longrightarrow> \<not> bit off 0 \<Longrightarrow> ex (Base (Jal rd off)) m = jump off (rset rd (of_nat (m_pc m) + 4) m)"
  by (simp add: ex_defs j_type_offset)

lemma ex_beq: "simm 12 off \<Longrightarrow> \<not> bit off 0 \<Longrightarrow>
    ex (Base (Beq rs1 rs2 off)) m = (if rget m rs1 = rget m rs2 then jump off m else Some (next_pc m))"
  by (simp add: ex_defs b_type_offset)

lemma ex_ld: "simm 11 imm \<Longrightarrow> ex (Base (Ld rd rs1 imm)) m = Some (write_reg rd (load64 (m_mem m) (rget m rs1 + scast imm)) m)"
  by (simp add: ex_defs imm_masked)

lemma ex_sd: "simm 11 imm \<Longrightarrow>
    ex (Base (Sd rs1 rs2 imm)) m = Some (next_pc (m\<lparr>m_mem := store64 (rget m rs1 + scast imm) (rget m rs2) (m_mem m)\<rparr>))"
  by (simp add: ex_defs imm_masked)

lemma ex_imm:
  assumes "simm 11 imm"
  shows "ex (Arith (Addi rd rs1 imm)) m = Some (write_reg rd (rget m rs1 + scast imm) m)"
    "ex (Arith (Sltiu rd rs1 imm)) m = Some (write_reg rd (truth (rget m rs1 < scast imm)) m)"
    "ex (Arith (Xori rd rs1 imm)) m = Some (write_reg rd (rget m rs1 XOR scast imm) m)"
  using assms by (simp_all add: ex_defs imm_masked)

lemma ex_shift:
  assumes "sh < 64"
  shows "ex (Arith (Slli rd rs1 sh)) m = Some (write_reg rd (push_bit (unat sh) (rget m rs1)) m)"
    "ex (Arith (Srli rd rs1 sh)) m = Some (write_reg rd (drop_bit (unat sh) (rget m rs1)) m)"
proof -
  have d: "drop_bit (Suc 0) (drop_bit 5 sh) = 0" using shift_fields(4) [OF assms] by simp
  show "ex (Arith (Slli rd rs1 sh)) m = Some (write_reg rd (push_bit (unat sh) (rget m rs1)) m)"
    "ex (Arith (Srli rd rs1 sh)) m = Some (write_reg rd (drop_bit (unat sh) (rget m rs1)) m)"
    unfolding ex_def encode.simps shifts_i_type
    using shift_fields(1,2) [OF assms] d by (simp_all add: exec_def type_fields op_imm_def write_reg_def)
qed

lemma ex_reg:
  "ex (Arith (Add rd rs1 rs2)) m = Some (write_reg rd (rget m rs1 + rget m rs2) m)"
  "ex (Arith (Sub rd rs1 rs2)) m = Some (write_reg rd (rget m rs1 - rget m rs2) m)"
  "ex (Arith (Slt rd rs1 rs2)) m = Some (write_reg rd (truth (rget m rs1 <s rget m rs2)) m)"
  "ex (Arith (Sltu rd rs1 rs2)) m = Some (write_reg rd (truth (rget m rs1 < rget m rs2)) m)"
  "ex (Arith (Xor rd rs1 rs2)) m = Some (write_reg rd (rget m rs1 XOR rget m rs2) m)"
  "ex (Arith (Or rd rs1 rs2)) m = Some (write_reg rd (rget m rs1 OR rget m rs2) m)"
  "ex (Arith (And rd rs1 rs2)) m = Some (write_reg rd (rget m rs1 AND rget m rs2) m)"
  "ex (MulDiv (Mul rd rs1 rs2)) m = Some (write_reg rd (rget m rs1 * rget m rs2) m)"
  by (simp_all add: ex_defs)

lemma rget_simps [simp]:
  "rget (write_reg r v m) q = (if q = Zero then 0 else if q = r then v else rget m q)"
  "rget (next_pc m) q = rget m q" "rget (m\<lparr>m_mem := f\<rparr>) q = rget m q" "rget m Zero = 0" "rget (m\<lparr>m_pc := p\<rparr>) q = rget m q"
  by (simp_all add: rget_def write_reg_def rset_def next_pc_def)

lemma mach_simps [simp]:
  "m_pc (write_reg r v m) = m_pc m + 4" "m_pc (next_pc m) = m_pc m + 4" "m_mem (write_reg r v m) = m_mem m" "m_mem (next_pc m) = m_mem m"
  by (simp_all add: write_reg_def rset_def next_pc_def)

section \<open>Emitted code\<close>

text \<open>The bytes of a sequence of \<^verbatim>\<open>code.extend(instruction.encode())\<close>.\<close>

definition emit :: "Instruction list \<Rightarrow> bytes" where
  "emit is = concat (map encode is)"

lemma emit_simps [simp]: "emit [] = []" "emit (i # is) = encode i @ emit is" "emit (is @ js) = emit is @ emit js"
  by (simp_all add: emit_def)

lemma length_encode [simp]: "length (encode i) = 4"
proof -
  note defs = encode_r_type_def encode_i_type_def encode_s_type_def encode_b_type_def encode_u_type_def encode_j_type_def Let_def
  have "length (encode_base j) = 4" for j by (cases j) (simp_all add: defs)
  moreover have "length (encode_arith j) = 4" for j by (cases j) (simp_all add: defs)
  moreover have "length (encode_muldiv j) = 4" for j by (cases j) (simp_all add: defs)
  moreover have "length (encode_fp j) = 4" for j by (cases j) (simp_all add: defs)
  moreover have "length (encode_fpconv j) = 4" for j by (cases j) (simp_all add: defs)
  moreover have "length (encode_sys j) = 4" for j by (cases j) (simp_all add: defs)
  moreover have "length (encode_atomic j) = 4" for j by (cases j) (simp_all add: defs)
  ultimately show ?thesis by (cases i) simp_all
qed

lemma length_emit [simp]: "length (emit is) = 4 * length is"
  by (induction "is") simp_all

lemma fetch_emit: "fetch (emit (pre @ i # post)) (4 * length pre) = Some (of_le_bytes (encode i))"
  by (simp add: fetch_def)

text \<open>Straight-line code.\<close>

fun seq :: "Instruction list \<Rightarrow> mach \<Rightarrow> mach option" where
  "seq [] m = Some m"
| "seq (i # is) m = do { m1 \<leftarrow> ex i m; seq is m1 }"

lemma seq_append: "seq (is @ js) m = do { m1 \<leftarrow> seq is m; seq js m1 }"
  by (induction "is" arbitrary: m) (auto split: bind_splits)

primrec straight :: "Instruction \<Rightarrow> bool" where
  "straight (Base i) = (case i of Lui _ _ \<Rightarrow> True | Ld _ _ _ \<Rightarrow> True | Sd _ _ _ \<Rightarrow> True | _ \<Rightarrow> False)"
| "straight (Arith i) = True"
| "straight (MulDiv i) = True"
| "straight (Fp i) = False"
| "straight (FpConv i) = False"
| "straight (Sys i) = False"
| "straight (Atomic i) = False"

lemma straight_pc:
  assumes "ex i m = Some m'" "straight i"
  shows "m_pc m' = m_pc m + 4"
proof -
  have pc: "m_pc (rset r v m) = m_pc m" for r v by (simp add: rset_def)
  have op: "fld_opcode (of_le_bytes (encode i)) \<in> {0b0110111, 0b0010011, 0b0110011, 0b0011011, 0b0111011, 0b0000011, 0b0100011}"
    using assms(2)
  proof (cases i)
    case (Base j)
    then show ?thesis using assms(2) by (cases j) (simp_all add: type_fields)
  next
    case (Arith j)
    then show ?thesis by (cases j; simp_all only: encode.simps shifts_i_type) (simp_all add: type_fields)
  next
    case (MulDiv j)
    then show ?thesis by (cases j) (simp_all add: type_fields)
  qed simp_all
  show ?thesis using assms(1) op by (auto simp: ex_def exec_def Let_def pc split: if_splits)
qed

text \<open>The machine gets from one state to another inside a piece of code.\<close>

definition reaches :: "bytes \<Rightarrow> mach \<Rightarrow> mach \<Rightarrow> bool" where
  "reaches code m m' \<longleftrightarrow> (\<exists>n. \<forall>k. run (n + k) code m = run k code m')"

lemma reaches_refl: "reaches code m m"
  unfolding reaches_def by (rule exI [of _ 0]) simp

lemma reaches_trans:
  assumes "reaches code m1 m2" "reaches code m2 m3"
  shows "reaches code m1 m3"
proof -
  from assms obtain a b where ab: "\<forall>k. run (a + k) code m1 = run k code m2" "\<forall>k. run (b + k) code m2 = run k code m3"
    unfolding reaches_def by blast
  have "run (a + b + k) code m1 = run k code m3" for k using ab(1) [rule_format, of "b + k"] ab(2) by (simp add: add.assoc)
  then show ?thesis unfolding reaches_def by blast
qed

lemma reaches_end: "reaches code m m' \<Longrightarrow> m_pc m' = length code \<Longrightarrow> \<exists>n. run n code m = Some m'"
  unfolding reaches_def by (metis run.simps(1))

lemma reaches_step:
  assumes "ex i m = Some m'" "m_pc m = 4 * length pre"
  shows "reaches (emit (pre @ i # post)) m m'"
proof -
  have "run (Suc k) (emit (pre @ i # post)) m = run k (emit (pre @ i # post)) m'" for k
    using assms fetch_emit [of pre i post] by (simp add: ex_def del: emit_simps)
  then show ?thesis unfolding reaches_def by (intro exI [of _ 1]) simp
qed

lemma seq_pc: "seq is m = Some m' \<Longrightarrow> \<forall>i \<in> set is. straight i \<Longrightarrow> m_pc m' = m_pc m + 4 * length is"
proof (induction "is" arbitrary: m)
  case (Cons i "is")
  then obtain m1 where "ex i m = Some m1" "seq is m1 = Some m'" by (auto split: bind_splits)
  then show ?case using Cons straight_pc [of i m m1] by auto
qed simp

lemma reaches_seq:
  assumes "seq is m = Some m'" "\<forall>i \<in> set is. straight i" "m_pc m = 4 * length pre"
  shows "reaches (emit (pre @ is @ post)) m m'"
  using assms
proof (induction "is" arbitrary: pre m)
  case Nil
  then show ?case by (simp add: reaches_refl)
next
  case (Cons i "is")
  then obtain m1 where m1: "ex i m = Some m1" "seq is m1 = Some m'" by (auto split: bind_splits)
  have "m_pc m1 = 4 * length (pre @ [i])" using straight_pc [OF m1(1)] Cons.prems by simp
  then have "reaches (emit ((pre @ [i]) @ is @ post)) m1 m'" using Cons.IH [of m1 "pre @ [i]"] m1(2) Cons.prems(2) by simp
  then show ?case using reaches_trans [OF reaches_step [OF m1(1) Cons.prems(3), of "is @ post"]] by simp
qed

lemma run_seq:
  assumes "seq is m = Some m'" "\<forall>i \<in> set is. straight i" "m_pc m = 0"
  shows "\<exists>n. run n (emit is) m = Some m'"
  using reaches_end [of "emit is" m m'] reaches_seq [OF assms(1,2), of "[]" "[]"] seq_pc [OF assms(1,2)] assms(3) by simp

end
