(* ===== verification/Rv64_Isel.thy ===== *)
theory Rv64_Isel
  imports Rv64_Machine
begin

text \<open>
  Instruction sequences of the RV64 back end (\<^verbatim>\<open>codegen/src/riscv64/mod.rs\<close>): constants, stack slots, comparisons and bit counts. The
  theorems run the emitted bytes on the reference machine.
\<close>

section \<open>Constants\<close>

definition hi_part :: "u32 \<Rightarrow> u32" where
  "hi_part v = push_bit 12 (drop_bit 12 (v + 0x800))"

definition lo_part :: "u32 \<Rightarrow> i32" where
  "lo_part v = v - hi_part v"

text \<open>The upper and lower part of a 32-bit value; this sequence occurs four times in the source.\<close>

definition load_parts :: "Gpr \<Rightarrow> u32 \<Rightarrow> Instruction list" where
  "load_parts dst v = Base (Lui dst (hi_part v)) # (if lo_part v \<noteq> 0 then [Arith (Addi dst dst (lo_part v))] else [])"

definition load_imm_instrs :: "Gpr \<Rightarrow> i64 \<Rightarrow> Instruction list" where
  "load_imm_instrs dst val =
     (if - 2048 \<le> sint val \<and> sint val \<le> 2047 then [Arith (Addi dst Zero (ucast val))]
      else if val = scast (ucast val :: i32) then
        load_parts dst (ucast val)
        @ (if 0 \<le> sint val \<and> 0x80000000 \<le> hi_part (ucast val) then [Arith (Slli dst dst 32), Arith (Srli dst dst 32)] else [])
      else
        (let upper_32 = ucast (signed_drop_bit 32 val) :: u32; lower_32 = ucast val :: u32 in
         if upper_32 = 0 then load_parts dst lower_32 @ [Arith (Slli dst dst 32), Arith (Srli dst dst 32)]
         else if lower_32 = 0 then load_parts dst upper_32 @ [Arith (Slli dst dst 32)]
         else load_parts dst upper_32 @ [Arith (Slli dst dst 32)] @ load_parts T3 lower_32
           @ [Arith (Slli T3 T3 32), Arith (Srli T3 T3 32), Arith (Or dst dst T3)]))"

definition ss_load_imm :: "Gpr \<Rightarrow> i64 \<Rightarrow> bytes" where
  "ss_load_imm dst val = emit (load_imm_instrs dst val)"

section \<open>Stack slots\<close>

text \<open>
  An access to the slot at \<^verbatim>\<open>S0 - offset_from_s0\<close>. The six slot helpers of the source differ only in the instruction, which is a function of the base
  register and the displacement.
\<close>

definition slot_instrs :: "(Gpr \<Rightarrow> i32 \<Rightarrow> Instruction) \<Rightarrow> i32 \<Rightarrow> Instruction list" where
  "slot_instrs access offset_from_s0 =
     (let neg_off = - offset_from_s0 in
      if - 2048 \<le> sint neg_off then [access S0 neg_off]
      else load_imm_instrs T3 (scast offset_from_s0) @ [Arith (Sub T3 S0 T3), access T3 0])"

definition ss_load_from_slot :: "Gpr \<Rightarrow> i32 \<Rightarrow> bytes" where
  "ss_load_from_slot dst_reg offset_from_s0 = emit (slot_instrs (\<lambda>base imm. Base (Ld dst_reg base imm)) offset_from_s0)"

definition ss_store_to_slot :: "Gpr \<Rightarrow> i32 \<Rightarrow> bytes" where
  "ss_store_to_slot src_reg offset_from_s0 = emit (slot_instrs (\<lambda>base imm. Base (Sd base src_reg imm)) offset_from_s0)"

definition ss_store_fpr_to_slot :: "Fpr \<Rightarrow> i32 \<Rightarrow> bytes" where
  "ss_store_fpr_to_slot src_fpr offset_from_s0 = emit (slot_instrs (\<lambda>base imm. Fp (Fsd base src_fpr imm)) offset_from_s0)"

definition ss_store_fpr_s_to_slot :: "Fpr \<Rightarrow> i32 \<Rightarrow> bytes" where
  "ss_store_fpr_s_to_slot src_fpr offset_from_s0 = emit (slot_instrs (\<lambda>base imm. Fp (Fsw base src_fpr imm)) offset_from_s0)"

definition ss_load_word_from_slot :: "Gpr \<Rightarrow> i32 \<Rightarrow> bytes" where
  "ss_load_word_from_slot dst_reg offset_from_s0 = emit (slot_instrs (\<lambda>base imm. Base (Lw dst_reg base imm)) offset_from_s0)"

definition ss_emit_slot_addr :: "Gpr \<Rightarrow> i32 \<Rightarrow> bytes" where
  "ss_emit_slot_addr dst_reg offset_from_s0 = emit (slot_instrs (\<lambda>base imm. Arith (Addi dst_reg base imm)) offset_from_s0)"

datatype IRValue = Register u32 | Immediate i64 | Address u64 | Label string

definition ss_load_value :: "IRValue \<Rightarrow> (u32, i32) hmap \<Rightarrow> Gpr \<Rightarrow> bytes" where
  "ss_load_value val slots scratch = (case val of
       Register vreg \<Rightarrow> ss_load_from_slot scratch (case hm_get slots vreg of Some offset \<Rightarrow> offset | None \<Rightarrow> 0)
     | Immediate v \<Rightarrow> ss_load_imm scratch v
     | Address a \<Rightarrow> ss_load_imm scratch a
     | Label _ \<Rightarrow> emit [Arith (Addi scratch Zero 0)])"

section \<open>Comparisons\<close>

datatype CmpKind = Eq | Ne | SLt | SLe | SGt | SGe | ULt | ULe | UGt | UGe

primrec cmp_instrs :: "CmpKind \<Rightarrow> Gpr \<Rightarrow> Gpr \<Rightarrow> Gpr \<Rightarrow> Gpr \<Rightarrow> Instruction list" where
  "cmp_instrs Eq rd rs1 rs2 scratch = [Arith (Xor rd rs1 rs2), Arith (Sltiu rd rd 1)]"
| "cmp_instrs Ne rd rs1 rs2 scratch = [Arith (Xor rd rs1 rs2), Arith (Sltu rd Zero rd)]"
| "cmp_instrs SLt rd rs1 rs2 scratch = [Arith (Slt rd rs1 rs2)]"
| "cmp_instrs SLe rd rs1 rs2 scratch = [Arith (Slt scratch rs2 rs1), Arith (Xori rd scratch 1)]"
| "cmp_instrs SGt rd rs1 rs2 scratch = [Arith (Slt rd rs2 rs1)]"
| "cmp_instrs SGe rd rs1 rs2 scratch = [Arith (Slt scratch rs1 rs2), Arith (Xori rd scratch 1)]"
| "cmp_instrs ULt rd rs1 rs2 scratch = [Arith (Sltu rd rs1 rs2)]"
| "cmp_instrs ULe rd rs1 rs2 scratch = [Arith (Sltu scratch rs2 rs1), Arith (Xori rd scratch 1)]"
| "cmp_instrs UGt rd rs1 rs2 scratch = [Arith (Sltu rd rs2 rs1)]"
| "cmp_instrs UGe rd rs1 rs2 scratch = [Arith (Sltu scratch rs1 rs2), Arith (Xori rd scratch 1)]"

definition emit_cmp_isel :: "CmpKind \<Rightarrow> Gpr \<Rightarrow> Gpr \<Rightarrow> Gpr \<Rightarrow> Gpr \<Rightarrow> bytes" where
  "emit_cmp_isel kind rd rs1 rs2 scratch = emit (cmp_instrs kind rd rs1 rs2 scratch)"

section \<open>Loading a constant\<close>

lemma hi_lo: "hi_part v + lo_part v = v"
  by (simp add: lo_part_def)

lemma lo_part_eq: "lo_part v = take_bit 12 (v + 0x800) - 0x800"
proof -
  have "push_bit 12 (drop_bit 12 (v + 0x800)) + take_bit 12 (v + 0x800) = v + 0x800" by (rule bits_ident)
  then show ?thesis by (simp add: lo_part_def hi_part_def algebra_simps)
qed

lemma sint_word_of_int_small: "- (2 ^ 31) \<le> k \<Longrightarrow> k < 2 ^ 31 \<Longrightarrow> sint (word_of_int k :: u32) = k"
  unfolding sint_sbintrunc' by (rule signed_take_bit_int_eq_self) simp_all

lemma uint_take_bit_12: "uint (take_bit 12 (w :: u32)) = uint w mod 4096"
  unfolding unsigned_take_bit_eq take_bit_int_def by simp

lemma mod_4096: "0 \<le> (k :: int) mod 4096" "(k :: int) mod 4096 < 4096"
  by simp_all

lemma sint_lo_part: "sint (lo_part v) = uint (v + 0x800) mod 4096 - 2048"
proof -
  have "lo_part v = word_of_int (uint (take_bit 12 (v + 0x800)) - 2048)"
    unfolding lo_part_eq wi_hom_sub [symmetric] word_of_int_uint by simp
  then show ?thesis using mod_4096 [of "uint (v + 0x800)"] by (simp only: uint_take_bit_12) (subst sint_word_of_int_small; simp)
qed

lemma simm_lo_part: "simm 11 (lo_part v)"
  using mod_4096 [of "uint (v + 0x800)"] unfolding simm_def sint_lo_part by simp

text \<open>What the two instructions leave in the register: the value, up to the upper half.\<close>

definition parts_value :: "u32 \<Rightarrow> u64" where
  "parts_value v = scast (hi_part v) + scast (lo_part v)"

lemma hi_part_low: "push_bit 12 (drop_bit 12 (hi_part v)) = hi_part v"
  unfolding hi_part_def by (rule bit_word_eqI) (auto simp: bit_simps)

lemma seq_load_parts:
  assumes "dst \<noteq> Zero"
  obtains m' where "seq (load_parts dst v) m = Some m'" "rget m' dst = parts_value v" "\<And>r. r \<noteq> dst \<Longrightarrow> rget m' r = rget m r" "m_mem m' = m_mem m"
proof (cases "lo_part v = 0")
  case True
  then show ?thesis using that assms by (simp add: load_parts_def ex_lui hi_part_low parts_value_def)
next
  case False
  then show ?thesis using that assms simm_lo_part [of v] by (simp add: load_parts_def ex_lui hi_part_low parts_value_def ex_imm)
qed

lemma parts_value_int: "parts_value v = word_of_int (sint (hi_part v) + sint (lo_part v))"
  unfolding parts_value_def scast_eq wi_hom_add ..

lemma parts_value_low: "take_bit 32 (parts_value v) = ucast v"
proof -
  let ?s = "sint (hi_part v) + sint (lo_part v)"
  have v: "v = word_of_int ?s" unfolding wi_hom_add [symmetric] using hi_lo [of v] by simp
  have "uint v = take_bit 32 ?s" using arg_cong [OF v, of uint] unfolding uint_word_of_int_eq by simp
  moreover have "uint (take_bit 32 (parts_value v)) = take_bit 32 ?s"
    unfolding parts_value_int unsigned_take_bit_eq uint_word_of_int_eq by simp
  moreover have "uint (ucast v :: u64) = uint v"
    unfolding unsigned_ucast_eq using uint_bounded [of v] by (simp add: take_bit_int_eq_self)
  ultimately show ?thesis by (simp only: word_uint_eq_iff)
qed

text \<open>Read as signed numbers the parts add up, unless rounding carries a non-negative value into the sign bit.\<close>

lemma uint_hi_part: "uint (hi_part v) = uint (v + 0x800) - uint (v + 0x800) mod 4096"
proof -
  let ?w = "v + 0x800"
  have "hi_part v + take_bit 12 ?w = ?w" unfolding hi_part_def by (rule bits_ident)
  then have "hi_part v = ?w - take_bit 12 ?w" by (simp add: eq_diff_eq)
  moreover have "take_bit 12 ?w \<le> ?w" unfolding word_le_def uint_take_bit_12 by (rule zmod_le_nonneg_dividend) simp
  ultimately show ?thesis by (metis uint_minus_simple_alt uint_take_bit_12)
qed

lemma sint_cases: "sint (w :: u32) = (if uint w < 2 ^ 31 then uint w else uint w - 2 ^ 32)"
proof (cases "uint w < 2 ^ 31")
  case True
  then show ?thesis using sint_word_of_int_small [of "uint w"] uint_ge_0 [of w] by (simp del: uint_ge_0)
next
  case False
  have "word_of_int (uint w - 2 ^ 32) = w" unfolding wi_hom_sub [symmetric] word_of_int_uint by simp
  moreover have "sint (word_of_int (uint w - 2 ^ 32) :: u32) = uint w - 2 ^ 32"
    by (rule sint_word_of_int_small) (use uint_bounded [of w] False in simp_all)
  ultimately show ?thesis using False by (simp only: if_False)
qed

lemma uint_add_800: "uint (v + 0x800 :: u32) = (uint v + 2048) mod 2 ^ 32"
  by (simp add: uint_word_ariths)

lemma parts_sum:
  fixes u w h :: int
  assumes "w = (u + 2048) mod 2 ^ 32" "h = w - w mod 4096" "0 \<le> u" "u < 2 ^ 32"
    and "2 ^ 31 \<le> u \<and> u < 2 ^ 32 - 2048 \<or> u < 2 ^ 31 \<and> h < 2 ^ 31"
  shows "(if h < 2 ^ 31 then h else h - 2 ^ 32) + (w mod 4096 - 2048) = (if u < 2 ^ 31 then u else u - 2 ^ 32)"
proof -
  have w: "w = u + 2048" using assms by auto
  have "2 ^ 31 \<le> h" if "2 ^ 31 \<le> u"
  proof -
    have "2 ^ 31 div 4096 \<le> w div 4096" using that w by (intro zdiv_mono1) simp_all
    then show ?thesis using assms(2) minus_mod_eq_mult_div [of w 4096] by simp
  qed
  then show ?thesis using assms(2,5) w by auto
qed

lemma parts_add_up:
  assumes "sint v < - 2048 \<or> (0 \<le> sint v \<and> hi_part v < 0x80000000)"
  shows "parts_value v = scast v"
proof -
  have h: "hi_part v < 0x80000000 \<longleftrightarrow> uint (hi_part v) < 2 ^ 31" by (simp add: word_less_def)
  have n: "\<not> uint v < - 2048" using uint_ge_0 [of v] by linarith
  have "2 ^ 31 \<le> uint v \<and> uint v < 2 ^ 32 - 2048 \<or> uint v < 2 ^ 31 \<and> uint (hi_part v) < 2 ^ 31"
    using assms uint_bounded [of v] n unfolding h sint_cases [of v] by (auto split: if_splits)
  from parts_sum [OF uint_add_800 uint_hi_part _ _ this] have "sint (hi_part v) + sint (lo_part v) = sint v"
    unfolding sint_cases [of v] sint_cases [of "hi_part v"] sint_lo_part using uint_bounded [of v] by simp
  then show ?thesis unfolding parts_value_int scast_eq by simp
qed


lemma zero_extend: "drop_bit 32 (push_bit 32 x) = take_bit 32 (x :: u64)"
  by (rule bit_word_eqI) (auto simp: bit_simps)

lemma push_low: "push_bit 32 (x :: u64) = push_bit 32 (take_bit 32 x)"
  by (rule bit_word_eqI) (auto simp: bit_simps)

lemma halves: "(val :: u64) = push_bit 32 (ucast (ucast (signed_drop_bit 32 val) :: u32)) OR ucast (ucast val :: u32)"
  by (rule bit_word_eqI) (auto simp: bit_simps)

lemma nonneg_low:
  assumes "(val :: i64) = scast (ucast val :: i32)" "0 \<le> sint val"
  shows "ucast (ucast val :: u32) = val"
proof (rule bit_word_eqI)
  fix n
  assume "n < LENGTH(64)"
  have "\<not> bit val 63" using bit_last_iff [of val] assms(2) by simp
  moreover have "bit val 63 \<longleftrightarrow> bit val 31" by (subst assms(1)) (simp add: bit_simps)
  moreover have "bit val n \<longleftrightarrow> bit val 31" if "32 \<le> n" using that \<open>n < LENGTH(64)\<close> by (subst assms(1)) (auto simp: bit_simps)
  ultimately show "bit (ucast (ucast val :: u32) :: u64) n \<longleftrightarrow> bit val n"
    using \<open>n < LENGTH(64)\<close> by (cases "32 \<le> n") (simp_all add: bit_simps)
qed


text \<open>A run that keeps the memory and every register but those in \<open>R\<close>.\<close>

definition loads :: "Instruction list \<Rightarrow> Gpr \<Rightarrow> u64 \<Rightarrow> Gpr set \<Rightarrow> mach \<Rightarrow> bool" where
  "loads is dst v R m \<longleftrightarrow> (\<exists>m'. seq is m = Some m' \<and> rget m' dst = v \<and> (\<forall>r. r \<notin> R \<longrightarrow> rget m' r = rget m r) \<and> m_mem m' = m_mem m)"

lemma loads_extend:
  assumes "loads is dst v R m"
    and "\<And>m1. rget m1 dst = v \<Longrightarrow> (\<And>r. r \<notin> R \<Longrightarrow> rget m1 r = rget m r) \<Longrightarrow> m_mem m1 = m_mem m \<Longrightarrow> loads js dst' v' R' m1"
    and "R \<union> R' \<subseteq> S"
  shows "loads (is @ js) dst' v' S m"
proof -
  from assms(1) obtain m1 where m1: "seq is m = Some m1" "rget m1 dst = v" "\<forall>r. r \<notin> R \<longrightarrow> rget m1 r = rget m r" "m_mem m1 = m_mem m"
    by (auto simp: loads_def)
  with assms(2) [of m1] obtain m2 where "seq js m1 = Some m2" "rget m2 dst' = v'" "\<forall>r. r \<notin> R' \<longrightarrow> rget m2 r = rget m1 r" "m_mem m2 = m_mem m1"
    by (auto simp: loads_def)
  moreover have "rget m2 r = rget m r" if "r \<notin> S" for r
  proof -
    have "r \<notin> R" "r \<notin> R'" using that assms(3) by auto
    then show ?thesis using m1(3) calculation(3) by simp
  qed
  ultimately show ?thesis using m1 unfolding loads_def seq_append by (intro exI [of _ m2]) simp
qed

lemma loads_parts: "dst \<noteq> Zero \<Longrightarrow> loads (load_parts dst v) dst (parts_value v) {dst} m"
  by (rule seq_load_parts [of dst v m]) (auto simp: loads_def)

lemma loads_slli: "dst \<noteq> Zero \<Longrightarrow> rget m dst = v \<Longrightarrow> loads [Arith (Slli dst dst 32)] dst (push_bit 32 v) {dst} m"
  by (auto simp: loads_def ex_shift)

lemma loads_low: "dst \<noteq> Zero \<Longrightarrow> rget m dst = v \<Longrightarrow> loads [Arith (Slli dst dst 32), Arith (Srli dst dst 32)] dst (take_bit 32 v) {dst} m"
  by (auto simp: loads_def ex_shift zero_extend)

lemma low_half:
  assumes "- (2 ^ 31) \<le> sint (val :: i64)" "sint val < 2 ^ 31"
  shows "sint (ucast val :: i32) = sint val" "scast (ucast val :: i32) = val"
proof -
  have "sint (ucast val :: i32) = signed_take_bit 31 (uint val)" by (simp add: signed_ucast_eq)
  also have "\<dots> = signed_take_bit 31 (sint val)" by (simp add: sint_uint signed_take_bit_signed_take_bit)
  also have "\<dots> = sint val" by (rule signed_take_bit_int_eq_self) (use assms in simp_all)
  finally show s: "sint (ucast val :: i32) = sint val" .
  show "scast (ucast val :: i32) = val" unfolding scast_eq s by simp
qed

lemma upper_zero:
  assumes "0 \<le> sint (val :: i64)" "sint val < 2 ^ 32"
  shows "signed_drop_bit 32 val = 0"
proof -
  have "sint (signed_drop_bit 32 val) = 0" unfolding sint_signed_drop_bit_eq drop_bit_int_def using assms by simp
  moreover have "word_of_int (sint (signed_drop_bit 32 val)) = signed_drop_bit 32 val" by simp
  ultimately show ?thesis by (simp only: word_of_int_0)
qed

lemma sint_extended: "sint (scast (w :: i32) :: i64) = sint w"
proof -
  have "sint (word_of_int (sint w) :: i64) = signed_take_bit 63 (sint w)" by (simp only: sint_sbintrunc') simp
  also have "\<dots> = sint w" by (rule signed_take_bit_int_eq_self) (use sint_ge [of w] sint_lt [of w] in simp_all)
  finally show ?thesis by (simp only: scast_eq)
qed

lemma load_imm32_spec:
  assumes "dst \<noteq> Zero" "sint val < - 2048 \<or> 2047 < sint val" "val = scast (ucast val :: i32)"
  shows "loads (load_imm_instrs dst val) dst val {dst, T3} m"
proof -
  let ?v = "ucast val :: u32"
  note parts = loads_parts [OF assms(1), of ?v m]
  have s: "sint ?v = sint val" using arg_cong [OF assms(3), of sint] by (simp only: sint_extended)
  show ?thesis
  proof (cases "0 \<le> sint val \<and> 0x80000000 \<le> hi_part ?v")
    case True
    have "loads (load_parts dst ?v @ [Arith (Slli dst dst 32), Arith (Srli dst dst 32)]) dst (take_bit 32 (parts_value ?v)) {dst, T3} m"
      by (rule loads_extend [OF parts loads_low]) (use assms(1) in auto)
    moreover have "take_bit 32 (parts_value ?v) = val" unfolding parts_value_low by (rule nonneg_low) (use assms(3) True in auto)
    moreover have "load_imm_instrs dst val = load_parts dst ?v @ [Arith (Slli dst dst 32), Arith (Srli dst dst 32)]"
      using assms(2,3) True by (simp add: load_imm_instrs_def)
    ultimately show ?thesis by simp
  next
    case False
    have "parts_value ?v = val" by (subst parts_add_up) (use assms(2,3) s False in auto)
    moreover have "load_imm_instrs dst val = load_parts dst ?v" using assms(2,3) False by (auto simp: load_imm_instrs_def)
    ultimately show ?thesis using parts by (auto simp: loads_def)
  qed
qed

lemma load_imm64_spec:
  assumes "dst \<noteq> Zero" "sint val < - 2048 \<or> 2047 < sint val" "val \<noteq> scast (ucast val :: i32)"
    and "dst \<noteq> T3 \<or> ucast (signed_drop_bit 32 val) = (0 :: u32)"
  shows "loads (load_imm_instrs dst val) dst val {dst, T3} m"
proof -
  let ?lower = "ucast val :: u32" and ?upper = "ucast (signed_drop_bit 32 val) :: u32"
  have unfold: "load_imm_instrs dst val =
     (if ?upper = 0 then load_parts dst ?lower @ [Arith (Slli dst dst 32), Arith (Srli dst dst 32)]
      else if ?lower = 0 then load_parts dst ?upper @ [Arith (Slli dst dst 32)]
      else (load_parts dst ?upper @ [Arith (Slli dst dst 32)])
        @ (load_parts T3 ?lower @ [Arith (Slli T3 T3 32), Arith (Srli T3 T3 32)]) @ [Arith (Or dst dst T3)])"
    using assms(2,3) by (auto simp: load_imm_instrs_def Let_def)
  have low: "loads (load_parts r ?lower @ [Arith (Slli r r 32), Arith (Srli r r 32)]) r (ucast ?lower) {r} k" if "r \<noteq> Zero" for r k
    unfolding parts_value_low [symmetric] by (rule loads_extend [OF loads_parts loads_low]) (use that in auto)
  have high: "loads (load_parts dst ?upper @ [Arith (Slli dst dst 32)]) dst (push_bit 32 (ucast ?upper)) {dst} m"
    unfolding parts_value_low [symmetric] push_low [symmetric] by (rule loads_extend [OF loads_parts loads_slli]) (use assms(1) in auto)
  consider "?upper = 0" | "?upper \<noteq> 0" "?lower = 0" | "?upper \<noteq> 0" "?lower \<noteq> 0" by blast
  then show ?thesis
  proof cases
    case 1
    then show ?thesis using low [OF assms(1), of m] halves [of val] unfolding unfold by (auto simp: loads_def)
  next
    case 2
    then show ?thesis using high halves [of val] unfolding unfold by (auto simp: loads_def)
  next
    case 3
    then have T3: "dst \<noteq> T3" using assms(4) by simp
    have "loads ((load_parts T3 ?lower @ [Arith (Slli T3 T3 32), Arith (Srli T3 T3 32)]) @ [Arith (Or dst dst T3)]) dst
        (push_bit 32 (ucast ?upper) OR ucast ?lower) {dst, T3} k" if "rget k dst = push_bit 32 (ucast ?upper)" for k
      by (rule loads_extend [OF low]) (use that T3 assms(1) in \<open>auto simp: loads_def ex_reg\<close>)
    from loads_extend [OF high this, where S = "{dst, T3}"] show ?thesis
      using 3 unfolding unfold halves [of val, symmetric] by auto
  qed
qed

lemma load_imm_spec:
  assumes "dst \<noteq> Zero" and fits: "dst \<noteq> T3 \<or> (- (2 ^ 31) \<le> sint val \<and> sint val < 2 ^ 32)"
  shows "loads (load_imm_instrs dst val) dst val {dst, T3} m"
proof -
  consider (imm12) "- 2048 \<le> sint val" "sint val \<le> 2047"
    | (imm32) "sint val < - 2048 \<or> 2047 < sint val" "val = scast (ucast val :: i32)"
    | (imm64) "sint val < - 2048 \<or> 2047 < sint val" "val \<noteq> scast (ucast val :: i32)" by linarith
  then show ?thesis
  proof cases
    case imm12
    then have "simm 11 (ucast val :: i32)" "scast (ucast val :: i32) = val" using low_half [of val] by (simp_all add: simm_def)
    then show ?thesis using imm12 assms(1) by (simp add: load_imm_instrs_def loads_def ex_imm)
  next
    case imm32
    then show ?thesis by (rule load_imm32_spec [OF assms(1)])
  next
    case imm64
    moreover have "ucast (signed_drop_bit 32 val) = (0 :: u32)" if "dst = T3"
      using fits that imm64 low_half(2) [of val] upper_zero [of val] by (cases "0 \<le> sint val") (auto simp: not_le)
    ultimately show ?thesis by (intro load_imm64_spec [OF assms(1)]) auto
  qed
qed


lemma straight_load_imm: "\<forall>i \<in> set (load_imm_instrs dst val). straight i"
  by (auto simp: load_imm_instrs_def load_parts_def Let_def)


section \<open>Slots\<close>

lemma load_store64: "load64 (store64 a v mem) a = v"
proof -
  have "map (\<lambda>k. store64 a v mem (a + of_nat k)) [0..<8] = map (\<lambda>k. le_bytes 8 v ! k) [0..<8]"
    by (rule map_cong) (auto simp: store64_def unat_of_nat)
  also have "\<dots> = le_bytes 8 v" using map_nth [of "le_bytes 8 v"] by simp
  finally show ?thesis by (simp add: load64_def of_le_bytes_le_bytes take_bit_word_eq_self)
qed

text \<open>
  The two forms of an access lead to the same address. The register that the access reads is not \<^verbatim>\<open>t3\<close> when the offset is large.
\<close>

lemma slot_instrs_cases:
  assumes "0 \<le> sint off"
  shows "(sint off \<le> 2048 \<and> slot_instrs access off = [access S0 (- off)] \<and> simm 11 (- off) \<and> rget m S0 + scast (- off) = rget m S0 - scast off)
    \<or> (2048 < sint off \<and> slot_instrs access off = load_imm_instrs T3 (scast off) @ [Arith (Sub T3 S0 T3), access T3 0])"
proof -
  have s: "sint (- off) = - sint off"
  proof -
    have "- off = word_of_int (- sint off)" by simp
    moreover have "sint (word_of_int (- sint off) :: i32) = - sint off"
      by (rule sint_word_of_int_small) (use assms sint_lt [of off] in simp_all)
    ultimately show ?thesis by simp
  qed
  have "scast (- off) = (- scast off :: u64)" unfolding scast_eq s by simp
  then show ?thesis using assms by (auto simp: slot_instrs_def s simm_def)
qed


lemma slot_seq:
  assumes "0 \<le> sint off"
  obtains m1 base imm where "seq (slot_instrs access off) m = ex (access base imm) m1" "simm 11 imm"
    "rget m1 base + scast imm = rget m S0 - scast off" "m_mem m1 = m_mem m" "\<And>r. r \<noteq> T3 \<or> sint off \<le> 2048 \<Longrightarrow> rget m1 r = rget m r"
proof -
  consider (near) "slot_instrs access off = [access S0 (- off)]" "simm 11 (- off)" "rget m S0 + scast (- off) = rget m S0 - scast off"
    | (far) "2048 < sint off" "slot_instrs access off = load_imm_instrs T3 (scast off) @ [Arith (Sub T3 S0 T3), access T3 0]"
    using slot_instrs_cases [OF assms] by blast
  then show ?thesis
  proof cases
    case near
    show ?thesis by (rule that [of S0 "- off" m]) (use near in \<open>simp_all split: bind_split\<close>)
  next
    case far
    have "loads (load_imm_instrs T3 (scast off)) T3 (scast off) {T3, T3} m"
      by (rule load_imm_spec) (use sint_lt [of off] assms in \<open>simp_all add: sint_extended\<close>)
    then obtain m1 where m1: "seq (load_imm_instrs T3 (scast off)) m = Some m1" "rget m1 T3 = scast off" "\<forall>r. r \<noteq> T3 \<longrightarrow> rget m1 r = rget m r"
        "m_mem m1 = m_mem m" by (auto simp: loads_def)
    show ?thesis
      by (rule that [of T3 0 "write_reg T3 (rget m S0 - scast off) m1"])
        (use far m1 in \<open>auto simp: seq_append ex_reg simm_def split: bind_split\<close>)
  qed
qed

lemma straight_slot: "(\<And>base imm. straight (access base imm)) \<Longrightarrow> \<forall>i \<in> set (slot_instrs access off). straight i"
  using straight_load_imm [of T3 "scast off"] by (auto simp: slot_instrs_def Let_def)

lemma store_slot_seq:
  assumes "0 \<le> sint off" "src \<noteq> T3 \<or> sint off \<le> 2048"
  obtains m1 where "seq (slot_instrs (\<lambda>base imm. Base (Sd base src imm)) off) m = Some m1"
    "m_mem m1 = store64 (rget m S0 - scast off) (rget m src) (m_mem m)" "\<And>r. r \<noteq> T3 \<Longrightarrow> rget m1 r = rget m r"
  by (rule slot_seq [OF assms(1), of "\<lambda>base imm. Base (Sd base src imm)" m]) (use that assms(2) in \<open>auto simp: ex_sd\<close>)

lemma load_slot_seq:
  assumes "0 \<le> sint off" "dst \<noteq> Zero"
  obtains m1 where "seq (slot_instrs (\<lambda>base imm. Base (Ld dst base imm)) off) m = Some m1"
    "rget m1 dst = load64 (m_mem m) (rget m S0 - scast off)" "m_mem m1 = m_mem m" "\<And>r. r \<notin> {dst, T3} \<Longrightarrow> rget m1 r = rget m r"
  by (rule slot_seq [OF assms(1), of "\<lambda>base imm. Base (Ld dst base imm)" m]) (use that assms(2) in \<open>auto simp: ex_ld\<close>)

text \<open>
  C19: a register stored to a stack slot and loaded back from it comes back unchanged, for every offset from the frame base, whether it fits the
  displacement of the instruction or has to be computed; no register but the destination and \<^verbatim>\<open>t3\<close> changes, and the memory outside the slot
  is kept.
\<close>

theorem slot_roundtrip:
  assumes "0 \<le> sint off" "src \<noteq> T3 \<or> sint off \<le> 2048" "dst \<noteq> Zero" "m_pc m = 0"
  shows "\<exists>n m'. run n (ss_store_to_slot src off @ ss_load_from_slot dst off) m = Some m' \<and> rget m' dst = rget m src
    \<and> (\<forall>r. r \<notin> {dst, T3} \<longrightarrow> rget m' r = rget m r) \<and> (\<forall>a. 8 \<le> unat (a - (rget m S0 - scast off)) \<longrightarrow> m_mem m' a = m_mem m a)"
proof -
  let ?st = "slot_instrs (\<lambda>base imm. Base (Sd base src imm)) off" and ?ld = "slot_instrs (\<lambda>base imm. Base (Ld dst base imm)) off"
  obtain m1 where m1: "seq ?st m = Some m1" "m_mem m1 = store64 (rget m S0 - scast off) (rget m src) (m_mem m)"
    "\<And>r. r \<noteq> T3 \<Longrightarrow> rget m1 r = rget m r" by (rule store_slot_seq [OF assms(1,2)]) blast
  obtain m2 where m2: "seq ?ld m1 = Some m2" "rget m2 dst = load64 (m_mem m1) (rget m1 S0 - scast off)" "m_mem m2 = m_mem m1"
    "\<And>r. r \<notin> {dst, T3} \<Longrightarrow> rget m2 r = rget m1 r" by (rule load_slot_seq [OF assms(1,3)]) blast
  have "seq (?st @ ?ld) m = Some m2" using m1(1) m2(1) by (simp add: seq_append)
  moreover have "\<forall>i \<in> set (?st @ ?ld). straight i" using straight_slot [of "\<lambda>base imm. Base (Sd base src imm)" off]
      straight_slot [of "\<lambda>base imm. Base (Ld dst base imm)" off] by auto
  ultimately obtain n where "run n (emit (?st @ ?ld)) m = Some m2" using run_seq assms(4) by blast
  moreover have "rget m2 dst = rget m src" using m2(2) m1(2,3) by (simp add: load_store64)
  ultimately show ?thesis using m1 m2 by (auto simp: ss_store_to_slot_def ss_load_from_slot_def store64_def intro!: exI [of _ n])
qed

section \<open>Comparisons\<close>

primrec cmp_holds :: "CmpKind \<Rightarrow> u64 \<Rightarrow> u64 \<Rightarrow> bool" where
  "cmp_holds Eq x y = (x = y)"
| "cmp_holds Ne x y = (x \<noteq> y)"
| "cmp_holds SLt x y = (sint x < sint y)"
| "cmp_holds SLe x y = (sint x \<le> sint y)"
| "cmp_holds SGt x y = (sint x > sint y)"
| "cmp_holds SGe x y = (sint x \<ge> sint y)"
| "cmp_holds ULt x y = (x < y)"
| "cmp_holds ULe x y = (x \<le> y)"
| "cmp_holds UGt x y = (x > y)"
| "cmp_holds UGe x y = (x \<ge> y)"

lemma truth_not: "truth b XOR 1 = truth (\<not> b)"
  by (simp add: truth_def)

lemma xor_zero: "(x :: u64) XOR y = 0 \<longleftrightarrow> x = y"
  by (auto simp: bit_eq_iff bit_xor_iff)

lemma xor_pos: "0 < (x :: u64) XOR y \<longleftrightarrow> x \<noteq> y"
  by (simp add: word_gt_0 xor_zero)

lemma cmp_seq:
  assumes "rd \<noteq> Zero" "scratch \<noteq> Zero"
  shows "\<exists>m'. seq (cmp_instrs kind rd rs1 rs2 scratch) m = Some m' \<and> rget m' rd = truth (cmp_holds kind (rget m rs1) (rget m rs2))
    \<and> (\<forall>r. r \<notin> {rd, scratch} \<longrightarrow> rget m' r = rget m r) \<and> m_mem m' = m_mem m"
proof -
  have "simm 11 1" "scast (1 :: i32) = (1 :: u64)" by (simp_all add: simm_def)
  then show ?thesis using assms
    by (cases kind) (auto simp: ex_reg ex_imm truth_not xor_zero xor_pos word_sless_alt not_less)
qed

text \<open>
  C21: the code of \<open>emit_cmp_isel\<close> leaves 1 in the destination when the comparison holds of the operands and 0 otherwise, whatever registers coincide,
  and changes no register but the destination and the scratch register.
\<close>

theorem emit_cmp_isel_correct:
  assumes "rd \<noteq> Zero" "scratch \<noteq> Zero" "m_pc m = 0"
  shows "\<exists>n m'. run n (emit_cmp_isel kind rd rs1 rs2 scratch) m = Some m'
    \<and> rget m' rd = (if cmp_holds kind (rget m rs1) (rget m rs2) then 1 else 0)
    \<and> (\<forall>r. r \<notin> {rd, scratch} \<longrightarrow> rget m' r = rget m r) \<and> m_mem m' = m_mem m"
proof -
  have "\<forall>i \<in> set (cmp_instrs kind rd rs1 rs2 scratch). straight i" by (cases kind) auto
  then show ?thesis using cmp_seq [OF assms(1,2), of kind rs1 rs2 m] run_seq [OF _ _ assms(3)] unfolding emit_cmp_isel_def truth_def by metis
qed


section \<open>Concrete runs\<close>

definition m0 :: mach where
  "m0 = \<lparr>m_pc = 0, m_regs = (\<lambda>_. 0), m_mem = (\<lambda>_. 0)\<rparr>"


theorem slot_roundtrip_witness:
  "\<exists>n m'. run n (ss_store_to_slot A0 4096 @ ss_load_from_slot A1 4096) (m0\<lparr>m_regs := (\<lambda>_. 7)\<rparr>) = Some m' \<and> rget m' A1 = 7"
proof -
  have "rget (m0\<lparr>m_regs := (\<lambda>_. 7)\<rparr>) A0 = 7" by (simp add: rget_def)
  then show ?thesis using slot_roundtrip [of 4096 A0 A1 "m0\<lparr>m_regs := (\<lambda>_. 7)\<rparr>"] by (auto simp: m0_def)
qed

theorem emit_cmp_isel_correct_witness:
  "\<exists>n m'. run n (emit_cmp_isel SLe T0 T0 T1 T5) m0 = Some m' \<and> rget m' T0 = 1"
  using emit_cmp_isel_correct [of T0 T5 m0 SLe T0 T1] by (auto simp: m0_def rget_def)

text \<open>
  Into \<^verbatim>\<open>t3\<close> itself a 64-bit constant is not loaded: the lower half overwrites the upper one. \<open>ss_load_value\<close> is called with \<^verbatim>\<open>t3\<close> for the
  address of a load and the desired value of a compare-and-swap.
\<close>

lemma load_imm_into_t3: "map_option (\<lambda>m. rget m T3) (run 11 (ss_load_value (Immediate 0x100000001) [] T3) m0) = Some 1"
  by code_simp

end
