(* ===== verification/Rv64_Bits.thy ===== *)
theory Rv64_Bits
  imports Rv64_Isel
begin

text \<open>
  The bit counts of the RV64 back end (\<^verbatim>\<open>codegen/src/riscv64/mod.rs\<close>, \<^verbatim>\<open>emit_clz_isel\<close>, \<^verbatim>\<open>emit_ctz_isel\<close>, \<^verbatim>\<open>emit_popcnt_isel\<close>), run on
  the reference machine: the population count is right for every input; the two zero counts are not.
\<close>

section \<open>Bit counts\<close>

text \<open>One narrowing step: \<^verbatim>\<open>if (x >> shift) != 0\<close>, shift right and accumulate.\<close>

definition narrow :: "Gpr \<Rightarrow> u32 \<Rightarrow> Instruction list" where
  "narrow rd shift = [Arith (Srli T5 rd shift), Base (Beq T5 Zero 8), Arith (Addi rd T5 0), Arith (Addi T4 T4 shift)]"

definition narrowing :: "Gpr \<Rightarrow> Instruction list" where
  "narrowing rd = concat (map (narrow rd) [32, 16, 8, 4, 2, 1])"

definition copy_input :: "Gpr \<Rightarrow> Gpr \<Rightarrow> Instruction list" where
  "copy_input rd rs = (if rs \<noteq> rd then [Arith (Addi rd rs 0)] else [])"

definition emit_clz_isel :: "Gpr \<Rightarrow> Gpr \<Rightarrow> bytes" where
  "emit_clz_isel rd rs = emit (copy_input rd rs @ [Arith (Addi T4 Zero 0), Base (Beq rd Zero (6 * 16 + 12))] @ narrowing rd
     @ [Arith (Addi T6 Zero 63), Arith (Sub rd T6 T4), Base (Jal Zero 4), Arith (Addi rd Zero 64)])"

definition emit_ctz_isel :: "Gpr \<Rightarrow> Gpr \<Rightarrow> bytes" where
  "emit_ctz_isel rd rs = emit (copy_input rd rs
     @ [Arith (Sub T5 Zero rd), Arith (And T5 rd T5), Arith (Sltiu T6 rd 1), Arith (Addi rd T5 0), Arith (Addi T4 Zero 0)]
     @ narrowing rd @ [Arith (Slli T6 T6 6), Arith (Add rd T4 T6)])"

text \<open>A mask is built by doubling: each step ors the constant with itself shifted.\<close>

definition build_mask :: "i32 \<Rightarrow> u32 list \<Rightarrow> Instruction list" where
  "build_mask seed shifts = Arith (Addi T4 Zero seed) # concat (map (\<lambda>s. [Arith (Slli T6 T4 s), Arith (Or T4 T4 T6)]) shifts)"

definition popcnt_instrs :: "Gpr \<Rightarrow> Gpr \<Rightarrow> Instruction list" where
  "popcnt_instrs rd rs = (copy_input rd rs
     @ build_mask 1 [2, 4, 8, 16, 32]
     @ [Arith (Srli T5 rd 1), Arith (And T5 T5 T4), Arith (Sub rd rd T5)]
     @ build_mask 3 [4, 8, 16, 32]
     @ [Arith (And T5 rd T4), Arith (Srli rd rd 2), Arith (And rd rd T4), Arith (Add rd T5 rd)]
     @ build_mask 0xF [8, 16, 32]
     @ [Arith (Srli T5 rd 4), Arith (Add rd rd T5), Arith (And rd rd T4)]
     @ build_mask 1 [8, 16, 32]
     @ [MulDiv (Mul rd rd T4), Arith (Srli rd rd 56)])"

definition emit_popcnt_isel :: "Gpr \<Rightarrow> Gpr \<Rightarrow> bytes" where
  "emit_popcnt_isel rd rs = emit (popcnt_instrs rd rs)"

section \<open>Population count: the code\<close>

definition mask_value :: "i32 \<Rightarrow> u32 list \<Rightarrow> u64" where
  "mask_value seed shifts = foldl (\<lambda>c s. c OR push_bit (unat s) c) (scast seed) shifts"

lemma loads_build_mask:
  assumes "simm 11 seed" "\<forall>s \<in> set shifts. s < 64"
  shows "loads (build_mask seed shifts) T4 (mask_value seed shifts) {T4, T6} m"
  using assms(2)
proof (induction shifts rule: rev_induct)
  case Nil
  then show ?case using assms(1) by (auto simp: build_mask_def mask_value_def loads_def ex_imm)
next
  case (snoc s shifts)
  then have "loads (build_mask seed shifts) T4 (mask_value seed shifts) {T4, T6} m" by simp
  then have "loads (build_mask seed shifts @ [Arith (Slli T6 T4 s), Arith (Or T4 T4 T6)]) T4 (mask_value seed (shifts @ [s])) {T4, T6} m"
    by (rule loads_extend [where R' = "{T4, T6}"]) (use snoc.prems in \<open>auto simp: loads_def ex_shift ex_reg mask_value_def\<close>)
  then show ?case by (simp add: build_mask_def)
qed

lemma mask_values:
  "mask_value 1 [2, 4, 8, 16, 32] = 0x5555555555555555" "mask_value 3 [4, 8, 16, 32] = 0x3333333333333333"
  "mask_value 0xF [8, 16, 32] = 0x0F0F0F0F0F0F0F0F" "mask_value 1 [8, 16, 32] = 0x0101010101010101"
  by (simp_all add: mask_value_def)

definition pop1 :: "u64 \<Rightarrow> u64" where
  "pop1 x = x - (drop_bit 1 x AND 0x5555555555555555)"

definition pop2 :: "u64 \<Rightarrow> u64" where
  "pop2 x = (x AND 0x3333333333333333) + (drop_bit 2 x AND 0x3333333333333333)"

definition pop3 :: "u64 \<Rightarrow> u64" where
  "pop3 x = (x + drop_bit 4 x) AND 0x0F0F0F0F0F0F0F0F"

definition pop4 :: "u64 \<Rightarrow> u64" where
  "pop4 x = drop_bit 56 (x * 0x0101010101010101)"


lemma loads_copy: "rd \<noteq> Zero \<Longrightarrow> loads (copy_input rd rs) rd (rget m rs) {rd} m"
  by (auto simp: copy_input_def loads_def ex_imm simm_def)

text \<open>One step: a mask is built in \<^verbatim>\<open>t4\<close>, then \<open>js\<close> turns the value \<open>x\<close> of \<open>rd\<close> into \<open>f x\<close>.\<close>

lemma loads_mask_step:
  assumes "rd \<notin> {Zero, T4, T5, T6}" "simm 11 seed" "\<forall>s \<in> set shifts. s < 64" "rget m rd = x"
    and "\<And>m1. rget m1 T4 = mask_value seed shifts \<Longrightarrow> rget m1 rd = x \<Longrightarrow> loads js rd y {rd, T5} m1"
  shows "loads (build_mask seed shifts @ js) rd y {rd, T4, T5, T6} m"
  by (rule loads_extend [OF loads_build_mask [OF assms(2,3)], where R' = "{rd, T5}"]) (use assms(1,4,5) in auto)

lemma popcnt_steps:
  assumes "rd \<notin> {Zero, T4, T5, T6}" "rget m rd = x"
  shows "loads (build_mask 1 [2, 4, 8, 16, 32] @ [Arith (Srli T5 rd 1), Arith (And T5 T5 T4), Arith (Sub rd rd T5)]) rd (pop1 x) {rd, T4, T5, T6} m"
    "loads (build_mask 3 [4, 8, 16, 32] @ [Arith (And T5 rd T4), Arith (Srli rd rd 2), Arith (And rd rd T4), Arith (Add rd T5 rd)])
       rd (pop2 x) {rd, T4, T5, T6} m"
    "loads (build_mask 0xF [8, 16, 32] @ [Arith (Srli T5 rd 4), Arith (Add rd rd T5), Arith (And rd rd T4)]) rd (pop3 x) {rd, T4, T5, T6} m"
    "loads (build_mask 1 [8, 16, 32] @ [MulDiv (Mul rd rd T4), Arith (Srli rd rd 56)]) rd (pop4 x) {rd, T4, T5, T6} m"
  by (rule loads_mask_step [OF assms(1) _ _ assms(2)];
      use assms(1) in \<open>auto simp: simm_def loads_def ex_shift ex_reg mask_values pop1_def pop2_def pop3_def pop4_def\<close>)+

lemma popcnt_seq:
  assumes "rd \<notin> {Zero, T4, T5, T6}"
  shows "loads (popcnt_instrs rd rs) rd (pop4 (pop3 (pop2 (pop1 (rget m rs))))) {rd, T4, T5, T6} m"
proof -
  note S = popcnt_steps [OF assms]
  have "loads (copy_input rd rs) rd (rget m rs) {rd} m" using assms by (intro loads_copy) auto
  note l1 = loads_extend [OF this S(1), where S = "{rd, T4, T5, T6}"]
  note l2 = loads_extend [OF l1 S(2), where S = "{rd, T4, T5, T6}"]
  note l3 = loads_extend [OF l2 S(3), where S = "{rd, T4, T5, T6}"]
  note l4 = loads_extend [OF l3 S(4), where S = "{rd, T4, T5, T6}"]
  show ?thesis using l4 by (simp add: popcnt_instrs_def)
qed


section \<open>Population count: the arithmetic\<close>

text \<open>A number as the list of its digits, the lowest first, and a digit repeated.\<close>

primrec digits_value :: "nat \<Rightarrow> nat list \<Rightarrow> nat" where
  "digits_value B [] = 0"
| "digits_value B (d # ds) = d + B * digits_value B ds"

primrec rep :: "nat \<Rightarrow> nat \<Rightarrow> nat \<Rightarrow> nat" where
  "rep B c 0 = 0"
| "rep B c (Suc n) = c + B * rep B c n"

definition popcount :: "nat \<Rightarrow> nat \<Rightarrow> nat" where
  "popcount n x = length (filter (bit x) [0..<n])"

lemma and_digit:
  fixes a b c d :: nat
  assumes "b < 2 ^ k" "c < 2 ^ k"
  shows "(b + 2 ^ k * a) AND (c + 2 ^ k * d) = (b AND c) + 2 ^ k * (a AND d)"
proof -
  let ?x = "(b + 2 ^ k * a) AND (c + 2 ^ k * d)"
  have "take_bit k (b' + 2 ^ k * a') = b'" "drop_bit k (b' + 2 ^ k * a') = a'" if "b' < 2 ^ k" for a' b' :: nat
    using that by (simp_all add: take_bit_eq_mod drop_bit_eq_div)
  then have "take_bit k ?x = b AND c" "drop_bit k ?x = a AND d" using assms by (simp_all only: take_bit_and drop_bit_and)
  then show ?thesis using bits_ident [of k ?x] by (simp add: push_bit_eq_mult ac_simps)
qed

lemma and_low:
  fixes c x :: nat
  assumes "c < 2 ^ k"
  shows "x AND c = take_bit k x AND c"
proof -
  have c: "take_bit k c = c" using assms by (simp add: take_bit_nat_eq_self)
  have "take_bit k (x AND c) = take_bit k x AND c" using c by simp
  moreover have "take_bit k (x AND c) = x AND c" by (metis c take_bit_eq_mask and.assoc)
  ultimately show ?thesis by simp
qed

lemma and_le: "(x :: nat) AND y \<le> x" "(x :: nat) AND y \<le> y"
proof -
  have "int (x AND y) \<le> int x" "int (x AND y) \<le> int y" using AND_upper1 [of "int x" "int y"] AND_upper2 [of "int y" "int x"] by (simp_all add: of_nat_and_eq)
  then show "x AND y \<le> x" "x AND y \<le> y" by simp_all
qed

definition nib1 :: "nat \<Rightarrow> nat" where
  "nib1 d = d - (d div 2 AND 5)"

definition nib2 :: "nat \<Rightarrow> nat" where
  "nib2 d = (d AND 3) + (d div 4 AND 3)"

lemma nibbles: "d < 16 \<Longrightarrow> nib1 d < 16 \<and> nib2 (nib1 d) = popcount 4 d \<and> popcount 4 d \<le> 4"
proof -
  have "list_all (\<lambda>d. nib1 d < 16 \<and> nib2 (nib1 d) = popcount 4 d \<and> popcount 4 d \<le> 4) [0..<16]" by code_simp
  then show "d < 16 \<Longrightarrow> nib1 d < 16 \<and> nib2 (nib1 d) = popcount 4 d \<and> popcount 4 d \<le> 4" by (simp add: list_all_iff)
qed

lemma sub_digits: "p \<le> d \<Longrightarrow> q \<le> a \<Longrightarrow> d + 16 * a - (p + 16 * q) = d - p + 16 * (a - q :: nat)"
  by arith

lemma step1_digits:
  assumes "\<forall>d \<in> set ds. d < 16"
  shows "digits_value 16 ds - (digits_value 16 ds div 2 AND rep 16 5 (length ds)) = digits_value 16 (map nib1 ds)"
  using assms
proof (induction ds)
  case (Cons d ds)
  let ?a = "digits_value 16 ds"
  have d: "d div 2 + 8 * (?a mod 2) < 16" "(d div 2 + 8 * (?a mod 2)) AND 5 = d div 2 AND 5"
    using Cons.prems and_low [of 5 3 "d div 2 + 8 * (?a mod 2)"] by (auto simp: take_bit_eq_mod)
  have "(d + 16 * ?a) div 2 = d div 2 + 8 * ?a" using div_mult_self2 [of 2 d "8 * ?a"] by simp
  then have "(d + 16 * ?a) div 2 = (d div 2 + 8 * (?a mod 2)) + 16 * (?a div 2)" using mod_mult_div_eq [of ?a 2] by linarith
  then have "(d + 16 * ?a) div 2 AND (5 + 16 * rep 16 5 (length ds)) = (d div 2 AND 5) + 16 * (?a div 2 AND rep 16 5 (length ds))"
    using and_digit [of "d div 2 + 8 * (?a mod 2)" 4 5 "?a div 2" "rep 16 5 (length ds)"] d by simp
  moreover have "d div 2 AND 5 \<le> d" "?a div 2 AND rep 16 5 (length ds) \<le> ?a"
    using and_le(1) [of "d div 2" 5] and_le(1) [of "?a div 2" "rep 16 5 (length ds)"] by (simp_all add: order_trans)
  moreover have "?a - (?a div 2 AND rep 16 5 (length ds)) = digits_value 16 (map nib1 ds)" using Cons by simp
  ultimately show ?case using sub_digits [of "d div 2 AND 5" d "?a div 2 AND rep 16 5 (length ds)" ?a] by (simp add: nib1_def [of d])
qed simp

lemma step2_digits:
  assumes "\<forall>d \<in> set ds. d < 16"
  shows "(digits_value 16 ds AND rep 16 3 (length ds)) + (digits_value 16 ds div 4 AND rep 16 3 (length ds)) = digits_value 16 (map nib2 ds)"
  using assms
proof (induction ds)
  case (Cons d ds)
  let ?a = "digits_value 16 ds"
  have d: "d div 4 + 4 * (?a mod 4) < 16" "(d div 4 + 4 * (?a mod 4)) AND 3 = d div 4 AND 3"
    using Cons.prems and_low [of 3 2 "d div 4 + 4 * (?a mod 4)"] by (auto simp: take_bit_eq_mod)
  have "(d + 16 * ?a) div 4 = d div 4 + 4 * ?a" using div_mult_self2 [of 4 d "4 * ?a"] by simp
  then have "(d + 16 * ?a) div 4 = (d div 4 + 4 * (?a mod 4)) + 16 * (?a div 4)" using mod_mult_div_eq [of ?a 4] by linarith
  then have "(d + 16 * ?a) div 4 AND (3 + 16 * rep 16 3 (length ds)) = (d div 4 AND 3) + 16 * (?a div 4 AND rep 16 3 (length ds))"
    using and_digit [of "d div 4 + 4 * (?a mod 4)" 4 3 "?a div 4" "rep 16 3 (length ds)"] d by simp
  moreover have "(d + 16 * ?a) AND (3 + 16 * rep 16 3 (length ds)) = (d AND 3) + 16 * (?a AND rep 16 3 (length ds))"
    using and_digit [of d 4 3 ?a "rep 16 3 (length ds)"] Cons.prems by simp
  ultimately show ?case using Cons by (simp add: nib2_def)
qed simp


text \<open>The third step adds the nibbles of each byte; the list has two of them per byte.\<close>

fun pair_sums :: "nat list \<Rightarrow> nat list" where
  "pair_sums (c # d # ds) = (c + d) # pair_sums ds"
| "pair_sums ds = []"

lemma add_digits: "(a :: nat) = r + 16 * q \<Longrightarrow> c + 16 * d + 256 * a + (d + 16 * a) = c + d + 16 * (d + r) + 256 * (a + q)"
  by simp

lemma step3_digits:
  assumes "\<forall>d \<in> set ds. d \<le> 4" "length ds = 2 * n"
  shows "(digits_value 16 ds + digits_value 16 ds div 16) AND rep 256 15 n = digits_value 256 (pair_sums ds)
    \<and> digits_value 16 ds mod 16 \<le> 4"
  using assms
proof (induction ds arbitrary: n rule: pair_sums.induct)
  case (1 c d ds)
  then obtain k where k: "n = Suc k" "length ds = 2 * k" by (cases n) auto
  let ?a = "digits_value 16 ds"
  let ?b = "(c + d) + 16 * (d + ?a mod 16)"
  have v: "digits_value 16 (c # d # ds) = c + 16 * d + 256 * ?a" by simp
  have IH: "(?a + ?a div 16) AND rep 256 15 k = digits_value 256 (pair_sums ds)" "?a mod 16 \<le> 4" using 1 k(2) by auto
  have cd: "c \<le> 4" "d \<le> 4" using 1(2) by auto
  have "(c + 16 * d + 256 * ?a) div 16 = d + 16 * ?a" using cd by auto
  then have sum: "c + 16 * d + 256 * ?a + (c + 16 * d + 256 * ?a) div 16 = ?b + 256 * (?a + ?a div 16)"
    using add_digits [of ?a "?a mod 16" "?a div 16" c d] by (simp only: mod_mult_div_eq)
  have "?b AND 15 = c + d"
  proof -
    have "(s + 16 * z) AND 15 = s" if "s < 16" for s z :: nat
    proof -
      have "(s + 16 * z) AND 15 = take_bit 4 (s + 16 * z)" by (simp add: take_bit_eq_mask mask_eq_exp_minus_1)
      then show ?thesis using that by (simp add: take_bit_eq_mod)
    qed
    note clear = this
    show ?thesis by (rule clear) (use cd in simp)
  qed
  moreover have "?b < 2 ^ 8" using cd IH(2) by simp
  ultimately have "(?b + 256 * (?a + ?a div 16)) AND (15 + 256 * rep 256 15 k) = (c + d) + 256 * ((?a + ?a div 16) AND rep 256 15 k)"
    using and_digit [of ?b 8 15 "?a + ?a div 16" "rep 256 15 k"] by simp
  moreover have "(c + 16 * d + 256 * ?a) mod 16 \<le> 4" using mod_mult_self2 [of c 16 "d + 16 * ?a"] cd(1) by (simp add: add.assoc)
  ultimately show ?case unfolding v unfolding k(1) rep.simps sum pair_sums.simps digits_value.simps(2) IH(1) by blast
qed simp_all

text \<open>The product with \<open>0x0101010101010101\<close> collects the sum of the eight bytes in the highest byte.\<close>

lemma top_byte:
  fixes low s high :: nat
  assumes "low < 2 ^ 56" "s < 2 ^ 8"
  shows "(low + 2 ^ 56 * s + 2 ^ 64 * high) mod 2 ^ 64 div 2 ^ 56 = s"
proof -
  have "low + 2 ^ 56 * s < 2 ^ 64" using assms by simp
  then show ?thesis using assms(1) by simp
qed

lemma step4_digits:
  fixes a b c d e f g h :: nat
  assumes "a \<le> 8" "b \<le> 8" "c \<le> 8" "d \<le> 8" "e \<le> 8" "f \<le> 8" "g \<le> 8" "h \<le> 8"
  shows "(digits_value 256 [a, b, c, d, e, f, g, h] * 0x0101010101010101) mod 2 ^ 64 div 2 ^ 56 = a + b + c + d + e + f + g + h"
proof -
  define low where "low = a * 0x01010101010101 + b * 0x01010101010100 + c * 0x01010101010000 + d * 0x01010101000000 + e * 0x01010100000000
    + f * 0x01010000000000 + g * 0x01000000000000"
  define high where "high = b * 0x1 + c * 0x101 + d * 0x10101 + e * 0x1010101 + f * 0x101010101 + g * 0x10101010101 + h * 0x1010101010101"
  have eq: "digits_value 256 [a, b, c, d, e, f, g, h] * 0x0101010101010101 = low + 2 ^ 56 * (a + b + c + d + e + f + g + h) + 2 ^ 64 * high"
    by (simp add: low_def high_def algebra_simps)
  show ?thesis unfolding eq by (rule top_byte) (use assms in \<open>simp_all add: low_def\<close>)
qed


lemma popcount_digits:
  assumes "\<forall>d \<in> set ds. d < 16"
  shows "popcount (4 * length ds) (digits_value 16 ds) = sum_list (map (popcount 4) ds)"
  using assms
proof (induction ds)
  case (Cons d ds)
  let ?x = "d + 16 * digits_value 16 ds"
  have low: "bit ?x k \<longleftrightarrow> bit d k" if "k < 4" for k
  proof -
    have "take_bit 4 ?x = d" using Cons.prems by (simp add: take_bit_eq_mod)
    then show ?thesis using bit_take_bit_iff [of 4 ?x k] that by simp
  qed
  have high: "bit ?x (k + 4) \<longleftrightarrow> bit (digits_value 16 ds) k" for k
  proof -
    have "drop_bit 4 ?x = digits_value 16 ds" using Cons.prems by (simp add: drop_bit_eq_div)
    then show ?thesis using bit_drop_bit_eq [of 4 ?x] by (simp add: add.commute)
  qed
  have "[0..<4 * length (d # ds)] = [0..<4] @ map (\<lambda>k. k + 4) [0..<4 * length ds]"
    using upt_add_eq_append [of 0 4 "4 * length ds"] map_add_upt [of 4 "4 * length ds"] by (simp add: add.commute)
  then have "popcount (4 * length (d # ds)) ?x = length (filter (bit ?x) [0..<4]) + length (filter (\<lambda>k. bit ?x (k + 4)) [0..<4 * length ds])"
    by (simp add: popcount_def filter_map o_def)
  also have "filter (bit ?x) [0..<4] = filter (bit d) [0..<4]" by (rule filter_cong) (use low in auto)
  finally show ?case using Cons high by (simp add: popcount_def)
qed (simp add: popcount_def)

lemma digits_exist: "x < 16 ^ n \<Longrightarrow> \<exists>ds. length ds = n \<and> (\<forall>d \<in> set ds. d < 16) \<and> digits_value 16 ds = x"
proof (induction n arbitrary: x)
  case (Suc n)
  then have "x div 16 < 16 ^ n" by (simp add: less_mult_imp_div_less mult.commute)
  from Suc.IH [OF this] obtain ds where "length ds = n" "\<forall>d \<in> set ds. d < 16" "digits_value 16 ds = x div 16" by blast
  then show ?case by (intro exI [of _ "x mod 16 # ds"]) auto
qed simp

section \<open>Population count: the result\<close>

lemma rep_numeral: "rep B c (numeral n) = c + B * rep B c (pred_numeral n)"
  by (simp add: numeral_eq_Suc)

lemma pop_masks:
  "rep 16 5 16 = 0x5555555555555555" "rep 16 3 16 = 0x3333333333333333" "rep 256 15 8 = 0x0F0F0F0F0F0F0F0F"
  by (simp_all add: rep_numeral)

lemma unat_pop1: "unat (pop1 x) = unat x - (unat x div 2 AND rep 16 5 16)"
proof -
  have u: "unat (drop_bit 1 x AND 0x5555555555555555) = unat x div 2 AND rep 16 5 16"
    unfolding unsigned_and_eq unat_drop_bit_eq pop_masks by (simp add: drop_bit_nat_def)
  have "drop_bit 1 x AND 0x5555555555555555 \<le> x"
    unfolding word_le_nat_alt u using and_le(1) [of "unat x div 2" "rep 16 5 16"] by linarith
  then show ?thesis using u by (simp only: pop1_def unat_sub)
qed

lemma no_carry: "unat (x :: u64) + unat y < 2 ^ 64 \<Longrightarrow> unat (x + y) = unat x + unat y"
  using unat_add_lem [of x y] by simp

lemma unat_pop2: "unat (pop2 x) = (unat x AND rep 16 3 16) + (unat x div 4 AND rep 16 3 16)"
proof -
  have u: "unat (x AND 0x3333333333333333) = unat x AND rep 16 3 16" "unat (drop_bit 2 x AND 0x3333333333333333) = unat x div 4 AND rep 16 3 16"
    unfolding unsigned_and_eq unat_drop_bit_eq pop_masks by (simp_all add: drop_bit_nat_def)
  have "unat (x AND 0x3333333333333333) + unat (drop_bit 2 x AND 0x3333333333333333) < 2 ^ 64"
    unfolding u using and_le(2) [of "unat x" "rep 16 3 16"] and_le(2) [of "unat x div 4" "rep 16 3 16"] unfolding pop_masks by simp
  from no_carry [OF this] show ?thesis unfolding pop2_def u .
qed


lemma unat_pop3:
  assumes "unat x + unat x div 16 < 2 ^ 64"
  shows "unat (pop3 x) = (unat x + unat x div 16) AND rep 256 15 8"
proof -
  have d: "unat (drop_bit 4 x) = unat x div 16" unfolding unat_drop_bit_eq by (simp add: drop_bit_nat_def)
  then have "unat (x + drop_bit 4 x) = unat x + unat x div 16" using no_carry [of x "drop_bit 4 x"] assms by simp
  then show ?thesis unfolding pop3_def unsigned_and_eq pop_masks by simp
qed

lemma unat_pop4: "unat (pop4 x) = (unat x * 0x0101010101010101) mod 2 ^ 64 div 2 ^ 56"
  unfolding pop4_def unat_drop_bit_eq unat_word_ariths drop_bit_nat_def by simp


lemma digits_le: "\<forall>d \<in> set ds. d \<le> 4 \<Longrightarrow> digits_value 16 ds \<le> rep 16 4 (length ds)"
  by (induction ds) auto

lemma pair_sums_facts:
  assumes "\<forall>e \<in> set es. e \<le> 4" "length es = 2 * n"
  shows "length (pair_sums es) = n \<and> sum_list (pair_sums es) = sum_list es \<and> (\<forall>b \<in> set (pair_sums es). b \<le> 8)"
  using assms
proof (induction es arbitrary: n rule: pair_sums.induct)
  case (1 c d ds)
  then obtain k where "n = Suc k" "length ds = 2 * k" by (cases n) auto
  then show ?case using 1 by fastforce
qed simp_all

lemma step4_list:
  assumes "length bs = 8" "\<forall>b \<in> set bs. b \<le> 8"
  shows "(digits_value 256 bs * 0x0101010101010101) mod 2 ^ 64 div 2 ^ 56 = sum_list bs"
proof -
  obtain a b c d e f g h where bs: "bs = [a, b, c, d, e, f, g, h]" using assms(1) by (auto simp: length_Suc_conv numeral_eq_Suc)
  then have "a \<le> 8" "b \<le> 8" "c \<le> 8" "d \<le> 8" "e \<le> 8" "f \<le> 8" "g \<le> 8" "h \<le> 8" using assms(2) by simp_all
  from step4_digits [OF this] show ?thesis unfolding bs by (simp only: sum_list.Cons sum_list.Nil add.assoc add_0_right)
qed

lemma pop_correct: "unat (pop4 (pop3 (pop2 (pop1 x)))) = popcount 64 (unat x)"
proof -
  have "unat x < 16 ^ 16" using unsigned_less [of x] by simp
  then obtain ds where ds: "length ds = 16" "\<forall>d \<in> set ds. d < 16" "digits_value 16 ds = unat x" using digits_exist by blast
  define es where "es = map (nib2 \<circ> nib1) ds"
  have es: "es = map (popcount 4) ds" "\<forall>e \<in> set es. e \<le> 4" "length es = 2 * 8" using ds nibbles by (auto simp: es_def)
  have u1: "unat (pop1 x) = digits_value 16 (map nib1 ds)" unfolding unat_pop1 using step1_digits [OF ds(2)] ds by simp
  have "\<forall>d \<in> set (map nib1 ds). d < 16" using ds(2) nibbles by auto
  from step2_digits [OF this] have u2: "unat (pop2 (pop1 x)) = digits_value 16 es" unfolding unat_pop2 u1 using ds(1) by (simp add: es_def)
  have "digits_value 16 es \<le> rep 16 4 16" using digits_le [OF es(2)] es(3) by simp
  then have "digits_value 16 es + digits_value 16 es div 16 < 2 ^ 64" by (simp add: rep_numeral)
  then have u3: "unat (pop3 (pop2 (pop1 x))) = digits_value 256 (pair_sums es)"
    using unat_pop3 [of "pop2 (pop1 x)"] step3_digits [OF es(2,3)] u2 by simp
  have "length (pair_sums es) = 8" "sum_list (pair_sums es) = sum_list es" "\<forall>b \<in> set (pair_sums es). b \<le> 8" using pair_sums_facts [OF es(2,3)] by simp_all
  then have "unat (pop4 (pop3 (pop2 (pop1 x)))) = sum_list es" using step4_list [of "pair_sums es"] unfolding unat_pop4 u3 by simp
  then show ?thesis using popcount_digits [OF ds(2)] ds(1,3) es(1) by simp
qed

lemma straight_popcnt: "\<forall>i \<in> set (popcnt_instrs rd rs). straight i"
  by (auto simp: popcnt_instrs_def copy_input_def build_mask_def)

text \<open>
  C20: the code of \<open>emit_popcnt_isel\<close> leaves the number of set bits of the 64-bit source in the destination, for every source value, and changes no
  register but the destination and its three scratch registers.
\<close>

theorem emit_popcnt_isel_correct:
  assumes "rd \<notin> {Zero, T4, T5, T6}" "m_pc m = 0"
  shows "\<exists>n m'. run n (emit_popcnt_isel rd rs) m = Some m' \<and> unat (rget m' rd) = popcount 64 (unat (rget m rs))
    \<and> (\<forall>r. r \<notin> {rd, T4, T5, T6} \<longrightarrow> rget m' r = rget m r) \<and> m_mem m' = m_mem m"
proof -
  obtain m' where m': "seq (popcnt_instrs rd rs) m = Some m'" "rget m' rd = pop4 (pop3 (pop2 (pop1 (rget m rs))))"
    "\<forall>r. r \<notin> {rd, T4, T5, T6} \<longrightarrow> rget m' r = rget m r" "m_mem m' = m_mem m"
    using popcnt_seq [OF assms(1), of rs m] unfolding loads_def by blast
  then show ?thesis using run_seq [OF m'(1) straight_popcnt assms(2)] pop_correct unfolding emit_popcnt_isel_def by metis
qed

theorem emit_popcnt_isel_correct_witness:
  "\<exists>n m'. run n (emit_popcnt_isel A0 A1) (m0\<lparr>m_regs := (\<lambda>_. 0xFF)\<rparr>) = Some m' \<and> unat (rget m' A0) = 8"
proof -
  have "popcount 64 255 = 8" by (simp add: popcount_def bit_iff_odd upt_conv_Cons)
  moreover have "unat (rget (m0\<lparr>m_regs := (\<lambda>_. 0xFF)\<rparr>) A1) = 255" by (simp add: rget_def)
  ultimately show ?thesis using emit_popcnt_isel_correct [of A0 "m0\<lparr>m_regs := (\<lambda>_. 0xFF)\<rparr>" A1] by (auto simp: m0_def)
qed

section \<open>Zero counts\<close>

text \<open>
  The branch of a narrowing step skips 8 bytes, counted from the branch itself: it only skips the move, and the accumulation of the shift is executed in
  every case.
\<close>

lemma narrow_reaches:
  assumes "m_pc m = 4 * length pre" "rd \<notin> {Zero, T4, T5, T6}" "s < 64" "simm 11 s"
  shows "\<exists>m'. reaches (emit (pre @ narrow rd s @ post)) m m' \<and> m_pc m' = m_pc m + 16 \<and> rget m' T4 = rget m T4 + scast s
    \<and> (\<forall>r. r \<notin> {rd, T4, T5} \<longrightarrow> rget m' r = rget m r)"
proof -
  let ?b = "Base (Beq T5 Zero 8)" and ?v = "Arith (Addi rd T5 0)" and ?a = "Arith (Addi T4 T4 s)"
  let ?code = "emit (pre @ narrow rd s @ post)"
  define m1 where "m1 = write_reg T5 (drop_bit (unat s) (rget m rd)) m"
  have m1: "reaches ?code m m1" "m_pc m1 = 4 * length (pre @ [Arith (Srli T5 rd s)])"
    using reaches_step [of "Arith (Srli T5 rd s)" m m1 pre "[?b, ?v, ?a] @ post"] assms by (simp_all add: m1_def ex_shift narrow_def)
  have off: "simm 12 8" "\<not> bit (8 :: i32) 0" "simm 11 0" by (simp_all add: simm_def)
  obtain m2 where m2: "reaches ?code m1 m2" "m_pc m2 = 4 * length (pre @ [Arith (Srli T5 rd s), ?b, ?v])"
    "\<forall>r. r \<notin> {rd} \<longrightarrow> rget m2 r = rget m1 r"
  proof (cases "rget m1 T5 = 0")
    case True
    define m2 where "m2 = m1\<lparr>m_pc := m_pc m1 + 8\<rparr>"
    have "ex ?b m1 = Some m2" using True off by (simp add: ex_beq jump_def m2_def Let_def nat_add_distrib)
    then have "reaches ?code m1 m2" using reaches_step [of ?b m1 m2 "pre @ [Arith (Srli T5 rd s)]" "[?v, ?a] @ post"] m1(2) by (simp add: narrow_def)
    then show ?thesis using m1(2) that [of m2] by (simp add: m2_def)
  next
    case False
    define m2 where "m2 = write_reg rd (rget m1 T5) (next_pc m1)"
    have "seq [?b, ?v] m1 = Some m2" using False off by (simp add: ex_beq ex_imm m2_def)
    moreover have "reaches ?code m1 (next_pc m1)" using reaches_step [of ?b m1 "next_pc m1" "pre @ [Arith (Srli T5 rd s)]" "[?v, ?a] @ post"] m1(2) False off
      by (simp add: narrow_def ex_beq)
    moreover have "reaches ?code (next_pc m1) m2" using reaches_step [of ?v "next_pc m1" m2 "pre @ [Arith (Srli T5 rd s), ?b]" "[?a] @ post"] m1(2) off
      by (simp add: narrow_def ex_imm m2_def)
    ultimately show ?thesis using m1(2) that [of m2] reaches_trans by (auto simp: m2_def)
  qed
  define m3 where "m3 = write_reg T4 (rget m2 T4 + scast s) m2"
  have "reaches ?code m2 m3" using reaches_step [of ?a m2 m3 "pre @ [Arith (Srli T5 rd s), ?b, ?v]" post] m2(2) assms by (simp add: narrow_def ex_imm m3_def)
  then have "reaches ?code m m3" using m1(1) m2(1) reaches_trans by blast
  moreover have "m_pc m3 = m_pc m + 16" "rget m3 T4 = rget m T4 + scast s" "\<forall>r. r \<notin> {rd, T4, T5} \<longrightarrow> rget m3 r = rget m r"
    using m1(2) m2(2,3) assms by (auto simp: m3_def m1_def)
  ultimately show ?thesis by blast
qed

lemma narrow_list_reaches:
  assumes "m_pc m = 4 * length pre" "rd \<notin> {Zero, T4, T5, T6}" "\<forall>s \<in> set ss. s < 64 \<and> simm 11 s"
  shows "\<exists>m'. reaches (emit (pre @ concat (map (narrow rd) ss) @ post)) m m' \<and> m_pc m' = m_pc m + 16 * length ss
    \<and> rget m' T4 = rget m T4 + sum_list (map scast ss) \<and> (\<forall>r. r \<notin> {rd, T4, T5} \<longrightarrow> rget m' r = rget m r)"
  using assms(1,3)
proof (induction ss arbitrary: pre m)
  case Nil
  then show ?case by (auto intro: reaches_refl)
next
  case (Cons s ss)
  let ?code = "emit (pre @ concat (map (narrow rd) (s # ss)) @ post)"
  obtain m1 where m1: "reaches ?code m m1" "m_pc m1 = m_pc m + 16" "rget m1 T4 = rget m T4 + scast s" "\<forall>r. r \<notin> {rd, T4, T5} \<longrightarrow> rget m1 r = rget m r"
    using narrow_reaches [OF Cons.prems(1) assms(2), of s "concat (map (narrow rd) ss) @ post"] Cons.prems(2) by auto
  have "m_pc m1 = 4 * length (pre @ narrow rd s)" using m1(2) Cons.prems(1) by (simp add: narrow_def)
  from Cons.IH [OF this] obtain m2 where m2: "reaches ?code m1 m2" "m_pc m2 = m_pc m1 + 16 * length ss" "rget m2 T4 = rget m1 T4 + sum_list (map scast ss)"
    "\<forall>r. r \<notin> {rd, T4, T5} \<longrightarrow> rget m2 r = rget m1 r" using Cons.prems(2) by auto
  then show ?case using m1 reaches_trans [OF m1(1) m2(1)] by (intro exI [of _ m2]) (simp add: add.assoc)
qed

lemma reaches_jump:
  assumes "m_pc m = 4 * length pre"
  shows "reaches (emit (pre @ Base (Jal Zero 4) # post)) m (m\<lparr>m_regs := (m_regs m)(Zero := of_nat (m_pc m) + 4), m_pc := m_pc m + 4\<rparr>)"
proof -
  have "simm 20 4" "\<not> bit (4 :: i32) 0" by (simp_all add: simm_def)
  then show ?thesis by (intro reaches_step [OF _ assms]) (simp add: ex_jal jump_def rset_def nat_add_distrib)
qed

lemma shifts_ok: "\<forall>s \<in> set [32, 16, 8, 4, 2, 1 :: u32]. s < 64 \<and> simm 11 s"
  by (simp add: simm_def)

lemma shifts_sum: "sum_list (map scast [32, 16, 8, 4, 2, 1 :: u32]) = (63 :: u64)"
  by simp

text \<open>
  \<open>emit_clz_isel\<close> leaves 64 for every input: the jump over the zero case goes to the zero case, which is the instruction right behind it.
\<close>

lemma emit_clz_isel_constant:
  assumes "rd \<notin> {Zero, T4, T5, T6}" "m_pc m = 0"
  shows "\<exists>n m'. run n (emit_clz_isel rd rs) m = Some m' \<and> rget m' rd = 64"
proof -
  let ?pre = "copy_input rd rs @ [Arith (Addi T4 Zero 0)]" and ?beq = "Base (Beq rd Zero (6 * 16 + 12))"
  let ?sub = "[Arith (Addi T6 Zero 63), Arith (Sub rd T6 T4)]" and ?last = "Arith (Addi rd Zero 64)"
  let ?head = "?pre @ ?beq # narrowing rd @ ?sub" and ?rest = "narrowing rd @ ?sub @ Base (Jal Zero 4) # [?last]"
  let ?code = "emit (?head @ Base (Jal Zero 4) # [?last])"
  have code: "emit_clz_isel rd rs = ?code" by (simp add: emit_clz_isel_def)
  have imm: "simm 11 0" "simm 11 63" "simm 11 64" "simm 12 108" "\<not> bit (108 :: i32) 0" by (simp_all add: simm_def bit_iff_odd_drop_bit)
  have len: "length (narrowing rd) = 24" by (simp add: narrowing_def narrow_def)
  obtain m1 where m1: "seq ?pre m = Some m1" using imm by (cases "rs = rd") (simp_all add: copy_input_def ex_imm)
  have s: "\<forall>i \<in> set ?pre. straight i" by (auto simp: copy_input_def)
  have r1: "reaches ?code m m1" "m_pc m1 = 4 * length ?pre"
    using reaches_seq [OF m1 s, of "[]" "?beq # ?rest"] seq_pc [OF m1 s] assms(2) by simp_all
  have "\<exists>m2. reaches ?code m1 m2 \<and> m_pc m2 = 4 * length ?head"
  proof (cases "rget m1 rd = 0")
    case True
    define m2 where "m2 = m1\<lparr>m_pc := m_pc m1 + 108\<rparr>"
    have "ex ?beq m1 = Some m2" using True imm by (simp add: ex_beq jump_def m2_def nat_add_distrib)
    then have "reaches ?code m1 m2" using reaches_step [OF _ r1(2), of ?beq m2 ?rest] by simp
    then show ?thesis using r1(2) len by (auto simp: m2_def)
  next
    case False
    have "reaches ?code m1 (next_pc m1)" using reaches_step [OF _ r1(2), of ?beq "next_pc m1" ?rest] False imm by (simp add: ex_beq)
    moreover obtain m2 where m2: "reaches ?code (next_pc m1) m2" "m_pc m2 = m_pc m1 + 100"
      using narrow_list_reaches [of "next_pc m1" "?pre @ [?beq]" rd, OF _ assms(1) shifts_ok, of "?sub @ Base (Jal Zero 4) # [?last]"] r1(2) by (auto simp: narrowing_def)
    moreover obtain m3 where m3: "seq ?sub m2 = Some m3" using imm by (auto simp: ex_imm ex_reg)
    moreover have "reaches ?code m2 m3" using reaches_seq [OF m3, of "?pre @ ?beq # narrowing rd" "Base (Jal Zero 4) # [?last]"] m2(2) r1(2) len by simp
    moreover have "m_pc m3 = 4 * length ?head" using seq_pc [OF m3] m2(2) r1(2) len by simp
    ultimately show ?thesis using reaches_trans by blast
  qed
  then obtain m2 where m2: "reaches ?code m1 m2" "m_pc m2 = 4 * length ?head" by blast
  define m3 where "m3 = m2\<lparr>m_regs := (m_regs m2)(Zero := of_nat (m_pc m2) + 4), m_pc := m_pc m2 + 4\<rparr>"
  have "reaches ?code m2 m3" unfolding m3_def by (rule reaches_jump [OF m2(2)])
  moreover define m4 where "m4 = write_reg rd 64 m3"
  have "reaches ?code m3 m4" using reaches_step [of ?last m3 m4 "?head @ [Base (Jal Zero 4)]" "[]"] imm m2(2) by (simp add: ex_imm m4_def m3_def)
  ultimately have "reaches ?code m m4" using r1(1) m2(1) reaches_trans by blast
  moreover have "m_pc m4 = length ?code" "rget m4 rd = 64" unfolding length_emit using m2(2) assms(1) by (simp_all add: m4_def m3_def)
  ultimately show ?thesis unfolding code using reaches_end by blast
qed

text \<open>\<open>emit_ctz_isel\<close> leaves 63 for every input but zero, and 127 for zero.\<close>

lemma emit_ctz_isel_constant:
  assumes "rd \<notin> {Zero, T4, T5, T6}" "m_pc m = 0"
  shows "\<exists>n m'. run n (emit_ctz_isel rd rs) m = Some m' \<and> rget m' rd = (if rget m rs = 0 then 127 else 63)"
proof -
  let ?pre = "copy_input rd rs @ [Arith (Sub T5 Zero rd), Arith (And T5 rd T5), Arith (Sltiu T6 rd 1), Arith (Addi rd T5 0), Arith (Addi T4 Zero 0)]"
  let ?post = "[Arith (Slli T6 T6 6), Arith (Add rd T4 T6)]"
  let ?code = "emit (?pre @ narrowing rd @ ?post)"
  have code: "emit_ctz_isel rd rs = ?code" by (simp add: emit_ctz_isel_def)
  have imm: "simm 11 0" "simm 11 1" by (simp_all add: simm_def)
  have ne: "rd \<noteq> Zero" "T4 \<noteq> rd" "T5 \<noteq> rd" "T6 \<noteq> rd" "rd \<noteq> T4" "rd \<noteq> T5" "rd \<noteq> T6" using assms(1) by auto
  have len: "length (narrowing rd) = 24" by (simp add: narrowing_def narrow_def)
  obtain m1 where m1: "seq ?pre m = Some m1" "rget m1 T4 = 0" "rget m1 T6 = truth (rget m rs = 0)"
    using imm ne by (cases "rs = rd") (simp_all add: copy_input_def ex_imm ex_reg)
  have s: "\<forall>i \<in> set ?pre. straight i" by (auto simp: copy_input_def)
  have r1: "reaches ?code m m1" "m_pc m1 = 4 * length ?pre"
    using reaches_seq [OF m1(1) s, of "[]" "narrowing rd @ ?post"] seq_pc [OF m1(1) s] assms(2) by simp_all
  obtain m2 where m2: "reaches ?code m1 m2" "m_pc m2 = m_pc m1 + 96" "rget m2 T4 = 63" "rget m2 T6 = truth (rget m rs = 0)"
    using narrow_list_reaches [OF r1(2) assms(1) shifts_ok, of ?post] m1(2,3) assms(1) unfolding narrowing_def shifts_sum by auto
  obtain m3 where m3: "seq ?post m2 = Some m3" "rget m3 rd = 63 + push_bit 6 (truth (rget m rs = 0))"
    using m2(3,4) assms(1) by (auto simp: ex_shift ex_reg)
  have "reaches ?code m2 m3" using reaches_seq [OF m3(1), of "?pre @ narrowing rd" "[]"] m2(2) r1(2) len by simp
  then have "reaches ?code m m3" using r1(1) m2(1) reaches_trans by blast
  moreover have "m_pc m3 = length ?code" unfolding length_emit using seq_pc [OF m3(1)] m2(2) r1(2) len by simp
  moreover have "rget m3 rd = (if rget m rs = 0 then 127 else 63)" using m3(2) by (simp add: truth_def)
  ultimately show ?thesis unfolding code using reaches_end by blast
qed

end
