(* ===== verification/Spec2Isabelle.thy ===== *)
theory Spec2Isabelle
  imports Bd_Layout Bd_Solver Bd_Serialize Core_Msg Ive_Pmt Ive_Session Ive_Channel Ive_Flow Scg_Roundtrip Scg_Domtree Scg_Uses Scg_Loopcheck Scg_Callgraph Rv64_Bits
begin

text \<open>
  Verification of the VUMA behavioral descriptor crate.
\<close>

end
